(* ===== verification/Prelude.thy ===== *)
theory Prelude
  imports Main "HOL-Library.Word" "HOL-Library.Multiset"
begin

text \<open>
  Shared vocabulary of the development: comparison results and stable sorting as Rust's
  \<open>Ordering\<close> and \<open>slice::sort_by\<close> have them, saturating and checked arithmetic on
  \<open>u64\<close>, fallible computations as sums, and the interfaces (locales) several
  components share.
\<close>

named_theorems sat_simps \<open>saturating and checked u64 arithmetic, read through unat\<close>
named_theorems cmp_simps \<open>comparison results\<close>

subsection \<open>Fallible computations\<close>

text \<open>Rust's \<open>?\<close> operator: \<open>Inl\<close> is the error, \<open>Inr\<close> the value.\<close>

definition and_then :: "'e + 'a \<Rightarrow> ('a \<Rightarrow> 'e + 'b) \<Rightarrow> 'e + 'b" where
  "and_then r f = (case r of Inl e \<Rightarrow> Inl e | Inr x \<Rightarrow> f x)"

lemma and_then_simps [simp]:
  "and_then (Inl e) f = Inl e" "and_then (Inr x) f = f x"
  by (simp_all add: and_then_def)

lemma and_then_Inr_iff: "and_then r f = Inr y \<longleftrightarrow> (\<exists>x. r = Inr x \<and> f x = Inr y)"
  by (cases r) auto

lemma and_then_Inl_iff:
  "and_then r f = Inl e \<longleftrightarrow> r = Inl e \<or> (\<exists>x. r = Inr x \<and> f x = Inl e)"
  by (cases r) auto

text \<open>A sequence of checks joined by \<open>?\<close>: the first failure is the result.\<close>

fun run_checks :: "('e + unit) list \<Rightarrow> 'e + unit" where
  "run_checks [] = Inr ()"
| "run_checks (c # cs) = and_then c (\<lambda>_. run_checks cs)"

lemma run_checks_ok_iff: "run_checks cs = Inr () \<longleftrightarrow> (\<forall>c \<in> set cs. c = Inr ())"
  by (induction cs) (auto simp: and_then_Inr_iff)

lemma run_checks_append:
  "run_checks (xs @ ys) = and_then (run_checks xs) (\<lambda>_. run_checks ys)"
  by (induction xs) (auto simp: and_then_def split: sum.splits)

lemma run_checks_error:
  "run_checks cs = Inl e \<Longrightarrow> \<exists>pre post. cs = pre @ Inl e # post \<and> (\<forall>c \<in> set pre. c = Inr ())"
proof (induction cs)
  case Nil
  then show ?case by simp
next
  case (Cons c cs)
  show ?case
  proof (cases c)
    case (Inl d)
    with Cons.prems have "c # cs = [] @ Inl e # cs" by simp
    then show ?thesis by fastforce
  next
    case (Inr u)
    with Cons.prems Cons.IH obtain pre post
      where "cs = pre @ Inl e # post" "\<forall>c \<in> set pre. c = Inr ()" by auto
    with Inr have "c # cs = (c # pre) @ Inl e # post \<and> (\<forall>x \<in> set (c # pre). x = Inr ())"
      by simp
    then show ?thesis by blast
  qed
qed

subsection \<open>Saturating and checked u64 arithmetic\<close>

type_synonym u64 = "64 word"

abbreviation u64_max :: nat where
  "u64_max \<equiv> 18446744073709551615"

definition sat_add :: "u64 \<Rightarrow> u64 \<Rightarrow> u64" where
  "sat_add a b = (if unat a + unat b \<le> u64_max then a + b else of_nat u64_max)"

definition sat_sub :: "u64 \<Rightarrow> u64 \<Rightarrow> u64" where
  "sat_sub a b = (if b \<le> a then a - b else 0)"

definition checked_add :: "u64 \<Rightarrow> u64 \<Rightarrow> u64 option" where
  "checked_add a b = (if unat a + unat b \<le> u64_max then Some (a + b) else None)"

lemma unat_u64_bound [simp]: "unat (a :: u64) \<le> u64_max"
  using unsigned_less [of a, where ?'a = nat] by simp

lemma unat_u64_add: "unat a + unat b \<le> u64_max \<Longrightarrow> unat (a + b :: u64) = unat a + unat b"
  by (simp add: unat_word_ariths)

lemma unat_sat_add [sat_simps]: "unat (sat_add a b) = min (unat a + unat b) u64_max"
  by (auto simp: sat_add_def unat_u64_add unat_of_nat min_def)

lemma unat_sat_sub [sat_simps]: "unat (sat_sub a b) = unat a - unat b"
  by (auto simp: sat_sub_def unat_sub word_le_nat_alt not_le)

lemma checked_add_Some: "checked_add a b = Some c \<Longrightarrow> unat c = unat a + unat b"
  by (auto simp: checked_add_def unat_u64_add split: if_splits)

lemma checked_add_None [sat_simps]: "checked_add a b = None \<longleftrightarrow> u64_max < unat a + unat b"
  by (auto simp: checked_add_def)

subsection \<open>Comparison results\<close>

datatype ordering = Less | Equal | Greater

fun then_with :: "ordering \<Rightarrow> ordering \<Rightarrow> ordering" where
  "then_with Equal o2 = o2"
| "then_with o1 _ = o1"

fun reverse_ordering :: "ordering \<Rightarrow> ordering" where
  "reverse_ordering Less = Greater"
| "reverse_ordering Equal = Equal"
| "reverse_ordering Greater = Less"

lemma reverse_ordering_iff [simp]:
  "reverse_ordering c = Less \<longleftrightarrow> c = Greater"
  "reverse_ordering c = Equal \<longleftrightarrow> c = Equal"
  "reverse_ordering c = Greater \<longleftrightarrow> c = Less"
  "Less = reverse_ordering c \<longleftrightarrow> c = Greater"
  "Equal = reverse_ordering c \<longleftrightarrow> c = Equal"
  "Greater = reverse_ordering c \<longleftrightarrow> c = Less"
  by (cases c; simp)+

lemma reverse_reverse_ordering [simp]: "reverse_ordering (reverse_ordering c) = c"
  by (cases c) simp_all

definition cmp_of :: "'a::linorder \<Rightarrow> 'a \<Rightarrow> ordering" where
  "cmp_of a b = (if a < b then Less else if b < a then Greater else Equal)"

lemma then_with_Equal [simp]: "then_with c Equal = c"
  by (cases c) simp_all

lemma then_with_eq_Equal [cmp_simps]: "then_with a b = Equal \<longleftrightarrow> a = Equal \<and> b = Equal"
  by (cases a) auto

lemma then_with_eq_Less [cmp_simps]:
  "then_with a b = Less \<longleftrightarrow> a = Less \<or> a = Equal \<and> b = Less"
  by (cases a) auto

lemma then_with_eq_Greater [cmp_simps]:
  "then_with a b = Greater \<longleftrightarrow> a = Greater \<or> a = Equal \<and> b = Greater"
  by (cases a) auto

lemma reverse_then_with:
  "reverse_ordering (then_with a b) = then_with (reverse_ordering a) (reverse_ordering b)"
  by (cases a) auto

lemma cmp_of_simps [cmp_simps]:
  "cmp_of a b = Equal \<longleftrightarrow> a = b"
  "cmp_of a b = Less \<longleftrightarrow> a < b"
  "cmp_of a b = Greater \<longleftrightarrow> b < a"
  by (auto simp: cmp_of_def)

lemma cmp_of_swap: "cmp_of b a = reverse_ordering (cmp_of a b)"
  by (auto simp: cmp_of_def)

text \<open>
  The contract Rust's sorting functions ask of a comparator, on the values in \<open>A\<close> that the
  caller passes: it is antisymmetric under reversal and its \<open>not Greater\<close> is transitive.
\<close>

locale comparator =
  fixes A :: "'a set" and cmp :: "'a \<Rightarrow> 'a \<Rightarrow> ordering"
  assumes swap: "a \<in> A \<Longrightarrow> b \<in> A \<Longrightarrow> cmp b a = reverse_ordering (cmp a b)"
    and trans: "a \<in> A \<Longrightarrow> b \<in> A \<Longrightarrow> c \<in> A \<Longrightarrow>
      cmp a b \<noteq> Greater \<Longrightarrow> cmp b c \<noteq> Greater \<Longrightarrow> cmp a c \<noteq> Greater"
begin

lemma refl: "a \<in> A \<Longrightarrow> cmp a a = Equal"
  using swap [of a a] by (cases "cmp a a") auto

lemma Less_iff: "a \<in> A \<Longrightarrow> b \<in> A \<Longrightarrow> cmp a b = Less \<longleftrightarrow> cmp b a = Greater"
  by (simp add: swap [of a b])

lemma Equal_iff:
  "a \<in> A \<Longrightarrow> b \<in> A \<Longrightarrow> cmp a b = Equal \<longleftrightarrow> cmp a b \<noteq> Greater \<and> cmp b a \<noteq> Greater"
  by (cases "cmp a b") (auto simp: swap [of a b])

lemma less_trans:
  "a \<in> A \<Longrightarrow> b \<in> A \<Longrightarrow> c \<in> A \<Longrightarrow> cmp a b = Less \<Longrightarrow> cmp b c \<noteq> Greater \<Longrightarrow> cmp a c = Less"
  using Less_iff trans by metis

lemma Greater_cong_left:
  "a \<in> A \<Longrightarrow> b \<in> A \<Longrightarrow> c \<in> A \<Longrightarrow> cmp a b = Equal \<Longrightarrow> cmp a c = Greater \<longleftrightarrow> cmp b c = Greater"
  using Equal_iff trans by metis

lemma Greater_cong_right:
  "a \<in> A \<Longrightarrow> b \<in> A \<Longrightarrow> c \<in> A \<Longrightarrow> cmp a b = Equal \<Longrightarrow> cmp c a = Greater \<longleftrightarrow> cmp c b = Greater"
  using Equal_iff trans by metis

lemma equal_left:
  assumes m: "a \<in> A" "b \<in> A" "c \<in> A" and eq: "cmp a b = Equal"
  shows "cmp a c = cmp b c"
proof (cases "cmp a c")
  case Less
  then have "cmp c b = Greater" using Greater_cong_right [OF m eq] m by (simp add: Less_iff)
  with Less show ?thesis using Less_iff [of b c] m by simp
next
  case Equal
  then show ?thesis
    using Greater_cong_left [OF m eq] Greater_cong_right [OF m eq] m by (metis Equal_iff)
next
  case Greater
  then show ?thesis using Greater_cong_left [OF m eq] by simp
qed

end

text \<open>
  \<open>slice::sort_by\<close> is a stable sort: insertion of each element, from the last to the first,
  before the first element it is not greater than.
\<close>

fun insert_by :: "('a \<Rightarrow> 'a \<Rightarrow> ordering) \<Rightarrow> 'a \<Rightarrow> 'a list \<Rightarrow> 'a list" where
  "insert_by cmp x [] = [x]"
| "insert_by cmp x (y # ys) = (if cmp x y = Greater then y # insert_by cmp x ys else x # y # ys)"

definition sort_by :: "('a \<Rightarrow> 'a \<Rightarrow> ordering) \<Rightarrow> 'a list \<Rightarrow> 'a list" where
  "sort_by cmp xs = foldr (insert_by cmp) xs []"

lemma mset_insert_by [simp]: "mset (insert_by cmp x ys) = add_mset x (mset ys)"
  by (induction ys) auto

lemma mset_sort_by [simp]: "mset (sort_by cmp xs) = mset xs"
  by (induction xs) (auto simp: sort_by_def)

lemma set_sort_by [simp]: "set (sort_by cmp xs) = set xs"
  by (metis mset_sort_by set_mset_mset)

lemma length_sort_by [simp]: "length (sort_by cmp xs) = length xs"
  by (metis mset_sort_by size_mset)

lemma set_insert_by [simp]: "set (insert_by cmp x ys) = insert x (set ys)"
  by (induction ys) auto

abbreviation sorted_cmp :: "('a \<Rightarrow> 'a \<Rightarrow> ordering) \<Rightarrow> 'a list \<Rightarrow> bool" where
  "sorted_cmp cmp \<equiv> sorted_wrt (\<lambda>a b. cmp a b \<noteq> Greater)"

context comparator
begin

lemma sorted_insert_by:
  "x \<in> A \<Longrightarrow> set ys \<subseteq> A \<Longrightarrow> sorted_cmp cmp ys \<Longrightarrow> sorted_cmp cmp (insert_by cmp x ys)"
proof (induction ys)
  case Nil
  then show ?case by simp
next
  case (Cons y ys)
  show ?case
  proof (cases "cmp x y = Greater")
    case True
    with swap [of x y] Cons.prems have "cmp y x \<noteq> Greater" by simp
    with Cons True show ?thesis by simp
  next
    case False
    have "cmp x z \<noteq> Greater" if "z \<in> set ys" for z
      using trans [OF _ _ _ False, of z] that Cons.prems by auto
    with False Cons.prems show ?thesis by auto
  qed
qed

lemma sort_by_Cons: "sort_by cmp (x # xs) = insert_by cmp x (sort_by cmp xs)"
  by (simp add: sort_by_def)

lemma sorted_sort_by: "set xs \<subseteq> A \<Longrightarrow> sorted_cmp cmp (sort_by cmp xs)"
proof (induction xs)
  case Nil
  then show ?case by (simp add: sort_by_def)
next
  case (Cons x xs)
  then show ?case by (simp add: sort_by_Cons sorted_insert_by)
qed

lemma filter_insert_by:
  assumes "x \<in> A" and "k \<in> A" and "set ys \<subseteq> A"
  shows "filter (\<lambda>y. cmp y k = Equal) (insert_by cmp x ys) =
    (if cmp x k = Equal then x # filter (\<lambda>y. cmp y k = Equal) ys
     else filter (\<lambda>y. cmp y k = Equal) ys)"
  using assms(3)
proof (induction ys)
  case Nil
  then show ?case by simp
next
  case (Cons y ys)
  have "cmp y k \<noteq> Equal" if "cmp x y = Greater" and "cmp x k = Equal"
  proof
    assume "cmp y k = Equal"
    then have "cmp y x = cmp k x" using equal_left [of y k x] assms Cons.prems by simp
    then have "cmp x y = cmp x k" using swap assms Cons.prems by (metis list.set_intros(1) subset_iff)
    with that show False by simp
  qed
  with Cons show ?case by auto
qed

text \<open>Stability: the elements equal to any key keep their input order.\<close>

lemma stable_sort_by:
  "k \<in> A \<Longrightarrow> set xs \<subseteq> A \<Longrightarrow>
    filter (\<lambda>y. cmp y k = Equal) (sort_by cmp xs) = filter (\<lambda>y. cmp y k = Equal) xs"
  by (induction xs) (simp_all add: sort_by_Cons filter_insert_by, simp add: sort_by_def)

text \<open>
  Where only identical elements compare equal, the sorted list does not depend on the order
  of the input.
\<close>

lemma sorted_unique:
  assumes "mset xs = mset ys" and "set xs \<subseteq> A"
    and "sorted_cmp cmp xs" and "sorted_cmp cmp ys"
    and "\<And>a b. a \<in> set xs \<Longrightarrow> b \<in> set xs \<Longrightarrow> cmp a b = Equal \<Longrightarrow> a = b"
  shows "xs = ys"
  using assms
proof (induction xs arbitrary: ys)
  case Nil
  then show ?case by simp
next
  case (Cons x xs)
  then obtain y ys' where ys: "ys = y # ys'" by (cases ys) auto
  have sets: "set (x # xs) = set ys" using Cons.prems(1) by (metis set_mset_mset)
  have "cmp x y \<noteq> Greater"
  proof (cases "y = x")
    case True
    then show ?thesis using Cons.prems(2) refl [of x] by simp
  next
    case False
    then show ?thesis using Cons.prems(3) sets ys by auto
  qed
  moreover have "cmp y x \<noteq> Greater"
  proof (cases "y = x")
    case True
    then show ?thesis using Cons.prems(2) refl [of x] by simp
  next
    case False
    then have "x \<in> set ys'" using sets ys by auto
    then show ?thesis using Cons.prems(4) ys by simp
  qed
  ultimately have "x = y"
    using Cons.prems(2,5) sets ys Equal_iff [of x y] by (metis list.set_intros(1) subsetD)
  with Cons ys show ?case by simp
qed

lemma sort_by_perm:
  assumes "mset xs = mset ys" and "set xs \<subseteq> A"
    and "\<And>a b. a \<in> set xs \<Longrightarrow> b \<in> set xs \<Longrightarrow> cmp a b = Equal \<Longrightarrow> a = b"
  shows "sort_by cmp xs = sort_by cmp ys"
proof (rule sorted_unique)
  have "set xs = set ys" using assms(1) by (metis set_mset_mset)
  then show "sorted_cmp cmp (sort_by cmp ys)" using assms(2) by (simp add: sorted_sort_by)
qed (use assms in \<open>auto simp: sorted_sort_by\<close>)

end

interpretation linorder_cmp: comparator UNIV "cmp_of :: 'a::linorder \<Rightarrow> 'a \<Rightarrow> ordering"
  by unfold_locales (auto simp: cmp_of_def split: if_splits)

text \<open>Lexicographic combination, re-keying and reversal of comparators.\<close>

lemma comparator_then_with:
  assumes 1: "comparator A c1" and 2: "comparator A c2"
  shows "comparator A (\<lambda>a b. then_with (c1 a b) (c2 a b))"
proof (rule comparator.intro)
  fix a b
  assume "a \<in> A" "b \<in> A"
  then show "then_with (c1 b a) (c2 b a) = reverse_ordering (then_with (c1 a b) (c2 a b))"
    using comparator.swap [OF 1, of a b] comparator.swap [OF 2, of a b]
    by (simp add: reverse_then_with)
next
  fix a b c
  assume m: "a \<in> A" "b \<in> A" "c \<in> A"
    and le: "then_with (c1 a b) (c2 a b) \<noteq> Greater" "then_with (c1 b c) (c2 b c) \<noteq> Greater"
  show "then_with (c1 a c) (c2 a c) \<noteq> Greater"
  proof (cases "c1 a b")
    case Less
    then show ?thesis
      using le comparator.less_trans [OF 1 m] by (cases "c1 b c") (auto simp: cmp_simps)
  next
    case Equal
    then show ?thesis
      using le comparator.equal_left [OF 1 m] comparator.trans [OF 2 m] by (cases "c1 b c") auto
  next
    case Greater
    then show ?thesis using le by simp
  qed
qed

lemma comparator_key:
  assumes "comparator B c" and "f ` A \<subseteq> B"
  shows "comparator A (\<lambda>a b. c (f a) (f b))"
proof (rule comparator.intro)
  show "c (f b) (f a) = reverse_ordering (c (f a) (f b))" if "a \<in> A" "b \<in> A" for a b
    using that assms(2) by (intro comparator.swap [OF assms(1)]) auto
  show "c (f a) (f d) \<noteq> Greater"
    if "a \<in> A" "b \<in> A" "d \<in> A" "c (f a) (f b) \<noteq> Greater" "c (f b) (f d) \<noteq> Greater" for a b d
    using that assms(2) comparator.trans [OF assms(1), of "f a" "f b" "f d"] by auto
qed

lemma comparator_reverse:
  assumes "comparator A c"
  shows "comparator A (\<lambda>a b. c b a)"
proof (rule comparator.intro)
  show "c a b = reverse_ordering (c b a)" if "a \<in> A" "b \<in> A" for a b
    using that by (intro comparator.swap [OF assms])
  show "c d a \<noteq> Greater"
    if "a \<in> A" "b \<in> A" "d \<in> A" "c b a \<noteq> Greater" "c d b \<noteq> Greater" for a b d
    using that comparator.trans [OF assms, of d b a] by blast
qed

lemma comparator_cong:
  assumes "comparator A c" and "\<And>a b. a \<in> A \<Longrightarrow> b \<in> A \<Longrightarrow> d a b = c a b"
  shows "comparator A d"
proof (rule comparator.intro)
  show "d b a = reverse_ordering (d a b)" if "a \<in> A" "b \<in> A" for a b
    using comparator.swap [OF assms(1) that] assms(2) [OF that] assms(2) [OF that(2,1)] by metis
  show "d a e \<noteq> Greater"
    if "a \<in> A" "b \<in> A" "e \<in> A" "d a b \<noteq> Greater" "d b e \<noteq> Greater" for a b e
    using comparator.trans [OF assms(1) that(1-3)] that(4,5)
    unfolding assms(2) [OF that(1,2)] assms(2) [OF that(2,3)] assms(2) [OF that(1,3)] by blast
qed

lemma comparator_linorder_key: "comparator A (\<lambda>a b. cmp_of (f a) (f b))"
  by (rule comparator_key [OF linorder_cmp.comparator_axioms]) simp

subsection \<open>Decimal numerals\<close>

text \<open>The decimal rendering of an unsigned integer (\<open>Display\<close> of \<open>u64\<close> and \<open>usize\<close>).\<close>

definition digit :: "nat \<Rightarrow> char" where
  "digit d = char_of (48 + d)"

definition digit_val :: "char \<Rightarrow> nat" where
  "digit_val c = of_char c - 48"

definition is_digit :: "char \<Rightarrow> bool" where
  "is_digit c \<longleftrightarrow> 48 \<le> (of_char c :: nat) \<and> (of_char c :: nat) \<le> 57"

fun dec :: "nat \<Rightarrow> string" where
  "dec n = (if n < 10 then [digit n] else dec (n div 10) @ [digit (n mod 10)])"

declare dec.simps [simp del]

definition undec :: "string \<Rightarrow> nat" where
  "undec cs = foldl (\<lambda>a c. 10 * a + digit_val c) 0 cs"

lemma of_char_digit: "d < 10 \<Longrightarrow> of_char (digit d) = 48 + d"
  by (simp add: digit_def)

lemma digit_val_digit [simp]: "d < 10 \<Longrightarrow> digit_val (digit d) = d"
  by (simp add: digit_val_def of_char_digit)

lemma is_digit_digit [simp]: "d < 10 \<Longrightarrow> is_digit (digit d)"
  by (simp add: is_digit_def of_char_digit)

lemma dec_digits: "\<forall>c \<in> set (dec n). is_digit c"
  by (induction n rule: dec.induct) (subst dec.simps, auto)

lemma dec_not_Nil [simp]: "dec n \<noteq> []"
  by (subst dec.simps) auto

lemma undec_dec [simp]: "undec (dec n) = n"
proof (induction n rule: dec.induct)
  case (1 n)
  then show ?case by (subst dec.simps) (auto simp: undec_def)
qed

lemma dec_inject [simp]: "dec a = dec b \<longleftrightarrow> a = b"
  by (metis undec_dec)

lemma digit_digit_val: "is_digit c \<Longrightarrow> digit (digit_val c) = c"
  by (simp add: digit_def digit_val_def is_digit_def)

lemma digit_val_less: "is_digit c \<Longrightarrow> digit_val c < 10"
  unfolding digit_val_def is_digit_def by linarith

lemma digit_zero: "d < 10 \<Longrightarrow> digit d = CHR ''0'' \<longleftrightarrow> d = 0"
proof
  assume "d < 10" and "digit d = CHR ''0''"
  then have "48 + d = (of_char (CHR ''0'') :: nat)" by (metis of_char_digit)
  then show "d = 0" by simp
next
  have "char_of (of_char (CHR ''0'') :: nat) = CHR ''0''" by (rule char_of_char)
  then show "digit d = CHR ''0''" if "d = 0" using that by (simp add: digit_def)
qed

lemma undec_snoc: "undec (cs @ [c]) = 10 * undec cs + digit_val c"
  by (simp add: undec_def)

text \<open>A numeral without a superfluous leading zero is the rendering of its value.\<close>

lemma dec_undec:
  assumes "cs \<noteq> []" and "\<forall>c \<in> set cs. is_digit c" and "hd cs \<noteq> CHR ''0'' \<or> length cs = 1"
  shows "dec (undec cs) = cs \<and> (hd cs \<noteq> CHR ''0'' \<longrightarrow> 0 < undec cs)"
  using assms
proof (induction cs rule: rev_induct)
  case Nil
  then show ?case by simp
next
  case (snoc c cs)
  have c: "is_digit c" using snoc.prems by simp
  have z: "c \<noteq> CHR ''0'' \<Longrightarrow> 0 < digit_val c"
    using digit_zero [OF digit_val_less [OF c]] digit_digit_val [OF c] by auto
  show ?case
  proof (cases "cs = []")
    case True
    then show ?thesis using c z
      by (simp add: undec_def dec.simps [of "digit_val c"] digit_digit_val digit_val_less)
  next
    case False
    then have h: "hd cs \<noteq> CHR ''0''" using snoc.prems by (cases cs) auto
    then have ih: "dec (undec cs) = cs" "0 < undec cs" using snoc False by auto
    then have ge: "\<not> undec (cs @ [c]) < 10" by (simp add: undec_snoc)
    have "undec (cs @ [c]) div 10 = undec cs" "undec (cs @ [c]) mod 10 = digit_val c"
      using digit_val_less [OF c] by (simp_all add: undec_snoc)
    then have "dec (undec (cs @ [c])) = cs @ [c]"
      using ge ih(1) digit_digit_val [OF c] by (subst dec.simps) simp
    then show ?thesis using ge by simp
  qed
qed

lemma hd_dec: "0 < n \<Longrightarrow> hd (dec n) \<noteq> CHR ''0''"
proof (induction n rule: dec.induct)
  case (1 n)
  show ?case
  proof (cases "n < 10")
    case True
    then show ?thesis using digit_zero [of n] 1 by (subst dec.simps) simp
  next
    case False
    then show ?thesis using 1 by (subst dec.simps) simp
  qed
qed

text \<open>Signed numerals.\<close>

definition dec_int :: "int \<Rightarrow> string" where
  "dec_int i = (if i < 0 then ''-'' @ dec (nat (- i)) else dec (nat i))"

subsection \<open>Write-once cells\<close>

text \<open>
  Several parts of the program keep a cell that the first writer decides: an atomic that
  starts at a distinguished value and is only ever changed by a compare-exchange from that
  value. Later writers leave it unchanged.
\<close>

locale first_writer =
  fixes get :: "'s \<Rightarrow> 'v option" and put :: "'w \<Rightarrow> 's \<Rightarrow> 's" and code :: "'w \<Rightarrow> 'v"
  assumes put_empty: "get s = None \<Longrightarrow> get (put w s) = Some (code w)"
    and put_full: "get s = Some v \<Longrightarrow> put w s = s"
begin

lemma get_put: "get (put w s) = (case get s of None \<Rightarrow> Some (code w) | Some v \<Rightarrow> Some v)"
  by (auto simp: put_empty put_full split: option.splits)

lemma puts_full: "get s = Some v \<Longrightarrow> foldl (\<lambda>s w. put w s) s ws = s"
  by (induction ws) (auto simp: put_full)

lemma puts_get:
  "get (foldl (\<lambda>s w. put w s) s ws) =
    (case get s of Some v \<Rightarrow> Some v
     | None \<Rightarrow> (case ws of [] \<Rightarrow> None | w # _ \<Rightarrow> Some (code w)))"
  by (cases ws) (auto simp: puts_full put_empty put_full split: option.splits)

end

subsection \<open>Runs and simulation\<close>

text \<open>
  A specification answers every operation; an implementation may also panic (\<open>None\<close>). When each
  operation of the implementation does not panic, gives the answer of the specification and keeps
  the relation between their states, so does every run.
\<close>

fun spec_run :: "('op \<Rightarrow> 'a \<Rightarrow> 'r \<times> 'a) \<Rightarrow> 'op list \<Rightarrow> 'a \<Rightarrow> 'r list \<times> 'a" where
  "spec_run f [] a = ([], a)"
| "spec_run f (x # xs) a = (let (r, b) = f x a; (rs, c) = spec_run f xs b in (r # rs, c))"

fun impl_run :: "('op \<Rightarrow> 'c \<Rightarrow> ('r \<times> 'c) option) \<Rightarrow> 'op list \<Rightarrow> 'c \<Rightarrow> ('r list \<times> 'c) option" where
  "impl_run g [] c = Some ([], c)"
| "impl_run g (x # xs) c = (case g x c of None \<Rightarrow> None
    | Some (r, d) \<Rightarrow> map_option (\<lambda>(rs, e). (r # rs, e)) (impl_run g xs d))"

locale simulation =
  fixes rel :: "'a \<Rightarrow> 'c \<Rightarrow> bool" and spec :: "'op \<Rightarrow> 'a \<Rightarrow> 'r \<times> 'a"
    and impl :: "'op \<Rightarrow> 'c \<Rightarrow> ('r \<times> 'c) option"
  assumes step: "rel a c \<Longrightarrow> \<exists>c'. impl x c = Some (fst (spec x a), c') \<and> rel (snd (spec x a)) c'"
begin

lemma run: "rel a c \<Longrightarrow>
  \<exists>c'. impl_run impl xs c = Some (fst (spec_run spec xs a), c') \<and> rel (snd (spec_run spec xs a)) c'"
proof (induction xs arbitrary: a c)
  case (Cons x xs)
  obtain c' where "impl x c = Some (fst (spec x a), c')" "rel (snd (spec x a)) c'"
    using step [OF Cons.prems] by blast
  with Cons.IH [of "snd (spec x a)" c'] show ?case by (auto simp: Let_def case_prod_beta)
qed simp

end

end
