(* ===== verification/AnytimeArchive.thy ===== *)
theory AnytimeArchive
  imports Prelude
begin

text \<open>
  \<open>crates/polygon-nesting-core/src/archive/anytime.rs\<close>: retaining, de-duplicating and ranking the
  endpoints of one archive namespace, and the selection between complete and partial endpoints.
  The policy's closures are arguments of the definitions, taken as functions of their arguments.
\<close>

datatype namespace = Complete_namespace | Partial_namespace

record 'e namespace_policy =
  policy_namespace :: namespace
  endpoints :: "'e list"
  identity :: "'e \<Rightarrow> string option"
  validate_endpoint :: "'e \<Rightarrow> bool"
  select_duplicate :: "'e \<Rightarrow> 'e \<Rightarrow> 'e"
  rank_endpoints :: "'e list \<Rightarrow> 'e list"

text \<open>One turn of the loop, on the retained values and the index of each identity.\<close>

definition retain_step :: "'e namespace_policy \<Rightarrow> 'e \<Rightarrow> 'e list \<times> (string \<rightharpoonup> nat) \<Rightarrow> 'e list \<times> (string \<rightharpoonup> nat)" where
  "retain_step policy endpoint st =
    (if \<not> validate_endpoint policy endpoint then st
     else case identity policy endpoint of
         None \<Rightarrow> st
       | Some identity_key \<Rightarrow>
           if identity_key = [] then st
           else case snd st identity_key of
               None \<Rightarrow> (fst st @ [endpoint], (snd st)(identity_key \<mapsto> length (fst st)))
             | Some i \<Rightarrow> ((fst st)[i := select_duplicate policy (fst st ! i) endpoint], snd st))"

definition retain_intrinsic_anytime_archive_namespace :: "'e namespace_policy \<Rightarrow> 'e list" where
  "retain_intrinsic_anytime_archive_namespace policy =
    rank_endpoints policy (fst (foldl (\<lambda>st endpoint. retain_step policy endpoint st) ([], Map.empty) (endpoints policy)))"

datatype ('c, 'p) settled_selection = Complete 'c | Partial 'p

definition select_intrinsic_anytime_settled_endpoint :: "'c list \<Rightarrow> 'p list \<Rightarrow> ('c, 'p) settled_selection option" where
  "select_intrinsic_anytime_settled_endpoint complete partial =
    (case complete of
       c # _ \<Rightarrow> Some (Complete c)
     | [] \<Rightarrow> (case partial of p # _ \<Rightarrow> Some (Partial p) | [] \<Rightarrow> None))"

subsection \<open>The reference: group by identity\<close>

definition key_of :: "'e namespace_policy \<Rightarrow> 'e \<Rightarrow> string option" where
  "key_of policy e = (if validate_endpoint policy e \<and> identity policy e \<noteq> Some [] then identity policy e else None)"

text \<open>The keys in order of first occurrence, and all endpoints of a key merged in their order.\<close>

definition retained_keys :: "'e namespace_policy \<Rightarrow> 'e list \<Rightarrow> string list" where
  "retained_keys policy es = rev (remdups (rev (map (\<lambda>e. the (key_of policy e)) (filter (\<lambda>e. key_of policy e \<noteq> None) es))))"

definition merged :: "'e namespace_policy \<Rightarrow> 'e list \<Rightarrow> string \<Rightarrow> 'e" where
  "merged policy es k =
    (let group = filter (\<lambda>e. key_of policy e = Some k) es in foldl (select_duplicate policy) (hd group) (tl group))"

lemma retained_keys_snoc:
  "retained_keys policy (es @ [e]) = (case key_of policy e of
      None \<Rightarrow> retained_keys policy es
    | Some k \<Rightarrow> if k \<in> set (retained_keys policy es) then retained_keys policy es else retained_keys policy es @ [k])"
  by (auto simp: retained_keys_def split: option.splits)

lemma set_retained_keys: "set (retained_keys policy es) = {k. \<exists>e \<in> set es. key_of policy e = Some k}"
  by (force simp: retained_keys_def)

lemma distinct_retained_keys: "distinct (retained_keys policy es)"
  by (simp add: retained_keys_def)

lemma merged_other: "key_of policy e \<noteq> Some k \<Longrightarrow> merged policy (es @ [e]) k = merged policy es k"
  by (simp add: merged_def)

lemma merged_again:
  assumes "k \<in> set (retained_keys policy es)" and "key_of policy e = Some k"
  shows "merged policy (es @ [e]) k = select_duplicate policy (merged policy es k) e"
proof -
  have "filter (\<lambda>e. key_of policy e = Some k) es \<noteq> []"
    using assms(1) by (auto simp: set_retained_keys filter_empty_conv)
  then show ?thesis using assms(2) by (simp add: merged_def Let_def)
qed

lemma merged_first:
  assumes "k \<notin> set (retained_keys policy es)" and "key_of policy e = Some k"
  shows "merged policy (es @ [e]) k = e"
proof -
  have "filter (\<lambda>e. key_of policy e = Some k) es = []"
    using assms(1) by (auto simp: set_retained_keys filter_empty_conv)
  then show ?thesis using assms(2) by (simp add: merged_def)
qed

text \<open>The loop keeps the merged groups and the index of each key.\<close>

definition retained :: "'e namespace_policy \<Rightarrow> 'e list \<Rightarrow> 'e list \<times> (string \<rightharpoonup> nat) \<Rightarrow> bool" where
  "retained policy es st \<longleftrightarrow> fst st = map (merged policy es) (retained_keys policy es) \<and>
    (\<forall>k i. snd st k = Some i \<longleftrightarrow> i < length (retained_keys policy es) \<and> retained_keys policy es ! i = k)"

lemma retain_step_skip: "key_of policy e = None \<Longrightarrow> retain_step policy e st = st"
  by (auto simp: retain_step_def key_of_def split: option.splits if_splits)

lemma retain_step_key:
  "key_of policy e = Some k \<Longrightarrow> retain_step policy e st = (case snd st k of
      None \<Rightarrow> (fst st @ [e], (snd st)(k \<mapsto> length (fst st)))
    | Some i \<Rightarrow> ((fst st)[i := select_duplicate policy (fst st ! i) e], snd st))"
  by (auto simp: retain_step_def key_of_def split: if_splits)

lemma retained_step:
  assumes "retained policy es st"
  shows "retained policy (es @ [e]) (retain_step policy e st)"
proof (cases "key_of policy e")
  case None
  then have "merged policy (es @ [e]) = merged policy es" by (intro ext merged_other) simp
  with None assms show ?thesis by (simp add: retained_def retain_step_skip retained_keys_snoc)
next
  case (Some k)
  let ?ks = "retained_keys policy es"
  have fst: "fst st = map (merged policy es) ?ks"
    and snd: "snd st x = Some i \<longleftrightarrow> i < length ?ks \<and> ?ks ! i = x" for x i
    using assms by (simp_all add: retained_def)
  have other: "merged policy (es @ [e]) x = merged policy es x" if "x \<noteq> k" for x
    using that Some by (intro merged_other) simp
  show ?thesis
  proof (cases "snd st k")
    case None
    then have new: "k \<notin> set ?ks" using snd by (metis in_set_conv_nth option.distinct(1))
    then have "map (merged policy (es @ [e])) ?ks = map (merged policy es) ?ks"
      using other by (intro map_cong refl other) blast
    then show ?thesis
      using new merged_first [OF new Some] snd
      by (auto simp: retained_def retain_step_key [OF Some] None retained_keys_snoc Some fst nth_append less_Suc_eq)
  next
    case at: (Some i)
    then have i: "i < length ?ks" "?ks ! i = k" using snd by simp_all
    then have old: "k \<in> set ?ks" by (metis nth_mem)
    have "(map (merged policy es) ?ks)[i := select_duplicate policy (merged policy es k) e] = map (merged policy (es @ [e])) ?ks"
      using i distinct_retained_keys [of policy es] merged_again [OF old Some] other
      by (intro nth_equalityI) (auto simp: nth_list_update nth_eq_iff_index_eq)
    then show ?thesis
      using old i snd by (simp add: retained_def retain_step_key [OF Some] at retained_keys_snoc Some fst)
  qed
qed

lemma retained_loop: "retained policy es (foldl (\<lambda>st e. retain_step policy e st) ([], Map.empty) es)"
proof (induction es rule: rev_induct)
  case Nil
  then show ?case by (simp add: retained_def retained_keys_def)
next
  case (snoc e es)
  then show ?case by (simp add: retained_step)
qed

text \<open>
  The archive ranks exactly once one endpoint per identity: the identities stand in order of
  their first valid endpoint, and each is represented by all its valid endpoints merged from left to
  right with \<open>select_duplicate\<close>; invalid endpoints and missing or empty identities contribute nothing.
\<close>

theorem anytime_archive_groups:
  "retain_intrinsic_anytime_archive_namespace policy =
    rank_endpoints policy (map (merged policy (endpoints policy)) (retained_keys policy (endpoints policy))) \<and>
   distinct (retained_keys policy (endpoints policy)) \<and>
   set (retained_keys policy (endpoints policy)) =
     {k. k \<noteq> [] \<and> (\<exists>e \<in> set (endpoints policy). validate_endpoint policy e \<and> identity policy e = Some k)}"
  using retained_loop [of policy "endpoints policy"]
  by (auto simp: retained_def retain_intrinsic_anytime_archive_namespace_def distinct_retained_keys
      set_retained_keys key_of_def split: if_splits)

text \<open>Complete endpoints dominate partial ones.\<close>

lemma settled_selection:
  "select_intrinsic_anytime_settled_endpoint complete partial =
    (if complete \<noteq> [] then Some (Complete (hd complete))
     else if partial \<noteq> [] then Some (Partial (hd partial)) else None)"
  by (auto simp: select_intrinsic_anytime_settled_endpoint_def split: list.splits)

end
