(* ===== verification/F64.thy ===== *)
theory F64
  imports Prelude Complex_Main "HOL-Library.Log_Nat"
begin

text \<open>
  The \<open>f64\<close> of the source, as IEEE 754 binary64 has it: a value is a NaN, a signed
  infinity, or a finite magnitude with a sign bit (so both zeros are there). An operation
  computes the exact rational result and rounds it to the nearest representable value, ties
  to even, with the standard's rules for the sign of a zero. All definitions compute.
  NaN payloads are not distinguished. \<open>f64_ok\<close> singles out the values binary64 has;
  every rounded result is one of them.
\<close>

named_theorems f64_simps \<open>f64 operations on finite operands\<close>

datatype f64 = NaN | Infinity bool | Finite bool rat

subsection \<open>Rounding\<close>

definition flog2 :: "rat \<Rightarrow> int" where
  "flog2 q = (let (a, b) = quotient_of q; k = bitlen a - bitlen b
    in if 2 powi k \<le> q then k else k - 1)"

definition ulp_exp :: "rat \<Rightarrow> int" where
  "ulp_exp m = max (flog2 m - 52) (- 1074)"

definition round_even :: "rat \<Rightarrow> int" where
  "round_even x = (let f = \<lfloor>x\<rfloor>; d = x - of_int f
    in if d < 1 / 2 \<or> d = 1 / 2 \<and> even f then f else f + 1)"

definition round_mag :: "rat \<Rightarrow> rat" where
  "round_mag m = (if m = 0 then 0 else
    let u = 2 powi ulp_exp m in of_int (round_even (m / u)) * u)"

definition f64_top :: rat where
  "f64_top = 2 ^ 1024"

lemma f64_top_pos [simp]: "0 < f64_top"
  by (simp add: f64_top_def)

definition round_to :: "bool \<Rightarrow> rat \<Rightarrow> f64" where
  "round_to s m = (let r = round_mag m in if r < f64_top then Finite s r else Infinity s)"

subsection \<open>Classification and exact values\<close>

fun f64_val :: "f64 \<Rightarrow> rat" where
  "f64_val (Finite s m) = (if s then - m else m)"
| "f64_val _ = 0"

fun is_nan :: "f64 \<Rightarrow> bool" where
  "is_nan NaN = True"
| "is_nan _ = False"

fun is_finite :: "f64 \<Rightarrow> bool" where
  "is_finite (Finite _ _) = True"
| "is_finite _ = False"

fun is_sign_negative :: "f64 \<Rightarrow> bool" where
  "is_sign_negative NaN = False"
| "is_sign_negative (Infinity s) = s"
| "is_sign_negative (Finite s _) = s"

fun f64_ok :: "f64 \<Rightarrow> bool" where
  "f64_ok (Finite s m) = (0 \<le> m \<and> m < f64_top \<and> round_mag m = m)"
| "f64_ok _ = True"

text \<open>Literals: an integer or rational constant of the source, already representable.\<close>

definition lit :: "rat \<Rightarrow> f64" where
  "lit q = round_to (q < 0) \<bar>q\<bar>"

abbreviation f64_zero :: f64 where
  "f64_zero \<equiv> Finite False 0"

subsection \<open>Comparison\<close>

text \<open>\<open>==\<close>, \<open><\<close> and \<open><=\<close>: false on a NaN, and both zeros are equal.\<close>

fun feq :: "f64 \<Rightarrow> f64 \<Rightarrow> bool" where
  "feq (Finite s a) (Finite t b) = (f64_val (Finite s a) = f64_val (Finite t b))"
| "feq (Infinity s) (Infinity t) = (s = t)"
| "feq _ _ = False"

fun flt :: "f64 \<Rightarrow> f64 \<Rightarrow> bool" where
  "flt (Finite s a) (Finite t b) = (f64_val (Finite s a) < f64_val (Finite t b))"
| "flt (Infinity s) (Infinity t) = (s \<and> \<not> t)"
| "flt (Infinity s) (Finite _ _) = s"
| "flt (Finite _ _) (Infinity t) = (\<not> t)"
| "flt _ _ = False"

definition fle :: "f64 \<Rightarrow> f64 \<Rightarrow> bool" where
  "fle a b \<longleftrightarrow> flt a b \<or> feq a b"

text \<open>
  \<open>f64::total_cmp\<close>: the numeric order, the negative zero below the positive one, the
  (positive) NaN above everything.
\<close>

fun f64_rank :: "f64 \<Rightarrow> nat" where
  "f64_rank (Infinity True) = 0"
| "f64_rank (Finite _ _) = 1"
| "f64_rank (Infinity False) = 2"
| "f64_rank NaN = 3"

definition total_cmp :: "f64 \<Rightarrow> f64 \<Rightarrow> ordering" where
  "total_cmp a b = then_with (cmp_of (f64_rank a) (f64_rank b))
    (then_with (cmp_of (f64_val a) (f64_val b))
      (cmp_of (\<not> is_sign_negative a) (\<not> is_sign_negative b)))"

subsection \<open>Arithmetic\<close>

fun fneg :: "f64 \<Rightarrow> f64" where
  "fneg NaN = NaN"
| "fneg (Infinity s) = Infinity (\<not> s)"
| "fneg (Finite s m) = Finite (\<not> s) m"

fun fabs :: "f64 \<Rightarrow> f64" where
  "fabs NaN = NaN"
| "fabs (Infinity s) = Infinity False"
| "fabs (Finite s m) = Finite False m"

fun fadd :: "f64 \<Rightarrow> f64 \<Rightarrow> f64" where
  "fadd (Finite s a) (Finite t b) =
    (let v = f64_val (Finite s a) + f64_val (Finite t b)
     in if v = 0 then Finite (s \<and> t) 0 else round_to (v < 0) \<bar>v\<bar>)"
| "fadd (Infinity s) (Infinity t) = (if s = t then Infinity s else NaN)"
| "fadd (Infinity s) (Finite _ _) = Infinity s"
| "fadd (Finite _ _) (Infinity t) = Infinity t"
| "fadd _ _ = NaN"

definition fsub :: "f64 \<Rightarrow> f64 \<Rightarrow> f64" where
  "fsub a b = fadd a (fneg b)"

fun fmul :: "f64 \<Rightarrow> f64 \<Rightarrow> f64" where
  "fmul (Finite s a) (Finite t b) = round_to (s \<noteq> t) (a * b)"
| "fmul (Infinity s) (Infinity t) = Infinity (s \<noteq> t)"
| "fmul (Infinity s) (Finite t b) = (if b = 0 then NaN else Infinity (s \<noteq> t))"
| "fmul (Finite s a) (Infinity t) = (if a = 0 then NaN else Infinity (s \<noteq> t))"
| "fmul _ _ = NaN"

fun fdiv :: "f64 \<Rightarrow> f64 \<Rightarrow> f64" where
  "fdiv (Finite s a) (Finite t b) =
    (if b = 0 then (if a = 0 then NaN else Infinity (s \<noteq> t)) else round_to (s \<noteq> t) (a / b))"
| "fdiv (Infinity s) (Finite t b) = Infinity (s \<noteq> t)"
| "fdiv (Finite s a) (Infinity t) = Finite (s \<noteq> t) 0"
| "fdiv _ _ = NaN"

text \<open>\<open>floor\<close>, \<open>ceil\<close> and \<open>trunc\<close> are exact and keep the sign bit.\<close>

fun ffloor :: "f64 \<Rightarrow> f64" where
  "ffloor (Finite s m) = Finite s (of_int (if s then \<lceil>m\<rceil> else \<lfloor>m\<rfloor>))"
| "ffloor x = x"

fun fceil :: "f64 \<Rightarrow> f64" where
  "fceil (Finite s m) = Finite s (of_int (if s then \<lfloor>m\<rfloor> else \<lceil>m\<rceil>))"
| "fceil x = x"

fun ftrunc :: "f64 \<Rightarrow> f64" where
  "ftrunc (Finite s m) = Finite s (of_int \<lfloor>m\<rfloor>)"
| "ftrunc x = x"

definition ffract :: "f64 \<Rightarrow> f64" where
  "ffract x = fsub x (ftrunc x)"

text \<open>\<open>f64::min\<close> and \<open>f64::max\<close>: a NaN operand is ignored.\<close>

definition fmin :: "f64 \<Rightarrow> f64 \<Rightarrow> f64" where
  "fmin a b = (if is_nan a then b else if is_nan b then a else if flt b a then b else a)"

definition fmax :: "f64 \<Rightarrow> f64 \<Rightarrow> f64" where
  "fmax a b = (if is_nan a then b else if is_nan b then a else if flt a b then b else a)"

text \<open>\<open>as i64\<close>, \<open>as u64\<close>: truncation, saturating at the type's bounds, 0 for a NaN.\<close>

fun trunc_int :: "f64 \<Rightarrow> int" where
  "trunc_int (Finite s m) = (if s then - \<lfloor>m\<rfloor> else \<lfloor>m\<rfloor>)"
| "trunc_int _ = 0"

fun as_int_in :: "int \<Rightarrow> int \<Rightarrow> f64 \<Rightarrow> int" where
  "as_int_in lo hi NaN = 0"
| "as_int_in lo hi (Infinity s) = (if s then lo else hi)"
| "as_int_in lo hi x = max lo (min hi (trunc_int x))"

abbreviation as_i64 :: "f64 \<Rightarrow> int" where
  "as_i64 \<equiv> as_int_in (- (2 ^ 63)) (2 ^ 63 - 1)"

abbreviation as_u64 :: "f64 \<Rightarrow> int" where
  "as_u64 \<equiv> as_int_in 0 (2 ^ 64 - 1)"

subsection \<open>Rounding is exact on representable magnitudes\<close>

lemma quotient_of_bounds:
  assumes "0 < q" and "quotient_of q = (a, b)"
  shows "0 < a" and "0 < b" and "q = of_int a / of_int b"
proof -
  show b: "0 < b" using assms(2) by (rule quotient_of_denom_pos)
  show q: "q = of_int a / of_int b" using assms(2) by (rule quotient_of_div)
  with assms(1) b show "0 < a" by (simp add: zero_less_divide_iff)
qed

lemma powi2_less_iff [simp]: "(2 :: rat) powi a < 2 powi b \<longleftrightarrow> a < b"
  by (metis linorder_not_less one_less_numeral_iff order_less_le power_int_increasing
      power_int_strict_increasing semiring_norm(76))

lemma powi2_le_iff [simp]: "(2 :: rat) powi a \<le> 2 powi b \<longleftrightarrow> a \<le> b"
  by (simp flip: not_less)

lemma bitlen_pow: "0 < a \<Longrightarrow> (2 :: rat) powi (bitlen a - 1) \<le> of_int a \<and> (of_int a :: rat) < 2 powi bitlen a"
proof -
  assume a: "0 < a"
  have p: "0 < bitlen a" using a bitlen_eq_zero_iff [of a] bitlen_nonneg [of a] by linarith
  have b: "2 ^ nat (bitlen a - 1) \<le> a" "a < 2 ^ nat (bitlen a)"
    using bitlen_bounds [OF a] by auto
  have "of_int (2 ^ nat (bitlen a - 1)) \<le> (of_int a :: rat)" using b(1) by (simp only: of_int_le_iff)
  moreover have "(of_int a :: rat) < of_int (2 ^ nat (bitlen a))" using b(2) by (simp only: of_int_less_iff)
  ultimately show ?thesis using p by (simp add: power_int_nonneg_exp)
qed

lemma flog2_bounds:
  assumes "0 < q"
  shows "2 powi flog2 q \<le> q" and "q < 2 powi (flog2 q + 1)"
proof -
  obtain a b where ab: "quotient_of q = (a, b)" by (cases "quotient_of q")
  note qb = quotient_of_bounds [OF assms ab]
  let ?k = "bitlen a - bitlen b"
  note la = bitlen_pow [OF qb(1)] and lb = bitlen_pow [OF qb(2)]
  have bpos: "(0 :: rat) < of_int b" using qb(2) by simp
  have "q * of_int b = of_int a" using qb(2,3) by simp
  moreover have "(2 :: rat) powi (?k + 1) * 2 powi (bitlen b - 1) = 2 powi bitlen a"
    by (simp flip: power_int_add)
  moreover have "(2 :: rat) powi (?k + 1) * 2 powi (bitlen b - 1) \<le> 2 powi (?k + 1) * of_int b"
    using lb by (intro mult_left_mono) auto
  ultimately have "q * of_int b < 2 powi (?k + 1) * of_int b" using la by linarith
  then have up: "q < 2 powi (?k + 1)" using bpos by simp
  have "(2 :: rat) powi (?k - 1) * 2 powi bitlen b = 2 powi (bitlen a - 1)"
    by (simp flip: power_int_add)
  moreover have "(2 :: rat) powi (?k - 1) * of_int b \<le> 2 powi (?k - 1) * 2 powi bitlen b"
    using lb by (intro mult_left_mono) auto
  ultimately have "2 powi (?k - 1) * of_int b \<le> q * of_int b"
    using la \<open>q * of_int b = of_int a\<close> by linarith
  then have lo: "2 powi (?k - 1) \<le> q" using bpos by simp
  have f: "flog2 q = (if 2 powi ?k \<le> q then ?k else ?k - 1)" by (simp add: flog2_def ab)
  show "2 powi flog2 q \<le> q" using f lo by simp
  show "q < 2 powi (flog2 q + 1)" using f up by auto
qed

lemma flog2_unique:
  assumes "2 powi k \<le> q" and "q < 2 powi (k + 1)"
  shows "flog2 q = k"
proof -
  have q: "0 < q" using assms(1) less_le_trans [of 0 "2 powi k" q] by simp
  note f = flog2_bounds [OF q]
  have "(2 :: rat) powi k < 2 powi (flog2 q + 1)" using assms(1) f(2) by (rule le_less_trans)
  then have 1: "k < flog2 q + 1" by simp
  have "(2 :: rat) powi flog2 q < 2 powi (k + 1)" using f(1) assms(2) by (rule le_less_trans)
  then have 2: "flog2 q < k + 1" by simp
  from 1 2 show ?thesis by simp
qed

lemma flog2_le: "0 < q \<Longrightarrow> q < 2 powi (k + 1) \<Longrightarrow> flog2 q \<le> k"
proof -
  assume "0 < q" and u: "q < 2 powi (k + 1)"
  then have "(2 :: rat) powi flog2 q < 2 powi (k + 1)" using flog2_bounds(1) [of q] le_less_trans by blast
  then have "flog2 q < k + 1" by simp
  then show ?thesis by simp
qed

lemma round_even_of_int [simp]: "round_even (of_int n) = n"
  by (simp add: round_even_def)

lemma round_mag_0 [simp]: "round_mag 0 = 0"
  by (simp add: round_mag_def)

text \<open>A magnitude with at most 53 significant bits and a large enough exponent is kept.\<close>

lemma round_mag_exact:
  assumes "m = of_int k * 2 powi e" and "- 1074 \<le> e" and "0 \<le> k" and "k \<le> 2 ^ 53"
  shows "round_mag m = m"
proof (cases "k = 0")
  case True
  with assms(1) show ?thesis by simp
next
  case False
  then have k: "0 < k" using assms(3) by simp
  have m: "0 < m" using assms(1) k by simp
  let ?e = "ulp_exp m"
  have "\<exists>n :: int. m = of_int n * 2 powi ?e"
  proof (cases "?e \<le> e")
    case True
    have "m = of_int (k * 2 ^ nat (e - ?e)) * 2 powi ?e"
      using True assms(1) by (simp add: power_int_nonneg_exp [symmetric] flip: power_int_add)
    then show ?thesis by blast
  next
    case False
    have le: "flog2 m \<le> e + 53"
    proof (rule flog2_le [OF m])
      have "(of_int k :: rat) \<le> of_int (2 ^ 53)" using assms(4) by (simp only: of_int_le_iff)
      then have "m \<le> 2 powi 53 * 2 powi e" using assms(1) by (simp add: mult_right_mono)
      also have "\<dots> < 2 powi (e + 53 + 1)" by (simp add: power_int_add)
      finally show "m < 2 powi (e + 53 + 1)" .
    qed
    with False have e1: "?e = e + 1" and fl: "flog2 m = e + 53"
      using assms(2) by (auto simp: ulp_exp_def max_def split: if_splits)
    have "(2 :: rat) powi (e + 53) \<le> m" using flog2_bounds(1) [OF m] fl by simp
    then have "(2 :: rat) powi 53 * 2 powi e \<le> of_int k * 2 powi e"
      using assms(1) by (simp add: power_int_add mult.commute)
    then have "(2 :: rat) powi 53 \<le> of_int k" by simp
    then have "(of_int (2 ^ 53) :: rat) \<le> of_int k" by simp
    then have "2 ^ 53 \<le> k" by (simp only: of_int_le_iff)
    with assms(4) have "k = 2 ^ 53" by simp
    then have "m = of_int (2 ^ 52) * 2 powi ?e" using assms(1) e1 by (simp add: power_int_add)
    then show ?thesis by blast
  qed
  then obtain n :: int where n: "m = of_int n * 2 powi ?e" by blast
  then have "m / 2 powi ?e = of_int n" by (metis nonzero_mult_div_cancel_right power_int_not_zero zero_neq_numeral)
  then have "round_mag m = of_int n * 2 powi ?e" using m by (simp add: round_mag_def)
  with n show ?thesis by simp
qed

lemma round_mag_int: "0 \<le> k \<Longrightarrow> k \<le> 2 ^ 53 \<Longrightarrow> round_mag (of_int k) = of_int k"
  by (rule round_mag_exact [where e = 0]) auto

subsection \<open>Rounding is monotone, idempotent and within half a unit\<close>

lemma round_even_half: "\<bar>of_int (round_even x) - x\<bar> \<le> 1 / 2"
proof -
  have f: "of_int \<lfloor>x\<rfloor> \<le> x" "x < of_int \<lfloor>x\<rfloor> + 1" using floor_correct [of x] by auto
  show ?thesis
  proof (cases "round_even x = \<lfloor>x\<rfloor>")
    case True
    then have "x - of_int \<lfloor>x\<rfloor> \<le> 1 / 2" by (auto simp: round_even_def Let_def split: if_splits)
    with f True show ?thesis by simp
  next
    case False
    then have "round_even x = \<lfloor>x\<rfloor> + 1" "1 / 2 \<le> x - of_int \<lfloor>x\<rfloor>"
      by (auto simp: round_even_def Let_def split: if_splits)
    with f show ?thesis by simp
  qed
qed

lemma round_even_cases: "round_even x = \<lfloor>x\<rfloor> \<or> round_even x = \<lfloor>x\<rfloor> + 1 \<and> of_int \<lfloor>x\<rfloor> + 1 / 2 \<le> x"
  by (auto simp: round_even_def Let_def)

lemma round_even_ge: "of_int n \<le> x \<Longrightarrow> n \<le> round_even x"
  using round_even_cases [of x] le_floor_iff [of n x] by auto

lemma round_even_le: "x \<le> of_int n \<Longrightarrow> round_even x \<le> n"
proof -
  assume le: "x \<le> of_int n"
  show ?thesis
  proof (cases "round_even x = \<lfloor>x\<rfloor>")
    case True
    with le show ?thesis by (simp add: floor_le_iff)
  next
    case False
    then have "round_even x = \<lfloor>x\<rfloor> + 1" "of_int \<lfloor>x\<rfloor> + 1 / 2 \<le> x"
      using round_even_cases [of x] by auto
    then have "(of_int \<lfloor>x\<rfloor> :: rat) < of_int n" using le by linarith
    then show ?thesis using \<open>round_even x = \<lfloor>x\<rfloor> + 1\<close> by simp
  qed
qed

lemma round_even_mono: "x \<le> y \<Longrightarrow> round_even x \<le> round_even y"
proof (cases "\<lfloor>x\<rfloor> = \<lfloor>y\<rfloor>")
  case True
  assume "x \<le> y"
  with True show ?thesis by (auto simp: round_even_def Let_def)
next
  case False
  assume "x \<le> y"
  with False have "\<lfloor>x\<rfloor> + 1 \<le> \<lfloor>y\<rfloor>" using floor_mono [of x y] by simp
  moreover have "round_even x \<le> \<lfloor>x\<rfloor> + 1" using round_even_cases [of x] by auto
  moreover have "\<lfloor>y\<rfloor> \<le> round_even y" using round_even_cases [of y] by auto
  ultimately show ?thesis by simp
qed

lemma round_mag_pos:
  "0 < m \<Longrightarrow> round_mag m = of_int (round_even (m / 2 powi ulp_exp m)) * 2 powi ulp_exp m"
  by (simp add: round_mag_def Let_def)

lemma round_mag_le:
  assumes "0 < m" and "m \<le> of_int k * 2 powi ulp_exp m"
  shows "round_mag m \<le> of_int k * 2 powi ulp_exp m"
proof -
  have "m / 2 powi ulp_exp m \<le> of_int k" using assms(2) by (simp add: pos_divide_le_eq)
  then have "round_even (m / 2 powi ulp_exp m) \<le> k" by (rule round_even_le)
  then show ?thesis by (simp add: round_mag_pos assms(1))
qed

lemma round_mag_ge:
  assumes "0 < m" and "of_int k * 2 powi ulp_exp m \<le> m"
  shows "of_int k * 2 powi ulp_exp m \<le> round_mag m"
proof -
  have "of_int k \<le> m / 2 powi ulp_exp m" using assms(2) by (simp add: pos_le_divide_eq)
  then have "k \<le> round_even (m / 2 powi ulp_exp m)" by (rule round_even_ge)
  then show ?thesis by (simp add: round_mag_pos assms(1))
qed

lemma round_mag_nonneg: "0 \<le> m \<Longrightarrow> 0 \<le> round_mag m"
  using round_mag_ge [of m 0] by (cases "m = 0") auto

lemma round_mag_form:
  assumes "0 < m"
  obtains k where "round_mag m = of_int k * 2 powi ulp_exp m" "0 \<le> k" "k \<le> 2 ^ 53"
proof
  let ?k = "round_even (m / 2 powi ulp_exp m)"
  show "round_mag m = of_int ?k * 2 powi ulp_exp m" using assms by (rule round_mag_pos)
  have "0 \<le> m / 2 powi ulp_exp m" using assms by simp
  then show "0 \<le> ?k" using round_even_ge [of 0] by simp
  have "m \<le> 2 powi (flog2 m + 1)" using flog2_bounds(2) [OF assms] by simp
  also have "\<dots> \<le> 2 powi (53 + ulp_exp m)" by (simp add: ulp_exp_def)
  also have "\<dots> = of_int (2 ^ 53) * 2 powi ulp_exp m" by (simp add: power_int_add)
  finally have "m / 2 powi ulp_exp m \<le> of_int (2 ^ 53)" by (simp add: pos_divide_le_eq)
  then show "?k \<le> 2 ^ 53" by (rule round_even_le)
qed

lemma round_mag_idem: "0 \<le> m \<Longrightarrow> round_mag (round_mag m) = round_mag m"
proof (cases "m = 0")
  case False
  assume "0 \<le> m"
  with False have "0 < m" by simp
  then obtain k where "round_mag m = of_int k * 2 powi ulp_exp m" "0 \<le> k" "k \<le> 2 ^ 53"
    by (rule round_mag_form)
  then show ?thesis by (intro round_mag_exact [of _ k "ulp_exp m"]) (auto simp: ulp_exp_def)
qed simp

lemma flog2_mono: "0 < a \<Longrightarrow> a \<le> b \<Longrightarrow> flog2 a \<le> flog2 b"
  by (rule flog2_le, assumption, rule le_less_trans, assumption, rule flog2_bounds(2)) auto

lemma round_mag_mono:
  assumes "0 \<le> a" and "a \<le> b"
  shows "round_mag a \<le> round_mag b"
proof (cases "a = 0")
  case True
  then show ?thesis using assms by (simp add: round_mag_nonneg)
next
  case False
  with assms have a: "0 < a" and b: "0 < b" by auto
  have fl: "flog2 a \<le> flog2 b" using a assms(2) by (rule flog2_mono)
  show ?thesis
  proof (cases "ulp_exp a = ulp_exp b")
    case True
    have "round_even (a / 2 powi ulp_exp b) \<le> round_even (b / 2 powi ulp_exp b)"
      using assms(2) by (intro round_even_mono divide_right_mono) auto
    with True a b show ?thesis by (simp add: round_mag_pos)
  next
    case ne: False
    with fl have lt: "ulp_exp a < ulp_exp b" "ulp_exp b = flog2 b - 52" "flog2 a < flog2 b"
      by (auto simp: ulp_exp_def max_def split: if_splits)
    have "a \<le> 2 powi (flog2 a + 1)" using flog2_bounds(2) [OF a] by simp
    also have "\<dots> \<le> 2 powi flog2 b" using lt(3) by simp
    also have eq: "(2 :: rat) powi flog2 b = of_int (2 ^ nat (flog2 b - ulp_exp a)) * 2 powi ulp_exp a"
      using lt by (simp add: power_int_nonneg_exp [symmetric] flip: power_int_add)
    finally have "round_mag a \<le> of_int (2 ^ nat (flog2 b - ulp_exp a)) * 2 powi ulp_exp a"
      by (rule round_mag_le [OF a])
    also have "\<dots> = 2 powi flog2 b" by (rule eq [symmetric])
    also have "\<dots> = of_int (2 ^ 52) * 2 powi ulp_exp b" using lt(2) by (simp add: power_int_diff)
    also have "\<dots> \<le> round_mag b"
    proof (rule round_mag_ge [OF b])
      show "of_int (2 ^ 52) * 2 powi ulp_exp b \<le> b"
        using flog2_bounds(1) [OF b] lt(2) by (simp add: power_int_diff)
    qed
    finally show ?thesis .
  qed
qed

lemma round_mag_error: "0 < m \<Longrightarrow> \<bar>round_mag m - m\<bar> \<le> 2 powi ulp_exp m / 2"
proof -
  assume m: "0 < m"
  let ?u = "2 powi ulp_exp m :: rat"
  have u: "0 < ?u" by simp
  have "round_mag m - m = (of_int (round_even (m / ?u)) - m / ?u) * ?u"
    using m by (simp add: round_mag_pos left_diff_distrib)
  then have "\<bar>round_mag m - m\<bar> = \<bar>of_int (round_even (m / ?u)) - m / ?u\<bar> * ?u"
    by (simp add: abs_mult)
  also have "\<dots> \<le> 1 / 2 * ?u" by (intro mult_right_mono round_even_half) simp
  finally show ?thesis by simp
qed

subsection \<open>Operations keep the binary64 values\<close>

lemma f64_ok_round_to [intro]: "0 \<le> m \<Longrightarrow> f64_ok (round_to s m)"
  by (simp add: round_to_def Let_def round_mag_nonneg round_mag_idem)

lemma f64_ok_fneg [simp]: "f64_ok (fneg a) = f64_ok a"
  by (cases a) auto

lemma f64_ok_fabs: "f64_ok a \<Longrightarrow> f64_ok (fabs a)"
  by (cases a) auto

lemma f64_ok_fadd: "f64_ok (fadd a b)"
  by (cases a; cases b) (auto simp: Let_def)

lemma f64_ok_fsub: "f64_ok (fsub a b)"
  by (simp add: fsub_def f64_ok_fadd)

lemma f64_ok_fmul: "f64_ok a \<Longrightarrow> f64_ok b \<Longrightarrow> f64_ok (fmul a b)"
  by (cases a; cases b) auto

lemma f64_ok_fdiv: "f64_ok a \<Longrightarrow> f64_ok b \<Longrightarrow> f64_ok (fdiv a b)"
  by (cases a; cases b) auto

lemma f64_ok_lit [simp]: "f64_ok (lit q)"
  by (auto simp: lit_def)

subsection \<open>Exact integer arithmetic\<close>

text \<open>Integer-valued operands whose exact result has at most 53 bits are computed exactly.\<close>

definition is_int_val :: "f64 \<Rightarrow> int \<Rightarrow> bool" where
  "is_int_val x i \<longleftrightarrow> is_finite x \<and> f64_ok x \<and> f64_val x = of_int i"

lemma round_to_int:
  assumes "\<bar>i\<bar> \<le> 2 ^ 53"
  shows "round_to s (of_int \<bar>i\<bar>) = Finite s (of_int \<bar>i\<bar>)"
proof -
  have "(of_int \<bar>i\<bar> :: rat) \<le> of_int (2 ^ 53)" using assms by (simp only: of_int_le_iff)
  also have "\<dots> < f64_top" by (simp add: f64_top_def)
  finally have "(of_int \<bar>i\<bar> :: rat) < f64_top" .
  moreover have "round_mag (of_int \<bar>i\<bar>) = of_int \<bar>i\<bar>" using assms by (intro round_mag_int) auto
  ultimately show ?thesis by (simp add: round_to_def Let_def)
qed

lemma round_to_int_val:
  assumes "\<bar>i\<bar> \<le> 2 ^ 53" and "i \<noteq> 0 \<Longrightarrow> s = (i < 0)"
  shows "is_int_val (round_to s (of_int \<bar>i\<bar>)) i"
proof -
  note r = round_to_int [OF assms(1), of s]
  have "f64_ok (round_to s (of_int \<bar>i\<bar>))" by (rule f64_ok_round_to) simp
  then have ok: "f64_ok (Finite s (of_int \<bar>i\<bar>))" unfolding r .
  have "f64_val (Finite s (of_int \<bar>i\<bar>)) = of_int i"
    using assms(2) by (cases "i = 0") (auto simp: abs_if)
  with ok show ?thesis unfolding r by (simp add: is_int_val_def del: f64_ok.simps)
qed

lemma is_int_val_fadd:
  assumes "is_int_val a i" and "is_int_val b j" and "\<bar>i + j\<bar> \<le> 2 ^ 53"
  shows "is_int_val (fadd a b) (i + j)"
proof -
  obtain s m t n where ab: "a = Finite s m" "b = Finite t n"
    using assms by (cases a; cases b) (auto simp: is_int_val_def)
  have v: "f64_val a + f64_val b = of_int (i + j)" using assms by (simp add: is_int_val_def)
  show ?thesis
  proof (cases "i + j = 0")
    case True
    with v ab show ?thesis by (simp add: is_int_val_def)
  next
    case False
    have "fadd a b = round_to (f64_val a + f64_val b < 0) \<bar>f64_val a + f64_val b\<bar>"
      using False v ab by (simp add: Let_def del: of_int_add)
    then have "fadd a b = round_to (i + j < 0) (of_int \<bar>i + j\<bar>)"
      unfolding v by (simp add: of_int_less_0_iff flip: of_int_abs del: of_int_add)
    then show ?thesis using round_to_int_val [OF assms(3)] by simp
  qed
qed

lemma is_int_val_fneg: "is_int_val a i \<Longrightarrow> is_int_val (fneg a) (- i)"
  by (cases a) (auto simp: is_int_val_def)

lemma is_int_val_form:
  assumes "is_int_val a i"
  obtains s where "a = Finite s (of_int \<bar>i\<bar>)" "i \<noteq> 0 \<Longrightarrow> s = (i < 0)"
proof -
  obtain s m where a: "a = Finite s m" "0 \<le> m" "(if s then - m else m) = of_int i"
    using assms by (cases a) (auto simp: is_int_val_def)
  have "m = of_int \<bar>i\<bar>" using a(2,3) by (auto simp: abs_if split: if_splits)
  moreover have "i \<noteq> 0 \<Longrightarrow> s = (i < 0)" using a(2,3) by (auto split: if_splits)
  ultimately show ?thesis using that a(1) by blast
qed

lemma is_int_val_fabs: "is_int_val a i \<Longrightarrow> is_int_val (fabs a) \<bar>i\<bar>"
  by (cases a) (auto simp: is_int_val_def abs_if split: if_splits)

lemma is_int_val_fsub:
  "is_int_val a i \<Longrightarrow> is_int_val b j \<Longrightarrow> \<bar>i - j\<bar> \<le> 2 ^ 53 \<Longrightarrow> is_int_val (fsub a b) (i - j)"
  using is_int_val_fadd [of a i "fneg b" "- j"] by (simp add: fsub_def is_int_val_fneg)

lemma is_int_val_fmul:
  assumes "is_int_val a i" and "is_int_val b j" and "\<bar>i * j\<bar> \<le> 2 ^ 53"
  shows "is_int_val (fmul a b) (i * j)"
proof -
  obtain s where a: "a = Finite s (of_int \<bar>i\<bar>)" "i \<noteq> 0 \<Longrightarrow> s = (i < 0)"
    using assms(1) by (rule is_int_val_form) blast
  obtain t where b: "b = Finite t (of_int \<bar>j\<bar>)" "j \<noteq> 0 \<Longrightarrow> t = (j < 0)"
    using assms(2) by (rule is_int_val_form) blast
  have "fmul a b = round_to (s \<noteq> t) (of_int \<bar>i * j\<bar>)"
    by (simp add: a(1) b(1) abs_mult)
  moreover have "i * j \<noteq> 0 \<Longrightarrow> (s \<noteq> t) = (i * j < 0)"
    using a(2) b(2) by (auto simp: mult_less_0_iff)
  ultimately show ?thesis using round_to_int_val [OF assms(3)] by simp
qed

lemma is_int_val_lit: "\<bar>i\<bar> \<le> 2 ^ 53 \<Longrightarrow> is_int_val (lit (of_int i)) i"
  using round_to_int_val [of i "i < 0"] by (simp add: lit_def)

lemma is_int_val_zero [simp]: "is_int_val (Finite s 0) 0"
  by (auto simp: is_int_val_def f64_top_def)

lemma is_int_val_cmp:
  assumes "is_int_val a i" and "is_int_val b j"
  shows "feq a b \<longleftrightarrow> i = j" and "flt a b \<longleftrightarrow> i < j" and "fle a b \<longleftrightarrow> i \<le> j"
  using assms by (cases a; cases b; auto simp: is_int_val_def fle_def)+

subsection \<open>Order\<close>

lemma flt_irrefl [simp]: "\<not> flt a a"
  by (cases a) auto

lemma flt_trans: "flt a b \<Longrightarrow> flt b c \<Longrightarrow> flt a c"
  by (cases a; cases b; cases c) auto

lemma flt_asym: "flt a b \<Longrightarrow> \<not> flt b a"
  using flt_irrefl flt_trans by blast

lemma flt_total: "\<not> is_nan a \<Longrightarrow> \<not> is_nan b \<Longrightarrow> flt a b \<or> feq a b \<or> flt b a"
  by (cases a; cases b) auto

lemma feq_sym: "feq a b = feq b a"
  by (cases a; cases b) auto

lemma feq_trans: "feq a b \<Longrightarrow> feq b c \<Longrightarrow> feq a c"
  by (cases a; cases b; cases c) auto

lemma feq_cong: "feq a b \<Longrightarrow> flt a c = flt b c \<and> flt c a = flt c b"
  by (cases a; cases b; cases c) auto

lemma total_cmp_comparator: "comparator A total_cmp"
  unfolding total_cmp_def [abs_def]
  by (rule comparator_then_with, rule comparator_linorder_key, rule comparator_then_with)
    (rule comparator_linorder_key)+

interpretation total: comparator UNIV total_cmp
  by (rule total_cmp_comparator)

lemma total_cmp_Equal:
  assumes "f64_ok a" and "f64_ok b" and "total_cmp a b = Equal"
  shows "a = b"
proof -
  have e: "f64_rank a = f64_rank b" "f64_val a = f64_val b" "is_sign_negative a = is_sign_negative b"
    using assms(3) by (auto simp: total_cmp_def cmp_simps)
  have ab: "(\<exists>m n. a = Finite (is_sign_negative a) m \<and> b = Finite (is_sign_negative b) n)
    \<or> a = b"
    using e(1,3) by (cases a rule: f64_rank.cases; cases b rule: f64_rank.cases) simp_all
  then show ?thesis
  proof (elim disjE exE conjE)
    fix m n
    assume fin: "a = Finite (is_sign_negative a) m" "b = Finite (is_sign_negative b) n"
    have "f64_val a = (if is_sign_negative a then - m else m)"
      by (subst fin(1)) simp
    moreover have "f64_val b = (if is_sign_negative b then - n else n)"
      by (subst fin(2)) simp
    ultimately have "m = n" using e(2,3) by (simp split: if_splits)
    then have "Finite (is_sign_negative a) m = Finite (is_sign_negative b) n" using e(3) by simp
    then show "a = b" by (rule trans [OF fin(1) trans [OF _ fin(2) [symmetric]]])
  qed simp_all
qed

subsection \<open>Integer values\<close>

definition f64_unit :: rat where
  "f64_unit = 2 powi (- 1074)"

lemma f64_unit_pos: "0 < f64_unit"
  by (simp only: f64_unit_def zero_less_power_int zero_less_numeral)

lemma f64_ok_grid:
  assumes "f64_ok (Finite s m)"
  obtains N :: int where "m = of_int N * f64_unit"
proof (cases "m = 0")
  case True
  then show ?thesis using that [of 0] by simp
next
  case False
  then have m: "0 < m" "round_mag m = m" using assms by auto
  obtain k where k: "m = of_int k * 2 powi ulp_exp m" using round_mag_form [OF m(1)] m(2) by metis
  have e: "- 1074 \<le> ulp_exp m" by (simp add: ulp_exp_def)
  then obtain n where n: "ulp_exp m = int n + - 1074" by (metis diff_add_cancel nonneg_int_cases diff_ge_0_iff_ge)
  have "2 powi ulp_exp m = of_int (2 ^ n) * f64_unit"
    unfolding n f64_unit_def by (subst power_int_add) (simp_all only: power_int_of_nat of_int_power of_int_numeral, simp)
  with k show ?thesis using that [of "k * 2 ^ n"] by (metis of_int_mult mult.assoc)
qed

lemma round_mag_unit: "round_mag f64_unit = f64_unit"
  by (rule round_mag_exact [where k = 1 and e = "- 1074"]) (simp_all only: f64_unit_def of_int_1 mult_1, auto)

lemma round_mag_pos_grid:
  assumes "0 < d" and "d = of_int N * f64_unit"
  shows "0 < round_mag d"
proof -
  have "0 < N" using assms f64_unit_pos by (simp add: zero_less_mult_iff)
  then have "1 \<le> N" by simp
  then have "(1 :: rat) \<le> of_int N" by simp
  then have "1 * f64_unit \<le> of_int N * f64_unit" using f64_unit_pos by (intro mult_right_mono) auto
  then have "f64_unit \<le> d" using assms(2) by simp
  then have "round_mag f64_unit \<le> round_mag d" using f64_unit_pos by (intro round_mag_mono) auto
  then show ?thesis using f64_unit_pos round_mag_unit by simp
qed

lemma one_grid: obtains K :: int where "1 = of_int K * f64_unit"
proof -
  have "f64_ok (Finite False 1)" using round_mag_int [of 1] by (simp add: f64_top_def)
  then show ?thesis using f64_ok_grid that by metis
qed

text \<open>\<open>fract() == 0.0\<close> decides whether a finite value is an integer.\<close>

lemma ffract_zero_iff:
  assumes "f64_ok (Finite s m)"
  shows "feq (ffract (Finite s m)) f64_zero \<longleftrightarrow> m = of_int \<lfloor>m\<rfloor>"
proof (cases "m = of_int \<lfloor>m\<rfloor>")
  case True
  then have "fadd (Finite s m) (Finite (\<not> s) m) = Finite False 0" by simp
  with True show ?thesis by (simp add: ffract_def fsub_def)
next
  case False
  let ?d = "m - of_int \<lfloor>m\<rfloor>"
  have d: "0 < ?d" "?d \<le> 1" using False floor_correct [of m] by linarith+
  obtain N where N: "m = of_int N * f64_unit" using f64_ok_grid [OF assms] .
  obtain K where K: "1 = of_int K * f64_unit" using one_grid .
  have "?d = of_int N * f64_unit - of_int \<lfloor>m\<rfloor> * (of_int K * f64_unit)"
    using N K by (metis mult.right_neutral)
  then have "?d = of_int (N - \<lfloor>m\<rfloor> * K) * f64_unit" by (simp add: left_diff_distrib mult.assoc)
  then have p: "0 < round_mag ?d" using round_mag_pos_grid d(1) by blast
  have "round_mag ?d \<le> round_mag (of_int 1)" using d by (intro round_mag_mono) auto
  also have "\<dots> = 1" using round_mag_int [of 1] by simp
  also have "(1 :: rat) < f64_top" by (simp add: f64_top_def)
  finally have top: "round_mag ?d < f64_top" .
  have "\<bar>f64_val (Finite s m) + f64_val (Finite (\<not> s) (of_int \<lfloor>m\<rfloor>))\<bar> = ?d"
    "f64_val (Finite s m) + f64_val (Finite (\<not> s) (of_int \<lfloor>m\<rfloor>)) \<noteq> 0"
    using d(1) by auto
  then have "ffract (Finite s m) = Finite (f64_val (Finite s m) + f64_val (Finite (\<not> s) (of_int \<lfloor>m\<rfloor>)) < 0) (round_mag ?d)"
    using top by (simp add: ffract_def fsub_def round_to_def Let_def)
  with p False show ?thesis by simp
qed

end
