(* ===== verification/Predicates.thy ===== *)
theory Predicates
  imports F64
begin

text \<open>
  \<open>crates/polygon-nesting-core/src/geometry/predicates.rs\<close>: the orientation of three points. The
  adaptive predicate of the crate \<open>robust\<close> is an argument. \<open>point\<close> is \<open>IrregularPoint\<close> of
  \<open>domain/geometry.rs\<close> and the \<open>Point\<close> of the command line's polygon import.
\<close>

record point =
  px :: f64
  py :: f64

type_synonym robust = "point \<Rightarrow> point \<Rightarrow> point \<Rightarrow> f64"

definition orient2d :: "robust \<Rightarrow> point \<Rightarrow> point \<Rightarrow> point \<Rightarrow> f64" where
  "orient2d robust a b c = fneg (robust a b c)"

definition orientation :: "robust \<Rightarrow> point \<Rightarrow> point \<Rightarrow> point \<Rightarrow> int" where
  "orientation robust origin first second =
    (let robust_result = orient2d robust origin first second
     in if flt f64_zero robust_result then - 1 else if flt robust_result f64_zero then 1 else 0)"

subsection \<open>Exactness\<close>

text \<open>The exact coordinates and twice the signed area of a triangle.\<close>

definition vx :: "point \<Rightarrow> rat" where "vx p = f64_val (px p)"
definition vy :: "point \<Rightarrow> rat" where "vy p = f64_val (py p)"

definition turn :: "point \<Rightarrow> point \<Rightarrow> point \<Rightarrow> rat" where
  "turn a b c = (vx b - vx a) * (vy c - vy a) - (vy b - vy a) * (vx c - vx a)"

text \<open>
  What the code relies on of \<open>robust::orient2d\<close>, on the points of a set: its sign is the sign of the
  exact determinant.
\<close>

definition exact_on :: "robust \<Rightarrow> point set \<Rightarrow> bool" where
  "exact_on robust P \<longleftrightarrow> (\<forall>a \<in> P. \<forall>b \<in> P. \<forall>c \<in> P.
    (flt f64_zero (robust a b c) \<longleftrightarrow> 0 < turn a b c) \<and> (flt (robust a b c) f64_zero \<longleftrightarrow> turn a b c < 0))"

lemma fneg_flt: "flt (fneg v) f64_zero \<longleftrightarrow> flt f64_zero v" "flt f64_zero (fneg v) \<longleftrightarrow> flt v f64_zero"
  by (cases v; auto)+

lemma orientation_exact:
  assumes "exact_on robust P" "a \<in> P" "b \<in> P" "c \<in> P"
  shows "orientation robust a b c = (if 0 < turn a b c then 1 else if turn a b c < 0 then - 1 else 0)"
  using assms by (auto simp: orientation_def orient2d_def Let_def fneg_flt exact_on_def)

lemma orientation_range: "orientation robust a b c \<in> {- 1, 0, 1}"
  by (simp add: orientation_def Let_def)

end
