(* ===== verification/MonotoneChain.thy ===== *)
theory MonotoneChain
  imports Prelude
begin

text \<open>
  The geometry behind \<open>build_half\<close> of \<open>canonical_grid/math.rs\<close> and \<open>build_hull_half\<close> of
  \<open>geometry/convex.rs\<close>, over exact coordinates in an ordered ring (integers, rationals): a scan
  that keeps a stack of left turns over points in lexicographic order ends with a chain that has
  every point on its left. \<open>d\<close> is the direction of the scan: 1 for increasing, -1 for decreasing
  order.
\<close>

type_synonym ipoint = "int \<times> int"

definition vsub :: "('a :: linordered_idom) \<times> 'a \<Rightarrow> 'a \<times> 'a \<Rightarrow> 'a \<times> 'a" where
  "vsub q p = (fst q - fst p, snd q - snd p)"

definition vcross :: "('a :: linordered_idom) \<times> 'a \<Rightarrow> 'a \<times> 'a \<Rightarrow> 'a" where
  "vcross u v = fst u * snd v - snd u * fst v"

definition icross :: "('a :: linordered_idom) \<times> 'a \<Rightarrow> 'a \<times> 'a \<Rightarrow> 'a \<times> 'a \<Rightarrow> 'a" where
  "icross p q r = (fst q - fst p) * (snd r - snd p) - (snd q - snd p) * (fst r - fst p)"

lemma icross_vcross: "icross p q r = vcross (vsub q p) (vsub r p)"
  by (simp add: icross_def vcross_def vsub_def)

lemma icross_mid: "icross p q r = vcross (vsub q p) (vsub r q)"
  by (simp add: icross_def vcross_def vsub_def algebra_simps)

lemma icross_same [simp]: "icross p q p = 0" "icross p q q = 0" "icross p p q = 0"
  by (simp_all add: icross_def)

subsection \<open>Directions\<close>

definition forward :: "'a \<Rightarrow> ('a :: linordered_idom) \<times> 'a \<Rightarrow> bool" where
  "forward d v \<longleftrightarrow> 0 < d * fst v \<or> fst v = 0 \<and> 0 < d * snd v"

definition before :: "'a \<Rightarrow> ('a :: linordered_idom) \<times> 'a \<Rightarrow> 'a \<times> 'a \<Rightarrow> bool" where
  "before d p q \<longleftrightarrow> forward d (vsub q p)"

lemma before_trans: "before d p q \<Longrightarrow> before d q r \<Longrightarrow> before d p r"
  by (auto simp: before_def forward_def vsub_def algebra_simps)

lemma before_irrefl [simp]: "\<not> before d p p"
  by (simp add: before_def forward_def vsub_def)

lemma before_neq: "before d p q \<Longrightarrow> p \<noteq> q"
  by auto

text \<open>Among vectors that point forward, \<open>not to the right of\<close> is transitive.\<close>

lemma vcross_trans1:
  assumes "forward 1 u" "forward 1 v" "forward 1 w" and "0 \<le> vcross u v" "0 \<le> vcross v w"
  shows "0 \<le> vcross u w"
proof -
  obtain ux uy vx vy wx wy where [simp]: "u = (ux, uy)" "v = (vx, vy)" "w = (wx, wy)" by (metis prod.exhaust)
  have f: "0 \<le> ux" "0 \<le> vx" "0 \<le> wx" "ux = 0 \<Longrightarrow> 0 < uy" "vx = 0 \<Longrightarrow> 0 < vy" "wx = 0 \<Longrightarrow> 0 < wy"
    using assms(1-3) by (auto simp: forward_def)
  have c: "0 \<le> ux * vy - uy * vx" "0 \<le> vx * wy - vy * wx" using assms(4,5) by (simp_all add: vcross_def)
  have e: "vx * (ux * wy - uy * wx) = ux * (vx * wy - vy * wx) + wx * (ux * vy - uy * vx)" by (simp add: algebra_simps)
  show ?thesis
  proof (cases "vx = 0")
    case True
    then have "vy * wx \<le> 0" using c by simp
    then have "wx = 0" using f(3,5) True by (simp add: mult_le_0_iff)
    then show ?thesis using f(1,6) by (simp add: vcross_def)
  next
    case False
    have "0 \<le> vx * (ux * wy - uy * wx)" unfolding e using f c by simp
    then show ?thesis using False f(2) by (simp add: vcross_def zero_le_mult_iff)
  qed
qed

lemma vcross_trans:
  assumes "d = 1 \<or> d = -1" and "forward d u" "forward d v" "forward d w"
    and "0 \<le> vcross u v" "0 \<le> vcross v w"
  shows "0 \<le> vcross u w"
  using assms(1)
proof
  assume "d = 1"
  then show ?thesis using vcross_trans1 assms(2-) by blast
next
  let ?n = "\<lambda>p :: 'a \<times> 'a. (- fst p, - snd p)"
  assume d: "d = -1"
  have "forward 1 (?n u)" "forward 1 (?n v)" "forward 1 (?n w)" using assms(2-4) by (simp_all add: forward_def d)
  then have "0 \<le> vcross (?n u) (?n w)"
    by (rule vcross_trans1) (use assms(5,6) in \<open>simp_all add: vcross_def\<close>)
  then show ?thesis by (simp add: vcross_def)
qed

subsection \<open>The scan\<close>

text \<open>The stack has its top first.\<close>

fun scan_pop :: "('a :: linordered_idom) \<times> 'a \<Rightarrow> ('a \<times> 'a) list \<Rightarrow> ('a \<times> 'a) list" where
  "scan_pop q (b # a # s) = (if 0 < icross a b q then b # a # s else scan_pop q (a # s))"
| "scan_pop q s = s"

fun scan :: "('a :: linordered_idom \<times> 'a) list \<Rightarrow> ('a \<times> 'a) list \<Rightarrow> ('a \<times> 'a) list" where
  "scan [] s = s"
| "scan (q # qs) s = scan qs (q # scan_pop q s)"

text \<open>Every edge of the stack goes forward and has the points of \<open>P\<close> on its left.\<close>

definition supports :: "'a \<Rightarrow> ('a :: linordered_idom \<times> 'a) set \<Rightarrow> ('a \<times> 'a) list \<Rightarrow> bool" where
  "supports d P s \<longleftrightarrow> successively (\<lambda>b a. before d a b \<and> (\<forall>p \<in> P. 0 \<le> icross a b p)) s"

fun left_turns :: "('a :: linordered_idom \<times> 'a) list \<Rightarrow> bool" where
  "left_turns (c # b # a # s) = (0 < icross a b c \<and> left_turns (b # a # s))"
| "left_turns _ = True"

lemma supports_simps [simp]:
  "supports d P []" "supports d P [a]"
  "supports d P (b # a # s) \<longleftrightarrow> before d a b \<and> (\<forall>p \<in> P. 0 \<le> icross a b p) \<and> supports d P (a # s)"
  by (auto simp: supports_def)

lemma supports_Un: "supports d (P \<union> Q) s \<longleftrightarrow> supports d P s \<and> supports d Q s"
  by (induction s rule: induct_list012) auto

lemma left_turns_tl: "left_turns (b # s) \<Longrightarrow> left_turns s"
  by (cases s rule: left_turns.cases; cases s) auto

text \<open>A point beyond the top and left of the top edge is left of all edges.\<close>

lemma supports_beyond:
  assumes "d = 1 \<or> d = -1"
  shows "supports d P (b # s) \<Longrightarrow> left_turns (b # s) \<Longrightarrow> before d b q \<Longrightarrow>
    (s \<noteq> [] \<Longrightarrow> 0 \<le> icross (hd s) b q) \<Longrightarrow> supports d {q} (b # s)"
proof (induction s arbitrary: b)
  case (Cons a s)
  have e: "before d a b" "0 \<le> icross a b q" using Cons.prems by simp_all
  then have aq: "before d a q" using Cons.prems(3) before_trans by blast
  have "0 \<le> icross (hd s) a q" if ne: "s \<noteq> []"
  proof -
    obtain c s' where s: "s = c # s'" using ne by (cases s) auto
    have "before d c a" "0 < icross c a b" using Cons.prems(1,2) s by simp_all
    then have "0 \<le> vcross (vsub a c) (vsub q a)"
      using vcross_trans [OF assms, of "vsub a c" "vsub b a" "vsub q a"] e aq
      unfolding before_def icross_mid [of c a b] icross_vcross [of a b q] by simp
    then show ?thesis using s by (simp add: icross_mid)
  qed
  then have "supports d {q} (a # s)" using Cons.IH [of a] Cons.prems(1,2) aq left_turns_tl [of b "a # s"] by simp
  then show ?case using e by simp
qed simp

text \<open>Popping: the new edge from the remaining top supports all points.\<close>

lemma scan_pop_supports:
  assumes d: "d = 1 \<or> d = -1"
  shows "supports d P s \<Longrightarrow> left_turns s \<Longrightarrow> s \<noteq> [] \<Longrightarrow> before d (hd s) q \<Longrightarrow>
    (\<forall>p \<in> P. p = last s \<or> before d (last s) p) \<Longrightarrow> (\<forall>p \<in> P. before d (hd s) p \<longrightarrow> 0 \<le> icross (hd s) q p) \<Longrightarrow>
    (\<forall>p \<in> P. p = hd s \<or> before d (hd s) p \<or> before d p (hd s)) \<Longrightarrow> set s \<subseteq> P \<Longrightarrow> sorted_wrt (\<lambda>a b. before d b a) s \<Longrightarrow>
    (\<And>x y. x \<in> P \<Longrightarrow> y \<in> P \<Longrightarrow> x = y \<or> before d x y \<or> before d y x) \<Longrightarrow>
    supports d (insert q P) (q # scan_pop q s) \<and> left_turns (q # scan_pop q s)"
proof (induction q s rule: scan_pop.induct)
  case (1 q b a s)
  have ab: "before d a b" "\<forall>p \<in> P. 0 \<le> icross a b p" "supports d P (a # s)" using "1.prems"(1) by simp_all
  have bq: "before d b q" and aq: "before d a q" using "1.prems"(4) ab(1) by (auto intro: before_trans)
  show ?case
  proof (cases "0 < icross a b q")
    case True
    have new: "0 \<le> icross b q p" if p: "p \<in> P" for p
    proof -
      consider "p = b" | "before d b p" | "before d p b" using "1.prems"(7) p by auto
      then show ?thesis
      proof cases
        case 3
        have "0 \<le> vcross (vsub b p) (vsub b a)"
          using bspec [OF ab(2) p] by (simp add: icross_def vcross_def vsub_def algebra_simps)
        moreover have "0 \<le> vcross (vsub b a) (vsub q b)" using True by (simp add: icross_mid)
        ultimately have "0 \<le> vcross (vsub b p) (vsub q b)"
          using vcross_trans [OF d] 3 ab(1) bq unfolding before_def by blast
        then show ?thesis by (simp add: icross_def vcross_def vsub_def algebra_simps)
      qed (use "1.prems"(6) p in auto)
    qed
    have "supports d {q} (b # a # s)"
      using supports_beyond [OF d "1.prems"(1,2) bq] True by simp
    then have "supports d (insert q P) (b # a # s)"
      using "1.prems"(1) supports_Un [of d "{q}" P] by simp
    then show ?thesis using True new bq "1.prems"(2) by simp
  next
    case False
    have right: "0 \<le> icross a q p" if p: "p \<in> P" "before d a p" for p
    proof -
      have "0 \<le> vcross (vsub q a) (vsub b a)" using False by (simp add: icross_def vcross_def vsub_def algebra_simps)
      moreover have "0 \<le> vcross (vsub b a) (vsub p a)" using ab(2) p(1) by (simp add: icross_vcross)
      ultimately have "0 \<le> vcross (vsub q a) (vsub p a)"
        using vcross_trans [OF d] aq ab(1) p(2) unfolding before_def by blast
      then show ?thesis by (simp add: icross_vcross)
    qed
    have "supports d (insert q P) (q # scan_pop q (a # s)) \<and> left_turns (q # scan_pop q (a # s))"
    proof (rule "1.IH" [OF False ab(3)])
      show "left_turns (a # s)" using "1.prems"(2) left_turns_tl by blast
      show "\<forall>p \<in> P. p = hd (a # s) \<or> before d (hd (a # s)) p \<or> before d p (hd (a # s))"
        using "1.prems"(8) "1.prems"(10) [of _ a] by fastforce
    qed (use "1.prems" aq right in auto)
    then show ?thesis using False by simp
  qed
qed auto

lemma scan_pop_facts:
  "s \<noteq> [] \<Longrightarrow> scan_pop q s \<noteq> [] \<and> last (scan_pop q s) = last s \<and> set (scan_pop q s) \<subseteq> set s \<and>
    (sorted_wrt R s \<longrightarrow> sorted_wrt R (scan_pop q s))"
  by (induction q s rule: scan_pop.induct) auto

text \<open>What the scan has reached after the points \<open>P\<close>, the last of which is the top.\<close>

definition scanned :: "'a \<Rightarrow> ('a :: linordered_idom \<times> 'a) set \<Rightarrow> ('a \<times> 'a) list \<Rightarrow> bool" where
  "scanned d P s \<longleftrightarrow> s \<noteq> [] \<and> supports d P s \<and> left_turns s \<and> set s \<subseteq> P \<and>
    sorted_wrt (\<lambda>a b. before d b a) s \<and>
    (\<forall>p \<in> P. p = last s \<or> before d (last s) p) \<and> (\<forall>p \<in> P. p = hd s \<or> before d p (hd s)) \<and>
    (\<forall>x \<in> P. \<forall>y \<in> P. x = y \<or> before d x y \<or> before d y x)"

lemma before_neg: "before (- 1) q p \<longleftrightarrow> before 1 p q"
  by (auto simp: before_def forward_def vsub_def)

lemma before_asym: "before d x y \<Longrightarrow> \<not> before d y x"
  using before_trans before_irrefl by blast

lemma scanned_push:
  assumes "d = 1 \<or> d = -1" and "scanned d P s" and "\<forall>p \<in> P. before d p q"
  shows "scanned d (insert q P) (q # scan_pop q s)" and "last (q # scan_pop q s) = last s"
proof -
  have s: "s \<noteq> []" "supports d P s" "left_turns s" "set s \<subseteq> P" "sorted_wrt (\<lambda>a b. before d b a) s"
    "\<forall>p \<in> P. p = last s \<or> before d (last s) p" "\<forall>p \<in> P. p = hd s \<or> before d p (hd s)"
    "\<And>x y. x \<in> P \<Longrightarrow> y \<in> P \<Longrightarrow> x = y \<or> before d x y \<or> before d y x"
    using assms(2) by (auto simp: scanned_def)
  have hd: "before d (hd s) q" "before d (last s) q" using s(1,4) assms(3) hd_in_set last_in_set by blast+
  note f = scan_pop_facts [OF s(1), where R = "\<lambda>a b. before d b a" and q = q]
  have n: "\<forall>p \<in> P. before d (hd s) p \<longrightarrow> 0 \<le> icross (hd s) q p" using s(7) before_asym by fastforce
  have "supports d (insert q P) (q # scan_pop q s) \<and> left_turns (q # scan_pop q s)"
    by (rule scan_pop_supports [OF assms(1) s(2,3,1) hd(1) s(6) n _ s(4,5,8)]) (use s(7) in blast)+
  moreover have "\<forall>p \<in> insert q P. p = last s \<or> before d (last s) p" using s(6) hd(2) by blast
  moreover have "\<forall>x \<in> insert q P. \<forall>y \<in> insert q P. x = y \<or> before d x y \<or> before d y x"
    using s(8) assms(3) by blast
  moreover have "sorted_wrt (\<lambda>a b. before d b a) (q # scan_pop q s)"
    using f s(4,5) assms(3) by auto
  ultimately show "scanned d (insert q P) (q # scan_pop q s)"
    using f s(4) assms(3) unfolding scanned_def by auto
  show "last (q # scan_pop q s) = last s" using f by simp
qed

lemma scan_scanned:
  assumes "d = 1 \<or> d = -1"
  shows "scanned d P s \<Longrightarrow> sorted_wrt (before d) qs \<Longrightarrow> (\<forall>q \<in> set qs. \<forall>p \<in> P. before d p q) \<Longrightarrow>
    scanned d (P \<union> set qs) (scan qs s) \<and> last (scan qs s) = last s \<and>
    hd (scan qs s) = (if qs = [] then hd s else last qs)"
proof (induction qs arbitrary: P s)
  case (Cons q qs)
  have "\<forall>p \<in> P. before d p q" using Cons.prems(3) by simp
  note push = scanned_push [OF assms Cons.prems(1) this]
  have "scanned d (insert q P \<union> set qs) (scan qs (q # scan_pop q s)) \<and>
    last (scan qs (q # scan_pop q s)) = last (q # scan_pop q s) \<and>
    hd (scan qs (q # scan_pop q s)) = (if qs = [] then hd (q # scan_pop q s) else last qs)"
    by (rule Cons.IH [OF push(1)]) (use Cons.prems in auto)
  then show ?case using push(2) by auto
qed simp

lemma sorted_before_distinct: "sorted_wrt (\<lambda>a b. before d b a) s \<Longrightarrow> distinct s"
  by (induction s) auto

text \<open>
  The chain of a scan over sorted points: from the first to the last of them, with only points of
  the list as vertices and all points on the left of every edge.
\<close>

lemma scan_chain:
  assumes "d = 1 \<or> d = -1" and "sorted_wrt (before d) xs" and "xs \<noteq> []"
  shows "successively (\<lambda>a b. a \<noteq> b \<and> (\<forall>p \<in> set xs. 0 \<le> icross a b p)) (rev (scan xs []))"
    "hd (rev (scan xs [])) = hd xs" "last (rev (scan xs [])) = last xs" "set (scan xs []) \<subseteq> set xs"
    "left_turns (scan xs [])" "distinct (scan xs [])" "scan xs [] \<noteq> []"
    "sorted_wrt (before d) (rev (scan xs []))"
proof -
  obtain x ys where xs: "xs = x # ys" using assms(3) by (cases xs) auto
  have i: "scanned d {x} [x]" by (simp add: scanned_def)
  have "scanned d ({x} \<union> set ys) (scan ys [x]) \<and> last (scan ys [x]) = last [x] \<and>
    hd (scan ys [x]) = (if ys = [] then hd [x] else last ys)"
    by (rule scan_scanned [OF assms(1) i]) (use assms(2) xs in auto)
  then have s: "scanned d (set xs) (scan xs [])" "last (scan xs []) = hd xs" "hd (scan xs []) = last xs"
    by (simp_all add: xs)
  show ne: "scan xs [] \<noteq> []" using s(1) by (simp add: scanned_def)
  have "supports d (set xs) (scan xs [])" using s(1) by (simp add: scanned_def)
  then show "successively (\<lambda>a b. a \<noteq> b \<and> (\<forall>p \<in> set xs. 0 \<le> icross a b p)) (rev (scan xs []))"
    unfolding supports_def successively_rev by (rule successively_mono) auto
  show "hd (rev (scan xs [])) = hd xs" "last (rev (scan xs [])) = last xs"
    using ne s(2,3) by (simp_all add: hd_rev last_rev)
  show "set (scan xs []) \<subseteq> set xs" "left_turns (scan xs [])" using s(1) by (simp_all add: scanned_def)
  have "sorted_wrt (\<lambda>a b. before d b a) (scan xs [])" using s(1) by (simp add: scanned_def)
  then show "distinct (scan xs [])" "sorted_wrt (before d) (rev (scan xs []))"
    by (rule sorted_before_distinct, simp add: sorted_wrt_rev)
qed

end
