(* ===== verification/GridMath.thy ===== *)
theory GridMath
  imports F64 MonotoneChain
begin

text \<open>
  \<open>crates/polygon-nesting-core/src/canonical_grid/math.rs\<close> and its helpers of \<open>js_local.rs\<close>: the
  exact predicates on grid points. Coordinates are \<open>f64\<close>, as in the code; a \<open>BigInt\<close> is an
  \<open>int\<close>. The rendering of a number as JavaScript does (the crate \<open>ryu-js\<close>) is an argument \<open>js\<close>.
\<close>

subsection \<open>js_local.rs\<close>

definition MAX_SAFE :: f64 where
  "MAX_SAFE = lit 9007199254740991"

definition is_safe_integer :: "f64 \<Rightarrow> bool" where
  "is_safe_integer v \<longleftrightarrow> is_finite v \<and> feq (ffract v) f64_zero \<and> fle (fabs v) MAX_SAFE"

definition math_sign :: "f64 \<Rightarrow> f64" where
  "math_sign v = (if is_nan v then NaN else if feq v f64_zero then v
    else if flt f64_zero v then lit 1 else lit (- 1))"

definition math_min :: "f64 \<Rightarrow> f64 \<Rightarrow> f64" where
  "math_min a b =
    (if is_nan a \<or> is_nan b then NaN
     else if feq a f64_zero \<and> feq b f64_zero then Finite (is_sign_negative a \<or> is_sign_negative b) 0
     else if flt a b then a else b)"

definition math_max :: "f64 \<Rightarrow> f64 \<Rightarrow> f64" where
  "math_max a b =
    (if is_nan a \<or> is_nan b then NaN
     else if feq a f64_zero \<and> feq b f64_zero then Finite (is_sign_negative a \<and> is_sign_negative b) 0
     else if flt b a then a else b)"

text \<open>Parsing the decimal rendering of an integer: the nearest \<open>f64\<close>.\<close>

definition bigint_to_number :: "int \<Rightarrow> f64" where
  "bigint_to_number i = lit (of_int i)"

subsection \<open>math.rs\<close>

record grid_point =
  gx :: f64
  gy :: f64

type_synonym grid_path = "grid_point list"

definition is_canonical_grid_coordinate :: "f64 \<Rightarrow> bool" where
  "is_canonical_grid_coordinate v = is_safe_integer v"

definition canonical_grid_compare_bigints :: "int \<Rightarrow> int \<Rightarrow> int" where
  "canonical_grid_compare_bigints a b = (case cmp_of a b of Equal \<Rightarrow> 0 | Less \<Rightarrow> - 1 | Greater \<Rightarrow> 1)"

definition canonical_grid_compare_ratios :: "int \<Rightarrow> int \<Rightarrow> int \<Rightarrow> int \<Rightarrow> int option" where
  "canonical_grid_compare_ratios n1 d1 n2 d2 =
    (if d1 \<le> 0 \<or> d2 \<le> 0 then None else Some (canonical_grid_compare_bigints (n1 * d2) (n2 * d1)))"

definition safe_integer_to_bigint :: "f64 \<Rightarrow> int" where
  "safe_integer_to_bigint v = as_i64 v"

definition canonical_point :: "grid_point \<Rightarrow> bool" where
  "canonical_point p \<longleftrightarrow> is_canonical_grid_coordinate (gx p) \<and> is_canonical_grid_coordinate (gy p)"

definition canonical_grid_cross :: "grid_point \<Rightarrow> grid_point \<Rightarrow> grid_point \<Rightarrow> int option" where
  "canonical_grid_cross origin first second =
    (if \<not> canonical_point origin \<or> \<not> canonical_point first \<or> \<not> canonical_point second then None
     else let origin_x = safe_integer_to_bigint (gx origin); origin_y = safe_integer_to_bigint (gy origin);
              first_x = safe_integer_to_bigint (gx first); first_y = safe_integer_to_bigint (gy first);
              second_x = safe_integer_to_bigint (gx second); second_y = safe_integer_to_bigint (gy second)
          in Some ((first_x - origin_x) * (second_y - origin_y) - (first_y - origin_y) * (second_x - origin_x)))"

definition CANONICAL_GRID_EXACT_NUMBER_CROSS_LIMIT :: f64 where
  "CANONICAL_GRID_EXACT_NUMBER_CROSS_LIMIT = lit 33554431"

definition within_exact_number_cross_limit :: "grid_point \<Rightarrow> bool" where
  "within_exact_number_cross_limit p \<longleftrightarrow> fle (fabs (gx p)) CANONICAL_GRID_EXACT_NUMBER_CROSS_LIMIT \<and>
    fle (fabs (gy p)) CANONICAL_GRID_EXACT_NUMBER_CROSS_LIMIT"

definition canonical_grid_cross_sign :: "grid_point \<Rightarrow> grid_point \<Rightarrow> grid_point \<Rightarrow> int option" where
  "canonical_grid_cross_sign origin first second =
    (if \<not> canonical_point origin \<or> \<not> canonical_point first \<or> \<not> canonical_point second then None
     else if within_exact_number_cross_limit origin \<and> within_exact_number_cross_limit first \<and>
         within_exact_number_cross_limit second then
       let cross = fsub (fmul (fsub (gx first) (gx origin)) (fsub (gy second) (gy origin)))
             (fmul (fsub (gy first) (gy origin)) (fsub (gx second) (gx origin)))
       in Some (if feq cross f64_zero then 0 else if flt cross f64_zero then - 1 else 1)
     else case canonical_grid_cross origin first second of
         None \<Rightarrow> None
       | Some exact \<Rightarrow> Some (if exact = 0 then 0 else if exact < 0 then - 1 else 1))"

text \<open>The loop of \<open>canonical_grid_signed_doubled_area\<close>, from \<open>index\<close> on.\<close>

fun doubled_area_loop :: "grid_path \<Rightarrow> nat list \<Rightarrow> int \<Rightarrow> int option" where
  "doubled_area_loop path [] doubled_area = Some doubled_area"
| "doubled_area_loop path (index # rest) doubled_area =
    (let first = path ! index; second = path ! ((index + 1) mod length path)
     in if \<not> canonical_point first \<or> \<not> canonical_point second then None
        else doubled_area_loop path rest (doubled_area +
          (safe_integer_to_bigint (gx first) * safe_integer_to_bigint (gy second) -
           safe_integer_to_bigint (gx second) * safe_integer_to_bigint (gy first))))"

definition canonical_grid_signed_doubled_area :: "grid_path \<Rightarrow> int option" where
  "canonical_grid_signed_doubled_area path =
    (if length path < 3 then Some 0 else doubled_area_loop path [0..<length path] 0)"

definition canonical_grid_absolute_doubled_area :: "grid_path \<Rightarrow> int option" where
  "canonical_grid_absolute_doubled_area path =
    map_option (\<lambda>signed. if signed < 0 then - signed else signed) (canonical_grid_signed_doubled_area path)"

definition hull_sort_key :: "grid_point \<Rightarrow> grid_point \<Rightarrow> f64" where
  "hull_sort_key first second =
    (let dx = fsub (gx first) (gx second); dx_is_truthy = (\<not> feq dx f64_zero \<and> \<not> is_nan dx)
     in if dx_is_truthy then dx else fsub (gy first) (gy second))"

definition hull_sort_ordering :: "grid_point \<Rightarrow> grid_point \<Rightarrow> ordering" where
  "hull_sort_ordering first second =
    (let key = hull_sort_key first second
     in if is_nan key then Equal else if flt key f64_zero then Less
        else if flt f64_zero key then Greater else Equal)"

text \<open>The de-duplicating map: first position, last value.\<close>

fun dedup_points :: "(f64 \<Rightarrow> string) \<Rightarrow> grid_path \<Rightarrow> grid_path \<Rightarrow> (string \<rightharpoonup> nat) \<Rightarrow> grid_path" where
  "dedup_points js [] unique key_index = unique"
| "dedup_points js (p # ps) unique key_index =
    (let key = js (gx p) @ '','' @ js (gy p)
     in case key_index key of
          Some index \<Rightarrow> dedup_points js ps (unique[index := p]) key_index
        | None \<Rightarrow> dedup_points js ps (unique @ [p]) (key_index(key \<mapsto> length unique)))"

text \<open>\<open>build_half\<close>; the half is kept with its end first.\<close>

fun pop_turns :: "grid_point \<Rightarrow> grid_path \<Rightarrow> grid_path option" where
  "pop_turns p (first # origin # half) = (case canonical_grid_cross_sign origin first p of
      None \<Rightarrow> None
    | Some turn \<Rightarrow> if turn > 0 then Some (first # origin # half) else pop_turns p (origin # half))"
| "pop_turns p half = Some half"

fun build_half :: "grid_path \<Rightarrow> grid_path \<Rightarrow> grid_path option" where
  "build_half [] half = Some (rev half)"
| "build_half (p # ps) half = (case pop_turns p half of None \<Rightarrow> None | Some h \<Rightarrow> build_half ps (p # h))"

definition canonical_grid_convex_hull :: "(f64 \<Rightarrow> string) \<Rightarrow> grid_path \<Rightarrow> grid_path option" where
  "canonical_grid_convex_hull js points =
    (let unique = sort_by hull_sort_ordering (dedup_points js points [] Map.empty)
     in if \<exists>p \<in> set unique. \<not> canonical_point p then None
        else if length unique \<le> 1 then Some unique
        else case build_half unique [] of
            None \<Rightarrow> None
          | Some lower \<Rightarrow> (case build_half (rev unique) [] of
              None \<Rightarrow> None
            | Some upper \<Rightarrow> Some (take (length lower - 1) lower @ take (length upper - 1) upper)))"

definition canonical_grid_point_on_segment :: "grid_point \<Rightarrow> grid_point \<Rightarrow> grid_point \<Rightarrow> bool" where
  "canonical_grid_point_on_segment point start stop \<longleftrightarrow>
    canonical_grid_cross_sign start stop point = Some 0 \<and>
    fle (math_min (gx start) (gx stop)) (gx point) \<and> fle (gx point) (math_max (gx start) (gx stop)) \<and>
    fle (math_min (gy start) (gy stop)) (gy point) \<and> fle (gy point) (math_max (gy start) (gy stop))"

definition canonical_grid_counter_clockwise :: "grid_path \<Rightarrow> grid_path option" where
  "canonical_grid_counter_clockwise path = map_option
    (\<lambda>signed. if signed \<ge> 0 then path else rev path) (canonical_grid_signed_doubled_area path)"

definition canonical_grid_clockwise :: "grid_path \<Rightarrow> grid_path option" where
  "canonical_grid_clockwise path = map_option
    (\<lambda>signed. if signed \<le> 0 then path else rev path) (canonical_grid_signed_doubled_area path)"

definition doubled_grid_area_to_mm2 :: "int \<Rightarrow> f64 option" where
  "doubled_grid_area_to_mm2 a =
    (let area_mm2 = fdiv (bigint_to_number a) (lit 2000000) in if is_finite area_mm2 then Some area_mm2 else None)"

subsection \<open>Safe integers\<close>

lemma lit_int_val: "\<bar>i\<bar> \<le> 2 ^ 53 \<Longrightarrow> is_int_val (lit (of_int i)) i"
  by (rule is_int_val_lit)

lemma MAX_SAFE_val: "is_int_val MAX_SAFE 9007199254740991"
  using is_int_val_lit [of 9007199254740991] by (simp add: MAX_SAFE_def)

lemma safe_integer_iff:
  assumes "f64_ok v"
  shows "is_safe_integer v \<longleftrightarrow> (\<exists>i. is_int_val v i \<and> \<bar>i\<bar> \<le> 9007199254740991)"
proof (cases v)
  case (Finite s m)
  have m: "0 \<le> m" "f64_ok (Finite s m)" using assms Finite by auto
  show ?thesis
  proof (cases "m = of_int \<lfloor>m\<rfloor>")
    case True
    have v: "is_int_val v (if s then - \<lfloor>m\<rfloor> else \<lfloor>m\<rfloor>)"
      using True m Finite by (auto simp: is_int_val_def)
    then have u: "is_int_val v i \<longleftrightarrow> i = (if s then - \<lfloor>m\<rfloor> else \<lfloor>m\<rfloor>)" for i
      by (auto simp: is_int_val_def)
    have "fle (fabs v) MAX_SAFE \<longleftrightarrow> \<bar>if s then - \<lfloor>m\<rfloor> else \<lfloor>m\<rfloor>\<bar> \<le> 9007199254740991"
      by (rule is_int_val_cmp(3) [OF is_int_val_fabs [OF v] MAX_SAFE_val])
    moreover have "feq (ffract v) f64_zero" using ffract_zero_iff [OF m(2)] True Finite by simp
    ultimately show ?thesis using Finite unfolding is_safe_integer_def u by simp
  next
    case False
    then have "\<not> feq (ffract v) f64_zero" using ffract_zero_iff [OF m(2)] Finite by simp
    moreover have "\<not> is_int_val v i" for i
    proof
      assume "is_int_val v i"
      then have "m = of_int \<bar>i\<bar>" using Finite m(1) by (auto simp: is_int_val_def abs_if split: if_splits)
      with False show False by simp
    qed
    ultimately show ?thesis by (simp add: is_safe_integer_def)
  qed
qed (simp_all add: is_safe_integer_def is_int_val_def)

lemma as_i64_int_val: "is_int_val v i \<Longrightarrow> \<bar>i\<bar> \<le> 9007199254740991 \<Longrightarrow> as_i64 v = i"
proof (erule is_int_val_form)
  fix s assume i: "\<bar>i\<bar> \<le> 9007199254740991" and v: "v = Finite s (of_int \<bar>i\<bar>)" "i \<noteq> 0 \<Longrightarrow> s = (i < 0)"
  then have "trunc_int v = i" by (cases "i = 0") (auto simp: abs_if)
  moreover have "- (2 ^ 63) \<le> i" "i \<le> 2 ^ 63 - 1" using i by auto
  ultimately show "as_i64 v = i" by (simp add: v(1))
qed

definition pt :: "grid_point \<Rightarrow> int \<times> int" where
  "pt p = (safe_integer_to_bigint (gx p), safe_integer_to_bigint (gy p))"

definition point_ok :: "grid_point \<Rightarrow> bool" where
  "point_ok p \<longleftrightarrow> f64_ok (gx p) \<and> f64_ok (gy p)"

lemma canonical_point_vals:
  assumes "point_ok p" and "canonical_point p"
  shows "is_int_val (gx p) (fst (pt p))" "is_int_val (gy p) (snd (pt p))"
    "\<bar>fst (pt p)\<bar> \<le> 9007199254740991" "\<bar>snd (pt p)\<bar> \<le> 9007199254740991"
  using assms safe_integer_iff [of "gx p"] safe_integer_iff [of "gy p"] as_i64_int_val
  by (auto simp: point_ok_def canonical_point_def is_canonical_grid_coordinate_def pt_def safe_integer_to_bigint_def)

subsection \<open>The cross product\<close>

lemma canonical_grid_cross_eq:
  "canonical_grid_cross p q r = (if canonical_point p \<and> canonical_point q \<and> canonical_point r
    then Some (icross (pt p) (pt q) (pt r)) else None)"
  by (simp add: canonical_grid_cross_def icross_def pt_def Let_def)

lemma within_limit:
  assumes "point_ok p" and "canonical_point p"
  shows "within_exact_number_cross_limit p \<longleftrightarrow> \<bar>fst (pt p)\<bar> \<le> 33554431 \<and> \<bar>snd (pt p)\<bar> \<le> 33554431"
proof -
  have l: "is_int_val CANONICAL_GRID_EXACT_NUMBER_CROSS_LIMIT 33554431"
    using is_int_val_lit [of 33554431] by (simp add: CANONICAL_GRID_EXACT_NUMBER_CROSS_LIMIT_def)
  show ?thesis
    using canonical_point_vals(1,2) [OF assms]
    by (simp add: within_exact_number_cross_limit_def is_int_val_cmp(3) [OF is_int_val_fabs l])
qed

text \<open>Inside the bound no intermediate value rounds.\<close>

lemma fast_cross:
  assumes "is_int_val ox a" "is_int_val oy b" "is_int_val fx c" "is_int_val fy d" "is_int_val sx e" "is_int_val sy f"
    and "\<bar>a\<bar> \<le> 33554431" "\<bar>b\<bar> \<le> 33554431" "\<bar>c\<bar> \<le> 33554431" "\<bar>d\<bar> \<le> 33554431" "\<bar>e\<bar> \<le> 33554431" "\<bar>f\<bar> \<le> 33554431"
  shows "is_int_val (fsub (fmul (fsub fx ox) (fsub sy oy)) (fmul (fsub fy oy) (fsub sx ox)))
    ((c - a) * (f - b) - (d - b) * (e - a))"
proof -
  have d: "\<bar>x - y\<bar> \<le> 67108862" if "\<bar>x\<bar> \<le> 33554431" "\<bar>y\<bar> \<le> 33554431" for x y :: int using that by linarith
  have m: "\<bar>x * y\<bar> \<le> 4503599358935044" if "\<bar>x\<bar> \<le> 67108862" "\<bar>y\<bar> \<le> 67108862" for x y :: int
    using mult_mono [OF that] by (simp add: abs_mult)
  have sub: "is_int_val (fsub x y) (i - j)" "\<bar>i - j\<bar> \<le> 67108862"
    if "is_int_val x i" "is_int_val y j" "\<bar>i\<bar> \<le> 33554431" "\<bar>j\<bar> \<le> 33554431" for x y i j
    using is_int_val_fsub [OF that(1,2)] d [OF that(3,4)] by auto
  have mul: "is_int_val (fmul x y) (i * j)" "\<bar>i * j\<bar> \<le> 4503599358935044"
    if "is_int_val x i" "is_int_val y j" "\<bar>i\<bar> \<le> 67108862" "\<bar>j\<bar> \<le> 67108862" for x y i j
    using is_int_val_fmul [OF that(1,2)] m [OF that(3,4)] by auto
  let ?p = "(c - a) * (f - b)" and ?q = "(d - b) * (e - a)"
  have "is_int_val (fmul (fsub fx ox) (fsub sy oy)) ?p" "\<bar>?p\<bar> \<le> 4503599358935044"
    "is_int_val (fmul (fsub fy oy) (fsub sx ox)) ?q" "\<bar>?q\<bar> \<le> 4503599358935044"
    using assms by (auto intro!: mul sub)
  moreover have "\<bar>x - y\<bar> \<le> 2 ^ 53" if "\<bar>x\<bar> \<le> 4503599358935044" "\<bar>y\<bar> \<le> 4503599358935044" for x y :: int
    using that by auto
  ultimately show ?thesis by (intro is_int_val_fsub)
qed

lemma cross_sign_eq:
  assumes "point_ok p" "point_ok q" "point_ok r"
  shows "canonical_grid_cross_sign p q r = map_option sgn (canonical_grid_cross p q r)"
proof (cases "canonical_point p \<and> canonical_point q \<and> canonical_point r")
  case False
  then show ?thesis by (auto simp: canonical_grid_cross_sign_def canonical_grid_cross_eq)
next
  case True
  show ?thesis
  proof (cases "within_exact_number_cross_limit p \<and> within_exact_number_cross_limit q \<and> within_exact_number_cross_limit r")
    case fast: True
    note v = canonical_point_vals(1,2)
    have c: "is_int_val (fsub (fmul (fsub (gx q) (gx p)) (fsub (gy r) (gy p)))
        (fmul (fsub (gy q) (gy p)) (fsub (gx r) (gx p)))) (icross (pt p) (pt q) (pt r))"
      unfolding icross_def
      using True fast assms within_limit by (intro fast_cross v) auto
    show ?thesis
      using True fast is_int_val_cmp(1,2) [OF c is_int_val_zero]
      by (simp add: canonical_grid_cross_sign_def canonical_grid_cross_eq Let_def sgn_if)
  next
    case False
    then show ?thesis using True
      by (auto simp: canonical_grid_cross_sign_def canonical_grid_cross_eq sgn_if)
  qed
qed

text \<open>
  C33. The orientation sign is exact: for any three points with binary64 coordinates,
  \<open>canonical_grid_cross_sign\<close> answers the sign of the exact cross product, also where it computes
  in floating point, and refuses exactly the points whose coordinates are not all safe integers;
  so it changes sign when two points are exchanged and is unchanged when they rotate.
\<close>

theorem cross_sign_exact:
  assumes "point_ok p" "point_ok q" "point_ok r"
  shows "canonical_grid_cross_sign p q r =
      (if canonical_point p \<and> canonical_point q \<and> canonical_point r
       then Some (sgn (icross (pt p) (pt q) (pt r))) else None) \<and>
    canonical_grid_cross_sign p r q = map_option uminus (canonical_grid_cross_sign p q r) \<and>
    canonical_grid_cross_sign q r p = canonical_grid_cross_sign p q r"
proof (intro conjI)
  note e = cross_sign_eq canonical_grid_cross_eq
  show "canonical_grid_cross_sign p q r = (if canonical_point p \<and> canonical_point q \<and> canonical_point r
       then Some (sgn (icross (pt p) (pt q) (pt r))) else None)"
    using assms by (simp add: e)
  have s: "icross a c b = - icross a b c" "icross b c a = icross a b c" for a b c
    by (simp_all add: icross_def algebra_simps)
  show "canonical_grid_cross_sign p r q = map_option uminus (canonical_grid_cross_sign p q r)"
    using assms by (simp add: e s(1) [of "pt p" "pt r" "pt q"] sgn_minus)
  show "canonical_grid_cross_sign q r p = canonical_grid_cross_sign p q r"
    using assms by (auto simp: e s(2) [of "pt q" "pt r" "pt p"])
qed

definition int_point :: "int \<Rightarrow> int \<Rightarrow> grid_point" where
  "int_point x y = \<lparr>gx = lit (of_int x), gy = lit (of_int y)\<rparr>"

lemma int_point_ok [simp]: "point_ok (int_point x y)"
  by (simp add: point_ok_def int_point_def)

lemma int_point_vals:
  assumes "\<bar>x\<bar> \<le> 9007199254740991" "\<bar>y\<bar> \<le> 9007199254740991"
  shows "canonical_point (int_point x y)" "pt (int_point x y) = (x, y)"
proof -
  have v: "is_int_val (lit (of_int x)) x" "is_int_val (lit (of_int y)) y" using assms by (auto intro: is_int_val_lit)
  then show "canonical_point (int_point x y)"
    using assms safe_integer_iff by (auto simp: canonical_point_def is_canonical_grid_coordinate_def int_point_def)
  show "pt (int_point x y) = (x, y)"
    using v assms as_i64_int_val by (simp add: pt_def safe_integer_to_bigint_def int_point_def)
qed

lemma cross_sign_exact_witness:
  "canonical_grid_cross_sign (int_point 0 0) (int_point 9007199254740991 1) (int_point 9007199254740990 1) = Some 1"
  using cross_sign_exact [of "int_point 0 0" "int_point 9007199254740991 1" "int_point 9007199254740990 1"]
  by (simp add: int_point_vals icross_def)

subsection \<open>Areas\<close>

definition det :: "int \<times> int \<Rightarrow> int \<times> int \<Rightarrow> int" where
  "det p q = fst p * snd q - fst q * snd p"

fun open_sum :: "(int \<times> int) list \<Rightarrow> int" where
  "open_sum (p # q # ps) = det p q + open_sum (q # ps)"
| "open_sum _ = 0"

text \<open>The shoelace sum of a closed path.\<close>

definition shoelace :: "(int \<times> int) list \<Rightarrow> int" where
  "shoelace ps = open_sum (ps @ [hd ps])"

lemma open_sum_snoc: "xs \<noteq> [] \<Longrightarrow> open_sum (xs @ [y]) = open_sum xs + det (last xs) y"
  by (induction xs rule: open_sum.induct) auto

lemma open_sum_Cons: "xs \<noteq> [] \<Longrightarrow> open_sum (x # xs) = det x (hd xs) + open_sum xs"
  by (cases xs) auto

lemma open_sum_rev: "open_sum (rev xs) = - open_sum xs"
proof (induction xs)
  case (Cons x xs)
  show ?case
  proof (cases "xs = []")
    case False
    then have "open_sum (rev xs @ [x]) = open_sum (rev xs) + det (hd xs) x"
      by (subst open_sum_snoc) (simp_all add: last_rev)
    then show ?thesis using Cons False by (simp add: open_sum_Cons det_def)
  qed simp
qed simp

lemma shoelace_rev: "shoelace (rev xs) = - shoelace xs"
proof (cases "xs = []")
  case False
  have "rev xs @ [hd (rev xs)] = rev (last xs # xs)" using False by (simp add: hd_rev)
  then have "shoelace (rev xs) = - open_sum (last xs # xs)" unfolding shoelace_def by (simp only: open_sum_rev)
  then show ?thesis using False by (simp add: shoelace_def open_sum_Cons open_sum_snoc)
qed (simp add: shoelace_def)

lemma open_sum_nth: "open_sum xs = (\<Sum>i < length xs - 1. det (xs ! i) (xs ! (i + 1)))"
proof (induction xs rule: open_sum.induct)
  case (1 p q ps)
  then show ?case by (simp add: sum.lessThan_Suc_shift del: sum.lessThan_Suc)
qed simp_all

lemma shoelace_index: "shoelace xs = (\<Sum>i \<leftarrow> [0..<length xs]. det (xs ! i) (xs ! ((i + 1) mod length xs)))"
proof (cases "xs = []")
  case False
  have "shoelace xs = (\<Sum>i < length xs. det ((xs @ [hd xs]) ! i) ((xs @ [hd xs]) ! (i + 1)))"
    unfolding shoelace_def open_sum_nth by simp
  also have "\<dots> = (\<Sum>i < length xs. det (xs ! i) (xs ! ((i + 1) mod length xs)))"
  proof (rule sum.cong)
    fix i assume "i \<in> {..<length xs}"
    then show "det ((xs @ [hd xs]) ! i) ((xs @ [hd xs]) ! (i + 1)) = det (xs ! i) (xs ! ((i + 1) mod length xs))"
      using False by (cases "i + 1 = length xs") (auto simp: nth_append hd_conv_nth)
  qed simp
  finally show ?thesis by (simp add: interv_sum_list_conv_sum_set_nat atLeast0LessThan)
qed (simp add: shoelace_def)

lemma doubled_area_loop_eq:
  assumes "\<forall>i \<in> set is. i < length path"
  shows "doubled_area_loop path is acc =
    (if \<forall>i \<in> set is. canonical_point (path ! i) \<and> canonical_point (path ! ((i + 1) mod length path))
     then Some (acc + (\<Sum>i \<leftarrow> is. det (pt (path ! i)) (pt (path ! ((i + 1) mod length path))))) else None)"
  using assms by (induction "is" arbitrary: acc) (auto simp: Let_def det_def pt_def)

lemma signed_area_eq:
  "canonical_grid_signed_doubled_area path =
    (if length path < 3 then Some 0
     else if \<forall>p \<in> set path. canonical_point p then Some (shoelace (map pt path)) else None)"
proof (cases "length path < 3")
  case False
  have m: "(i + 1) mod length path < length path" for i using False by (intro mod_less_divisor) auto
  have "(\<forall>i \<in> set [0..<length path]. canonical_point (path ! i) \<and> canonical_point (path ! ((i + 1) mod length path)))
      \<longleftrightarrow> (\<forall>p \<in> set path. canonical_point p)"
    using m by (auto simp: all_set_conv_all_nth)
  moreover have "(\<Sum>i \<leftarrow> [0..<length path]. det (pt (path ! i)) (pt (path ! ((i + 1) mod length path)))) = shoelace (map pt path)"
    unfolding shoelace_index using m by (intro arg_cong [of _ _ sum_list] map_cong) auto
  ultimately show ?thesis
    using False doubled_area_loop_eq [of "[0..<length path]" path 0]
    by (simp add: canonical_grid_signed_doubled_area_def)
qed (simp add: canonical_grid_signed_doubled_area_def)

text \<open>
  Orienting a ring: \<open>canonical_grid_counter_clockwise\<close> fails exactly on a ring of at least three
  points with a coordinate that is no safe integer; otherwise it returns the ring or its reversal,
  with the absolute doubled area as its signed one, and changes nothing when applied again. The
  clockwise version is the same with the negated area, and reversing a ring negates its area.
\<close>

theorem orientation_normal_form:
  "(case canonical_grid_counter_clockwise path of
      None \<Rightarrow> 3 \<le> length path \<and> (\<exists>p \<in> set path. \<not> canonical_point p)
    | Some q \<Rightarrow> (q = path \<or> q = rev path) \<and>
        canonical_grid_signed_doubled_area q = canonical_grid_absolute_doubled_area path \<and>
        canonical_grid_counter_clockwise q = Some q) \<and>
   (case canonical_grid_clockwise path of
      None \<Rightarrow> canonical_grid_counter_clockwise path = None
    | Some q \<Rightarrow> (q = path \<or> q = rev path) \<and>
        canonical_grid_signed_doubled_area q = map_option uminus (canonical_grid_absolute_doubled_area path) \<and>
        canonical_grid_clockwise q = Some q) \<and>
   canonical_grid_signed_doubled_area (rev path) = map_option uminus (canonical_grid_signed_doubled_area path)"
  by (auto simp: canonical_grid_counter_clockwise_def canonical_grid_clockwise_def
      canonical_grid_absolute_doubled_area_def signed_area_eq shoelace_rev simp flip: rev_map split: if_splits)

end
