(* ===== verification/Protocol.thy ===== *)
theory Protocol
  imports Prelude F64
begin

text \<open>
  \<open>crates/polygon-nesting-protocol/src\<close>: the wire types of a request with their validation
  (\<open>request.rs\<close>), the error types (\<open>error.rs\<close>), the protocol version (\<open>version.rs\<close>), the
  exact decimal fields of an outcome (\<open>lib.rs\<close>, \<open>result.rs\<close>). A field keeps its name with a
  short prefix for its struct. A string is a list of characters, those of the first 256 code
  points; a \<open>u32\<close> is a \<open>32 word\<close>.
\<close>

type_synonym u32 = "32 word"

subsection \<open>Versions and errors\<close>

type_synonym protocol_version = u32

definition PROTOCOL_VERSION :: protocol_version where
  "PROTOCOL_VERSION = 1"

datatype protocol_error =
    MalformedInput string
  | UnsupportedVersion protocol_version u32
  | Validation string string
  | InvalidDecimalString string string
  | Encoding string

datatype engine_error_code =
    Code_MalformedInput | ProtocolVersionMismatch | Code_ArchiveIneligible | InvalidGeometry
  | Code_Cancelled | DeadlineExceeded | EngineFailure | InternalFailure | IoFailure

record engine_error =
  err_category :: engine_error_code
  err_operation :: string
  err_message :: string
  err_context :: "string \<rightharpoonup> string"

definition engine_error_new :: "engine_error_code \<Rightarrow> string \<Rightarrow> string \<Rightarrow> engine_error" where
  "engine_error_new c operation message =
    \<lparr>err_category = c, err_operation = operation, err_message = message, err_context = Map.empty\<rparr>"

definition with_context :: "string \<Rightarrow> string \<Rightarrow> engine_error \<Rightarrow> engine_error" where
  "with_context key v e = e\<lparr>err_context := (err_context e)(key \<mapsto> v)\<rparr>"

subsection \<open>Primitive checks\<close>

type_synonym checked = "protocol_error + unit"

abbreviation invalid :: "string \<Rightarrow> string \<Rightarrow> checked" where
  "invalid field message \<equiv> Inl (Validation field message)"

definition MAX_SAFE_INTEGER :: f64 where
  "MAX_SAFE_INTEGER = lit 9007199254740991"

definition require_non_empty :: "string \<Rightarrow> string \<Rightarrow> checked" where
  "require_non_empty field v = (if v = [] then invalid field ''must be non-empty'' else Inr ())"

definition require_finite :: "string \<Rightarrow> f64 \<Rightarrow> checked" where
  "require_finite field v = (if \<not> is_finite v then invalid field ''must be finite'' else Inr ())"

definition require_positive_finite :: "string \<Rightarrow> f64 \<Rightarrow> checked" where
  "require_positive_finite field v = and_then (require_finite field v) (\<lambda>_.
    if fle v f64_zero then invalid field ''must be greater than zero'' else Inr ())"

definition require_non_negative_finite :: "string \<Rightarrow> f64 \<Rightarrow> checked" where
  "require_non_negative_finite field v = and_then (require_finite field v) (\<lambda>_.
    if flt v f64_zero then invalid field ''must be non-negative'' else Inr ())"

definition require_safe_integer :: "string \<Rightarrow> f64 \<Rightarrow> checked" where
  "require_safe_integer field v = and_then (require_finite field v) (\<lambda>_.
    if \<not> feq (ffract v) f64_zero \<or> flt MAX_SAFE_INTEGER (fabs v)
    then invalid field ''must be a JavaScript safe integer'' else Inr ())"

definition require_positive_safe_integer :: "string \<Rightarrow> f64 \<Rightarrow> checked" where
  "require_positive_safe_integer field v = and_then (require_safe_integer field v) (\<lambda>_.
    if fle v f64_zero then invalid field ''must be greater than zero'' else Inr ())"

definition require_non_negative_safe_integer :: "string \<Rightarrow> f64 \<Rightarrow> checked" where
  "require_non_negative_safe_integer field v = and_then (require_safe_integer field v) (\<lambda>_.
    if flt v f64_zero then invalid field ''must be non-negative'' else Inr ())"

text \<open>White space, on the first 256 code points; \<open>trim\<close> leaves nothing of a string of it.\<close>

definition is_whitespace :: "char \<Rightarrow> bool" where
  "is_whitespace c = (let n = of_char c :: nat in 9 \<le> n \<and> n \<le> 13 \<or> n = 32 \<or> n = 133 \<or> n = 160)"

definition is_blank :: "string \<Rightarrow> bool" where
  "is_blank s = list_all is_whitespace s"

text \<open>\<open>for (name, value) in [...] { check(&format!("{prefix}.{name}"), value)?; }\<close>\<close>

definition check_fields :: "(string \<Rightarrow> f64 \<Rightarrow> checked) \<Rightarrow> string \<Rightarrow> (string \<times> f64) list \<Rightarrow> checked" where
  "check_fields check prefix fs = run_checks (map (\<lambda>(name, v). check (prefix @ ''.'' @ name) v) fs)"

text \<open>A loop over a list with its index.\<close>

fun check_indexed :: "(nat \<Rightarrow> 'a \<Rightarrow> checked) \<Rightarrow> nat \<Rightarrow> 'a list \<Rightarrow> checked" where
  "check_indexed check i [] = Inr ()"
| "check_indexed check i (x # xs) = and_then (check i x) (\<lambda>_. check_indexed check (Suc i) xs)"

definition at_index :: "string \<Rightarrow> nat \<Rightarrow> string" where
  "at_index field i = field @ ''['' @ dec i @ '']''"

text \<open>A loop that also inserts each key into a set and rejects the first repetition.\<close>

fun check_unique :: "(nat \<Rightarrow> 'a \<Rightarrow> checked) \<Rightarrow> ('a \<Rightarrow> string) \<Rightarrow> string \<Rightarrow> string list \<Rightarrow> nat \<Rightarrow> 'a list \<Rightarrow> checked" where
  "check_unique check key field seen i [] = Inr ()"
| "check_unique check key field seen i (x # xs) = and_then (check i x) (\<lambda>_.
    if key x \<in> set seen then invalid (at_index field i @ ''.id'') ''must be unique''
    else check_unique check key field (key x # seen) (Suc i) xs)"

subsection \<open>The request\<close>

datatype engine_profile = Compact | CompactShortSide
datatype diagnostic_trace_mode = Trace_Full | Trace_Off
datatype history_mode = Stream | Final | History_Off
datatype placement_policy = BalancedCompactness | ShortSideFill | EdgeContactThenBalancedCompactness

record sheet_spec =
  sheet_width :: f64
  sheet_height :: f64
  sheet_label :: string

record rect =
  rect_x :: f64
  rect_y :: f64
  rect_width :: f64
  rect_height :: f64

record rect_with_metrics = rect +
  longest_edge :: f64
  rect_area :: f64
  imbalance :: f64

record cut_row_reference =
  reference :: string
  customer_name :: string
  csv_row_id :: string

record prepared_piece =
  piece_id :: string
  source_piece_id :: string
  interchangeability_key :: "string option"
  real_bounds :: rect
  padded_bounds :: rect_with_metrics
  piece_padding :: f64
  allow_rotation :: bool
  allow_mirror :: bool
  cut_row_ref :: "cut_row_reference option"

datatype source_entity_handle = Handle_Text string | Handle_Number f64

record source_warning =
  warning_code :: string
  warning_message :: string
  entity_type :: "string option"
  entity_handle :: "source_entity_handle option"

datatype source_geometry_entity_type =
  Entity_Line | Lwpolyline | Polyline | Circle | Entity_Arc | Ellipse | DxfShape | PresetShape

record ellipse_source =
  ellipse_source_id :: string
  ellipse_cx :: f64
  ellipse_cy :: f64
  major_axis_x :: f64
  major_axis_y :: f64
  axis_ratio :: f64
  ellipse_start_angle :: f64
  ellipse_end_angle :: f64

record source_line_segment =
  line_x1 :: f64
  line_y1 :: f64
  line_x2 :: f64
  line_y2 :: f64
  bulge :: "f64 option"
  source_curve :: "ellipse_source option"

record source_arc_segment =
  arc_x1 :: f64
  arc_y1 :: f64
  arc_x2 :: f64
  arc_y2 :: f64
  arc_cx :: f64
  arc_cy :: f64
  arc_radius :: f64
  arc_start_angle :: f64
  arc_end_angle :: f64

datatype source_geometry_segment = Segment_Line source_line_segment | Segment_Arc source_arc_segment

record source_geometry =
  geometry_entity_type :: source_geometry_entity_type
  geometry_closed :: bool
  geometry_segments :: "source_geometry_segment list"

record source_piece =
  sp_id :: string
  source_file_id :: string
  source_layer :: "string option"
  sp_label :: string
  sp_real_bounds :: rect
  sp_geometry :: source_geometry
  warnings :: "source_warning list"

record geometry_settings =
  flattening_sag_tolerance_mm :: f64
  clearance_safety_margin_mm :: f64
  geometry_backend_id :: string
  geometry_backend_version :: string

record optimizer_settings =
  order_window :: f64
  beam_width :: f64
  local_candidate_fanout :: f64
  local_repair_budget :: f64
  intrinsic_shared_archive_enabled :: bool
  transform_cap :: f64
  transform_minimum_edge_length_mm :: f64
  transform_angle_deduplication_tolerance_deg :: f64
  configured_rotation_enabled :: bool
  edge_alignment_enabled :: bool
  configured_rotation_deg :: "f64 list"
  ga_enabled :: bool
  baseline_only :: bool
  ga_population :: f64
  ga_generation_budget :: f64
  ga_evaluation_budget :: f64
  ga_time_budget_ms :: f64
  ga_seed :: string
  priority_order_mutation_enabled :: bool
  transform_preference_mutation_enabled :: bool
  placement_policy_mutation_enabled :: bool
  placement_policy_id :: placement_policy
  placement_policy_ids :: "placement_policy list"

record engine_settings =
  settings_padding :: f64
  allow_global_rotation :: bool
  allow_global_mirror :: bool
  geometry :: geometry_settings
  optimizer :: optimizer_settings

record engine_request =
  version :: protocol_version
  timeout_ms :: f64
  profile :: engine_profile
  sheet :: sheet_spec
  pieces :: "prepared_piece list"
  source_pieces :: "source_piece list"
  settings :: engine_settings
  history_mode :: history_mode
  diagnostic_trace_mode :: diagnostic_trace_mode

subsection \<open>Validation\<close>

definition ellipse_source_validate :: "string \<Rightarrow> ellipse_source \<Rightarrow> checked" where
  "ellipse_source_validate prefix e = run_checks [
    require_non_empty (prefix @ ''.sourceId'') (ellipse_source_id e),
    check_fields require_finite prefix
      [(''cx'', ellipse_cx e), (''cy'', ellipse_cy e), (''majorAxisX'', major_axis_x e),
       (''majorAxisY'', major_axis_y e), (''startAngle'', ellipse_start_angle e),
       (''endAngle'', ellipse_end_angle e)],
    require_positive_finite (prefix @ ''.axisRatio'') (axis_ratio e),
    (if feq (major_axis_x e) f64_zero \<and> feq (major_axis_y e) f64_zero
     then invalid (prefix @ ''.majorAxis'') ''must have a non-zero axis vector'' else Inr ())]"

definition source_line_segment_validate :: "string \<Rightarrow> source_line_segment \<Rightarrow> checked" where
  "source_line_segment_validate prefix l = run_checks [
    check_fields require_finite prefix
      [(''x1'', line_x1 l), (''y1'', line_y1 l), (''x2'', line_x2 l), (''y2'', line_y2 l)],
    (case bulge l of None \<Rightarrow> Inr () | Some b \<Rightarrow> require_finite (prefix @ ''.bulge'') b),
    (case source_curve l of None \<Rightarrow> Inr ()
     | Some c \<Rightarrow> ellipse_source_validate (prefix @ ''.sourceCurve'') c)]"

definition source_arc_segment_validate :: "string \<Rightarrow> source_arc_segment \<Rightarrow> checked" where
  "source_arc_segment_validate prefix a = run_checks [
    check_fields require_finite prefix
      [(''x1'', arc_x1 a), (''y1'', arc_y1 a), (''x2'', arc_x2 a), (''y2'', arc_y2 a),
       (''cx'', arc_cx a), (''cy'', arc_cy a), (''startAngle'', arc_start_angle a),
       (''endAngle'', arc_end_angle a)],
    require_positive_finite (prefix @ ''.radius'') (arc_radius a)]"

fun source_geometry_segment_validate :: "string \<Rightarrow> source_geometry_segment \<Rightarrow> checked" where
  "source_geometry_segment_validate prefix (Segment_Line l) = source_line_segment_validate prefix l"
| "source_geometry_segment_validate prefix (Segment_Arc a) = source_arc_segment_validate prefix a"

definition source_geometry_validate :: "string \<Rightarrow> source_geometry \<Rightarrow> checked" where
  "source_geometry_validate prefix g =
    check_indexed (\<lambda>i s. source_geometry_segment_validate (at_index (prefix @ ''.segments'') i) s) 0
      (geometry_segments g)"

definition source_piece_validate :: "nat \<Rightarrow> source_piece \<Rightarrow> checked" where
  "source_piece_validate i p = (let prefix = at_index ''sourcePieces'' i; b = sp_real_bounds p in run_checks [
    require_non_empty (prefix @ ''.id'') (sp_id p),
    require_non_empty (prefix @ ''.sourceFileId'') (source_file_id p),
    check_fields require_non_negative_safe_integer prefix
      [(''realBounds.x'', rect_x b), (''realBounds.y'', rect_y b)],
    check_fields require_positive_safe_integer prefix
      [(''realBounds.width'', rect_width b), (''realBounds.height'', rect_height b)],
    source_geometry_validate (prefix @ ''.geometry'') (sp_geometry p)])"

definition prepared_piece_validate :: "nat \<Rightarrow> prepared_piece \<Rightarrow> checked" where
  "prepared_piece_validate i p = (let prefix = at_index ''pieces'' i; r = real_bounds p; b = padded_bounds p
   in run_checks [
    (if is_blank (piece_id p) then invalid (prefix @ ''.id'') ''must be a non-empty string'' else Inr ()),
    require_non_empty (prefix @ ''.sourcePieceId'') (source_piece_id p),
    (case interchangeability_key p of None \<Rightarrow> Inr ()
     | Some k \<Rightarrow> require_non_empty (prefix @ ''.interchangeabilityKey'') k),
    require_non_negative_safe_integer (prefix @ ''.padding'') (piece_padding p),
    check_fields require_non_negative_safe_integer prefix
      [(''realBounds.x'', rect_x r), (''realBounds.y'', rect_y r), (''paddedBounds.x'', rect_x b),
       (''paddedBounds.y'', rect_y b), (''paddedBounds.imbalance'', imbalance b)],
    check_fields require_positive_safe_integer prefix
      [(''realBounds.width'', rect_width r), (''realBounds.height'', rect_height r),
       (''paddedBounds.width'', rect_width b), (''paddedBounds.height'', rect_height b),
       (''paddedBounds.longestEdge'', longest_edge b), (''paddedBounds.area'', rect_area b)]])"

definition geometry_settings_validate :: "geometry_settings \<Rightarrow> checked" where
  "geometry_settings_validate g = run_checks [
    require_positive_finite ''settings.geometry.flatteningSagToleranceMm'' (flattening_sag_tolerance_mm g),
    require_non_negative_finite ''settings.geometry.clearanceSafetyMarginMm'' (clearance_safety_margin_mm g),
    require_non_empty ''settings.geometry.geometryBackendId'' (geometry_backend_id g),
    require_non_empty ''settings.geometry.geometryBackendVersion'' (geometry_backend_version g),
    (if flt (clearance_safety_margin_mm g) (flattening_sag_tolerance_mm g)
     then invalid ''settings.geometry.clearanceSafetyMarginMm''
       ''must be greater than or equal to flatteningSagToleranceMm'' else Inr ())]"

definition ga_active :: "optimizer_settings \<Rightarrow> bool" where
  "ga_active s \<longleftrightarrow> ga_enabled s \<and> \<not> baseline_only s \<and> \<not> feq (ga_time_budget_ms s) f64_zero \<and>
    \<not> feq (ga_generation_budget s) f64_zero \<and> \<not> feq (ga_evaluation_budget s) f64_zero"

definition optimizer_settings_validate :: "optimizer_settings \<Rightarrow> checked" where
  "optimizer_settings_validate s = run_checks [
    check_fields require_positive_safe_integer ''settings.optimizer''
      [(''orderWindow'', order_window s), (''beamWidth'', beam_width s),
       (''localCandidateFanout'', local_candidate_fanout s), (''transformCap'', transform_cap s),
       (''gaPopulation'', ga_population s)],
    check_fields require_non_negative_safe_integer ''settings.optimizer''
      [(''localRepairBudget'', local_repair_budget s), (''gaGenerationBudget'', ga_generation_budget s),
       (''gaEvaluationBudget'', ga_evaluation_budget s), (''gaTimeBudgetMs'', ga_time_budget_ms s)],
    require_non_negative_finite ''settings.optimizer.transformMinimumEdgeLengthMm''
      (transform_minimum_edge_length_mm s),
    require_positive_finite ''settings.optimizer.transformAngleDeduplicationToleranceDeg''
      (transform_angle_deduplication_tolerance_deg s),
    check_indexed (\<lambda>i v. require_finite (at_index ''settings.optimizer.configuredRotationDeg'' i) v) 0
      (configured_rotation_deg s),
    require_non_empty ''settings.optimizer.gaSeed'' (ga_seed s),
    (if placement_policy_ids s = [] then invalid ''settings.optimizer.placementPolicyIds'' ''must not be empty''
     else Inr ()),
    (if placement_policy_id s \<notin> set (placement_policy_ids s)
     then invalid ''settings.optimizer.placementPolicyId'' ''must be a member of placementPolicyIds'' else Inr ()),
    (if length (remdups (placement_policy_ids s)) \<noteq> length (placement_policy_ids s)
     then invalid ''settings.optimizer.placementPolicyIds'' ''must not contain duplicates'' else Inr ())]"

definition engine_settings_validate :: "engine_settings \<Rightarrow> checked" where
  "engine_settings_validate s = run_checks [
    require_non_negative_safe_integer ''settings.padding'' (settings_padding s),
    geometry_settings_validate (geometry s),
    optimizer_settings_validate (optimizer s)]"

definition validate :: "engine_request \<Rightarrow> checked" where
  "validate r =
    (if version r \<noteq> PROTOCOL_VERSION then Inl (UnsupportedVersion PROTOCOL_VERSION (version r))
     else run_checks [
      require_positive_finite ''timeoutMs'' (timeout_ms r),
      require_positive_safe_integer ''sheet.width'' (sheet_width (sheet r)),
      require_positive_safe_integer ''sheet.height'' (sheet_height (sheet r)),
      (if pieces r = [] then invalid ''pieces'' ''must contain at least one prepared piece'' else Inr ()),
      check_unique prepared_piece_validate piece_id ''pieces'' [] 0 (pieces r),
      check_unique source_piece_validate sp_id ''sourcePieces'' [] 0 (source_pieces r),
      engine_settings_validate (settings r)])"

subsection \<open>Eligibility for the archive path\<close>

datatype archive_ineligibility_reason = ArchiveDisabled | Ineligible_ShortSideFill | GaActive

fun reason_as_str :: "archive_ineligibility_reason \<Rightarrow> string" where
  "reason_as_str ArchiveDisabled = ''archive-disabled''"
| "reason_as_str Ineligible_ShortSideFill = ''short-side-fill''"
| "reason_as_str GaActive = ''ga-active''"

definition archive_ineligibility :: "engine_request \<Rightarrow> archive_ineligibility_reason option" where
  "archive_ineligibility r = (let o1 = optimizer (settings r) in
    if \<not> intrinsic_shared_archive_enabled o1 then Some ArchiveDisabled
    else if placement_policy_id o1 = ShortSideFill then Some Ineligible_ShortSideFill
    else if ga_active o1 then Some GaActive
    else None)"

definition engine_error_archive_ineligible :: "archive_ineligibility_reason \<Rightarrow> engine_error" where
  "engine_error_archive_ineligible r = with_context ''reason'' (reason_as_str r)
    (engine_error_new Code_ArchiveIneligible ''archive-ineligible''
      (''request is not eligible for the supported polygon nesting archive path: '' @ reason_as_str r))"

text \<open>\<open>EngineOutcome\<close> and \<open>ExecutionDiagnostics\<close>; the result is a type parameter.\<close>

record execution_diagnostics =
  requested_workers :: "u32 option"
  actual_workers :: "u32 option"
  diag_elapsed_ms :: "f64 option"
  counters :: "string \<rightharpoonup> u64"

definition execution_diagnostics_default :: execution_diagnostics where
  "execution_diagnostics_default =
    \<lparr>requested_workers = None, actual_workers = None, diag_elapsed_ms = None, counters = Map.empty\<rparr>"

datatype 'r engine_outcome =
    Success 'r execution_diagnostics
  | Failure engine_error execution_diagnostics
  | Outcome_ArchiveIneligible archive_ineligibility_reason engine_error execution_diagnostics

definition archive_ineligible_outcome :: "engine_request \<Rightarrow> 'r engine_outcome option" where
  "archive_ineligible_outcome r = map_option (\<lambda>reason.
    Outcome_ArchiveIneligible reason (engine_error_archive_ineligible reason) execution_diagnostics_default)
    (archive_ineligibility r)"

subsection \<open>What validation accepts\<close>

text \<open>The value is an integer between \<open>lo\<close> and JavaScript's largest safe integer.\<close>

definition safe_int_from :: "int \<Rightarrow> f64 \<Rightarrow> bool" where
  "safe_int_from lo v \<longleftrightarrow> is_finite v \<and> (\<exists>i. f64_val v = of_int i \<and> lo \<le> i \<and> i \<le> 9007199254740991)"

lemma MAX_SAFE_INTEGER_val: "is_int_val MAX_SAFE_INTEGER 9007199254740991"
  using is_int_val_lit [of 9007199254740991] by (simp add: MAX_SAFE_INTEGER_def)

lemma require_safe_integer_ok:
  assumes "f64_ok v"
  shows "require_safe_integer field v = Inr () \<longleftrightarrow>
    is_finite v \<and> (\<exists>i. f64_val v = of_int i \<and> \<bar>i\<bar> \<le> 9007199254740991)"
proof (cases v)
  case (Finite s m)
  then have m: "0 \<le> m" "f64_ok (Finite s m)" using assms by auto
  obtain t where "MAX_SAFE_INTEGER = Finite t (of_int \<bar>9007199254740991\<bar>)"
    "(9007199254740991 :: int) \<noteq> 0 \<Longrightarrow> t = ((9007199254740991 :: int) < 0)"
    using is_int_val_form [OF MAX_SAFE_INTEGER_val] by blast
  then have M: "MAX_SAFE_INTEGER = Finite False 9007199254740991" by simp
  have "flt MAX_SAFE_INTEGER (fabs v) \<longleftrightarrow> 9007199254740991 < m" unfolding M Finite by simp
  moreover have "(m = of_int \<lfloor>m\<rfloor> \<and> \<not> 9007199254740991 < m) \<longleftrightarrow>
      (\<exists>i. f64_val v = of_int i \<and> \<bar>i\<bar> \<le> 9007199254740991)"
  proof
    assume l: "m = of_int \<lfloor>m\<rfloor> \<and> \<not> 9007199254740991 < m"
    then have "\<lfloor>m\<rfloor> \<le> 9007199254740991" "0 \<le> \<lfloor>m\<rfloor>" using m(1) by (auto simp: floor_le_iff not_less)
    moreover have "f64_val v = of_int (if s then - \<lfloor>m\<rfloor> else \<lfloor>m\<rfloor>)" using l by (simp add: Finite)
    ultimately show "\<exists>i. f64_val v = of_int i \<and> \<bar>i\<bar> \<le> 9007199254740991"
      by (intro exI [of _ "if s then - \<lfloor>m\<rfloor> else \<lfloor>m\<rfloor>"]) auto
  next
    assume "\<exists>i. f64_val v = of_int i \<and> \<bar>i\<bar> \<le> 9007199254740991"
    then obtain i where i: "f64_val v = of_int i" "\<bar>i\<bar> \<le> 9007199254740991" by blast
    then have "m = of_int \<bar>i\<bar>" using m(1) by (auto simp: Finite split: if_splits)
    then show "m = of_int \<lfloor>m\<rfloor> \<and> \<not> 9007199254740991 < m"
      using i(2) by (metis floor_of_int not_less of_int_le_iff of_int_numeral)
  qed
  ultimately show ?thesis
    using ffract_zero_iff [OF m(2)] by (auto simp: require_safe_integer_def require_finite_def Finite)
qed (simp_all add: require_safe_integer_def require_finite_def)

lemma require_positive_safe_integer_ok:
  assumes "f64_ok v"
  shows "require_positive_safe_integer field v = Inr () \<longleftrightarrow> safe_int_from 1 v"
proof -
  have "require_positive_safe_integer field v = Inr () \<longleftrightarrow>
    require_safe_integer field v = Inr () \<and> \<not> fle v f64_zero"
    by (auto simp: require_positive_safe_integer_def and_then_Inr_iff)
  also have "\<dots> \<longleftrightarrow> safe_int_from 1 v"
    unfolding require_safe_integer_ok [OF assms] by (cases v) (auto simp: safe_int_from_def fle_def)
  finally show ?thesis .
qed

lemma require_non_negative_safe_integer_ok:
  assumes "f64_ok v"
  shows "require_non_negative_safe_integer field v = Inr () \<longleftrightarrow> safe_int_from 0 v"
proof -
  have "require_non_negative_safe_integer field v = Inr () \<longleftrightarrow>
    require_safe_integer field v = Inr () \<and> \<not> flt v f64_zero"
    by (auto simp: require_non_negative_safe_integer_def and_then_Inr_iff)
  also have "\<dots> \<longleftrightarrow> safe_int_from 0 v"
    unfolding require_safe_integer_ok [OF assms] by (cases v) (auto simp: safe_int_from_def)
  finally show ?thesis .
qed

lemma require_finite_ok [simp]: "require_finite field v = Inr () \<longleftrightarrow> is_finite v"
  by (simp add: require_finite_def)

lemma require_positive_finite_ok [simp]:
  "require_positive_finite field v = Inr () \<longleftrightarrow> is_finite v \<and> 0 < f64_val v"
  by (cases v) (auto simp: require_positive_finite_def require_finite_def fle_def)

lemma require_non_negative_finite_ok [simp]:
  "require_non_negative_finite field v = Inr () \<longleftrightarrow> is_finite v \<and> 0 \<le> f64_val v"
  by (cases v) (auto simp: require_non_negative_finite_def require_finite_def)

lemma require_non_empty_ok [simp]: "require_non_empty field v = Inr () \<longleftrightarrow> v \<noteq> []"
  by (simp add: require_non_empty_def)

lemma if_invalid_ok [simp]: "(if P then invalid f m else Inr ()) = Inr () \<longleftrightarrow> \<not> P"
  by simp

declare run_checks.simps(2) [simp del]

lemma run_checks_Cons_ok [simp]: "run_checks (c # cs) = Inr () \<longleftrightarrow> c = Inr () \<and> run_checks cs = Inr ()"
  by (auto simp: and_then_Inr_iff run_checks.simps)

lemma check_fields_ok [simp]:
  "check_fields check prefix fs = Inr () \<longleftrightarrow> (\<forall>(name, v) \<in> set fs. check (prefix @ ''.'' @ name) v = Inr ())"
  by (auto simp: check_fields_def run_checks_ok_iff)

lemma check_indexed_ok:
  "check_indexed check i xs = Inr () \<longleftrightarrow> (\<forall>j < length xs. check (i + j) (xs ! j) = Inr ())"
proof (induction xs arbitrary: i)
  case (Cons x xs)
  have "(\<forall>j < length (x # xs). check (i + j) ((x # xs) ! j) = Inr ()) \<longleftrightarrow>
      check i x = Inr () \<and> (\<forall>j < length xs. check (Suc i + j) (xs ! j) = Inr ())"
    by (simp add: All_less_Suc2)
  with Cons.IH show ?case by (auto simp: and_then_Inr_iff)
qed simp

lemma check_unique_ok:
  "check_unique check key field seen i xs = Inr () \<longleftrightarrow>
    (\<forall>j < length xs. check (i + j) (xs ! j) = Inr ()) \<and> distinct (map key xs) \<and>
    set (map key xs) \<inter> set seen = {}"
proof (induction xs arbitrary: i seen)
  case (Cons x xs)
  have "(\<forall>j < length (x # xs). check (i + j) ((x # xs) ! j) = Inr ()) \<longleftrightarrow>
      check i x = Inr () \<and> (\<forall>j < length xs. check (Suc i + j) (xs ! j) = Inr ())"
    by (simp add: All_less_Suc2)
  with Cons.IH [of "key x # seen" "Suc i"] show ?case by (auto simp: and_then_Inr_iff)
qed simp

text \<open>The well-formedness a valid request has, field by field.\<close>

definition ellipse_source_wf :: "ellipse_source \<Rightarrow> bool" where
  "ellipse_source_wf e \<longleftrightarrow> ellipse_source_id e \<noteq> [] \<and>
    (\<forall>v \<in> {ellipse_cx e, ellipse_cy e, major_axis_x e, major_axis_y e, ellipse_start_angle e,
      ellipse_end_angle e}. is_finite v) \<and>
    is_finite (axis_ratio e) \<and> 0 < f64_val (axis_ratio e) \<and>
    \<not> (f64_val (major_axis_x e) = 0 \<and> f64_val (major_axis_y e) = 0)"

fun segment_wf :: "source_geometry_segment \<Rightarrow> bool" where
  "segment_wf (Segment_Line l) \<longleftrightarrow>
    (\<forall>v \<in> {line_x1 l, line_y1 l, line_x2 l, line_y2 l} \<union> set_option (bulge l). is_finite v) \<and>
    (\<forall>c \<in> set_option (source_curve l). ellipse_source_wf c)"
| "segment_wf (Segment_Arc a) \<longleftrightarrow>
    (\<forall>v \<in> {arc_x1 a, arc_y1 a, arc_x2 a, arc_y2 a, arc_cx a, arc_cy a, arc_start_angle a,
      arc_end_angle a, arc_radius a}. is_finite v) \<and> 0 < f64_val (arc_radius a)"

definition source_piece_wf :: "source_piece \<Rightarrow> bool" where
  "source_piece_wf p \<longleftrightarrow> sp_id p \<noteq> [] \<and> source_file_id p \<noteq> [] \<and>
    (\<forall>v \<in> {rect_x (sp_real_bounds p), rect_y (sp_real_bounds p)}. safe_int_from 0 v) \<and>
    (\<forall>v \<in> {rect_width (sp_real_bounds p), rect_height (sp_real_bounds p)}. safe_int_from 1 v) \<and>
    (\<forall>s \<in> set (geometry_segments (sp_geometry p)). segment_wf s)"

definition prepared_piece_wf :: "prepared_piece \<Rightarrow> bool" where
  "prepared_piece_wf p \<longleftrightarrow> \<not> is_blank (piece_id p) \<and> source_piece_id p \<noteq> [] \<and>
    interchangeability_key p \<noteq> Some [] \<and>
    (\<forall>v \<in> {piece_padding p, rect_x (real_bounds p), rect_y (real_bounds p), rect_x (padded_bounds p),
      rect_y (padded_bounds p), imbalance (padded_bounds p)}. safe_int_from 0 v) \<and>
    (\<forall>v \<in> {rect_width (real_bounds p), rect_height (real_bounds p), rect_width (padded_bounds p),
      rect_height (padded_bounds p), longest_edge (padded_bounds p), rect_area (padded_bounds p)}.
      safe_int_from 1 v)"

definition settings_wf :: "engine_settings \<Rightarrow> bool" where
  "settings_wf s \<longleftrightarrow> (let g = geometry s; p = optimizer s in
    safe_int_from 0 (settings_padding s) \<and>
    is_finite (flattening_sag_tolerance_mm g) \<and> is_finite (clearance_safety_margin_mm g) \<and>
    0 < f64_val (flattening_sag_tolerance_mm g) \<and>
    f64_val (flattening_sag_tolerance_mm g) \<le> f64_val (clearance_safety_margin_mm g) \<and>
    geometry_backend_id g \<noteq> [] \<and> geometry_backend_version g \<noteq> [] \<and>
    (\<forall>v \<in> {order_window p, beam_width p, local_candidate_fanout p, transform_cap p, ga_population p}.
      safe_int_from 1 v) \<and>
    (\<forall>v \<in> {local_repair_budget p, ga_generation_budget p, ga_evaluation_budget p, ga_time_budget_ms p}.
      safe_int_from 0 v) \<and>
    is_finite (transform_minimum_edge_length_mm p) \<and> 0 \<le> f64_val (transform_minimum_edge_length_mm p) \<and>
    is_finite (transform_angle_deduplication_tolerance_deg p) \<and>
    0 < f64_val (transform_angle_deduplication_tolerance_deg p) \<and>
    (\<forall>v \<in> set (configured_rotation_deg p). is_finite v) \<and> ga_seed p \<noteq> [] \<and>
    placement_policy_id p \<in> set (placement_policy_ids p) \<and> distinct (placement_policy_ids p))"

definition request_wf :: "engine_request \<Rightarrow> bool" where
  "request_wf r \<longleftrightarrow> version r = PROTOCOL_VERSION \<and> is_finite (timeout_ms r) \<and> 0 < f64_val (timeout_ms r) \<and>
    safe_int_from 1 (sheet_width (sheet r)) \<and> safe_int_from 1 (sheet_height (sheet r)) \<and>
    pieces r \<noteq> [] \<and> (\<forall>p \<in> set (pieces r). prepared_piece_wf p) \<and> distinct (map piece_id (pieces r)) \<and>
    (\<forall>p \<in> set (source_pieces r). source_piece_wf p) \<and> distinct (map sp_id (source_pieces r)) \<and>
    settings_wf (settings r)"

text \<open>The numbers that must be integers; each is a binary64 value.\<close>

definition prepared_piece_ints :: "prepared_piece \<Rightarrow> f64 list" where
  "prepared_piece_ints p = (let r = real_bounds p; b = padded_bounds p in
    [piece_padding p, rect_x r, rect_y r, rect_x b, rect_y b, imbalance b, rect_width r, rect_height r,
     rect_width b, rect_height b, longest_edge b, rect_area b])"

definition source_piece_ints :: "source_piece \<Rightarrow> f64 list" where
  "source_piece_ints p = (let r = sp_real_bounds p in [rect_x r, rect_y r, rect_width r, rect_height r])"

definition settings_ints :: "engine_settings \<Rightarrow> f64 list" where
  "settings_ints s = (let p = optimizer s in
    [settings_padding s, order_window p, beam_width p, local_candidate_fanout p, transform_cap p,
     ga_population p, local_repair_budget p, ga_generation_budget p, ga_evaluation_budget p,
     ga_time_budget_ms p])"

definition request_ints :: "engine_request \<Rightarrow> f64 list" where
  "request_ints r = [sheet_width (sheet r), sheet_height (sheet r)] @
    concat (map prepared_piece_ints (pieces r)) @ concat (map source_piece_ints (source_pieces r)) @
    settings_ints (settings r)"
lemma ellipse_source_validate_ok: "ellipse_source_validate prefix e = Inr () \<longleftrightarrow> ellipse_source_wf e"
proof -
  have z: "is_finite v \<Longrightarrow> feq v f64_zero \<longleftrightarrow> f64_val v = 0" for v by (cases v) auto
  show ?thesis unfolding ellipse_source_validate_def ellipse_source_wf_def by (auto simp: z)
qed

lemma source_geometry_segment_validate_ok:
  "source_geometry_segment_validate prefix s = Inr () \<longleftrightarrow> segment_wf s"
proof (cases s)
  case (Segment_Line l)
  show ?thesis unfolding Segment_Line
    by (cases "bulge l"; cases "source_curve l")
      (auto simp: source_line_segment_validate_def ellipse_source_validate_ok)
next
  case (Segment_Arc a)
  show ?thesis unfolding Segment_Arc by (auto simp: source_arc_segment_validate_def)
qed

lemma source_piece_validate_ok:
  assumes "list_all f64_ok (source_piece_ints p)"
  shows "source_piece_validate i p = Inr () \<longleftrightarrow> source_piece_wf p"
  using assms
  by (auto simp: source_piece_validate_def source_piece_wf_def source_piece_ints_def Let_def
      require_non_negative_safe_integer_ok require_positive_safe_integer_ok source_geometry_validate_def
      check_indexed_ok source_geometry_segment_validate_ok all_set_conv_all_nth)

lemma prepared_piece_validate_ok:
  assumes "list_all f64_ok (prepared_piece_ints p)"
  shows "prepared_piece_validate i p = Inr () \<longleftrightarrow> prepared_piece_wf p"
proof (cases "interchangeability_key p")
  case None
  with assms show ?thesis
    by (simp add: prepared_piece_validate_def prepared_piece_wf_def prepared_piece_ints_def Let_def
      require_non_negative_safe_integer_ok require_positive_safe_integer_ok)
next
  case (Some k)
  with assms show ?thesis
    by (simp add: prepared_piece_validate_def prepared_piece_wf_def prepared_piece_ints_def Let_def
      require_non_negative_safe_integer_ok require_positive_safe_integer_ok)
qed

lemma length_remdups_distinct: "length (remdups xs) \<noteq> length xs \<longleftrightarrow> \<not> distinct xs"
  by (metis distinct_remdups distinct_remdups_id length_remdups_card_conv card_distinct)

lemma engine_settings_validate_ok:
  assumes "list_all f64_ok (settings_ints s)"
  shows "engine_settings_validate s = Inr () \<longleftrightarrow> settings_wf s"
proof -
  have lt: "is_finite a \<Longrightarrow> is_finite b \<Longrightarrow> flt a b \<longleftrightarrow> f64_val a < f64_val b" for a b
    by (cases a; cases b) auto
  have idx: "check_indexed (\<lambda>i. require_finite (f i)) 0 xs = Inr () \<longleftrightarrow> (\<forall>v \<in> set xs. is_finite v)" for f xs
    by (auto simp: check_indexed_ok all_set_conv_all_nth)
  have g: "geometry_settings_validate g = Inr () \<longleftrightarrow>
      is_finite (flattening_sag_tolerance_mm g) \<and> is_finite (clearance_safety_margin_mm g) \<and>
      0 < f64_val (flattening_sag_tolerance_mm g) \<and>
      f64_val (flattening_sag_tolerance_mm g) \<le> f64_val (clearance_safety_margin_mm g) \<and>
      geometry_backend_id g \<noteq> [] \<and> geometry_backend_version g \<noteq> []" for g
    by (auto simp: geometry_settings_validate_def lt not_less)
  have o: "optimizer_settings_validate p = Inr () \<longleftrightarrow>
      (\<forall>v \<in> {order_window p, beam_width p, local_candidate_fanout p, transform_cap p, ga_population p}.
        safe_int_from 1 v) \<and>
      (\<forall>v \<in> {local_repair_budget p, ga_generation_budget p, ga_evaluation_budget p, ga_time_budget_ms p}.
        safe_int_from 0 v) \<and>
      is_finite (transform_minimum_edge_length_mm p) \<and> 0 \<le> f64_val (transform_minimum_edge_length_mm p) \<and>
      is_finite (transform_angle_deduplication_tolerance_deg p) \<and>
      0 < f64_val (transform_angle_deduplication_tolerance_deg p) \<and>
      (\<forall>v \<in> set (configured_rotation_deg p). is_finite v) \<and> ga_seed p \<noteq> [] \<and>
      placement_policy_id p \<in> set (placement_policy_ids p) \<and> distinct (placement_policy_ids p)"
    if p: "list_all f64_ok [order_window p, beam_width p, local_candidate_fanout p, transform_cap p,
      ga_population p, local_repair_budget p, ga_generation_budget p, ga_evaluation_budget p,
      ga_time_budget_ms p]" for p
    using p unfolding optimizer_settings_validate_def
    by (simp add: idx length_remdups_distinct require_positive_safe_integer_ok
      require_non_negative_safe_integer_ok) fastforce
  show ?thesis
    using assms
    by (simp add: engine_settings_validate_def settings_wf_def settings_ints_def Let_def g o
      require_non_negative_safe_integer_ok)
qed

lemma validate_ok:
  assumes "list_all f64_ok (request_ints r)"
  shows "validate r = Inr () \<longleftrightarrow> request_wf r"
proof -
  have s: "f64_ok (sheet_width (sheet r))" "f64_ok (sheet_height (sheet r))"
    "list_all f64_ok (settings_ints (settings r))"
    and p: "\<forall>p \<in> set (pieces r). list_all f64_ok (prepared_piece_ints p)"
      "\<forall>p \<in> set (source_pieces r). list_all f64_ok (source_piece_ints p)"
    using assms by (auto simp: request_ints_def list_all_iff)
  have "(\<forall>j < length (pieces r). prepared_piece_validate j (pieces r ! j) = Inr ()) \<longleftrightarrow>
      (\<forall>p \<in> set (pieces r). prepared_piece_wf p)"
    using p(1) by (auto simp: prepared_piece_validate_ok all_set_conv_all_nth)
  moreover have "(\<forall>j < length (source_pieces r). source_piece_validate j (source_pieces r ! j) = Inr ()) \<longleftrightarrow>
      (\<forall>p \<in> set (source_pieces r). source_piece_wf p)"
    using p(2) by (auto simp: source_piece_validate_ok all_set_conv_all_nth)
  ultimately show ?thesis
    using s by (auto simp: validate_def request_wf_def check_unique_ok engine_settings_validate_ok
      require_positive_safe_integer_ok)
qed

text \<open>
  C19. Validation is exact: a request whose numbers are binary64 values passes \<open>validate\<close> exactly
  when it is well formed: the current protocol version, a positive timeout, positive safe-integer
  sheet sides, at least one piece, well-formed pieces and source pieces with pairwise distinct
  ids, and settings in range.
\<close>

theorem validate_iff_request_wf:
  assumes "list_all f64_ok (request_ints r)"
  shows "validate r = Inr () \<longleftrightarrow> request_wf r"
  using assms by (rule validate_ok)

lemma f64_ok_int: "0 \<le> k \<Longrightarrow> k \<le> 2 ^ 53 \<Longrightarrow> f64_ok (Finite s (of_int k))"
proof -
  assume k: "0 \<le> k" "k \<le> 2 ^ 53"
  then have "(of_int k :: rat) \<le> of_int (2 ^ 53)" by (simp only: of_int_le_iff)
  also have "\<dots> < f64_top" by (simp add: f64_top_def)
  finally show ?thesis using k round_mag_int [OF k] by simp
qed

definition f64_one :: f64 where
  "f64_one = Finite False 1"

lemma f64_one_ok [simp]: "f64_ok f64_one"
  using f64_ok_int [of 1 False] by (simp add: f64_one_def)

lemma f64_one_facts [simp]: "is_finite f64_one" "f64_val f64_one = 1" "safe_int_from 1 f64_one"
  "safe_int_from 0 f64_one"
  by (auto simp: f64_one_def safe_int_from_def intro: exI [of _ 1])

definition sample_piece :: "string \<Rightarrow> prepared_piece" where
  "sample_piece ident = (let r = \<lparr>rect_x = f64_one, rect_y = f64_one, rect_width = f64_one, rect_height = f64_one\<rparr> in
    \<lparr>piece_id = ident, source_piece_id = ''s'', interchangeability_key = None, real_bounds = r,
     padded_bounds = \<lparr>rect_x = f64_one, rect_y = f64_one, rect_width = f64_one, rect_height = f64_one,
       longest_edge = f64_one, rect_area = f64_one, imbalance = f64_one\<rparr>,
     piece_padding = f64_one, allow_rotation = True, allow_mirror = True, cut_row_ref = None\<rparr>)"

definition sample_settings :: engine_settings where
  "sample_settings = \<lparr>settings_padding = f64_one, allow_global_rotation = True, allow_global_mirror = True,
    geometry = \<lparr>flattening_sag_tolerance_mm = f64_one, clearance_safety_margin_mm = f64_one,
      geometry_backend_id = ''b'', geometry_backend_version = ''1''\<rparr>,
    optimizer = \<lparr>order_window = f64_one, beam_width = f64_one, local_candidate_fanout = f64_one,
      local_repair_budget = f64_one, intrinsic_shared_archive_enabled = True, transform_cap = f64_one,
      transform_minimum_edge_length_mm = f64_one, transform_angle_deduplication_tolerance_deg = f64_one,
      configured_rotation_enabled = True, edge_alignment_enabled = True, configured_rotation_deg = [f64_one],
      ga_enabled = False, baseline_only = True, ga_population = f64_one, ga_generation_budget = f64_one,
      ga_evaluation_budget = f64_one, ga_time_budget_ms = f64_one, ga_seed = ''x'',
      priority_order_mutation_enabled = True, transform_preference_mutation_enabled = True,
      placement_policy_mutation_enabled = True, placement_policy_id = BalancedCompactness,
      placement_policy_ids = [BalancedCompactness]\<rparr>\<rparr>"

definition sample_request :: "string list \<Rightarrow> engine_request" where
  "sample_request ids = \<lparr>version = 1, timeout_ms = f64_one, profile = Compact,
    sheet = \<lparr>sheet_width = f64_one, sheet_height = f64_one, sheet_label = ''''\<rparr>,
    pieces = map sample_piece ids, source_pieces = [], settings = sample_settings,
    history_mode = Final, diagnostic_trace_mode = Trace_Off\<rparr>"

lemma sample_request_ints: "list_all f64_ok (request_ints (sample_request ids))"
  by (induction ids)
    (auto simp: request_ints_def sample_request_def sample_piece_def sample_settings_def
      prepared_piece_ints_def settings_ints_def Let_def list_all_iff)

lemma validate_iff_request_wf_witness:
  "validate (sample_request [''a'', ''b'']) = Inr () \<and> validate (sample_request [''a'', ''a'']) \<noteq> Inr ()"
  unfolding validate_iff_request_wf [OF sample_request_ints]
  by (simp add: request_wf_def sample_request_def sample_piece_def sample_settings_def settings_wf_def
      prepared_piece_wf_def PROTOCOL_VERSION_def is_blank_def is_whitespace_def Let_def)

text \<open>
  \<open>archive_ineligibility\<close> refuses a request for exactly one of three reasons, tested in
  this order: the shared archive is off; the short-side-fill policy is selected; the genetic
  search would run. The refusal's outcome carries the reason's wire name in its error context.
\<close>

theorem archive_ineligible_outcome_reason:
  "(archive_ineligible_outcome r = None \<longleftrightarrow>
      intrinsic_shared_archive_enabled (optimizer (settings r)) \<and>
      placement_policy_id (optimizer (settings r)) \<noteq> ShortSideFill \<and> \<not> ga_active (optimizer (settings r)))
   \<and> map_option (\<lambda>out. case out of Outcome_ArchiveIneligible reason e d \<Rightarrow>
        (err_category e, err_context e ''reason'') | _ \<Rightarrow> (Code_Cancelled, None))
      (archive_ineligible_outcome r :: 'r engine_outcome option) =
     (if \<not> intrinsic_shared_archive_enabled (optimizer (settings r))
      then Some (Code_ArchiveIneligible, Some ''archive-disabled'')
      else if placement_policy_id (optimizer (settings r)) = ShortSideFill
      then Some (Code_ArchiveIneligible, Some ''short-side-fill'')
      else if ga_active (optimizer (settings r)) then Some (Code_ArchiveIneligible, Some ''ga-active'')
      else None)"
  by (simp add: archive_ineligible_outcome_def archive_ineligibility_def Let_def
      engine_error_archive_ineligible_def with_context_def engine_error_new_def)

subsection \<open>Exact decimal fields\<close>

datatype json =
    JNull
  | JBool bool
  | JNumber string
  | JString string
  | JArray "json list"
  | JObject "(string \<times> json) list"

definition EXACT_DECIMAL_FIELD_NAMES :: "string list" where
  "EXACT_DECIMAL_FIELD_NAMES = [''maximumSingletonSpanPressurePpm'', ''minimumCollisionAreaPressurePpm'',
    ''minimumDoubledCollisionAreaSumGrid2'', ''placedDoubledMaterialAreaGrid2'', ''sheetDoubledAreaGrid2'']"

definition is_exact_decimal_field :: "string \<Rightarrow> bool" where
  "is_exact_decimal_field field \<longleftrightarrow> field \<in> set EXACT_DECIMAL_FIELD_NAMES"

definition is_canonical_decimal :: "string \<Rightarrow> bool" where
  "is_canonical_decimal s \<longleftrightarrow> s = ''0'' \<or>
    (let digits = (case s of [] \<Rightarrow> s | c # cs \<Rightarrow> if c = CHR ''-'' then cs else s)
     in digits \<noteq> [] \<and> hd digits \<noteq> CHR ''0'' \<and> list_all is_digit digits)"

text \<open>\<open>validate_exact_decimal_fields\<close>; \<open>render\<close> is serde's text of a value that is not a string.\<close>

fun check_exact_decimal :: "(json \<Rightarrow> string) \<Rightarrow> string \<Rightarrow> json \<Rightarrow> checked" where
  "check_exact_decimal render field (JString s) =
    (if is_canonical_decimal s then Inr () else Inl (InvalidDecimalString field s))"
| "check_exact_decimal render field v = Inl (InvalidDecimalString field (render v))"

fun validate_exact_decimal_fields :: "(json \<Rightarrow> string) \<Rightarrow> json \<Rightarrow> checked"
  and validate_exact_decimal_members :: "(json \<Rightarrow> string) \<Rightarrow> (string \<times> json) list \<Rightarrow> checked"
  and validate_exact_decimal_values :: "(json \<Rightarrow> string) \<Rightarrow> json list \<Rightarrow> checked" where
  "validate_exact_decimal_fields render (JObject ms) = validate_exact_decimal_members render ms"
| "validate_exact_decimal_fields render (JArray vs) = validate_exact_decimal_values render vs"
| "validate_exact_decimal_fields render _ = Inr ()"
| "validate_exact_decimal_members render [] = Inr ()"
| "validate_exact_decimal_members render ((field, v) # ms) =
    and_then (if is_exact_decimal_field field then check_exact_decimal render field v else Inr ()) (\<lambda>_.
    and_then (validate_exact_decimal_fields render v) (\<lambda>_. validate_exact_decimal_members render ms))"
| "validate_exact_decimal_values render [] = Inr ()"
| "validate_exact_decimal_values render (v # vs) =
    and_then (validate_exact_decimal_fields render v) (\<lambda>_. validate_exact_decimal_values render vs)"

text \<open>All members of all objects of a value, at any depth.\<close>

fun all_members :: "json \<Rightarrow> (string \<times> json) set"
  and members_below :: "(string \<times> json) list \<Rightarrow> (string \<times> json) set"
  and values_below :: "json list \<Rightarrow> (string \<times> json) set" where
  "all_members (JObject ms) = members_below ms"
| "all_members (JArray vs) = values_below vs"
| "all_members _ = {}"
| "members_below [] = {}"
| "members_below ((f, v) # ms) = insert (f, v) (all_members v \<union> members_below ms)"
| "values_below [] = {}"
| "values_below (v # vs) = all_members v \<union> values_below vs"

lemma is_canonical_decimal_iff: "is_canonical_decimal s \<longleftrightarrow> (\<exists>i. s = dec_int i)"
proof
  assume c: "is_canonical_decimal s"
  show "\<exists>i. s = dec_int i"
  proof (cases "s = ''0''")
    case True
    have "char_of (of_char (CHR ''0'') :: nat) = CHR ''0''" by (rule char_of_char)
    then have "dec 0 = ''0''" by (subst dec.simps) (simp add: digit_def)
    then have "s = dec_int 0" using True by (simp add: dec_int_def)
    then show ?thesis ..
  next
    case False
    have d: "dec (undec cs) = cs \<and> 0 < undec cs"
      if "cs \<noteq> []" "hd cs \<noteq> CHR ''0''" "list_all is_digit cs" for cs
      using dec_undec [of cs] that by (auto simp: list_all_iff)
    obtain x xs where s: "s = x # xs" using c False by (cases s) (auto simp: is_canonical_decimal_def)
    show ?thesis
    proof (cases "x = CHR ''-''")
      case True
      then have "dec (undec xs) = xs \<and> 0 < undec xs" using d [of xs] c False s
        by (auto simp: is_canonical_decimal_def)
      then have "s = dec_int (- int (undec xs))" using s True by (simp add: dec_int_def)
      then show ?thesis ..
    next
      case neg: False
      then have "dec (undec s) = s" using d [of s] c False s by (auto simp: is_canonical_decimal_def)
      then have "s = dec_int (int (undec s))" by (simp add: dec_int_def)
      then show ?thesis ..
    qed
  qed
next
  assume "\<exists>i. s = dec_int i"
  then obtain i where i: "s = dec_int i" ..
  have l: "list_all is_digit (dec n)" for n using dec_digits [of n] by (simp add: list_all_iff)
  have dig: "is_digit (hd (dec n))" for n using dec_digits [of n] by simp
  have h: "hd (dec n) \<noteq> CHR ''-''" for n using dig [of n] by (auto simp: is_digit_def)
  have "char_of (of_char (CHR ''0'') :: nat) = CHR ''0''" by (rule char_of_char)
  then have z: "dec 0 = ''0''" by (subst dec.simps) (simp add: digit_def)
  show "is_canonical_decimal s"
  proof (cases "i < 0")
    case True
    then show ?thesis using i l hd_dec [of "nat (- i)"] by (simp add: is_canonical_decimal_def dec_int_def)
  next
    case False
    obtain x xs where x: "dec (nat i) = x # xs" using dec_not_Nil by (cases "dec (nat i)") auto
    then have "x \<noteq> CHR ''-''" using h [of "nat i"] by simp
    moreover have "nat i = 0 \<or> x \<noteq> CHR ''0''" using hd_dec [of "nat i"] x by auto
    ultimately show ?thesis
      using i False x l [of "nat i"] z by (auto simp: is_canonical_decimal_def dec_int_def)
  qed
qed

lemma check_exact_decimal_ok: "check_exact_decimal render f v = Inr () \<longleftrightarrow> (\<exists>i. v = JString (dec_int i))"
  by (cases "(render, f, v)" rule: check_exact_decimal.cases) (auto simp: is_canonical_decimal_iff)

lemma exact_fields_iff:
  "validate_exact_decimal_fields render v = Inr () \<longleftrightarrow>
    (\<forall>(f, x) \<in> all_members v. is_exact_decimal_field f \<longrightarrow> (\<exists>i. x = JString (dec_int i)))"
  "validate_exact_decimal_members render ms = Inr () \<longleftrightarrow>
    (\<forall>(f, x) \<in> members_below ms. is_exact_decimal_field f \<longrightarrow> (\<exists>i. x = JString (dec_int i)))"
  "validate_exact_decimal_values render vs = Inr () \<longleftrightarrow>
    (\<forall>(f, x) \<in> values_below vs. is_exact_decimal_field f \<longrightarrow> (\<exists>i. x = JString (dec_int i)))"
  by (induction v and ms and vs rule: all_members_members_below_values_below.induct)
    (auto simp: and_then_Inr_iff check_exact_decimal_ok)

text \<open>
  An outcome is encoded only if every member, at any depth of its JSON, that carries one of
  the five exact-decimal names is a string holding the canonical decimal of some integer.
\<close>

theorem exact_decimal_fields_ok:
  "validate_exact_decimal_fields render v = Inr () \<longleftrightarrow>
    (\<forall>(f, x) \<in> all_members v. f \<in> set EXACT_DECIMAL_FIELD_NAMES \<longrightarrow> (\<exists>i. x = JString (dec_int i)))"
  using exact_fields_iff(1) by (simp add: is_exact_decimal_field_def)

lemma exact_decimal_fields_ok_witness:
  "validate_exact_decimal_fields (\<lambda>_. [])
    (JArray [JObject [(''sheetDoubledAreaGrid2'', JString (dec_int (- 20)))]]) = Inr ()"
  unfolding exact_decimal_fields_ok by auto

end
