(* ===== verification/SortPieces.thy ===== *)
theory SortPieces
  imports Protocol "HOL-Library.List_Lexorder" "HOL-Library.Product_Lexorder"
begin

text \<open>
  \<open>crates/polygon-nesting-core/src/search/sort_pieces.rs\<close>: the canonical order of a request's
  pieces and the priority order of the search. The core's \<open>PreparedPiece\<close> mirrors the wire
  type field by field, so the wire record stands for both. Byte strings are lists of
  naturals.
\<close>

definition descending :: "f64 \<Rightarrow> f64 \<Rightarrow> ordering" where
  "descending a b = (if flt a b then Greater else if flt b a then Less else Equal)"

definition priority_order :: "prepared_piece \<Rightarrow> prepared_piece \<Rightarrow> ordering" where
  "priority_order p q =
    then_with (descending (longest_edge (padded_bounds p)) (longest_edge (padded_bounds q)))
    (then_with (descending (rect_area (padded_bounds p)) (rect_area (padded_bounds q)))
      (descending (imbalance (padded_bounds p)) (imbalance (padded_bounds q))))"

definition sort_pieces_for_nesting :: "prepared_piece list \<Rightarrow> prepared_piece list" where
  "sort_pieces_for_nesting ps = sort_by priority_order ps"

subsection \<open>Natural order of ids\<close>

text \<open>The UTF-8 bytes of a string of code points below 256.\<close>

definition as_bytes :: "string \<Rightarrow> nat list" where
  "as_bytes s = concat (map (\<lambda>c. let n = of_char c :: nat in
    if n < 128 then [n] else [192 + n div 64, 128 + n mod 64]) s)"

definition is_ascii_digit :: "nat \<Rightarrow> bool" where
  "is_ascii_digit b \<longleftrightarrow> 48 \<le> b \<and> b \<le> 57"

text \<open>A digit run without its leading zeros, keeping at least one digit.\<close>

fun significant :: "nat list \<Rightarrow> nat list" where
  "significant (x # y # ys) = (if x = 48 then significant (y # ys) else x # y # ys)"
| "significant xs = xs"

text \<open>
  The loop of \<open>compare_natural_piece_ids\<close> on the bytes from the two indices on; \<open>None\<close> when
  it runs off an end.
\<close>

function natural_loop :: "nat list \<Rightarrow> nat list \<Rightarrow> ordering option" where
  "natural_loop (a # as) (b # bs) =
    (if is_ascii_digit a \<and> is_ascii_digit b then
       let first_run = takeWhile is_ascii_digit (a # as); second_run = takeWhile is_ascii_digit (b # bs);
         first_number = significant first_run; second_number = significant second_run;
         number_order = then_with (cmp_of (length first_number) (length second_number))
           (cmp_of first_number second_number)
       in if number_order \<noteq> Equal then Some number_order
          else let run_length_order = cmp_of (length first_run) (length second_run)
            in if run_length_order \<noteq> Equal then Some run_length_order
               else natural_loop (dropWhile is_ascii_digit (a # as)) (dropWhile is_ascii_digit (b # bs))
     else let byte_order = cmp_of a b
       in if byte_order \<noteq> Equal then Some byte_order else natural_loop as bs)"
| "natural_loop [] bs = None"
| "natural_loop (a # as) [] = None"
  by pat_completeness auto
termination
  by (relation "measure (\<lambda>(as, bs). length as)") (auto intro: le_imp_less_Suc length_dropWhile_le)

definition compare_natural_piece_ids :: "string \<Rightarrow> string \<Rightarrow> ordering" where
  "compare_natural_piece_ids first second =
    (case natural_loop (as_bytes first) (as_bytes second) of
      Some c \<Rightarrow> c
    | None \<Rightarrow> cmp_of (length (as_bytes first)) (length (as_bytes second)))"

definition compare_canonical_request_ties :: "prepared_piece \<Rightarrow> prepared_piece \<Rightarrow> ordering" where
  "compare_canonical_request_ties p q =
    then_with (descending (rect_width (real_bounds p)) (rect_width (real_bounds q)))
    (then_with (descending (rect_height (real_bounds p)) (rect_height (real_bounds q)))
      (compare_natural_piece_ids (piece_id p) (piece_id q)))"

subsection \<open>The natural order as an order of token lists\<close>

text \<open>
  A byte string is a list of tokens: maximal digit runs and single other bytes. A token's key
  compares as the loop compares it: a run first by its number (length, then digits), then by
  its number of digits; a run and another byte by any digit.
\<close>

type_synonym token_key = "nat \<times> nat \<times> nat list \<times> nat"

function tokens :: "nat list \<Rightarrow> token_key list" where
  "tokens [] = []"
| "tokens (a # as) = (if is_ascii_digit a
    then (48, length (significant (takeWhile is_ascii_digit (a # as))),
        significant (takeWhile is_ascii_digit (a # as)), length (takeWhile is_ascii_digit (a # as)))
      # tokens (dropWhile is_ascii_digit (a # as))
    else (a, 0, [], 0) # tokens as)"
  by pat_completeness auto
termination
  by (relation "measure length") (auto intro: le_imp_less_Suc length_dropWhile_le)

lemma significant_zeros: "\<exists>k. xs = replicate k 48 @ significant xs"
proof (induction xs rule: significant.induct)
  case (1 x y ys)
  show ?case
  proof (cases "x = 48")
    case True
    with 1 obtain k where "y # ys = replicate k 48 @ significant (y # ys)" by blast
    then have "x # y # ys = replicate (Suc k) 48 @ significant (x # y # ys)" using True by simp
    then show ?thesis by blast
  next
    case False
    then show ?thesis by (intro exI [of _ 0]) simp
  qed
qed (auto intro: exI [of _ 0])

lemma run_eq:
  assumes "significant xs = significant ys" and "length xs = length ys"
  shows "xs = ys"
proof -
  obtain k j where "xs = replicate k 48 @ significant xs" "ys = replicate j 48 @ significant ys"
    using significant_zeros by metis
  moreover from this have "k = j"
    using assms by (metis add_right_cancel length_append length_replicate)
  ultimately show ?thesis using assms by metis
qed

lemma cmp_of_Cons: "cmp_of ((x :: 'a :: linorder) # xs) (y # ys) = then_with (cmp_of x y) (cmp_of xs ys)"
  by (auto simp: cmp_of_def)

lemma cmp_of_pair: "cmp_of (a :: 'a :: linorder, b :: 'b :: linorder) (c, d) = then_with (cmp_of a c) (cmp_of b d)"
  by (auto simp: cmp_of_def)

lemma cmp_of_refl [simp]: "cmp_of a a = Equal"
  by (simp add: cmp_of_def)

lemma tokens_inject: "tokens xs = tokens ys \<Longrightarrow> xs = ys"
proof (induction xs arbitrary: ys rule: tokens.induct)
  case 1
  then show ?case by (cases ys) (auto split: if_splits)
next
  case (2 a as)
  then obtain b bs where ys: "ys = b # bs" by (cases ys) (auto split: if_splits)
  show ?case
  proof (cases "is_ascii_digit a \<longleftrightarrow> is_ascii_digit b")
    case True
    show ?thesis
    proof (cases "is_ascii_digit a")
      case a: True
      let ?r = "takeWhile is_ascii_digit" and ?d = "dropWhile is_ascii_digit"
      have t: "significant (?r (a # as)) = significant (?r ys)" "length (?r (a # as)) = length (?r ys)"
        "tokens (?d (a # as)) = tokens (?d ys)"
        using "2.prems" a True unfolding ys by (simp_all only: tokens.simps if_True list.inject prod.inject)
      have "?r (a # as) = ?r ys" using run_eq t(1,2) by blast
      moreover have "?d (a # as) = ?d ys" using "2.IH"(1) [OF a t(3)] .
      ultimately show ?thesis by (metis takeWhile_dropWhile_id)
    next
      case False
      then show ?thesis using "2.prems" "2.IH"(2) [OF False] True ys by auto
    qed
  next
    case False
    then show ?thesis using "2.prems" ys by (auto simp: is_ascii_digit_def split: if_splits)
  qed
qed

lemma then_with_assoc: "then_with (then_with a b) c = then_with a (then_with b c)"
  by (cases a) simp_all

lemma cmp_of_add [simp]: "cmp_of (k + a) (k + b :: nat) = cmp_of a b"
  by (simp add: cmp_of_def)

lemma cmp_of_Suc [simp]: "cmp_of (Suc a) (Suc b) = cmp_of a b"
  by (simp add: cmp_of_def)

lemma natural_loop_tokens:
  "(case natural_loop xs ys of Some c \<Rightarrow> c | None \<Rightarrow> cmp_of (length xs) (length ys)) =
    cmp_of (tokens xs) (tokens ys)"
proof (induction xs ys rule: natural_loop.induct)
  case (1 a as b bs)
  let ?r = "takeWhile is_ascii_digit" and ?d = "dropWhile is_ascii_digit"
  show ?case
  proof (cases "is_ascii_digit a \<and> is_ascii_digit b")
    case True
    let ?n = "then_with (cmp_of (length (significant (?r (a # as)))) (length (significant (?r (b # bs)))))
      (cmp_of (significant (?r (a # as))) (significant (?r (b # bs))))"
    let ?l = "cmp_of (length (?r (a # as))) (length (?r (b # bs)))"
    have t: "cmp_of (tokens (a # as)) (tokens (b # bs)) =
        then_with ?n (then_with ?l (cmp_of (tokens (?d (a # as))) (tokens (?d (b # bs)))))"
      using True by (simp add: cmp_of_Cons cmp_of_pair then_with_assoc)
    have l: "natural_loop (a # as) (b # bs) =
        (if ?n \<noteq> Equal then Some ?n else if ?l \<noteq> Equal then Some ?l
         else natural_loop (?d (a # as)) (?d (b # bs)))"
      unfolding natural_loop.simps(1) Let_def using True by (rule if_P)
    show ?thesis
    proof (cases "?n = Equal \<and> ?l = Equal")
      case eq: True
      have len: "length xs = length (?r xs) + length (?d xs)" for xs
        by (metis length_append takeWhile_dropWhile_id)
      have "length (?r (a # as)) = length (?r (b # bs))" using eq by (simp add: cmp_simps)
      then have d: "cmp_of (length (a # as)) (length (b # bs)) =
          cmp_of (length (?d (a # as))) (length (?d (b # bs)))"
        using len [of "a # as"] len [of "b # bs"] by (metis cmp_of_add)
      have "(case natural_loop (?d (a # as)) (?d (b # bs)) of Some c \<Rightarrow> c
          | None \<Rightarrow> cmp_of (length (?d (a # as))) (length (?d (b # bs)))) =
        cmp_of (tokens (?d (a # as))) (tokens (?d (b # bs)))"
        by (rule "1.IH"(1) [OF True refl refl refl refl refl _ refl]) (use eq in blast)+
      moreover have "?n = Equal" "?l = Equal" using eq by blast+
      ultimately show ?thesis unfolding l t d by (simp only: then_with.simps simp_thms if_False)
    next
      case False
      then show ?thesis unfolding l t by (cases ?n; cases ?l; simp only: then_with.simps) simp_all
    qed
  next
    case False
    show ?thesis
    proof (cases "a = b")
      case True
      with False have "\<not> is_ascii_digit a" "\<not> is_ascii_digit b" by auto
      then show ?thesis using "1.IH"(2) [OF False refl] True
        by (cases "natural_loop as bs") (simp_all add: cmp_of_Cons)
    next
      case ne: False
      have "cmp_of (tokens (a # as)) (tokens (b # bs)) = cmp_of a b"
        using False ne by (auto simp: cmp_of_def is_ascii_digit_def)
      moreover have "natural_loop (a # as) (b # bs) = Some (cmp_of a b)"
        unfolding natural_loop.simps(1) Let_def if_not_P [OF False] using ne by (simp add: cmp_simps)
      ultimately show ?thesis by simp
    qed
  qed
next
  case (2 bs)
  then show ?case by (cases bs) (auto simp: cmp_of_def)
next
  case (3 a as)
  then show ?case by (auto simp: cmp_of_def)
qed

lemma compare_natural_piece_ids_tokens:
  "compare_natural_piece_ids a b = cmp_of (tokens (as_bytes a)) (tokens (as_bytes b))"
  unfolding compare_natural_piece_ids_def using natural_loop_tokens .

lemma as_bytes_inject: "as_bytes s = as_bytes t \<Longrightarrow> s = t"
proof (induction s arbitrary: t)
  case Nil
  then show ?case by (cases t) (auto simp: as_bytes_def Let_def split: if_splits)
next
  case (Cons c s)
  then obtain d u where t: "t = d # u" by (cases t) (auto simp: as_bytes_def Let_def split: if_splits)
  have n: "(of_char c :: nat) < 256" "(of_char d :: nat) < 256" by simp_all
  have "c = d" if "of_char c div 64 = (of_char d div 64 :: nat)" "of_char c mod 64 = (of_char d mod 64 :: nat)"
  proof -
    have "of_char c = (of_char d :: nat)" using that by (metis div_mult_mod_eq)
    then show ?thesis by simp
  qed
  then have "c = d \<and> as_bytes s = as_bytes u"
    using Cons.prems n unfolding t as_bytes_def by (auto simp: Let_def split: if_splits)
  then have "c = d" "s = u" using Cons.IH by auto
  with t show ?case by simp
qed

text \<open>
  The order the ids are meant to have: an id is read as a list of tokens, a token a maximal run of
  digits or a single other byte. A run counts as its number, and runs of the same number as their
  numbers of digits; against another byte it counts as a digit.
\<close>

fun decimal_value :: "nat list \<Rightarrow> nat" where
  "decimal_value [] = 0"
| "decimal_value (d # ds) = (d - 48) * 10 ^ length ds + decimal_value ds"

function natural_tokens :: "nat list \<Rightarrow> (nat \<times> nat \<times> nat) list" where
  "natural_tokens [] = []"
| "natural_tokens (a # as) = (if is_ascii_digit a
    then (48, decimal_value (takeWhile is_ascii_digit (a # as)), length (takeWhile is_ascii_digit (a # as)))
      # natural_tokens (dropWhile is_ascii_digit (a # as))
    else (a, 0, 0) # natural_tokens as)"
  by pat_completeness auto
termination
  by (relation "measure length") (auto intro: le_imp_less_Suc length_dropWhile_le)

lemma decimal_value_less: "list_all is_ascii_digit ds \<Longrightarrow> decimal_value ds < 10 ^ length ds"
proof (induction ds)
  case Nil
  then show ?case by simp
next
  case (Cons d ds)
  then have "d - 48 \<le> 9" "decimal_value ds < 10 ^ length ds" by (auto simp: is_ascii_digit_def)
  moreover from this have "(d - 48) * 10 ^ length ds \<le> 9 * 10 ^ length ds" by (intro mult_le_mono1)
  ultimately show ?case unfolding decimal_value.simps length_Cons power_Suc by linarith
qed

lemma decimal_value_zeros: "decimal_value (replicate k 48 @ ds) = decimal_value ds"
  by (induction k) simp_all

lemma decimal_value_significant: "decimal_value (significant ds) = decimal_value ds"
  using significant_zeros [of ds] by (metis decimal_value_zeros)

lemma significant_digits: "list_all is_ascii_digit ds \<Longrightarrow> list_all is_ascii_digit (significant ds)"
  by (induction ds rule: significant.induct) simp_all

lemma decimal_value_significant_ge:
  "list_all is_ascii_digit ds \<Longrightarrow> 2 \<le> length (significant ds) \<Longrightarrow>
    10 ^ (length (significant ds) - 1) \<le> decimal_value (significant ds)"
proof (induction ds rule: significant.induct)
  case (1 x y ys)
  show ?case
  proof (cases "x = 48")
    case False
    then have "1 \<le> x - 48" using 1 by (auto simp: is_ascii_digit_def)
    then have "1 * 10 ^ length (y # ys) \<le> (x - 48) * 10 ^ length (y # ys)" by (rule mult_le_mono1)
    then have "10 ^ length (y # ys) \<le> decimal_value (x # y # ys)"
      unfolding decimal_value.simps mult_1 by (rule trans_le_add1)
    then show ?thesis using False by simp
  qed (use 1 in simp)
qed auto

lemma cmp_of_nat_less: "(a :: nat) < b \<Longrightarrow> cmp_of a b = Less" "(b :: nat) < a \<Longrightarrow> cmp_of a b = Greater"
  by (simp_all add: cmp_of_def)

lemma cmp_decimal_value:
  "length xs = length ys \<Longrightarrow> list_all is_ascii_digit xs \<Longrightarrow> list_all is_ascii_digit ys \<Longrightarrow>
    cmp_of xs ys = cmp_of (decimal_value xs) (decimal_value ys)"
proof (induction xs ys rule: list_induct2)
  case Nil
  then show ?case by (simp add: cmp_of_def)
next
  case (Cons x xs y ys)
  have lt: "decimal_value (a # as) < decimal_value (b # bs)"
    if "a < b" "length as = length bs" "list_all is_ascii_digit (a # as)" "list_all is_ascii_digit (b # bs)" for a b as bs
  proof -
    have "a - 48 + 1 \<le> b - 48" using that by (auto simp: is_ascii_digit_def)
    then have "(a - 48 + 1) * 10 ^ length as \<le> (b - 48) * 10 ^ length as" by (rule mult_le_mono1)
    moreover have "decimal_value as < 10 ^ length as" using that(3) by (intro decimal_value_less) simp
    ultimately show ?thesis
      unfolding decimal_value.simps that(2) [symmetric] add_mult_distrib mult_1 by linarith
  qed
  consider "x < y" | "y < x" | "x = y" by linarith
  then show ?case
  proof cases
    case 1
    have "decimal_value (x # xs) < decimal_value (y # ys)" using lt [OF 1, of xs ys] Cons.hyps Cons.prems by simp
    then show ?thesis using 1 by (simp only: cmp_of_Cons cmp_of_nat_less then_with.simps)
  next
    case 2
    have "decimal_value (y # ys) < decimal_value (x # xs)" using lt [OF 2, of ys xs] Cons.hyps Cons.prems by simp
    then show ?thesis using 2 by (simp only: cmp_of_Cons cmp_of_nat_less then_with.simps)
  next
    case 3
    then show ?thesis using Cons by (simp add: cmp_of_Cons)
  qed
qed

lemma significant_Nil [simp]: "significant ds = [] \<longleftrightarrow> ds = []"
  by (induction ds rule: significant.induct) simp_all

lemma decimal_value_lt:
  assumes "length (significant xs) < length (significant ys)"
    and "list_all is_ascii_digit xs" and "list_all is_ascii_digit ys" and "xs \<noteq> []"
  shows "decimal_value xs < decimal_value ys"
proof -
  have "0 < length (significant xs)" using assms(4) by simp
  then have two: "2 \<le> length (significant ys)" using assms(1) by linarith
  have "decimal_value xs < 10 ^ length (significant xs)"
    using decimal_value_less [OF significant_digits [OF assms(2)]] by (simp add: decimal_value_significant)
  also have "\<dots> \<le> 10 ^ (length (significant ys) - 1)" using assms(1) by (intro power_increasing) auto
  also have "\<dots> \<le> decimal_value ys"
    using decimal_value_significant_ge [OF assms(3) two] by (simp add: decimal_value_significant)
  finally show ?thesis .
qed

lemma cmp_run:
  assumes "list_all is_ascii_digit xs" and "list_all is_ascii_digit ys" and "xs \<noteq> []" and "ys \<noteq> []"
  shows "then_with (cmp_of (length (significant xs)) (length (significant ys)))
      (cmp_of (significant xs) (significant ys)) = cmp_of (decimal_value xs) (decimal_value ys)"
proof -
  consider (less) "length (significant xs) < length (significant ys)"
    | (greater) "length (significant ys) < length (significant xs)"
    | (equal) "length (significant xs) = length (significant ys)" by linarith
  then show ?thesis
  proof cases
    case less
    then show ?thesis using decimal_value_lt assms by (simp add: cmp_of_nat_less)
  next
    case greater
    then show ?thesis using decimal_value_lt assms by (simp add: cmp_of_nat_less)
  next
    case equal
    then show ?thesis
      using cmp_decimal_value [OF equal] assms significant_digits by (simp add: decimal_value_significant)
  qed
qed

lemma digit_run: "list_all is_ascii_digit (takeWhile is_ascii_digit xs)"
  by (induction xs) simp_all

text \<open>The two token lists give the same comparison.\<close>

lemma cmp_tokens: "cmp_of (tokens xs) (tokens ys) = cmp_of (natural_tokens xs) (natural_tokens ys)"
proof (induction xs arbitrary: ys rule: tokens.induct)
  case 1
  then show ?case by (cases ys) (auto simp: cmp_of_def)
next
  case (2 a as)
  show ?case
  proof (cases ys)
    case Nil
    then show ?thesis by (auto simp: cmp_of_def)
  next
    case ys: (Cons b bs)
    let ?r = "takeWhile is_ascii_digit" and ?d = "dropWhile is_ascii_digit"
    show ?thesis
    proof (cases "is_ascii_digit a \<and> is_ascii_digit b")
      case True
      then have "?r (a # as) \<noteq> []" "?r (b # bs) \<noteq> []" by simp_all
      note run = cmp_run [OF digit_run digit_run this]
      have "cmp_of (tokens (a # as)) (tokens (b # bs)) = then_with (then_with
          (cmp_of (length (significant (?r (a # as)))) (length (significant (?r (b # bs)))))
          (cmp_of (significant (?r (a # as))) (significant (?r (b # bs)))))
        (then_with (cmp_of (length (?r (a # as))) (length (?r (b # bs))))
          (cmp_of (tokens (?d (a # as))) (tokens (?d (b # bs)))))"
        using True by (simp add: cmp_of_Cons cmp_of_pair then_with_assoc)
      also have "\<dots> = cmp_of (natural_tokens (a # as)) (natural_tokens (b # bs))"
        using "2.IH"(1) [of "?d (b # bs)"] True unfolding run
        by (simp add: cmp_of_Cons cmp_of_pair then_with_assoc)
      finally show ?thesis unfolding ys .
    next
      case False
      show ?thesis
      proof (cases "a = b")
        case eq: True
        then have n: "\<not> is_ascii_digit a" "\<not> is_ascii_digit b" using False by auto
        then show ?thesis using "2.IH"(2) [OF n(1), of bs] unfolding ys by (simp add: eq cmp_of_Cons)
      next
        case ne: False
        have "cmp_of (tokens (a # as)) (tokens (b # bs)) = cmp_of a b"
          using False ne by (auto simp: cmp_of_def is_ascii_digit_def)
        moreover have "cmp_of (natural_tokens (a # as)) (natural_tokens (b # bs)) = cmp_of a b"
          using False ne by (auto simp: cmp_of_def is_ascii_digit_def)
        ultimately show ?thesis by (simp only: ys)
      qed
    qed
  qed
qed

text \<open>
  C23. \<open>compare_natural_piece_ids\<close> is the natural order: the lexicographic order of the ids' token
  lists, in which a run of digits counts as the number it writes, and as the number of its digits
  between runs that write the same number. It is a total order: reversing the arguments reverses
  the result, it is transitive, and only an id compares equal with itself. Ids are strings of code
  points below 256, compared as their UTF-8 bytes.
\<close>

theorem natural_piece_id_order:
  "compare_natural_piece_ids a b = cmp_of (natural_tokens (as_bytes a)) (natural_tokens (as_bytes b))
   \<and> compare_natural_piece_ids b a = reverse_ordering (compare_natural_piece_ids a b)
   \<and> (compare_natural_piece_ids a b \<noteq> Greater \<longrightarrow> compare_natural_piece_ids b c \<noteq> Greater \<longrightarrow>
      compare_natural_piece_ids a c \<noteq> Greater)
   \<and> (compare_natural_piece_ids a b = Equal \<longleftrightarrow> a = b)"
proof (intro conjI)
  show "compare_natural_piece_ids a b = cmp_of (natural_tokens (as_bytes a)) (natural_tokens (as_bytes b))"
    unfolding compare_natural_piece_ids_tokens by (rule cmp_tokens)
qed (unfold compare_natural_piece_ids_tokens,
    auto simp: cmp_simps intro: cmp_of_swap dest: tokens_inject as_bytes_inject)

lemma natural_piece_id_order_witness:
  "compare_natural_piece_ids ''a2'' ''a10'' = Less \<and> compare_natural_piece_ids ''a10'' ''b1'' = Less
   \<and> compare_natural_piece_ids ''a2'' ''b1'' \<noteq> Greater"
proof -
  have 1: "compare_natural_piece_ids ''a2'' ''a10'' = Less" and 2: "compare_natural_piece_ids ''a10'' ''b1'' = Less"
    by code_simp+
  have "compare_natural_piece_ids ''a2'' ''b1'' \<noteq> Greater"
    using natural_piece_id_order [of "''a2''" "''a10''" "''b1''", THEN conjunct2, THEN conjunct2, THEN conjunct1] 1 2
    by simp
  with 1 2 show ?thesis by simp
qed

subsection \<open>The prepared order\<close>

text \<open>The order of the pieces that reach the search: canonical ties first, then the stable priority sort.\<close>

definition search_order :: "prepared_piece list \<Rightarrow> prepared_piece list" where
  "search_order ps = sort_pieces_for_nesting (sort_by compare_canonical_request_ties ps)"

definition piece_keys :: "prepared_piece \<Rightarrow> f64 list" where
  "piece_keys p = [longest_edge (padded_bounds p), rect_area (padded_bounds p), imbalance (padded_bounds p),
    rect_width (real_bounds p), rect_height (real_bounds p)]"

definition comparable_pieces :: "prepared_piece set" where
  "comparable_pieces = {p. list_all (\<lambda>v. \<not> is_nan v) (piece_keys p)}"

lemma descending_comparator: "comparator {v. \<not> is_nan v} descending"
proof (rule comparator.intro)
  fix a b
  assume "a \<in> {v. \<not> is_nan v}" "b \<in> {v. \<not> is_nan v}"
  then show "descending b a = reverse_ordering (descending a b)"
    using flt_asym by (auto simp: descending_def)
next
  fix a b c
  assume "a \<in> {v. \<not> is_nan v}" "b \<in> {v. \<not> is_nan v}" "c \<in> {v. \<not> is_nan v}"
    and "descending a b \<noteq> Greater" "descending b c \<noteq> Greater"
  then show "descending a c \<noteq> Greater"
    unfolding descending_def using flt_total flt_trans feq_cong feq_sym
    by (metis mem_Collect_eq ordering.distinct(5) ordering.distinct(3))
qed

lemma descending_key:
  "(\<And>p. p \<in> comparable_pieces \<Longrightarrow> \<not> is_nan (f p)) \<Longrightarrow>
    comparator comparable_pieces (\<lambda>p q. descending (f p) (f q))"
  by (rule comparator_key [OF descending_comparator]) auto

lemma natural_comparator: "comparator A (\<lambda>p q. compare_natural_piece_ids (f p) (f q))"
  unfolding compare_natural_piece_ids_tokens by (rule comparator_linorder_key)

interpretation priority: comparator comparable_pieces priority_order
  unfolding priority_order_def [abs_def]
  by (intro comparator_then_with descending_key) (auto simp: comparable_pieces_def piece_keys_def)

interpretation canonical: comparator comparable_pieces compare_canonical_request_ties
  unfolding compare_canonical_request_ties_def [abs_def]
  by (intro comparator_then_with descending_key natural_comparator)
    (auto simp: comparable_pieces_def piece_keys_def)

definition search_cmp :: "prepared_piece \<Rightarrow> prepared_piece \<Rightarrow> ordering" where
  "search_cmp p q = then_with (priority_order p q) (compare_canonical_request_ties p q)"

interpretation search: comparator comparable_pieces search_cmp
  unfolding search_cmp_def [abs_def]
  by (rule comparator_then_with) (rule priority.comparator_axioms canonical.comparator_axioms)+

lemma sorted_insert_then:
  assumes "x \<in> comparable_pieces" "set ys \<subseteq> comparable_pieces" "sorted_cmp search_cmp ys"
    and "\<forall>y \<in> set ys. compare_canonical_request_ties x y \<noteq> Greater"
  shows "sorted_cmp search_cmp (insert_by priority_order x ys)"
  using assms
proof (induction ys)
  case Nil
  then show ?case by simp
next
  case (Cons y ys)
  have m: "y \<in> comparable_pieces" "set ys \<subseteq> comparable_pieces" using Cons.prems by auto
  show ?case
  proof (cases "priority_order x y = Greater")
    case True
    then have "priority_order y x = Less" using priority.Less_iff Cons.prems(1) m(1) by blast
    then have "search_cmp y x \<noteq> Greater" by (simp add: search_cmp_def)
    then show ?thesis using Cons True by auto
  next
    case False
    have "search_cmp x y \<noteq> Greater"
      using False Cons.prems(4) by (auto simp: search_cmp_def cmp_simps)
    moreover have "search_cmp x z \<noteq> Greater" if "z \<in> set ys" for z
      using search.trans [OF Cons.prems(1) m(1) _ calculation] that Cons.prems(3) m(2) by auto
    ultimately show ?thesis using False Cons.prems by simp
  qed
qed

lemma sorted_priority_canonical:
  "set ps \<subseteq> comparable_pieces \<Longrightarrow> sorted_cmp compare_canonical_request_ties ps \<Longrightarrow>
    sorted_cmp search_cmp (sort_by priority_order ps)"
proof (induction ps)
  case Nil
  then show ?case by (simp add: sort_by_def)
next
  case (Cons p ps)
  then show ?case unfolding priority.sort_by_Cons by (intro sorted_insert_then) auto
qed

lemma search_order_sorted: "set ps \<subseteq> comparable_pieces \<Longrightarrow> sorted_cmp search_cmp (search_order ps)"
  unfolding search_order_def sort_pieces_for_nesting_def
  by (intro sorted_priority_canonical canonical.sorted_sort_by) auto

lemma search_cmp_Equal: "search_cmp p q = Equal \<Longrightarrow> piece_id p = piece_id q"
  using tokens_inject as_bytes_inject
  by (auto simp: search_cmp_def compare_canonical_request_ties_def cmp_simps compare_natural_piece_ids_tokens)

text \<open>
  The search order does not depend on the order of the request: for pieces with pairwise
  distinct ids and keys that are numbers, every permutation of the request gives the same list,
  the one that is sorted by descending longest edge, area and imbalance, ties by descending
  real width and height, and then by the natural order of the ids.
\<close>

theorem search_order_permutation_invariant:
  assumes "mset qs = mset ps" and "distinct (map piece_id ps)" and "set ps \<subseteq> comparable_pieces"
  shows "search_order qs = search_order ps \<and> mset (search_order ps) = mset ps \<and>
    sorted_wrt (\<lambda>p q. then_with (priority_order p q) (compare_canonical_request_ties p q) \<noteq> Greater)
      (search_order ps)"
proof -
  have set: "set qs = set ps" using assms(1) by (metis set_mset_mset)
  have m: "mset (search_order xs) = mset xs" for xs
    by (simp add: search_order_def sort_pieces_for_nesting_def)
  have "search_order qs = search_order ps"
  proof (rule search.sorted_unique)
    show "mset (search_order qs) = mset (search_order ps)" using assms(1) by (simp add: m)
    have s: "set (search_order qs) = set ps" using m [of qs] set by (metis set_mset_mset)
    then show "set (search_order qs) \<subseteq> comparable_pieces" using assms(3) by simp
    show "sorted_cmp search_cmp (search_order qs)" "sorted_cmp search_cmp (search_order ps)"
      using assms(3) set by (simp_all add: search_order_sorted)
    show "a = b" if "a \<in> set (search_order qs)" "b \<in> set (search_order qs)" "search_cmp a b = Equal" for a b
      using that s search_cmp_Equal assms(2) by (metis distinct_map inj_onD)
  qed
  moreover have "sorted_cmp search_cmp (search_order ps)" using assms(3) by (rule search_order_sorted)
  ultimately show ?thesis using m by (simp add: search_cmp_def [abs_def])
qed

lemma search_order_permutation_invariant_witness:
  "search_order [sample_piece ''p10'', sample_piece ''p2''] = search_order [sample_piece ''p2'', sample_piece ''p10'']"
  by (rule search_order_permutation_invariant [THEN conjunct1])
    (simp_all add: sample_piece_def comparable_pieces_def piece_keys_def f64_one_def Let_def)

end
