(* ===== verification/Cycles.thy ===== *)
theory Cycles
  imports Main
begin

text \<open>
  Cyclic sequences read in either direction: two lists stand for the same cycle when one is a
  rotation of the other or of its reversal. Tokens of canonical keys and rings of polygons are such
  sequences.
\<close>

definition same_cycle :: "'a list \<Rightarrow> 'a list \<Rightarrow> bool" where
  "same_cycle ts us \<longleftrightarrow> (\<exists>n. us = rotate n ts \<or> us = rotate n (rev ts))"

lemma rotate_undo: "rotate (length xs - n mod length xs) (rotate n xs) = xs"
proof (cases "xs = []")
  case False
  then have "(length xs - n mod length xs + n) mod length xs = 0"
    by (metis add.commute length_greater_0_conv mod_add_left_eq mod_less_divisor add_diff_inverse_nat
        less_imp_not_less mod_self)
  then show ?thesis by (simp add: rotate_rotate rotate_conv_mod [of "_ + _"])
qed simp

lemma rev_rotate: "rev (rotate n xs) = rotate (length xs - n mod length xs) (rev xs)"
proof -
  have "rotate (length xs - n mod length xs) (rev xs) = rev (rotate (length xs - (length xs - n mod length xs) mod length xs) xs)"
    by (rule rotate_rev)
  also have "rotate (length xs - (length xs - n mod length xs) mod length xs) xs = rotate n xs"
  proof (cases "n mod length xs = 0 \<or> xs = []")
    case False
    then have "0 < length xs" by simp
    then have "n mod length xs < length xs" by simp
    then have "length xs - (length xs - n mod length xs) mod length xs = n mod length xs" using False by simp
    then show ?thesis by (metis rotate_conv_mod)
  next
    case True
    then show ?thesis using rotate_conv_mod [of n xs] by auto
  qed
  finally show ?thesis by simp
qed

lemma same_cycle_sym: "same_cycle ts us \<Longrightarrow> same_cycle us ts"
  unfolding same_cycle_def by (metis rev_rev_ident rev_rotate rotate_undo length_rev)

lemma same_cycle_trans: "same_cycle ts us \<Longrightarrow> same_cycle us vs \<Longrightarrow> same_cycle ts vs"
  unfolding same_cycle_def by (metis rev_rev_ident rev_rotate rotate_rotate)

lemma same_cycle_length: "same_cycle ts us \<Longrightarrow> length us = length ts"
  by (auto simp: same_cycle_def)

text \<open>A rotation of a list without repetition is determined by its first element.\<close>

lemma rotate_hd_unique:
  assumes "distinct xs" "hd (rotate m xs) = hd (rotate n xs)" "xs \<noteq> []"
  shows "rotate m xs = rotate n xs"
proof -
  have "xs ! (m mod length xs) = xs ! (n mod length xs)" using assms(2,3) by (simp add: hd_rotate_conv_nth)
  then have "m mod length xs = n mod length xs" using assms(1,3) by (simp add: nth_eq_iff_index_eq)
  then show ?thesis by (metis rotate_conv_mod)
qed

lemma same_cycle_set: "same_cycle xs ys \<Longrightarrow> set ys = set xs"
  by (auto simp: same_cycle_def)

lemma same_cycle_distinct: "same_cycle xs ys \<Longrightarrow> distinct ys = distinct xs"
  by (auto simp: same_cycle_def)

lemma same_cycle_map: "same_cycle xs ys \<Longrightarrow> same_cycle (map f xs) (map f ys)"
  by (auto simp: same_cycle_def rotate_map rev_map)

text \<open>
  There are two walks of a cycle from a given element: forward and backward. A choice between them
  by a comparison that tells different lists apart is canonical.
\<close>

definition walk_from :: "'a \<Rightarrow> 'a list \<Rightarrow> 'a list" where
  "walk_from x xs = dropWhile (\<lambda>y. y \<noteq> x) xs @ takeWhile (\<lambda>y. y \<noteq> x) xs"

lemma walk_from_rotate: "\<exists>n. walk_from x xs = rotate n xs"
proof
  have "rotate (length (takeWhile (\<lambda>y. y \<noteq> x) xs)) (takeWhile (\<lambda>y. y \<noteq> x) xs @ dropWhile (\<lambda>y. y \<noteq> x) xs) = walk_from x xs"
    unfolding walk_from_def by (rule rotate_append)
  then show "walk_from x xs = rotate (length (takeWhile (\<lambda>y. y \<noteq> x) xs)) xs" by simp
qed

lemma walk_from_hd: "x \<in> set xs \<Longrightarrow> walk_from x xs \<noteq> [] \<and> hd (walk_from x xs) = x"
proof -
  assume "x \<in> set xs"
  then have "dropWhile (\<lambda>y. y \<noteq> x) xs \<noteq> []" by (auto simp: dropWhile_eq_Nil_conv)
  then show ?thesis using hd_dropWhile [of "\<lambda>y. y \<noteq> x" xs] by (simp add: walk_from_def)
qed

lemma rotation_walk_from:
  assumes "distinct xs" "x \<in> set xs" "hd (rotate n xs) = x"
  shows "rotate n xs = walk_from x xs"
proof -
  obtain m where m: "walk_from x xs = rotate m xs" using walk_from_rotate [of x xs] by blast
  have "xs \<noteq> []" using assms(2) by auto
  moreover have "hd (rotate m xs) = x" using walk_from_hd [OF assms(2)] by (simp add: m)
  ultimately show ?thesis unfolding m using assms(3) by (intro rotate_hd_unique [OF assms(1)]) simp_all
qed

lemma walk_from_rotation:
  assumes "distinct xs" "x \<in> set xs"
  shows "walk_from x (rotate n xs) = walk_from x xs"
proof -
  have x: "x \<in> set (rotate n xs)" using assms(2) by simp
  obtain m where "walk_from x (rotate n xs) = rotate m (rotate n xs)" using walk_from_rotate [of x "rotate n xs"] by blast
  then have "walk_from x (rotate n xs) = rotate (m + n) xs" by (simp add: rotate_rotate)
  with walk_from_hd [OF x] show ?thesis
    using rotation_walk_from [OF assms] by metis
qed

lemma same_cycle_walks:
  assumes "distinct xs" "x \<in> set xs" "same_cycle xs ys"
  shows "{walk_from x ys, walk_from x (rev ys)} = {walk_from x xs, walk_from x (rev xs)}"
proof -
  from assms(3) obtain n where "ys = rotate n xs \<or> ys = rotate n (rev xs)" by (auto simp: same_cycle_def)
  then show ?thesis
  proof
    assume y: "ys = rotate n xs"
    then have "rev ys = rotate (length xs - n mod length xs) (rev xs)" by (simp add: rev_rotate)
    then show ?thesis using y assms(1,2) by (simp add: walk_from_rotation)
  next
    assume y: "ys = rotate n (rev xs)"
    then have "rev ys = rotate (length xs - n mod length xs) xs" using rev_rotate [of n "rev xs"] by simp
    then show ?thesis using y assms(1,2) by (simp add: walk_from_rotation insert_commute)
  qed
qed

end
