(* ===== verification/JsNumber.thy ===== *)
theory JsNumber
  imports GridMath SortPieces Cycles
begin

text \<open>
  \<open>crates/polygon-nesting-core/src/js_number/\<close>: JavaScript's number functions, string order and the
  canonical key of a cyclic sequence of tokens. A string is a list of code points below 256, where a
  UTF-16 code unit is the code point. The general formatter of the crate \<open>ryu-js\<close> is an argument \<open>js\<close>.
\<close>

subsection \<open>js_math.rs\<close>

definition js_round :: "f64 \<Rightarrow> f64" where
  "js_round x =
    (if is_nan x \<or> feq x f64_zero \<or> \<not> is_finite x then x
     else if flt f64_zero x \<and> flt x (lit (1 / 2)) then Finite False 0
     else if fle (lit (- 1 / 2)) x \<and> flt x f64_zero then Finite True 0
     else let floor = ffloor x; remainder = fsub x floor
       in if flt remainder (lit (1 / 2)) then floor else fadd floor (lit 1))"

definition js_sign :: "f64 \<Rightarrow> f64" where
  "js_sign x = (if is_nan x then NaN else if feq x f64_zero then x
    else if flt f64_zero x then lit 1 else lit (- 1))"

definition js_max :: "f64 \<Rightarrow> f64 \<Rightarrow> f64" where
  "js_max a b =
    (if is_nan a \<or> is_nan b then NaN
     else if feq a f64_zero \<and> feq b f64_zero
       then (if \<not> is_sign_negative a \<or> \<not> is_sign_negative b then Finite False 0 else Finite True 0)
     else if flt b a then a else b)"

definition js_min :: "f64 \<Rightarrow> f64 \<Rightarrow> f64" where
  "js_min a b =
    (if is_nan a \<or> is_nan b then NaN
     else if feq a f64_zero \<and> feq b f64_zero
       then (if is_sign_negative a \<or> is_sign_negative b then Finite True 0 else Finite False 0)
     else if flt a b then a else b)"

definition max_all :: "f64 list \<Rightarrow> f64" where
  "max_all values = foldl js_max (Infinity True) values"

definition min_all :: "f64 list \<Rightarrow> f64" where
  "min_all values = foldl js_min (Infinity False) values"

subsection \<open>mod.rs\<close>

definition js_safe_integer :: "f64 \<Rightarrow> bool" where
  "js_safe_integer v \<longleftrightarrow> is_finite v \<and> feq (ffract v) f64_zero \<and> fle (fabs v) MAX_SAFE"

lemma js_safe_integer_eq: "js_safe_integer v = is_safe_integer v"
  by (simp add: js_safe_integer_def is_safe_integer_def)

definition number_to_js_string :: "(f64 \<Rightarrow> string) \<Rightarrow> f64 \<Rightarrow> string" where
  "number_to_js_string js value = (if js_safe_integer value then dec_int (as_i64 value) else js value)"

definition fold_negative_zero :: "f64 \<Rightarrow> f64" where
  "fold_negative_zero value = (if feq value f64_zero then Finite False 0 else value)"

definition code_units :: "string \<Rightarrow> nat list" where
  "code_units s = map of_char s"

definition is_ascii :: "string \<Rightarrow> bool" where
  "is_ascii s \<longleftrightarrow> (\<forall>c \<in> set s. (of_char c :: nat) < 128)"

definition cmp_js_code_units :: "string \<Rightarrow> string \<Rightarrow> ordering" where
  "cmp_js_code_units first second =
    (if is_ascii first \<and> is_ascii second then cmp_of (as_bytes first) (as_bytes second)
     else cmp_of (code_units first) (code_units second))"

definition cyclic_token_index :: "nat \<Rightarrow> bool \<Rightarrow> nat \<Rightarrow> nat \<Rightarrow> nat" where
  "cyclic_token_index n reversed offset position =
    (let rotated = (offset + position) mod n in if reversed then n - 1 - rotated else rotated)"

definition cyclic_key_code_units :: "string list \<Rightarrow> bool \<Rightarrow> nat \<Rightarrow> nat list" where
  "cyclic_key_code_units toks reversed offset =
    concat (map (\<lambda>position.
      code_units (toks ! cyclic_token_index (length toks) reversed offset position) @
      (if position + 1 < length toks then [59] else [])) [0..<length toks])"

text \<open>One step of the search for the least candidate.\<close>

definition better_candidate :: "string list \<Rightarrow> bool \<times> nat \<Rightarrow> bool \<times> nat \<Rightarrow> bool \<times> nat" where
  "better_candidate toks best cand =
    (if cand = (False, 0) then best
     else if cmp_of (cyclic_key_code_units toks (fst cand) (snd cand))
         (cyclic_key_code_units toks (fst best) (snd best)) = Less then cand else best)"

definition canonical_bidirectional_cyclic_key :: "string list \<Rightarrow> string" where
  "canonical_bidirectional_cyclic_key toks =
    (if toks = [] then ''''
     else let n = length toks;
         best = foldl (better_candidate toks) (False, 0)
           (concat (map (\<lambda>reversed. map (Pair reversed) [0..<n]) [False, True]))
       in concat (map (\<lambda>position. (if 0 < position then '';'' else []) @
           toks ! cyclic_token_index n (fst best) (snd best) position) [0..<n]))"

subsection \<open>String order\<close>

lemma of_char_inject: "(of_char c :: nat) = of_char d \<longleftrightarrow> c = d"
  by simp

lemma code_units_inject: "code_units s = code_units t \<longleftrightarrow> s = t"
  unfolding code_units_def by (rule inj_map_eq_map) (simp add: inj_def)

lemma as_bytes_ascii: "is_ascii s \<Longrightarrow> as_bytes s = code_units s"
  by (induction s) (auto simp: as_bytes_def code_units_def is_ascii_def)

lemma cmp_js_code_units_eq: "cmp_js_code_units a b = cmp_of (code_units a) (code_units b)"
  by (simp add: cmp_js_code_units_def as_bytes_ascii)

subsection \<open>Cyclic keys\<close>

fun joined :: "string list \<Rightarrow> string" where
  "joined [] = []"
| "joined [t] = t"
| "joined (t # ts) = t @ '';'' @ joined ts"

definition cyclic_walk :: "string list \<Rightarrow> bool \<times> nat \<Rightarrow> string list" where
  "cyclic_walk ts c = rotate (snd c) (if fst c then rev ts else ts)"

lemma cyclic_walk_nth:
  assumes "p < length ts" "o' < length ts"
  shows "ts ! cyclic_token_index (length ts) r o' p = cyclic_walk ts (r, o') ! p"
proof -
  have "0 < length ts" using assms by linarith
  then have m: "(o' + p) mod length ts < length ts" by simp
  show ?thesis
    using assms m by (simp add: cyclic_token_index_def cyclic_walk_def nth_rotate rev_nth Let_def)
qed

lemma joined_snoc: "ts \<noteq> [] \<Longrightarrow> joined (ts @ [t]) = joined ts @ '';'' @ t"
  by (induction ts rule: joined.induct) auto

lemma code_units_append: "code_units (a @ b) = code_units a @ code_units b"
  by (simp add: code_units_def)

lemma joined_front: "concat (map (\<lambda>p. (if 0 < p then '';'' else []) @ ts ! p) [0..<length ts]) = joined ts"
proof (induction ts rule: rev_induct)
  case (snoc t ts)
  have "map (\<lambda>p. (if 0 < p then '';'' else []) @ (ts @ [t]) ! p) [0..<length ts] =
    map (\<lambda>p. (if 0 < p then '';'' else []) @ ts ! p) [0..<length ts]"
    by (intro map_cong) (auto simp: nth_append)
  then have "concat (map (\<lambda>p. (if 0 < p then '';'' else []) @ (ts @ [t]) ! p) [0..<length ts]) = joined ts"
    by (simp only: snoc)
  then show ?case by (cases "ts = []") (auto simp: joined_snoc)
qed simp

lemma joined_back:
  "concat (map (\<lambda>p. code_units (ts ! p) @ (if p + 1 < length ts then [59] else [])) [0..<length ts]) =
   code_units (joined ts)"
proof (induction ts rule: joined.induct)
  case (3 t u ts)
  let ?n = "length (u # ts)"
  have "map (\<lambda>p. code_units ((t # u # ts) ! p) @ (if p + 1 < length (t # u # ts) then [59] else [])) [0..<Suc ?n] =
    (code_units t @ [59]) # map (\<lambda>p. code_units ((u # ts) ! p) @ (if p + 1 < ?n then [59] else [])) [0..<?n]"
    by (subst upt_conv_Cons) (simp_all add: map_Suc_upt [symmetric] del: upt_Suc)
  then have "concat (map (\<lambda>p. code_units ((t # u # ts) ! p) @ (if p + 1 < length (t # u # ts) then [59] else [])) [0..<Suc ?n])
    = code_units t @ 59 # code_units (joined (u # ts))"
    by (simp only: concat.simps 3 append.simps append_assoc)
  then show ?case by (simp only: list.size joined.simps add_Suc_right add_0_right code_units_append) (simp add: code_units_def)
qed (simp_all add: code_units_def)

lemma cyclic_key_code_units_eq:
  assumes "n < length ts"
  shows "cyclic_key_code_units ts r n = code_units (joined (cyclic_walk ts (r, n)))"
proof -
  have l: "length (cyclic_walk ts (r, n)) = length ts" by (simp add: cyclic_walk_def)
  have "map (\<lambda>p. code_units (ts ! cyclic_token_index (length ts) r n p) @ (if p + 1 < length ts then [59] else [])) [0..<length ts]
    = map (\<lambda>p. code_units (cyclic_walk ts (r, n) ! p) @ (if p + 1 < length ts then [59] else [])) [0..<length ts]"
    using assms by (intro map_cong) (simp_all add: cyclic_walk_nth)
  then show ?thesis
    using joined_back [of "cyclic_walk ts (r, n)"] by (simp only: cyclic_key_code_units_def l)
qed

definition candidates :: "string list \<Rightarrow> (bool \<times> nat) list" where
  "candidates ts = concat (map (\<lambda>r. map (Pair r) [0..<length ts]) [False, True])"

lemma set_candidates: "set (candidates ts) = UNIV \<times> {..<length ts}"
  by (auto simp: candidates_def)

definition joined_walk :: "string list \<Rightarrow> bool \<times> nat \<Rightarrow> string" where
  "joined_walk ts c = joined (cyclic_walk ts c)"

text \<open>The fold keeps the least candidate.\<close>

lemma fold_better:
  assumes "set cs \<subseteq> set (candidates ts)" and "b \<in> set (candidates ts)"
    and "cmp_of (code_units (joined_walk ts b)) (code_units (joined_walk ts (False, 0))) \<noteq> Greater"
  shows "foldl (better_candidate ts) b cs \<in> set (candidates ts) \<and>
    (\<forall>c \<in> insert b (set cs). code_units (joined_walk ts (foldl (better_candidate ts) b cs)) \<le> code_units (joined_walk ts c))"
  using assms
proof (induction cs arbitrary: b)
  case (Cons c cs)
  let ?u = "\<lambda>c. code_units (joined_walk ts c)" and ?b = "better_candidate ts b c"
  have k: "cyclic_key_code_units ts (fst c) (snd c) = ?u c" "cyclic_key_code_units ts (fst b) (snd b) = ?u b"
    using Cons.prems(1,2) by (auto simp: cyclic_key_code_units_eq joined_walk_def set_candidates)
  have b: "?b \<in> set (candidates ts)" "?u ?b \<le> ?u b" "?u ?b \<le> ?u c" "?u ?b \<le> ?u (False, 0)"
    using Cons.prems by (auto simp: better_candidate_def k cmp_of_def not_less split: if_splits)
  then have "cmp_of (?u ?b) (?u (False, 0)) \<noteq> Greater" by (simp add: cmp_of_def)
  from Cons.IH [OF _ b(1) this] Cons.prems(1)
  have "foldl (better_candidate ts) ?b cs \<in> set (candidates ts) \<and>
    (\<forall>c \<in> insert ?b (set cs). ?u (foldl (better_candidate ts) ?b cs) \<le> ?u c)" by simp
  with b(2,3) show ?case by (auto intro: order_trans)
qed simp

text \<open>The key is the least joined walk of the cycle, in either direction.\<close>

lemma key_least:
  assumes "ts \<noteq> []"
  obtains c where "c \<in> set (candidates ts)" "canonical_bidirectional_cyclic_key ts = joined_walk ts c"
    "\<forall>d \<in> set (candidates ts). code_units (joined_walk ts c) \<le> code_units (joined_walk ts d)"
proof -
  let ?c = "foldl (better_candidate ts) (False, 0) (candidates ts)"
  have z: "(False, 0) \<in> set (candidates ts)" using assms by (simp add: set_candidates)
  have f: "?c \<in> set (candidates ts)"
    "\<forall>d \<in> set (candidates ts). code_units (joined_walk ts ?c) \<le> code_units (joined_walk ts d)"
    using fold_better [OF subset_refl z] by (auto simp: cmp_of_def)
  obtain r n where rn: "?c = (r, n)" by (cases ?c)
  have n: "n < length ts" using f(1) unfolding rn set_candidates by simp
  have l: "length (cyclic_walk ts (r, n)) = length ts" by (simp add: cyclic_walk_def)
  have "map (\<lambda>p. (if 0 < p then '';'' else []) @ ts ! cyclic_token_index (length ts) r n p) [0..<length ts]
    = map (\<lambda>p. (if 0 < p then '';'' else []) @ cyclic_walk ts (r, n) ! p) [0..<length ts]"
    using n by (intro map_cong) (simp_all add: cyclic_walk_nth)
  then have "concat (map (\<lambda>p. (if 0 < p then '';'' else []) @ ts ! cyclic_token_index (length ts) r n p) [0..<length ts])
    = joined_walk ts (r, n)"
    using joined_front [of "cyclic_walk ts (r, n)"] by (simp only: l joined_walk_def)
  then have "canonical_bidirectional_cyclic_key ts = joined_walk ts ?c"
    using assms rn by (simp add: canonical_bidirectional_cyclic_key_def candidates_def Let_def)
  then show ?thesis by (rule that [OF f(1) _ f(2)])
qed

lemma same_cycle_walk: "same_cycle ts (cyclic_walk ts c)"
  by (cases c) (auto simp: same_cycle_def cyclic_walk_def)

lemma same_cycle_candidate:
  assumes "same_cycle ts us" and "ts \<noteq> []"
  obtains c where "c \<in> set (candidates ts)" "us = cyclic_walk ts c"
proof -
  have z: "0 < length ts" using assms(2) by simp
  consider n where "us = rotate n ts" | n where "us = rotate n (rev ts)" using assms(1) unfolding same_cycle_def by blast
  then show ?thesis
  proof cases
    case 1
    then have "us = cyclic_walk ts (False, n mod length ts)" by (simp add: cyclic_walk_def rotate_conv_mod [symmetric])
    with z show ?thesis by (intro that) (auto simp: set_candidates)
  next
    case 2
    then have "us = cyclic_walk ts (True, n mod length ts)" by (simp add: cyclic_walk_def) (metis length_rev rotate_conv_mod)
    with z show ?thesis by (intro that) (auto simp: set_candidates)
  qed
qed

lemma joined_inject:
  assumes "joined ts = joined us" and "ts \<noteq> []" and "us \<noteq> []"
    and "\<forall>t \<in> set ts \<union> set us. CHR '';'' \<notin> set t"
  shows "ts = us"
  using assms
proof (induction ts arbitrary: us rule: joined.induct)
  case (2 t)
  then obtain t' us' where us: "us = t' # us'" by (cases us) auto
  then show ?case using 2 by (cases us') auto
next
  case (3 t v ts)
  then obtain t' v' us' where us: "us = t' # v' # us'" by (cases us; cases "tl us") auto
  have "takeWhile (\<lambda>c. c \<noteq> CHR '';'') (joined (t # v # ts)) = t" "takeWhile (\<lambda>c. c \<noteq> CHR '';'') (joined us) = t'"
    using 3(5) by (auto simp: us takeWhile_append)
  then have "t = t'" using 3(2) by simp
  then show ?case using 3 by (auto simp: us)
qed auto

text \<open>
  C35. \<open>canonical_bidirectional_cyclic_key\<close>, which compares virtual joined strings and builds only the
  winner, answers the least \<open>;\<close>-joined string over every rotation of the tokens in either direction;
  and when no token contains the separator, two nonempty cycles have the same key exactly when one is
  a rotation of the other or of its reversal. Tokens are strings of code points below 256, whose
  UTF-16 code units are the code points.
\<close>

theorem cyclic_key_canonical:
  assumes "ts \<noteq> []" and "us \<noteq> []"
  shows "(\<exists>vs. same_cycle ts vs \<and> canonical_bidirectional_cyclic_key ts = joined vs) \<and>
    (\<forall>vs. same_cycle ts vs \<longrightarrow> cmp_js_code_units (canonical_bidirectional_cyclic_key ts) (joined vs) \<noteq> Greater) \<and>
    ((\<forall>t \<in> set ts \<union> set us. CHR '';'' \<notin> set t) \<longrightarrow>
      (canonical_bidirectional_cyclic_key ts = canonical_bidirectional_cyclic_key us \<longleftrightarrow> same_cycle ts us))"
proof -
  obtain c where c: "c \<in> set (candidates ts)" "canonical_bidirectional_cyclic_key ts = joined (cyclic_walk ts c)"
    "\<forall>d \<in> set (candidates ts). code_units (joined_walk ts c) \<le> code_units (joined_walk ts d)"
    using key_least [OF assms(1)] by (metis joined_walk_def)
  obtain d where d: "d \<in> set (candidates us)" "canonical_bidirectional_cyclic_key us = joined (cyclic_walk us d)"
    "\<forall>e \<in> set (candidates us). code_units (joined_walk us d) \<le> code_units (joined_walk us e)"
    using key_least [OF assms(2)] by (metis joined_walk_def)
  have least: "code_units (joined (cyclic_walk ts c)) \<le> code_units (joined vs)" if "same_cycle ts vs" for vs
    using same_cycle_candidate [OF that assms(1)] c(3) by (metis joined_walk_def)
  have least': "code_units (joined (cyclic_walk us d)) \<le> code_units (joined vs)" if "same_cycle us vs" for vs
    using same_cycle_candidate [OF that assms(2)] d(3) by (metis joined_walk_def)
  have "same_cycle ts us"
    if s: "\<forall>t \<in> set ts \<union> set us. CHR '';'' \<notin> set t"
      and e: "canonical_bidirectional_cyclic_key ts = canonical_bidirectional_cyclic_key us"
  proof -
    have "cyclic_walk ts c = cyclic_walk us d"
      using e s assms c(2) d(2) by (intro joined_inject) (auto simp: cyclic_walk_def split: if_splits)
    then show ?thesis using same_cycle_walk [of ts c] same_cycle_walk [of us d] same_cycle_sym same_cycle_trans by metis
  qed
  moreover have "canonical_bidirectional_cyclic_key ts = canonical_bidirectional_cyclic_key us" if "same_cycle ts us"
  proof -
    have "same_cycle ts (cyclic_walk us d)" "same_cycle us (cyclic_walk ts c)"
      using that same_cycle_walk [of us d] same_cycle_walk [of ts c] same_cycle_sym same_cycle_trans by metis+
    from least [OF this(1)] least' [OF this(2)] show ?thesis using c(2) d(2) by (simp add: code_units_inject)
  qed
  moreover have "cmp_js_code_units (joined (cyclic_walk ts c)) (joined vs) \<noteq> Greater" if "same_cycle ts vs" for vs
    using least [OF that] by (auto simp: cmp_js_code_units_eq cmp_of_def)
  ultimately show ?thesis using c(2) same_cycle_walk [of ts c] by auto
qed

lemma cyclic_key_canonical_witness:
  "canonical_bidirectional_cyclic_key [''1,2'', ''1,20'', ''7''] = canonical_bidirectional_cyclic_key [''1,20'', ''1,2'', ''7'']"
proof -
  have "[''1,20'', ''1,2'', ''7''] = rotate 1 (rev [''1,2'', ''1,20'', ''7''])" by (simp add: rotate1_def)
  then have "same_cycle [''1,2'', ''1,20'', ''7''] [''1,20'', ''1,2'', ''7'']" unfolding same_cycle_def by blast
  then show ?thesis
    using cyclic_key_canonical [of "[''1,2'', ''1,20'', ''7'']" "[''1,20'', ''1,2'', ''7'']"] by simp
qed

end
