(* ===== verification/Convex.thy ===== *)
theory Convex
  imports Predicates JsNumber
begin

text \<open>
  \<open>crates/polygon-nesting-core/src/geometry/convex.rs\<close>: the monotone-chain hull of floating-point
  points, axis-aligned bounds, translation, and the validation of a strictly convex ring.
\<close>

subsection \<open>Data\<close>

record bounds =
  min_x :: f64
  min_y :: f64
  max_x :: f64
  max_y :: f64

type_synonym polygon = "point list"

record polygon_with_bounds =
  pwb_polygon :: polygon
  pwb_bounds :: bounds

datatype strict_convex_boundary_validation = Valid int | Invalid string

subsection \<open>Convex hull\<close>

text \<open>The comparison panics on a NaN; the callers pass finite coordinates.\<close>

definition hull_point_ordering :: "point \<Rightarrow> point \<Rightarrow> ordering" where
  "hull_point_ordering l r =
    (if \<not> feq (px l) (px r) then (if flt (px l) (px r) then Less else Greater)
     else if flt (py l) (py r) then Less else if feq (py l) (py r) then Equal else Greater)"

fun deduplicate_sorted_points :: "point list \<Rightarrow> point list \<Rightarrow> point list" where
  "deduplicate_sorted_points unique_points [] = unique_points"
| "deduplicate_sorted_points unique_points (p # ps) =
    (if unique_points \<noteq> [] \<and> feq (px (last unique_points)) (px p) \<and> feq (py (last unique_points)) (py p)
     then deduplicate_sorted_points unique_points ps
     else deduplicate_sorted_points (unique_points @ [p]) ps)"

text \<open>The hull under construction, last point first.\<close>

fun pop_hull :: "robust \<Rightarrow> point \<Rightarrow> point list \<Rightarrow> point list" where
  "pop_hull robust p (last_point # previous_point # acc) =
    (if 0 < orientation robust previous_point last_point p then last_point # previous_point # acc
     else pop_hull robust p (previous_point # acc))"
| "pop_hull robust p acc = acc"

fun hull_half_loop :: "robust \<Rightarrow> point list \<Rightarrow> point list \<Rightarrow> point list" where
  "hull_half_loop robust acc [] = acc"
| "hull_half_loop robust acc (p # ps) = hull_half_loop robust (p # pop_hull robust p acc) ps"

definition build_hull_half :: "robust \<Rightarrow> point list \<Rightarrow> point list" where
  "build_hull_half robust ps = rev (hull_half_loop robust [] ps)"

definition compute_convex_hull :: "robust \<Rightarrow> point list \<Rightarrow> polygon" where
  "compute_convex_hull robust ps =
    (let unique_points = deduplicate_sorted_points [] (sort_by hull_point_ordering ps)
     in if length unique_points \<le> 2 then unique_points
        else let lower_hull = build_hull_half robust unique_points;
                 upper_hull = build_hull_half robust (rev unique_points)
             in butlast lower_hull @ butlast upper_hull)"

subsection \<open>Bounds\<close>

definition make_bounds :: "f64 \<Rightarrow> f64 \<Rightarrow> f64 \<Rightarrow> f64 \<Rightarrow> bounds option" where
  "make_bounds x0 y0 x1 y1 =
    (if \<not> is_finite x0 \<or> \<not> is_finite y0 \<or> \<not> is_finite x1 \<or> \<not> is_finite y1 \<or> flt x1 x0 \<or> flt y1 y0
     then None else Some \<lparr>min_x = x0, min_y = y0, max_x = x1, max_y = y1\<rparr>)"

definition widen :: "bounds \<Rightarrow> point \<Rightarrow> bounds" where
  "widen b p = \<lparr>min_x = js_min (min_x b) (px p), min_y = js_min (min_y b) (py p),
    max_x = js_max (max_x b) (px p), max_y = js_max (max_y b) (py p)\<rparr>"

fun bounds_loop :: "bounds \<Rightarrow> point list \<Rightarrow> bounds option" where
  "bounds_loop b [] = make_bounds (min_x b) (min_y b) (max_x b) (max_y b)"
| "bounds_loop b (p # ps) =
    (if \<not> is_finite (px p) \<or> \<not> is_finite (py p) then None else bounds_loop (widen b p) ps)"

definition point_bounds :: "point \<Rightarrow> bounds" where
  "point_bounds p = \<lparr>min_x = px p, min_y = py p, max_x = px p, max_y = py p\<rparr>"

definition bounds_for_points :: "point list \<Rightarrow> bounds option" where
  "bounds_for_points ps = (case ps of [] \<Rightarrow> None
    | first_point # rest \<Rightarrow>
        if \<not> is_finite (px first_point) \<or> \<not> is_finite (py first_point) then None
        else bounds_loop (point_bounds first_point) rest)"

definition translated :: "point \<Rightarrow> point \<Rightarrow> point" where
  "translated p t = \<lparr>px = fadd (px p) (px t), py = fadd (py p) (py t)\<rparr>"

fun translate_loop :: "point \<Rightarrow> point list \<Rightarrow> bounds \<Rightarrow> point list \<Rightarrow> polygon_with_bounds option" where
  "translate_loop t done b [] = map_option (\<lambda>bs. \<lparr>pwb_polygon = done, pwb_bounds = bs\<rparr>)
    (make_bounds (min_x b) (min_y b) (max_x b) (max_y b))"
| "translate_loop t done b (p # ps) = (let q = translated p t in
    if \<not> is_finite (px q) \<or> \<not> is_finite (py q) then None else translate_loop t (done @ [q]) (widen b q) ps)"

definition translate_polygon_with_bounds :: "polygon \<Rightarrow> point \<Rightarrow> polygon_with_bounds option" where
  "translate_polygon_with_bounds polygon t = (case polygon of [] \<Rightarrow> None
    | first_point # rest \<Rightarrow> (let q = translated first_point t in
        if \<not> is_finite (px q) \<or> \<not> is_finite (py q) then None
        else translate_loop t [q] (point_bounds q) rest))"

definition are_disjoint :: "bounds \<Rightarrow> bounds \<Rightarrow> bool" where
  "are_disjoint first second \<longleftrightarrow> flt (max_x first) (min_x second) \<or> flt (max_x second) (min_x first) \<or>
    flt (max_y first) (min_y second) \<or> flt (max_y second) (min_y first)"

subsection \<open>Strictly convex rings\<close>

type_synonym edge = "point \<times> point"

text \<open>The edges of an implicitly closed ring, in order; the loops that index modulo the length.\<close>

definition polygon_edges :: "polygon \<Rightarrow> edge list" where
  "polygon_edges ps = map (\<lambda>i. (ps ! i, ps ! ((i + 1) mod length ps))) [0..<length ps]"

definition point_is_on_segment :: "point \<Rightarrow> edge \<Rightarrow> bool" where
  "point_is_on_segment p e \<longleftrightarrow>
    fle (js_min (px (fst e)) (px (snd e))) (px p) \<and> fle (px p) (js_max (px (fst e)) (px (snd e))) \<and>
    fle (js_min (py (fst e)) (py (snd e))) (py p) \<and> fle (py p) (js_max (py (fst e)) (py (snd e)))"

definition segments_intersect :: "robust \<Rightarrow> edge \<Rightarrow> edge \<Rightarrow> bool" where
  "segments_intersect robust first second =
    (let first_start_turn = orientation robust (fst first) (snd first) (fst second);
         first_end_turn = orientation robust (fst first) (snd first) (snd second);
         second_start_turn = orientation robust (fst second) (snd second) (fst first);
         second_end_turn = orientation robust (fst second) (snd second) (snd first)
     in if first_start_turn = 0 \<and> point_is_on_segment (fst second) first then True
        else if first_end_turn = 0 \<and> point_is_on_segment (snd second) first then True
        else if second_start_turn = 0 \<and> point_is_on_segment (fst first) second then True
        else if second_end_turn = 0 \<and> point_is_on_segment (snd first) second then True
        else first_start_turn \<noteq> first_end_turn \<and> second_start_turn \<noteq> second_end_turn)"

definition are_adjacent_edges :: "nat \<Rightarrow> nat \<Rightarrow> nat \<Rightarrow> bool" where
  "are_adjacent_edges i j n \<longleftrightarrow> j = i + 1 \<or> i = 0 \<and> j = n - 1"

definition has_self_intersection :: "robust \<Rightarrow> edge list \<Rightarrow> bool" where
  "has_self_intersection robust edges \<longleftrightarrow> (\<exists>i \<in> set [0..<length edges]. \<exists>j \<in> set [i + 1..<length edges].
    \<not> are_adjacent_edges i j (length edges) \<and> segments_intersect robust (edges ! i) (edges ! j))"

definition points_downwards :: "edge \<Rightarrow> bool" where
  "points_downwards e \<longleftrightarrow> flt (py (snd e)) (py (fst e))"

definition completes_one_revolution :: "edge list \<Rightarrow> bool" where
  "completes_one_revolution edges \<longleftrightarrow> length (filter (\<lambda>i. points_downwards (edges ! i) \<and>
    \<not> points_downwards (edges ! ((i + 1) mod length edges))) [0..<length edges]) = 1"

text \<open>\<open>f64::from_bits\<close> of the biased exponents: the powers of two themselves.\<close>

definition MIN_LINEAR_TOPOLOGY_NON_ZERO_COORDINATE :: f64 where
  "MIN_LINEAR_TOPOLOGY_NON_ZERO_COORDINATE = Finite False (1 / 2 ^ 450)"

definition MAX_LINEAR_TOPOLOGY_COORDINATE :: f64 where
  "MAX_LINEAR_TOPOLOGY_COORDINATE = Finite False (2 ^ 500)"

definition coordinate_supports_linear_topology :: "f64 \<Rightarrow> bool" where
  "coordinate_supports_linear_topology v = (let magnitude = fabs v in feq magnitude f64_zero \<or>
    fle MIN_LINEAR_TOPOLOGY_NON_ZERO_COORDINATE magnitude \<and> fle magnitude MAX_LINEAR_TOPOLOGY_COORDINATE)"

definition supports_linear_topology_decision :: "point list \<Rightarrow> bool" where
  "supports_linear_topology_decision ps = list_all (\<lambda>p.
    coordinate_supports_linear_topology (px p) \<and> coordinate_supports_linear_topology (py p)) ps"

record turn_scan =
  scan_winding :: "int option"
  scan_failure :: "string option"

fun scan_corners :: "robust \<Rightarrow> (point \<times> point \<times> point) list \<Rightarrow> int option \<Rightarrow> turn_scan" where
  "scan_corners robust [] winding = \<lparr>scan_winding = winding, scan_failure = None\<rparr>"
| "scan_corners robust ((previous, current, following) # corners) winding =
    (let turn = orientation robust previous current following in
     if turn = 0 then \<lparr>scan_winding = winding, scan_failure = Some ''polygon must not contain collinear vertices.''\<rparr>
     else case winding of
         None \<Rightarrow> scan_corners robust corners (Some turn)
       | Some established_winding \<Rightarrow>
           if turn \<noteq> established_winding
           then \<lparr>scan_winding = winding,
             scan_failure = Some ''polygon must be strictly convex with one consistent winding.''\<rparr>
           else scan_corners robust corners winding)"

definition corners :: "point list \<Rightarrow> (point \<times> point \<times> point) list" where
  "corners ps = map (\<lambda>i. (ps ! ((i + length ps - 1) mod length ps), ps ! i, ps ! ((i + 1) mod length ps))) [0..<length ps]"

definition scan_turns :: "robust \<Rightarrow> point list \<Rightarrow> turn_scan" where
  "scan_turns robust ps = scan_corners robust (corners ps) None"

definition validate_strict_boundary :: "robust \<Rightarrow> point list \<Rightarrow> strict_convex_boundary_validation" where
  "validate_strict_boundary robust ps =
    (if length ps < 3 then Invalid ''polygon must contain at least three vertices.''
     else if list_ex (\<lambda>p. \<not> is_finite (px p) \<or> \<not> is_finite (py p)) ps then Invalid ''polygon coordinates must be finite.''
     else let edges = polygon_edges ps in
       if list_ex (\<lambda>(s, e). feq (px s) (px e) \<and> feq (py s) (py e)) edges
       then Invalid ''polygon must not repeat adjacent vertices.''
       else let turn_scan = scan_turns robust ps;
                self_intersects = (if scan_failure turn_scan = None \<and> supports_linear_topology_decision ps
                  then \<not> completes_one_revolution edges else has_self_intersection robust edges)
            in if self_intersects then Invalid ''polygon must form a simple ring without self-intersections.''
               else case scan_failure turn_scan of
                   Some failure \<Rightarrow> Invalid failure
                 | None \<Rightarrow> (case scan_winding turn_scan of
                     Some winding \<Rightarrow> Valid winding
                   | None \<Rightarrow> Invalid ''polygon must have a non-zero area.''))"

end
