(* ===== verification/Domain.thy ===== *)
theory Domain
  imports Convex
begin

text \<open>
  The trusted carriers of \<open>crates/polygon-nesting-core/src/domain\<close> the geometry and search theories
  share. Identities are newtypes over strings; an \<open>Arc\<close> is the address of an immutable value.
\<close>

datatype transform_reason = Orthogonal | Edge_alignment | Configured

record irregular_transform =
  translate_x :: f64
  translate_y :: f64
  transform_rotation_deg :: f64
  transform_mirrored :: bool

record transform_candidate =
  candidate_index :: f64
  candidate_rotation_deg :: f64
  candidate_mirrored :: bool
  candidate_reason :: transform_reason

record transformed_collision_geometry =
  collision_source_piece_id :: string
  collision_transform :: transform_candidate
  collision_polygon :: polygon
  collision_bounds :: bounds

record irregular_placement =
  placement_piece_id :: "string option"
  placement_source_piece_id :: string
  placement_reference :: "point option"
  placement_transform :: irregular_transform

record irregular_placed_piece =
  piece_placement :: irregular_placement
  piece_collision_geometry :: transformed_collision_geometry

record domain_sheet =
  domain_sheet_width :: f64
  domain_sheet_height :: f64
  domain_sheet_label :: string

text \<open>An address, and the immutable values behind the addresses.\<close>

type_synonym arc = nat
type_synonym pieces_at = "arc \<Rightarrow> irregular_placed_piece"

end
