(* ===== verification/NfpBoundary.thy ===== *)
theory NfpBoundary
  imports Domain
begin

text \<open>
  The construction part of \<open>nfp_ifp/boundary_core.rs\<close>: the relative no-fit polygon of a fixed and a moving
  convex ring, by the hull of all vertex sums or by merging edges, and the clean-up of a translated
  ring. Vectors of indices are lists; the queue of pending indices is the part not yet visited.
\<close>

definition ORIGIN :: point where
  "ORIGIN = \<lparr>px = Finite False 0, py = Finite False 0\<rparr>"

datatype nfp_construction_algorithm = Linear_Edge_Merge | Vertex_Pair_Hull

definition stable_start :: "point list \<Rightarrow> nat" where
  "stable_start ps = foldl (\<lambda>start_index i. let candidate = ps ! i; current = ps ! start_index in
     if flt (py candidate) (py current) \<or> feq (py candidate) (py current) \<and> flt (px candidate) (px current)
     then i else start_index) 0 [1..<length ps]"

definition rotate_to_stable_start :: "point list \<Rightarrow> point list" where
  "rotate_to_stable_start ps = (let start_index = stable_start ps in drop start_index ps @ take start_index ps)"

definition points_equal :: "point \<Rightarrow> point \<Rightarrow> bool" where
  "points_equal p q \<longleftrightarrow> feq (px p) (px q) \<and> feq (py p) (py q)"

definition point_is_between :: "point \<Rightarrow> point \<Rightarrow> point \<Rightarrow> bool" where
  "point_is_between a p b \<longleftrightarrow> fle (js_min (px a) (px b)) (px p) \<and> fle (px p) (js_max (px a) (px b)) \<and>
    fle (js_min (py a) (py b)) (py p) \<and> fle (py p) (js_max (py a) (py b))"

definition sum_points :: "point \<Rightarrow> point \<Rightarrow> string \<Rightarrow> string + point" where
  "sum_points p q operation = (let x = fadd (px p) (px q); y = fadd (py p) (py q) in
     if \<not> is_finite x \<or> \<not> is_finite y then Inl (operation @ '' must produce finite coordinates.'')
     else Inr \<lparr>px = x, py = y\<rparr>)"

definition negated :: "point \<Rightarrow> point" where
  "negated p = \<lparr>px = fneg (px p), py = fneg (py p)\<rparr>"

text \<open>A validated boundary, turned to its stable start.\<close>

definition stable_boundary :: "robust \<Rightarrow> point list \<Rightarrow> string + polygon" where
  "stable_boundary robust ps = (case validate_strict_boundary robust ps of
     Invalid message \<Rightarrow> Inl message | Valid winding \<Rightarrow> Inr (rotate_to_stable_start ps))"

subsection \<open>Inputs\<close>

definition finite_points_message :: "point list \<Rightarrow> string option" where
  "finite_points_message ps = (if list_all (\<lambda>p. is_finite (px p) \<and> is_finite (py p)) ps then None
    else Some ''polygon coordinates must be finite.'')"

definition validate_relative_nfp_inputs :: "robust \<Rightarrow> point list \<Rightarrow> point list \<Rightarrow> string + int \<times> int" where
  "validate_relative_nfp_inputs robust fixed moving =
    (case finite_points_message fixed of Some message \<Rightarrow> Inl message | None \<Rightarrow>
     case finite_points_message moving of Some message \<Rightarrow> Inl message | None \<Rightarrow>
     case validate_strict_boundary robust fixed of Invalid message \<Rightarrow> Inl message | Valid fixed_winding \<Rightarrow>
     case validate_strict_boundary robust moving of Invalid message \<Rightarrow> Inl message | Valid moving_winding \<Rightarrow>
     Inr (fixed_winding, moving_winding))"

subsection \<open>The hull of the vertex sums\<close>

fun sum_row :: "point \<Rightarrow> point list \<Rightarrow> point list \<Rightarrow> string + point list" where
  "sum_row p [] acc = Inr acc"
| "sum_row p (q # qs) acc = (case sum_points p q ''Minkowski sum'' of Inl message \<Rightarrow> Inl message
    | Inr r \<Rightarrow> sum_row p qs (acc @ [r]))"

fun sum_rows :: "point list \<Rightarrow> point list \<Rightarrow> point list \<Rightarrow> string + point list" where
  "sum_rows [] qs acc = Inr acc"
| "sum_rows (p # ps) qs acc = (case sum_row p qs acc of Inl message \<Rightarrow> Inl message | Inr a \<Rightarrow> sum_rows ps qs a)"

definition compute_relative_nfp_boundary_reference :: "robust \<Rightarrow> point list \<Rightarrow> point list \<Rightarrow> string + polygon" where
  "compute_relative_nfp_boundary_reference robust fixed moving =
    and_then (validate_relative_nfp_inputs robust fixed moving) (\<lambda>_.
    and_then (sum_rows fixed (map negated moving) []) (\<lambda>minkowski_points.
      stable_boundary robust (compute_convex_hull robust minkowski_points)))"

subsection \<open>Cleaning a ring\<close>

record peel =
  previous_indexes :: "nat list"
  next_indexes :: "nat list"
  active :: "bool list"
  pending_indexes :: "nat list"
  active_count :: nat

definition TOO_FEW :: string where
  "TOO_FEW = ''polygon must contain at least three vertices.''"

definition redundant :: "robust \<Rightarrow> point \<Rightarrow> point \<Rightarrow> point \<Rightarrow> bool" where
  "redundant robust previous current next_p \<longleftrightarrow>
    (points_equal previous current \<or> points_equal current next_p) \<or>
    (orientation robust previous current next_p = 0 \<and> point_is_between previous current next_p)"

definition peel_init :: "nat \<Rightarrow> peel" where
  "peel_init len = \<lparr>previous_indexes = map (\<lambda>i. (i + len - 1) mod len) [0..<len],
    next_indexes = map (\<lambda>i. (i + 1) mod len) [0..<len], active = replicate len True,
    pending_indexes = [0..<len], active_count = len\<rparr>"

text \<open>One round of the loop, for the pending index \<open>i\<close>; the rest of the queue is in the state.\<close>

definition peel_round :: "robust \<Rightarrow> point list \<Rightarrow> nat \<Rightarrow> peel \<Rightarrow> string + peel" where
  "peel_round robust ps i s =
    (if \<not> active s ! i then Inr s
     else if active_count s < 3 then Inl TOO_FEW
     else let p = previous_indexes s ! i; n = next_indexes s ! i in
       if \<not> redundant robust (ps ! p) (ps ! i) (ps ! n) then Inr s
       else if active_count s - 1 < 3 then Inl TOO_FEW
       else Inr (s\<lparr>active := (active s)[i := False], active_count := active_count s - 1,
         next_indexes := (next_indexes s)[p := n], previous_indexes := (previous_indexes s)[n := p],
         pending_indexes := pending_indexes s @ [p, n]\<rparr>))"

lemma peel_round_measure:
  assumes "peel_round robust ps i (s\<lparr>pending_indexes := rest\<rparr>) = Inr s'" "pending_indexes s = i # rest"
  shows "2 * active_count s' + length (pending_indexes s') < 2 * active_count s + length (pending_indexes s)"
  using assms by (auto simp: peel_round_def Let_def split: if_splits)

function peel_loop :: "robust \<Rightarrow> point list \<Rightarrow> peel \<Rightarrow> string + peel" where
  "peel_loop robust ps s = (case pending_indexes s of [] \<Rightarrow> Inr s
    | i # rest \<Rightarrow> (case peel_round robust ps i (s\<lparr>pending_indexes := rest\<rparr>) of
        Inl message \<Rightarrow> Inl message | Inr s' \<Rightarrow> peel_loop robust ps s'))"
  by pat_completeness auto
termination
  by (relation "measure (\<lambda>(robust, ps, s). 2 * active_count s + length (pending_indexes s))")
    (auto dest: peel_round_measure)

declare peel_loop.simps [simp del]

text \<open>The closing walk follows the links until it is back at its start; \<open>None\<close> is a walk that never returns.\<close>

partial_function (option) walk_ring :: "point list \<Rightarrow> nat list \<Rightarrow> nat \<Rightarrow> nat \<Rightarrow> point list \<Rightarrow> point list option" where
  "walk_ring ps links first_index i acc = (let acc' = acc @ [ps ! i]; j = links ! i in
     if j = first_index then Some acc' else walk_ring ps links first_index j acc')"

fun position :: "bool list \<Rightarrow> nat option" where
  "position [] = None"
| "position (b # bs) = (if b then Some 0 else map_option Suc (position bs))"

definition canonicalize_translated_convex_ring :: "robust \<Rightarrow> point list \<Rightarrow> (string + polygon) option" where
  "canonicalize_translated_convex_ring robust ps =
    (if length ps < 3 then Some (Inl TOO_FEW)
     else case peel_loop robust ps (peel_init (length ps)) of Inl message \<Rightarrow> Some (Inl message)
       | Inr s \<Rightarrow> (case position (active s) of None \<Rightarrow> Some (Inl TOO_FEW)
         | Some first_active \<Rightarrow> (if \<not> 3 \<le> active_count s then Some (Inl TOO_FEW)
           else map_option (\<lambda>canonical_points.
             if length canonical_points \<noteq> active_count s then Inl ''polygon points must form a closed boundary.''
             else stable_boundary robust canonical_points)
             (walk_ring ps (next_indexes s) first_active first_active []))))"

subsection \<open>Merging edges\<close>

definition counter_clockwise_stable_points :: "point list \<Rightarrow> int \<Rightarrow> point list" where
  "counter_clockwise_stable_points ps winding = rotate_to_stable_start (if winding \<noteq> 1 then rev ps else ps)"

fun edge_vectors_from :: "point list \<Rightarrow> nat list \<Rightarrow> point list \<Rightarrow> string + point list" where
  "edge_vectors_from ps [] vectors = Inr vectors"
| "edge_vectors_from ps (i # is) vectors = (let start = ps ! i; end_p = ps ! ((i + 1) mod length ps);
      x = fsub (px end_p) (px start); y = fsub (py end_p) (py start) in
    if \<not> is_finite x \<or> \<not> is_finite y then Inl ''Minkowski edge arithmetic must produce finite vectors.''
    else edge_vectors_from ps is (vectors @ [\<lparr>px = x, py = y\<rparr>]))"

definition edge_vectors :: "point list \<Rightarrow> string + point list" where
  "edge_vectors ps = edge_vectors_from ps [0..<length ps] []"

definition edge_direction_half :: "point \<Rightarrow> int" where
  "edge_direction_half edge = (if flt (py ORIGIN) (py edge) \<or> feq (py edge) (py ORIGIN) \<and> fle (px ORIGIN) (px edge) then 0 else 1)"

definition compare_edge_directions :: "robust \<Rightarrow> point \<Rightarrow> point \<Rightarrow> int" where
  "compare_edge_directions robust e f =
    (let first_half = edge_direction_half e; second_half = edge_direction_half f in
     if first_half \<noteq> second_half then (if first_half < second_half then - 1 else 1)
     else let direction_turn = orientation robust ORIGIN e f in
       if 0 < direction_turn then - 1 else if direction_turn < 0 then 1 else 0)"

text \<open>The indices after one round of the merge.\<close>

definition merge_step :: "robust \<Rightarrow> point list \<Rightarrow> point list \<Rightarrow> nat \<Rightarrow> nat \<Rightarrow> nat \<times> nat" where
  "merge_step robust fixed_edges moving_edges i j =
    (if i < length fixed_edges \<and> j < length moving_edges then
       let direction_order = compare_edge_directions robust (fixed_edges ! i) (moving_edges ! j) in
       (if direction_order \<le> 0 then i + 1 else i, if 0 \<le> direction_order then j + 1 else j)
     else if i < length fixed_edges then (i + 1, j) else (i, j + 1))"

lemma merge_step_cases:
  "i < length fe \<or> j < length me \<Longrightarrow> merge_step robust fe me i j = (i', j') \<Longrightarrow>
    i \<le> i' \<and> j \<le> j' \<and> i + j < i' + j' \<and> (length fe \<le> i \<longrightarrow> i' = i) \<and> (length me \<le> j \<longrightarrow> j' = j) \<and> i' \<le> Suc i \<and> j' \<le> Suc j"
  by (auto simp: merge_step_def Let_def split: if_splits)

function merge_edges :: "robust \<Rightarrow> point list \<Rightarrow> point list \<Rightarrow> point list \<Rightarrow> point list \<Rightarrow> nat \<Rightarrow> nat \<Rightarrow>
    point list \<Rightarrow> string + point list" where
  "merge_edges robust fixed_boundary moving_boundary fixed_edges moving_edges i j acc =
    (if i < length fixed_edges \<or> j < length moving_edges then
       (let k = fst (merge_step robust fixed_edges moving_edges i j);
            l = snd (merge_step robust fixed_edges moving_edges i j) in
        case sum_points (fixed_boundary ! (k mod length fixed_boundary))
            (moving_boundary ! (l mod length moving_boundary)) ''Minkowski sum'' of
          Inl message \<Rightarrow> Inl message
        | Inr next_sum \<Rightarrow> merge_edges robust fixed_boundary moving_boundary fixed_edges moving_edges k l
            (if k < length fixed_edges \<or> l < length moving_edges then acc @ [next_sum] else acc))
     else Inr acc)"
  by pat_completeness auto
termination
proof (relation "measure (\<lambda>(robust, fb, mb, fe, me, i, j, acc). (length fe - i) + (length me - j))", goal_cases)
  case (2 robust fb mb fe me i j acc k l s)
  then have "merge_step robust fe me i j = (k, l)" by simp
  from merge_step_cases [OF 2(1) this] 2(1) show ?case by auto
qed simp

declare merge_edges.simps [simp del]

definition counter_clockwise_ring :: "point list \<Rightarrow> int \<Rightarrow> polygon" where
  "counter_clockwise_ring ps winding = rotate_to_stable_start (if winding = 1 then ps else rev ps)"

definition hull_ring :: "robust \<Rightarrow> point list \<Rightarrow> string + polygon" where
  "hull_ring robust boundary_points = (let boundary = compute_convex_hull robust boundary_points in
     case validate_strict_boundary robust boundary of
       Invalid message \<Rightarrow> Inl message | Valid winding \<Rightarrow> Inr (counter_clockwise_ring boundary winding))"

definition minkowski_boundary :: "robust \<Rightarrow> point list \<Rightarrow> point list \<Rightarrow> string + point list" where
  "minkowski_boundary robust fixed moving =
    and_then (validate_relative_nfp_inputs robust fixed moving) (\<lambda>(fixed_winding, moving_winding).
     let fixed_boundary = counter_clockwise_stable_points fixed fixed_winding;
         moving_boundary = counter_clockwise_stable_points (map negated moving) moving_winding in
     and_then (edge_vectors fixed_boundary) (\<lambda>fixed_edges.
     and_then (edge_vectors moving_boundary) (\<lambda>moving_edges.
     and_then (sum_points (fixed_boundary ! 0) (moving_boundary ! 0) ''Minkowski sum'') (\<lambda>initial_sum.
       merge_edges robust fixed_boundary moving_boundary fixed_edges moving_edges 0 0 [initial_sum]))))"

definition compute_relative_nfp_boundary_linear :: "robust \<Rightarrow> point list \<Rightarrow> point list \<Rightarrow> (string + polygon) option" where
  "compute_relative_nfp_boundary_linear robust fixed moving =
    (case minkowski_boundary robust fixed moving of Inl message \<Rightarrow> Some (Inl message) | Inr boundary_points \<Rightarrow>
       map_option (\<lambda>canonical_boundary.
         case canonical_boundary of
           Inl _ \<Rightarrow> hull_ring robust boundary_points
         | Inr ring \<Rightarrow> (case validate_strict_boundary robust ring of
               Valid winding \<Rightarrow> Inr (counter_clockwise_ring ring winding)
             | Invalid _ \<Rightarrow> hull_ring robust boundary_points))
       (canonicalize_translated_convex_ring robust boundary_points))"

fun compute_relative_nfp_boundary ::
    "robust \<Rightarrow> point list \<Rightarrow> point list \<Rightarrow> nfp_construction_algorithm \<Rightarrow> (string + polygon) option" where
  "compute_relative_nfp_boundary robust fixed moving Linear_Edge_Merge =
    compute_relative_nfp_boundary_linear robust fixed moving"
| "compute_relative_nfp_boundary robust fixed moving Vertex_Pair_Hull =
    Some (compute_relative_nfp_boundary_reference robust fixed moving)"

subsection \<open>From relative to sheet space\<close>

definition is_valid_cached_nfp_boundary :: "robust \<Rightarrow> polygon option \<Rightarrow> bool" where
  "is_valid_cached_nfp_boundary robust v = (case v of None \<Rightarrow> False
    | Some ps \<Rightarrow> \<not> length ps < 3 \<and> (case validate_strict_boundary robust ps of Invalid _ \<Rightarrow> False | Valid _ \<Rightarrow> True))"

definition canonicalize_translated_convex_ring_with_hull_fallback :: "robust \<Rightarrow> point list \<Rightarrow> string + polygon" where
  "canonicalize_translated_convex_ring_with_hull_fallback robust ps = stable_boundary robust (compute_convex_hull robust ps)"

fun translate_points :: "f64 \<Rightarrow> f64 \<Rightarrow> point list \<Rightarrow> point list \<Rightarrow> string + point list" where
  "translate_points dx dy [] acc = Inr acc"
| "translate_points dx dy (p # ps) acc = (let x = fadd (px p) dx; y = fadd (py p) dy in
    if \<not> is_finite x \<or> \<not> is_finite y then Inl ''fixed translation must produce finite coordinates.''
    else translate_points dx dy ps (acc @ [\<lparr>px = x, py = y\<rparr>]))"

definition translate_nfp_boundary :: "robust \<Rightarrow> irregular_transform \<Rightarrow> polygon \<Rightarrow> (string + polygon) option" where
  "translate_nfp_boundary robust t relative_boundary =
    (case translate_points (translate_x t) (translate_y t) relative_boundary [] of
       Inl message \<Rightarrow> Some (Inl message)
     | Inr translated_points \<Rightarrow> map_option (\<lambda>r. case r of
           Inr boundary \<Rightarrow> Inr boundary
         | Inl _ \<Rightarrow> canonicalize_translated_convex_ring_with_hull_fallback robust translated_points)
         (canonicalize_translated_convex_ring robust translated_points))"

end
