(* ===== verification/NfpRing.thy ===== *)
theory NfpRing
  imports NfpBoundary "HOL-Library.Sublist"
begin

text \<open>
  The doubly linked ring of \<open>canonicalize_translated_convex_ring\<close>: the links always join the active
  indices in order, so that the loop and the closing walk end and no index leaves the arrays.
\<close>

subsection \<open>Cyclic links\<close>

definition cyclic :: "('a \<Rightarrow> 'a \<Rightarrow> bool) \<Rightarrow> 'a list \<Rightarrow> bool" where
  "cyclic R zs \<longleftrightarrow> successively R (zs @ [hd zs])"

lemma cyclic_Cons: "zs \<noteq> [] \<Longrightarrow> cyclic R (z # zs) \<longleftrightarrow> R z (hd zs) \<and> successively R zs \<and> R (last zs) z"
  by (auto simp: cyclic_def successively_append_iff successively_Cons)

lemma cyclic_append:
  "xs \<noteq> [] \<Longrightarrow> ys \<noteq> [] \<Longrightarrow> cyclic R (xs @ ys) \<longleftrightarrow>
    successively R xs \<and> R (last xs) (hd ys) \<and> successively R ys \<and> R (last ys) (hd xs)"
  by (auto simp: cyclic_def successively_append_iff hd_append)

lemma cyclic_swap: "cyclic R (xs @ ys) \<longleftrightarrow> cyclic R (ys @ xs)"
  by (cases "xs = []"; cases "ys = []") (auto simp: cyclic_append)

lemma cyclic_iff_nth:
  assumes "zs \<noteq> []"
  shows "cyclic R zs \<longleftrightarrow> (\<forall>i < length zs. R (zs ! i) (zs ! ((i + 1) mod length zs)))"
proof -
  have "(zs @ [hd zs]) ! Suc i = zs ! ((i + 1) mod length zs)" if "i < length zs" for i
    using that assms by (cases "Suc i = length zs") (auto simp: nth_append hd_conv_nth)
  then show ?thesis by (auto simp: cyclic_def successively_conv_nth nth_append)
qed

definition linked :: "nat list \<Rightarrow> nat list \<Rightarrow> nat \<Rightarrow> nat \<Rightarrow> bool" where
  "linked previous following a b \<longleftrightarrow> following ! a = b \<and> previous ! b = a"

text \<open>Taking an index out of the ring.\<close>

lemma unlink:
  assumes c: "cyclic (linked previous following) (i # zs)" and d: "distinct zs" and n: "2 \<le> length zs"
    and b: "\<forall>z \<in> set zs. z < length previous \<and> z < length following"
  shows "previous ! i = last zs" "following ! i = hd zs"
    "cyclic (linked (previous[hd zs := last zs]) (following[last zs := hd zs])) zs"
proof -
  have ne: "zs \<noteq> []" using n by auto
  note l = c [unfolded cyclic_Cons [OF ne]]
  show "previous ! i = last zs" "following ! i = hd zs" using l by (simp_all add: linked_def)
  let ?R = "linked (previous[hd zs := last zs]) (following[last zs := hd zs])"
  have "?R (zs ! k) (zs ! Suc k)" if k: "Suc k < length zs" for k
  proof -
    have "zs ! k \<noteq> last zs" using d k ne by (simp add: last_conv_nth nth_eq_iff_index_eq)
    moreover have "zs ! Suc k \<noteq> hd zs" using d k ne by (simp add: hd_conv_nth nth_eq_iff_index_eq)
    moreover have "linked previous following (zs ! k) (zs ! Suc k)" using l k by (simp add: successively_conv_nth)
    ultimately show ?thesis by (simp add: linked_def)
  qed
  then have "successively ?R zs" by (simp add: successively_conv_nth)
  moreover have "?R (last zs) (hd zs)" using b ne by (simp add: linked_def)
  ultimately show "cyclic ?R zs" using ne by (auto simp: cyclic_def successively_append_iff)
qed

subsection \<open>The invariant of the loop\<close>

definition actives :: "peel \<Rightarrow> nat list" where
  "actives s = filter (\<lambda>i. active s ! i) [0..<length (active s)]"

definition peel_ok :: "nat \<Rightarrow> peel \<Rightarrow> bool" where
  "peel_ok n s \<longleftrightarrow> length (active s) = n \<and> length (previous_indexes s) = n \<and> length (next_indexes s) = n \<and>
    set (pending_indexes s) \<subseteq> {..<n} \<and> active_count s = length (actives s) \<and> 3 \<le> length (actives s) \<and>
    cyclic (linked (previous_indexes s) (next_indexes s)) (actives s)"

lemma actives_facts: "distinct (actives s)" "i \<in> set (actives s) \<longleftrightarrow> i < length (active s) \<and> active s ! i"
  by (auto simp: actives_def)

lemma peel_ok_init:
  assumes "3 \<le> n"
  shows "peel_ok n (peel_init n)"
proof -
  have a: "actives (peel_init n) = [0..<n]" by (simp add: actives_def peel_init_def)
  have "linked (previous_indexes (peel_init n)) (next_indexes (peel_init n)) i ((i + 1) mod n)" if i: "i < n" for i
  proof (cases "i + 1 < n")
    case False
    then have "i + 1 = n" using i by simp
    then have "(i + 1) mod n = 0" "i = n - 1" by (simp, linarith)
    then show ?thesis using i assms by (simp add: linked_def peel_init_def)
  qed (use i in \<open>simp add: linked_def peel_init_def\<close>)
  then have "cyclic (linked (previous_indexes (peel_init n)) (next_indexes (peel_init n))) [0..<n]"
    using assms by (subst cyclic_iff_nth) auto
  then show ?thesis using assms unfolding peel_ok_def a by (simp add: peel_init_def lessThan_atLeast0)
qed

lemma actives_removed:
  assumes "i \<in> set (actives s)"
  obtains xs ys where "actives s = xs @ i # ys" "actives (s\<lparr>active := (active s)[i := False]\<rparr>) = xs @ ys"
proof -
  obtain xs ys where xy: "actives s = xs @ i # ys" using assms by (meson split_list)
  have i: "i < length (active s)" using assms by (simp add: actives_facts)
  have "actives (s\<lparr>active := (active s)[i := False]\<rparr>) = filter (\<lambda>j. j \<noteq> i) (actives s)"
    using i by (auto simp: actives_def nth_list_update intro!: filter_cong)
  also have "\<dots> = xs @ ys"
  proof -
    have d: "i \<notin> set xs" "i \<notin> set ys" using actives_facts(1) [of s] by (auto simp: xy)
    have "filter (\<lambda>j. j \<noteq> i) xs = xs" "filter (\<lambda>j. j \<noteq> i) ys = ys" by (rule filter_True; use d in auto)+
    then show ?thesis by (simp add: xy)
  qed
  finally show ?thesis using that xy by blast
qed

lemma peel_round_ok:
  assumes ok: "peel_ok n s" and i: "i < n" and r: "peel_round robust ps i s = Inr s'"
  shows "peel_ok n s'"
proof (cases "active s ! i \<and> redundant robust (ps ! (previous_indexes s ! i)) (ps ! i) (ps ! (next_indexes s ! i))")
  case False
  then have "s' = s" using r by (auto simp: peel_round_def Let_def split: if_splits)
  then show ?thesis using ok by simp
next
  case True
  let ?p = "previous_indexes s ! i" and ?q = "next_indexes s ! i"
  have count: "4 \<le> active_count s" using r True by (auto simp: peel_round_def Let_def split: if_splits)
  have s': "s' = s\<lparr>active := (active s)[i := False], active_count := active_count s - 1,
      next_indexes := (next_indexes s)[?p := ?q], previous_indexes := (previous_indexes s)[?q := ?p],
      pending_indexes := pending_indexes s @ [?p, ?q]\<rparr>"
    using r True by (auto simp: peel_round_def Let_def split: if_splits)
  have len: "length (active s) = n" "length (previous_indexes s) = n" "length (next_indexes s) = n"
    "active_count s = length (actives s)" using ok by (simp_all add: peel_ok_def)
  have "i \<in> set (actives s)" using True i len by (simp add: actives_facts)
  then obtain xs ys where xy: "actives s = xs @ i # ys" "actives (s\<lparr>active := (active s)[i := False]\<rparr>) = xs @ ys"
    by (rule actives_removed)
  have a': "actives s' = xs @ ys" using xy(2) by (simp add: actives_def s')
  let ?zs = "ys @ xs"
  have c: "cyclic (linked (previous_indexes s) (next_indexes s)) (i # ?zs)"
    using ok cyclic_swap [of _ xs "i # ys"] by (simp add: peel_ok_def xy)
  have d: "distinct ?zs" using actives_facts(1) [of s] by (auto simp: xy)
  have two: "3 \<le> length ?zs" using count len(4) by (simp add: xy)
  have b: "\<forall>z \<in> set ?zs. z < length (previous_indexes s) \<and> z < length (next_indexes s)"
    using actives_facts(2) [of _ s] len by (auto simp: xy)
  have "2 \<le> length ?zs" using two by linarith
  note u = unlink [OF c d this b]
  have ne: "?zs \<noteq> []" using two by auto
  have pq: "?p < n" "?q < n" using b len u(1,2) hd_in_set [OF ne] last_in_set [OF ne] by metis+
  have "cyclic (linked (previous_indexes s') (next_indexes s')) (xs @ ys)"
    using u(3) cyclic_swap [of _ xs ys] by (simp add: s' u(1,2))
  then show ?thesis
    using len two pq ok unfolding peel_ok_def a' by (auto simp: s' xy)
qed

text \<open>What waits in the queue: every corner that may be redundant.\<close>

definition peeled :: "robust \<Rightarrow> point list \<Rightarrow> peel \<Rightarrow> bool" where
  "peeled robust ps s \<longleftrightarrow> (\<forall>i \<in> set (actives s) - set (pending_indexes s).
    \<not> redundant robust (ps ! (previous_indexes s ! i)) (ps ! i) (ps ! (next_indexes s ! i)))"

lemma peel_round_peeled:
  assumes ok: "peel_ok n (s\<lparr>pending_indexes := rest\<rparr>)" and i: "i < n" and p: "pending_indexes s = i # rest"
    and r: "peel_round robust ps i (s\<lparr>pending_indexes := rest\<rparr>) = Inr s'" and peeled: "peeled robust ps s"
  shows "peeled robust ps s'"
  unfolding peeled_def
proof
  let ?s = "s\<lparr>pending_indexes := rest\<rparr>"
  have a: "actives ?s = actives s" by (simp add: actives_def)
  fix j assume j: "j \<in> set (actives s') - set (pending_indexes s')"
  show "\<not> redundant robust (ps ! (previous_indexes s' ! j)) (ps ! j) (ps ! (next_indexes s' ! j))"
  proof (cases "active s ! i \<and> redundant robust (ps ! (previous_indexes s ! i)) (ps ! i) (ps ! (next_indexes s ! i))")
    case False
    then have s': "s' = ?s" using r by (auto simp: peel_round_def Let_def split: if_splits)
    show ?thesis
    proof (cases "j = i")
      case True
      then show ?thesis using False j by (auto simp: s' a actives_facts)
    next
      case False
      then show ?thesis using j peeled by (auto simp: s' a peeled_def p)
    qed
  next
    case True
    let ?p = "previous_indexes s ! i" and ?q = "next_indexes s ! i"
    have s': "s' = ?s\<lparr>active := (active s)[i := False], active_count := active_count s - 1,
        next_indexes := (next_indexes s)[?p := ?q], previous_indexes := (previous_indexes s)[?q := ?p],
        pending_indexes := rest @ [?p, ?q]\<rparr>"
      using r True by (auto simp: peel_round_def Let_def split: if_splits)
    have j': "j \<noteq> ?p" "j \<noteq> ?q" "j \<notin> set rest" using j by (auto simp: s')
    have "active s ! j" "j < length (active s)" "j \<noteq> i"
      using j ok i by (auto simp: actives_facts s' peel_ok_def nth_list_update split: if_splits)
    then have "j \<in> set (actives s) - set (pending_indexes s)" using j' by (simp add: actives_facts p)
    then show ?thesis using peeled j' by (simp add: peeled_def s')
  qed
qed

lemma peel_loop_ok:
  assumes "peel_loop robust ps s = Inr s'" "peel_ok n s" "peeled robust ps s"
  shows "peel_ok n s' \<and> peeled robust ps s' \<and> pending_indexes s' = []"
  using assms
proof (induction robust ps s rule: peel_loop.induct)
  case (1 robust ps s)
  show ?case
  proof (cases "pending_indexes s")
    case Nil
    then show ?thesis using "1.prems" by (simp add: peel_loop.simps [of robust ps s])
  next
    case (Cons i rest)
    then obtain t where t: "peel_round robust ps i (s\<lparr>pending_indexes := rest\<rparr>) = Inr t" "peel_loop robust ps t = Inr s'"
      using "1.prems"(1) by (auto simp: peel_loop.simps [of robust ps s] split: sum.splits)
    have ok: "peel_ok n (s\<lparr>pending_indexes := rest\<rparr>)" and i: "i < n"
      using "1.prems"(2) Cons by (auto simp: peel_ok_def actives_def)
    show ?thesis
      by (rule "1.IH" [OF Cons t(1,2) peel_round_ok [OF ok i t(1)] peel_round_peeled [OF ok i Cons t(1) "1.prems"(3)]])
  qed
qed

subsection \<open>The closing walk\<close>

lemma walk_links:
  assumes "successively (\<lambda>a b. links ! a = b) (zs @ [f])" "f \<notin> set (tl zs)" "zs \<noteq> []"
  shows "walk_ring ps links f (hd zs) acc = Some (acc @ map ((!) ps) zs)"
  using assms
proof (induction zs arbitrary: acc)
  case (Cons z zs)
  show ?case
  proof (cases "zs = []")
    case True
    then have "links ! z = f" using Cons.prems(1) by (simp add: successively_Cons)
    then show ?thesis using True by (simp add: walk_ring.simps [of ps links f z] Let_def)
  next
    case False
    then have l: "links ! z = hd zs" "successively (\<lambda>a b. links ! a = b) (zs @ [f])"
      using Cons.prems(1) by (auto simp: successively_Cons)
    have f: "hd zs \<noteq> f" "f \<notin> set (tl zs)" using Cons.prems(2) False by (auto simp: list.set_sel)
    show ?thesis using Cons.IH [OF l(2) f(2) False, of "acc @ [ps ! z]"] l(1) f(1)
      by (simp add: walk_ring.simps [of ps links f z] Let_def)
  qed
qed simp

lemma position_filter: "position bs = (case filter (\<lambda>i. bs ! i) [0..<length bs] of [] \<Rightarrow> None | i # _ \<Rightarrow> Some i)"
proof (induction bs)
  case (Cons b bs)
  have "filter (\<lambda>i. (b # bs) ! i) [0..<length (b # bs)] =
      (if b then [0] else []) @ map Suc (filter (\<lambda>i. bs ! i) [0..<length bs])"
    by (simp add: upt_conv_Cons filter_map o_def flip: map_Suc_upt del: upt_Suc)
  then show ?case using Cons.IH by (auto split: list.splits)
qed simp

lemma walk_actives:
  assumes "peel_ok n s"
  shows "position (active s) = Some (hd (actives s))"
    "walk_ring ps (next_indexes s) (hd (actives s)) (hd (actives s)) [] = Some (map ((!) ps) (actives s))"
proof -
  let ?zs = "actives s"
  have ne: "?zs \<noteq> []" and c: "cyclic (linked (previous_indexes s) (next_indexes s)) ?zs"
    using assms by (auto simp: peel_ok_def)
  show "position (active s) = Some (hd ?zs)"
    using ne by (simp add: position_filter actives_def split: list.splits)
  have "successively (\<lambda>a b. next_indexes s ! a = b) (?zs @ [hd ?zs])"
    using c unfolding cyclic_def by (rule successively_mono) (simp add: linked_def)
  moreover have "hd ?zs \<notin> set (tl ?zs)" using actives_facts(1) [of s] ne by (cases ?zs) auto
  ultimately show "walk_ring ps (next_indexes s) (hd ?zs) (hd ?zs) [] = Some (map ((!) ps) ?zs)"
    using walk_links [of "next_indexes s" ?zs "hd ?zs" ps "[]"] ne by simp
qed

subsection \<open>What the clean-up returns\<close>

lemma pred_then_succ: "k < m \<Longrightarrow> ((k + m - 1) mod m + 1) mod (m::nat) = k"
  by (simp add: mod_Suc_eq)

lemma peeled_corners:
  assumes ok: "peel_ok n s" and p: "peeled robust ps s" and q: "pending_indexes s = []"
  shows "list_all (\<lambda>(a, b, c). \<not> redundant robust a b c) (corners (map ((!) ps) (actives s)))"
proof -
  let ?zs = "actives s" and ?m = "length (actives s)"
  have ne: "?zs \<noteq> []" using ok by (auto simp: peel_ok_def)
  have link: "linked (previous_indexes s) (next_indexes s) (?zs ! k) (?zs ! ((k + 1) mod ?m))" if "k < ?m" for k
    using ok that cyclic_iff_nth [OF ne] unfolding peel_ok_def by blast
  have "\<not> redundant robust (ps ! (?zs ! ((k + ?m - 1) mod ?m))) (ps ! (?zs ! k)) (ps ! (?zs ! ((k + 1) mod ?m)))"
    if k: "k < ?m" for k
  proof -
    have "(k + ?m - 1) mod ?m < ?m" by (rule mod_less_divisor) (use k in linarith)
    then have "previous_indexes s ! (?zs ! k) = ?zs ! ((k + ?m - 1) mod ?m)"
      using link [of "(k + ?m - 1) mod ?m"] unfolding pred_then_succ [OF k] linked_def by blast
    moreover have "next_indexes s ! (?zs ! k) = ?zs ! ((k + 1) mod ?m)" using link [OF k] by (simp add: linked_def)
    ultimately show ?thesis using p q nth_mem [OF k] unfolding peeled_def by auto
  qed
  moreover have "(k + ?m - 1) mod ?m < ?m" "(k + 1) mod ?m < ?m" if "k < ?m" for k
    by (rule mod_less_divisor; use that in linarith)+
  ultimately show ?thesis by (auto simp: corners_def list_all_iff)
qed

lemma peel_loop_message: "peel_loop robust ps s = Inl message \<Longrightarrow> message = TOO_FEW"
proof (induction robust ps s rule: peel_loop.induct)
  case (1 robust ps s)
  then show ?case
    by (auto simp: peel_loop.simps [of robust ps s] peel_round_def Let_def split: list.splits sum.splits if_splits)
qed

lemma subseq_map_nth:
  assumes "length ps = n"
  shows "subseq (map ((!) ps) (filter P [0..<n])) ps"
proof -
  have "subseq (filter P [0..<n]) [0..<n]" by simp
  then have "subseq (map ((!) ps) (filter P [0..<n])) (map ((!) ps) [0..<n])" by (rule subseq_map)
  then show ?thesis using map_nth [of ps] by (simp add: assms)
qed

lemma canonicalize_form:
  "canonicalize_translated_convex_ring robust ps = Some (Inl TOO_FEW) \<or>
   (\<exists>zs. subseq zs ps \<and> 3 \<le> length zs \<and> list_all (\<lambda>(a, b, c). \<not> redundant robust a b c) (corners zs) \<and>
     canonicalize_translated_convex_ring robust ps = Some (stable_boundary robust zs))"
proof (cases "length ps < 3")
  case False
  show ?thesis
  proof (cases "peel_loop robust ps (peel_init (length ps))")
    case (Inl message)
    then show ?thesis
      using False peel_loop_message [OF Inl] by (simp add: canonicalize_translated_convex_ring_def)
  next
    case (Inr s)
    have "peeled robust ps (peel_init (length ps))" by (auto simp: peeled_def actives_def peel_init_def)
    then have s: "peel_ok (length ps) s" "peeled robust ps s" "pending_indexes s = []"
      using peel_loop_ok [OF Inr peel_ok_init] False by auto
    let ?zs = "map ((!) ps) (actives s)"
    have len: "length (active s) = length ps" "active_count s = length (actives s)" "3 \<le> length (actives s)"
      using s(1) by (auto simp: peel_ok_def)
    have "subseq ?zs ps" unfolding actives_def len(1) by (rule subseq_map_nth) simp
    moreover have "canonicalize_translated_convex_ring robust ps = Some (stable_boundary robust ?zs)"
      using False len walk_actives(1) [OF s(1)] walk_actives(2) [OF s(1), of ps] Inr by (simp add: canonicalize_translated_convex_ring_def)
    ultimately show ?thesis using len peeled_corners [OF s] by (intro disjI2 exI [of _ ?zs]) simp
  qed
qed (simp add: canonicalize_translated_convex_ring_def)

text \<open>
  C8. The clean-up of a translated ring always returns: the peel loop ends, its links stay a ring over the
  active indices, and the closing walk comes back to its start. Its answer is the message for too few
  vertices, the validator's message on a sub-ring of the input, or that sub-ring rotated to its stable
  start, strictly convex and with no corner that is repeated or collinear.
\<close>

theorem canonicalize_returns:
  "\<exists>r. canonicalize_translated_convex_ring robust ps = Some r \<and>
    (case r of
       Inl message \<Rightarrow> message = TOO_FEW \<or>
         (\<exists>zs. subseq zs ps \<and> 3 \<le> length zs \<and> validate_strict_boundary robust zs = Invalid message)
     | Inr poly \<Rightarrow> \<exists>zs w. subseq zs ps \<and> 3 \<le> length zs \<and> validate_strict_boundary robust zs = Valid w \<and>
         poly = rotate_to_stable_start zs \<and> list_all (\<lambda>(a, b, c). \<not> redundant robust a b c) (corners zs))"
proof -
  consider "canonicalize_translated_convex_ring robust ps = Some (Inl TOO_FEW)"
    | zs where "subseq zs ps" "3 \<le> length zs" "list_all (\<lambda>(a, b, c). \<not> redundant robust a b c) (corners zs)"
        "canonicalize_translated_convex_ring robust ps = Some (stable_boundary robust zs)"
    using canonicalize_form by blast
  then show ?thesis
  proof cases
    case (2 zs)
    then show ?thesis by (cases "validate_strict_boundary robust zs") (auto simp: stable_boundary_def)
  qed simp
qed

end
