(* ===== verification/CacheKey.thy ===== *)
theory CacheKey
  imports Prelude
begin

text \<open>
  Cache keys of \<open>crates/polygon-nesting-core/src/caches\<close>: \<open>push_json_string\<close> and
  \<open>serialize_geometry_cache_key\<close> of \<open>store.rs\<close>. A string is its UTF-8 bytes: every byte the
  escaping rewrites is ASCII, and the bytes of other characters pass through unchanged.
\<close>

subsection \<open>JSON strings\<close>

definition hex_digit :: "nat \<Rightarrow> char" where
  "hex_digit d = (if d < 10 then char_of (48 + d) else char_of (87 + d))"

definition json_escape :: "char \<Rightarrow> string" where
  "json_escape c =
    (if c = CHR 0x22 then [CHR 0x5C, CHR 0x22]
     else if c = CHR 0x5C then [CHR 0x5C, CHR 0x5C]
     else if c = CHR 0x08 then [CHR 0x5C, CHR ''b'']
     else if c = CHR 0x0C then [CHR 0x5C, CHR ''f'']
     else if c = CHR 0x0A then [CHR 0x5C, CHR ''n'']
     else if c = CHR 0x0D then [CHR 0x5C, CHR ''r'']
     else if c = CHR 0x09 then [CHR 0x5C, CHR ''t'']
     else if (of_char c :: nat) < 0x20 then
       [CHR 0x5C, CHR ''u'', CHR ''0'', CHR ''0'', hex_digit (of_char c div 16), hex_digit (of_char c mod 16)]
     else [c])"

definition push_json_string :: "string \<Rightarrow> string \<Rightarrow> string" where
  "push_json_string out value = out @ [CHR 0x22] @ concat (map json_escape value) @ [CHR 0x22]"

definition json_string_for_array_element :: "string \<Rightarrow> string" where
  "json_string_for_array_element value = push_json_string [] value"

record geometry_cache_key =
  key_namespace :: string
  key_parts :: "string list"

fun push_parts :: "string \<Rightarrow> nat \<Rightarrow> string list \<Rightarrow> string" where
  "push_parts out i [] = out"
| "push_parts out i (p # ps) =
    push_parts (push_json_string (if 0 < i then out @ '','' else out) p) (i + 1) ps"

definition serialize_geometry_cache_key :: "geometry_cache_key \<Rightarrow> string" where
  "serialize_geometry_cache_key k =
    push_parts (push_json_string ''['' (key_namespace k) @ '',['') 0 (key_parts k) @ '']]''"

subsection \<open>Decoding\<close>

text \<open>Reads one escaped character and returns the rest.\<close>

definition hex_val :: "char \<Rightarrow> nat" where
  "hex_val c = (if (of_char c :: nat) < 58 then of_char c - 48 else of_char c - 87)"

fun unescape_one :: "string \<Rightarrow> (char \<times> string) option" where
  "unescape_one [] = None"
| "unescape_one (a # s) =
    (if a \<noteq> CHR 0x5C then Some (a, s)
     else case s of [] \<Rightarrow> None
      | b # t \<Rightarrow>
        if b = CHR ''b'' then Some (CHR 0x08, t)
        else if b = CHR ''f'' then Some (CHR 0x0C, t)
        else if b = CHR ''n'' then Some (CHR 0x0A, t)
        else if b = CHR ''r'' then Some (CHR 0x0D, t)
        else if b = CHR ''t'' then Some (CHR 0x09, t)
        else if b = CHR ''u'' then (case t of
            _ # _ # h # l # u \<Rightarrow> Some (char_of (16 * hex_val h + hex_val l), u)
          | _ \<Rightarrow> None)
        else Some (b, t))"

lemma hex_val_digit [simp]: "d < 16 \<Longrightarrow> hex_val (hex_digit d) = d"
  by (simp add: hex_val_def hex_digit_def)

lemma unescape_escape: "unescape_one (json_escape c @ s) = Some (c, s)"
proof -
  have "(of_char c :: nat) < 256" by simp
  then have "(of_char c :: nat) div 16 < 16" "(of_char c :: nat) mod 16 < 16" by (simp_all add: div_less_iff_less_mult)
  moreover have "char_of (16 * (of_char c div 16) + of_char c mod 16 :: nat) = c" by simp
  ultimately show ?thesis by (simp add: json_escape_def del: char_of_mod_256)
qed

lemma json_escape_quote: "\<exists>a u. json_escape c = a # u \<and> a \<noteq> CHR 0x22"
  by (simp add: json_escape_def)

lemma json_escape_inject:
  assumes "json_escape c @ s = json_escape d @ t"
  shows "c = d \<and> s = t"
  using unescape_escape [of c s] unescape_escape [of d t] unfolding assms by simp

text \<open>An escaped string is self-delimiting.\<close>

lemma escaped_inject:
  "concat (map json_escape v) @ CHR 0x22 # r = concat (map json_escape w) @ CHR 0x22 # q \<Longrightarrow> v = w \<and> r = q"
proof (induction v arbitrary: w)
  case Nil
  then show ?case using json_escape_quote [of "hd w"] by (cases w) auto
next
  case (Cons c v)
  then obtain d w' where w: "w = d # w'" using json_escape_quote [of c] by (cases w) auto
  then have "json_escape c @ (concat (map json_escape v) @ CHR 0x22 # r) =
      json_escape d @ (concat (map json_escape w') @ CHR 0x22 # q)" using Cons.prems by simp
  then show ?case using json_escape_inject Cons.IH w by blast
qed

lemma json_string_inject:
  "push_json_string [] v @ r = push_json_string [] w @ q \<longleftrightarrow> v = w \<and> r = q"
  using escaped_inject [of v r w q] by (auto simp: push_json_string_def)

lemma push_json_string_out: "push_json_string out v = out @ push_json_string [] v"
  by (simp add: push_json_string_def)

definition comma_parts :: "string list \<Rightarrow> string" where
  "comma_parts ps = concat (map (\<lambda>p. '','' @ push_json_string [] p) ps)"

lemma push_parts_Suc: "push_parts out (Suc i) ps = out @ comma_parts ps"
proof (induction ps arbitrary: out i)
  case Nil
  then show ?case by (simp add: comma_parts_def)
next
  case (Cons p ps)
  then show ?case
    using push_json_string_out [of "out @ '',''" p] by (simp add: comma_parts_def)
qed

lemma push_parts_zero:
  "push_parts out 0 ps = (case ps of [] \<Rightarrow> out | p # qs \<Rightarrow> out @ push_json_string [] p @ comma_parts qs)"
  using push_json_string_out [of out] by (cases ps) (simp_all add: push_parts_Suc)

lemma comma_parts_inject: "comma_parts ps @ '']]'' = comma_parts qs @ '']]'' \<Longrightarrow> ps = qs"
proof (induction ps arbitrary: qs)
  case Nil
  then show ?case by (cases qs) (auto simp: comma_parts_def)
next
  case (Cons p ps)
  then obtain q qs' where qs: "qs = q # qs'" by (cases qs) (auto simp: comma_parts_def)
  then have "push_json_string [] p @ (comma_parts ps @ '']]'') = push_json_string [] q @ (comma_parts qs' @ '']]'')"
    using Cons.prems by (simp add: comma_parts_def)
  then show ?case using Cons.IH qs unfolding json_string_inject by simp
qed

lemma serialize_unfold:
  "serialize_geometry_cache_key k = ''['' @ push_json_string [] (key_namespace k) @ '',['' @
    (case key_parts k of [] \<Rightarrow> [] | p # ps \<Rightarrow> push_json_string [] p @ comma_parts ps) @ '']]''"
  using push_json_string_out [of "''[''"]
  by (simp add: serialize_geometry_cache_key_def push_parts_zero split: list.split)

lemma serialize_inject: "serialize_geometry_cache_key k = serialize_geometry_cache_key l \<longleftrightarrow> k = l"
proof
  assume "serialize_geometry_cache_key k = serialize_geometry_cache_key l"
  then have e: "push_json_string [] (key_namespace k) @ ('',['' @
      (case key_parts k of [] \<Rightarrow> [] | p # ps \<Rightarrow> push_json_string [] p @ comma_parts ps) @ '']]'') =
    push_json_string [] (key_namespace l) @ ('',['' @
      (case key_parts l of [] \<Rightarrow> [] | p # ps \<Rightarrow> push_json_string [] p @ comma_parts ps) @ '']]'')"
    by (simp add: serialize_unfold)
  then have n: "key_namespace k = key_namespace l" and
    p: "(case key_parts k of [] \<Rightarrow> [] | p # ps \<Rightarrow> push_json_string [] p @ comma_parts ps) @ '']]'' =
      (case key_parts l of [] \<Rightarrow> [] | p # ps \<Rightarrow> push_json_string [] p @ comma_parts ps) @ '']]''"
    unfolding json_string_inject by auto
  have q: "\<exists>u. push_json_string [] p = CHR 0x22 # u" for p by (simp add: push_json_string_def)
  have "key_parts k = key_parts l"
  proof (cases "key_parts k")
    case Nil
    then show ?thesis using p q [of "hd (key_parts l)"] by (cases "key_parts l") auto
  next
    case (Cons a as)
    then obtain b bs where l: "key_parts l = b # bs" using p q [of a] by (cases "key_parts l") auto
    then have "push_json_string [] a @ (comma_parts as @ '']]'') = push_json_string [] b @ (comma_parts bs @ '']]'')"
      using p Cons by simp
    then show ?thesis using comma_parts_inject [of as bs] l Cons unfolding json_string_inject by simp
  qed
  with n show "k = l" by simp
qed simp

text \<open>
  C31. Cache keys never collide: the serialized form of a key determines its namespace and all its
  parts, whatever characters they contain; and a string rendered as an array element can be read
  back from any text it starts.
\<close>

theorem cache_keys_never_collide:
  "(serialize_geometry_cache_key k = serialize_geometry_cache_key l \<longleftrightarrow>
      key_namespace k = key_namespace l \<and> key_parts k = key_parts l) \<and>
    (json_string_for_array_element v @ r = json_string_for_array_element w @ q \<longleftrightarrow> v = w \<and> r = q)"
  by (auto simp: serialize_inject json_string_for_array_element_def json_string_inject)

end
