(* ===== verification/CacheIdentity.thy ===== *)
theory CacheIdentity
  imports NfpBoundary CacheKey JsNumber
begin

text \<open>
  \<open>caches/nfp_cache_key.rs\<close> and \<open>caches/geometry_cache_identity.rs\<close>: the keys under which derived
  geometry is cached. \<open>js\<close> renders a number that is no safe integer (crate \<open>ryu-js\<close>).
\<close>

record irregular_geometry_settings =
  flattening_sag :: f64
  clearance_safety_margin :: f64
  backend_id :: string
  backend_version :: string

record collision_geometry =
  geometry_source_piece_id :: string
  geometry_source_bounds :: bounds
  sampled_points :: "point list"
  convex_hull_polygon :: polygon
  padded_collision_polygon :: polygon
  geometry_placement_reference :: point

definition fold_negative_zero_key :: "(f64 \<Rightarrow> string) \<Rightarrow> f64 \<Rightarrow> string" where
  "fold_negative_zero_key js value = number_to_js_string js value"

definition NFP_GEOMETRY_CACHE_NAMESPACE :: string where
  "NFP_GEOMETRY_CACHE_NAMESPACE = ''pairwise-nfp-relative-v3''"

definition TRANSFORM_GEOMETRY_CACHE_NAMESPACE :: string where
  "TRANSFORM_GEOMETRY_CACHE_NAMESPACE = ''transform-collision-v1''"

definition IFP_GEOMETRY_CACHE_NAMESPACE :: string where
  "IFP_GEOMETRY_CACHE_NAMESPACE = ''sheet-ifp-v1''"

fun construction_as_str :: "nfp_construction_algorithm \<Rightarrow> string" where
  "construction_as_str Linear_Edge_Merge = ''linear-edge-merge''"
| "construction_as_str Vertex_Pair_Hull = ''vertex-pair-hull''"

fun transform_reason_str :: "transform_reason \<Rightarrow> string" where
  "transform_reason_str Orthogonal = ''orthogonal''"
| "transform_reason_str Edge_alignment = ''edge_alignment''"
| "transform_reason_str Configured = ''configured''"

text \<open>\<open>[String]::join\<close>.\<close>

fun join_with :: "string \<Rightarrow> string list \<Rightarrow> string" where
  "join_with sep [] = []"
| "join_with sep [s] = s"
| "join_with sep (s # t # ts) = s @ sep @ join_with sep (t # ts)"

subsection \<open>Digests\<close>

definition point_digest :: "(f64 \<Rightarrow> string) \<Rightarrow> point \<Rightarrow> string" where
  "point_digest js p = fold_negative_zero_key js (px p) @ '','' @ fold_negative_zero_key js (py p)"

definition polygon_digest :: "(f64 \<Rightarrow> string) \<Rightarrow> point list \<Rightarrow> string" where
  "polygon_digest js ps = join_with '';'' (map (point_digest js) ps)"

definition bounds_digest :: "(f64 \<Rightarrow> string) \<Rightarrow> bounds \<Rightarrow> string" where
  "bounds_digest js b = join_with '','' (map (fold_negative_zero_key js) [min_x b, min_y b, max_x b, max_y b])"

definition transform_digest :: "(f64 \<Rightarrow> string) \<Rightarrow> transform_candidate \<Rightarrow> string" where
  "transform_digest js t = ''index='' @ fold_negative_zero_key js (candidate_index t) @ '',rotation='' @
    fold_negative_zero_key js (candidate_rotation_deg t) @ '',mirrored='' @ (if candidate_mirrored t then ''1'' else ''0'') @
    '',reason='' @ transform_reason_str (candidate_reason t)"

definition digest_start :: "point list \<Rightarrow> nat" where
  "digest_start ps = foldl (\<lambda>start_index i. let candidate = ps ! i; current = ps ! start_index in
     if flt (px candidate) (px current) \<or> feq (px candidate) (px current) \<and> flt (py candidate) (py current)
     then i else start_index) 0 [1..<length ps]"

definition cyclic_polygon_digest :: "(f64 \<Rightarrow> string) \<Rightarrow> point list \<Rightarrow> nat \<Rightarrow> int \<Rightarrow> string" where
  "cyclic_polygon_digest js ps start_index direction =
    (let len = int (length ps) in join_with '';'' (map (\<lambda>offset.
      point_digest js (ps ! nat ((int start_index + direction * int offset + len * 2) mod len))) [0..<length ps]))"

definition canonical_polygon_digest :: "(f64 \<Rightarrow> string) \<Rightarrow> point list \<Rightarrow> string" where
  "canonical_polygon_digest js ps =
    (if ps = [] then []
     else let start_index = digest_start ps; ahead = cyclic_polygon_digest js ps start_index 1;
         reverse_digest = cyclic_polygon_digest js ps start_index (- 1)
       in if cmp_js_code_units ahead reverse_digest = Less then ahead else reverse_digest)"

definition geometry_settings_parts :: "(f64 \<Rightarrow> string) \<Rightarrow> irregular_geometry_settings \<Rightarrow> string list" where
  "geometry_settings_parts js geometry_settings =
    [''flattening-sag='' @ fold_negative_zero_key js (flattening_sag geometry_settings),
     ''clearance-margin='' @ fold_negative_zero_key js (clearance_safety_margin geometry_settings),
     ''backend='' @ backend_id geometry_settings, ''backend-version='' @ backend_version geometry_settings,
     ''offset-policy=clipper2-offset-v3-sharp-miter-scale-1000'']"

subsection \<open>Pairwise no-fit polygons\<close>

record prepared_moving_parts =
  moving_polygon_part :: string
  moving_transform_part :: string
  settings_parts :: "string list"
  construction_part :: string

definition prepare_pairwise_nfp_moving_parts :: "(f64 \<Rightarrow> string) \<Rightarrow> point list \<Rightarrow> transform_candidate \<Rightarrow>
    irregular_geometry_settings \<Rightarrow> nfp_construction_algorithm \<Rightarrow> prepared_moving_parts" where
  "prepare_pairwise_nfp_moving_parts js moving_polygon moving_transform geometry_settings algorithm =
    \<lparr>moving_polygon_part = ''moving-polygon='' @ canonical_polygon_digest js moving_polygon,
     moving_transform_part = ''moving-transform='' @ transform_digest js moving_transform,
     settings_parts = geometry_settings_parts js geometry_settings,
     construction_part = ''nfp-construction='' @ construction_as_str algorithm\<rparr>"

definition make_pairwise_nfp_cache_key_with_prepared_moving :: "(f64 \<Rightarrow> string) \<Rightarrow> prepared_moving_parts \<Rightarrow>
    point list \<Rightarrow> transform_candidate \<Rightarrow> geometry_cache_key" where
  "make_pairwise_nfp_cache_key_with_prepared_moving js prepared fixed_polygon fixed_transform =
    \<lparr>key_namespace = NFP_GEOMETRY_CACHE_NAMESPACE,
     key_parts = [''fixed-polygon='' @ canonical_polygon_digest js fixed_polygon, moving_polygon_part prepared,
       ''fixed-transform='' @ transform_digest js fixed_transform, moving_transform_part prepared] @
       settings_parts prepared @
       [''nfp-algorithm=convex-fixed-plus-negated-moving-relative-v3'', construction_part prepared]\<rparr>"

record pairwise_nfp_key_input =
  key_fixed_polygon :: "point list"
  key_moving_polygon :: "point list"
  key_fixed_transform :: transform_candidate
  key_moving_transform :: transform_candidate
  key_settings :: irregular_geometry_settings

definition make_pairwise_nfp_cache_key ::
    "(f64 \<Rightarrow> string) \<Rightarrow> pairwise_nfp_key_input \<Rightarrow> nfp_construction_algorithm \<Rightarrow> geometry_cache_key" where
  "make_pairwise_nfp_cache_key js input algorithm = make_pairwise_nfp_cache_key_with_prepared_moving js
    (prepare_pairwise_nfp_moving_parts js (key_moving_polygon input) (key_moving_transform input) (key_settings input) algorithm)
    (key_fixed_polygon input) (key_fixed_transform input)"

subsection \<open>Transformed geometry and inner-fit bounds\<close>

record transform_key_input =
  key_geometry :: collision_geometry
  key_transform :: transform_candidate

record inner_fit_key_input =
  key_sheet :: domain_sheet
  key_moving :: transformed_collision_geometry

definition collision_geometry_digest :: "(f64 \<Rightarrow> string) \<Rightarrow> collision_geometry \<Rightarrow> string" where
  "collision_geometry_digest js g = join_with '';''
    [''source='' @ geometry_source_piece_id g, ''source-bounds='' @ bounds_digest js (geometry_source_bounds g),
     ''placement-reference='' @ point_digest js (geometry_placement_reference g),
     ''hull='' @ polygon_digest js (convex_hull_polygon g),
     ''collision='' @ polygon_digest js (padded_collision_polygon g)]"

definition make_transform_collision_geometry_cache_key ::
    "(f64 \<Rightarrow> string) \<Rightarrow> transform_key_input \<Rightarrow> irregular_geometry_settings \<Rightarrow> geometry_cache_key" where
  "make_transform_collision_geometry_cache_key js input geometry_settings =
    \<lparr>key_namespace = TRANSFORM_GEOMETRY_CACHE_NAMESPACE,
     key_parts = [collision_geometry_digest js (key_geometry input), transform_digest js (key_transform input)] @
       geometry_settings_parts js geometry_settings @
       [''placement-reference=local-lower-left'', ''transform-operation=mirror-y-then-ccw-rotate'']\<rparr>"

definition make_inner_fit_bounds_cache_key :: "(f64 \<Rightarrow> string) \<Rightarrow> inner_fit_key_input \<Rightarrow> geometry_cache_key" where
  "make_inner_fit_bounds_cache_key js input = (let sheet = key_sheet input; moving = key_moving input in
    \<lparr>key_namespace = IFP_GEOMETRY_CACHE_NAMESPACE,
     key_parts = [''sheet='' @ fold_negative_zero_key js (domain_sheet_width sheet) @ '','' @
         fold_negative_zero_key js (domain_sheet_height sheet) @ '','' @ domain_sheet_label sheet,
       ''moving-piece='' @ collision_source_piece_id moving,
       ''moving-transform='' @ transform_digest js (collision_transform moving),
       ''moving-polygon='' @ polygon_digest js (collision_polygon moving),
       ''ifp-operation=rectangular-sheet-vertex-bounds'']\<rparr>)"

definition same_transform :: "transform_candidate \<Rightarrow> transform_candidate \<Rightarrow> bool" where
  "same_transform s t \<longleftrightarrow> feq (candidate_index s) (candidate_index t) \<and>
    feq (candidate_rotation_deg s) (candidate_rotation_deg t) \<and>
    candidate_mirrored s = candidate_mirrored t \<and> candidate_reason s = candidate_reason t"

end
