(* ===== verification/Recency.thy ===== *)
theory Recency
  imports Prelude "HOL-Library.Monad_Syntax"
begin

text \<open>
  The recency list of \<open>crates/polygon-nesting-core/src/caches/store.rs\<close>: a doubly linked list
  in an arena (\<open>recency_nodes\<close>) whose free slots are reused. Every operation is modelled with
  its panics (\<open>expect\<close> and out-of-range indexing are \<open>None\<close>). The contract \<open>recency_queue\<close> says
  what the cache store relies on: handles of live nodes never panic, and the list behaves like
  a plain list of handles, oldest first. The arena is interpreted as such a queue.
\<close>

subsection \<open>Neighbours in a list\<close>

definition hd_opt :: "'a list \<Rightarrow> 'a option" where
  "hd_opt xs = (case xs of [] \<Rightarrow> None | x # _ \<Rightarrow> Some x)"

definition last_opt :: "'a list \<Rightarrow> 'a option" where
  "last_opt xs = hd_opt (rev xs)"

fun succ_of :: "'a list \<Rightarrow> 'a \<Rightarrow> 'a option" where
  "succ_of [] j = None"
| "succ_of (a # xs) j = (if j = a then hd_opt xs else succ_of xs j)"

definition pred_of :: "'a list \<Rightarrow> 'a \<Rightarrow> 'a option" where
  "pred_of xs j = succ_of (rev xs) j"

lemma hd_opt_simps [simp]: "hd_opt [] = None" "hd_opt (x # xs) = Some x"
  by (simp_all add: hd_opt_def)

lemma hd_opt_append: "hd_opt (xs @ ys) = (if xs = [] then hd_opt ys else hd_opt xs)"
  by (cases xs) auto

lemma hd_opt_None [simp]: "hd_opt xs = None \<longleftrightarrow> xs = []"
  by (cases xs) auto

lemma hd_opt_Some: "hd_opt xs = Some x \<longleftrightarrow> (\<exists>ys. xs = x # ys)"
  by (cases xs) auto

lemma last_opt_simps [simp]: "last_opt [] = None" "last_opt (xs @ [x]) = Some x"
  by (simp_all add: last_opt_def)

lemma last_opt_None [simp]: "last_opt xs = None \<longleftrightarrow> xs = []"
  by (simp add: last_opt_def)

lemma last_opt_in: "last_opt xs = Some x \<Longrightarrow> x \<in> set xs"
  by (cases xs rule: rev_cases) auto

lemma succ_of_split:
  "distinct xs \<Longrightarrow> succ_of xs j = Some i \<longleftrightarrow> (\<exists>as bs. xs = as @ j # i # bs)"
proof (induction xs)
  case (Cons a xs)
  show ?case
  proof (cases "j = a")
    case True
    have "(\<exists>as bs. a # xs = as @ j # i # bs) \<longleftrightarrow> (\<exists>bs. xs = i # bs)"
      using Cons.prems True by (auto simp: Cons_eq_append_conv)
    then show ?thesis using True by (simp add: hd_opt_Some)
  next
    case False
    then have "(\<exists>as bs. a # xs = as @ j # i # bs) \<longleftrightarrow> (\<exists>as bs. xs = as @ j # i # bs)"
      by (auto simp: Cons_eq_append_conv)
    then show ?thesis using Cons False by simp
  qed
qed simp

lemma pred_of_iff:
  assumes "distinct xs"
  shows "pred_of xs i = Some j \<longleftrightarrow> succ_of xs j = Some i"
proof -
  have "(\<exists>as bs. rev xs = as @ i # j # bs) \<longleftrightarrow> (\<exists>as bs. xs = as @ j # i # bs)"
    by (metis append.assoc append_Cons append_Nil rev.simps(2) rev_append rev_rev_ident)
  then show ?thesis using assms by (simp add: pred_of_def succ_of_split)
qed

lemma succ_of_in: "succ_of xs j = Some i \<Longrightarrow> i \<in> set xs \<and> j \<in> set xs"
  by (induction xs) (auto simp: hd_opt_Some split: if_splits)

lemma pred_of_in: "pred_of xs j = Some i \<Longrightarrow> i \<in> set xs \<and> j \<in> set xs"
  using succ_of_in [of "rev xs"] by (simp add: pred_of_def)

lemma removeAll_rev: "rev (removeAll i xs) = removeAll i (rev xs)"
  by (simp add: removeAll_filter_not_eq rev_filter)

lemma hd_opt_removeAll:
  "distinct xs \<Longrightarrow> hd_opt (removeAll i xs) = (if hd_opt xs = Some i then succ_of xs i else hd_opt xs)"
  by (cases xs) auto

lemma succ_of_removeAll:
  "distinct xs \<Longrightarrow> j \<noteq> i \<Longrightarrow>
    succ_of (removeAll i xs) j = (if succ_of xs j = Some i then succ_of xs i else succ_of xs j)"
proof (induction xs)
  case (Cons a xs)
  show ?case
  proof (cases "a = j")
    case True
    then show ?thesis using Cons.prems by (auto simp: hd_opt_removeAll)
  next
    case False
    then show ?thesis using Cons succ_of_in [of xs j i] by auto
  qed
qed simp

lemma pred_of_removeAll:
  "distinct xs \<Longrightarrow> j \<noteq> i \<Longrightarrow>
    pred_of (removeAll i xs) j = (if pred_of xs j = Some i then pred_of xs i else pred_of xs j)"
  unfolding pred_of_def removeAll_rev by (rule succ_of_removeAll) auto

lemma last_opt_removeAll:
  "distinct xs \<Longrightarrow> last_opt (removeAll i xs) = (if last_opt xs = Some i then pred_of xs i else last_opt xs)"
  unfolding last_opt_def pred_of_def removeAll_rev by (rule hd_opt_removeAll) simp

lemma succ_of_not_in: "j \<notin> set xs \<Longrightarrow> succ_of xs j = None"
  by (induction xs) auto

lemma succ_of_append: "j \<notin> set xs \<Longrightarrow> succ_of (xs @ ys) j = succ_of ys j"
  by (induction xs) auto

lemma pred_of_None:
  assumes "i \<in> set xs" and "distinct xs"
  shows "pred_of xs i = None \<longleftrightarrow> hd_opt xs = Some i"
proof -
  obtain as bs where xs: "xs = as @ i # bs" using assms(1) by (meson split_list)
  with assms(2) have "pred_of xs i = hd_opt (rev as)" by (simp add: pred_of_def succ_of_append)
  then show ?thesis using xs assms(2) by (cases as) auto
qed

lemma succ_of_None:
  assumes "i \<in> set xs" and "distinct xs"
  shows "succ_of xs i = None \<longleftrightarrow> last_opt xs = Some i"
  using pred_of_None [of i "rev xs"] assms by (simp add: pred_of_def last_opt_def)

lemma succ_of_snoc:
  "distinct xs \<Longrightarrow> i \<notin> set xs \<Longrightarrow> succ_of (xs @ [i]) j =
    (if last_opt xs = Some j then Some i else succ_of xs j)"
proof (induction xs)
  case (Cons a xs)
  then show ?case
    by (cases xs) (auto simp: last_opt_def hd_opt_append dest: last_opt_in [unfolded last_opt_def])
qed simp

lemma pred_of_snoc:
  "i \<notin> set xs \<Longrightarrow> pred_of (xs @ [i]) j = (if j = i then last_opt xs else pred_of xs j)"
  by (simp add: pred_of_def last_opt_def)

subsection \<open>The arena\<close>

record recency_node =
  node_key :: string
  node_previous :: "nat option"
  node_next :: "nat option"

record recency =
  recency_nodes :: "recency_node option list"
  recency_head :: "nat option"
  recency_tail :: "nat option"
  free_recency_nodes :: "nat list"   \<comment> \<open>a \<open>Vec\<close>: pushed and popped at its end\<close>

text \<open>\<open>self.recency_nodes[i].as_ref()\<close>; out of range and vacant are the two panics.\<close>

definition node_at :: "nat \<Rightarrow> 'a recency_scheme \<Rightarrow> recency_node option" where
  "node_at i s = (if i < length (recency_nodes s) then recency_nodes s ! i else None)"

definition put_node :: "nat \<Rightarrow> recency_node option \<Rightarrow> 'a recency_scheme \<Rightarrow> 'a recency_scheme" where
  "put_node i n s = s\<lparr>recency_nodes := (recency_nodes s)[i := n]\<rparr>"

definition update_node ::
    "nat \<Rightarrow> (recency_node \<Rightarrow> recency_node) \<Rightarrow> 'a recency_scheme \<Rightarrow> 'a recency_scheme option" where
  "update_node i f s = (case node_at i s of None \<Rightarrow> None | Some n \<Rightarrow> Some (put_node i (Some (f n)) s))"

definition detach_recency_node :: "nat \<Rightarrow> 'a recency_scheme \<Rightarrow> 'a recency_scheme option" where
  "detach_recency_node i s = do {
    node \<leftarrow> node_at i s;
    s1 \<leftarrow> (case node_previous node of
      Some p \<Rightarrow> update_node p (\<lambda>n. n\<lparr>node_next := node_next node\<rparr>) s
    | None \<Rightarrow> Some (s\<lparr>recency_head := node_next node\<rparr>));
    s2 \<leftarrow> (case node_next node of
      Some q \<Rightarrow> update_node q (\<lambda>n. n\<lparr>node_previous := node_previous node\<rparr>) s1
    | None \<Rightarrow> Some (s1\<lparr>recency_tail := node_previous node\<rparr>));
    update_node i (\<lambda>n. n\<lparr>node_previous := None, node_next := None\<rparr>) s2
  }"

definition append_recency_node :: "nat \<Rightarrow> 'a recency_scheme \<Rightarrow> 'a recency_scheme option" where
  "append_recency_node i s = do {
    s1 \<leftarrow> update_node i (\<lambda>n. n\<lparr>node_previous := recency_tail s, node_next := None\<rparr>) s;
    s2 \<leftarrow> (case recency_tail s of
      Some t \<Rightarrow> update_node t (\<lambda>n. n\<lparr>node_next := Some i\<rparr>) s1
    | None \<Rightarrow> Some (s1\<lparr>recency_head := Some i\<rparr>));
    Some (s2\<lparr>recency_tail := Some i\<rparr>)
  }"

definition new_node :: "string \<Rightarrow> recency_node" where
  "new_node key = \<lparr>node_key = key, node_previous = None, node_next = None\<rparr>"

definition insert_recency_node :: "string \<Rightarrow> 'a recency_scheme \<Rightarrow> (nat \<times> 'a recency_scheme) option" where
  "insert_recency_node key s =
    (if free_recency_nodes s = [] then
       let i = length (recency_nodes s) in
       map_option (Pair i) (append_recency_node i
         (s\<lparr>recency_nodes := recency_nodes s @ [Some (new_node key)]\<rparr>))
     else
       let i = last (free_recency_nodes s) in
       if i < length (recency_nodes s) then
         map_option (Pair i) (append_recency_node i
           (put_node i (Some (new_node key)) (s\<lparr>free_recency_nodes := butlast (free_recency_nodes s)\<rparr>)))
       else None)"

definition remove_recency_node :: "nat \<Rightarrow> 'a recency_scheme \<Rightarrow> 'a recency_scheme option" where
  "remove_recency_node i s = do {
    s1 \<leftarrow> detach_recency_node i s;
    Some ((put_node i None s1)\<lparr>free_recency_nodes := free_recency_nodes s1 @ [i]\<rparr>)
  }"

text \<open>The end of \<open>touch\<close>: the handle moves to the tail unless it is there already.\<close>

definition touch_recency_node :: "nat \<Rightarrow> 'a recency_scheme \<Rightarrow> 'a recency_scheme option" where
  "touch_recency_node i s =
    (if recency_tail s = Some i then Some s
     else do { s1 \<leftarrow> detach_recency_node i s; append_recency_node i s1 })"

subsection \<open>The links agree with a list of handles\<close>

definition linked :: "nat list \<Rightarrow> 'a recency_scheme \<Rightarrow> bool" where
  "linked is s \<longleftrightarrow> distinct is \<and> recency_head s = hd_opt is \<and> recency_tail s = last_opt is \<and>
    (\<forall>i \<in> set is. \<exists>k. node_at i s =
      Some \<lparr>node_key = k, node_previous = pred_of is i, node_next = succ_of is i\<rparr>)"

text \<open>What the link operations leave alone.\<close>

definition key_at :: "nat \<Rightarrow> 'a recency_scheme \<Rightarrow> string option" where
  "key_at i s = map_option node_key (node_at i s)"

definition same_slots :: "'a recency_scheme \<Rightarrow> 'a recency_scheme \<Rightarrow> bool" where
  "same_slots s s' \<longleftrightarrow> length (recency_nodes s') = length (recency_nodes s) \<and>
    free_recency_nodes s' = free_recency_nodes s \<and> recency.more s' = recency.more s \<and>
    (\<forall>j. key_at j s' = key_at j s)"

lemma node_at_bound: "node_at i s = Some n \<Longrightarrow> i < length (recency_nodes s)"
  by (simp add: node_at_def split: if_splits)

lemma node_at_put [simp]:
  "i < length (recency_nodes s) \<Longrightarrow> node_at j (put_node i x s) = (if j = i then x else node_at j s)"
  by (simp add: node_at_def put_node_def)

lemma put_node_simps [simp]:
  "length (recency_nodes (put_node i x s)) = length (recency_nodes s)"
  "recency_head (put_node i x s) = recency_head s" "recency_tail (put_node i x s) = recency_tail s"
  "free_recency_nodes (put_node i x s) = free_recency_nodes s" "recency.more (put_node i x s) = recency.more s"
  by (simp_all add: put_node_def)

lemma node_at_updates [simp]:
  "node_at j (s\<lparr>recency_head := h\<rparr>) = node_at j s" "node_at j (s\<lparr>recency_tail := t\<rparr>) = node_at j s"
  "node_at j (s\<lparr>free_recency_nodes := f\<rparr>) = node_at j s"
  by (simp_all add: node_at_def)

lemma update_node_Some: "node_at i s = Some n \<Longrightarrow> update_node i f s = Some (put_node i (Some (f n)) s)"
  by (simp add: update_node_def)

lemma detach_linked:
  assumes "linked is s" and "i \<in> set is"
  shows "\<exists>s'. detach_recency_node i s = Some s' \<and> linked (removeAll i is) s' \<and> same_slots s s'"
proof -
  have d: "distinct is" and h: "recency_head s = hd_opt is" "recency_tail s = last_opt is"
    and nodes: "\<And>j. j \<in> set is \<Longrightarrow> \<exists>k. node_at j s =
      Some \<lparr>node_key = k, node_previous = pred_of is j, node_next = succ_of is j\<rparr>"
    using assms(1) by (auto simp: linked_def)
  obtain k where k: "node_at i s = Some \<lparr>node_key = k, node_previous = pred_of is i, node_next = succ_of is i\<rparr>"
    using nodes assms(2) by blast
  have lt: "j < length (recency_nodes s)" if "j \<in> set is" for j using nodes [OF that] node_at_bound by blast
  have ne: "succ_of is i \<noteq> Some i" "pred_of is i \<noteq> Some i"
    using succ_of_split [OF d, of i i] pred_of_iff [OF d, of i i] d by auto
  define N where "N j = (if j = i then Some \<lparr>node_key = k, node_previous = None, node_next = None\<rparr>
    else map_option (\<lambda>n. n\<lparr>node_previous := (if succ_of is i = Some j then pred_of is i else node_previous n),
      node_next := (if pred_of is i = Some j then succ_of is i else node_next n)\<rparr>) (node_at j s))" for j
  have "\<exists>s'. detach_recency_node i s = Some s' \<and> node_at i s' \<noteq> None \<and> (\<forall>j. node_at j s' = N j) \<and>
    recency_head s' = (if pred_of is i = None then succ_of is i else recency_head s) \<and>
    recency_tail s' = (if succ_of is i = None then pred_of is i else recency_tail s) \<and>
    length (recency_nodes s') = length (recency_nodes s) \<and>
    free_recency_nodes s' = free_recency_nodes s \<and> recency.more s' = recency.more s"
  proof (cases "pred_of is i")
    case None
    show ?thesis
    proof (cases "succ_of is i")
      case None
      with \<open>pred_of is i = None\<close> show ?thesis using k lt [OF assms(2)]
        by (auto simp: detach_recency_node_def update_node_def N_def option.map_id0 map_option_case split: option.split)
    next
      case (Some q)
      then have "q \<in> set is" using succ_of_in by fast
      then obtain kq where "node_at q s = Some kq" "q < length (recency_nodes s)" using nodes lt by blast
      with Some \<open>pred_of is i = None\<close> ne show ?thesis using k lt [OF assms(2)]
        by (auto simp: detach_recency_node_def update_node_def N_def map_option_case split: option.split)
    qed
  next
    case (Some p)
    then have p: "p \<in> set is" using pred_of_in by fast
    then obtain kp where kp: "node_at p s = Some kp" "p < length (recency_nodes s)" using nodes lt by blast
    show ?thesis
    proof (cases "succ_of is i")
      case None
      with Some kp ne show ?thesis using k lt [OF assms(2)]
        by (auto simp: detach_recency_node_def update_node_def N_def map_option_case split: option.split)
    next
      case (Some q)
      then have "q \<in> set is" using succ_of_in by fast
      then obtain kq where "node_at q s = Some kq" "q < length (recency_nodes s)" using nodes lt by blast
      with Some \<open>pred_of is i = Some p\<close> kp ne show ?thesis using k lt [OF assms(2)]
        by (auto simp: detach_recency_node_def update_node_def N_def map_option_case split: option.split)
    qed
  qed
  then obtain s' where s': "detach_recency_node i s = Some s'" "\<And>j. node_at j s' = N j"
    "recency_head s' = (if pred_of is i = None then succ_of is i else recency_head s)"
    "recency_tail s' = (if succ_of is i = None then pred_of is i else recency_tail s)"
    "length (recency_nodes s') = length (recency_nodes s)"
    "free_recency_nodes s' = free_recency_nodes s" "recency.more s' = recency.more s" by blast
  have "linked (removeAll i is) s'"
    unfolding linked_def
  proof (intro conjI ballI)
    show "distinct (removeAll i is)" using d by (rule distinct_removeAll)
    show "recency_head s' = hd_opt (removeAll i is)"
      using hd_opt_removeAll [OF d] pred_of_None [OF assms(2) d] s'(3) h by auto
    show "recency_tail s' = last_opt (removeAll i is)"
      using last_opt_removeAll [OF d] succ_of_None [OF assms(2) d] s'(4) h by auto
    show "\<exists>k. node_at j s' = Some \<lparr>node_key = k, node_previous = pred_of (removeAll i is) j,
        node_next = succ_of (removeAll i is) j\<rparr>" if "j \<in> set (removeAll i is)" for j
      using that nodes [of j] d
      by (auto simp: s'(2) N_def succ_of_removeAll pred_of_removeAll pred_of_iff)
  qed
  moreover have "same_slots s s'"
    using s' k by (auto simp: same_slots_def key_at_def N_def option.map_comp comp_def map_option_case split: option.split)
  ultimately show ?thesis using s'(1) by blast
qed

lemma append_linked:
  assumes "linked is s" and "i \<notin> set is" and "node_at i s \<noteq> None"
  shows "\<exists>s'. append_recency_node i s = Some s' \<and> linked (is @ [i]) s' \<and> same_slots s s'"
proof -
  have d: "distinct is" and h: "recency_head s = hd_opt is" "recency_tail s = last_opt is"
    and nodes: "\<And>j. j \<in> set is \<Longrightarrow> \<exists>k. node_at j s =
      Some \<lparr>node_key = k, node_previous = pred_of is j, node_next = succ_of is j\<rparr>"
    using assms(1) by (auto simp: linked_def)
  obtain n where n: "node_at i s = Some n" "i < length (recency_nodes s)" using assms(3) node_at_bound by blast
  define N where "N j = (if j = i then Some (n\<lparr>node_previous := last_opt is, node_next := None\<rparr>)
    else map_option (\<lambda>m. m\<lparr>node_next := (if last_opt is = Some j then Some i else node_next m)\<rparr>) (node_at j s))" for j
  have "\<exists>s'. append_recency_node i s = Some s' \<and> (\<forall>j. node_at j s' = N j) \<and>
    recency_head s' = (if is = [] then Some i else recency_head s) \<and> recency_tail s' = Some i \<and>
    length (recency_nodes s') = length (recency_nodes s) \<and>
    free_recency_nodes s' = free_recency_nodes s \<and> recency.more s' = recency.more s"
  proof (cases "last_opt is")
    case None
    then show ?thesis using n h
      by (auto simp: append_recency_node_def update_node_def N_def map_option_case split: option.split)
  next
    case (Some t)
    then have "t \<in> set is" "is \<noteq> []" using last_opt_in by fastforce+
    then obtain m where "node_at t s = Some m" "t < length (recency_nodes s)" "t \<noteq> i"
      using nodes node_at_bound assms(2) by blast
    with Some n h \<open>is \<noteq> []\<close> show ?thesis
      by (auto simp: append_recency_node_def update_node_def N_def map_option_case split: option.split)
  qed
  then obtain s' where s': "append_recency_node i s = Some s'" "\<And>j. node_at j s' = N j"
    "recency_head s' = (if is = [] then Some i else recency_head s)" "recency_tail s' = Some i"
    "length (recency_nodes s') = length (recency_nodes s)"
    "free_recency_nodes s' = free_recency_nodes s" "recency.more s' = recency.more s" by blast
  have "linked (is @ [i]) s'"
    unfolding linked_def
  proof (intro conjI ballI)
    show "\<exists>k. node_at j s' = Some \<lparr>node_key = k, node_previous = pred_of (is @ [i]) j,
        node_next = succ_of (is @ [i]) j\<rparr>" if "j \<in> set (is @ [i])" for j
      using that nodes [of j] d assms(2) last_opt_in [of "is" i]
      by (cases n) (auto simp: s'(2) N_def succ_of_snoc pred_of_snoc succ_of_not_in)
  qed (use d assms(2) s' h in \<open>auto simp: hd_opt_append\<close>)
  moreover have "same_slots s s'"
    using s' n by (auto simp: same_slots_def key_at_def N_def option.map_comp comp_def map_option_case split: option.split)
  ultimately show ?thesis using s'(1) by blast
qed

subsection \<open>The queue of handles\<close>

text \<open>
  What a client of the recency list may rely on: as long as it only passes handles of live
  entries, no operation panics, and \<open>is\<close> (the live handles, oldest first) changes like a list;
  \<open>rest\<close> is the part of the state the operations do not touch.
\<close>

locale recency_queue =
  fixes ok :: "'h list \<Rightarrow> 's \<Rightarrow> bool" and key_of :: "'h \<Rightarrow> 's \<Rightarrow> 'k option" and rest :: "'s \<Rightarrow> 'r"
    and ins :: "'k \<Rightarrow> 's \<Rightarrow> ('h \<times> 's) option" and del :: "'h \<Rightarrow> 's \<Rightarrow> 's option"
    and bump :: "'h \<Rightarrow> 's \<Rightarrow> 's option"
  assumes live: "ok is s \<Longrightarrow> distinct is \<and> (\<forall>i \<in> set is. key_of i s \<noteq> None)"
    and ins: "ok is s \<Longrightarrow> \<exists>i s'. ins k s = Some (i, s') \<and> i \<notin> set is \<and> ok (is @ [i]) s' \<and>
      key_of i s' = Some k \<and> (\<forall>j \<in> set is. key_of j s' = key_of j s) \<and> rest s' = rest s"
    and del: "ok is s \<Longrightarrow> i \<in> set is \<Longrightarrow> \<exists>s'. del i s = Some s' \<and> ok (removeAll i is) s' \<and>
      (\<forall>j \<in> set is - {i}. key_of j s' = key_of j s) \<and> rest s' = rest s"
    and bump: "ok is s \<Longrightarrow> i \<in> set is \<Longrightarrow> \<exists>s'. bump i s = Some s' \<and> ok (removeAll i is @ [i]) s' \<and>
      (\<forall>j \<in> set is. key_of j s' = key_of j s) \<and> rest s' = rest s"
begin

text \<open>The keys of the live entries, oldest first.\<close>

definition keys :: "'h list \<Rightarrow> 's \<Rightarrow> 'k list" where
  "keys is s = map (\<lambda>i. the (key_of i s)) is"

lemma keys_cong: "(\<And>j. j \<in> set is \<Longrightarrow> key_of j s' = key_of j s) \<Longrightarrow> keys is s' = keys is s"
  by (simp add: keys_def)

lemma ins_keys:
  assumes "ok is s"
  obtains i s' where "ins k s = Some (i, s')" "ok (is @ [i]) s'" "keys (is @ [i]) s' = keys is s @ [k]"
    "i \<notin> set is" "key_of i s' = Some k" "\<forall>j \<in> set is. key_of j s' = key_of j s" "rest s' = rest s"
proof -
  obtain i s' where a: "ins k s = Some (i, s')" "ok (is @ [i]) s'" "i \<notin> set is" "key_of i s' = Some k"
    "\<forall>j \<in> set is. key_of j s' = key_of j s" "rest s' = rest s" using ins [OF assms, of k] by blast
  then have "keys (is @ [i]) s' = keys is s @ [k]" by (simp add: keys_def)
  with a that show ?thesis by blast
qed

text \<open>When the keys are distinct, removing a handle removes its key.\<close>

lemma removeAll_keys:
  assumes "distinct (keys is s)" and "i \<in> set is" and "key_of i s = Some k"
  shows "keys (removeAll i is) s = removeAll k (keys is s)"
proof -
  have "the (key_of j s) = k \<longleftrightarrow> j = i" if "j \<in> set is" for j
    using that assms unfolding keys_def distinct_map inj_on_def by (metis option.sel)
  then show ?thesis
    unfolding keys_def removeAll_filter_not_eq filter_map
    by (intro arg_cong [of _ _ "map _"] filter_cong) auto
qed

lemma del_keys:
  assumes "ok is s" and "i \<in> set is"
  obtains s' where "del i s = Some s'" "ok (removeAll i is) s'" "keys (removeAll i is) s' = keys (removeAll i is) s"
    "\<forall>j \<in> set (removeAll i is). key_of j s' = key_of j s" "rest s' = rest s"
proof -
  obtain s' where a: "del i s = Some s'" "ok (removeAll i is) s'"
    "\<forall>j \<in> set is - {i}. key_of j s' = key_of j s" "rest s' = rest s" using del [OF assms] by blast
  then have "keys (removeAll i is) s' = keys (removeAll i is) s" by (intro keys_cong) auto
  with a that show ?thesis by auto
qed

lemma bump_keys:
  assumes "ok is s" and "i \<in> set is"
  obtains s' where "bump i s = Some s'" "ok (removeAll i is @ [i]) s'"
    "keys (removeAll i is @ [i]) s' = keys (removeAll i is) s @ [the (key_of i s)]"
    "\<forall>j \<in> set is. key_of j s' = key_of j s" "rest s' = rest s"
proof -
  obtain s' where a: "bump i s = Some s'" "ok (removeAll i is @ [i]) s'"
    "\<forall>j \<in> set is. key_of j s' = key_of j s" "rest s' = rest s" using bump [OF assms] by blast
  then have "keys (removeAll i is @ [i]) s' = keys (removeAll i is @ [i]) s"
    using assms(2) by (intro keys_cong) auto
  then show ?thesis using a that by (simp add: keys_def)
qed

end

text \<open>The arena: its chain is \<open>is\<close>, its vacant slots are exactly the free list.\<close>

definition recency_ok :: "nat list \<Rightarrow> 'a recency_scheme \<Rightarrow> bool" where
  "recency_ok is s \<longleftrightarrow> linked is s \<and> distinct (free_recency_nodes s) \<and>
    set (free_recency_nodes s) = {i. i < length (recency_nodes s) \<and> i \<notin> set is} \<and>
    (\<forall>i. i \<notin> set is \<longrightarrow> node_at i s = None)"

lemma recency_ok_empty:
  "recency_nodes s = [] \<Longrightarrow> recency_head s = None \<Longrightarrow> recency_tail s = None \<Longrightarrow>
    free_recency_nodes s = [] \<Longrightarrow> recency_ok [] s"
  by (simp add: recency_ok_def linked_def node_at_def)

lemma linked_node: "linked is s \<Longrightarrow> i \<in> set is \<Longrightarrow> node_at i s \<noteq> None \<and> i < length (recency_nodes s)"
  using node_at_bound unfolding linked_def by blast

lemma key_at_None [simp]: "key_at i s = None \<longleftrightarrow> node_at i s = None"
  by (simp add: key_at_def)

lemma same_slots_vacant: "same_slots s s' \<Longrightarrow> node_at j s' = None \<longleftrightarrow> node_at j s = None"
  by (metis key_at_None same_slots_def)

lemma linked_cong:
  assumes "linked is s" and "recency_head s' = recency_head s" and "recency_tail s' = recency_tail s"
    and "\<And>j. j \<in> set is \<Longrightarrow> node_at j s' = node_at j s"
  shows "linked is s'"
  using assms by (simp add: linked_def)

lemma insert_recency_ok:
  assumes "recency_ok is s"
  shows "\<exists>i s'. insert_recency_node k s = Some (i, s') \<and> i \<notin> set is \<and> recency_ok (is @ [i]) s' \<and>
    key_at i s' = Some k \<and> (\<forall>j \<in> set is. key_at j s' = key_at j s) \<and> recency.more s' = recency.more s"
proof -
  note ok = assms [unfolded recency_ok_def]
  define i where "i = (if free_recency_nodes s = [] then length (recency_nodes s) else last (free_recency_nodes s))"
  define t where "t = (if free_recency_nodes s = []
    then s\<lparr>recency_nodes := recency_nodes s @ [Some (new_node k)]\<rparr>
    else put_node i (Some (new_node k)) (s\<lparr>free_recency_nodes := butlast (free_recency_nodes s)\<rparr>))"
  have live: "\<forall>j \<in> set is. j < length (recency_nodes s)" using ok linked_node by blast
  have i: "i \<notin> set is" "free_recency_nodes s \<noteq> [] \<Longrightarrow> i < length (recency_nodes s)"
    using ok live last_in_set [of "free_recency_nodes s"] by (auto simp: i_def)
  have node: "node_at j t = (if j = i then Some (new_node k) else node_at j s)" for j
    using i(2) by (auto simp: t_def i_def node_at_def put_node_def nth_append)
  have len: "length (recency_nodes t) = max (length (recency_nodes s)) (Suc i)"
    using i(2) by (auto simp: t_def i_def)
  have e: "insert_recency_node k s = map_option (Pair i) (append_recency_node i t)"
    using i(2) by (auto simp: insert_recency_node_def Let_def t_def i_def)
  have "recency_head t = recency_head s" "recency_tail t = recency_tail s" by (simp_all add: t_def)
  moreover have "node_at j t = node_at j s" if "j \<in> set is" for j using that i(1) by (auto simp: node)
  ultimately have "linked is t" using ok linked_cong by blast
  then obtain s' where s': "append_recency_node i t = Some s'" "linked (is @ [i]) s'" "same_slots t s'"
    using append_linked [of "is" t i] i(1) by (auto simp: node)
  have free: "distinct (free_recency_nodes t)" "set (free_recency_nodes t) = set (free_recency_nodes s) - {i}"
  proof -
    have "distinct (butlast xs) \<and> set (butlast xs) = set xs - {last xs}" if "xs \<noteq> []" "distinct xs" for xs :: "nat list"
      using that by (cases xs rule: rev_cases) auto
    then show "distinct (free_recency_nodes t)" "set (free_recency_nodes t) = set (free_recency_nodes s) - {i}"
      using ok by (auto simp: t_def i_def)
  qed
  have same: "key_at j s' = key_at j t" "node_at j s' = None \<longleftrightarrow> node_at j t = None" for j
    using s'(3) same_slots_vacant by (auto simp: same_slots_def)
  have "recency_ok (is @ [i]) s'"
    unfolding recency_ok_def
  proof (intro conjI allI impI)
    show "set (free_recency_nodes s') = {j. j < length (recency_nodes s') \<and> j \<notin> set (is @ [i])}"
      using s'(3) free(2) ok i len by (auto simp: same_slots_def i_def)
  qed (use s' free ok same node in \<open>auto simp: same_slots_def\<close>)
  moreover have "recency.more t = recency.more s" by (simp add: t_def)
  ultimately show ?thesis
    using e s' i(1) same(1) node
    by (intro exI [of _ i] exI [of _ s']) (auto simp: same_slots_def key_at_def new_node_def)
qed

lemma remove_recency_ok:
  assumes "recency_ok is s" and "i \<in> set is"
  shows "\<exists>s'. remove_recency_node i s = Some s' \<and> recency_ok (removeAll i is) s' \<and>
    (\<forall>j \<in> set is - {i}. key_at j s' = key_at j s) \<and> recency.more s' = recency.more s"
proof -
  note ok = assms(1) [unfolded recency_ok_def]
  obtain t where t: "detach_recency_node i s = Some t" "linked (removeAll i is) t" "same_slots s t"
    using detach_linked ok assms(2) by blast
  define s' where "s' = (put_node i None t)\<lparr>free_recency_nodes := free_recency_nodes t @ [i]\<rparr>"
  have lt: "i < length (recency_nodes t)" using linked_node ok assms(2) t(3) by (metis same_slots_def)
  have e: "remove_recency_node i s = Some s'" using t(1) by (simp add: remove_recency_node_def s'_def)
  have node: "node_at j s' = (if j = i then None else node_at j t)" for j using lt by (simp add: s'_def)
  have "linked (removeAll i is) s'"
    using node by (intro linked_cong [OF t(2)]) (auto simp: s'_def)
  then have "recency_ok (removeAll i is) s'"
    using ok t(3) lt assms(2) node same_slots_vacant [OF t(3)]
    by (auto simp: recency_ok_def same_slots_def s'_def)
  moreover have "recency.more s' = recency.more s" using t(3) by (simp add: s'_def same_slots_def)
  ultimately show ?thesis using e t(3) node by (auto simp: same_slots_def key_at_def)
qed

lemma touch_recency_ok:
  assumes "recency_ok is s" and "i \<in> set is"
  shows "\<exists>s'. touch_recency_node i s = Some s' \<and> recency_ok (removeAll i is @ [i]) s' \<and>
    (\<forall>j \<in> set is. key_at j s' = key_at j s) \<and> recency.more s' = recency.more s"
proof -
  note ok = assms(1) [unfolded recency_ok_def]
  show ?thesis
  proof (cases "recency_tail s = Some i")
    case True
    then have "last_opt is = Some i" using ok by (simp add: linked_def)
    then obtain xs where xs: "is = xs @ [i]" by (cases "is" rule: rev_cases) auto
    moreover have "distinct is" using ok by (simp add: linked_def)
    ultimately have "removeAll i is @ [i] = is" by (auto simp: removeAll_id)
    then show ?thesis using True assms(1) by (simp add: touch_recency_node_def)
  next
    case False
    obtain t where t: "detach_recency_node i s = Some t" "linked (removeAll i is) t" "same_slots s t"
      using detach_linked ok assms(2) by blast
    have live: "node_at i t \<noteq> None" using same_slots_vacant [OF t(3)] linked_node ok assms(2) by blast
    obtain s' where s': "append_recency_node i t = Some s'" "linked (removeAll i is @ [i]) s'" "same_slots t s'"
      using append_linked [OF t(2), of i] live by auto
    have "recency_ok (removeAll i is @ [i]) s'"
      using ok s' t(3) assms(2) same_slots_vacant [OF t(3)] same_slots_vacant [OF s'(3)]
      by (auto simp: recency_ok_def same_slots_def)
    then show ?thesis using False t s'(1,3) by (auto simp: touch_recency_node_def same_slots_def)
  qed
qed

interpretation arena: recency_queue recency_ok key_at recency.more
  insert_recency_node remove_recency_node touch_recency_node
proof
  show "distinct is \<and> (\<forall>i \<in> set is. key_at i s \<noteq> None)" if "recency_ok is s" for "is" and s :: "'b recency_scheme"
    using that linked_node by (auto simp: recency_ok_def linked_def)
qed (fact insert_recency_ok remove_recency_ok touch_recency_ok)+

subsection \<open>Compaction\<close>

text \<open>
  \<open>compact_retained_storage\<close> walks the chain from the head; the walk may in principle run
  forever or meet a vacant slot, both are \<open>None\<close>.
\<close>

partial_function (option) walk :: "nat option \<Rightarrow> 'a recency_scheme \<Rightarrow> string list option" where
  "walk cursor s = (case cursor of
      None \<Rightarrow> Some []
    | Some i \<Rightarrow> do { n \<leftarrow> node_at i s; ks \<leftarrow> walk (node_next n) s; Some (node_key n # ks) })"

definition compacted :: "string list \<Rightarrow> recency_node option list" where
  "compacted ks = map (\<lambda>i. Some \<lparr>node_key = ks ! i,
    node_previous = (if i = 0 then None else Some (i - 1)),
    node_next = (if i + 1 < length ks then Some (i + 1) else None)\<rparr>) [0..<length ks]"

definition compact_recency :: "string list \<Rightarrow> 'a recency_scheme \<Rightarrow> 'a recency_scheme" where
  "compact_recency ks s = s\<lparr>recency_nodes := compacted ks,
    recency_head := (if length ks > 0 then Some 0 else None),
    recency_tail := (if length ks > 0 then Some (length ks - 1) else None),
    free_recency_nodes := []\<rparr>"

lemma walk_chain:
  assumes "linked (as @ bs) s"
  shows "walk (hd_opt bs) s = Some (map (\<lambda>i. the (key_at i s)) bs)"
  using assms
proof (induction bs arbitrary: as)
  case Nil
  then show ?case by (subst walk.simps) simp
next
  case (Cons b bs)
  then have d: "distinct (as @ b # bs)" by (simp add: linked_def)
  obtain k where k: "node_at b s = Some \<lparr>node_key = k, node_previous = pred_of (as @ b # bs) b,
      node_next = succ_of (as @ b # bs) b\<rparr>"
    using Cons.prems by (auto simp: linked_def)
  have "succ_of (as @ b # bs) b = hd_opt bs" using d by (simp add: succ_of_append)
  moreover have "walk (hd_opt bs) s = Some (map (\<lambda>i. the (key_at i s)) bs)"
    using Cons.IH [of "as @ [b]"] Cons.prems by simp
  ultimately show ?case using k by (subst walk.simps) (simp add: key_at_def)
qed

lemma walk_keys: "recency_ok is s \<Longrightarrow> walk (recency_head s) s = Some (arena.keys is s)"
  using walk_chain [of "[]" "is" s] by (simp add: recency_ok_def arena.keys_def linked_def)

lemma upt_links:
  "last_opt [0..<n] = (if n = 0 then None else Some (n - 1))"
  "j < n \<Longrightarrow> succ_of [0..<n] j = (if j + 1 < n then Some (j + 1) else None)"
  "j < n \<Longrightarrow> pred_of [0..<n] j = (if j = 0 then None else Some (j - 1))"
proof -
  show l: "last_opt [0..<n] = (if n = 0 then None else Some (n - 1))" for n by (cases n) auto
  show "succ_of [0..<n] j = (if j + 1 < n then Some (j + 1) else None)" if "j < n"
    using that by (induction n) (auto simp: succ_of_snoc succ_of_not_in l less_Suc_eq)
  show "pred_of [0..<n] j = (if j = 0 then None else Some (j - 1))" if "j < n"
    using that by (induction n) (auto simp: pred_of_snoc l less_Suc_eq)
qed

lemma compact_recency_ok:
  "recency_ok [0..<length ks] (compact_recency ks s) \<and> arena.keys [0..<length ks] (compact_recency ks s) = ks \<and>
    recency.more (compact_recency ks s) = recency.more s"
proof -
  have n: "node_at i (compact_recency ks s) = (if i < length ks then Some \<lparr>node_key = ks ! i,
      node_previous = (if i = 0 then None else Some (i - 1)),
      node_next = (if i + 1 < length ks then Some (i + 1) else None)\<rparr> else None)" for i
    by (simp add: node_at_def compact_recency_def compacted_def)
  have hd: "hd_opt [0..<length ks] = (if ks = [] then None else Some 0)"
    by (cases ks) (simp_all add: upt_conv_Cons del: upt_Suc)
  have l: "linked [0..<length ks] (compact_recency ks s)"
    unfolding linked_def n
    by (auto simp: upt_links compact_recency_def hd)
  have "\<forall>i < length ks. key_at i (compact_recency ks s) = Some (ks ! i)" by (simp add: key_at_def n)
  then have "arena.keys [0..<length ks] (compact_recency ks s) = ks"
    unfolding arena.keys_def by (intro trans [OF map_cong map_nth]) auto
  moreover have "recency_ok [0..<length ks] (compact_recency ks s)"
    unfolding recency_ok_def
  proof (intro conjI allI impI l)
    have "length (recency_nodes (compact_recency ks s)) = length ks" "free_recency_nodes (compact_recency ks s) = []"
      by (simp_all add: compact_recency_def compacted_def)
    then show "distinct (free_recency_nodes (compact_recency ks s))"
      "set (free_recency_nodes (compact_recency ks s)) =
        {i. i < length (recency_nodes (compact_recency ks s)) \<and> i \<notin> set [0..<length ks]}" by simp_all
    show "node_at i (compact_recency ks s) = None" if "i \<notin> set [0..<length ks]" for i
      using that by (simp add: n)
  qed
  moreover have "recency.more (compact_recency ks s) = recency.more s" by (simp add: compact_recency_def)
  ultimately show ?thesis by blast
qed

end
