(* ===== verification/CacheStore.thy ===== *)
theory CacheStore
  imports Recency CacheKey "HOL-Library.AList"
begin

text \<open>
  \<open>crates/polygon-nesting-core/src/caches/store.rs\<close> and \<open>telemetry.rs\<close>: the geometry cache of one
  job, a byte-bounded LRU store with its telemetry. Values are dynamic (\<open>Box<dyn Any>\<close>): a lookup
  passes the \<open>downcast\<close> of its type. Capacities of strings and the sizes of two structs, which the
  allocator and the compiler choose, are arguments. A panic is \<open>None\<close>.
\<close>

subsection \<open>Telemetry\<close>

record cache_namespace_telemetry =
  lookups :: u64
  hits :: u64
  misses :: u64
  stores :: u64
  stale_detections :: u64
  stale_removals :: u64
  duplicate_computations :: u64
  single_flight_waits :: u64
  shard_lock_wait_nanos :: u64
  shard_lock_contended_acquisitions :: u64
  front_cache_hits :: u64
  backing_cache_hits :: u64
  cloning_hits :: u64
  ns_cap_bytes :: u64
  ns_admissions :: u64
  ns_replacements :: u64
  ns_evictions :: u64
  ns_evicted_bytes :: u64
  ns_oversized_rejections :: u64
  ns_entries :: u64
  approx_bytes :: u64
  ns_peak_bytes :: u64
  computation_time_nanos :: u64

definition namespace_telemetry_default :: cache_namespace_telemetry where
  "namespace_telemetry_default = \<lparr>lookups = 0, hits = 0, misses = 0, stores = 0, stale_detections = 0,
    stale_removals = 0, duplicate_computations = 0, single_flight_waits = 0, shard_lock_wait_nanos = 0,
    shard_lock_contended_acquisitions = 0, front_cache_hits = 0, backing_cache_hits = 0, cloning_hits = 0,
    ns_cap_bytes = 0, ns_admissions = 0, ns_replacements = 0, ns_evictions = 0, ns_evicted_bytes = 0,
    ns_oversized_rejections = 0, ns_entries = 0, approx_bytes = 0, ns_peak_bytes = 0, computation_time_nanos = 0\<rparr>"

record cache_telemetry_snapshot =
  namespaces :: "string \<rightharpoonup> cache_namespace_telemetry"
  cap_bytes :: u64
  current_bytes :: u64
  peak_bytes :: u64
  admissions :: u64
  replacements :: u64
  evictions :: u64
  evicted_bytes :: u64
  oversized_rejections :: u64
  cache_instances :: u64

definition snapshot_default :: cache_telemetry_snapshot where
  "snapshot_default = \<lparr>namespaces = Map.empty, cap_bytes = 0, current_bytes = 0, peak_bytes = 0,
    admissions = 0, replacements = 0, evictions = 0, evicted_bytes = 0, oversized_rejections = 0,
    cache_instances = 0\<rparr>"

text \<open>\<open>namespace\<close>, and an update through \<open>namespace_mut\<close>, which creates the entry.\<close>

definition namespace_counters :: "string \<Rightarrow> cache_telemetry_snapshot \<Rightarrow> cache_namespace_telemetry" where
  "namespace_counters ns t = (case namespaces t ns of None \<Rightarrow> namespace_telemetry_default | Some c \<Rightarrow> c)"

definition namespace_mut ::
    "string \<Rightarrow> (cache_namespace_telemetry \<Rightarrow> cache_namespace_telemetry) \<Rightarrow>
      cache_telemetry_snapshot \<Rightarrow> cache_telemetry_snapshot" where
  "namespace_mut ns f t = t\<lparr>namespaces := (namespaces t)(ns \<mapsto> f (namespace_counters ns t))\<rparr>"

subsection \<open>The store\<close>

datatype geometry_cache_probe = HotValid | Cold | StaleRemoved

definition GEOMETRY_CACHE_DEFAULT_CAP_BYTES :: u64 where
  "GEOMETRY_CACHE_DEFAULT_CAP_BYTES = 56 * 1024 * 1024"

definition HASHMAP_ENTRY_OVERHEAD_BYTES :: u64 where
  "HASHMAP_ENTRY_OVERHEAD_BYTES = 64"

record 'v cache_entry =
  entry_value :: 'v
  charge_bytes :: u64
  entry_namespace :: string
  recency_node :: nat

record 'v store = recency +
  entries :: "string \<rightharpoonup> 'v cache_entry"
  byte_cap :: u64
  telemetry :: cache_telemetry_snapshot

definition with_byte_cap :: "u64 \<Rightarrow> 'v store" where
  "with_byte_cap cap = \<lparr>recency_nodes = [], recency_head = None, recency_tail = None,
    free_recency_nodes = [], entries = Map.empty, byte_cap = cap,
    telemetry = snapshot_default\<lparr>cache_instances := 1, cap_bytes := cap\<rparr>\<rparr>"

definition store_new :: "'v store" where
  "store_new = with_byte_cap GEOMETRY_CACHE_DEFAULT_CAP_BYTES"

definition count :: "string \<Rightarrow> (cache_namespace_telemetry \<Rightarrow> cache_namespace_telemetry) \<Rightarrow> 'v store \<Rightarrow> 'v store" where
  "count ns f s = s\<lparr>telemetry := namespace_mut ns f (telemetry s)\<rparr>"

definition record_cloning_hit :: "string \<Rightarrow> 'v store \<Rightarrow> 'v store" where
  "record_cloning_hit ns = count ns (\<lambda>c. c\<lparr>cloning_hits := sat_add (cloning_hits c) 1\<rparr>)"

definition record_hit :: "string \<Rightarrow> 'v store \<Rightarrow> 'v store" where
  "record_hit ns = count ns (\<lambda>c. c\<lparr>hits := sat_add (hits c) 1,
    backing_cache_hits := sat_add (backing_cache_hits c) 1\<rparr>)"

definition record_stale_detection :: "string \<Rightarrow> 'v store \<Rightarrow> 'v store" where
  "record_stale_detection ns = count ns (\<lambda>c. c\<lparr>stale_detections := sat_add (stale_detections c) 1\<rparr>)"

definition record_oversized_rejection :: "string \<Rightarrow> 'v store \<Rightarrow> 'v store" where
  "record_oversized_rejection ns s =
    (let s1 = count ns (\<lambda>c. c\<lparr>ns_cap_bytes := byte_cap s,
        ns_oversized_rejections := sat_add (ns_oversized_rejections c) 1\<rparr>) s
     in s1\<lparr>telemetry := (telemetry s1)\<lparr>
        oversized_rejections := sat_add (oversized_rejections (telemetry s1)) 1\<rparr>\<rparr>)"

definition add_current :: "string \<Rightarrow> u64 \<Rightarrow> 'v store \<Rightarrow> 'v store" where
  "add_current ns charge s =
    (let now = sat_add (current_bytes (telemetry s)) charge;
         s1 = s\<lparr>telemetry := (telemetry s)\<lparr>current_bytes := now,
           peak_bytes := max (peak_bytes (telemetry s)) now\<rparr>\<rparr>
     in count ns (\<lambda>c. let bytes = sat_add (approx_bytes c) charge in
          c\<lparr>ns_cap_bytes := byte_cap s, approx_bytes := bytes,
            ns_peak_bytes := max (ns_peak_bytes c) bytes\<rparr>) s1)"

definition subtract_current :: "string \<Rightarrow> u64 \<Rightarrow> bool \<Rightarrow> 'v store \<Rightarrow> 'v store" where
  "subtract_current ns charge evicted s =
    (let s1 = s\<lparr>telemetry := (telemetry s)\<lparr>
           current_bytes := sat_sub (current_bytes (telemetry s)) charge\<rparr>\<rparr>;
         s2 = count ns (\<lambda>c. c\<lparr>approx_bytes := sat_sub (approx_bytes c) charge\<rparr>) s1
     in if evicted then
          let s3 = count ns (\<lambda>c. c\<lparr>ns_entries := sat_sub (ns_entries c) 1,
                ns_evictions := sat_add (ns_evictions c) 1,
                ns_evicted_bytes := sat_add (ns_evicted_bytes c) charge\<rparr>) s2
          in s3\<lparr>telemetry := (telemetry s3)\<lparr>evictions := sat_add (evictions (telemetry s3)) 1,
                evicted_bytes := sat_add (evicted_bytes (telemetry s3)) charge\<rparr>\<rparr>
        else s2)"

definition touch :: "string \<Rightarrow> 'v store \<Rightarrow> 'v store option" where
  "touch serialized s = (case entries s serialized of
      None \<Rightarrow> Some s
    | Some e \<Rightarrow> touch_recency_node (recency_node e) s)"

text \<open>\<open>probe\<close>, \<open>get\<close> and \<open>probe_valid\<close>; \<open>inspect\<close> is the caller's closure.\<close>

definition probe :: "('v \<Rightarrow> 'a option) \<Rightarrow> geometry_cache_key \<Rightarrow> ('a option \<Rightarrow> 'r) \<Rightarrow> 'v store \<Rightarrow> ('r \<times> 'v store) option" where
  "probe downcast key inspect s =
    (let serialized = serialize_geometry_cache_key key;
         present = Option.bind (entries s serialized) (\<lambda>e. downcast (entry_value e));
         result = inspect present;
         s1 = count (key_namespace key) (\<lambda>c. c\<lparr>lookups := sat_add (lookups c) 1\<rparr>) s
     in map_option (Pair result)
         (if present \<noteq> None then touch serialized s1
          else Some (count (key_namespace key) (\<lambda>c. c\<lparr>misses := sat_add (misses c) 1\<rparr>) s1)))"

text \<open>
  \<open>compact_retained_storage\<close>: the new slots are written to the entries one by one; a key of the
  chain without an entry panics.
\<close>

fun renumber :: "nat \<Rightarrow> string list \<Rightarrow> (string \<rightharpoonup> 'v cache_entry) \<Rightarrow> (string \<rightharpoonup> 'v cache_entry) option" where
  "renumber i [] m = Some m"
| "renumber i (k # ks) m = (case m k of
      None \<Rightarrow> None
    | Some e \<Rightarrow> renumber (Suc i) ks (m(k \<mapsto> e\<lparr>recency_node := i\<rparr>)))"

definition compact_retained_storage :: "'v store \<Rightarrow> 'v store option" where
  "compact_retained_storage s = do {
    ordered_keys \<leftarrow> walk (recency_head s) s;
    m \<leftarrow> renumber 0 ordered_keys (entries s);
    Some (compact_recency ordered_keys (s\<lparr>entries := m\<rparr>))
  }"

definition remove :: "geometry_cache_key \<Rightarrow> 'v store \<Rightarrow> 'v store option" where
  "remove key s =
    (let serialized = serialize_geometry_cache_key key;
         s1 = count (key_namespace key) (\<lambda>c. c\<lparr>stale_removals := sat_add (stale_removals c) 1\<rparr>)
           (s\<lparr>entries := (entries s)(serialized := None)\<rparr>)
     in case entries s serialized of
          None \<Rightarrow> Some s1
        | Some removed \<Rightarrow> do {
            s2 \<leftarrow> remove_recency_node (recency_node removed) s1;
            let s3 = subtract_current (entry_namespace removed) (charge_bytes removed) False s2;
            compact_retained_storage (count (entry_namespace removed)
              (\<lambda>c. c\<lparr>ns_entries := sat_sub (ns_entries c) 1\<rparr>) s3)
          })"

definition probe_valid :: "('v \<Rightarrow> 'a option) \<Rightarrow> geometry_cache_key \<Rightarrow> ('a \<Rightarrow> bool) \<Rightarrow> 'v store \<Rightarrow>
    (geometry_cache_probe \<times> 'v store) option" where
  "probe_valid downcast key is_valid s = (case probe downcast key (map_option is_valid) s of
      None \<Rightarrow> None
    | Some (Some True, s1) \<Rightarrow> Some (HotValid, s1)
    | Some (Some False, s1) \<Rightarrow>
        map_option (Pair StaleRemoved) (remove key (record_stale_detection (key_namespace key) s1))
    | Some (None, s1) \<Rightarrow> Some (Cold, s1))"

definition cache_get :: "('v \<Rightarrow> 'a option) \<Rightarrow> geometry_cache_key \<Rightarrow> 'v store \<Rightarrow> ('a option \<times> 'v store) option" where
  "cache_get downcast key s = map_option
    (\<lambda>(value, s1). (value, if value \<noteq> None then record_cloning_hit (key_namespace key) s1 else s1))
    (probe downcast key (\<lambda>cached. cached) s)"

text \<open>Charging.\<close>

definition conservative_entry_charge :: "u64 \<Rightarrow> u64 \<Rightarrow> u64 \<Rightarrow> u64 \<Rightarrow> u64 \<Rightarrow> u64" where
  "conservative_entry_charge entry_size node_size key_capacity namespace_capacity retained_value_charge =
    (case do {
        a \<leftarrow> checked_add retained_value_charge key_capacity;
        b \<leftarrow> checked_add a key_capacity;
        c \<leftarrow> checked_add b namespace_capacity;
        d \<leftarrow> checked_add c HASHMAP_ENTRY_OVERHEAD_BYTES;
        e \<leftarrow> checked_add d entry_size;
        checked_add e node_size
      } of None \<Rightarrow> of_nat u64_max | Some charge \<Rightarrow> charge)"

text \<open>The eviction loop of \<open>set\<close>; the boolean is \<open>evicted_any\<close>.\<close>

partial_function (option) evict_loop :: "u64 \<Rightarrow> bool \<Rightarrow> 'v store \<Rightarrow> (bool \<times> 'v store) option" where
  "evict_loop entry_charge evicted_any s =
    (if byte_cap s < sat_add (current_bytes (telemetry s)) entry_charge then
       (case recency_head s of
          None \<Rightarrow> Some (evicted_any, s)
        | Some oldest \<Rightarrow> do {
            node \<leftarrow> node_at oldest s;
            s1 \<leftarrow> remove_recency_node oldest s;
            (case entries s1 (node_key node) of
               None \<Rightarrow> evict_loop entry_charge evicted_any s1
             | Some evicted \<Rightarrow> evict_loop entry_charge True
                 (subtract_current (entry_namespace evicted) (charge_bytes evicted) True
                   (s1\<lparr>entries := (entries s1)(node_key node := None)\<rparr>)))
          })
     else Some (evicted_any, s))"

text \<open>\<open>set\<close>, from the computed charge on.\<close>

definition cache_set :: "geometry_cache_key \<Rightarrow> 'v \<Rightarrow> u64 \<Rightarrow> 'v store \<Rightarrow> (bool \<times> 'v store) option" where
  "cache_set key value entry_charge s =
    (let serialized = serialize_geometry_cache_key key; ns = key_namespace key in
     if byte_cap s < entry_charge then Some (False, record_oversized_rejection ns s)
     else do {
       let replacing = entries s serialized \<noteq> None;
       s1 \<leftarrow> (case entries s serialized of
           None \<Rightarrow> Some s
         | Some previous \<Rightarrow> map_option
             (subtract_current (entry_namespace previous) (charge_bytes previous) False)
             (remove_recency_node (recency_node previous)
               (s\<lparr>entries := (entries s)(serialized := None)\<rparr>)));
       (evicted_any, s2) \<leftarrow> evict_loop entry_charge False s1;
       (node, s3) \<leftarrow> insert_recency_node serialized s2;
       let s4 = add_current ns entry_charge (s3\<lparr>entries := (entries s3)(serialized \<mapsto>
         \<lparr>entry_value = value, charge_bytes = entry_charge, entry_namespace = ns, recency_node = node\<rparr>)\<rparr>);
       let s5 = count ns (\<lambda>c.
         let c1 = c\<lparr>stores := sat_add (stores c) 1\<rparr>;
             c2 = (if replacing then c1\<lparr>ns_replacements := sat_add (ns_replacements c1) 1\<rparr>
                   else c1\<lparr>ns_entries := sat_add (ns_entries c1) 1\<rparr>)
         in c2\<lparr>ns_admissions := sat_add (ns_admissions c2) 1\<rparr>) s4;
       let s6 = (if replacing then s5\<lparr>telemetry := (telemetry s5)\<lparr>
           replacements := sat_add (replacements (telemetry s5)) 1\<rparr>\<rparr> else s5);
       let s7 = s6\<lparr>telemetry := (telemetry s6)\<lparr>admissions := sat_add (admissions (telemetry s6)) 1\<rparr>\<rparr>;
       s8 \<leftarrow> (if evicted_any then compact_retained_storage s7 else Some s7);
       Some (True, s8)
     })"

definition clear_and_shrink :: "'v store \<Rightarrow> 'v store" where
  "clear_and_shrink s = s\<lparr>recency_nodes := [], recency_head := None, recency_tail := None,
    free_recency_nodes := [], entries := Map.empty,
    telemetry := (telemetry s)\<lparr>current_bytes := 0,
      namespaces := (\<lambda>ns. map_option (\<lambda>c. c\<lparr>ns_entries := 0, approx_bytes := 0\<rparr>) (namespaces (telemetry s) ns))\<rparr>\<rparr>"

subsection \<open>The structure of the store\<close>

text \<open>
  The rows of a store are its entries, least recently used first. The recency list and the map
  of entries are two views of them.
\<close>

type_synonym 'v rows = "(string \<times> 'v cache_entry) list"

definition row_nodes :: "'v rows \<Rightarrow> nat list" where
  "row_nodes R = map (\<lambda>(k, e). recency_node e) R"

definition structure_ok :: "'v rows \<Rightarrow> 'v store \<Rightarrow> bool" where
  "structure_ok R s \<longleftrightarrow> recency_ok (row_nodes R) s \<and> arena.keys (row_nodes R) s = map fst R \<and>
    distinct (map fst R) \<and> entries s = map_of R"

lemma row_nodes_simps [simp]:
  "row_nodes [] = []" "row_nodes (r # R) = recency_node (snd r) # row_nodes R"
  "row_nodes (R @ Q) = row_nodes R @ row_nodes Q"
  by (auto simp: row_nodes_def split: prod.splits)

lemma store_more:
  assumes "recency.more s' = recency.more (s :: 'v store)"
  shows "entries s' = entries s" "byte_cap s' = byte_cap s" "telemetry s' = telemetry s"
  using assms by (cases s; cases s'; simp)+

lemma recency_same:
  assumes "recency_nodes s' = recency_nodes s" and "recency_head s' = recency_head s"
    and "recency_tail s' = recency_tail s" and "free_recency_nodes s' = free_recency_nodes s"
  shows "recency_ok is s' \<longleftrightarrow> recency_ok is s" "key_at i s' = key_at i s" "arena.keys is s' = arena.keys is s"
    "node_at i s' = node_at i s"
proof -
  have n: "node_at i s' = node_at i s" for i using assms(1) by (simp add: node_at_def)
  then show "node_at i s' = node_at i s" .
  show "recency_ok is s' \<longleftrightarrow> recency_ok is s" using assms n by (simp add: recency_ok_def linked_def)
  show "key_at i s' = key_at i s" "arena.keys is s' = arena.keys is s"
    using n by (simp_all add: key_at_def arena.keys_def)
qed

lemma structure_ok_same:
  assumes "structure_ok R s" and "recency_nodes s' = recency_nodes s" and "recency_head s' = recency_head s"
    and "recency_tail s' = recency_tail s" and "free_recency_nodes s' = free_recency_nodes s"
    and "entries s' = entries s"
  shows "structure_ok R s'"
  using assms by (simp add: structure_ok_def recency_same [OF assms(2-5)])

lemma structure_row:
  assumes "structure_ok R s" and "(k, e) \<in> set R"
  shows "recency_node e \<in> set (row_nodes R)" "key_at (recency_node e) s = Some k" "entries s k = Some e"
proof -
  show m: "recency_node e \<in> set (row_nodes R)" using assms(2) by (force simp: row_nodes_def)
  obtain j where j: "j < length R" "R ! j = (k, e)" using assms(2) by (metis in_set_conv_nth)
  have "arena.keys (row_nodes R) s ! j = the (key_at (recency_node e) s)"
    using j by (simp add: arena.keys_def row_nodes_def)
  moreover have "arena.keys (row_nodes R) s ! j = k"
    using assms(1) j by (simp add: structure_ok_def)
  moreover have "key_at (recency_node e) s \<noteq> None"
    using arena.live [of "row_nodes R" s] assms(1) m by (simp add: structure_ok_def)
  ultimately show "key_at (recency_node e) s = Some k" by simp
  show "entries s k = Some e" using assms by (simp add: structure_ok_def)
qed

lemma structure_entry: "structure_ok R s \<Longrightarrow> entries s k = Some e \<Longrightarrow> (k, e) \<in> set R"
  unfolding structure_ok_def by (metis map_of_SomeD)

lemma row_nodes_distinct: "structure_ok R s \<Longrightarrow> distinct (row_nodes R)"
  using arena.live unfolding structure_ok_def by blast

lemma delete_row:
  assumes "structure_ok R s" and "(k, e) \<in> set R"
  shows "row_nodes (AList.delete k R) = removeAll (recency_node e) (row_nodes R)"
    "map fst (AList.delete k R) = removeAll k (map fst R)"
proof -
  have "fst r = k \<longleftrightarrow> recency_node (snd r) = recency_node e" if "r \<in> set R" for r
  proof
    assume k: "fst r = k"
    with that have "(k, snd r) \<in> set R" by force
    then show "recency_node (snd r) = recency_node e"
      using structure_row(3) [OF assms] structure_row(3) [OF assms(1)] by simp
  next
    assume n: "recency_node (snd r) = recency_node e"
    have "(fst r, snd r) \<in> set R" using that by simp
    then show "fst r = k"
      using structure_row(2) [OF assms] structure_row(2) [OF assms(1), of "fst r" "snd r"] n by simp
  qed
  then have d: "AList.delete k R = filter (\<lambda>r. recency_node e \<noteq> recency_node (snd r)) R"
    unfolding AList.delete_eq by (intro filter_cong refl) (force split: prod.splits)
  show "row_nodes (AList.delete k R) = removeAll (recency_node e) (row_nodes R)"
    by (simp add: d row_nodes_def removeAll_filter_not_eq filter_map comp_def case_prod_beta)
  show "map fst (AList.delete k R) = removeAll k (map fst R)"
    by (rule AList.delete_keys)
qed

text \<open>Taking a row out of the list, and out of the list and the map.\<close>

lemma remove_rows:
  fixes R :: "'v rows"
  assumes "recency_ok (row_nodes R) (s :: 'v store)" and "arena.keys (row_nodes R) s = map fst R"
    and "distinct (map fst R)" and "(k, e) \<in> set R"
  shows "\<exists>s'. remove_recency_node (recency_node e) s = Some s' \<and>
    recency_ok (row_nodes (AList.delete k R)) s' \<and>
    arena.keys (row_nodes (AList.delete k R)) s' = map fst (AList.delete k R) \<and>
    recency.more s' = recency.more s"
proof -
  let ?t = "s\<lparr>entries := map_of R\<rparr>"
  have st: "structure_ok R ?t" using assms recency_same [of ?t s] by (simp add: structure_ok_def)
  have row: "recency_node e \<in> set (row_nodes R)" "key_at (recency_node e) s = Some k"
    using structure_row [OF st assms(4)] recency_same [of ?t s] by simp_all
  obtain s' where s': "remove_recency_node (recency_node e) s = Some s'"
    "recency_ok (removeAll (recency_node e) (row_nodes R)) s'"
    "arena.keys (removeAll (recency_node e) (row_nodes R)) s' = arena.keys (removeAll (recency_node e) (row_nodes R)) s"
    "recency.more s' = recency.more s"
    by (rule arena.del_keys [OF assms(1) row(1)])
  have "arena.keys (removeAll (recency_node e) (row_nodes R)) s = removeAll k (map fst R)"
    using arena.removeAll_keys [OF _ row] assms(2,3) by simp
  then show ?thesis using s' by (simp add: delete_row [OF st assms(4)])
qed

lemma remove_row:
  assumes "structure_ok R s" and "(k, e) \<in> set R"
  shows "\<exists>s'. remove_recency_node (recency_node e) (s\<lparr>entries := (entries s)(k := None)\<rparr>) = Some s' \<and>
    structure_ok (AList.delete k R) s' \<and> byte_cap s' = byte_cap s \<and> telemetry s' = telemetry s"
proof -
  let ?t = "s\<lparr>entries := (entries s)(k := None)\<rparr>"
  have "recency_ok (row_nodes R) ?t" "arena.keys (row_nodes R) ?t = map fst R" "distinct (map fst R)"
    using assms(1) recency_same [of ?t s] by (simp_all add: structure_ok_def)
  from remove_rows [OF this assms(2)] obtain s' where s': "remove_recency_node (recency_node e) ?t = Some s'"
    "recency_ok (row_nodes (AList.delete k R)) s'"
    "arena.keys (row_nodes (AList.delete k R)) s' = map fst (AList.delete k R)"
    "recency.more s' = recency.more ?t" by blast
  then have "structure_ok (AList.delete k R) s'"
    using store_more(1) [OF s'(4)] assms(1)
    by (simp add: structure_ok_def AList.delete_conv' AList.distinct_delete)
  then show ?thesis using s'(1) store_more [OF s'(4)] by simp
qed

text \<open>The least recently used row, which the list gives without the map.\<close>

lemma pop_row:
  assumes "structure_ok ((k, e) # R) s"
  shows "\<exists>node s'. recency_head s = Some (recency_node e) \<and> node_at (recency_node e) s = Some node \<and>
    node_key node = k \<and> remove_recency_node (recency_node e) s = Some s' \<and> entries s' k = Some e \<and>
    structure_ok R (s'\<lparr>entries := (entries s')(k := None)\<rparr>) \<and> byte_cap s' = byte_cap s \<and> telemetry s' = telemetry s"
proof -
  have d: "AList.delete k ((k, e) # R) = R"
    using assms by (simp add: structure_ok_def)
  have r: "recency_ok (row_nodes ((k, e) # R)) s" "arena.keys (row_nodes ((k, e) # R)) s = map fst ((k, e) # R)"
    "distinct (map fst ((k, e) # R))" using assms by (simp_all only: structure_ok_def)
  obtain s' where s': "remove_recency_node (recency_node e) s = Some s'"
    "recency_ok (row_nodes R) s'" "arena.keys (row_nodes R) s' = map fst R" "recency.more s' = recency.more s"
    using remove_rows [OF r, of k e] unfolding d by auto
  have "recency_head s = Some (recency_node e)" using r(1) by (simp add: recency_ok_def linked_def)
  moreover have "key_at (recency_node e) s = Some k" "entries s k = Some e"
    using structure_row [OF assms] by simp_all
  moreover have "structure_ok R (s'\<lparr>entries := (entries s')(k := None)\<rparr>)"
    using s'(2,3) r(3) store_more(1) [OF s'(4)] assms recency_same [of "s'\<lparr>entries := (entries s')(k := None)\<rparr>" s']
    by (simp add: structure_ok_def) (simp add: fun_upd_idem_iff map_of_eq_None_iff)
  ultimately show ?thesis using s'(1) store_more [OF s'(4)] by (auto simp: key_at_def)
qed

lemma touch_row:
  assumes "structure_ok R s" and "(k, e) \<in> set R"
  shows "\<exists>s'. touch k s = Some s' \<and> structure_ok (AList.delete k R @ [(k, e)]) s' \<and>
    byte_cap s' = byte_cap s \<and> telemetry s' = telemetry s"
proof -
  have t: "recency_ok (row_nodes R) s" "arena.keys (row_nodes R) s = map fst R"
    using assms(1) by (simp_all add: structure_ok_def)
  note row = structure_row [OF assms]
  obtain s' where s': "touch_recency_node (recency_node e) s = Some s'"
    "recency_ok (removeAll (recency_node e) (row_nodes R) @ [recency_node e]) s'"
    "arena.keys (removeAll (recency_node e) (row_nodes R) @ [recency_node e]) s' =
      arena.keys (removeAll (recency_node e) (row_nodes R)) s @ [the (key_at (recency_node e) s)]"
    "recency.more s' = recency.more s"
    by (rule arena.bump_keys [OF t(1) row(1)])
  have "arena.keys (removeAll (recency_node e) (row_nodes R)) s = removeAll k (map fst R)"
    using arena.removeAll_keys [OF _ row(1,2)] t(2) assms(1) by (simp add: structure_ok_def)
  moreover have "entries s = map_of (AList.delete k R @ [(k, e)])"
    using row(3) assms(1) by (auto simp: structure_ok_def AList.delete_conv map_add_def fun_eq_iff split: option.split)
  ultimately have "structure_ok (AList.delete k R @ [(k, e)]) s'"
    using s'(2,3) store_more(1) [OF s'(4)] assms(1) row(2)
    by (simp add: structure_ok_def delete_row [OF assms] distinct_removeAll)
  then show ?thesis using s'(1) store_more [OF s'(4)] row(3) by (simp add: touch_def)
qed

lemma insert_row:
  assumes "structure_ok R s" and "k \<notin> set (map fst R)"
  shows "\<exists>node s'. insert_recency_node k s = Some (node, s') \<and>
    byte_cap s' = byte_cap s \<and> telemetry s' = telemetry s \<and> entries s' = entries s \<and>
    (\<forall>e. recency_node e = node \<longrightarrow>
      structure_ok (R @ [(k, e)]) (s'\<lparr>entries := (entries s')(k \<mapsto> e)\<rparr>))"
proof -
  have t: "recency_ok (row_nodes R) s" "arena.keys (row_nodes R) s = map fst R"
    using assms(1) by (simp_all add: structure_ok_def)
  obtain node s' where s': "insert_recency_node k s = Some (node, s')" "recency_ok (row_nodes R @ [node]) s'"
    "arena.keys (row_nodes R @ [node]) s' = arena.keys (row_nodes R) s @ [k]" "recency.more s' = recency.more s"
    by (rule arena.ins_keys [OF t(1)])
  have "structure_ok (R @ [(k, e)]) (s'\<lparr>entries := (entries s')(k \<mapsto> e)\<rparr>)" if "recency_node e = node" for e
  proof -
    let ?u = "s'\<lparr>entries := (entries s')(k \<mapsto> e)\<rparr>"
    have "recency_ok (row_nodes R @ [node]) ?u" "arena.keys (row_nodes R @ [node]) ?u = map fst R @ [k]"
      using s'(2,3) t(2) recency_same [of ?u s'] by simp_all
    moreover have "(map_of R)(k \<mapsto> e) = map_of (R @ [(k, e)])"
      using assms(2) by (auto simp: fun_eq_iff map_add_def dest!: map_of_SomeD intro: rev_image_eqI split: option.split)
    ultimately show ?thesis
      using that store_more(1) [OF s'(4)] assms by (simp add: structure_ok_def)
  qed
  then show ?thesis using s'(1) store_more [OF s'(4)] by blast
qed

subsection \<open>Compaction keeps the rows\<close>

text \<open>A line is what a row means: key, value, charge, namespace.\<close>

type_synonym 'v line = "string \<times> 'v \<times> u64 \<times> string"

definition line :: "string \<times> 'v cache_entry \<Rightarrow> 'v line" where
  "line r = (fst r, entry_value (snd r), charge_bytes (snd r), entry_namespace (snd r))"

fun renum :: "nat \<Rightarrow> 'v rows \<Rightarrow> 'v rows" where
  "renum i [] = []"
| "renum i ((k, e) # R) = (k, e\<lparr>recency_node := i\<rparr>) # renum (Suc i) R"

lemma renum_rows [simp]:
  "map fst (renum i R) = map fst R" "row_nodes (renum i R) = [i..<i + length R]"
  "map line (renum i R) = map line R"
  by (induction i R rule: renum.induct) (auto simp: line_def upt_conv_Cons simp del: upt_Suc)

lemma renumber_rows:
  "distinct (map fst R) \<Longrightarrow> (\<forall>(k, e) \<in> set R. m k = Some e) \<Longrightarrow>
    renumber i (map fst R) m = Some (m ++ map_of (renum i R))"
proof (induction i R arbitrary: m rule: renum.induct)
  case (2 i k e R)
  let ?m = "m(k \<mapsto> e\<lparr>recency_node := i\<rparr>)"
  have "\<forall>(j, f) \<in> set R. ?m j = Some f" using "2.prems" by force
  then have "renumber (Suc i) (map fst R) ?m = Some (?m ++ map_of (renum (Suc i) R))"
    using "2.IH" "2.prems"(1) by simp
  moreover have "k \<notin> fst ` set (renum (Suc i) R)"
    using "2.prems"(1) by (metis renum_rows(1) distinct.simps(2) list.set_map list.simps(9) fst_conv)
  then have "?m ++ map_of (renum (Suc i) R) = m ++ map_of (renum i ((k, e) # R))"
    by (simp add: map_add_upd_left dom_map_of_conv_image_fst)
  ultimately show ?case using "2.prems"(2) by (simp del: map_of.simps)
qed simp

lemma compact_rows:
  assumes "structure_ok R s"
  shows "\<exists>s'. compact_retained_storage s = Some s' \<and> structure_ok (renum 0 R) s' \<and>
    byte_cap s' = byte_cap s \<and> telemetry s' = telemetry s"
proof -
  have ok: "recency_ok (row_nodes R) s" "arena.keys (row_nodes R) s = map fst R" "distinct (map fst R)"
    and e: "entries s = map_of R" using assms by (simp_all add: structure_ok_def)
  have w: "walk (recency_head s) s = Some (map fst R)" using walk_keys [OF ok(1)] ok(2) by simp
  have "map_of R ++ map_of (renum 0 R) = map_of (renum 0 R)"
  proof
    fix k
    have "map_of R k = None" if "map_of (renum 0 R) k = None"
      using that unfolding map_of_eq_None_iff by (metis renum_rows(1) list.set_map)
    then show "(map_of R ++ map_of (renum 0 R)) k = map_of (renum 0 R) k"
      by (auto simp: map_add_def split: option.split)
  qed
  then have m: "renumber 0 (map fst R) (entries s) = Some (map_of (renum 0 R))"
    using renumber_rows [of R "map_of R" 0] ok(3) by (auto simp: e)
  let ?s = "compact_recency (map fst R) (s\<lparr>entries := map_of (renum 0 R)\<rparr>)"
  note c = compact_recency_ok [of "map fst R" "s\<lparr>entries := map_of (renum 0 R)\<rparr>"]
  then have more: "recency.more ?s = recency.more (s\<lparr>entries := map_of (renum 0 R)\<rparr>)" by blast
  have "structure_ok (renum 0 R) ?s"
    using c ok(3) store_more(1) [OF more] by (simp add: structure_ok_def)
  then show ?thesis using w m store_more [OF more] by (simp add: compact_retained_storage_def)
qed

subsection \<open>Accounting\<close>

definition charges :: "'v line list \<Rightarrow> nat" where
  "charges L = sum_list (map (\<lambda>(k, v, c, n). unat c) L)"

definition ns_lines :: "string \<Rightarrow> 'v line list \<Rightarrow> 'v line list" where
  "ns_lines ns L = filter (\<lambda>(k, v, c, n). n = ns) L"

text \<open>
  The byte counters are exact; the entry counters may be ahead by \<open>x\<close> in the middle of an
  operation.
\<close>

definition account :: "(string \<Rightarrow> nat) \<Rightarrow> 'v line list \<Rightarrow> cache_telemetry_snapshot \<Rightarrow> bool" where
  "account x L t \<longleftrightarrow> unat (current_bytes t) = charges L \<and>
    (\<forall>ns. unat (approx_bytes (namespace_counters ns t)) = charges (ns_lines ns L) \<and>
      unat (ns_entries (namespace_counters ns t)) = length (ns_lines ns L) + x ns)"

lemma charges_simps [simp]:
  "charges [] = 0" "charges ((k, v, c, n) # L) = unat c + charges L" "charges (L @ M) = charges L + charges M"
  "ns_lines ns [] = []" "ns_lines ns ((k, v, c, n) # L) = (if n = ns then (k, v, c, n) # ns_lines ns L else ns_lines ns L)"
  "ns_lines ns (L @ M) = ns_lines ns L @ ns_lines ns M"
  by (simp_all add: charges_def ns_lines_def)

lemma charges_ns: "charges (ns_lines ns L) \<le> charges L"
  by (induction L) auto

lemma namespace_mut_simps [simp]:
  "namespace_counters n (namespace_mut ns f t) = (if n = ns then f (namespace_counters ns t) else namespace_counters n t)"
  "current_bytes (namespace_mut ns f t) = current_bytes t" "peak_bytes (namespace_mut ns f t) = peak_bytes t"
  "cap_bytes (namespace_mut ns f t) = cap_bytes t"
  by (simp_all add: namespace_mut_def namespace_counters_def)

lemma namespace_counters_updates [simp]:
  "namespace_counters n (t\<lparr>current_bytes := a\<rparr>) = namespace_counters n t"
  "namespace_counters n (t\<lparr>peak_bytes := a\<rparr>) = namespace_counters n t"
  "namespace_counters n (t\<lparr>admissions := a\<rparr>) = namespace_counters n t"
  "namespace_counters n (t\<lparr>replacements := a\<rparr>) = namespace_counters n t"
  "namespace_counters n (t\<lparr>evictions := a\<rparr>) = namespace_counters n t"
  "namespace_counters n (t\<lparr>evicted_bytes := a\<rparr>) = namespace_counters n t"
  "namespace_counters n (t\<lparr>oversized_rejections := a\<rparr>) = namespace_counters n t"
  by (simp_all add: namespace_counters_def)

text \<open>Operations that only write telemetry.\<close>

definition only_telemetry :: "'v store \<Rightarrow> 'v store \<Rightarrow> bool" where
  "only_telemetry s s' \<longleftrightarrow> (\<exists>t. s' = s\<lparr>telemetry := t\<rparr>)"

lemma structure_telemetry: "structure_ok R (s\<lparr>telemetry := t\<rparr>) \<longleftrightarrow> structure_ok R s"
  by (auto intro: structure_ok_same)

lemma subtract_current_store:
  "subtract_current ns c b s = s\<lparr>telemetry := telemetry (subtract_current ns c b s)\<rparr>"
  "add_current ns c s = s\<lparr>telemetry := telemetry (add_current ns c s)\<rparr>"
  "count ns f s = s\<lparr>telemetry := namespace_mut ns f (telemetry s)\<rparr>"
  by (simp_all add: subtract_current_def add_current_def count_def Let_def)

lemma telemetry_only [simp]:
  "structure_ok R (subtract_current ns c b s) \<longleftrightarrow> structure_ok R s" "byte_cap (subtract_current ns c b s) = byte_cap s"
  "structure_ok R (add_current ns c s) \<longleftrightarrow> structure_ok R s" "byte_cap (add_current ns c s) = byte_cap s"
  "structure_ok R (count ns f s) \<longleftrightarrow> structure_ok R s" "byte_cap (count ns f s) = byte_cap s"
  "entries (count ns f s) = entries s"
  by ((subst subtract_current_store, simp add: structure_telemetry)+)

lemma charges_delete:
  assumes "distinct (map fst R)" and "(k, e) \<in> set R"
  shows "charges (map line R) = unat (charge_bytes e) + charges (map line (AList.delete k R))"
    "charges (ns_lines ns (map line R)) = (if entry_namespace e = ns then unat (charge_bytes e) else 0) +
      charges (ns_lines ns (map line (AList.delete k R)))"
    "length (ns_lines ns (map line R)) = (if entry_namespace e = ns then 1 else 0) +
      length (ns_lines ns (map line (AList.delete k R)))"
  using assms by (induction R) (force simp: line_def)+

text \<open>Taking a row out of the accounts, with or without its entry count.\<close>

lemma account_remove:
  assumes "account x (map line R) (telemetry s)" and "distinct (map fst R)" and "(k, e) \<in> set R"
  shows "account (if b then x else x(entry_namespace e := x (entry_namespace e) + 1)) (map line (AList.delete k R))
    (telemetry (subtract_current (entry_namespace e) (charge_bytes e) b s))"
  using assms(1) charges_delete [OF assms(2,3)] unfolding account_def
  by (auto simp: subtract_current_def count_def Let_def sat_simps)

lemma account_keep:
  assumes "\<And>c. approx_bytes (f c) = approx_bytes c \<and> ns_entries (f c) = ns_entries c"
  shows "account x L (namespace_mut ns f t) \<longleftrightarrow> account x L t"
proof -
  have "approx_bytes (namespace_counters n (namespace_mut ns f t)) = approx_bytes (namespace_counters n t) \<and>
    ns_entries (namespace_counters n (namespace_mut ns f t)) = ns_entries (namespace_counters n t)" for n
    using assms by simp
  then show ?thesis by (simp only: account_def namespace_mut_simps(2))
qed

lemma lines_delete: "map line (AList.delete k R) = AList.delete k (map line R)"
  by (induction R) (auto simp: line_def)

lemma fst_line [simp]: "map fst (map line R) = map fst R"
  by (simp add: line_def)

lemma map_of_lines: "map_of (map line R) k =
    map_option (\<lambda>e. (entry_value e, charge_bytes e, entry_namespace e)) (map_of R k)"
  by (induction R) (auto simp: line_def)

subsection \<open>Eviction\<close>

text \<open>The oldest lines go until \<open>c\<close> more bytes fit.\<close>

fun make_room :: "nat \<Rightarrow> nat \<Rightarrow> 'v line list \<Rightarrow> 'v line list" where
  "make_room cap c [] = []"
| "make_room cap c (l # L) = (if cap < charges (l # L) + c then make_room cap c L else l # L)"

lemma make_room_suffix: "\<exists>M. L = M @ make_room cap c L"
proof (induction L)
  case (Cons l L)
  then show ?case by (metis append_Cons append_Nil make_room.simps(2))
qed simp

lemma make_room_set: "set (make_room cap c L) \<subseteq> set L"
  using make_room_suffix [of L cap c] by (metis Un_upper2 set_append)

lemma make_room_fits: "c \<le> cap \<Longrightarrow> charges (make_room cap c L) + c \<le> cap"
  by (induction L) auto

lemma make_room_id: "charges L + c \<le> cap \<Longrightarrow> make_room cap c L = L"
  by (cases L) auto

lemma evict_rows:
  assumes "structure_ok R s" and "account x (map line R) (telemetry s)" and "unat (byte_cap s) < u64_max"
  shows "\<exists>R' b s'. evict_loop c b0 s = Some (b, s') \<and> structure_ok R' s' \<and>
    map line R' = make_room (unat (byte_cap s)) (unat c) (map line R) \<and>
    account x (map line R') (telemetry s') \<and> byte_cap s' = byte_cap s"
  using assms
proof (induction R arbitrary: s b0)
  case Nil
  then have "recency_head s = None" by (simp add: structure_ok_def recency_ok_def linked_def)
  then show ?case using Nil
    by (intro exI [of _ "[]"] exI [of _ b0] exI [of _ s]) (subst evict_loop.simps, simp)
next
  case (Cons r R)
  obtain k e where r: "r = (k, e)" by fastforce
  have full: "byte_cap s < sat_add (current_bytes (telemetry s)) c \<longleftrightarrow>
      unat (byte_cap s) < charges (map line (r # R)) + unat c"
    using Cons.prems(2,3) unfolding account_def word_less_nat_alt unat_sat_add by linarith
  show ?case
  proof (cases "unat (byte_cap s) < charges (map line (r # R)) + unat c")
    case False
    then show ?thesis using full Cons.prems
      by (intro exI [of _ "r # R"] exI [of _ b0] exI [of _ s]) (subst evict_loop.simps, simp)
  next
    case True
    obtain node s' where p: "recency_head s = Some (recency_node e)" "node_at (recency_node e) s = Some node"
      "node_key node = k" "remove_recency_node (recency_node e) s = Some s'" "entries s' k = Some e"
      "structure_ok R (s'\<lparr>entries := (entries s')(k := None)\<rparr>)" "byte_cap s' = byte_cap s" "telemetry s' = telemetry s"
      using pop_row Cons.prems(1) unfolding r by blast
    let ?t = "s'\<lparr>entries := (entries s')(k := None)\<rparr>"
    let ?u = "subtract_current (entry_namespace e) (charge_bytes e) True ?t"
    have d: "distinct (map fst (r # R))" using Cons.prems(1) by (simp only: structure_ok_def)
    have "account x (map line (r # R)) (telemetry ?t)" using Cons.prems(2) p(8) by simp
    from account_remove [OF this d, of k e True] have "account x (map line (AList.delete k (r # R))) (telemetry ?u)"
      by (simp add: r)
    moreover have "AList.delete k (r # R) = R" using d by (simp add: r)
    ultimately have a: "account x (map line R) (telemetry ?u)" by simp
    have b: "byte_cap ?u = byte_cap s" using p(7) by simp
    have "structure_ok R ?u" using p(6) by simp
    from Cons.IH [OF this a, of True] b Cons.prems(3)
    obtain R' b' s'' where "evict_loop c True ?u = Some (b', s'')" "structure_ok R' s''"
      "map line R' = make_room (unat (byte_cap s)) (unat c) (map line R)"
      "account x (map line R') (telemetry s'')" "byte_cap s'' = byte_cap s" by auto
    then show ?thesis using True full p
      by (intro exI [of _ R'] exI [of _ b'] exI [of _ s'']) (subst evict_loop.simps, simp)
  qed
qed

subsection \<open>The store refines a list\<close>

text \<open>
  The specification: an association list, least recently used line first. The cap and the charges
  are natural numbers there; keys are serialized keys.
\<close>

definition lru_touch :: "string \<Rightarrow> 'v line list \<Rightarrow> 'v line list" where
  "lru_touch k L = (case map_of L k of None \<Rightarrow> L | Some x \<Rightarrow> AList.delete k L @ [(k, x)])"

definition lru_find :: "('v \<Rightarrow> 'a option) \<Rightarrow> string \<Rightarrow> 'v line list \<Rightarrow> 'a option" where
  "lru_find downcast k L = Option.bind (map_of L k) (\<lambda>(v, c, n). downcast v)"

definition lru_get :: "('v \<Rightarrow> 'a option) \<Rightarrow> string \<Rightarrow> 'v line list \<Rightarrow> 'a option \<times> 'v line list" where
  "lru_get downcast k L = (case lru_find downcast k L of None \<Rightarrow> (None, L) | Some a \<Rightarrow> (Some a, lru_touch k L))"

definition lru_set :: "nat \<Rightarrow> string \<Rightarrow> string \<Rightarrow> 'v \<Rightarrow> u64 \<Rightarrow> 'v line list \<Rightarrow> bool \<times> 'v line list" where
  "lru_set cap k n v c L =
    (if cap < unat c then (False, L)
     else (True, make_room cap (unat c) (AList.delete k L) @ [(k, v, c, n)]))"

definition line_ok :: "'v line \<Rightarrow> bool" where
  "line_ok l = (case l of (k, v, c, n) \<Rightarrow> 0 < unat c \<and>
    (\<exists>ps. k = serialize_geometry_cache_key \<lparr>key_namespace = n, key_parts = ps\<rparr>))"

definition store_rep :: "'v line list \<Rightarrow> 'v store \<Rightarrow> bool" where
  "store_rep L s \<longleftrightarrow> (\<exists>R. structure_ok R s \<and> L = map line R) \<and> account (\<lambda>_. 0) L (telemetry s) \<and>
    charges L \<le> unat (byte_cap s) \<and> unat (byte_cap s) < u64_max \<and>
    (\<forall>l \<in> set L. line_ok l)"

lemma store_rep_new: "unat cap < u64_max \<Longrightarrow> store_rep [] (with_byte_cap cap)"
  by (auto simp: store_rep_def structure_ok_def with_byte_cap_def recency_ok_empty arena.keys_def account_def
      namespace_counters_def snapshot_default_def namespace_telemetry_default_def)

lemma store_rep_count:
  assumes "store_rep L s" and "\<And>c. approx_bytes (f c) = approx_bytes c \<and> ns_entries (f c) = ns_entries c"
  shows "store_rep L (count ns f s)"
  using assms by (simp add: store_rep_def) (simp add: count_def account_keep)

lemma entries_lines: "store_rep L s \<Longrightarrow>
    map_of L k = map_option (\<lambda>e. (entry_value e, charge_bytes e, entry_namespace e)) (entries s k)"
  by (auto simp: store_rep_def structure_ok_def map_of_lines)

lemma distinct_lines: "store_rep L s \<Longrightarrow> distinct (map fst L)"
  unfolding store_rep_def structure_ok_def using fst_line by metis

lemma delete_in: "distinct (map fst L) \<Longrightarrow> map_of L k = Some x \<Longrightarrow> mset L = add_mset (k, x) (mset (AList.delete k L))"
  by (induction L) (auto split: if_splits)

lemma charges_mset: "charges L = sum_mset (image_mset (\<lambda>(k, v, c, n). unat c) (mset L))"
  by (simp add: charges_def sum_mset_sum_list flip: mset_map)

lemma ns_lines_mset: "mset (ns_lines ns L) = filter_mset (\<lambda>(k, v, c, n). n = ns) (mset L)"
  by (simp add: ns_lines_def)

lemma account_mset: "mset L = mset M \<Longrightarrow> account x L t = account x M t"
  unfolding account_def charges_mset ns_lines_mset by (metis ns_lines_mset size_mset)

lemma store_rep_touch:
  assumes "store_rep L s"
  shows "\<exists>s'. touch k s = Some s' \<and> store_rep (lru_touch k L) s' \<and> byte_cap s' = byte_cap s"
proof (cases "entries s k")
  case None
  then show ?thesis using assms entries_lines [OF assms, of k] by (simp add: touch_def lru_touch_def)
next
  case (Some e)
  obtain R where R: "structure_ok R s" "L = map line R" using assms by (auto simp: store_rep_def)
  have m: "(k, e) \<in> set R" by (rule structure_entry [OF R(1) Some])
  obtain s' where s': "touch k s = Some s'" "structure_ok (AList.delete k R @ [(k, e)]) s'"
    "byte_cap s' = byte_cap s" "telemetry s' = telemetry s"
    using touch_row [OF R(1) m] by blast
  have x: "map_of L k = Some (entry_value e, charge_bytes e, entry_namespace e)"
    using entries_lines [OF assms, of k] Some by simp
  have t: "lru_touch k L = map line (AList.delete k R @ [(k, e)])"
    using x by (simp add: lru_touch_def lines_delete R(2) line_def)
  have ms: "mset (lru_touch k L) = mset L"
    using delete_in [OF distinct_lines [OF assms] x] x by (simp add: lru_touch_def)
  have "set (lru_touch k L) = set L" using ms by (metis set_mset_mset)
  moreover have "charges (lru_touch k L) = charges L" unfolding charges_mset ms ..
  ultimately have "store_rep (lru_touch k L) s'"
    using assms s' account_mset [OF ms] unfolding store_rep_def t [symmetric]
    by (auto simp: t intro!: exI [of _ "AList.delete k R @ [(k, e)]"])
  then show ?thesis using s' by blast
qed

lemma store_rep_probe:
  assumes "store_rep L s"
  shows "\<exists>s'. probe d key f s = Some (f (lru_find d (serialize_geometry_cache_key key) L), s') \<and>
    store_rep (snd (lru_get d (serialize_geometry_cache_key key) L)) s' \<and> byte_cap s' = byte_cap s"
proof -
  let ?k = "serialize_geometry_cache_key key"
  let ?s = "count (key_namespace key) (\<lambda>c. c\<lparr>lookups := sat_add (lookups c) 1\<rparr>) s"
  have p: "Option.bind (entries s ?k) (\<lambda>e. d (entry_value e)) = lru_find d ?k L"
    using entries_lines [OF assms, of ?k] by (cases "entries s ?k") (simp_all add: lru_find_def)
  have r: "store_rep L ?s" by (rule store_rep_count [OF assms]) simp
  show ?thesis
  proof (cases "lru_find d ?k L")
    case None
    have "store_rep L (count (key_namespace key) (\<lambda>c. c\<lparr>misses := sat_add (misses c) 1\<rparr>) ?s)"
      by (rule store_rep_count [OF r]) simp
    then show ?thesis using None by (simp add: probe_def Let_def p lru_get_def)
  next
    case (Some a)
    obtain s' where "touch ?k ?s = Some s'" "store_rep (lru_touch ?k L) s'" "byte_cap s' = byte_cap ?s"
      using store_rep_touch [OF r] by blast
    then show ?thesis using Some by (simp add: probe_def Let_def p lru_get_def)
  qed
qed

lemma namespace_of_entry:
  assumes "store_rep L s" and "entries s (serialize_geometry_cache_key key) = Some e"
  shows "entry_namespace e = key_namespace key"
proof -
  have "(serialize_geometry_cache_key key, entry_value e, charge_bytes e, entry_namespace e) \<in> set L"
    using entries_lines [OF assms(1), of "serialize_geometry_cache_key key"] assms(2) by (simp add: map_of_SomeD)
  then obtain ps where "serialize_geometry_cache_key key =
      serialize_geometry_cache_key \<lparr>key_namespace = entry_namespace e, key_parts = ps\<rparr>"
    using assms(1) unfolding store_rep_def by (fastforce simp: line_ok_def)
  then show ?thesis by (simp add: serialize_inject)
qed

lemma charges_delete_le: "charges (AList.delete k L) \<le> charges L"
  by (induction L) auto

lemma set_delete: "set (AList.delete k L) \<subseteq> set L"
  by (auto simp: AList.delete_eq)

lemma store_rep_remove:
  assumes "store_rep L s"
  shows "\<exists>s'. remove key s = Some s' \<and> store_rep (AList.delete (serialize_geometry_cache_key key) L) s' \<and>
    byte_cap s' = byte_cap s"
proof (cases "entries s (serialize_geometry_cache_key key)")
  case None
  let ?k = "serialize_geometry_cache_key key"
  have "?k \<notin> fst ` set L" using entries_lines [OF assms, of ?k] None by (simp add: map_of_eq_None_iff)
  moreover have "s\<lparr>entries := (entries s)(?k := None)\<rparr> = s" using None by (simp add: fun_upd_idem)
  ultimately show ?thesis
    using None store_rep_count [OF assms] by (simp add: remove_def Let_def)
next
  case (Some e)
  let ?k = "serialize_geometry_cache_key key"
  let ?n = "entry_namespace e"
  let ?f = "\<lambda>c :: cache_namespace_telemetry. c\<lparr>stale_removals := sat_add (stale_removals c) 1\<rparr>"
  obtain R where R: "structure_ok R s" "L = map line R" using assms by (auto simp: store_rep_def)
  have m: "(?k, e) \<in> set R" by (rule structure_entry [OF R(1) Some])
  have d: "distinct (map fst R)" using R(1) by (simp add: structure_ok_def)
  let ?s = "count (key_namespace key) ?f s"
  have st: "structure_ok R ?s" using R(1) by simp
  have "count (key_namespace key) ?f (s\<lparr>entries := (entries s)(?k := None)\<rparr>) = ?s\<lparr>entries := (entries ?s)(?k := None)\<rparr>"
    by (simp add: count_def)
  moreover obtain s2 where s2: "remove_recency_node (recency_node e) (?s\<lparr>entries := (entries ?s)(?k := None)\<rparr>) = Some s2"
    "structure_ok (AList.delete ?k R) s2" "byte_cap s2 = byte_cap s" "telemetry s2 = telemetry ?s"
    using remove_row [OF st m] by auto
  ultimately have e: "remove key s = compact_retained_storage (count ?n
      (\<lambda>c. c\<lparr>ns_entries := sat_sub (ns_entries c) 1\<rparr>) (subtract_current ?n (charge_bytes e) False s2))"
    (is "_ = compact_retained_storage ?u")
    using Some by (simp add: remove_def Let_def)
  let ?x = "(\<lambda>_. 0 :: nat)(?n := 1)"
  have "account (\<lambda>_. 0) (map line R) (telemetry s2)"
    using assms R(2) s2(4) by (simp add: store_rep_def count_def account_keep)
  from account_remove [OF this d m, of False]
  have a: "account ?x (map line (AList.delete ?k R)) (telemetry (subtract_current ?n (charge_bytes e) False s2))"
    by (simp add: fun_upd_def)
  have a2: "account (\<lambda>_. 0) (map line (AList.delete ?k R)) (telemetry ?u)"
    using a unfolding account_def by (auto simp: count_def sat_simps)
  have u: "structure_ok (AList.delete ?k R) ?u" "byte_cap ?u = byte_cap s"
    using s2 by simp_all
  obtain s' where s': "compact_retained_storage ?u = Some s'" "structure_ok (renum 0 (AList.delete ?k R)) s'"
    "byte_cap s' = byte_cap s" "telemetry s' = telemetry ?u"
    using compact_rows [OF u(1)] unfolding u(2) by blast
  have "store_rep (AList.delete ?k L) s'"
    unfolding store_rep_def
  proof (intro conjI)
    show "\<exists>R. structure_ok R s' \<and> AList.delete ?k L = map line R"
      using s'(2) R(2) by (intro exI [of _ "renum 0 (AList.delete ?k R)"]) (simp add: lines_delete)
    show "account (\<lambda>_. 0) (AList.delete ?k L) (telemetry s')" using a2 s'(4) R(2) by (simp add: lines_delete)
    show "charges (AList.delete ?k L) \<le> unat (byte_cap s')" "unat (byte_cap s') < u64_max"
      using assms s'(3) charges_delete_le [of ?k L] by (auto simp: store_rep_def)
    show "\<forall>l \<in> set (AList.delete ?k L). line_ok l"
      using assms set_delete [of ?k L] unfolding store_rep_def by blast
  qed
  then show ?thesis using e s' by (intro exI [of _ s']) (simp only:)
qed

lemma length_charges: "(\<forall>(k, v, c, n) \<in> set L. 0 < unat c) \<Longrightarrow> length L \<le> charges L"
  by (induction L) auto

lemma length_ns_lines: "length (ns_lines ns L) \<le> length L"
  by (simp add: ns_lines_def)

text \<open>Taking the new line into the accounts.\<close>

lemma account_insert:
  assumes "account x L (telemetry s)" and "charges L + unat c \<le> unat (byte_cap s)"
    and "length (ns_lines n L) + x n + (if rep then 0 else 1) \<le> u64_max" and "rep \<Longrightarrow> x n = 1" and "\<not> rep \<Longrightarrow> x n = 0"
  shows "account (x(n := 0)) (L @ [(k, v, c, n)]) (telemetry (count n (\<lambda>d.
      let c1 = d\<lparr>stores := sat_add (stores d) 1\<rparr>;
          c2 = (if rep then c1\<lparr>ns_replacements := sat_add (ns_replacements c1) 1\<rparr>
                else c1\<lparr>ns_entries := sat_add (ns_entries c1) 1\<rparr>)
      in c2\<lparr>ns_admissions := sat_add (ns_admissions c2) 1\<rparr>) (add_current n c s)))"
proof -
  have b: "charges L + unat c \<le> u64_max" using assms(2) unat_u64_bound le_trans by blast
  then have "charges (ns_lines n L) + unat c \<le> u64_max" using charges_ns [of n L] by linarith
  then show ?thesis
    using assms b unfolding account_def
    by (cases rep) (auto simp: count_def add_current_def Let_def sat_simps)
qed

lemma account_updates [simp]:
  "account x L (t\<lparr>admissions := a\<rparr>) \<longleftrightarrow> account x L t" "account x L (t\<lparr>replacements := a\<rparr>) \<longleftrightarrow> account x L t"
  "account x L (t\<lparr>oversized_rejections := a\<rparr>) \<longleftrightarrow> account x L t"
  by (simp_all add: account_def)

lemma ns_length_bound:
  assumes "\<forall>(k, v, c, n) \<in> set L. 0 < unat c" and "charges L \<le> m"
  shows "length (ns_lines ns L) \<le> m"
  using length_charges [OF assms(1)] length_ns_lines [of ns L] assms(2) by linarith

text \<open>The entry that \<open>set\<close> replaces goes first; its count stays until the end.\<close>

lemma replace_row:
  assumes "structure_ok R s" and "account (\<lambda>_. 0) (map line R) (telemetry s)"
  shows "\<exists>s1. (case entries s k of
        None \<Rightarrow> Some s
      | Some previous \<Rightarrow> map_option
          (subtract_current (entry_namespace previous) (charge_bytes previous) False)
          (remove_recency_node (recency_node previous) (s\<lparr>entries := (entries s)(k := None)\<rparr>))) = Some s1 \<and>
    structure_ok (AList.delete k R) s1 \<and> byte_cap s1 = byte_cap s \<and>
    account (case entries s k of None \<Rightarrow> (\<lambda>_. 0) | Some e \<Rightarrow> (\<lambda>_. 0)(entry_namespace e := 1))
      (map line (AList.delete k R)) (telemetry s1)"
proof (cases "entries s k")
  case None
  then have "k \<notin> fst ` set R" using assms(1) by (simp add: structure_ok_def map_of_eq_None_iff)
  then show ?thesis using None assms by simp
next
  case (Some e)
  have m: "(k, e) \<in> set R" by (rule structure_entry [OF assms(1) Some])
  have d: "distinct (map fst R)" using assms(1) by (simp add: structure_ok_def)
  obtain s' where s': "remove_recency_node (recency_node e) (s\<lparr>entries := (entries s)(k := None)\<rparr>) = Some s'"
    "structure_ok (AList.delete k R) s'" "byte_cap s' = byte_cap s" "telemetry s' = telemetry s"
    using remove_row [OF assms(1) m] by blast
  have "account (\<lambda>_. 0) (map line R) (telemetry s')" using assms(2) s'(4) by simp
  from account_remove [OF this d m, of False] show ?thesis using Some s' by (simp add: fun_upd_def)
qed

lemma store_rep_set:
  assumes "store_rep L s" and "0 < unat c"
  shows "\<exists>s'. cache_set key v c s =
      Some (fst (lru_set (unat (byte_cap s)) (serialize_geometry_cache_key key) (key_namespace key) v c L), s') \<and>
    store_rep (snd (lru_set (unat (byte_cap s)) (serialize_geometry_cache_key key) (key_namespace key) v c L)) s' \<and>
    byte_cap s' = byte_cap s"
proof (cases "byte_cap s < c")
  case True
  have "store_rep L (record_oversized_rejection (key_namespace key) s)"
    using assms(1) unfolding store_rep_def record_oversized_rejection_def Let_def structure_telemetry
    by (simp add: count_def account_keep structure_telemetry)
  moreover have "byte_cap (record_oversized_rejection (key_namespace key) s) = byte_cap s"
    by (simp add: record_oversized_rejection_def Let_def)
  ultimately show ?thesis using True by (simp add: cache_set_def Let_def lru_set_def word_less_nat_alt)
next
  case False
  let ?k = "serialize_geometry_cache_key key"
  let ?n = "key_namespace key"
  let ?cap = "unat (byte_cap s)"
  have fits: "unat c \<le> ?cap" using False by (simp add: word_less_nat_alt)
  obtain R where R: "structure_ok R s" "L = map line R" using assms(1) by (auto simp: store_rep_def)
  have rep: "account (\<lambda>_. 0) (map line R) (telemetry s)" "?cap < u64_max" "charges L \<le> ?cap"
    "\<forall>l \<in> set L. line_ok l"
    using assms(1) R(2) by (simp_all add: store_rep_def)
  let ?rep = "entries s ?k \<noteq> None"
  let ?x = "if ?rep then (\<lambda>_. 0 :: nat)(?n := 1) else (\<lambda>_. 0)"
  have x: "(case entries s ?k of None \<Rightarrow> (\<lambda>_. 0) | Some e \<Rightarrow> (\<lambda>_. 0)(entry_namespace e := 1)) = ?x"
    using namespace_of_entry [OF assms(1)] by (auto split: option.split)
  obtain s1 where s1: "(case entries s ?k of
        None \<Rightarrow> Some s
      | Some previous \<Rightarrow> map_option
          (subtract_current (entry_namespace previous) (charge_bytes previous) False)
          (remove_recency_node (recency_node previous) (s\<lparr>entries := (entries s)(?k := None)\<rparr>))) = Some s1"
    "structure_ok (AList.delete ?k R) s1" "byte_cap s1 = byte_cap s"
    "account ?x (map line (AList.delete ?k R)) (telemetry s1)"
    using replace_row [OF R(1) rep(1), of ?k] unfolding x by blast
  obtain R2 b s2 where s2: "evict_loop c False s1 = Some (b, s2)" "structure_ok R2 s2"
    "map line R2 = make_room ?cap (unat c) (AList.delete ?k L)"
    "account ?x (map line R2) (telemetry s2)" "byte_cap s2 = byte_cap s"
    using evict_rows [OF s1(2,4), of c False] rep(2) unfolding s1(3) lines_delete R(2) by blast
  let ?L2 = "map line R2"
  have sub: "set ?L2 \<subseteq> set L" using make_room_set [of ?cap "unat c"] set_delete [of ?k L] unfolding s2(3) by blast
  have "fst ` set ?L2 \<subseteq> fst ` set (AList.delete ?k L)" unfolding s2(3) by (intro image_mono make_room_set)
  then have nk: "?k \<notin> set (map fst R2)" using AList.delete_notin_dom [of ?k L] by (metis fst_line list.set_map subsetD)
  obtain node s3 where s3: "insert_recency_node ?k s2 = Some (node, s3)" "byte_cap s3 = byte_cap s"
    "telemetry s3 = telemetry s2" and put: "\<And>e. recency_node e = node \<Longrightarrow>
      structure_ok (R2 @ [(?k, e)]) (s3\<lparr>entries := (entries s3)(?k \<mapsto> e)\<rparr>)"
    using insert_row [OF s2(2) nk] s2(5) by auto
  let ?e = "\<lparr>entry_value = v, charge_bytes = c, entry_namespace = ?n, recency_node = node\<rparr>"
  let ?s3 = "s3\<lparr>entries := (entries s3)(?k \<mapsto> ?e)\<rparr>"
  let ?s5 = "count ?n (\<lambda>d. let c1 = d\<lparr>stores := sat_add (stores d) 1\<rparr>;
      c2 = (if ?rep then c1\<lparr>ns_replacements := sat_add (ns_replacements c1) 1\<rparr>
            else c1\<lparr>ns_entries := sat_add (ns_entries c1) 1\<rparr>)
      in c2\<lparr>ns_admissions := sat_add (ns_admissions c2) 1\<rparr>) (add_current ?n c ?s3)"
  let ?L = "?L2 @ [(?k, v, c, ?n)]"
  let ?R = "R2 @ [(?k, ?e)]"
  have room: "charges ?L2 + unat c \<le> ?cap" using make_room_fits [OF fits] unfolding s2(3) .
  have pos: "\<forall>(k, v, c, n) \<in> set ?L2. 0 < unat c" using sub rep(4) by (fastforce simp: line_ok_def)
  have len: "length (ns_lines ?n ?L2) + 1 \<le> u64_max"
    using ns_length_bound [OF pos, of "?cap - unat c" ?n] room assms(2) rep(2) by linarith
  have "account (?x(?n := 0)) ?L (telemetry ?s5)"
  proof (rule account_insert)
    show "account ?x ?L2 (telemetry ?s3)" using s2(4) s3(3) by simp
    show "charges ?L2 + unat c \<le> unat (byte_cap ?s3)" using room s3(2) by simp
    show "length (ns_lines ?n ?L2) + ?x ?n + (if ?rep then 0 else 1) \<le> u64_max" using len by auto
  qed auto
  moreover have "?x(?n := 0) = (\<lambda>_. 0)" by auto
  moreover define s5 where "s5 = ?s5"
  ultimately have a: "account (\<lambda>_. 0) ?L (telemetry s5)" by (simp only:)
  have s5: "structure_ok ?R s5" "byte_cap s5 = byte_cap s" using put [of ?e] s3(2) by (simp_all add: s5_def)
  let ?s6 = "if ?rep then s5\<lparr>telemetry := (telemetry s5)\<lparr>
      replacements := sat_add (replacements (telemetry s5)) 1\<rparr>\<rparr> else s5"
  let ?s7 = "?s6\<lparr>telemetry := (telemetry ?s6)\<lparr>admissions := sat_add (admissions (telemetry ?s6)) 1\<rparr>\<rparr>"
  have s7: "structure_ok ?R ?s7" "account (\<lambda>_. 0) ?L (telemetry ?s7)" "byte_cap ?s7 = byte_cap s"
    using s5 a by (simp_all add: structure_telemetry)
  obtain R8 s8 where s8: "(if b then compact_retained_storage ?s7 else Some ?s7) = Some s8" "structure_ok R8 s8"
    "map line R8 = ?L" "telemetry s8 = telemetry ?s7" "byte_cap s8 = byte_cap s"
  proof (cases b)
    case True
    obtain s8 where "compact_retained_storage ?s7 = Some s8" "structure_ok (renum 0 ?R) s8"
      "byte_cap s8 = byte_cap ?s7" "telemetry s8 = telemetry ?s7" using compact_rows [OF s7(1)] by blast
    then show ?thesis using True s7(3) that [of s8 "renum 0 ?R"] by (simp add: line_def)
  next
    case False
    then show ?thesis using s7 that [of ?s7 ?R] by (simp add: line_def)
  qed
  have "cache_set key v c s = Some (True, s8)"
    using s1(1) s2(1) s3(1) s8(1) [unfolded s5_def] False by (simp only: cache_set_def Let_def) simp
  moreover have "store_rep ?L s8"
    unfolding store_rep_def
  proof (intro conjI)
    show "\<exists>R. structure_ok R s8 \<and> ?L = map line R" using s8(2,3) by metis
    show "account (\<lambda>_. 0) ?L (telemetry s8)" using s7(2) s8(4) by simp
    show "charges ?L \<le> unat (byte_cap s8)" "unat (byte_cap s8) < u64_max" using room s8(5) rep(2) by simp_all
    have "?k = serialize_geometry_cache_key \<lparr>key_namespace = ?n, key_parts = key_parts key\<rparr>" by (cases key) simp
    then have "line_ok (?k, v, c, ?n)" using assms(2) unfolding line_ok_def by blast
    then show "\<forall>l \<in> set ?L. line_ok l" using sub rep(4) by auto
  qed
  ultimately show ?thesis using fits s8(5) unfolding s2(3) lru_set_def by simp
qed

subsection \<open>Runs of the store\<close>

datatype ('v, 'a) cache_op =
    Get "'v \<Rightarrow> 'a option" geometry_cache_key
  | Probe_valid "'v \<Rightarrow> 'a option" geometry_cache_key "'a \<Rightarrow> bool"
  | Set geometry_cache_key 'v u64 u64 u64  \<comment> \<open>key and namespace capacity, charge of the value\<close>
  | Remove geometry_cache_key
  | Record_hit string
  | Clear

datatype 'a cache_answer = Value "'a option" | Probed geometry_cache_probe | Admitted bool | Done

fun cache_step :: "u64 \<Rightarrow> u64 \<Rightarrow> ('v, 'a) cache_op \<Rightarrow> 'v store \<Rightarrow> ('a cache_answer \<times> 'v store) option" where
  "cache_step esz nsz (Get d key) s = map_option (\<lambda>(a, t). (Value a, t)) (cache_get d key s)"
| "cache_step esz nsz (Probe_valid d key p) s = map_option (\<lambda>(a, t). (Probed a, t)) (probe_valid d key p s)"
| "cache_step esz nsz (Set key v kc nc vc) s = map_option (\<lambda>(a, t). (Admitted a, t))
    (cache_set key v (conservative_entry_charge esz nsz kc nc vc) s)"
| "cache_step esz nsz (Remove key) s = map_option (Pair Done) (remove key s)"
| "cache_step esz nsz (Record_hit ns) s = Some (Done, record_hit ns s)"
| "cache_step esz nsz Clear s = Some (Done, clear_and_shrink s)"

fun lru_step :: "nat \<Rightarrow> u64 \<Rightarrow> u64 \<Rightarrow> ('v, 'a) cache_op \<Rightarrow> 'v line list \<Rightarrow> 'a cache_answer \<times> 'v line list" where
  "lru_step cap esz nsz (Get d key) L =
    (case lru_get d (serialize_geometry_cache_key key) L of (a, M) \<Rightarrow> (Value a, M))"
| "lru_step cap esz nsz (Probe_valid d key p) L =
    (case lru_find d (serialize_geometry_cache_key key) L of
       None \<Rightarrow> (Probed Cold, L)
     | Some a \<Rightarrow> if p a then (Probed HotValid, lru_touch (serialize_geometry_cache_key key) L)
         else (Probed StaleRemoved, AList.delete (serialize_geometry_cache_key key) L))"
| "lru_step cap esz nsz (Set key v kc nc vc) L =
    (case lru_set cap (serialize_geometry_cache_key key) (key_namespace key) v
       (conservative_entry_charge esz nsz kc nc vc) L of (a, M) \<Rightarrow> (Admitted a, M))"
| "lru_step cap esz nsz (Remove key) L = (Done, AList.delete (serialize_geometry_cache_key key) L)"
| "lru_step cap esz nsz (Record_hit ns) L = (Done, L)"
| "lru_step cap esz nsz Clear L = (Done, [])"

lemma charge_pos: "0 < unat (conservative_entry_charge esz nsz kc nc vc)"
proof (cases "do {
    a \<leftarrow> checked_add vc kc; b \<leftarrow> checked_add a kc; c \<leftarrow> checked_add b nc;
    d \<leftarrow> checked_add c HASHMAP_ENTRY_OVERHEAD_BYTES; e \<leftarrow> checked_add d esz; checked_add e nsz }")
  case None
  then show ?thesis by (simp add: conservative_entry_charge_def)
next
  case (Some charge)
  then obtain c d e where "checked_add c HASHMAP_ENTRY_OVERHEAD_BYTES = Some d" "checked_add d esz = Some e"
    "checked_add e nsz = Some charge" by (auto simp: Option.bind_eq_Some_conv)
  then have "unat charge = unat c + 64 + unat esz + unat nsz"
    by (auto dest!: checked_add_Some simp: HASHMAP_ENTRY_OVERHEAD_BYTES_def)
  then show ?thesis using Some by (simp add: conservative_entry_charge_def)
qed

lemma store_rep_clear: "store_rep L s \<Longrightarrow> store_rep [] (clear_and_shrink s) \<and> byte_cap (clear_and_shrink s) = byte_cap s"
proof -
  assume "store_rep L s"
  moreover have "ns_entries (namespace_counters ns (telemetry (clear_and_shrink s))) = 0 \<and>
    approx_bytes (namespace_counters ns (telemetry (clear_and_shrink s))) = 0" for ns
    by (cases "namespaces (telemetry s) ns")
      (simp_all add: clear_and_shrink_def namespace_counters_def namespace_telemetry_default_def)
  ultimately show ?thesis
    by (auto simp: store_rep_def structure_ok_def recency_ok_empty arena.keys_def account_def)
      (simp_all add: clear_and_shrink_def recency_ok_empty)
qed

lemma delete_touch: "AList.delete k (lru_touch k L) = AList.delete k L"
proof (cases "map_of L k")
  case (Some x)
  have "AList.delete k (AList.delete k L @ [(k, x)]) = AList.delete k (AList.delete k L)"
    by (simp add: AList.delete_eq)
  then show ?thesis using Some by (simp add: lru_touch_def AList.delete_idem)
qed (simp add: lru_touch_def)

lemma cache_step_rep:
  assumes "store_rep L s" and "byte_cap s = cap"
  shows "\<exists>t. cache_step esz nsz x s = Some (fst (lru_step (unat cap) esz nsz x L), t) \<and>
    store_rep (snd (lru_step (unat cap) esz nsz x L)) t \<and> byte_cap t = cap"
proof (cases x)
  case (Get d key)
  obtain t where t: "probe d key (\<lambda>a. a) s = Some (lru_find d (serialize_geometry_cache_key key) L, t)"
    "store_rep (snd (lru_get d (serialize_geometry_cache_key key) L)) t" "byte_cap t = cap"
    using store_rep_probe [OF assms(1), of d key "\<lambda>a. a"] assms(2) by auto
  have "store_rep (snd (lru_get d (serialize_geometry_cache_key key) L)) (record_cloning_hit (key_namespace key) t)"
    unfolding record_cloning_hit_def by (rule store_rep_count [OF t(2)]) simp
  moreover have "fst (lru_get d (serialize_geometry_cache_key key) L) = lru_find d (serialize_geometry_cache_key key) L"
    by (simp add: lru_get_def split: option.split)
  ultimately show ?thesis using t Get
    by (auto simp: cache_get_def case_prod_beta record_cloning_hit_def)
next
  case (Probe_valid d key p)
  let ?k = "serialize_geometry_cache_key key"
  obtain t where t: "probe d key (map_option p) s = Some (map_option p (lru_find d ?k L), t)"
    "store_rep (snd (lru_get d ?k L)) t" "byte_cap t = cap"
    using store_rep_probe [OF assms(1), of d key "map_option p"] assms(2) by auto
  show ?thesis
  proof (cases "lru_find d ?k L")
    case None
    then show ?thesis using t Probe_valid by (simp add: probe_valid_def lru_get_def)
  next
    case (Some a)
    show ?thesis
    proof (cases "p a")
      case True
      then show ?thesis using t Some Probe_valid by (simp add: probe_valid_def lru_get_def)
    next
      case False
      have "store_rep (lru_touch ?k L) (record_stale_detection (key_namespace key) t)"
        unfolding record_stale_detection_def by (rule store_rep_count) (use t Some in \<open>simp_all add: lru_get_def\<close>)
      from store_rep_remove [OF this, of key] False show ?thesis using t Some Probe_valid
        by (auto simp: probe_valid_def delete_touch record_stale_detection_def)
    qed
  qed
next
  case (Set key v kc nc vc)
  from store_rep_set [OF assms(1) charge_pos [of esz nsz kc nc vc], of key v] assms(2) show ?thesis
    unfolding Set by (auto simp: case_prod_beta)
next
  case (Remove key)
  from store_rep_remove [OF assms(1), of key] assms(2) show ?thesis unfolding Remove by auto
next
  case (Record_hit ns)
  have "store_rep L (record_hit ns s)" unfolding record_hit_def by (rule store_rep_count [OF assms(1)]) simp
  then show ?thesis using Record_hit assms(2) by (simp add: record_hit_def)
next
  case Clear
  then show ?thesis using store_rep_clear [OF assms(1)] assms(2) by simp
qed

interpretation lru: simulation "\<lambda>L s. store_rep L s \<and> byte_cap s = cap" "lru_step (unat cap) esz nsz"
  "cache_step esz nsz" for cap esz nsz
  by unfold_locales (use cache_step_rep in blast)

text \<open>The contents of a store, read off its recency list.\<close>

definition lru_contents :: "'v store \<Rightarrow> 'v line list option" where
  "lru_contents s = map_option (map (\<lambda>k. line (k, the (entries s k)))) (walk (recency_head s) s)"

lemma store_rep_contents: "store_rep L s \<Longrightarrow> lru_contents s = Some L"
proof -
  assume "store_rep L s"
  then obtain R where R: "structure_ok R s" "L = map line R" by (auto simp: store_rep_def)
  then have "walk (recency_head s) s = Some (map fst R)"
    using walk_keys [of "row_nodes R" s] by (simp add: structure_ok_def)
  moreover have "(k, the (entries s k)) = (k, e)" if "(k, e) \<in> set R" for k e
    using structure_row(3) [OF R(1) that] by simp
  ultimately show ?thesis using R(2) by (auto simp: lru_contents_def)
qed

subsection \<open>What the cache guarantees\<close>

lemma cache_run:
  assumes "unat cap < u64_max"
  obtains s where "impl_run (cache_step esz nsz) xs (with_byte_cap cap) =
      Some (fst (spec_run (lru_step (unat cap) esz nsz) xs []), s)"
    "store_rep (snd (spec_run (lru_step (unat cap) esz nsz) xs [])) s" "byte_cap s = cap"
proof -
  have "store_rep [] (with_byte_cap cap) \<and> byte_cap (with_byte_cap cap) = cap"
    using store_rep_new [OF assms] by (simp add: with_byte_cap_def)
  from lru.run [OF this, of esz nsz xs] that show ?thesis by blast
qed

lemma reached_rep:
  assumes "unat cap < u64_max"
    and "impl_run (cache_step esz nsz) xs (with_byte_cap cap) = Some (answers, s)"
    and "lru_contents s = Some L"
  shows "store_rep L s" "byte_cap s = cap"
proof -
  obtain t where t: "impl_run (cache_step esz nsz) xs (with_byte_cap cap) =
      Some (fst (spec_run (lru_step (unat cap) esz nsz) xs []), t)"
    "store_rep (snd (spec_run (lru_step (unat cap) esz nsz) xs [])) t" "byte_cap t = cap"
    by (rule cache_run [OF assms(1)])
  have "t = s" using t(1) assms(2) by simp
  then show "store_rep L s" "byte_cap s = cap"
    using t(2,3) store_rep_contents [OF t(2)] assms(3) by simp_all
qed

text \<open>
  C28. The cache is an LRU list: any sequence of lookups, validity probes, publications and removals
  on a new store runs without a panic, gives the answers of the list specification, and the entries
  in the recency list's order are the lines of the specification.
\<close>

theorem cache_refines_lru:
  assumes "unat cap < u64_max"
  shows "\<exists>s. impl_run (cache_step esz nsz) xs (with_byte_cap cap) =
      Some (fst (spec_run (lru_step (unat cap) esz nsz) xs []), s) \<and>
    lru_contents s = Some (snd (spec_run (lru_step (unat cap) esz nsz) xs []))"
proof -
  obtain s where s: "impl_run (cache_step esz nsz) xs (with_byte_cap cap) =
      Some (fst (spec_run (lru_step (unat cap) esz nsz) xs []), s)"
    "store_rep (snd (spec_run (lru_step (unat cap) esz nsz) xs [])) s"
    by (rule cache_run [OF assms])
  show ?thesis using s(1) store_rep_contents [OF s(2)] by (intro exI [of _ s] conjI)
qed

definition demo_key :: "string \<Rightarrow> geometry_cache_key" where
  "demo_key p = \<lparr>key_namespace = ''n'', key_parts = [p]\<rparr>"

text \<open>
  With a cap of 200 bytes and entries of 64 + 10 bytes, the third publication evicts the entry
  that was not looked up.
\<close>

definition demo_ops :: "(nat, nat) cache_op list" where
  "demo_ops = [Set (demo_key ''a'') 1 0 0 10, Set (demo_key ''b'') 2 0 0 10, Get Some (demo_key ''a''),
    Set (demo_key ''c'') 3 0 0 10, Get Some (demo_key ''b'')]"

lemma demo_charge: "conservative_entry_charge 0 0 0 0 10 = 74"
  by (simp add: conservative_entry_charge_def checked_add_def HASHMAP_ENTRY_OVERHEAD_BYTES_def)

lemma demo_run: "spec_run (lru_step 200 0 0) demo_ops [] =
    ([Admitted True, Admitted True, Value (Some 1), Admitted True, Value None],
     [(serialize_geometry_cache_key (demo_key ''a''), 1, 74, ''n''),
      (serialize_geometry_cache_key (demo_key ''c''), 3, 74, ''n'')])"
  by (simp add: demo_ops_def demo_charge lru_set_def lru_get_def lru_find_def lru_touch_def serialize_inject
      demo_key_def)

lemma cache_refines_lru_witness:
  "\<exists>s. impl_run (cache_step 0 0) demo_ops (with_byte_cap 200) =
      Some ([Admitted True, Admitted True, Value (Some 1), Admitted True, Value None], s)"
  using cache_refines_lru [of 200 0 0 demo_ops] demo_run by auto

text \<open>
  C29. The cache stays within its byte cap and its accounting is exact, after any sequence of
  operations: the current bytes are the sum of the charges of the entries, at most the cap, and
  every namespace's counters give its number of entries and their bytes.
\<close>

theorem cache_accounting_exact:
  assumes "unat cap < u64_max"
    and "impl_run (cache_step esz nsz) xs (with_byte_cap cap) = Some (answers, s)"
    and "lru_contents s = Some L"
  shows "unat (current_bytes (telemetry s)) = charges L \<and> current_bytes (telemetry s) \<le> cap \<and>
    unat (approx_bytes (namespace_counters ns (telemetry s))) = charges (ns_lines ns L) \<and>
    unat (ns_entries (namespace_counters ns (telemetry s))) = length (ns_lines ns L)"
  using reached_rep [OF assms] by (simp add: store_rep_def account_def word_le_nat_alt)

lemma cache_accounting_exact_witness:
  "\<exists>answers s. impl_run (cache_step 0 0) demo_ops (with_byte_cap 200) = Some (answers, s) \<and>
    unat (current_bytes (telemetry s)) = 148 \<and> unat (ns_entries (namespace_counters ''n'' (telemetry s))) = 2"
proof -
  obtain s where s: "impl_run (cache_step 0 0) demo_ops (with_byte_cap 200) =
      Some (fst (spec_run (lru_step 200 0 0) demo_ops []), s)"
    "store_rep (snd (spec_run (lru_step 200 0 0) demo_ops [])) s"
    using cache_run [of 200 0 0 demo_ops] by auto
  from cache_accounting_exact [OF _ s(1) store_rep_contents [OF s(2)], of "''n''"] s(1)
  show ?thesis by (auto simp: demo_run)
qed

lemma make_room_minimal:
  "\<exists>E. L = E @ make_room cap c L \<and> (E = [] \<or> cap < charges (last E # make_room cap c L) + c)"
proof (induction L)
  case (Cons l L)
  show ?case
  proof (cases "cap < charges (l # L) + c")
    case True
    from Cons obtain E where E: "L = E @ make_room cap c L" "E = [] \<or> cap < charges (last E # make_room cap c L) + c"
      by blast
    then have "l # L = (l # E) @ make_room cap c (l # L)" using True by simp
    moreover have "cap < charges (last (l # E) # make_room cap c (l # L)) + c"
    proof (cases "E = []")
      case True
      then have "make_room cap c L = L" using E(1) by simp
      then show ?thesis using True \<open>cap < charges (l # L) + c\<close> by simp
    next
      case False
      then show ?thesis using E(2) True by simp
    qed
    ultimately show ?thesis by blast
  next
    case False
    then show ?thesis by simp
  qed
qed simp

text \<open>
  C30. A publication in any reachable state of the cache: it is refused exactly when the charge of
  the entry alone exceeds the cap, and then changes no entry. Otherwise the key's old entry goes,
  the new one becomes the most recent, and of the others only the least recently used are evicted,
  and no more than necessary: bringing back the last evicted one would exceed the cap.
\<close>

theorem cache_set_evicts_minimally:
  assumes "unat cap < u64_max" and "0 < unat c"
    and "impl_run (cache_step esz nsz) xs (with_byte_cap cap) = Some (answers, s)"
    and "lru_contents s = Some L"
  shows "\<exists>s' E M. cache_set key v c s = Some (c \<le> cap, s') \<and>
    lru_contents s' = Some (if c \<le> cap then M @ [(serialize_geometry_cache_key key, v, c, key_namespace key)] else L) \<and>
    AList.delete (serialize_geometry_cache_key key) L = E @ M \<and>
    (c \<le> cap \<longrightarrow> charges M + unat c \<le> unat cap) \<and>
    (c \<le> cap \<and> E \<noteq> [] \<longrightarrow> unat cap < charges (last E # M) + unat c)"
proof -
  let ?k = "serialize_geometry_cache_key key"
  note r = reached_rep [OF assms(1,3,4)]
  obtain t where t: "cache_set key v c s = Some (fst (lru_set (unat cap) ?k (key_namespace key) v c L), t)"
    "store_rep (snd (lru_set (unat cap) ?k (key_namespace key) v c L)) t"
    using store_rep_set [OF r(1) assms(2), of key v] r(2) by auto
  obtain E where E: "AList.delete ?k L = E @ make_room (unat cap) (unat c) (AList.delete ?k L)"
    "E = [] \<or> unat cap < charges (last E # make_room (unat cap) (unat c) (AList.delete ?k L)) + unat c"
    using make_room_minimal [of "AList.delete ?k L" "unat cap" "unat c"] by blast
  note t' = t(1) store_rep_contents [OF t(2)]
  show ?thesis
  proof (rule exI [of _ t], rule exI [of _ E], rule exI [of _ "make_room (unat cap) (unat c) (AList.delete ?k L)"],
      intro conjI E(1) impI)
    show "cache_set key v c s = Some (c \<le> cap, t)" using t'(1) by (auto simp: lru_set_def word_le_nat_alt)
    show "lru_contents t = Some (if c \<le> cap then make_room (unat cap) (unat c) (AList.delete ?k L) @
        [(?k, v, c, key_namespace key)] else L)" using t'(2) by (auto simp: lru_set_def word_le_nat_alt)
    show "charges (make_room (unat cap) (unat c) (AList.delete ?k L)) + unat c \<le> unat cap" if "c \<le> cap"
      using that by (intro make_room_fits) (simp add: word_le_nat_alt)
  qed (use E(2) in simp)
qed

lemma cache_set_evicts_minimally_witness:
  "\<exists>answers s s'. impl_run (cache_step 0 0) demo_ops (with_byte_cap 200) = Some (answers, s) \<and>
    cache_set (demo_key ''d'') 4 100 s = Some (True, s')"
proof -
  obtain s where s: "impl_run (cache_step 0 0) demo_ops (with_byte_cap 200) =
      Some (fst (spec_run (lru_step 200 0 0) demo_ops []), s)"
    "store_rep (snd (spec_run (lru_step 200 0 0) demo_ops [])) s"
    using cache_run [of 200 0 0 demo_ops] by auto
  from cache_set_evicts_minimally [OF _ _ s(1) store_rep_contents [OF s(2)], of 100 "demo_key ''d''" 4] s(1)
  show ?thesis by auto
qed

subsection \<open>Charges\<close>

definition checked_mul :: "u64 \<Rightarrow> u64 \<Rightarrow> u64 option" where
  "checked_mul a b = (if unat a * unat b \<le> u64_max then Some (a * b) else None)"

text \<open>Sizes of types are arguments: \<open>usize\<close> values convert to \<open>u64\<close> without loss.\<close>

definition capacity_charge :: "u64 \<Rightarrow> u64 \<Rightarrow> u64" where
  "capacity_charge size_u capacity =
    (case checked_mul capacity size_u of None \<Rightarrow> of_nat u64_max | Some c \<Rightarrow> c)"

fun try_fold_add :: "u64 \<Rightarrow> u64 list \<Rightarrow> u64 option" where
  "try_fold_add acc [] = Some acc"
| "try_fold_add acc (p # ps) = (case checked_add acc p of None \<Rightarrow> None | Some t \<Rightarrow> try_fold_add t ps)"

definition charge_sum :: "u64 list \<Rightarrow> u64" where
  "charge_sum parts = (case try_fold_add 0 parts of None \<Rightarrow> of_nat u64_max | Some c \<Rightarrow> c)"

definition charge_value_with_vec_capacity :: "u64 \<Rightarrow> u64 \<Rightarrow> u64 \<Rightarrow> u64" where
  "charge_value_with_vec_capacity size_t size_u capacity = charge_sum [size_t, capacity_charge size_u capacity]"

definition charge_nfp_polygon :: "u64 \<Rightarrow> u64 \<Rightarrow> u64 \<Rightarrow> u64" where
  "charge_nfp_polygon size_polygon size_point capacity = charge_value_with_vec_capacity size_polygon size_point capacity"

definition charge_ifp_bounds :: "u64 \<Rightarrow> u64 \<Rightarrow> u64 \<Rightarrow> u64" where
  "charge_ifp_bounds size_bounds label_capacity id_capacity = charge_sum [size_bounds, label_capacity, id_capacity]"

definition charge_transformed_collision_geometry :: "u64 \<Rightarrow> u64 \<Rightarrow> u64 \<Rightarrow> u64 \<Rightarrow> u64" where
  "charge_transformed_collision_geometry size_t size_point id_capacity capacity =
    charge_sum [size_t, id_capacity, capacity_charge size_point capacity]"

lemma try_fold_add_sum: "(case try_fold_add t ps of
    None \<Rightarrow> u64_max < unat t + sum_list (map unat ps)
  | Some c \<Rightarrow> unat c = unat t + sum_list (map unat ps))"
proof (induction ps arbitrary: t)
  case (Cons p ps)
  show ?case
  proof (cases "checked_add t p")
    case None
    then have "u64_max < unat t + unat p" by (simp only: checked_add_None)
    with None show ?thesis by simp
  next
    case (Some c)
    with Cons.IH [of c] checked_add_Some [OF Some] show ?thesis by (cases "try_fold_add c ps") simp_all
  qed
qed simp

lemma charge_sum_min: "unat (charge_sum ps) = min (sum_list (map unat ps)) u64_max"
  using try_fold_add_sum [of 0 ps] unat_u64_bound
  by (auto simp: charge_sum_def min_def unat_of_nat split: option.splits) (metis unat_u64_bound)

lemma entry_charge_sum: "conservative_entry_charge esz nsz kc nc vc =
    charge_sum [vc, kc, kc, nc, HASHMAP_ENTRY_OVERHEAD_BYTES, esz, nsz]"
  by (simp add: conservative_entry_charge_def charge_sum_def checked_add_def split: option.splits)

lemma overhead: "sum_list (map unat [vc, kc, kc, nc, HASHMAP_ENTRY_OVERHEAD_BYTES, esz, nsz]) =
    unat vc + 2 * unat kc + unat nc + 64 + unat esz + unat nsz"
  by (simp add: HASHMAP_ENTRY_OVERHEAD_BYTES_def)

text \<open>
  Charges never undercount: the charge of an entry is the exact sum of its parts (the key
  twice, for the map and the recency list), or \<open>u64::MAX\<close> when that sum does not fit, which no
  finite cap admits; the same holds for the sum and the capacity charge behind every value charge.
\<close>

theorem charges_never_undercount:
  "unat (conservative_entry_charge esz nsz kc nc vc) =
      min (unat vc + 2 * unat kc + unat nc + 64 + unat esz + unat nsz) u64_max \<and>
    unat (charge_sum ps) = min (sum_list (map unat ps)) u64_max \<and>
    unat (capacity_charge size_u capacity) = min (unat capacity * unat size_u) u64_max"
proof (intro conjI)
  show "unat (conservative_entry_charge esz nsz kc nc vc) =
      min (unat vc + 2 * unat kc + unat nc + 64 + unat esz + unat nsz) u64_max"
    unfolding entry_charge_sum charge_sum_min overhead by simp
  show "unat (charge_sum ps) = min (sum_list (map unat ps)) u64_max" by (rule charge_sum_min)
  show "unat (capacity_charge size_u capacity) = min (unat capacity * unat size_u) u64_max"
    by (auto simp: capacity_charge_def checked_mul_def unat_word_ariths unat_of_nat)
qed

end
