(* ===== verification/ScoreGrid.thy ===== *)
theory ScoreGrid
  imports JsNumber
begin

text \<open>
  \<open>crates/polygon-nesting-core/src/search/score_grid.rs\<close>: the grid on which scores are compared,
  0.001 for millimeters and 0.000001 for scalars, and the order of numbers.
\<close>

definition IRREGULAR_SCORE_GRID_SCALE :: f64 where
  "IRREGULAR_SCORE_GRID_SCALE = lit 1000"

definition IRREGULAR_SCORE_SCALAR_SCALE :: f64 where
  "IRREGULAR_SCORE_SCALAR_SCALE = lit 1000000"

definition canonicalize_irregular_score_millimeter_units :: "f64 \<Rightarrow> f64 option" where
  "canonicalize_irregular_score_millimeter_units value_mm =
    (if \<not> is_finite value_mm then None
     else let scaled_absolute_value = fmul (fabs value_mm) IRREGULAR_SCORE_GRID_SCALE
       in if \<not> is_finite scaled_absolute_value then None
          else let rounded_absolute_value = ffloor (fadd scaled_absolute_value (lit (1 / 2)));
                   grid_value = fmul (js_sign value_mm) rounded_absolute_value
            in if js_safe_integer grid_value then Some grid_value else None)"

definition canonicalize_irregular_score_millimeters :: "f64 \<Rightarrow> f64 option" where
  "canonicalize_irregular_score_millimeters value_mm =
    map_option (\<lambda>grid_units. fdiv grid_units IRREGULAR_SCORE_GRID_SCALE)
      (canonicalize_irregular_score_millimeter_units value_mm)"

definition canonicalize_irregular_score_scalar :: "f64 \<Rightarrow> f64 option" where
  "canonicalize_irregular_score_scalar value =
    (if \<not> is_finite value then None
     else let scaled_absolute_value = fmul (fabs value) IRREGULAR_SCORE_SCALAR_SCALE
       in if \<not> is_finite scaled_absolute_value then None
          else let rounded_absolute_value = ffloor (fadd scaled_absolute_value (lit (1 / 2)));
                   grid_value = fmul (js_sign value) rounded_absolute_value
            in if js_safe_integer grid_value then Some (fdiv grid_value IRREGULAR_SCORE_SCALAR_SCALE) else None)"

definition cmp_number :: "f64 \<Rightarrow> f64 \<Rightarrow> ordering" where
  "cmp_number a b = (case (is_nan a, is_nan b) of
      (True, True) \<Rightarrow> Equal
    | (True, False) \<Rightarrow> Less
    | (False, True) \<Rightarrow> Greater
    | (False, False) \<Rightarrow> if flt a b then Less else if flt b a then Greater else Equal)"

subsection \<open>The units of a scale\<close>

definition units_at :: "rat \<Rightarrow> rat \<Rightarrow> int" where
  "units_at S m = \<lfloor>round_mag (round_mag (m * S) + 1 / 2)\<rfloor>"

lemma lit_nat: "0 \<le> i \<Longrightarrow> i \<le> 2 ^ 53 \<Longrightarrow> lit (of_int i) = Finite False (of_int i)"
  using round_to_int [of i False] by (simp add: lit_def)

lemma lit_half: "lit (1 / 2) = Finite False (1 / 2)"
proof -
  have "round_mag (1 / 2) = (1 / 2 :: rat)" by (rule round_mag_exact [of _ 1 "- 1"]) (simp_all add: power_int_minus)
  moreover have "(1 / 2 :: rat) < f64_top" by (simp add: f64_top_def)
  ultimately show ?thesis by (simp add: lit_def round_to_def Let_def)
qed

lemma js_sign_finite: "0 \<le> m \<Longrightarrow> js_sign (Finite s m) = Finite s (if m = 0 then 0 else 1)"
proof -
  have "lit 1 = Finite False 1" "lit (- 1) = Finite True 1"
    using round_to_int [of 1 False] round_to_int [of 1 True] by (simp_all add: lit_def)
  then show "0 \<le> m \<Longrightarrow> ?thesis" by (auto simp: js_sign_def)
qed

lemma large_round: "(2 :: rat) ^ 54 \<le> m \<Longrightarrow> 2 ^ 54 \<le> round_mag m"
proof -
  assume "(2 :: rat) ^ 54 \<le> m"
  then have "round_mag (2 ^ 54) \<le> round_mag m" by (intro round_mag_mono) auto
  moreover have "round_mag (2 ^ 54) = 2 ^ 54" by (rule round_mag_exact [of _ 1 54]) simp_all
  ultimately show ?thesis by simp
qed

lemma large_floor: "(2 :: rat) ^ 53 \<le> m \<Longrightarrow> \<not> \<lfloor>m\<rfloor> \<le> 9007199254740991"
proof -
  assume "(2 :: rat) ^ 53 \<le> m"
  then have "2 ^ 53 \<le> \<lfloor>m\<rfloor>" by (subst le_floor_iff) simp
  then show ?thesis by simp
qed

lemma top_large: "f64_top \<le> m \<Longrightarrow> (2 :: rat) ^ 54 \<le> m"
  by (rule order_trans [rotated]) (auto simp: f64_top_def)

text \<open>A safe integer value is a product with the sign.\<close>

lemma safe_units:
  assumes "0 \<le> n"
  shows "(let g = round_to s (of_int n) in if js_safe_integer g then Some g else None) =
    (if n \<le> 9007199254740991 then Some (Finite s (of_int n)) else None)"
proof (cases "n \<le> 2 ^ 53")
  case True
  then have r: "round_to s (of_int n) = Finite s (of_int n)" using assms round_to_int [of n s] by simp
  have "is_int_val (Finite s (of_int n)) (if s then - n else n)"
    using f64_ok_round_to [of "of_int n" s] assms unfolding r by (simp add: is_int_val_def)
  then have "js_safe_integer (Finite s (of_int n)) \<longleftrightarrow> n \<le> 9007199254740991"
    using assms unfolding js_safe_integer_eq
    by (subst safe_integer_iff) (auto simp: is_int_val_def split: if_splits)
  then show ?thesis by (simp add: r)
next
  case False
  have "round_mag (2 ^ 53) \<le> round_mag (of_int n)" using False by (intro round_mag_mono) auto
  moreover have "round_mag (2 ^ 53) = (2 ^ 53 :: rat)" using round_mag_int [of "2 ^ 53"] by simp
  ultimately have b: "2 ^ 53 \<le> round_mag (of_int n :: rat)" by simp
  have "\<not> js_safe_integer (round_to s (of_int n))"
  proof
    assume "js_safe_integer (round_to s (of_int n))"
    then obtain i where "is_int_val (round_to s (of_int n)) i" "\<bar>i\<bar> \<le> 9007199254740991"
      using assms f64_ok_round_to [of "of_int n" s] unfolding js_safe_integer_eq by (auto simp: safe_integer_iff)
    then have "(if s then - round_mag (of_int n) else round_mag (of_int n)) = (of_int i :: rat)"
      by (auto simp: is_int_val_def round_to_def Let_def split: if_splits)
    then have "round_mag (of_int n) = (of_int \<bar>i\<bar> :: rat)" using b by (auto split: if_splits)
    then have "(2 :: rat) ^ 53 \<le> of_int \<bar>i\<bar>" using b by simp
    then have "(of_int (2 ^ 53) :: rat) \<le> of_int \<bar>i\<bar>" by simp
    then have "2 ^ 53 \<le> \<bar>i\<bar>" unfolding of_int_le_iff .
    with \<open>\<bar>i\<bar> \<le> 9007199254740991\<close> show False by simp
  qed
  then show ?thesis using False by simp
qed

definition grid_at :: "f64 \<Rightarrow> f64 \<Rightarrow> f64 option" where
  "grid_at K v =
    (if \<not> is_finite v then None
     else let scaled = fmul (fabs v) K
       in if \<not> is_finite scaled then None
          else let g = fmul (js_sign v) (ffloor (fadd scaled (lit (1 / 2))))
            in if js_safe_integer g then Some g else None)"

lemma grid_at_defs:
  "canonicalize_irregular_score_millimeter_units v = grid_at (lit 1000) v"
  "canonicalize_irregular_score_scalar v = map_option (\<lambda>g. fdiv g (lit 1000000)) (grid_at (lit 1000000) v)"
  by (simp_all add: canonicalize_irregular_score_millimeter_units_def canonicalize_irregular_score_scalar_def
      grid_at_def IRREGULAR_SCORE_GRID_SCALE_def IRREGULAR_SCORE_SCALAR_SCALE_def Let_def)

lemma units_nonneg: "0 \<le> S \<Longrightarrow> 0 \<le> m \<Longrightarrow> 0 \<le> units_at S m"
  unfolding units_at_def by (subst zero_le_floor) (intro round_mag_nonneg add_nonneg_nonneg mult_nonneg_nonneg; simp)

lemma units_zero: "units_at S 0 = 0"
proof -
  have half: "round_mag (1 / 2) = (1 / 2 :: rat)" by (rule round_mag_exact [of _ 1 "- 1"]) (simp_all add: power_int_minus)
  show ?thesis unfolding units_at_def by (intro floor_unique) (simp_all add: half)
qed

lemma grid_at_eq:
  assumes "f64_ok (Finite s m)" and "0 \<le> k" "k \<le> 2 ^ 53"
  shows "grid_at (lit (of_int k)) (Finite s m) =
    (if units_at (of_int k) m \<le> 9007199254740991 then Some (Finite s (of_int (units_at (of_int k) m))) else None)"
proof -
  let ?S = "of_int k :: rat" and ?n = "units_at (of_int k) m"
  let ?r = "round_mag (m * ?S)"
  let ?q = "round_mag (?r + 1 / 2)"
  have m: "0 \<le> m" using assms(1) by simp
  have r: "0 \<le> ?r" using m assms(2) by (intro round_mag_nonneg) simp
  have n: "0 \<le> ?n" using units_nonneg [of ?S m] m assms(2) by simp
  have lS: "lit ?S = Finite False ?S" by (rule lit_nat [OF assms(2,3)])
  have big: "\<not> ?n \<le> 9007199254740991" if "2 ^ 54 \<le> ?q"
    using large_floor [of ?q] that by (simp add: units_at_def)
  show ?thesis
  proof (cases "?r < f64_top")
    case False
    then have "2 ^ 54 \<le> ?r + 1 / 2" using top_large [of ?r] by simp
    then have "\<not> ?n \<le> 9007199254740991" using big large_round by blast
    moreover have "fmul (fabs (Finite s m)) (lit ?S) = Infinity False" using False by (simp add: lS round_to_def Let_def)
    ultimately show ?thesis by (simp add: grid_at_def)
  next
    case fin: True
    have sc: "fmul (fabs (Finite s m)) (lit ?S) = Finite False ?r" using fin by (simp add: lS round_to_def Let_def)
    have add: "fadd (Finite False ?r) (lit (1 / 2)) = round_to False (?r + 1 / 2)"
      using r by (simp add: lit_half Let_def)
    have step: "grid_at (lit ?S) (Finite s m) =
      (let g = fmul (js_sign (Finite s m)) (ffloor (round_to False (?r + 1 / 2))) in if js_safe_integer g then Some g else None)"
      by (simp only: grid_at_def sc is_finite.simps simp_thms if_True if_False Let_def add)
    show ?thesis
    proof (cases "m = 0")
      case True
      have "round_to False (1 / 2) = Finite False (1 / 2)" using lit_half by (simp add: lit_def)
      then have "fmul (js_sign (Finite s m)) (ffloor (round_to False (?r + 1 / 2))) = round_to s (of_int 0)"
        using True js_sign_finite [of 0 s] by simp
      then show ?thesis using step safe_units [of 0 s] True by (simp add: units_zero)
    next
      case False
      show ?thesis
      proof (cases "?q < f64_top")
        case True
        then have "fmul (js_sign (Finite s m)) (ffloor (round_to False (?r + 1 / 2))) = round_to s (of_int ?n)"
          using False m by (simp add: js_sign_finite round_to_def [of False] Let_def units_at_def)
        then show ?thesis using step safe_units [OF n] by simp
      next
        case inf: False
        then have "fmul (js_sign (Finite s m)) (ffloor (round_to False (?r + 1 / 2))) = Infinity s"
          using False m by (simp add: js_sign_finite round_to_def [of False] Let_def)
        moreover have "\<not> ?n \<le> 9007199254740991" using inf by (intro big top_large) simp
        ultimately show ?thesis using step by (simp add: js_safe_integer_def)
      qed
    qed
  qed
qed

text \<open>Dividing by the scale and rounding again gives the same units.\<close>

lemma quarter_exact: "0 \<le> k \<Longrightarrow> k \<le> 2 ^ 53 \<Longrightarrow> round_mag (of_int k / 4) = (of_int k / 4 :: rat)"
  by (rule round_mag_exact [of _ k "- 2"]) (simp_all add: power_int_minus)

lemma units_of_quotient:
  assumes "0 \<le> k" "k \<le> 2 ^ 50" and "1 \<le> S" "S \<le> 1000000"
  shows "units_at (of_int S) (round_mag (of_int k / of_int S)) = k"
proof (cases "k = 0")
  case True
  then show ?thesis by (simp add: units_zero)
next
  case False
  then have k: "1 \<le> k" using assms(1) by simp
  let ?S = "of_int S :: rat" and ?k = "of_int k :: rat"
  let ?x = "?k / ?S"
  let ?w = "round_mag ?x"
  have "?S \<le> of_int 1000000" "?k \<le> of_int (2 ^ 50)" using assms(2,4) unfolding of_int_le_iff by auto
  then have S: "1 \<le> ?S" "?S \<le> 1000000" and kk: "1 \<le> ?k" "?k \<le> 2 ^ 50" using assms(3) k by simp_all
  have x: "0 < ?x" using k assms(3) by simp
  have "1 / 1000000 \<le> ?x" using kk S by (simp add: field_simps)
  moreover have "(2 :: rat) powi (- 20) \<le> 1 / 1000000" by (simp add: power_int_minus)
  ultimately have "2 powi (- 20) \<le> ?x" by simp
  then have "flog2 (2 powi (- 20)) \<le> flog2 ?x" by (intro flog2_mono) simp_all
  moreover have "flog2 (2 powi (- 20)) = - 20" by (rule flog2_unique) simp_all
  ultimately have "ulp_exp ?x = flog2 ?x - 52" by (simp add: ulp_exp_def)
  then have "2 powi ulp_exp ?x / 2 = 2 powi flog2 ?x / (2 :: rat) ^ 53" by (simp add: power_int_diff)
  also have "\<dots> \<le> ?x / 2 ^ 53" using flog2_bounds(1) [OF x] by (simp add: divide_right_mono)
  finally have "\<bar>?w - ?x\<bar> \<le> ?x / 2 ^ 53" using round_mag_error [OF x] by (rule order_trans [rotated])
  then have "\<bar>?w - ?x\<bar> * ?S \<le> ?x / 2 ^ 53 * ?S" using S by (intro mult_right_mono) auto
  moreover have "\<bar>?w - ?x\<bar> * ?S = \<bar>(?w - ?x) * ?S\<bar>" using S(1) by (simp add: abs_mult)
  moreover have "(?w - ?x) * ?S = ?w * ?S - ?k" using S(1) by (simp add: left_diff_distrib)
  moreover have "?x / 2 ^ 53 * ?S = ?k / 2 ^ 53" using S by simp
  ultimately have e: "\<bar>?w * ?S - ?k\<bar> \<le> 1 / 8" using kk(2) by simp
  let ?r = "round_mag (?w * ?S)"
  have e': "?k - 1 / 8 \<le> ?w * ?S" "?w * ?S \<le> ?k + 1 / 8" using e unfolding abs_le_iff by linarith+
  have q: "of_int (4 * k - 1) / 4 = ?k - 1 / 4" "of_int (4 * k + 1) / 4 = ?k + 1 / 4" "of_int (4 * k + 3) / 4 = ?k + 3 / 4"
    by simp_all
  have "of_int (4 * k - 1) / 4 \<le> ?w * ?S" "(0 :: rat) \<le> of_int (4 * k - 1) / 4" unfolding q using e' kk by linarith+
  then have "round_mag (of_int (4 * k - 1) / 4) \<le> ?r" by (intro round_mag_mono)
  then have lo: "?k - 1 / 4 \<le> ?r" using k assms(2) by (subst (asm) quarter_exact) auto
  have "?w * ?S \<le> of_int (4 * k + 1) / 4" "0 \<le> ?w * ?S" unfolding q using e' kk by linarith+
  then have "?r \<le> round_mag (of_int (4 * k + 1) / 4)" by (intro round_mag_mono)
  then have hi: "?r \<le> ?k + 1 / 4" using k assms(2) by (subst (asm) quarter_exact) auto
  have "round_mag (of_int (4 * k + 1) / 4) \<le> round_mag (?r + 1 / 2)" using lo kk by (intro round_mag_mono) auto
  then have "?k + 1 / 4 \<le> round_mag (?r + 1 / 2)" using k assms(2) by (subst (asm) quarter_exact) auto
  moreover have "round_mag (?r + 1 / 2) \<le> round_mag (of_int (4 * k + 3) / 4)" using hi lo kk by (intro round_mag_mono) auto
  then have "round_mag (?r + 1 / 2) \<le> ?k + 3 / 4" using k assms(2) by (subst (asm) quarter_exact) auto
  ultimately show ?thesis unfolding units_at_def by (intro floor_unique) linarith+
qed

lemma grid_at_quotient:
  assumes "grid_at (lit (of_int S)) v = Some g" and "f64_ok v" and "1 \<le> S" "S \<le> 1000000"
    and "\<bar>f64_val g\<bar> \<le> 2 ^ 50"
  shows "grid_at (lit (of_int S)) (fdiv g (lit (of_int S))) = Some g"
proof -
  obtain s m where v: "v = Finite s m" using assms(1) by (cases v) (auto simp: grid_at_def)
  let ?n = "units_at (of_int S) m"
  have g: "g = Finite s (of_int ?n)"
    using assms(1-4) grid_at_eq [of s m S] by (auto simp: v split: if_splits)
  have n: "0 \<le> ?n" using units_nonneg [of "of_int S" m] assms(2,3) v by simp
  have "\<bar>of_int ?n\<bar> \<le> (of_int (2 ^ 50) :: rat)" using assms(5) by (simp add: g split: if_splits)
  then have n50: "?n \<le> 2 ^ 50" using n by (simp only: of_int_abs [symmetric] of_int_le_iff)
  have lS: "lit (of_int S) = Finite False (of_int S)" using assms(3,4) by (intro lit_nat) auto
  let ?w = "round_mag (of_int ?n / of_int S)"
  have "of_int ?n / of_int S \<le> (of_int (2 ^ 50) :: rat)"
  proof -
    have "of_int ?n \<le> (of_int (2 ^ 50) :: rat)" using n50 unfolding of_int_le_iff .
    moreover have "(of_int ?n :: rat) / of_int S \<le> of_int ?n / 1" using n assms(3) by (intro divide_left_mono) auto
    ultimately show ?thesis by simp
  qed
  then have "?w \<le> round_mag (of_int (2 ^ 50))" using n assms(3) by (intro round_mag_mono) auto
  also have "\<dots> < f64_top" using round_mag_int [of "2 ^ 50"] by (simp add: f64_top_def)
  finally have top: "?w < f64_top" .
  then have w: "fdiv g (lit (of_int S)) = Finite s ?w"
    using assms(3) by (simp add: g lS round_to_def Let_def)
  have "f64_ok (Finite s ?w)" using f64_ok_round_to [of "of_int ?n / of_int S" s] n assms(3) top
    by (simp add: round_to_def Let_def)
  from grid_at_eq [OF this, of S] show ?thesis
    using units_of_quotient [OF n n50 assms(3,4)] n50 assms(3,4) by (subst w) (simp add: g)
qed

lemma scalar_idempotent:
  assumes "f64_ok v" and "grid_at (lit 1000000) v = Some g" and "\<bar>f64_val g\<bar> \<le> 2 ^ 50"
  shows "Option.bind (canonicalize_irregular_score_scalar v) canonicalize_irregular_score_scalar =
    canonicalize_irregular_score_scalar v"
  using grid_at_quotient [of 1000000 v g] assms by (simp add: grid_at_defs)

text \<open>
  C36. Scores survive the way to millimeters and back: up to \<open>2 ^ 50\<close> grid units, the canonical
  millimeter value of a length has the same units as the length, and is its own canonical value,
  although the division and both multiplications round.
\<close>

theorem score_grid_roundtrip:
  assumes "f64_ok v" and "canonicalize_irregular_score_millimeter_units v = Some g" and "\<bar>f64_val g\<bar> \<le> 2 ^ 50"
  shows "\<exists>w. canonicalize_irregular_score_millimeters v = Some w \<and>
    canonicalize_irregular_score_millimeter_units w = Some g \<and> canonicalize_irregular_score_millimeters w = Some w"
  using assms grid_at_quotient [of 1000 v g]
  by (simp add: canonicalize_irregular_score_millimeters_def grid_at_defs IRREGULAR_SCORE_GRID_SCALE_def)

lemma sample_units: "canonicalize_irregular_score_millimeter_units (lit 2) = Some (lit 2000)"
proof -
  have "lit 2 = Finite False 2" "lit 2000 = Finite False 2000" using lit_nat [of 2] lit_nat [of 2000] by simp_all
  moreover have "units_at 1000 2 = 2000"
  proof -
    have "round_mag (2 * 1000) = (2000 :: rat)" using round_mag_int [of 2000] by simp
    moreover have "round_mag (4001 / 2) = (4001 / 2 :: rat)" by (rule round_mag_exact [of _ 4001 "- 1"]) (simp_all add: power_int_minus)
    moreover have "(2000 + 1 / 2 :: rat) = 4001 / 2" by simp
    ultimately show ?thesis unfolding units_at_def by (intro floor_unique) simp_all
  qed
  moreover have "f64_ok (lit 2)" by simp
  ultimately show ?thesis using grid_at_eq [of False 2 1000] by (simp add: grid_at_defs)
qed

lemma score_grid_roundtrip_witness:
  "\<exists>w. canonicalize_irregular_score_millimeters (lit 2) = Some w \<and> canonicalize_irregular_score_millimeters w = Some w"
  using score_grid_roundtrip [of "lit 2" "lit 2000"] sample_units lit_nat [of 2000] by auto

text \<open>The order of numbers is a total preorder, the NaNs first.\<close>

fun number_rank :: "f64 \<Rightarrow> nat" where
  "number_rank NaN = 0"
| "number_rank (Infinity s) = (if s then 1 else 3)"
| "number_rank (Finite _ _) = 2"

lemma cmp_number_key: "cmp_number a b = cmp_of (number_rank a, f64_val a) (number_rank b, f64_val b)"
  by (cases a; cases b) (auto simp: cmp_number_def cmp_of_def)

lemma cmp_number_comparator: "comparator A cmp_number"
proof (rule comparator_cong)
  show "comparator A (\<lambda>a b. cmp_of (number_rank a, f64_val a) (number_rank b, f64_val b))"
    by (rule comparator_linorder_key)
qed (simp add: cmp_number_key)

interpretation number_order: comparator UNIV cmp_number
  by (rule cmp_number_comparator)

end
