(* ===== verification/Rotate.thy ===== *)
theory Rotate
  imports Domain ScoreGrid "HOL-Library.Monad_Syntax"
begin

text \<open>
  \<open>transforms/rotate.rs\<close> and the grid conversion of \<open>canonical_grid/offset_policy.rs\<close>: applying a mirror
  and a rotation to a point, and snapping it to the collision grid. The library's \<open>cos\<close> and \<open>sin\<close> are
  the parameters \<open>fcos\<close> and \<open>fsin\<close>.
\<close>

subsection \<open>The collision grid\<close>

definition CLIPPER2_OFFSET_SCALE :: f64 where
  "CLIPPER2_OFFSET_SCALE = lit 1000"

definition to_grid_mm :: "f64 \<Rightarrow> f64 option" where
  "to_grid_mm value_mm =
    (if \<not> is_finite value_mm then None
     else let scaled_absolute_value = fmul (fabs value_mm) CLIPPER2_OFFSET_SCALE in
       if \<not> is_finite scaled_absolute_value then None
       else let rounded_absolute_value = ffloor (fadd scaled_absolute_value (lit (1 / 2)));
                grid_value = fmul (math_sign value_mm) rounded_absolute_value in
         if is_safe_integer grid_value then Some grid_value else None)"

definition from_grid :: "f64 \<Rightarrow> f64" where
  "from_grid v = fdiv v CLIPPER2_OFFSET_SCALE"

definition snap_point_to_collision_grid :: "point \<Rightarrow> point option" where
  "snap_point_to_collision_grid p = do {
    x \<leftarrow> to_grid_mm (px p);
    y \<leftarrow> to_grid_mm (py p);
    Some \<lparr>px = fold_negative_zero (from_grid x), py = fold_negative_zero (from_grid y)\<rparr>
  }"

subsection \<open>Rotation\<close>

text \<open>The remainder \<open>%\<close> of two floats: exact, with the sign of the dividend.\<close>

fun frem :: "f64 \<Rightarrow> f64 \<Rightarrow> f64" where
  "frem (Finite s a) (Finite t b) = (if b = 0 then NaN else Finite s (a - b * of_int \<lfloor>a / b\<rfloor>))"
| "frem (Finite s a) (Infinity t) = Finite s a"
| "frem _ _ = NaN"

definition FULL_TURN :: f64 where
  "FULL_TURN = lit 360"

text \<open>\<open>std::f64::consts::PI\<close>.\<close>

definition F64_PI :: f64 where
  "F64_PI = Finite False (884279719003555 / 281474976710656)"

definition normalize_rotation_degrees :: "f64 \<Rightarrow> f64" where
  "normalize_rotation_degrees rotation_deg = (let remainder = frem rotation_deg FULL_TURN in
    if flt remainder f64_zero then fadd remainder FULL_TURN else remainder)"

definition transform_point :: "(f64 \<Rightarrow> f64) \<Rightarrow> (f64 \<Rightarrow> f64) \<Rightarrow> point \<Rightarrow> bool \<Rightarrow> f64 \<Rightarrow> point" where
  "transform_point fcos fsin p mirrored rotation_deg =
    (let x = (if mirrored then fneg (px p) else px p); y = py p in
     if feq rotation_deg f64_zero then \<lparr>px = fold_negative_zero x, py = fold_negative_zero y\<rparr>
     else if feq rotation_deg (lit 90) then \<lparr>px = fold_negative_zero (fneg y), py = fold_negative_zero x\<rparr>
     else if feq rotation_deg (lit 180) then \<lparr>px = fold_negative_zero (fneg x), py = fold_negative_zero (fneg y)\<rparr>
     else if feq rotation_deg (lit 270) then \<lparr>px = fold_negative_zero y, py = fold_negative_zero (fneg x)\<rparr>
     else let rotation_rad = fdiv (fmul rotation_deg F64_PI) (lit 180);
              c = fcos rotation_rad; s = fsin rotation_rad in
       \<lparr>px = fold_negative_zero (fsub (fmul x c) (fmul y s)), py = fold_negative_zero (fadd (fmul x s) (fmul y c))\<rparr>)"

definition transform_and_snap_point :: "(f64 \<Rightarrow> f64) \<Rightarrow> (f64 \<Rightarrow> f64) \<Rightarrow> point \<Rightarrow> bool \<Rightarrow> f64 \<Rightarrow> point option" where
  "transform_and_snap_point fcos fsin p mirrored rotation_deg =
    snap_point_to_collision_grid (transform_point fcos fsin p mirrored (normalize_rotation_degrees rotation_deg))"

subsection \<open>Snapping\<close>

lemma grid_defs: "to_grid_mm v = grid_at (lit 1000) v" "from_grid g = fdiv g (lit 1000)"
proof -
  have "math_sign v = js_sign v" by (simp add: math_sign_def js_sign_def)
  then show "to_grid_mm v = grid_at (lit 1000) v"
    by (simp add: to_grid_mm_def grid_at_def CLIPPER2_OFFSET_SCALE_def js_safe_integer_eq Let_def)
qed (simp add: from_grid_def CLIPPER2_OFFSET_SCALE_def)

lemma to_grid_zero: "to_grid_mm f64_zero = Some f64_zero" "fold_negative_zero (from_grid f64_zero) = f64_zero"
proof -
  have "f64_ok f64_zero" by (simp add: f64_top_def)
  from grid_at_eq [OF this, of 1000] show "to_grid_mm f64_zero = Some f64_zero"
    by (simp add: grid_defs units_zero)
  have "lit 1000 = Finite False 1000" using lit_nat [of 1000] by simp
  then show "fold_negative_zero (from_grid f64_zero) = f64_zero"
    by (simp add: grid_defs fold_negative_zero_def round_to_def)
qed

lemma snapped_coordinate:
  assumes "to_grid_mm v = Some g" "f64_ok v" "\<bar>f64_val g\<bar> \<le> 2 ^ 50"
  shows "\<exists>g'. to_grid_mm (fold_negative_zero (from_grid g)) = Some g' \<and>
    fold_negative_zero (from_grid g') = fold_negative_zero (from_grid g)"
proof (cases "feq (from_grid g) f64_zero")
  case True
  then have z: "fold_negative_zero (from_grid g) = f64_zero" by (simp add: fold_negative_zero_def)
  show ?thesis by (rule exI [of _ f64_zero]) (simp only: z to_grid_zero simp_thms)
next
  case False
  then have "fold_negative_zero (from_grid g) = fdiv g (lit 1000)" by (simp add: fold_negative_zero_def grid_defs)
  moreover have "grid_at (lit 1000) (fdiv g (lit 1000)) = Some g"
    using grid_at_quotient [of 1000 v g] assms by (simp add: grid_defs)
  ultimately show ?thesis by (simp add: grid_defs)
qed

text \<open>
  Snapping to the collision grid is stable up to \<open>2 ^ 50\<close> grid units: a point already snapped, as every
  vertex of a transformed collision polygon is, snaps to itself. Above \<open>2 ^ 51\<close> units it need not: the
  source accepts up to \<open>2 ^ 53 - 1\<close>, where millimeters are coarser than the grid.
\<close>

theorem snap_idempotent:
  assumes "f64_ok (px p)" "f64_ok (py p)" and "to_grid_mm (px p) = Some hx" "to_grid_mm (py p) = Some hy"
    and "\<bar>f64_val hx\<bar> \<le> 2 ^ 50" "\<bar>f64_val hy\<bar> \<le> 2 ^ 50"
  shows "\<exists>q. snap_point_to_collision_grid p = Some q \<and> snap_point_to_collision_grid q = Some q"
proof -
  obtain hx' hy' where "to_grid_mm (fold_negative_zero (from_grid hx)) = Some hx'"
      "fold_negative_zero (from_grid hx') = fold_negative_zero (from_grid hx)"
      "to_grid_mm (fold_negative_zero (from_grid hy)) = Some hy'"
      "fold_negative_zero (from_grid hy') = fold_negative_zero (from_grid hy)"
    using snapped_coordinate assms by blast
  then show ?thesis using assms(3,4) by (simp add: snap_point_to_collision_grid_def)
qed

lemma snap_idempotent_witness:
  "\<exists>q. snap_point_to_collision_grid \<lparr>px = lit 2, py = lit 2\<rparr> = Some q \<and> snap_point_to_collision_grid q = Some q"
proof -
  have g: "to_grid_mm (lit 2) = Some (lit 2000)"
    using sample_units unfolding grid_defs grid_at_defs .
  have "\<bar>f64_val (lit 2000)\<bar> \<le> 2 ^ 50" using lit_nat [of 2000] by simp
  then show ?thesis using snap_idempotent [of "\<lparr>px = lit 2, py = lit 2\<rparr>" "lit 2000" "lit 2000"] g by simp
qed

subsection \<open>The normalized angle\<close>

lemma full_turn: "FULL_TURN = Finite False 360"
  using lit_nat [of 360] by (simp add: FULL_TURN_def)

lemma rem_bounds: "0 \<le> m \<Longrightarrow> 0 \<le> m - 360 * of_int \<lfloor>m / 360\<rfloor> \<and> m - 360 * of_int \<lfloor>m / 360\<rfloor> < (360 :: rat)"
  using floor_correct [of "m / 360"] by (simp add: field_simps)

lemma round_below_turn:
  assumes "0 < v" "v \<le> (360 :: rat)"
  shows "round_mag v \<le> 360" "\<bar>round_mag v - v\<bar> \<le> 1 / 2 ^ 45"
proof -
  have "round_mag v \<le> round_mag (of_int 360)" using assms by (intro round_mag_mono) auto
  then show "round_mag v \<le> 360" using round_mag_int [of 360] by simp
  have "flog2 v \<le> 8" using assms by (intro flog2_le) auto
  then have "(2 :: rat) powi ulp_exp v \<le> 2 powi (- 44)" by (intro power_int_increasing) (auto simp: ulp_exp_def)
  also have "\<dots> = 1 / 2 ^ 44" by (simp add: power_int_minus field_simps)
  finally have "2 powi ulp_exp v / 2 \<le> (1 / 2 ^ 45 :: rat)" by simp
  then show "\<bar>round_mag v - v\<bar> \<le> 1 / 2 ^ 45" using round_mag_error [OF assms(1)] by linarith
qed

lemma add_turn: "0 < r \<Longrightarrow> r < 360 \<Longrightarrow> round_mag (360 - r) < f64_top \<Longrightarrow>
    fadd (Finite True r) (Finite False 360) = Finite False (round_mag (360 - r))"
  by (simp add: round_to_def Let_def)

lemma normalized_turn:
  assumes "0 \<le> m"
  shows "\<exists>t v. normalize_rotation_degrees (Finite s m) = Finite t v \<and> 0 \<le> v \<and> v \<le> 360 \<and> (t \<longrightarrow> v = 0) \<and>
    (v = m - 360 * of_int \<lfloor>m / 360\<rfloor> \<or> (\<exists>d \<ge> 0. v = round_mag d)) \<and>
    (\<exists>k. \<bar>v - f64_val (Finite s m) - 360 * of_int k\<bar> \<le> 1 / 2 ^ 45)"
proof -
  let ?r = "m - 360 * of_int \<lfloor>m / 360\<rfloor>"
  note r = rem_bounds [OF assms]
  show ?thesis
  proof (cases "s \<and> 0 < ?r")
    case False
    have n: "normalize_rotation_degrees (Finite s m) = Finite s ?r" using False r
      by (simp add: normalize_rotation_degrees_def full_turn Let_def)
    have z: "s \<Longrightarrow> ?r = 0" using False r by linarith
    have "\<bar>?r - f64_val (Finite s m) - 360 * of_int (if s then \<lfloor>m / 360\<rfloor> else - \<lfloor>m / 360\<rfloor>)\<bar> \<le> 1 / 2 ^ 45"
      using z by (cases s) simp_all
    then have c: "\<exists>k. \<bar>?r - f64_val (Finite s m) - 360 * of_int k\<bar> \<le> 1 / 2 ^ 45" ..
    show ?thesis by (intro exI [of _ s] exI [of _ ?r] conjI n c) (use r z in auto)
  next
    case True
    let ?v = "360 - ?r"
    have v: "0 < ?v" "?v \<le> 360" using r by linarith+
    note b = round_below_turn [OF v]
    have "round_mag ?v < f64_top" using b(1) by (simp add: f64_top_def)
    then have a: "fadd (Finite True ?r) (Finite False 360) = Finite False (round_mag ?v)"
      using True r by (intro add_turn) auto
    have rem: "frem (Finite s m) (Finite False 360) = Finite True ?r" using True by simp
    have "flt (Finite True ?r) f64_zero" using True by simp
    then have n: "normalize_rotation_degrees (Finite s m) = Finite False (round_mag ?v)"
      by (simp only: normalize_rotation_degrees_def full_turn rem Let_def if_True a)
    have "\<bar>round_mag ?v - f64_val (Finite s m) - 360 * of_int (\<lfloor>m / 360\<rfloor> + 1)\<bar> \<le> 1 / 2 ^ 45"
      using b(2) True by (simp add: algebra_simps)
    then have c: "\<exists>k. \<bar>round_mag ?v - f64_val (Finite s m) - 360 * of_int k\<bar> \<le> 1 / 2 ^ 45" ..
    have d: "\<exists>d \<ge> 0. round_mag ?v = round_mag d" using v(1) less_imp_le by blast
    show ?thesis by (intro exI [of _ False] exI [of _ "round_mag ?v"] conjI n c disjI2 d) (use b(1) v round_mag_nonneg [of ?v] in auto)
  qed
qed

text \<open>
  Normalizing an angle: every finite angle is taken to an angle between 0 and a full turn that is the
  same angle up to \<open>2^-45\<close> degrees.
\<close>

theorem rotation_normalized:
  assumes "f64_ok x" "is_finite x"
  shows "is_finite (normalize_rotation_degrees x) \<and> 0 \<le> f64_val (normalize_rotation_degrees x) \<and>
    f64_val (normalize_rotation_degrees x) \<le> 360 \<and>
    (\<exists>k. \<bar>f64_val (normalize_rotation_degrees x) - f64_val x - 360 * of_int k\<bar> \<le> 1 / 2 ^ 45)"
proof -
  obtain s m where x: "x = Finite s m" "0 \<le> m" using assms by (cases x) auto
  obtain t v where n: "normalize_rotation_degrees x = Finite t v" and "0 \<le> v" "v \<le> 360" "t \<Longrightarrow> v = 0"
    "\<exists>k. \<bar>v - f64_val x - 360 * of_int k\<bar> \<le> 1 / 2 ^ 45"
    using normalized_turn [OF x(2), of s] unfolding x(1) by blast
  moreover from this have "f64_val (Finite t v) = v" by (cases t) simp_all
  ultimately show ?thesis unfolding n by simp
qed

text \<open>A full turn itself is reached: the sum of a tiny negative remainder and 360 rounds to 360.\<close>

lemma full_turn_reached: "normalize_rotation_degrees (Finite True (1 / 2 ^ 60)) = Finite False 360"
proof -
  let ?v = "360 - 1 / 2 ^ 60 :: rat"
  have u: "ulp_exp ?v = - 44" using flog2_unique [of 8 ?v] by (simp add: ulp_exp_def)
  let ?x = "?v / 2 powi (- 44)"
  have x: "?x = 6333186975989760 - 1 / 65536" by (simp add: power_int_minus)
  obtain k where k: "k = round_even ?x" by simp
  have "\<bar>rat_of_int k - (6333186975989760 - 1 / 65536)\<bar> \<le> 1 / 2" unfolding k by (subst x [symmetric], rule round_even_half)
  then have "rat_of_int k < 6333186975989761" "6333186975989759 < rat_of_int k" by linarith+
  then have "k < 6333186975989761" "6333186975989759 < k" by simp_all
  then have "round_even ?x = 360 * 2 ^ 44" using k by simp
  then have "round_mag ?v = 360" by (subst round_mag_pos) (simp, simp only: u, simp add: power_int_minus)
  then have a: "fadd (Finite True (1 / 2 ^ 60)) (Finite False 360) = Finite False 360"
    using add_turn [of "1 / 2 ^ 60"] by (simp add: f64_top_def)
  have "\<lfloor>1 / 2 ^ 60 / (360 :: rat)\<rfloor> = 0" by (simp add: floor_eq_iff)
  then have r: "frem (Finite True (1 / 2 ^ 60)) (Finite False 360) = Finite True (1 / 2 ^ 60)"
    by (simp only: frem.simps) simp
  have "flt (Finite True (1 / 2 ^ 60)) f64_zero" by simp
  then show ?thesis by (simp only: normalize_rotation_degrees_def full_turn r Let_def if_True a)
qed

end
