(* ===== verification/GeometryResolve.thy ===== *)
theory GeometryResolve
  imports NfpRing CacheIdentity CacheStore Rotate
begin

text \<open>
  The three resolvers of derived geometry: relative no-fit polygons (\<open>nfp_ifp/boundary_core.rs\<close>), inner-fit
  bounds (\<open>nfp_ifp/ifp_bounds.rs\<close>) and transformed collision polygons
  (\<open>caches/transform_collision_geometry.rs\<close>). Each looks its key up in the job's store, revalidates what
  it finds, and recomputes and publishes when there is nothing valid. \<open>memory_layout\<close> holds the sizes and
  capacities the compiler and the allocator choose.
\<close>

record memory_layout =
  entry_bytes :: u64
  node_bytes :: u64
  polygon_bytes :: u64
  point_bytes :: u64
  ifp_bytes :: u64
  geometry_bytes :: u64
  text_room :: "string \<Rightarrow> u64"
  points_room :: "point list \<Rightarrow> u64"

text \<open>What the store holds under the three namespaces, and the \<open>downcast\<close>s of the lookups.\<close>

record ifp_bounds =
  ifp_sheet :: domain_sheet
  ifp_moving_piece_id :: string
  ifp_box :: bounds

datatype cached_value =
    Nfp_value polygon
  | Ifp_value ifp_bounds
  | Transformed_value transformed_collision_geometry

fun as_nfp :: "cached_value \<Rightarrow> polygon option" where
  "as_nfp (Nfp_value v) = Some v"
| "as_nfp _ = None"

fun as_ifp :: "cached_value \<Rightarrow> ifp_bounds option" where
  "as_ifp (Ifp_value v) = Some v"
| "as_ifp _ = None"

fun as_transformed :: "cached_value \<Rightarrow> transformed_collision_geometry option" where
  "as_transformed (Transformed_value v) = Some v"
| "as_transformed _ = None"

type_synonym geometry_store = "cached_value store"

text \<open>\<open>set\<close> with the charge of the value; the answer, whether it was admitted, is not used.\<close>

definition publish :: "memory_layout \<Rightarrow> geometry_cache_key \<Rightarrow> cached_value \<Rightarrow> u64 \<Rightarrow> geometry_store \<Rightarrow> geometry_store option" where
  "publish room key v retained s = map_option snd (cache_set key v
    (conservative_entry_charge (entry_bytes room) (node_bytes room)
      (text_room room (serialize_geometry_cache_key key)) (text_room room (key_namespace key)) retained) s)"

subsection \<open>Inner-fit bounds\<close>

datatype core_ifp_bounds_failure_kind = Ifp_Invalid | Ifp_Infeasible

record core_ifp_bounds_failure =
  ifp_failure_kind :: core_ifp_bounds_failure_kind
  ifp_failure_message :: string

definition invalid_ifp :: "string \<Rightarrow> core_ifp_bounds_failure" where
  "invalid_ifp message = \<lparr>ifp_failure_kind = Ifp_Invalid, ifp_failure_message = message\<rparr>"

definition compute_ifp_bounds :: "robust \<Rightarrow> inner_fit_key_input \<Rightarrow> core_ifp_bounds_failure + ifp_bounds" where
  "compute_ifp_bounds robust input = (let sheet = key_sheet input; moving = key_moving input in
    case validate_strict_boundary robust (collision_polygon moving) of Invalid message \<Rightarrow> Inl (invalid_ifp message) | Valid _ \<Rightarrow>
    (case bounds_for_points (collision_polygon moving) of
       None \<Rightarrow> Inl (invalid_ifp ''moving polygon bounds must be finite.'')
     | Some b \<Rightarrow>
        (let x0 = fold_negative_zero (fneg (min_x b)); y0 = fold_negative_zero (fneg (min_y b));
             x1 = fold_negative_zero (fsub (domain_sheet_width sheet) (max_x b));
             y1 = fold_negative_zero (fsub (domain_sheet_height sheet) (max_y b)) in
         if \<not> is_finite x0 \<or> \<not> is_finite y0 \<or> \<not> is_finite x1 \<or> \<not> is_finite y1
         then Inl (invalid_ifp ''IFP arithmetic must produce finite bounds.'')
         else if flt x1 x0 \<or> flt y1 y0
         then Inl \<lparr>ifp_failure_kind = Ifp_Infeasible, ifp_failure_message = ''moving polygon cannot fit inside the sheet.''\<rparr>
         else Inr \<lparr>ifp_sheet = sheet, ifp_moving_piece_id = collision_source_piece_id moving,
           ifp_box = \<lparr>min_x = x0, min_y = y0, max_x = x1, max_y = y1\<rparr>\<rparr>)))"

definition is_valid_cached_ifp_bounds :: "ifp_bounds option \<Rightarrow> inner_fit_key_input \<Rightarrow> bool" where
  "is_valid_cached_ifp_bounds v input = (case v of None \<Rightarrow> False | Some value \<Rightarrow>
    (case bounds_for_points (collision_polygon (key_moving input)) of None \<Rightarrow> False | Some b \<Rightarrow>
      (let box = ifp_box value; sheet = key_sheet input in
       ifp_moving_piece_id value = collision_source_piece_id (key_moving input) \<and>
       feq (domain_sheet_width (ifp_sheet value)) (domain_sheet_width sheet) \<and>
       feq (domain_sheet_height (ifp_sheet value)) (domain_sheet_height sheet) \<and>
       feq (min_x box) (fneg (min_x b)) \<and> feq (min_y box) (fneg (min_y b)) \<and>
       feq (max_x box) (fsub (domain_sheet_width sheet) (max_x b)) \<and>
       feq (max_y box) (fsub (domain_sheet_height sheet) (max_y b)) \<and>
       list_all is_finite [min_x box, min_y box, max_x box, max_y box])))"

definition charge_ifp_value :: "memory_layout \<Rightarrow> ifp_bounds \<Rightarrow> u64" where
  "charge_ifp_value room v = charge_ifp_bounds (ifp_bytes room) (text_room room (domain_sheet_label (ifp_sheet v)))
    (text_room room (ifp_moving_piece_id v))"

text \<open>The part of the resolver after a miss or the removal of a stale entry.\<close>

definition ifp_recompute :: "robust \<Rightarrow> memory_layout \<Rightarrow> inner_fit_key_input \<Rightarrow> geometry_cache_key \<Rightarrow> geometry_store \<Rightarrow>
    ((core_ifp_bounds_failure + ifp_bounds \<times> geometry_cache_key) \<times> geometry_store) option" where
  "ifp_recompute robust room input key s = (case compute_ifp_bounds robust input of
      Inl failure \<Rightarrow> Some (Inl failure, s)
    | Inr computed \<Rightarrow> map_option (Pair (Inr (computed, key)))
        (publish room key (Ifp_value computed) (charge_ifp_value room computed) s))"

definition resolve_ifp_bounds :: "robust \<Rightarrow> (f64 \<Rightarrow> string) \<Rightarrow> memory_layout \<Rightarrow> inner_fit_key_input \<Rightarrow> geometry_store \<Rightarrow>
    ((core_ifp_bounds_failure + ifp_bounds \<times> geometry_cache_key) \<times> geometry_store) option" where
  "resolve_ifp_bounds robust js room input s =
    (case validate_strict_boundary robust (collision_polygon (key_moving input)) of
       Invalid message \<Rightarrow> Some (Inl (invalid_ifp message), s)
     | Valid _ \<Rightarrow> do {
         let key = make_inner_fit_bounds_cache_key js input;
         (cached, s1) \<leftarrow> cache_get as_ifp key s;
         (case cached of
            Some value \<Rightarrow>
              if is_valid_cached_ifp_bounds cached input
              then Some (Inr (value, key), record_hit IFP_GEOMETRY_CACHE_NAMESPACE s1)
              else do {
                s2 \<leftarrow> remove key (record_stale_detection IFP_GEOMETRY_CACHE_NAMESPACE s1);
                ifp_recompute robust room input key s2
              }
          | None \<Rightarrow> ifp_recompute robust room input key s1)
       })"

subsection \<open>Transformed collision polygons\<close>

fun transform_loop :: "(f64 \<Rightarrow> f64) \<Rightarrow> (f64 \<Rightarrow> f64) \<Rightarrow> bool \<Rightarrow> f64 \<Rightarrow> point list \<Rightarrow> point list \<Rightarrow> string + point list" where
  "transform_loop fcos fsin mirrored rotation_deg [] acc = Inr acc"
| "transform_loop fcos fsin mirrored rotation_deg (p # ps) acc =
    (let q = transform_point fcos fsin p mirrored rotation_deg in
     if \<not> is_finite (px q) \<or> \<not> is_finite (py q)
     then Inl ''transform must produce finite collision polygon coordinates.''
     else case snap_point_to_collision_grid q of
       None \<Rightarrow> Inl ''transformed collision polygon coordinates must fit the canonical collision grid.''
     | Some r \<Rightarrow> transform_loop fcos fsin mirrored rotation_deg ps (acc @ [r]))"

definition compute_transformed_collision_geometry :: "robust \<Rightarrow> (f64 \<Rightarrow> f64) \<Rightarrow> (f64 \<Rightarrow> f64) \<Rightarrow> transform_key_input \<Rightarrow>
    string + transformed_collision_geometry" where
  "compute_transformed_collision_geometry robust fcos fsin input =
    (let geometry = key_geometry input; transform = key_transform input in
     case validate_strict_boundary robust (padded_collision_polygon geometry) of Invalid message \<Rightarrow> Inl message | Valid _ \<Rightarrow>
     and_then (transform_loop fcos fsin (candidate_mirrored transform)
         (normalize_rotation_degrees (candidate_rotation_deg transform)) (padded_collision_polygon geometry) [])
       (\<lambda>transformed_points.
         case validate_strict_boundary robust transformed_points of
           Invalid message \<Rightarrow> Inl (''transformed collision '' @ message)
         | Valid _ \<Rightarrow> (case bounds_for_points transformed_points of
             None \<Rightarrow> Inl ''collision polygon must contain at least one transformable vertex.''
           | Some transformed_bounds \<Rightarrow> Inr \<lparr>collision_source_piece_id = geometry_source_piece_id geometry,
               collision_transform = transform, collision_polygon = transformed_points,
               collision_bounds = transformed_bounds\<rparr>)))"

definition is_valid_cached_transformed_collision_geometry ::
    "robust \<Rightarrow> transformed_collision_geometry option \<Rightarrow> transform_key_input \<Rightarrow> bool" where
  "is_valid_cached_transformed_collision_geometry robust v input = (case v of None \<Rightarrow> False | Some value \<Rightarrow>
    collision_source_piece_id value = geometry_source_piece_id (key_geometry input) \<and>
    same_transform (collision_transform value) (key_transform input) \<and>
    3 \<le> length (collision_polygon value) \<and>
    (case validate_strict_boundary robust (collision_polygon value) of Invalid _ \<Rightarrow> False | Valid _ \<Rightarrow>
      (case bounds_for_points (collision_polygon value) of None \<Rightarrow> False | Some b \<Rightarrow>
        (let c = collision_bounds value in
         feq (min_x c) (min_x b) \<and> feq (min_y c) (min_y b) \<and> feq (max_x c) (max_x b) \<and> feq (max_y c) (max_y b)))))"

definition charge_transformed_value :: "memory_layout \<Rightarrow> transformed_collision_geometry \<Rightarrow> u64" where
  "charge_transformed_value room v = charge_transformed_collision_geometry (geometry_bytes room) (point_bytes room)
    (text_room room (collision_source_piece_id v)) (points_room room (collision_polygon v))"

definition transformed_recompute :: "robust \<Rightarrow> (f64 \<Rightarrow> f64) \<Rightarrow> (f64 \<Rightarrow> f64) \<Rightarrow> memory_layout \<Rightarrow> transform_key_input \<Rightarrow>
    (transformed_collision_geometry \<Rightarrow> transformed_collision_geometry) \<Rightarrow> geometry_cache_key \<Rightarrow> geometry_store \<Rightarrow>
    ((string + transformed_collision_geometry \<times> geometry_cache_key) \<times> geometry_store) option" where
  "transformed_recompute robust fcos fsin room input materialize key s =
    (case compute_transformed_collision_geometry robust fcos fsin input of
       Inl message \<Rightarrow> Some (Inl message, s)
     | Inr computed \<Rightarrow> (let value = materialize computed in map_option (Pair (Inr (value, key)))
         (publish room key (Transformed_value value) (charge_transformed_value room value) s)))"

text \<open>The production \<open>materialize\<close> closures return the geometry's own type.\<close>

definition resolve_transformed_collision_geometry :: "robust \<Rightarrow> (f64 \<Rightarrow> string) \<Rightarrow> (f64 \<Rightarrow> f64) \<Rightarrow> (f64 \<Rightarrow> f64) \<Rightarrow>
    memory_layout \<Rightarrow> transform_key_input \<Rightarrow> irregular_geometry_settings \<Rightarrow>
    (transformed_collision_geometry \<Rightarrow> transformed_collision_geometry) \<Rightarrow> geometry_store \<Rightarrow>
    ((string + transformed_collision_geometry \<times> geometry_cache_key) \<times> geometry_store) option" where
  "resolve_transformed_collision_geometry robust js fcos fsin room input geometry_settings materialize s = do {
     let key = make_transform_collision_geometry_cache_key js input geometry_settings;
     (cached, s1) \<leftarrow> cache_get as_transformed key s;
     (case cached of
        Some value \<Rightarrow>
          if is_valid_cached_transformed_collision_geometry robust cached input
          then Some (Inr (value, key), record_hit TRANSFORM_GEOMETRY_CACHE_NAMESPACE s1)
          else do {
            s2 \<leftarrow> remove key (record_stale_detection TRANSFORM_GEOMETRY_CACHE_NAMESPACE s1);
            transformed_recompute robust fcos fsin room input materialize key s2
          }
      | None \<Rightarrow> transformed_recompute robust fcos fsin room input materialize key s1)
   }"

subsection \<open>Relative no-fit polygons\<close>

record core_nfp_input =
  nfp_fixed :: irregular_placed_piece
  nfp_moving :: transformed_collision_geometry
  nfp_settings :: irregular_geometry_settings

datatype cached_probe = Valid_translated "(string + polygon) option" | Stale_present | Nothing_cached

definition charge_nfp_value :: "memory_layout \<Rightarrow> polygon \<Rightarrow> u64" where
  "charge_nfp_value room v = charge_nfp_polygon (polygon_bytes room) (point_bytes room) (points_room room v)"

definition fixed_polygon :: "irregular_placed_piece \<Rightarrow> polygon" where
  "fixed_polygon placed = collision_polygon (piece_collision_geometry placed)"

text \<open>After a miss or the removal of a stale entry; the translation never touches the store.\<close>

definition nfp_recompute :: "robust \<Rightarrow> memory_layout \<Rightarrow> core_nfp_input \<Rightarrow> nfp_construction_algorithm \<Rightarrow>
    geometry_cache_key \<Rightarrow> geometry_store \<Rightarrow> ((string + polygon \<times> geometry_cache_key) \<times> geometry_store) option" where
  "nfp_recompute robust room input algorithm key s = do {
     result \<leftarrow> compute_relative_nfp_boundary robust (fixed_polygon (nfp_fixed input)) (collision_polygon (nfp_moving input)) algorithm;
     (case result of
        Inl message \<Rightarrow> Some (Inl message, s)
      | Inr computed \<Rightarrow> do {
          s1 \<leftarrow> publish room key (Nfp_value computed) (charge_nfp_value room computed) s;
          t \<leftarrow> translate_nfp_boundary robust (placement_transform (piece_placement (nfp_fixed input))) computed;
          Some (and_then t (\<lambda>boundary. Inr (boundary, key)), s1)
        })
   }"

definition resolve_nfp_boundary_with_prepared_moving :: "robust \<Rightarrow> (f64 \<Rightarrow> string) \<Rightarrow> memory_layout \<Rightarrow> core_nfp_input \<Rightarrow>
    nfp_construction_algorithm \<Rightarrow> prepared_moving_parts \<Rightarrow> geometry_store \<Rightarrow>
    ((string + polygon \<times> geometry_cache_key) \<times> geometry_store) option" where
  "resolve_nfp_boundary_with_prepared_moving robust js room input algorithm prepared s =
    (case validate_strict_boundary robust (fixed_polygon (nfp_fixed input)) of Invalid message \<Rightarrow> Some (Inl message, s) | Valid _ \<Rightarrow>
     case validate_strict_boundary robust (collision_polygon (nfp_moving input)) of Invalid message \<Rightarrow> Some (Inl message, s) | Valid _ \<Rightarrow>
     do {
       let key = make_pairwise_nfp_cache_key_with_prepared_moving js prepared (fixed_polygon (nfp_fixed input))
         (collision_transform (piece_collision_geometry (nfp_fixed input)));
       (found, s1) \<leftarrow> probe as_nfp key (\<lambda>cached. case cached of
           Some v \<Rightarrow> if is_valid_cached_nfp_boundary robust (Some v)
             then Valid_translated (translate_nfp_boundary robust (placement_transform (piece_placement (nfp_fixed input))) v)
             else Stale_present
         | None \<Rightarrow> Nothing_cached) s;
       (case found of
          Valid_translated translation \<Rightarrow> do {
            t \<leftarrow> translation;
            Some (and_then t (\<lambda>boundary. Inr (boundary, key)),
              record_hit NFP_GEOMETRY_CACHE_NAMESPACE (record_cloning_hit NFP_GEOMETRY_CACHE_NAMESPACE s1))
          }
        | Stale_present \<Rightarrow> do {
            s2 \<leftarrow> remove key (record_stale_detection NFP_GEOMETRY_CACHE_NAMESPACE
              (record_cloning_hit NFP_GEOMETRY_CACHE_NAMESPACE s1));
            nfp_recompute robust room input algorithm key s2
          }
        | Nothing_cached \<Rightarrow> nfp_recompute robust room input algorithm key s1)
     })"

definition resolve_nfp_boundary :: "robust \<Rightarrow> (f64 \<Rightarrow> string) \<Rightarrow> memory_layout \<Rightarrow> core_nfp_input \<Rightarrow>
    nfp_construction_algorithm \<Rightarrow> geometry_store \<Rightarrow> ((string + polygon \<times> geometry_cache_key) \<times> geometry_store) option" where
  "resolve_nfp_boundary robust js room input algorithm s =
    resolve_nfp_boundary_with_prepared_moving robust js room input algorithm
      (prepare_pairwise_nfp_moving_parts js (collision_polygon (nfp_moving input)) (collision_transform (nfp_moving input))
        (nfp_settings input) algorithm) s"

subsection \<open>The compute-then-publish pre-pass\<close>

fun collect_misses :: "robust \<Rightarrow> (f64 \<Rightarrow> string) \<Rightarrow> prepared_moving_parts \<Rightarrow> irregular_placed_piece list \<Rightarrow> string set \<Rightarrow>
    (geometry_cache_key \<times> point list) list \<Rightarrow> geometry_store \<Rightarrow>
    ((geometry_cache_key \<times> point list) list \<times> geometry_store) option" where
  "collect_misses robust js prepared [] seen_keys missed s = Some (missed, s)"
| "collect_misses robust js prepared (placed_piece # placed) seen_keys missed s =
    (case validate_strict_boundary robust (fixed_polygon placed_piece) of
       Invalid _ \<Rightarrow> collect_misses robust js prepared placed seen_keys missed s
     | Valid _ \<Rightarrow>
        let key = make_pairwise_nfp_cache_key_with_prepared_moving js prepared (fixed_polygon placed_piece)
              (collision_transform (piece_collision_geometry placed_piece));
            serialized = serialize_geometry_cache_key key in
        if serialized \<in> seen_keys then collect_misses robust js prepared placed seen_keys missed s
        else do {
          (found, s1) \<leftarrow> probe_valid as_nfp key (\<lambda>cached. is_valid_cached_nfp_boundary robust (Some cached)) s;
          collect_misses robust js prepared placed (insert serialized seen_keys)
            (if found = HotValid then missed else missed @ [(key, fixed_polygon placed_piece)]) s1
        })"

fun publish_computed :: "memory_layout \<Rightarrow> (geometry_cache_key \<times> polygon option) list \<Rightarrow> geometry_store \<Rightarrow> geometry_store option" where
  "publish_computed room [] s = Some s"
| "publish_computed room ((key, Some boundary) # rest) s = do {
    s1 \<leftarrow> publish room key (Nfp_value boundary) (charge_nfp_value room boundary) s;
    publish_computed room rest s1
  }"
| "publish_computed room ((key, None) # rest) s = publish_computed room rest s"

text \<open>\<open>Result::ok\<close> of a computation; the parallel map keeps the order of the misses.\<close>

definition ok_of :: "'e + 'a \<Rightarrow> 'a option" where
  "ok_of r = (case r of Inl _ \<Rightarrow> None | Inr a \<Rightarrow> Some a)"

fun compute_misses :: "robust \<Rightarrow> point list \<Rightarrow> nfp_construction_algorithm \<Rightarrow> (geometry_cache_key \<times> point list) list \<Rightarrow>
    (geometry_cache_key \<times> polygon option) list option" where
  "compute_misses robust moving_points algorithm [] = Some []"
| "compute_misses robust moving_points algorithm ((key, fixed_points) # missed) = do {
    r \<leftarrow> compute_relative_nfp_boundary robust fixed_points moving_points algorithm;
    rest \<leftarrow> compute_misses robust moving_points algorithm missed;
    Some ((key, ok_of r) # rest)
  }"

definition precompute_missing_relative_nfp_boundaries :: "robust \<Rightarrow> (f64 \<Rightarrow> string) \<Rightarrow> memory_layout \<Rightarrow>
    irregular_placed_piece list \<Rightarrow> transformed_collision_geometry \<Rightarrow> irregular_geometry_settings \<Rightarrow>
    nfp_construction_algorithm \<Rightarrow> geometry_store \<Rightarrow> geometry_store option" where
  "precompute_missing_relative_nfp_boundaries robust js room placed moving geometry_settings algorithm s =
    (case validate_strict_boundary robust (collision_polygon moving) of Invalid _ \<Rightarrow> Some s | Valid _ \<Rightarrow> do {
       let prepared = prepare_pairwise_nfp_moving_parts js (collision_polygon moving) (collision_transform moving)
         geometry_settings algorithm;
       (missed, s1) \<leftarrow> collect_misses robust js prepared placed {} [] s;
       if missed = [] then Some s1 else do {
         computed \<leftarrow> compute_misses robust (collision_polygon moving) algorithm missed;
         publish_computed room computed s1
       }
     })"

subsection \<open>What the store's operations do to its contents\<close>

definition cache_values :: "'v store \<Rightarrow> (string \<times> 'v) set" where
  "cache_values s = {(k, v). \<exists>e. entries s k = Some e \<and> entry_value e = v}"

definition store_ok :: "'v store \<Rightarrow> bool" where
  "store_ok s \<longleftrightarrow> (\<exists>L. store_rep L s)"

definition found :: "('v \<Rightarrow> 'a option) \<Rightarrow> geometry_cache_key \<Rightarrow> 'v store \<Rightarrow> 'a option" where
  "found d key s = Option.bind (entries s (serialize_geometry_cache_key key)) (\<lambda>e. d (entry_value e))"

lemma found_in: "found d key s = Some a \<Longrightarrow> \<exists>v. (serialize_geometry_cache_key key, v) \<in> cache_values s \<and> d v = Some a"
  by (auto simp: found_def cache_values_def split: Option.bind_splits)

definition line_values :: "'v line list \<Rightarrow> (string \<times> 'v) set" where
  "line_values L = {(k, v). \<exists>c n. (k, v, c, n) \<in> set L}"

lemma values_lines:
  assumes "store_rep L s"
  shows "cache_values s = line_values L"
proof -
  have "(k, v) \<in> cache_values s \<longleftrightarrow> (\<exists>c n. map_of L k = Some (v, c, n))" for k v
    using entries_lines [OF assms, of k] by (auto simp: cache_values_def)
  moreover have "map_of L k = Some (v, c, n) \<longleftrightarrow> (k, v, c, n) \<in> set L" for k v c n
    using distinct_lines [OF assms] by simp
  ultimately show ?thesis by (simp add: line_values_def set_eq_iff)
qed

lemma found_lines: "store_rep L s \<Longrightarrow> found d key s = lru_find d (serialize_geometry_cache_key key) L"
  using entries_lines [of L s "serialize_geometry_cache_key key"]
  by (cases "entries s (serialize_geometry_cache_key key)") (simp_all add: found_def lru_find_def)

lemma set_touch:
  assumes "distinct (map fst L)"
  shows "set (lru_touch k L) = set L"
proof (cases "map_of L k")
  case None
  then show ?thesis by (simp only: lru_touch_def option.case)
next
  case (Some x)
  have "set L = set_mset (add_mset (k, x) (mset (AList.delete k L)))"
    by (simp only: delete_in [OF assms Some, symmetric] set_mset_mset)
  then have "set L = insert (k, x) (set (AList.delete k L))" by (simp only: set_mset_add_mset_insert set_mset_mset)
  then show ?thesis by (simp only: Some lru_touch_def option.case set_append list.set Un_insert_right Un_empty_right)
qed

lemma line_values_touch: "distinct (map fst L) \<Longrightarrow> line_values (lru_touch k L) = line_values L"
  by (simp only: line_values_def set_touch)

lemma line_values_mono: "set L \<subseteq> set M \<Longrightarrow> line_values L \<subseteq> line_values M"
  unfolding line_values_def by blast

lemma line_values_delete: "line_values (AList.delete k L) \<subseteq> line_values L"
  by (rule line_values_mono) (rule set_delete)

lemma line_values_room: "line_values (make_room cap c L) \<subseteq> line_values L"
  by (rule line_values_mono) (rule make_room_set)

lemma line_values_snoc: "line_values (L @ [(k, v, c, n)]) = insert (k, v) (line_values L)"
  by (auto simp: line_values_def)

lemma probe_contents:
  assumes "store_ok s"
  shows "\<exists>s'. probe d key f s = Some (f (found d key s), s') \<and> store_ok s' \<and> cache_values s' = cache_values s"
proof -
  obtain L where L: "store_rep L s" using assms by (auto simp: store_ok_def)
  let ?k = "serialize_geometry_cache_key key"
  obtain s' where s': "probe d key f s = Some (f (lru_find d ?k L), s')" "store_rep (snd (lru_get d ?k L)) s'"
    using store_rep_probe [OF L] by blast
  have "line_values (snd (lru_get d ?k L)) = line_values L"
    using line_values_touch [OF distinct_lines [OF L]] by (simp add: lru_get_def split: option.splits)
  then have "cache_values s' = cache_values s" by (simp add: values_lines [OF L] values_lines [OF s'(2)])
  then show ?thesis using s' by (auto simp: found_lines [OF L] store_ok_def)
qed

lemma count_contents [simp]:
  "cache_values (count ns f s) = cache_values s" "cache_values (record_hit ns s) = cache_values s"
  "cache_values (record_cloning_hit ns s) = cache_values s" "cache_values (record_stale_detection ns s) = cache_values s"
  by (simp_all add: record_hit_def record_cloning_hit_def record_stale_detection_def count_def cache_values_def)

lemma count_ok:
  "store_ok s \<Longrightarrow> (\<And>c. approx_bytes (f c) = approx_bytes c \<and> ns_entries (f c) = ns_entries c) \<Longrightarrow> store_ok (count ns f s)"
  unfolding store_ok_def by (elim exE, intro exI, erule store_rep_count)

lemma record_ok [simp]:
  assumes "store_ok s"
  shows "store_ok (record_hit ns s)" "store_ok (record_cloning_hit ns s)" "store_ok (record_stale_detection ns s)"
  unfolding record_hit_def record_cloning_hit_def record_stale_detection_def
  by (rule count_ok [OF assms], simp)+

lemma get_contents:
  assumes "store_ok s"
  shows "\<exists>s'. cache_get d key s = Some (found d key s, s') \<and> store_ok s' \<and> cache_values s' = cache_values s"
proof -
  obtain s' where s': "probe d key (\<lambda>c. c) s = Some (found d key s, s')" "store_ok s'" "cache_values s' = cache_values s"
    using probe_contents [OF assms, of d key "\<lambda>c. c"] by blast
  then show ?thesis by (cases "found d key s") (auto simp: cache_get_def)
qed

lemma remove_contents:
  assumes "store_ok s"
  shows "\<exists>s'. remove key s = Some s' \<and> store_ok s' \<and> cache_values s' \<subseteq> cache_values s"
proof -
  obtain L where L: "store_rep L s" using assms by (auto simp: store_ok_def)
  obtain s' where s': "remove key s = Some s'" "store_rep (AList.delete (serialize_geometry_cache_key key) L) s'"
    using store_rep_remove [OF L] by blast
  then show ?thesis
    using line_values_delete [of "serialize_geometry_cache_key key" L]
    by (auto simp: values_lines [OF L] values_lines [OF s'(2)] store_ok_def)
qed

lemma publish_contents:
  assumes "store_ok s"
  shows "\<exists>s'. publish room key v c s = Some s' \<and> store_ok s' \<and>
    cache_values s' \<subseteq> insert (serialize_geometry_cache_key key, v) (cache_values s)"
proof -
  obtain L where L: "store_rep L s" using assms by (auto simp: store_ok_def)
  let ?k = "serialize_geometry_cache_key key"
  let ?c = "conservative_entry_charge (entry_bytes room) (node_bytes room) (text_room room ?k)
    (text_room room (key_namespace key)) c"
  let ?M = "lru_set (unat (byte_cap s)) ?k (key_namespace key) v ?c L"
  obtain s' where s': "cache_set key v ?c s = Some (fst ?M, s')" "store_rep (snd ?M) s'"
    using store_rep_set [OF L charge_pos] by blast
  have "line_values (snd ?M) \<subseteq> insert (?k, v) (line_values L)"
    using order_trans [OF line_values_room line_values_delete, of "unat (byte_cap s)" "unat ?c" ?k L]
    by (auto simp: lru_set_def line_values_snoc)
  then show ?thesis using s'
    by (auto simp: publish_def values_lines [OF L] values_lines [OF s'(2)] store_ok_def)
qed

subsection \<open>Inner-fit bounds: the cache never changes the answer\<close>

lemma feq_props: "feq a b \<Longrightarrow> feq b a" "feq a b \<Longrightarrow> feq b c \<Longrightarrow> feq a c" "feq a b \<Longrightarrow> is_finite a = is_finite b"
  "feq a b \<Longrightarrow> feq c d \<Longrightarrow> flt a c = flt b d"
  by (cases a; cases b; cases c; cases d; auto)+

lemma feq_fold: "\<not> is_nan v \<Longrightarrow> feq v (fold_negative_zero v)"
  by (cases v) (auto simp: fold_negative_zero_def)

lemma feq_fold_right: "feq a v \<Longrightarrow> feq a (fold_negative_zero v)"
  by (cases a; cases v) (auto simp: fold_negative_zero_def)

definition same_ifp_bounds :: "ifp_bounds \<Rightarrow> ifp_bounds \<Rightarrow> bool" where
  "same_ifp_bounds u v \<longleftrightarrow> ifp_moving_piece_id u = ifp_moving_piece_id v \<and>
    feq (domain_sheet_width (ifp_sheet u)) (domain_sheet_width (ifp_sheet v)) \<and>
    feq (domain_sheet_height (ifp_sheet u)) (domain_sheet_height (ifp_sheet v)) \<and>
    feq (min_x (ifp_box u)) (min_x (ifp_box v)) \<and> feq (min_y (ifp_box u)) (min_y (ifp_box v)) \<and>
    feq (max_x (ifp_box u)) (max_x (ifp_box v)) \<and> feq (max_y (ifp_box u)) (max_y (ifp_box v))"

definition ifp_feasible :: "ifp_bounds \<Rightarrow> bool" where
  "ifp_feasible v \<longleftrightarrow> \<not> flt (max_x (ifp_box v)) (min_x (ifp_box v)) \<and> \<not> flt (max_y (ifp_box v)) (min_y (ifp_box v))"

definition feasible_entries :: "geometry_store \<Rightarrow> bool" where
  "feasible_entries s \<longleftrightarrow> (\<forall>(k, v) \<in> cache_values s. case v of Ifp_value u \<Rightarrow> ifp_feasible u | _ \<Rightarrow> True)"

lemma feasible_entries_mono: "feasible_entries s \<Longrightarrow> cache_values s' \<subseteq> cache_values s \<Longrightarrow> feasible_entries s'"
  unfolding feasible_entries_def by blast

lemma as_ifp_Some [simp]: "as_ifp v = Some u \<longleftrightarrow> v = Ifp_value u"
  by (cases v) auto

lemma found_feasible: "feasible_entries s \<Longrightarrow> found as_ifp key s = Some u \<Longrightarrow> ifp_feasible u"
  unfolding feasible_entries_def by (drule found_in) auto

text \<open>A cached value that passes revalidation carries the bounds a computation gives.\<close>

lemma valid_cached_ifp:
  assumes valid: "is_valid_cached_ifp_bounds (Some u) input" and feasible: "ifp_feasible u"
    and strict: "validate_strict_boundary robust (collision_polygon (key_moving input)) = Valid w"
  shows "\<exists>v. compute_ifp_bounds robust input = Inr v \<and> same_ifp_bounds u v"
proof -
  obtain b where b: "bounds_for_points (collision_polygon (key_moving input)) = Some b"
    using valid by (auto simp: is_valid_cached_ifp_bounds_def split: option.splits)
  let ?x0 = "fold_negative_zero (fneg (min_x b))" and ?y0 = "fold_negative_zero (fneg (min_y b))"
  let ?x1 = "fold_negative_zero (fsub (domain_sheet_width (key_sheet input)) (max_x b))"
  let ?y1 = "fold_negative_zero (fsub (domain_sheet_height (key_sheet input)) (max_y b))"
  have e: "feq (min_x (ifp_box u)) ?x0" "feq (min_y (ifp_box u)) ?y0" "feq (max_x (ifp_box u)) ?x1" "feq (max_y (ifp_box u)) ?y1"
    "ifp_moving_piece_id u = collision_source_piece_id (key_moving input)"
    "feq (domain_sheet_width (ifp_sheet u)) (domain_sheet_width (key_sheet input))"
    "feq (domain_sheet_height (ifp_sheet u)) (domain_sheet_height (key_sheet input))"
    using valid by (simp_all add: is_valid_cached_ifp_bounds_def b Let_def feq_fold_right)
  have fin: "is_finite ?x0" "is_finite ?y0" "is_finite ?x1" "is_finite ?y1"
    using valid e(1-4) by (simp_all add: is_valid_cached_ifp_bounds_def b Let_def feq_props(3))
  have "\<not> flt ?x1 ?x0" "\<not> flt ?y1 ?y0"
    using feasible feq_props(4) [OF e(3) e(1)] feq_props(4) [OF e(4) e(2)] by (simp_all add: ifp_feasible_def)
  then show ?thesis using fin e by (simp add: compute_ifp_bounds_def strict b Let_def same_ifp_bounds_def)
qed

lemma computed_feasible: "compute_ifp_bounds robust input = Inr v \<Longrightarrow> ifp_feasible v"
  by (auto simp: compute_ifp_bounds_def Let_def ifp_feasible_def
      split: strict_convex_boundary_validation.splits option.splits if_splits)

lemma computed_same: "compute_ifp_bounds robust input = Inr v \<Longrightarrow> is_finite (domain_sheet_width (key_sheet input)) \<Longrightarrow>
    is_finite (domain_sheet_height (key_sheet input)) \<Longrightarrow> same_ifp_bounds v v"
proof -
  have r: "is_finite a \<Longrightarrow> feq a a" for a by (cases a) auto
  show "compute_ifp_bounds robust input = Inr v \<Longrightarrow> is_finite (domain_sheet_width (key_sheet input)) \<Longrightarrow>
    is_finite (domain_sheet_height (key_sheet input)) \<Longrightarrow> same_ifp_bounds v v"
    by (auto simp: compute_ifp_bounds_def Let_def same_ifp_bounds_def r
      split: strict_convex_boundary_validation.splits option.splits if_splits)
qed

lemma ifp_recompute_answer:
  assumes "store_ok s" "feasible_entries s"
  shows "\<exists>s'. ifp_recompute robust room input key s = Some (map_sum id (\<lambda>v. (v, key)) (compute_ifp_bounds robust input), s') \<and>
    store_ok s' \<and> feasible_entries s'"
proof (cases "compute_ifp_bounds robust input")
  case (Inl f)
  then show ?thesis using assms by (simp add: ifp_recompute_def)
next
  case (Inr v)
  obtain s' where s': "publish room key (Ifp_value v) (charge_ifp_value room v) s = Some s'" "store_ok s'"
    "cache_values s' \<subseteq> insert (serialize_geometry_cache_key key, Ifp_value v) (cache_values s)"
    using publish_contents [OF assms(1)] by blast
  have "feasible_entries s'"
    using assms(2) s'(3) computed_feasible [OF Inr] unfolding feasible_entries_def by fastforce
  then show ?thesis using s' Inr by (simp add: ifp_recompute_def)
qed

text \<open>
  C37. Resolving inner-fit bounds through the cache gives what computing them gives. On a sheet of finite
  size, whatever the store holds, as long as its inner-fit entries are not empty boxes, the resolver returns:
  the failure of the computation, or a value with the computed piece, sheet size and box, equal as floats
  (the sheet's label is that of the request that filled the cache); and it leaves such a store.
\<close>

theorem ifp_resolution_transparent:
  assumes "store_ok s" "feasible_entries s"
    and "is_finite (domain_sheet_width (key_sheet input))" "is_finite (domain_sheet_height (key_sheet input))"
  shows "\<exists>r s'. resolve_ifp_bounds robust js room input s = Some (r, s') \<and> store_ok s' \<and> feasible_entries s' \<and>
    (case compute_ifp_bounds robust input of
       Inl failure \<Rightarrow> r = Inl failure
     | Inr v \<Rightarrow> \<exists>u. r = Inr (u, make_inner_fit_bounds_cache_key js input) \<and> same_ifp_bounds u v)"
proof (cases "validate_strict_boundary robust (collision_polygon (key_moving input))")
  case (Invalid message)
  then show ?thesis using assms by (simp add: resolve_ifp_bounds_def compute_ifp_bounds_def)
next
  case (Valid w)
  let ?key = "make_inner_fit_bounds_cache_key js input"
  obtain s1 where s1: "cache_get as_ifp ?key s = Some (found as_ifp ?key s, s1)" "store_ok s1" "cache_values s1 = cache_values s"
    using get_contents [OF assms(1)] by blast
  have f1: "feasible_entries s1" using feasible_entries_mono [OF assms(2)] s1(3) by simp
  have recompute: ?thesis
    if "resolve_ifp_bounds robust js room input s = ifp_recompute robust room input ?key t" "store_ok t" "feasible_entries t" for t
    using that(1) ifp_recompute_answer [OF that(2,3), of robust room input ?key] computed_same [OF _ assms(3,4)]
    by (cases "compute_ifp_bounds robust input") auto
  show ?thesis
  proof (cases "found as_ifp ?key s")
    case None
    then show ?thesis using s1 f1 Valid by (intro recompute [of s1]) (simp_all add: resolve_ifp_bounds_def)
  next
    case (Some u)
    show ?thesis
    proof (cases "is_valid_cached_ifp_bounds (Some u) input")
      case True
      obtain v where "compute_ifp_bounds robust input = Inr v" "same_ifp_bounds u v"
        using valid_cached_ifp [OF True found_feasible [OF assms(2) Some] Valid] by blast
      then show ?thesis using True Some s1 f1 Valid
        by (simp add: resolve_ifp_bounds_def feasible_entries_def)
    next
      case False
      obtain s2 where s2: "remove ?key (record_stale_detection IFP_GEOMETRY_CACHE_NAMESPACE s1) = Some s2" "store_ok s2"
        "cache_values s2 \<subseteq> cache_values s1"
        using remove_contents [of "record_stale_detection IFP_GEOMETRY_CACHE_NAMESPACE s1" ?key] s1(2) by auto
      then show ?thesis using False Some s1 Valid feasible_entries_mono [OF f1 s2(3)]
        by (intro recompute [of s2]) (simp_all add: resolve_ifp_bounds_def)
    qed
  qed
qed

lemma empty_store: "store_ok (with_byte_cap 200)" "cache_values (with_byte_cap 200) = {}"
  using store_rep_new [of 200] by (auto simp: store_ok_def cache_values_def with_byte_cap_def)

definition sample_room :: memory_layout where
  "sample_room = \<lparr>entry_bytes = 0, node_bytes = 0, polygon_bytes = 0, point_bytes = 0, ifp_bytes = 0, geometry_bytes = 0,
    text_room = (\<lambda>_. 0), points_room = (\<lambda>_. 0)\<rparr>"

definition sample_geometry :: "polygon \<Rightarrow> transformed_collision_geometry" where
  "sample_geometry ps = \<lparr>collision_source_piece_id = ''a'',
    collision_transform = \<lparr>candidate_index = f64_zero, candidate_rotation_deg = f64_zero,
      candidate_mirrored = False, candidate_reason = Configured\<rparr>,
    collision_polygon = ps, collision_bounds = \<lparr>min_x = f64_zero, min_y = f64_zero, max_x = f64_zero, max_y = f64_zero\<rparr>\<rparr>"

definition sample_fit :: "polygon \<Rightarrow> inner_fit_key_input" where
  "sample_fit ps = \<lparr>key_sheet = \<lparr>domain_sheet_width = Finite False 9, domain_sheet_height = Finite False 9,
    domain_sheet_label = ''sheet''\<rparr>, key_moving = sample_geometry ps\<rparr>"

end
