(* ===== verification/NfpCache.thy ===== *)
theory NfpCache
  imports GeometryResolve
begin

text \<open>
  The no-fit polygon resolver and its pre-pass against the cache: what a store may hold for the answers to
  be those of the construction, and that the resolver, the pre-pass and the transform resolver keep it.
\<close>

subsection \<open>The construction returns\<close>

lemma canonicalize_some: "\<exists>r. canonicalize_translated_convex_ring robust ps = Some r"
  using canonicalize_form [of robust ps] by blast

lemma compute_some: "\<exists>r. compute_relative_nfp_boundary robust fixed moving algorithm = Some r"
proof (cases algorithm)
  case Linear_Edge_Merge
  show ?thesis
  proof (cases "minkowski_boundary robust fixed moving")
    case (Inr ps)
    then show ?thesis
      using canonicalize_some [of robust ps] Linear_Edge_Merge by (auto simp: compute_relative_nfp_boundary_linear_def)
  qed (simp add: Linear_Edge_Merge compute_relative_nfp_boundary_linear_def)
qed simp

lemma translate_some: "\<exists>r. translate_nfp_boundary robust t ps = Some r"
proof (cases "translate_points (translate_x t) (translate_y t) ps []")
  case (Inr qs)
  then show ?thesis using canonicalize_some [of robust qs] by (auto simp: translate_nfp_boundary_def)
qed (simp add: translate_nfp_boundary_def)

subsection \<open>Entries that are the construction's own\<close>

lemma as_nfp_Some [simp]: "as_nfp v = Some u \<longleftrightarrow> v = Nfp_value u"
  by (cases v) auto

lemma as_transformed_Some [simp]: "as_transformed v = Some u \<longleftrightarrow> v = Transformed_value u"
  by (cases v) auto

definition coherent :: "geometry_cache_key \<Rightarrow> (polygon \<Rightarrow> bool) \<Rightarrow> geometry_store \<Rightarrow> bool" where
  "coherent key P s \<longleftrightarrow> (\<forall>v. (serialize_geometry_cache_key key, Nfp_value v) \<in> cache_values s \<longrightarrow> P v)"

text \<open>The key of an input, the values that may stand under it, and the answer without a cache.\<close>

definition nfp_key :: "(f64 \<Rightarrow> string) \<Rightarrow> core_nfp_input \<Rightarrow> nfp_construction_algorithm \<Rightarrow> geometry_cache_key" where
  "nfp_key js input algorithm = make_pairwise_nfp_cache_key js
    \<lparr>key_fixed_polygon = fixed_polygon (nfp_fixed input), key_moving_polygon = collision_polygon (nfp_moving input),
     key_fixed_transform = collision_transform (piece_collision_geometry (nfp_fixed input)),
     key_moving_transform = collision_transform (nfp_moving input), key_settings = nfp_settings input\<rparr> algorithm"

definition constructed :: "robust \<Rightarrow> point list \<Rightarrow> point list \<Rightarrow> nfp_construction_algorithm \<Rightarrow> polygon \<Rightarrow> bool" where
  "constructed robust fixed moving algorithm v \<longleftrightarrow>
    is_valid_cached_nfp_boundary robust (Some v) \<longrightarrow> compute_relative_nfp_boundary robust fixed moving algorithm = Some (Inr v)"

definition nfp_coherent :: "robust \<Rightarrow> (f64 \<Rightarrow> string) \<Rightarrow> core_nfp_input \<Rightarrow> nfp_construction_algorithm \<Rightarrow> geometry_store \<Rightarrow> bool" where
  "nfp_coherent robust js input algorithm = coherent (nfp_key js input algorithm)
    (constructed robust (fixed_polygon (nfp_fixed input)) (collision_polygon (nfp_moving input)) algorithm)"

definition nfp_uncached :: "robust \<Rightarrow> core_nfp_input \<Rightarrow> nfp_construction_algorithm \<Rightarrow> (string + polygon) option" where
  "nfp_uncached robust input algorithm =
    (case validate_strict_boundary robust (fixed_polygon (nfp_fixed input)) of Invalid message \<Rightarrow> Some (Inl message) | Valid _ \<Rightarrow>
     case validate_strict_boundary robust (collision_polygon (nfp_moving input)) of Invalid message \<Rightarrow> Some (Inl message) | Valid _ \<Rightarrow>
     do {
       r \<leftarrow> compute_relative_nfp_boundary robust (fixed_polygon (nfp_fixed input)) (collision_polygon (nfp_moving input)) algorithm;
       (case r of Inl message \<Rightarrow> Some (Inl message)
        | Inr v \<Rightarrow> translate_nfp_boundary robust (placement_transform (piece_placement (nfp_fixed input))) v)
     })"

lemma nfp_key_prepared:
  "nfp_key js input algorithm = make_pairwise_nfp_cache_key_with_prepared_moving js
    (prepare_pairwise_nfp_moving_parts js (collision_polygon (nfp_moving input)) (collision_transform (nfp_moving input))
      (nfp_settings input) algorithm)
    (fixed_polygon (nfp_fixed input)) (collision_transform (piece_collision_geometry (nfp_fixed input)))"
  by (simp add: nfp_key_def make_pairwise_nfp_cache_key_def)

definition own_entries :: "robust \<Rightarrow> (f64 \<Rightarrow> string) \<Rightarrow> core_nfp_input \<Rightarrow> nfp_construction_algorithm \<Rightarrow> (string \<times> cached_value) set" where
  "own_entries robust js input algorithm = {(k, v). \<exists>u. k = serialize_geometry_cache_key (nfp_key js input algorithm) \<and> v = Nfp_value u \<and>
    compute_relative_nfp_boundary robust (fixed_polygon (nfp_fixed input)) (collision_polygon (nfp_moving input)) algorithm = Some (Inr u)}"

lemma nfp_recompute_answer:
  assumes "store_ok s"
  shows "\<exists>r v s'. compute_relative_nfp_boundary robust (fixed_polygon (nfp_fixed input)) (collision_polygon (nfp_moving input)) algorithm = Some r \<and>
    (case r of Inl message \<Rightarrow> Some (Inl message)
      | Inr v \<Rightarrow> translate_nfp_boundary robust (placement_transform (piece_placement (nfp_fixed input))) v) = Some v \<and>
    nfp_recompute robust room input algorithm (nfp_key js input algorithm) s =
      Some (and_then v (\<lambda>b. Inr (b, nfp_key js input algorithm)), s') \<and>
    store_ok s' \<and> cache_values s' \<subseteq> cache_values s \<union> own_entries robust js input algorithm"
proof -
  let ?key = "nfp_key js input algorithm"
  obtain r where r: "compute_relative_nfp_boundary robust (fixed_polygon (nfp_fixed input)) (collision_polygon (nfp_moving input)) algorithm = Some r"
    using compute_some by blast
  show ?thesis
  proof (cases r)
    case (Inl message)
    then show ?thesis using r assms by (simp add: nfp_recompute_def)
  next
    case (Inr v)
    obtain s' where s': "publish room ?key (Nfp_value v) (charge_nfp_value room v) s = Some s'" "store_ok s'"
      "cache_values s' \<subseteq> insert (serialize_geometry_cache_key ?key, Nfp_value v) (cache_values s)"
      using publish_contents [OF assms(1)] by blast
    obtain t where t: "translate_nfp_boundary robust (placement_transform (piece_placement (nfp_fixed input))) v = Some t"
      using translate_some by blast
    have "(serialize_geometry_cache_key ?key, Nfp_value v) \<in> own_entries robust js input algorithm"
      using r Inr by (simp add: own_entries_def)
    then have "cache_values s' \<subseteq> cache_values s \<union> own_entries robust js input algorithm" using s'(3) by blast
    then show ?thesis using r Inr s' t by (simp add: nfp_recompute_def)
  qed
qed

text \<open>
  If whatever valid polygon the store holds under a valid input's key is the one the construction computes,
  the resolver returns what validating, constructing and translating without a cache gives, error messages
  included, and adds at most the computed boundary to the store.
\<close>

lemma resolve_nfp_answer:
  assumes "store_ok s" and coherent: "\<And>w w'. validate_strict_boundary robust (fixed_polygon (nfp_fixed input)) = Valid w \<Longrightarrow>
      validate_strict_boundary robust (collision_polygon (nfp_moving input)) = Valid w' \<Longrightarrow> nfp_coherent robust js input algorithm s"
  shows "\<exists>r s'. nfp_uncached robust input algorithm = Some r \<and>
    resolve_nfp_boundary robust js room input algorithm s =
      Some (and_then r (\<lambda>boundary. Inr (boundary, nfp_key js input algorithm)), s') \<and>
    store_ok s' \<and> cache_values s' \<subseteq> cache_values s \<union> own_entries robust js input algorithm"
proof -
  let ?fixed = "fixed_polygon (nfp_fixed input)" and ?moving = "collision_polygon (nfp_moving input)"
  let ?key = "nfp_key js input algorithm" and ?P = "constructed robust ?fixed ?moving algorithm"
  let ?t = "placement_transform (piece_placement (nfp_fixed input))"
  note unfold = resolve_nfp_boundary_def resolve_nfp_boundary_with_prepared_moving_def nfp_uncached_def nfp_key_prepared [symmetric]
  show ?thesis
  proof (cases "validate_strict_boundary robust ?fixed")
    case (Invalid message)
    then show ?thesis using assms by (simp add: unfold)
  next
    case v1: (Valid w)
    show ?thesis
    proof (cases "validate_strict_boundary robust ?moving")
      case (Invalid message)
      then show ?thesis using assms v1 by (simp add: unfold)
    next
      case v2: (Valid w')
      have coh: "coherent ?key ?P s" using coherent [OF v1 v2] by (simp add: nfp_coherent_def)
      let ?f = "\<lambda>cached. case cached of
           Some v \<Rightarrow> if is_valid_cached_nfp_boundary robust (Some v) then Valid_translated (translate_nfp_boundary robust ?t v)
             else Stale_present
         | None \<Rightarrow> Nothing_cached"
      obtain s1 where s1: "probe as_nfp ?key ?f s = Some (?f (found as_nfp ?key s), s1)" "store_ok s1"
          "cache_values s1 = cache_values s"
        using probe_contents [OF assms(1)] by blast
      have recompute: ?thesis
        if res: "resolve_nfp_boundary robust js room input algorithm s = nfp_recompute robust room input algorithm ?key t"
          and ok: "store_ok t" and sub: "cache_values t \<subseteq> cache_values s" for t
      proof -
        obtain r v s' where r: "compute_relative_nfp_boundary robust ?fixed ?moving algorithm = Some r"
          "(case r of Inl message \<Rightarrow> Some (Inl message) | Inr v \<Rightarrow> translate_nfp_boundary robust ?t v) = Some v"
          "nfp_recompute robust room input algorithm ?key t = Some (and_then v (\<lambda>b. Inr (b, ?key)), s')"
          "store_ok s'" "cache_values s' \<subseteq> cache_values t \<union> own_entries robust js input algorithm"
          using nfp_recompute_answer [OF ok, of robust input algorithm room js] by blast
        have "nfp_uncached robust input algorithm = Some v" using r(1,2) v1 v2 by (simp add: nfp_uncached_def)
        then show ?thesis using res sub r(3-5) by auto
      qed
      show ?thesis
      proof (cases "found as_nfp ?key s")
        case None
        then have "resolve_nfp_boundary robust js room input algorithm s = nfp_recompute robust room input algorithm ?key s1"
          using s1 v1 v2 by (simp add: unfold)
        then show ?thesis by (rule recompute [OF _ s1(2) equalityD1 [OF s1(3)]])
      next
        case (Some v)
        show ?thesis
        proof (cases "is_valid_cached_nfp_boundary robust (Some v)")
          case True
          have "?P v" using found_in [OF Some] coh by (auto simp: coherent_def)
          then have "compute_relative_nfp_boundary robust ?fixed ?moving algorithm = Some (Inr v)"
            using True by (simp add: constructed_def)
          moreover obtain t where "translate_nfp_boundary robust ?t v = Some t" using translate_some by blast
          ultimately show ?thesis using True Some s1 v1 v2 by (simp add: unfold)
        next
          case False
          let ?s = "record_stale_detection NFP_GEOMETRY_CACHE_NAMESPACE (record_cloning_hit NFP_GEOMETRY_CACHE_NAMESPACE s1)"
          obtain s2 where s2: "remove ?key ?s = Some s2" "store_ok s2" "cache_values s2 \<subseteq> cache_values ?s"
            using remove_contents [of ?s ?key] s1(2) by auto
          have "resolve_nfp_boundary robust js room input algorithm s = nfp_recompute robust room input algorithm ?key s2"
            using False Some s1 s2 v1 v2 by (simp add: unfold)
          moreover have "cache_values s2 \<subseteq> cache_values s" using s2(3) s1(3) by simp
          ultimately show ?thesis using s2(2) by (intro recompute)
        qed
      qed
    qed
  qed
qed

subsection \<open>The pre-pass\<close>

lemma probe_valid_contents:
  assumes "store_ok s"
  shows "\<exists>r s'. probe_valid d key f s = Some (r, s') \<and> store_ok s' \<and> cache_values s' \<subseteq> cache_values s"
proof -
  obtain s1 where s1: "probe d key (map_option f) s = Some (map_option f (found d key s), s1)" "store_ok s1"
    "cache_values s1 = cache_values s" using probe_contents [OF assms] by blast
  let ?s = "record_stale_detection (key_namespace key) s1"
  obtain s2 where s2: "remove key ?s = Some s2" "store_ok s2" "cache_values s2 \<subseteq> cache_values ?s"
    using remove_contents [of ?s key] s1(2) by auto
  show ?thesis using s1 s2 by (auto simp: probe_valid_def split: option.splits bool.splits)
qed

definition piece_key :: "(f64 \<Rightarrow> string) \<Rightarrow> prepared_moving_parts \<Rightarrow> irregular_placed_piece \<Rightarrow> geometry_cache_key" where
  "piece_key js prepared placed = make_pairwise_nfp_cache_key_with_prepared_moving js prepared (fixed_polygon placed)
    (collision_transform (piece_collision_geometry placed))"

lemma collect_misses_contents:
  assumes "store_ok s"
  shows "\<exists>ms s'. collect_misses robust js prepared placed seen ms0 s = Some (ms, s') \<and> store_ok s' \<and>
    cache_values s' \<subseteq> cache_values s \<and> set ms \<subseteq> set ms0 \<union> (\<lambda>p. (piece_key js prepared p, fixed_polygon p)) ` set placed"
  using assms
proof (induction placed arbitrary: seen ms0 s)
  case (Cons p placed)
  let ?key = "piece_key js prepared p"
  have skip: ?case if "collect_misses robust js prepared (p # placed) seen ms0 s = collect_misses robust js prepared placed seen' ms1 s1"
      "store_ok s1" "cache_values s1 \<subseteq> cache_values s" "set ms1 \<subseteq> insert (?key, fixed_polygon p) (set ms0)" for seen' ms1 s1
    using Cons.IH [OF that(2), of seen' ms1] that by fastforce
  show ?case
  proof (cases "validate_strict_boundary robust (fixed_polygon p)")
    case (Invalid message)
    then show ?thesis using Cons.prems by (intro skip [of seen ms0 s]) auto
  next
    case (Valid w)
    show ?thesis
    proof (cases "serialize_geometry_cache_key ?key \<in> seen")
      case True
      then show ?thesis using Valid Cons.prems by (intro skip [of seen ms0 s]) (auto simp: piece_key_def)
    next
      case False
      obtain r s1 where "probe_valid as_nfp ?key (\<lambda>cached. is_valid_cached_nfp_boundary robust (Some cached)) s = Some (r, s1)"
        "store_ok s1" "cache_values s1 \<subseteq> cache_values s" using probe_valid_contents [OF Cons.prems] by blast
      then show ?thesis using Valid False
        by (intro skip [of "insert (serialize_geometry_cache_key ?key) seen"
              "if r = HotValid then ms0 else ms0 @ [(?key, fixed_polygon p)]" s1]) (auto simp: piece_key_def Let_def)
    qed
  qed
qed auto

definition computed_entries :: "robust \<Rightarrow> point list \<Rightarrow> nfp_construction_algorithm \<Rightarrow> (geometry_cache_key \<times> point list) set \<Rightarrow>
    (string \<times> cached_value) set" where
  "computed_entries robust moving algorithm M = {(k, v). \<exists>key fixed u. (key, fixed) \<in> M \<and>
    k = serialize_geometry_cache_key key \<and> v = Nfp_value u \<and> compute_relative_nfp_boundary robust fixed moving algorithm = Some (Inr u)}"

lemma compute_misses_some:
  "\<exists>cs. compute_misses robust moving algorithm ms = Some cs \<and> (\<forall>(key, r) \<in> set cs. \<forall>u. r = Some u \<longrightarrow>
    (serialize_geometry_cache_key key, Nfp_value u) \<in> computed_entries robust moving algorithm (set ms))"
proof (induction ms)
  case (Cons m ms)
  obtain key fixed where m: "m = (key, fixed)" by (cases m) auto
  obtain cs where cs: "compute_misses robust moving algorithm ms = Some cs"
    "\<forall>(key, r) \<in> set cs. \<forall>u. r = Some u \<longrightarrow>
      (serialize_geometry_cache_key key, Nfp_value u) \<in> computed_entries robust moving algorithm (set ms)"
    using Cons.IH by blast
  obtain r where r: "compute_relative_nfp_boundary robust fixed moving algorithm = Some r" using compute_some by blast
  have mono: "computed_entries robust moving algorithm (set ms) \<subseteq> computed_entries robust moving algorithm (set (m # ms))"
    by (auto simp: computed_entries_def)
  have "(serialize_geometry_cache_key key, Nfp_value u) \<in> computed_entries robust moving algorithm (set (m # ms))"
    if "ok_of r = Some u" for u
    using that r by (cases r) (auto simp: ok_of_def computed_entries_def m)
  then have "\<forall>(key, r) \<in> set ((key, ok_of r) # cs). \<forall>u. r = Some u \<longrightarrow>
    (serialize_geometry_cache_key key, Nfp_value u) \<in> computed_entries robust moving algorithm (set (m # ms))"
    using cs(2) mono by fastforce
  moreover have "compute_misses robust moving algorithm (m # ms) = Some ((key, ok_of r) # cs)" using cs(1) r by (simp add: m)
  ultimately show ?case by blast
qed simp

lemma publish_computed_contents:
  assumes "store_ok s" "\<forall>(key, r) \<in> set cs. \<forall>u. r = Some u \<longrightarrow> (serialize_geometry_cache_key key, Nfp_value u) \<in> V"
  shows "\<exists>s'. publish_computed room cs s = Some s' \<and> store_ok s' \<and> cache_values s' \<subseteq> cache_values s \<union> V"
  using assms
proof (induction room cs s rule: publish_computed.induct)
  case (2 room key boundary rest s)
  obtain s1 where s1: "publish room key (Nfp_value boundary) (charge_nfp_value room boundary) s = Some s1" "store_ok s1"
    "cache_values s1 \<subseteq> insert (serialize_geometry_cache_key key, Nfp_value boundary) (cache_values s)"
    using publish_contents [OF "2.prems"(1)] by blast
  obtain s' where "publish_computed room rest s1 = Some s'" "store_ok s'" "cache_values s' \<subseteq> cache_values s1 \<union> V"
    using "2.IH" [OF s1(1,2)] "2.prems"(2) by auto
  then show ?case using s1 "2.prems"(2) by auto
qed auto

text \<open>
  The compute-then-publish pre-pass returns and only adds what the per-piece loop would have computed:
  every entry of the store it leaves was there before, or stands under the key of a placed piece and is
  the relative no-fit polygon constructed for that piece.
\<close>

theorem precompute_publishes_constructed:
  assumes "store_ok s"
  shows "\<exists>s'. precompute_missing_relative_nfp_boundaries robust js room placed moving geometry_settings algorithm s = Some s' \<and>
    store_ok s' \<and> cache_values s' \<subseteq> cache_values s \<union> {(k, Nfp_value u) | k u p. p \<in> set placed \<and>
      k = serialize_geometry_cache_key (nfp_key js \<lparr>nfp_fixed = p, nfp_moving = moving, nfp_settings = geometry_settings\<rparr> algorithm) \<and>
      compute_relative_nfp_boundary robust (fixed_polygon p) (collision_polygon moving) algorithm = Some (Inr u)}"
    (is "\<exists>s'. _ \<and> _ \<and> _ \<subseteq> _ \<union> ?N")
proof (cases "validate_strict_boundary robust (collision_polygon moving)")
  case (Invalid message)
  then show ?thesis using assms by (auto simp: precompute_missing_relative_nfp_boundaries_def)
next
  case (Valid w)
  let ?prepared = "prepare_pairwise_nfp_moving_parts js (collision_polygon moving) (collision_transform moving)
    geometry_settings algorithm"
  obtain ms s1 where ms: "collect_misses robust js ?prepared placed {} [] s = Some (ms, s1)" "store_ok s1"
      "cache_values s1 \<subseteq> cache_values s" "set ms \<subseteq> (\<lambda>p. (piece_key js ?prepared p, fixed_polygon p)) ` set placed"
    using collect_misses_contents [OF assms, of robust js ?prepared placed "{}" "[]"] by auto
  obtain cs where cs: "compute_misses robust (collision_polygon moving) algorithm ms = Some cs"
      "\<forall>(key, r) \<in> set cs. \<forall>u. r = Some u \<longrightarrow>
        (serialize_geometry_cache_key key, Nfp_value u) \<in> computed_entries robust (collision_polygon moving) algorithm (set ms)"
    using compute_misses_some by blast
  have N: "computed_entries robust (collision_polygon moving) algorithm (set ms) \<subseteq> ?N"
    using ms(4) by (fastforce simp: computed_entries_def nfp_key_prepared piece_key_def)
  show ?thesis
  proof (cases "ms = []")
    case True
    then show ?thesis using Valid ms by (auto simp: precompute_missing_relative_nfp_boundaries_def)
  next
    case False
    obtain s' where "publish_computed room cs s1 = Some s'" "store_ok s'"
        "cache_values s' \<subseteq> cache_values s1 \<union> computed_entries robust (collision_polygon moving) algorithm (set ms)"
      using publish_computed_contents [OF ms(2) cs(2)] by blast
    then show ?thesis using Valid ms(1,3) cs(1) False N
      by (auto simp: precompute_missing_relative_nfp_boundaries_def)
  qed
qed

subsection \<open>Transformed collision polygons\<close>

definition transform_coherent :: "robust \<Rightarrow> (f64 \<Rightarrow> f64) \<Rightarrow> (f64 \<Rightarrow> f64) \<Rightarrow> geometry_cache_key \<Rightarrow> transform_key_input \<Rightarrow>
    (transformed_collision_geometry \<Rightarrow> transformed_collision_geometry) \<Rightarrow> geometry_store \<Rightarrow> bool" where
  "transform_coherent robust fcos fsin key input materialize s \<longleftrightarrow>
    (\<forall>v. (serialize_geometry_cache_key key, Transformed_value v) \<in> cache_values s \<longrightarrow>
      is_valid_cached_transformed_collision_geometry robust (Some v) input \<longrightarrow>
      map_sum id materialize (compute_transformed_collision_geometry robust fcos fsin input) = Inr v)"

lemma transform_coherent_mono:
  "transform_coherent robust fcos fsin key input materialize s \<Longrightarrow> cache_values s' \<subseteq> cache_values s \<Longrightarrow>
    transform_coherent robust fcos fsin key input materialize s'"
  unfolding transform_coherent_def by blast

lemma transformed_recompute_answer:
  assumes "store_ok s" "transform_coherent robust fcos fsin key input materialize s"
  shows "\<exists>s'. transformed_recompute robust fcos fsin room input materialize key s =
      Some (map_sum id (\<lambda>v. (materialize v, key)) (compute_transformed_collision_geometry robust fcos fsin input), s') \<and>
    store_ok s' \<and> transform_coherent robust fcos fsin key input materialize s'"
proof (cases "compute_transformed_collision_geometry robust fcos fsin input")
  case (Inl message)
  then show ?thesis using assms by (simp add: transformed_recompute_def)
next
  case (Inr v)
  let ?v = "materialize v"
  obtain s' where s': "publish room key (Transformed_value ?v) (charge_transformed_value room ?v) s = Some s'" "store_ok s'"
    "cache_values s' \<subseteq> insert (serialize_geometry_cache_key key, Transformed_value ?v) (cache_values s)"
    using publish_contents [OF assms(1)] by blast
  have "transform_coherent robust fcos fsin key input materialize s'"
    using assms(2) s'(3) Inr unfolding transform_coherent_def by auto
  then show ?thesis using s' Inr by (simp add: transformed_recompute_def Let_def)
qed

text \<open>
  Resolving a transformed collision polygon through the cache is transparent: if whatever valid geometry
  the store holds under the key is the computed one, the resolver returns the computed geometry or the
  computation's message, and the store it leaves is again such a store.
\<close>

theorem transform_resolution_transparent:
  assumes "store_ok s"
    and "transform_coherent robust fcos fsin (make_transform_collision_geometry_cache_key js input geometry_settings) input materialize s"
  shows "\<exists>s'. resolve_transformed_collision_geometry robust js fcos fsin room input geometry_settings materialize s =
      Some (map_sum id (\<lambda>v. (materialize v, make_transform_collision_geometry_cache_key js input geometry_settings))
        (compute_transformed_collision_geometry robust fcos fsin input), s') \<and>
    store_ok s' \<and>
    transform_coherent robust fcos fsin (make_transform_collision_geometry_cache_key js input geometry_settings) input materialize s'"
proof -
  let ?key = "make_transform_collision_geometry_cache_key js input geometry_settings"
  obtain s1 where s1: "cache_get as_transformed ?key s = Some (found as_transformed ?key s, s1)" "store_ok s1"
    "cache_values s1 = cache_values s" using get_contents [OF assms(1)] by blast
  have c1: "transform_coherent robust fcos fsin ?key input materialize s1" using transform_coherent_mono [OF assms(2)] s1(3) by simp
  show ?thesis
  proof (cases "found as_transformed ?key s")
    case None
    then show ?thesis using s1 transformed_recompute_answer [OF s1(2) c1]
      by (simp add: resolve_transformed_collision_geometry_def)
  next
    case (Some v)
    show ?thesis
    proof (cases "is_valid_cached_transformed_collision_geometry robust (Some v) input")
      case True
      have "map_sum id materialize (compute_transformed_collision_geometry robust fcos fsin input) = Inr v"
        using found_in [OF Some] assms(2) True by (auto simp: transform_coherent_def)
      then obtain u where u: "compute_transformed_collision_geometry robust fcos fsin input = Inr u" "materialize u = v"
        by (cases "compute_transformed_collision_geometry robust fcos fsin input") auto
      have "transform_coherent robust fcos fsin ?key input materialize (record_hit TRANSFORM_GEOMETRY_CACHE_NAMESPACE s1)"
        by (rule transform_coherent_mono [OF c1]) simp
      then show ?thesis using True Some s1 u by (simp add: resolve_transformed_collision_geometry_def)
    next
      case False
      let ?s = "record_stale_detection TRANSFORM_GEOMETRY_CACHE_NAMESPACE s1"
      obtain s2 where s2: "remove ?key ?s = Some s2" "store_ok s2" "cache_values s2 \<subseteq> cache_values ?s"
        using remove_contents [of ?s ?key] s1(2) by auto
      then have "transform_coherent robust fcos fsin ?key input materialize s2"
        using transform_coherent_mono [OF c1, of s2] by simp
      then show ?thesis using False Some s1 s2 transformed_recompute_answer [OF s2(2)]
        by (simp add: resolve_transformed_collision_geometry_def)
    qed
  qed
qed

subsection \<open>Concrete stores\<close>

definition sample_piece :: "polygon \<Rightarrow> irregular_placed_piece" where
  "sample_piece ps = \<lparr>piece_placement = \<lparr>placement_piece_id = None, placement_source_piece_id = ''a'', placement_reference = None,
     placement_transform = \<lparr>translate_x = f64_zero, translate_y = f64_zero, transform_rotation_deg = f64_zero,
       transform_mirrored = False\<rparr>\<rparr>, piece_collision_geometry = sample_geometry ps\<rparr>"

definition sample_settings :: irregular_geometry_settings where
  "sample_settings = \<lparr>flattening_sag = f64_zero, clearance_safety_margin = f64_zero, backend_id = [], backend_version = []\<rparr>"

lemma precompute_publishes_constructed_witness:
  "\<exists>s'. precompute_missing_relative_nfp_boundaries (\<lambda>_ _ _. f64_zero) (\<lambda>_. []) sample_room [sample_piece []] (sample_geometry [])
    sample_settings Vertex_Pair_Hull (with_byte_cap 200) = Some s' \<and> store_ok s'"
  using precompute_publishes_constructed [OF empty_store(1), of "\<lambda>_ _ _. f64_zero" "\<lambda>_. []" sample_room "[sample_piece []]"
    "sample_geometry []" sample_settings Vertex_Pair_Hull] by blast

lemma transform_resolution_transparent_witness:
  "\<exists>r s'. resolve_transformed_collision_geometry (\<lambda>_ _ _. f64_zero) (\<lambda>_. []) (\<lambda>x. x) (\<lambda>x. x) sample_room
    \<lparr>key_geometry = \<lparr>geometry_source_piece_id = ''a'', geometry_source_bounds = \<lparr>min_x = f64_zero, min_y = f64_zero,
        max_x = f64_zero, max_y = f64_zero\<rparr>, sampled_points = [], convex_hull_polygon = [], padded_collision_polygon = [],
        geometry_placement_reference = ORIGIN\<rparr>,
      key_transform = collision_transform (sample_geometry [])\<rparr> sample_settings id (with_byte_cap 200) = Some (r, s') \<and> store_ok s'"
proof -
  let ?input = "\<lparr>key_geometry = \<lparr>geometry_source_piece_id = ''a'', geometry_source_bounds = \<lparr>min_x = f64_zero, min_y = f64_zero,
        max_x = f64_zero, max_y = f64_zero\<rparr>, sampled_points = [], convex_hull_polygon = [], padded_collision_polygon = [],
        geometry_placement_reference = ORIGIN\<rparr>, key_transform = collision_transform (sample_geometry [])\<rparr>"
  have "transform_coherent (\<lambda>_ _ _. f64_zero) (\<lambda>x. x) (\<lambda>x. x)
      (make_transform_collision_geometry_cache_key (\<lambda>_. []) ?input sample_settings) ?input id (with_byte_cap 200)"
    by (simp add: transform_coherent_def empty_store)
  from transform_resolution_transparent [OF empty_store(1) this, of sample_room] show ?thesis by blast
qed

end
