(* ===== verification/ConvexGeometry.thy ===== *)
theory ConvexGeometry
  imports Complex_Main
begin

text \<open>
  Strictly convex rings in the rational plane: half-planes, segments that leave a ring, and two rings
  that overlap without a vertex of one in the other.
\<close>

type_synonym rpoint = "rat \<times> rat"

definition det :: "rpoint \<Rightarrow> rpoint \<Rightarrow> rpoint \<Rightarrow> rat" where
  "det a b c = (fst b - fst a) * (snd c - snd a) - (snd b - snd a) * (fst c - fst a)"

definition lerp :: "rat \<Rightarrow> rpoint \<Rightarrow> rpoint \<Rightarrow> rpoint" where
  "lerp t a b = ((1 - t) * fst a + t * fst b, (1 - t) * snd a + t * snd b)"

lemma det_lerp: "det a b (lerp t x y) = (1 - t) * det a b x + t * det a b y"
  by (simp add: det_def lerp_def algebra_simps)

lemma det_same [simp]: "det a b a = 0" "det a b b = 0" "det a a b = 0"
  by (simp_all add: det_def algebra_simps)

lemma lerp_01 [simp]: "lerp 0 a b = a" "lerp 1 a b = b"
  by (simp_all add: lerp_def)

lemma affine_coordinate: "c \<noteq> d \<Longrightarrow> x = (1 - (x - c) / (d - c)) * c + (x - c) / (d - c) * (d :: rat)"
proof -
  assume "c \<noteq> d"
  then obtain k where k: "k = (x - c) / (d - c)" "k * (d - c) = x - c" by simp
  have "(1 - k) * c + k * d = c + k * (d - c)" by (simp add: algebra_simps)
  then show ?thesis unfolding k(1) [symmetric] k(2) by simp
qed

lemma det_zero_lerp:
  assumes "a \<noteq> b" "det a b x = 0"
  obtains t where "x = lerp t a b"
proof -
  obtain ax ay bx "by" x0 x1 where p: "a = (ax, ay)" "b = (bx, by)" "x = (x0, x1)" by (metis prod.exhaust)
  have z: "(bx - ax) * (x1 - ay) = (by - ay) * (x0 - ax)" using assms(2) by (simp add: det_def p)
  show ?thesis
  proof (cases "bx = ax")
    case True
    then have ne: "by \<noteq> ay" using assms(1) p by auto
    then have "x0 = ax" using z True by simp
    have "x1 = (1 - (x1 - ay) / (by - ay)) * ay + (x1 - ay) / (by - ay) * by"
      using ne by (intro affine_coordinate) simp
    moreover have "x0 = (1 - (x1 - ay) / (by - ay)) * ax + (x1 - ay) / (by - ay) * bx"
      using True \<open>x0 = ax\<close> by (simp add: algebra_simps)
    ultimately have "x = lerp ((x1 - ay) / (by - ay)) a b" by (simp add: lerp_def p)
    then show ?thesis by (rule that)
  next
    case False
    obtain k where k: "k = (x0 - ax) / (bx - ax)" "k * (bx - ax) = x0 - ax" using False by simp
    have "(bx - ax) * (x1 - ay) = (by - ay) * (k * (bx - ax))" using z k(2) by simp
    then have "(bx - ax) * (x1 - ay) = (bx - ax) * (k * (by - ay))" by (simp add: mult_ac)
    then have "x1 - ay = k * (by - ay)" using False by simp
    then have "x1 = (1 - (x0 - ax) / (bx - ax)) * ay + (x0 - ax) / (bx - ax) * by"
      unfolding k(1) [symmetric] by (simp add: algebra_simps)
    moreover have "x0 = (1 - (x0 - ax) / (bx - ax)) * ax + (x0 - ax) / (bx - ax) * bx"
      using False by (intro affine_coordinate) simp
    ultimately have "x = lerp ((x0 - ax) / (bx - ax)) a b" by (simp add: lerp_def p)
    then show ?thesis by (rule that)
  qed
qed

subsection \<open>Rings\<close>

abbreviation nx :: "nat \<Rightarrow> nat \<Rightarrow> nat" where "nx n i \<equiv> (i + 1) mod n"

lemma nx_facts:
  assumes "i < n" "3 \<le> n"
  shows "nx n i < n" "nx n i \<noteq> i" "nx n (nx n i) \<noteq> i" "nx n (nx n i) \<noteq> nx n i"
  using assms by (cases "i + 1 < n"; cases "i + 2 < n"; auto simp: mod_if)+

lemma pred_index:
  assumes "i < n" "3 \<le> n"
  obtains k where "k < n" "nx n k = i" "k \<noteq> i" "k \<noteq> nx n i"
proof (cases i)
  case 0
  then show ?thesis using assms by (intro that [of "n - 1"]) auto
next
  case (Suc k)
  have "Suc (Suc k) mod n \<noteq> k" using Suc assms by (cases "Suc (Suc k) < n") (auto simp: mod_if)
  then show ?thesis using Suc assms by (intro that [of k]) auto
qed

text \<open>The side of edge \<open>i\<close> a point is on, positive inside; \<open>w\<close> is the winding.\<close>

definition side :: "rat \<Rightarrow> rpoint list \<Rightarrow> nat \<Rightarrow> rpoint \<Rightarrow> rat" where
  "side w ps i x = w * det (ps ! i) (ps ! nx (length ps) i) x"

lemma side_lerp: "side w ps i (lerp t x y) = (1 - t) * side w ps i x + t * side w ps i y"
  by (simp add: side_def det_lerp algebra_simps)

definition convex_ring :: "rat \<Rightarrow> rpoint list \<Rightarrow> bool" where
  "convex_ring w ps \<longleftrightarrow> 3 \<le> length ps \<and> (w = 1 \<or> w = - 1) \<and>
    (\<forall>i < length ps. \<forall>j < length ps. j \<noteq> i \<and> j \<noteq> nx (length ps) i \<longrightarrow> 0 < side w ps i (ps ! j))"

definition inside :: "rat \<Rightarrow> rpoint list \<Rightarrow> rpoint \<Rightarrow> bool" where
  "inside w ps x \<longleftrightarrow> (\<forall>i < length ps. 0 < side w ps i x)"

definition in_ring :: "rat \<Rightarrow> rpoint list \<Rightarrow> rpoint \<Rightarrow> bool" where
  "in_ring w ps x \<longleftrightarrow> (\<forall>i < length ps. 0 \<le> side w ps i x)"

lemma side_edge [simp]: "side w ps i (ps ! i) = 0" "side w ps i (ps ! nx (length ps) i) = 0"
  by (simp_all add: side_def)

lemma vertex_in_ring: "convex_ring w ps \<Longrightarrow> j < length ps \<Longrightarrow> in_ring w ps (ps ! j)"
  unfolding in_ring_def
proof (intro allI impI)
  fix i
  assume c: "convex_ring w ps" "j < length ps" "i < length ps"
  show "0 \<le> side w ps i (ps ! j)"
  proof (cases "j = i \<or> j = nx (length ps) i")
    case True
    then show ?thesis by (elim disjE) (simp_all only: side_edge order_refl)
  next
    case False
    then have "0 < side w ps i (ps ! j)" using c unfolding convex_ring_def by blast
    then show ?thesis by simp
  qed
qed

lemma inside_in_ring: "inside w ps x \<Longrightarrow> in_ring w ps x"
  by (auto simp: inside_def in_ring_def less_imp_le)

lemma in_ring_lerp:
  assumes "in_ring w ps x" "in_ring w ps y" "0 \<le> t" "t \<le> 1"
  shows "in_ring w ps (lerp t x y)"
  using assms unfolding in_ring_def side_lerp by (simp add: mult_nonneg_nonneg)

lemma inside_lerp:
  assumes "inside w ps x" "in_ring w ps y" "0 \<le> t" "t < 1"
  shows "inside w ps (lerp t x y)"
  using assms unfolding in_ring_def inside_def side_lerp by (simp add: mult_nonneg_nonneg add_pos_nonneg)

lemma edge_distinct: "convex_ring w ps \<Longrightarrow> i < length ps \<Longrightarrow> ps ! i \<noteq> ps ! nx (length ps) i"
proof
  assume c: "convex_ring w ps" "i < length ps" "ps ! i = ps ! nx (length ps) i"
  have n: "3 \<le> length ps" using c(1) by (simp add: convex_ring_def)
  let ?j = "nx (length ps) (nx (length ps) i)"
  have j: "?j < length ps" "?j \<noteq> i" "?j \<noteq> nx (length ps) i"
    using nx_facts [OF c(2) n] nx_facts(1) [OF nx_facts(1) [OF c(2) n] n] by auto
  then have "0 < side w ps i (ps ! ?j)" using c(1,2) unfolding convex_ring_def by blast
  then show False using c(3) by (simp add: side_def)
qed

text \<open>A point of the closed ring on the line of an edge lies on the edge.\<close>

lemma in_ring_on_edge:
  assumes c: "convex_ring w ps" and i: "i < length ps" and x: "in_ring w ps x" "side w ps i x = 0"
  obtains t where "0 \<le> t" "t \<le> 1" "x = lerp t (ps ! i) (ps ! nx (length ps) i)"
proof -
  let ?n = "length ps"
  have n: "3 \<le> ?n" and w: "w \<noteq> 0" using c by (auto simp: convex_ring_def)
  have "det (ps ! i) (ps ! nx ?n i) x = 0" using x(2) w by (simp add: side_def)
  then obtain t where t: "x = lerp t (ps ! i) (ps ! nx ?n i)" using det_zero_lerp [OF edge_distinct [OF c i]] by blast
  note nx = nx_facts [OF i n]
  have p: "0 < side w ps (nx ?n i) (ps ! i)" using c nx i unfolding convex_ring_def by metis
  have "0 \<le> side w ps (nx ?n i) x" using x(1) nx(1) by (simp add: in_ring_def)
  then have "0 \<le> (1 - t) * side w ps (nx ?n i) (ps ! i)" unfolding t side_lerp by simp
  then have t1: "t \<le> 1" using p by (simp add: zero_le_mult_iff)
  obtain k where k: "k < ?n" "nx ?n k = i" "k \<noteq> i" "k \<noteq> nx ?n i" using pred_index [OF i n] .
  have q: "0 < side w ps k (ps ! nx ?n i)" using c k nx i unfolding convex_ring_def by metis
  have "0 \<le> side w ps k x" using x(1) k(1) by (simp add: in_ring_def)
  moreover have "side w ps k (ps ! i) = 0" using side_edge(2) [of w ps k] k(2) by simp
  ultimately have "0 \<le> t * side w ps k (ps ! nx ?n i)" unfolding t side_lerp by simp
  then have "0 \<le> t" using q by (simp add: zero_le_mult_iff)
  with t1 t show ?thesis using that by blast
qed

text \<open>A segment from inside a ring to a point outside crosses an edge.\<close>

lemma leaves_ring:
  assumes p: "inside w ps p" and q: "\<not> in_ring w ps q"
  obtains i t where "i < length ps" "0 < t" "t < 1" "in_ring w ps (lerp t p q)" "side w ps i (lerp t p q) = 0"
    "side w ps i q < 0"
proof -
  define S where "S = {i. i < length ps \<and> side w ps i q < 0}"
  define T where "T i = side w ps i p / (side w ps i p - side w ps i q)" for i
  have S: "finite S" "S \<noteq> {}" using q by (auto simp: S_def in_ring_def not_le)
  obtain i where i: "i \<in> S" "\<And>j. j \<in> S \<Longrightarrow> T i \<le> T j"
    using S by (metis (mono_tags) arg_min_least arg_min_if_finite(1))
  have pos: "0 < side w ps j p" if "j < length ps" for j using p that by (simp add: inside_def)
  have ii: "i < length ps" "side w ps i q < 0" using i(1) by (simp_all add: S_def)
  have t: "0 < T i" "T i < 1" using pos [OF ii(1)] ii(2) by (simp_all add: T_def divide_simps)
  have "side w ps i (lerp (T i) p q) = 0"
    unfolding side_lerp using pos [OF ii(1)] ii(2) by (simp add: T_def field_simps)
  moreover have "0 \<le> side w ps j (lerp (T i) p q)" if j: "j < length ps" for j
  proof (cases "j \<in> S")
    case True
    then have d: "0 < side w ps j p - side w ps j q" using pos [OF j] by (simp add: S_def)
    have "T i * (side w ps j p - side w ps j q) \<le> T j * (side w ps j p - side w ps j q)"
      using i(2) [OF True] d by (intro mult_right_mono) auto
    also have "\<dots> = side w ps j p" using d by (simp add: T_def)
    finally show ?thesis unfolding side_lerp by (simp add: algebra_simps)
  next
    case False
    then have "0 \<le> side w ps j q" using j by (simp add: S_def)
    then show ?thesis unfolding side_lerp using t pos [OF j] by (simp add: mult_nonneg_nonneg less_imp_le)
  qed
  ultimately show ?thesis using that [of i "T i"] ii t by (auto simp: in_ring_def)
qed

text \<open>A ring does not enclose points beyond all its vertices in some direction.\<close>

lemma inside_not_beyond:
  assumes x: "inside w ps x" and "ps \<noteq> []" and ab: "0 < a * a + b * (b :: rat)"
  shows "\<exists>j < length ps. a * fst (ps ! j) + b * snd (ps ! j) \<le> a * fst x + b * snd x"
proof (rule ccontr)
  define g where "g v = a * (fst v - fst x) + b * (snd v - snd x)" for v
  define h where "h v = a * (snd v - snd x) - b * (fst v - fst x)" for v
  assume "\<not> ?thesis"
  then have g: "0 < g (ps ! j)" if "j < length ps" for j using that by (auto simp: g_def not_le algebra_simps)
  have gh: "(a * a + b * b) * det u v x = g u * h v - h u * g v" for u v
    by (simp add: g_def h_def det_def algebra_simps)
  define f where "f j = w * h (ps ! j) / g (ps ! j)" for j
  have up: "f i < f (nx (length ps) i)" if i: "i < length ps" for i
  proof -
    have n: "nx (length ps) i < length ps" using assms(2) by simp
    have "0 < w * (g (ps ! i) * h (ps ! nx (length ps) i) - h (ps ! i) * g (ps ! nx (length ps) i))"
      using mult_pos_pos [OF ab, of "side w ps i x"] x i gh [of "ps ! i" "ps ! nx (length ps) i"]
      unfolding inside_def side_def by (simp add: mult.left_commute)
    then have "w * h (ps ! i) * g (ps ! nx (length ps) i) < w * h (ps ! nx (length ps) i) * g (ps ! i)"
      by (simp add: algebra_simps)
    then show ?thesis using g [OF i] g [OF n] by (simp add: f_def divide_simps mult_ac)
  qed
  let ?F = "f ` {0..<length ps}"
  have F: "finite ?F" "?F \<noteq> {}" using assms(2) by auto
  obtain i where i: "i < length ps" "f i = Max ?F" using Max_in [OF F] by (metis atLeastLessThan_iff imageE)
  have n: "nx (length ps) i < length ps" using assms(2) by simp
  then have "f (nx (length ps) i) \<le> Max ?F" using F(1) by (intro Max_ge) auto
  then show False using up [OF i(1)] i(2) by simp
qed

subsection \<open>Two rings\<close>

lemma opposite_signs:
  fixes a b k :: rat
  assumes "0 < k" "k < 1" "a \<noteq> 0" "(1 - k) * a = - (k * b)"
  shows "a * b < 0"
proof -
  have "(1 - k) * a * a = - (k * (a * b))" using arg_cong [OF assms(4), of "\<lambda>z. z * a"] by (simp add: mult_ac)
  moreover have "0 < (1 - k) * a * a" using assms(2,3) by (auto simp: mult.assoc zero_less_mult_iff linorder_neq_iff)
  ultimately have "k * (a * b) < 0" by simp
  then show ?thesis using assms(1) by (simp add: mult_less_0_iff)
qed

text \<open>
  Two rings that overlap without a vertex of either in the other have two edges that cross properly:
  the ends of each edge are on different sides of the other.
\<close>

lemma overlapping_rings_cross:
  assumes p: "convex_ring w ps" and q: "convex_ring v qs" and x: "inside w ps x" "inside v qs x"
    and pq: "\<forall>i < length ps. \<not> in_ring v qs (ps ! i)" and qp: "\<forall>i < length qs. \<not> in_ring w ps (qs ! i)"
  obtains i j where "i < length ps" "j < length qs"
    "side v qs j (ps ! i) * side v qs j (ps ! nx (length ps) i) < 0"
    "side w ps i (qs ! j) * side w ps i (qs ! nx (length qs) j) < 0"
proof -
  have n: "3 \<le> length ps" "3 \<le> length qs" using p q by (auto simp: convex_ring_def)
  then have "0 < length qs" by linarith
  then have "\<not> in_ring w ps (qs ! 0)" using qp by blast
  then obtain i t where i: "i < length ps" "0 < t" "t < 1" "in_ring w ps (lerp t x (qs ! 0))" "side w ps i (lerp t x (qs ! 0)) = 0"
    by (rule leaves_ring [OF x(1)])
  define z where "z = lerp t x (qs ! 0)"
  have zq: "inside v qs z" unfolding z_def
    by (rule inside_lerp [OF x(2) vertex_in_ring [OF q \<open>0 < length qs\<close>]]) (use i in auto)
  define s where "s = ps ! i"
  define e where "e = ps ! nx (length ps) i"
  have zp: "in_ring w ps z" "side w ps i z = 0" using i by (auto simp: z_def)
  obtain r where r: "0 \<le> r" "r \<le> 1" "z = lerp r s e" using in_ring_on_edge [OF p i(1) zp] unfolding s_def e_def .
  have "\<not> in_ring v qs s" using pq i(1) by (simp add: s_def)
  then obtain j u where j: "j < length qs" "0 < u" "u < 1" "in_ring v qs (lerp u z s)" "side v qs j (lerp u z s) = 0"
    "side v qs j s < 0" by (rule leaves_ring [OF zq])
  define y where "y = lerp u z s"
  define a where "a = qs ! j"
  define b where "b = qs ! nx (length qs) j"
  have sp: "in_ring w ps s" "in_ring w ps y"
    using vertex_in_ring [OF p i(1)] in_ring_lerp [OF zp(1), of s u] j by (auto simp: s_def y_def)
  obtain k where k: "0 \<le> k" "k \<le> 1" "y = lerp k a b"
    using in_ring_on_edge [OF q j(1), of y] j unfolding y_def a_def b_def by blast
  have nj: "nx (length qs) j < length qs" using n(2) by (intro mod_less_divisor) linarith
  have "k \<noteq> 0" "k \<noteq> 1" using k(3) sp(2) qp j(1) nj by (auto simp: a_def b_def)
  then have k: "0 < k" "k < 1" "y = lerp k a b" using k by auto
  have "0 < side v qs j z" using zq j(1) by (simp add: inside_def)
  then have "0 < (1 - r) * side v qs j s + r * side v qs j e" unfolding r(3) side_lerp .
  moreover have "(1 - r) * side v qs j s \<le> 0" using r j(6) by (simp add: mult_nonneg_nonpos)
  ultimately have "0 < r * side v qs j e" by linarith
  then have se: "0 < side v qs j e" using r(1) by (simp add: zero_less_mult_iff)
  have "side w ps i y = 0" unfolding y_def side_lerp zp(2) by (simp add: s_def)
  then have ab: "(1 - k) * side w ps i a + k * side w ps i b = 0" unfolding k(3) side_lerp .
  have "side w ps i a \<noteq> 0"
  proof
    assume a0: "side w ps i a = 0"
    then have b0: "side w ps i b = 0" using ab k by simp
    have w: "w \<noteq> 0" "v \<noteq> 0" and ne: "s \<noteq> e" using p q edge_distinct [OF p i(1)] by (auto simp: convex_ring_def s_def e_def)
    from a0 w have "det s e a = 0" by (simp add: side_def s_def e_def)
    then obtain \<alpha> where \<alpha>: "a = lerp \<alpha> s e" using det_zero_lerp [OF ne] by blast
    from b0 w have "det s e b = 0" by (simp add: side_def s_def e_def)
    then obtain \<beta> where \<beta>: "b = lerp \<beta> s e" using det_zero_lerp [OF ne] by blast
    have "det a b s = 0" unfolding \<alpha> \<beta> by (simp add: det_def lerp_def algebra_simps)
    then have "side v qs j s = 0" by (simp add: side_def a_def b_def)
    then show False using j(6) by simp
  qed
  moreover have "(1 - k) * side w ps i a = - (k * side w ps i b)" using ab by linarith
  ultimately have "side w ps i a * side w ps i b < 0"
    by (intro opposite_signs [OF k(1,2)])
  moreover have "side v qs j s * side v qs j e < 0" using j(6) se by (simp add: mult_neg_pos)
  ultimately show ?thesis using that [OF i(1) j(1)] by (simp add: s_def e_def a_def b_def)
qed

end
