(* ===== verification/HullRing.thy ===== *)
theory HullRing
  imports ConvexGeometry MonotoneChain
begin

text \<open>
  The two chains of a monotone scan over points in the rational plane, joined, are a strictly convex
  counter-clockwise ring that holds every point, unless all points are on a line.
\<close>

lemma det_icross: "det a b c = icross a b c"
  by (simp add: det_def icross_def)

lemma icross_rotate: "icross a b c = icross b c a" "icross a b c = icross c a b"
  by (simp_all add: icross_def algebra_simps)

lemma icross_swap: "icross b a c = - icross a b c"
  by (simp add: icross_def algebra_simps)

subsection \<open>Strict rings from supporting edges\<close>

lemma collinear_between:
  fixes a b q :: rpoint
  assumes "a \<noteq> b" "icross a b q = 0"
  obtains t where "q = lerp t a b"
  using det_zero_lerp [of a b q] assms by (auto simp: det_icross)

lemma icross_lerp: "icross a b (lerp t x y) = (1 - t) * icross a b x + t * icross a b y"
  using det_lerp by (simp add: det_icross)

lemma collinear_three:
  fixes a q c e :: rpoint
  assumes "a \<noteq> q" "icross a q c = 0" "icross a q e = 0"
  shows "icross e q c = 0"
proof -
  obtain s where "c = lerp s a q" using collinear_between [OF assms(1,2)] .
  moreover obtain u where "e = lerp u a q" using collinear_between [OF assms(1,3)] .
  ultimately show ?thesis by (simp add: lerp_def icross_def algebra_simps)
qed

lemma weights_zero:
  fixes A B t :: rat
  assumes "(1 - t) * A + t * B = 0" "0 < t" "t < 1" "0 \<le> A \<and> 0 \<le> B \<or> A \<le> 0 \<and> B \<le> 0"
  shows "A = 0 \<and> B = 0"
proof -
  have "(1 - t) * A = 0 \<and> t * B = 0"
    using assms(4)
  proof
    assume "0 \<le> A \<and> 0 \<le> B"
    then have "0 \<le> (1 - t) * A" "0 \<le> t * B" using assms(2,3) by simp_all
    then show ?thesis using assms(1) by linarith
  next
    assume "A \<le> 0 \<and> B \<le> 0"
    then have "(1 - t) * A \<le> 0" "t * B \<le> 0" using assms(2,3) by (simp_all add: mult_nonneg_nonpos)
    then show ?thesis using assms(1) by linarith
  qed
  moreover have "1 - t \<noteq> 0" "t \<noteq> 0" using assms(2,3) by simp_all
  ultimately show ?thesis unfolding mult_eq_0_iff by blast
qed

text \<open>
  A ring of distinct vertices whose edges have all vertices on their left and whose corners turn left
  has no vertex on the line of an edge but its ends.
\<close>

lemma ring_strict:
  assumes n: "3 \<le> length h" and d: "distinct h"
    and sup: "\<And>i j. i < length h \<Longrightarrow> j < length h \<Longrightarrow> 0 \<le> icross (h ! i) (h ! nx (length h) i) (h ! j)"
    and turns: "\<And>i. i < length h \<Longrightarrow> 0 < icross (h ! i) (h ! nx (length h) i) (h ! nx (length h) (nx (length h) i))"
  shows "convex_ring 1 h"
  unfolding convex_ring_def side_def det_icross mult_1
proof (intro conjI allI impI n)
  show "(1 :: rat) = 1 \<or> (1 :: rat) = - 1" by simp
  fix i j assume ij: "i < length h" "j < length h" "j \<noteq> i \<and> j \<noteq> nx (length h) i"
  let ?n = "length h"
  note nx = nx_facts [OF ij(1) n]
  define a where "a = h ! i"
  define b where "b = h ! nx ?n i"
  define q where "q = h ! j"
  have ab: "a \<noteq> b" and qa: "q \<noteq> a" and qb: "q \<noteq> b"
    using d ij nx by (auto simp: a_def b_def q_def nth_eq_iff_index_eq)
  show "0 < icross (h ! i) (h ! nx ?n i) (h ! j)"
  proof (rule ccontr)
    assume "\<not> ?thesis"
    then have z: "icross a b q = 0" using sup [OF ij(1,2)] by (simp add: a_def b_def q_def)
    obtain t where t: "q = lerp t a b" using collinear_between [OF ab z] .
    have t01: "t \<noteq> 0" "t \<noteq> 1" using qa qb t by auto
    obtain k where k: "k < ?n" "nx ?n k = i" "k \<noteq> i" "k \<noteq> nx ?n i" using pred_index [OF ij(1) n] .
    have before: "0 < icross (h ! k) a b" using turns [OF k(1)] k(2) by (simp add: a_def b_def)
    have after: "0 < icross a b (h ! nx ?n (nx ?n i))" using turns [OF ij(1)] by (simp add: a_def b_def)
    have "0 \<le> icross (h ! k) a q" using sup [OF k(1) ij(2)] k(2) by (simp add: a_def q_def)
    then have tpos: "0 < t" using before t01(1) by (auto simp: t icross_lerp zero_le_mult_iff)
    have "0 \<le> icross b (h ! nx ?n (nx ?n i)) q"
      using sup [OF nx(1) ij(2)] by (simp add: b_def q_def)
    then have "0 \<le> (1 - t) * icross b (h ! nx ?n (nx ?n i)) a" by (simp add: t icross_lerp)
    moreover have "0 < icross b (h ! nx ?n (nx ?n i)) a"
      using after unfolding icross_rotate(1) [of a b "h ! nx ?n (nx ?n i)"] .
    ultimately have "t \<le> 1" by (simp add: zero_le_mult_iff)
    then have "t < 1" using t01(2) by simp
    with tpos t have t: "q = lerp t a b" "0 < t" "t < 1" by auto
    obtain l where l: "l < ?n" "nx ?n l = j" "l \<noteq> j" "l \<noteq> nx ?n j" using pred_index [OF ij(2) n] .
    define c where "c = h ! nx ?n j"
    define e where "e = h ! l"
    note nxj = nx_facts [OF ij(2) n]
    have zero: "icross q x a = 0 \<and> icross q x b = 0"
      if "0 \<le> icross q x a \<and> 0 \<le> icross q x b \<or> icross q x a \<le> 0 \<and> icross q x b \<le> 0" for x
    proof -
      have "(1 - t) * icross q x a + t * icross q x b = 0" using icross_lerp [of q x t a b] by (simp flip: t(1))
      then show ?thesis using weights_zero that t(2,3) by blast
    qed
    have "icross q c a = 0 \<and> icross q c b = 0"
      using zero [of c] sup [OF ij(2) ij(1)] sup [OF ij(2) nx(1)] by (simp add: a_def b_def c_def q_def)
    moreover have "icross e q a = 0 \<and> icross e q b = 0"
      using zero [of e] sup [OF l(1) ij(1)] sup [OF l(1) nx(1)] l(2) icross_swap [of q e] by (simp add: a_def b_def e_def q_def)
    moreover have "icross a q c = icross q c a" by (rule icross_rotate(2) [symmetric])
    moreover have "icross a q e = - icross e q a" unfolding icross_rotate(1) [of e q a] by (rule icross_swap)
    ultimately have "icross a q c = 0" "icross a q e = 0" by simp_all
    then have "icross e q c = 0" by (rule collinear_three [OF qa [symmetric]])
    then show False using turns [OF l(1)] l(2) by (simp add: c_def e_def q_def)
  qed
qed

subsection \<open>Joining the chains\<close>

lemma left_turns_nth: "left_turns s \<Longrightarrow> Suc (Suc i) < length s \<Longrightarrow> 0 < icross (s ! Suc (Suc i)) (s ! Suc i) (s ! i)"
proof (induction s arbitrary: i)
  case (Cons c s)
  show ?case
  proof (cases i)
    case 0
    then obtain b a r where "s = b # a # r" using Cons.prems(2) by (cases s; cases "tl s") auto
    then show ?thesis using Cons.prems(1) 0 by simp
  next
    case (Suc j)
    then show ?thesis using Cons.IH [of j] left_turns_tl [OF Cons.prems(1)] Cons.prems(2) by simp
  qed
qed simp

lemma collinear_all:
  fixes a z :: rpoint
  assumes "a \<noteq> z" "icross a z p = 0" "icross a z q = 0" "icross a z r = 0"
  shows "icross p q r = 0"
proof -
  obtain s t u where "p = lerp s a z" "q = lerp t a z" "r = lerp u a z"
    using collinear_between [OF assms(1,2)] collinear_between [OF assms(1,3)] collinear_between [OF assms(1,4)] by metis
  then show ?thesis by (simp add: lerp_def icross_def algebra_simps)
qed

text \<open>At an extreme point of points that are not on a line the corner is strict.\<close>

lemma extreme_corner:
  fixes a z b :: rpoint
  assumes az: "before d a z" and bz: "before d b z" and sup: "\<forall>p \<in> P. 0 \<le> icross a z p \<and> 0 \<le> icross z b p"
    and mem: "b \<in> P" and line: "p \<in> P" "q \<in> P" "r \<in> P" "icross p q r \<noteq> 0"
  shows "0 < icross a z b"
proof (rule ccontr)
  assume "\<not> ?thesis"
  then have zero: "icross a z b = 0" using sup mem by fastforce
  have ne: "a \<noteq> z" using az by auto
  obtain t where t: "b = lerp t a z" using collinear_between [OF ne zero] .
  obtain ax ay zx zy where c: "a = (ax, ay)" "z = (zx, zy)" by (metis prod.exhaust)
  have v: "vsub z b = ((1 - t) * (zx - ax), (1 - t) * (zy - ay))"
    by (simp add: t c vsub_def lerp_def algebra_simps)
  have f: "0 < d * (zx - ax) \<or> zx - ax = 0 \<and> 0 < d * (zy - ay)"
    using az by (simp add: before_def forward_def vsub_def c)
  have g: "0 < (1 - t) * (d * (zx - ax)) \<or> (1 - t) * (zx - ax) = 0 \<and> 0 < (1 - t) * (d * (zy - ay))"
    using bz unfolding before_def forward_def v fst_conv snd_conv mult.left_commute [of d] .
  have "0 < 1 - t"
    using f
  proof
    assume p: "0 < d * (zx - ax)"
    then have "zx - ax \<noteq> 0" by auto
    with g have "0 < (1 - t) * (d * (zx - ax))" by auto
    then show ?thesis using p by (rule zero_less_mult_pos2)
  next
    assume p: "zx - ax = 0 \<and> 0 < d * (zy - ay)"
    with g have "0 < (1 - t) * (d * (zy - ay))" by auto
    from zero_less_mult_pos2 [OF this conjunct2 [OF p]] show ?thesis .
  qed
  have "icross a z x = 0" if "x \<in> P" for x
  proof -
    have "icross z b x = - ((1 - t) * icross a z x)" by (simp add: t lerp_def icross_def algebra_simps)
    then have "(1 - t) * icross a z x \<le> 0" using sup that by auto
    then have "icross a z x \<le> 0" using \<open>0 < 1 - t\<close> by (simp add: mult_le_0_iff)
    then show ?thesis using sup that by fastforce
  qed
  then show False using collinear_all [OF ne] line by blast
qed

text \<open>The chains share no interior vertex.\<close>

lemma chains_meet:
  assumes "before 1 u v" "before 1 v w" "before 1 u' v" "before 1 v w'"
    and "0 < icross u v w" "0 < icross w' v u'" "0 \<le> icross v w w'" "0 \<le> icross u v u'"
  shows False
proof -
  let ?a = "vsub v u" and ?b = "vsub w v" and ?c = "vsub w' v" and ?e = "vsub v u'"
  have f: "forward 1 ?a" "forward 1 ?b" "forward 1 ?e" "forward 1 ?c" using assms(1-4) by (simp_all add: before_def)
  have "0 < vcross ?a ?b" using assms(5) by (simp add: icross_mid)
  moreover have "0 \<le> vcross ?b ?c" using assms(7) by (simp add: icross_vcross)
  moreover have "0 \<le> vcross ?c ?e" using assms(6) by (simp add: icross_def vcross_def vsub_def algebra_simps)
  moreover have "0 \<le> vcross ?e ?a" using assms(8) by (simp add: icross_def vcross_def vsub_def algebra_simps)
  ultimately have "0 \<le> vcross ?b ?a" using vcross_trans1 f by blast
  moreover have "vcross ?b ?a = - vcross ?a ?b" by (simp add: vcross_def)
  ultimately show False using \<open>0 < vcross ?a ?b\<close> by simp
qed

text \<open>What each chain of a scan satisfies: \<open>d\<close> is its direction.\<close>

definition chain_of :: "rat \<Rightarrow> rpoint set \<Rightarrow> rpoint list \<Rightarrow> bool" where
  "chain_of d P c \<longleftrightarrow> 2 \<le> length c \<and> set c \<subseteq> P \<and> sorted_wrt (before d) c \<and>
    (\<forall>i. Suc i < length c \<longrightarrow> (\<forall>p \<in> P. 0 \<le> icross (c ! i) (c ! Suc i) p)) \<and>
    (\<forall>i. Suc (Suc i) < length c \<longrightarrow> 0 < icross (c ! i) (c ! Suc i) (c ! Suc (Suc i)))"

lemma chain_ofD:
  assumes "chain_of d P c"
  shows "2 \<le> length c" "set c \<subseteq> P" "i < j \<Longrightarrow> j < length c \<Longrightarrow> before d (c ! i) (c ! j)"
    "Suc i < length c \<Longrightarrow> p \<in> P \<Longrightarrow> 0 \<le> icross (c ! i) (c ! Suc i) p"
    "Suc (Suc i) < length c \<Longrightarrow> 0 < icross (c ! i) (c ! Suc i) (c ! Suc (Suc i))"
    "j < length c \<Longrightarrow> c ! j \<in> P"
  using assms by (auto simp: chain_of_def sorted_wrt_iff_nth_less)

lemma chain_of_nth_eq:
  assumes "chain_of d P c" "i < length c" "j < length c" "c ! i = c ! j"
  shows "i = j"
  using chain_ofD(3) [OF assms(1), of i j] chain_ofD(3) [OF assms(1), of j i] assms(2-4) before_irrefl
  by (metis linorder_neqE_nat)

lemma scan_chain_of:
  assumes d: "d = 1 \<or> d = - 1" and s: "sorted_wrt (before d) xs" and two: "hd xs \<noteq> last xs" and ne: "xs \<noteq> []"
  shows "chain_of d (set xs) (rev (scan xs []))" "hd (rev (scan xs [])) = hd xs" "last (rev (scan xs [])) = last xs"
proof -
  let ?s = "scan xs []"
  note c = scan_chain [OF d s ne]
  show hl: "hd (rev ?s) = hd xs" "last (rev ?s) = last xs" using c(2,3) by simp_all
  have "2 \<le> length ?s" using hl two c(7) by (cases ?s; cases "tl ?s") auto
  moreover have "\<forall>p \<in> set xs. 0 \<le> icross (rev ?s ! i) (rev ?s ! Suc i) p" if "Suc i < length (rev ?s)" for i
    using c(1) that by (auto simp: successively_conv_nth)
  moreover have "0 < icross (rev ?s ! i) (rev ?s ! Suc i) (rev ?s ! Suc (Suc i))" if i: "Suc (Suc i) < length (rev ?s)" for i
  proof -
    define k where "k = length ?s - 3 - i"
    have k: "Suc (Suc k) < length ?s" using i by (simp add: k_def)
    have "rev ?s ! i = ?s ! Suc (Suc k)" "rev ?s ! Suc i = ?s ! Suc k" "rev ?s ! Suc (Suc i) = ?s ! k"
      using i by (auto simp: rev_nth k_def intro!: arg_cong [of _ _ "nth ?s"])
    then show ?thesis using left_turns_nth [OF c(5) k] by simp
  qed
  ultimately show "chain_of d (set xs) (rev ?s)" using c(4,8) by (auto simp: chain_of_def)
qed

text \<open>The closed walk along both chains.\<close>

definition walk_points :: "rpoint list \<Rightarrow> rpoint list \<Rightarrow> rpoint list" where
  "walk_points l u = butlast l @ butlast u"

lemma walk_nth:
  assumes "last l = hd u" "2 \<le> length l" "2 \<le> length u" "last u = hd l"
  defines "m \<equiv> length l - 1" and "k \<equiv> length u - 1"
  shows "length (walk_points l u) = m + k"
    "i \<le> m \<Longrightarrow> walk_points l u ! i = l ! i"
    "j < k \<Longrightarrow> walk_points l u ! (m + j) = u ! j"
    "walk_points l u ! 0 = u ! k"
proof -
  have ne: "l \<noteq> []" "u \<noteq> []" using assms(2,3) by auto
  show len: "length (walk_points l u) = m + k" by (simp add: walk_points_def m_def k_def)
  show u: "walk_points l u ! (m + j) = u ! j" if "j < k" for j
    using that by (simp add: walk_points_def nth_append m_def k_def nth_butlast)
  have "u ! 0 = l ! m" using assms(1) ne by (simp add: hd_conv_nth last_conv_nth m_def)
  then have l: "walk_points l u ! i = l ! i" if "i \<le> m" for i
    using that u [of 0] assms(3) by (cases "i = m") (auto simp: walk_points_def nth_append m_def k_def nth_butlast)
  then show "i \<le> m \<Longrightarrow> walk_points l u ! i = l ! i" .
  have "u ! k = l ! 0" using assms(4) ne by (simp add: hd_conv_nth last_conv_nth k_def)
  then show "walk_points l u ! 0 = u ! k" using l [of 0] by simp
qed

lemma chains_ring:
  assumes l: "chain_of 1 P l" and u: "chain_of (- 1) P u" and ends: "last l = hd u" "last u = hd l"
    and line: "p \<in> P" "q \<in> P" "r \<in> P" "icross p q r \<noteq> 0"
  shows "convex_ring 1 (walk_points l u)" "x \<in> P \<Longrightarrow> in_ring 1 (walk_points l u) x" "set (walk_points l u) \<subseteq> P"
proof -
  define m where "m = length l - 1"
  define k where "k = length u - 1"
  let ?h = "walk_points l u"
  let ?n = "length ?h"
  note L = chain_ofD [OF l] and U = chain_ofD [OF u]
  note w = walk_nth [OF ends(1) L(1) U(1) ends(2), folded m_def k_def]
  have n: "?n = m + k" "1 \<le> m" "1 \<le> k" using w(1) L(1) U(1) by (simp_all add: m_def k_def)
  have lm: "Suc m = length l" "Suc k = length u" using L(1) U(1) by (simp_all add: m_def k_def)
  have junction: "u ! 0 = l ! m" "l ! 0 = u ! k" using w(2) [of m] w(3) [of 0] w(2) [of 0] w(4) n by auto
  have nx_low: "nx ?n i = Suc i" if "i < m" for i unfolding n(1) using that n(3) by simp
  have nx_high: "nx ?n (m + j) = (if Suc j < k then m + Suc j else 0)" if "j < k" for j
  proof (cases "Suc j < k")
    case False
    then have "m + j + 1 = m + k" using that by simp
    then have "(m + j + 1) mod (m + k) = 0" by (simp only: mod_self)
    then show ?thesis unfolding n(1) using False by simp
  qed (simp add: n(1))
  have low: "?h ! i = l ! i" "?h ! nx ?n i = l ! Suc i" if "i < m" for i
    unfolding nx_low [OF that] using that by (intro w(2); simp)+
  have high: "?h ! (m + j) = u ! j" "?h ! nx ?n (m + j) = u ! Suc j" if "j < k" for j
  proof -
    show "?h ! (m + j) = u ! j" by (rule w(3) [OF that])
    show "?h ! nx ?n (m + j) = u ! Suc j"
    proof (cases "Suc j < k")
      case True
      then show ?thesis unfolding nx_high [OF that] using w(3) [OF True] by simp
    next
      case False
      then have "Suc j = k" using that by simp
      then show ?thesis unfolding nx_high [OF that] using w(4) by simp
    qed
  qed
  have split: thesis if "i < ?n" "i < m \<Longrightarrow> thesis" "\<And>j. i = m + j \<Longrightarrow> j < k \<Longrightarrow> thesis" for i thesis
    using that n(1) by (cases "i < m") (auto simp: not_less dest: le_Suc_ex)
  have sup: "0 \<le> icross (?h ! i) (?h ! nx ?n i) y" if i: "i < ?n" and y: "y \<in> P" for i y
    by (rule split [OF i]) (use low high L(4) [OF _ y] U(4) [OF _ y] lm in auto)
  have lo1: "before 1 (l ! i) (l ! Suc i)" if "i < m" for i using L(3) [of i "Suc i"] that lm by simp
  have hi1: "before 1 (u ! Suc j) (u ! j)" if "j < k" for j
    using U(3) [of j "Suc j"] that lm by (simp add: before_neg)
  have pts: "l ! i \<in> P" if "i \<le> m" for i using L(6) that lm by simp
  have ptu: "u ! j \<in> P" if "j \<le> k" for j using U(6) that lm by simp
  have turns: "0 < icross (?h ! i) (?h ! nx ?n i) (?h ! nx ?n (nx ?n i))" if i: "i < ?n" for i
  proof (rule split [OF i])
    assume im: "i < m"
    then have nx: "nx ?n i = Suc i" by (rule nx_low)
    show ?thesis
    proof (cases "Suc i < m")
      case True
      then show ?thesis using L(5) [of i] low [OF im] low [OF True] lm unfolding nx by simp
    next
      case False
      then have sm: "Suc i = m" using im by simp
      have "0 < icross (l ! i) (l ! m) (u ! Suc 0)"
      proof (rule extreme_corner [OF _ _ _ ptu line])
        show "before 1 (l ! i) (l ! m)" using lo1 [OF im] sm by simp
        show "before 1 (u ! Suc 0) (l ! m)" using hi1 [of 0] n junction by simp
        show "\<forall>y \<in> P. 0 \<le> icross (l ! i) (l ! m) y \<and> 0 \<le> icross (l ! m) (u ! Suc 0) y"
          using L(4) [of i] U(4) [of 0] im sm lm n junction by auto
      qed (use n in simp)
      then show ?thesis using low [OF im] high(2) [of 0] n sm unfolding nx by simp
    qed
  next
    fix j assume j: "i = m + j" "j < k"
    show ?thesis
    proof (cases "Suc j < k")
      case True
      then have "nx ?n i = m + Suc j" using nx_high [OF j(2)] j(1) by simp
      then show ?thesis using U(5) [of j] high [OF j(2)] high [OF True] lm j True by simp
    next
      case False
      then have sk: "Suc j = k" using j by simp
      then have nx: "nx ?n i = 0" using nx_high [OF j(2)] j(1) by simp
      have "0 < icross (u ! j) (u ! k) (l ! Suc 0)"
      proof (rule extreme_corner [OF _ _ _ pts line])
        show "before (- 1) (u ! j) (u ! k)" using U(3) [of j k] sk lm by simp
        show "before (- 1) (l ! Suc 0) (u ! k)" using lo1 [of 0] n junction by (simp add: before_neg)
        show "\<forall>y \<in> P. 0 \<le> icross (u ! j) (u ! k) y \<and> 0 \<le> icross (u ! k) (l ! Suc 0) y"
          using U(4) [of j] L(4) [of 0] sk lm n junction by auto
      qed (use n in simp)
      then show ?thesis using high [OF j(2)] low [of 0] n sk j nx by simp
    qed
  qed
  show mem: "set ?h \<subseteq> P" using L(2) U(2) by (auto simp: walk_points_def dest: in_set_butlastD)
  show "in_ring 1 ?h x" if "x \<in> P" using sup that by (simp add: in_ring_def side_def det_icross)
  have "distinct ?h"
  proof -
    have "?h ! i \<noteq> ?h ! j" if ij: "i < j" "j < ?n" for i j
    proof
      assume eq: "?h ! i = ?h ! j"
      have i: "i < ?n" using ij by simp
      show False
      proof (rule split [OF ij(2)])
        assume "j < m"
        then show False using chain_of_nth_eq [OF l, of i j] eq ij low lm by simp
      next
        fix j' assume j: "j = m + j'" "j' < k"
        show False
        proof (rule split [OF i])
          fix i' assume "i = m + i'" "i' < k"
          then show False using chain_of_nth_eq [OF u, of i' j'] eq ij j high lm by simp
        next
          assume im: "i < m"
          have v: "l ! i = u ! j'" using eq low [OF im] high [OF j(2)] j by simp
          have "i \<noteq> 0"
          proof
            assume "i = 0"
            then have "u ! k = u ! j'" using v junction(2) by simp
            then show False using chain_of_nth_eq [OF u, of k j'] j(2) lm by simp
          qed
          moreover have "j' \<noteq> 0"
          proof
            assume "j' = 0"
            then have "l ! m = l ! i" using v junction(1) by simp
            then show False using chain_of_nth_eq [OF l, of m i] im lm by simp
          qed
          ultimately obtain a b where ab: "i = Suc a" "j' = Suc b" by (metis not0_implies_Suc)
          show False
          proof (rule chains_meet)
            show "before 1 (l ! a) (l ! i)" "before 1 (l ! i) (l ! Suc i)" using lo1 im ab by auto
            show "before 1 (u ! Suc j') (l ! i)" "before 1 (l ! i) (u ! b)" using hi1 [of j'] hi1 [of b] j ab v by auto
            show "0 < icross (l ! a) (l ! i) (l ! Suc i)" using L(5) [of a] im ab lm by simp
            show "0 < icross (u ! b) (l ! i) (u ! Suc j')" using U(5) [of b] j ab v lm by simp
            show "0 \<le> icross (l ! i) (l ! Suc i) (u ! b)" using L(4) [of i] im lm ptu [of b] j ab by simp
            show "0 \<le> icross (l ! a) (l ! i) (u ! Suc j')" using L(4) [of a] im lm ptu [of "Suc j'"] j ab by simp
          qed
        qed
      qed
    qed
    then show ?thesis unfolding distinct_conv_nth by (metis linorder_neqE_nat)
  qed
  moreover have "3 \<le> ?n"
  proof (rule ccontr)
    assume "\<not> ?thesis"
    then have one: "m = 1" "k = 1" using n by auto
    have "icross (l ! 0) (l ! 1) y = 0" if "y \<in> P" for y
      using L(4) [of 0 y] U(4) [of 0 y] that lm one junction icross_swap [of "l ! 1" "l ! 0" y] by auto
    moreover have "length l = 2" using lm one by simp
    then have "l ! 0 \<noteq> l ! 1" using chain_of_nth_eq [OF l, of 0 1] by auto
    ultimately show False using collinear_all [of "l ! 0" "l ! 1"] line by blast
  qed
  moreover have "0 \<le> icross (?h ! i) (?h ! nx ?n i) (?h ! j)" if "i < ?n" "j < ?n" for i j
    using sup [OF that(1)] mem nth_mem [OF that(2)] by blast
  ultimately show "convex_ring 1 ?h" by (intro ring_strict turns)
qed

end
