(* ===== verification/ExactGeometry.thy ===== *)
theory ExactGeometry
  imports Convex ConvexGeometry MonotoneChain
begin

text \<open>
  Floating-point points as rational points: comparisons of finite doubles, the ring of a polygon and
  the sides of its edges, and orientations where the predicate is exact.
\<close>

definition finite_point :: "point \<Rightarrow> bool" where
  "finite_point p \<longleftrightarrow> is_finite (px p) \<and> is_finite (py p)"

definition pt :: "point \<Rightarrow> rpoint" where
  "pt p = (vx p, vy p)"

lemma fle_val: "is_finite a \<Longrightarrow> is_finite b \<Longrightarrow> fle a b \<longleftrightarrow> f64_val a \<le> f64_val b"
  by (cases a; cases b) (auto simp: fle_def)

lemma flt_val: "is_finite a \<Longrightarrow> is_finite b \<Longrightarrow> flt a b \<longleftrightarrow> f64_val a < f64_val b"
  by (cases a; cases b) auto

lemma feq_val: "is_finite a \<Longrightarrow> is_finite b \<Longrightarrow> feq a b \<longleftrightarrow> f64_val a = f64_val b"
  by (cases a; cases b) auto

lemma finite_not_nan: "is_finite a \<Longrightarrow> \<not> is_nan a"
  by (cases a) auto

lemma js_extrema_val:
  assumes "is_finite a" "is_finite b"
  shows "is_finite (js_min a b)" "f64_val (js_min a b) = min (f64_val a) (f64_val b)"
    "is_finite (js_max a b)" "f64_val (js_max a b) = max (f64_val a) (f64_val b)"
  using assms
  by (simp_all add: js_min_def js_max_def finite_not_nan feq_val flt_val min_def max_def)

abbreviation ring :: "point list \<Rightarrow> rpoint list" where
  "ring ps \<equiv> map pt ps"

lemma turn_det: "turn a b c = det (pt a) (pt b) (pt c)"
  by (simp add: turn_def det_def pt_def)

lemma polygon_edges_set: "set (polygon_edges ps) = {(ps ! i, ps ! nx (length ps) i) | i. i < length ps}"
  by (auto simp: polygon_edges_def)

lemma side_ring:
  assumes "i < length ps"
  shows "side w (ring ps) i (pt p) = w * turn (ps ! i) (ps ! nx (length ps) i) p"
proof -
  have "nx (length ps) i < length ps" using assms by (intro mod_less_divisor) linarith
  then show ?thesis using assms by (simp add: side_def turn_det)
qed

text \<open>The winding as the code stores it.\<close>

lemma orientation_winding:
  assumes "exact_on robust A" "a \<in> A" "b \<in> A" "c \<in> A" "w = 1 \<or> w = - 1"
  shows "orientation robust a b c = w \<longleftrightarrow> 0 < of_int w * turn a b c" "orientation robust a b c = 0 \<longleftrightarrow> turn a b c = 0"
  using assms(5) by (auto simp: orientation_exact [OF assms(1-4)])

lemma edge_in_set: "i < length ps \<Longrightarrow> ps ! i \<in> set ps \<and> ps ! nx (length ps) i \<in> set ps"
  by (metis length_pos_if_in_set mod_less_divisor nth_mem)

end
