(* ===== verification/ConvexHull.thy ===== *)
theory ConvexHull
  imports HullRing ExactGeometry
begin

text \<open>
  \<open>compute_convex_hull\<close> of \<open>geometry/convex.rs\<close> on finite points where the orientation predicate is
  exact: the boundary of the convex hull, as a strictly convex ring.
\<close>

lemma turn_icross: "turn a b c = icross (pt a) (pt b) (pt c)"
  by (simp add: turn_det det_icross)

lemma finite_pointD: "finite_point p \<Longrightarrow> is_finite (px p) \<and> is_finite (py p)"
  by (simp add: finite_point_def)

lemma same_point_pt: "finite_point p \<Longrightarrow> finite_point q \<Longrightarrow> feq (px p) (px q) \<and> feq (py p) (py q) \<longleftrightarrow> pt p = pt q"
  by (simp add: finite_point_def feq_val pt_def vx_def vy_def)

subsection \<open>Sorting and removing repeats\<close>

lemma hull_point_ordering_eq:
  assumes "p \<in> Collect finite_point" "q \<in> Collect finite_point"
  shows "hull_point_ordering p q = then_with (cmp_of (vx p) (vx q)) (cmp_of (vy p) (vy q))"
  using assms by (auto simp: hull_point_ordering_def finite_point_def feq_val flt_val vx_def vy_def cmp_of_def)

interpretation point_order: comparator "Collect finite_point" hull_point_ordering
  by (rule comparator_cong [OF comparator_then_with [OF comparator_linorder_key comparator_linorder_key]])
    (rule hull_point_ordering_eq)

lemma point_order_before:
  assumes "finite_point p" "finite_point q"
  shows "hull_point_ordering p q \<noteq> Greater \<longleftrightarrow> pt p = pt q \<or> before 1 (pt p) (pt q)"
  using assms
  by (auto simp: hull_point_ordering_eq cmp_simps before_def forward_def vsub_def pt_def)

text \<open>Removing repeats from a sorted list.\<close>

lemma deduplicate_sorted:
  assumes "\<forall>p \<in> set (u @ ps). finite_point p" "sorted_wrt (before 1) (map pt u)"
    and "sorted_wrt (\<lambda>p q. pt p = pt q \<or> before 1 (pt p) (pt q)) ps"
    and "u \<noteq> [] \<Longrightarrow> \<forall>p \<in> set ps. pt p = pt (last u) \<or> before 1 (pt (last u)) (pt p)"
  shows "sorted_wrt (before 1) (map pt (deduplicate_sorted_points u ps)) \<and>
    set (deduplicate_sorted_points u ps) \<subseteq> set (u @ ps) \<and>
    pt ` set (deduplicate_sorted_points u ps) = pt ` set (u @ ps)"
  using assms
proof (induction ps arbitrary: u)
  case (Cons p ps)
  show ?case
  proof (cases "u \<noteq> [] \<and> pt (last u) = pt p")
    case True
    then have "feq (px (last u)) (px p) \<and> feq (py (last u)) (py p)"
      using Cons.prems(1) last_in_set by (intro same_point_pt [THEN iffD2]) auto
    then have step: "deduplicate_sorted_points u (p # ps) = deduplicate_sorted_points u ps" using True by simp
    have "sorted_wrt (before 1) (map pt (deduplicate_sorted_points u ps)) \<and>
      set (deduplicate_sorted_points u ps) \<subseteq> set (u @ ps) \<and>
      pt ` set (deduplicate_sorted_points u ps) = pt ` set (u @ ps)"
      by (rule Cons.IH) (use Cons.prems in auto)
    moreover have "pt p \<in> pt ` set u" using True by (metis image_eqI last_in_set)
    ultimately show ?thesis unfolding step by auto
  next
    case False
    then have "\<not> (u \<noteq> [] \<and> feq (px (last u)) (px p) \<and> feq (py (last u)) (py p))"
      using Cons.prems(1) same_point_pt [of "last u" p] by auto
    then have step: "deduplicate_sorted_points u (p # ps) = deduplicate_sorted_points (u @ [p]) ps" by auto
    have new: "before 1 (pt q) (pt p)" if "q \<in> set u" for q
    proof -
      have u: "u \<noteq> []" using that by auto
      then have lp: "before 1 (pt (last u)) (pt p)" using Cons.prems(4) False by auto
      obtain us where us: "u = us @ [last u]" using u by (metis append_butlast_last_id)
      have "q = last u \<or> before 1 (pt q) (pt (last u))"
        using Cons.prems(2) that by (subst (asm) us, subst (asm) us) (auto simp: sorted_wrt_append)
      then show ?thesis using lp before_trans by metis
    qed
    have "sorted_wrt (before 1) (map pt (deduplicate_sorted_points (u @ [p]) ps)) \<and>
      set (deduplicate_sorted_points (u @ [p]) ps) \<subseteq> set ((u @ [p]) @ ps) \<and>
      pt ` set (deduplicate_sorted_points (u @ [p]) ps) = pt ` set ((u @ [p]) @ ps)"
    proof (rule Cons.IH)
      show "sorted_wrt (before 1) (map pt (u @ [p]))" using Cons.prems(2) new by (auto simp: sorted_wrt_append)
    qed (use Cons.prems in auto)
    then show ?thesis unfolding step by simp
  qed
qed auto

definition unique_sorted :: "point list \<Rightarrow> point list" where
  "unique_sorted ps = deduplicate_sorted_points [] (sort_by hull_point_ordering ps)"

lemma unique_sorted_facts:
  assumes "\<forall>p \<in> set ps. finite_point p"
  shows "sorted_wrt (before 1) (map pt (unique_sorted ps))" "set (unique_sorted ps) \<subseteq> set ps"
    "pt ` set (unique_sorted ps) = pt ` set ps"
proof -
  let ?s = "sort_by hull_point_ordering ps"
  have f: "\<forall>p \<in> set ?s. finite_point p" using assms by simp
  have "sorted_wrt (\<lambda>a b. hull_point_ordering a b \<noteq> Greater) ?s"
    by (rule point_order.sorted_sort_by) (use assms in auto)
  then have "sorted_wrt (\<lambda>p q. pt p = pt q \<or> before 1 (pt p) (pt q)) ?s"
    by (rule sorted_wrt_mono_rel [rotated]) (use f point_order_before in blast)
  from deduplicate_sorted [OF _ _ this, of "[]"] f
  show "sorted_wrt (before 1) (map pt (unique_sorted ps))" "set (unique_sorted ps) \<subseteq> set ps"
    "pt ` set (unique_sorted ps) = pt ` set ps"
    by (simp_all add: unique_sorted_def)
qed

subsection \<open>The chains\<close>

lemma pop_hull_scan:
  assumes "exact_on robust A" "p \<in> A" "set h \<subseteq> A"
  shows "map pt (pop_hull robust p h) = scan_pop (pt p) (map pt h) \<and> set (pop_hull robust p h) \<subseteq> set h"
  using assms
proof (induction robust p h rule: pop_hull.induct)
  case (1 robust p last_point previous_point acc)
  have o: "0 < orientation robust previous_point last_point p \<longleftrightarrow> 0 < icross (pt previous_point) (pt last_point) (pt p)"
    using "1.prems" orientation_exact [OF "1.prems"(1), of previous_point last_point p] by (auto simp: turn_icross)
  show ?case
  proof (cases "0 < icross (pt previous_point) (pt last_point) (pt p)")
    case False
    then have "map pt (pop_hull robust p (previous_point # acc)) = scan_pop (pt p) (map pt (previous_point # acc)) \<and>
        set (pop_hull robust p (previous_point # acc)) \<subseteq> set (previous_point # acc)"
      using "1.IH" o "1.prems" by auto
    then show ?thesis using False o by auto
  qed (use o in simp)
qed simp_all

lemma hull_half_scan:
  "exact_on robust A \<Longrightarrow> set (h @ ps) \<subseteq> A \<Longrightarrow> map pt (hull_half_loop robust h ps) = scan (map pt ps) (map pt h) \<and>
    set (hull_half_loop robust h ps) \<subseteq> set (h @ ps)"
proof (induction ps arbitrary: h)
  case (Cons p ps)
  note pop = pop_hull_scan [OF Cons.prems(1), of p h]
  have s: "map pt (pop_hull robust p h) = scan_pop (pt p) (map pt h)" "set (pop_hull robust p h) \<subseteq> set h"
    using pop Cons.prems(2) by auto
  have "map pt (hull_half_loop robust (p # pop_hull robust p h) ps) = scan (map pt ps) (map pt (p # pop_hull robust p h)) \<and>
      set (hull_half_loop robust (p # pop_hull robust p h) ps) \<subseteq> set ((p # pop_hull robust p h) @ ps)"
    by (rule Cons.IH [OF Cons.prems(1)]) (use s Cons.prems(2) in auto)
  then show ?case using s by auto
qed simp

lemma build_hull_half_scan:
  assumes "exact_on robust (set ps)"
  shows "map pt (build_hull_half robust ps) = rev (scan (map pt ps) [])" "set (build_hull_half robust ps) \<subseteq> set ps"
  using hull_half_scan [OF assms, of "[]" ps] by (simp_all add: build_hull_half_def flip: rev_map)

subsection \<open>The hull\<close>

definition collinear :: "point set \<Rightarrow> bool" where
  "collinear A \<longleftrightarrow> (\<forall>p \<in> A. \<forall>q \<in> A. \<forall>r \<in> A. turn p q r = 0)"

lemma exact_on_subset: "exact_on robust A \<Longrightarrow> B \<subseteq> A \<Longrightarrow> exact_on robust B"
  by (auto simp: exact_on_def)

lemma compute_convex_hull_ring:
  assumes f: "\<forall>p \<in> set ps. finite_point p" and e: "exact_on robust (set ps)" and n: "\<not> collinear (set ps)"
  shows "convex_ring 1 (ring (compute_convex_hull robust ps))"
    "set (compute_convex_hull robust ps) \<subseteq> set ps"
    "p \<in> set ps \<Longrightarrow> in_ring 1 (ring (compute_convex_hull robust ps)) (pt p)"
proof -
  let ?u = "unique_sorted ps"
  note u = unique_sorted_facts [OF f]
  let ?l = "build_hull_half robust ?u" and ?r = "build_hull_half robust (rev ?u)"
  have eu: "exact_on robust (set ?u)" "exact_on robust (set (rev ?u))" using exact_on_subset [OF e u(2)] by simp_all
  note l = build_hull_half_scan [OF eu(1)] and r = build_hull_half_scan [OF eu(2)]
  have P: "set (map pt ?u) = pt ` set ps" "set (rev (map pt ?u)) = pt ` set ps" using u(3) by simp_all
  obtain a b c where abc: "a \<in> pt ` set ps" "b \<in> pt ` set ps" "c \<in> pt ` set ps" "icross a b c \<noteq> 0"
    using n unfolding collinear_def turn_icross by blast
  have len: "2 < length ?u"
  proof (rule ccontr)
    assume "\<not> 2 < length ?u"
    then have "?u = [] \<or> (\<exists>x. ?u = [x]) \<or> (\<exists>x y. ?u = [x, y])"
      by (cases ?u; cases "tl ?u"; cases "tl (tl ?u)") auto
    then have "\<exists>x y. set (map pt ?u) \<subseteq> {pt x, pt y}" by (elim disjE exE) fastforce+
    then obtain x y where "set (map pt ?u) \<subseteq> {x, y}" by blast
    then have "a \<in> {x, y}" "b \<in> {x, y}" "c \<in> {x, y}" using abc P(1) by auto
    then show False using abc(4) by (auto simp: icross_def)
  qed
  have nes: "map pt ?u \<noteq> []" "rev (map pt ?u) \<noteq> []" using len by auto
  have "before 1 (map pt ?u ! 0) (map pt ?u ! (length (map pt ?u) - 1))"
    by (rule sorted_wrt_nth_less [OF u(1)]) (use len in simp_all)
  then have d: "hd (map pt ?u) \<noteq> last (map pt ?u)"
    unfolding hd_conv_nth [OF nes(1)] last_conv_nth [OF nes(1)] by (rule before_neq)
  have s: "sorted_wrt (before (- 1)) (rev (map pt ?u))" using u(1) by (simp add: sorted_wrt_rev before_neg)
  have dr: "hd (rev (map pt ?u)) \<noteq> last (rev (map pt ?u))" using d by (simp add: hd_rev last_rev del: rev_map)
  have r1: "map pt ?r = rev (scan (rev (map pt ?u)) [])" using r(1) by (simp add: rev_map)
  note lo = scan_chain_of [OF _ u(1) d nes(1), unfolded P, folded l(1)]
  note hi = scan_chain_of [OF _ s dr nes(2), unfolded P, folded r1]
  have ends: "last (map pt ?l) = hd (map pt ?r)" "last (map pt ?r) = hd (map pt ?l)"
    using lo(2,3) hi(2,3) by (simp_all add: hd_rev last_rev rev_map [symmetric])
  have h: "compute_convex_hull robust ps = butlast ?l @ butlast ?r"
    using len by (simp add: compute_convex_hull_def unique_sorted_def Let_def)
  then have w: "ring (compute_convex_hull robust ps) = walk_points (map pt ?l) (map pt ?r)"
    by (simp add: walk_points_def map_butlast)
  have lc: "chain_of 1 (pt ` set ps) (map pt ?l)" and rc: "chain_of (- 1) (pt ` set ps) (map pt ?r)"
    using lo(1) hi(1) by simp_all
  note ringed = chains_ring [OF lc rc ends abc]
  show "convex_ring 1 (ring (compute_convex_hull robust ps))" unfolding w by (rule ringed(1))
  show "in_ring 1 (ring (compute_convex_hull robust ps)) (pt p)" if "p \<in> set ps" unfolding w using ringed(2) that by blast
  show "set (compute_convex_hull robust ps) \<subseteq> set ps"
    using h l(2) r(2) u(2) by (auto dest: in_set_butlastD)
qed

end
