(* ===== verification/BoundsIndex.thy ===== *)
theory BoundsIndex
  imports ConvexHull
begin

text \<open>
  The \<open>BoundsIndex\<close> of \<open>nfp_ifp/candidates.rs\<close>: boxes sorted by their left edge with the running maximum of
  the right edges, so that two binary searches bound the range a query has to look at. A slice whose
  start passes its end panics, which is \<open>None\<close>.
\<close>

record 'a index_entry =
  ix_value :: 'a
  ix_bounds :: bounds
  ix_source :: nat

record 'a bounds_index =
  ix_entries :: "'a index_entry list"
  prefix_max_x :: "f64 list"

text \<open>\<open>partial_cmp\<close> with \<open>Equal\<close> for operands that do not compare.\<close>

definition partial_order :: "f64 \<Rightarrow> f64 \<Rightarrow> ordering" where
  "partial_order a b = (if flt a b then Less else if flt b a then Greater else Equal)"

definition compare_bounds_index_entries :: "'a index_entry \<Rightarrow> 'a index_entry \<Rightarrow> ordering" where
  "compare_bounds_index_entries first second =
    then_with (partial_order (min_x (ix_bounds first)) (min_x (ix_bounds second)))
    (then_with (partial_order (max_x (ix_bounds first)) (max_x (ix_bounds second)))
    (then_with (partial_order (min_y (ix_bounds first)) (min_y (ix_bounds second)))
    (then_with (partial_order (max_y (ix_bounds first)) (max_y (ix_bounds second)))
      (cmp_of (ix_source first) (ix_source second)))))"

fun running_max :: "f64 \<Rightarrow> 'a index_entry list \<Rightarrow> f64 list" where
  "running_max current_max_x [] = []"
| "running_max current_max_x (e # es) = (let m = js_max current_max_x (max_x (ix_bounds e)) in m # running_max m es)"

definition numbered :: "('a \<times> bounds) list \<Rightarrow> 'a index_entry list" where
  "numbered entries = map (\<lambda>(i, v, b). \<lparr>ix_value = v, ix_bounds = b, ix_source = i\<rparr>) (zip [0..<length entries] entries)"

definition bounds_index_new :: "('a \<times> bounds) list \<Rightarrow> 'a bounds_index" where
  "bounds_index_new entries = (let sorted = sort_by compare_bounds_index_entries (numbered entries) in
    \<lparr>ix_entries = sorted, prefix_max_x = running_max (Infinity True) sorted\<rparr>)"

text \<open>The binary search both lookups share: \<open>below\<close> says whether the target lies after an index.\<close>

function partition_point :: "(nat \<Rightarrow> bool) \<Rightarrow> nat \<Rightarrow> nat \<Rightarrow> nat" where
  "partition_point below start end_index = (if start < end_index then
     let middle = start + (end_index - start) div 2 in
     if below middle then partition_point below (middle + 1) end_index else partition_point below start middle
   else start)"
  by pat_completeness auto
termination
  by (relation "measure (\<lambda>(below, start, end_index). end_index - start)") auto

declare partition_point.simps [simp del]

definition lower_bound_at_least :: "f64 list \<Rightarrow> f64 \<Rightarrow> nat" where
  "lower_bound_at_least values target = partition_point (\<lambda>i. flt (values ! i) target) 0 (length values)"

definition upper_bound_min_x :: "'a index_entry list \<Rightarrow> f64 \<Rightarrow> nat" where
  "upper_bound_min_x es target = partition_point (\<lambda>i. fle (min_x (ix_bounds (es ! i))) target) 0 (length es)"

text \<open>The slice of entries both operations scan.\<close>

definition query_range :: "'a bounds_index \<Rightarrow> bounds \<Rightarrow> 'a index_entry list option" where
  "query_range index box = (let first_index = lower_bound_at_least (prefix_max_x index) (min_x box);
      end_index = upper_bound_min_x (ix_entries index) (max_x box) in
    if first_index \<le> end_index \<and> end_index \<le> length (ix_entries index)
    then Some (take (end_index - first_index) (drop first_index (ix_entries index))) else None)"

definition index_query :: "'a bounds_index \<Rightarrow> bounds \<Rightarrow> 'a list option" where
  "index_query index box = map_option (\<lambda>es. map ix_value (filter (\<lambda>e. \<not> are_disjoint (ix_bounds e) box) es)) (query_range index box)"

definition index_any_match :: "'a bounds_index \<Rightarrow> bounds \<Rightarrow> ('a \<Rightarrow> bool) \<Rightarrow> bool option" where
  "index_any_match index box predicate =
    map_option (list_ex (\<lambda>e. \<not> are_disjoint (ix_bounds e) box \<and> predicate (ix_value e))) (query_range index box)"

subsection \<open>The binary search\<close>

lemma partition_point_spec:
  assumes "\<And>i j. s \<le> i \<Longrightarrow> i \<le> j \<Longrightarrow> j < e \<Longrightarrow> below j \<Longrightarrow> below i" and "s \<le> e"
  shows "s \<le> partition_point below s e \<and> partition_point below s e \<le> e \<and>
    (\<forall>i \<in> {s..<partition_point below s e}. below i) \<and> (\<forall>i \<in> {partition_point below s e..<e}. \<not> below i)"
  using assms
proof (induction below s e rule: partition_point.induct)
  case (1 below s e)
  let ?m = "s + (e - s) div 2"
  consider "e \<le> s" | "s < e" "below ?m" | "s < e" "\<not> below ?m" by linarith
  then show ?case
  proof cases
    case 1
    then have "partition_point below s e = s" by (subst partition_point.simps) simp
    then show ?thesis using 1 \<open>s \<le> e\<close> by simp
  next
    case 2
    have m: "s \<le> ?m" "?m < e" using 2(1) by auto
    have eq: "partition_point below s e = partition_point below (?m + 1) e"
      using 2 by (subst partition_point.simps) (simp add: Let_def)
    have ih: "?m + 1 \<le> partition_point below (?m + 1) e \<and> partition_point below (?m + 1) e \<le> e \<and>
      (\<forall>i \<in> {?m + 1..<partition_point below (?m + 1) e}. below i) \<and> (\<forall>i \<in> {partition_point below (?m + 1) e..<e}. \<not> below i)"
    proof (rule "1.IH"(1) [OF 2(1) refl 2(2)])
      fix i j assume "?m + 1 \<le> i" "i \<le> j" "j < e" "below j"
      then show "below i" using "1.prems"(1) [of i j] m(1) by linarith
    qed (use m in linarith)
    have "below i" if "s \<le> i" "i \<le> ?m" for i using "1.prems"(1) [OF that m(2) 2(2)] .
    then have "below i" if "i \<in> {s..<partition_point below (?m + 1) e}" for i
      using ih m(2) that by (cases "i \<le> ?m") auto
    then show ?thesis using ih m unfolding eq by auto
  next
    case 3
    have m: "s \<le> ?m" "?m < e" using 3(1) by auto
    have eq: "partition_point below s e = partition_point below s ?m"
      using 3 by (subst partition_point.simps) (simp add: Let_def)
    have ih: "s \<le> partition_point below s ?m \<and> partition_point below s ?m \<le> ?m \<and>
      (\<forall>i \<in> {s..<partition_point below s ?m}. below i) \<and> (\<forall>i \<in> {partition_point below s ?m..<?m}. \<not> below i)"
    proof (rule "1.IH"(2) [OF 3(1) refl 3(2)])
      fix i j assume "s \<le> i" "i \<le> j" "j < ?m" "below j"
      then show "below i" using "1.prems"(1) [of i j] m(2) by linarith
    qed (use m in linarith)
    have "\<not> below i" if "?m \<le> i" "i < e" for i using "1.prems"(1) [OF m(1) that] 3(2) by blast
    then have "\<not> below i" if "i \<in> {partition_point below s ?m..<e}" for i
      using ih that by (cases "?m \<le> i") auto
    then show ?thesis using ih m unfolding eq by auto
  qed
qed

lemma partition_point_all:
  assumes "\<forall>j < n. \<forall>i \<le> j. below j \<longrightarrow> below i"
  shows "partition_point below 0 n \<le> n \<and> (\<forall>i < partition_point below 0 n. below i) \<and>
    (\<forall>i < n. partition_point below 0 n \<le> i \<longrightarrow> \<not> below i)"
proof -
  have "0 \<le> partition_point below 0 n \<and> partition_point below 0 n \<le> n \<and>
    (\<forall>i \<in> {0..<partition_point below 0 n}. below i) \<and> (\<forall>i \<in> {partition_point below 0 n..<n}. \<not> below i)"
    by (rule partition_point_spec) (use assms in blast)+
  then show ?thesis by simp
qed

subsection \<open>Queries\<close>

definition box_ok :: "bounds \<Rightarrow> bool" where
  "box_ok b \<longleftrightarrow> is_finite (min_x b) \<and> is_finite (min_y b) \<and> is_finite (max_x b) \<and> is_finite (max_y b) \<and>
    f64_val (min_x b) \<le> f64_val (max_x b) \<and> f64_val (min_y b) \<le> f64_val (max_y b)"

lemma partial_order_val: "is_finite a \<Longrightarrow> is_finite b \<Longrightarrow> partial_order a b = cmp_of (f64_val a) (f64_val b)"
  by (simp add: partial_order_def flt_val cmp_of_def)

lemma entry_order: "comparator {e. box_ok (ix_bounds e)} compare_bounds_index_entries"
proof (rule comparator_cong)
  show "comparator {e. box_ok (ix_bounds e)} (\<lambda>a b. then_with (cmp_of (f64_val (min_x (ix_bounds a))) (f64_val (min_x (ix_bounds b))))
    (then_with (cmp_of (f64_val (max_x (ix_bounds a))) (f64_val (max_x (ix_bounds b))))
    (then_with (cmp_of (f64_val (min_y (ix_bounds a))) (f64_val (min_y (ix_bounds b))))
    (then_with (cmp_of (f64_val (max_y (ix_bounds a))) (f64_val (max_y (ix_bounds b))))
      (cmp_of (ix_source a) (ix_source b))))))"
    by (intro comparator_then_with comparator_linorder_key)
qed (simp add: compare_bounds_index_entries_def partial_order_val box_ok_def)

interpretation entry_order: comparator "{e. box_ok (ix_bounds e)}" compare_bounds_index_entries
  by (rule entry_order)

lemma numbered_entries:
  "set (map (\<lambda>e. (ix_value e, ix_bounds e)) (numbered es)) = set es" "length (numbered es) = length es"
  "map (\<lambda>e. (ix_value e, ix_bounds e)) (numbered es) = es"
proof -
  have "map (\<lambda>e. (ix_value e, ix_bounds e)) (numbered es) = map snd (zip [0..<length es] es)"
    unfolding numbered_def map_map by (rule map_cong [OF refl]) (simp split: prod.splits)
  also have "\<dots> = es" by simp
  finally show *: "map (\<lambda>e. (ix_value e, ix_bounds e)) (numbered es) = es" .
  then show "set (map (\<lambda>e. (ix_value e, ix_bounds e)) (numbered es)) = set es" by simp
  show "length (numbered es) = length es" by (simp add: numbered_def)
qed

lemma js_max_val: "is_finite b \<Longrightarrow> a = Infinity True \<or> is_finite a \<Longrightarrow>
    is_finite (js_max a b) \<and> f64_val b \<le> f64_val (js_max a b) \<and>
    (is_finite a \<longrightarrow> f64_val a \<le> f64_val (js_max a b)) \<and> (js_max a b = a \<and> is_finite a \<or> f64_val (js_max a b) = f64_val b)"
  by (cases a; cases b) (auto simp: js_max_def)

lemma running_max_spec:
  assumes "\<forall>e \<in> set es. is_finite (max_x (ix_bounds e))" "m = Infinity True \<or> is_finite m"
  shows "length (running_max m es) = length es \<and> (\<forall>i < length es. is_finite (running_max m es ! i) \<and>
    (is_finite m \<longrightarrow> f64_val m \<le> f64_val (running_max m es ! i)) \<and>
    (\<forall>j \<le> i. f64_val (max_x (ix_bounds (es ! j))) \<le> f64_val (running_max m es ! i)) \<and>
    (\<forall>j \<le> i. f64_val (running_max m es ! j) \<le> f64_val (running_max m es ! i)))"
  using assms
proof (induction es arbitrary: m)
  case (Cons e es)
  let ?m = "js_max m (max_x (ix_bounds e))"
  note v = js_max_val [of "max_x (ix_bounds e)" m]
  have fin: "is_finite ?m" using v Cons.prems by auto
  note ih = Cons.IH [of ?m]
  have ih': "length (running_max ?m es) = length es" "\<And>i. i < length es \<Longrightarrow> is_finite (running_max ?m es ! i) \<and>
      f64_val ?m \<le> f64_val (running_max ?m es ! i) \<and>
      (\<forall>j \<le> i. f64_val (max_x (ix_bounds (es ! j))) \<le> f64_val (running_max ?m es ! i)) \<and>
      (\<forall>j \<le> i. f64_val (running_max ?m es ! j) \<le> f64_val (running_max ?m es ! i))"
    using ih fin Cons.prems(1) by auto
  have step: "is_finite ((?m # running_max ?m es) ! i) \<and> (is_finite m \<longrightarrow> f64_val m \<le> f64_val ((?m # running_max ?m es) ! i)) \<and>
    (\<forall>j \<le> i. f64_val (max_x (ix_bounds ((e # es) ! j))) \<le> f64_val ((?m # running_max ?m es) ! i)) \<and>
    (\<forall>j \<le> i. f64_val ((?m # running_max ?m es) ! j) \<le> f64_val ((?m # running_max ?m es) ! i))" if i: "i < length (e # es)" for i
  proof (cases i)
    case 0
    then show ?thesis using v Cons.prems fin by auto
  next
    case (Suc k)
    then have k: "k < length es" using i by simp
    have b: "f64_val (max_x (ix_bounds e)) \<le> f64_val ?m" "is_finite m \<longrightarrow> f64_val m \<le> f64_val ?m" using v Cons.prems by auto
    have "f64_val (max_x (ix_bounds ((e # es) ! j))) \<le> f64_val (running_max ?m es ! k)" if "j \<le> Suc k" for j
      using ih'(2) [OF k] b that by (cases j) auto
    moreover have "f64_val ((?m # running_max ?m es) ! j) \<le> f64_val (running_max ?m es ! k)" if "j \<le> Suc k" for j
      using ih'(2) [OF k] that by (cases j) auto
    ultimately show ?thesis using ih'(2) [OF k] b Suc by auto
  qed
  then show ?case using ih'(1) by (simp add: Let_def)
qed simp

lemma filter_slice:
  assumes "a \<le> b" "b \<le> length es" "\<forall>i < length es. P (es ! i) \<longrightarrow> a \<le> i \<and> i < b"
  shows "filter P (take (b - a) (drop a es)) = filter P es"
proof -
  have es: "es = take a es @ take (b - a) (drop a es) @ drop b es"
    using assms(1) by (metis append_take_drop_id drop_drop le_add_diff_inverse2)
  have "\<not> P (es ! i)" if "i < a" for i
  proof -
    have "i < length es" using assms(1,2) that by linarith
    then show ?thesis using assms(3) that not_le by blast
  qed
  then have "filter P (take a es) = []" by (auto simp: filter_empty_conv in_set_conv_nth)
  moreover have "\<not> P (es ! (b + i))" if "b + i < length es" for i
    using assms(3) that not_add_less1 [of b i] by blast
  then have "filter P (drop b es) = []" using assms(2) by (auto simp: filter_empty_conv in_set_conv_nth)
  ultimately have "filter P (take a es @ take (b - a) (drop a es) @ drop b es) = filter P (take (b - a) (drop a es))" by simp
  then show ?thesis using es by simp
qed

lemma query_range_ok:
  assumes "\<forall>e \<in> set es. box_ok (ix_bounds e)" "sorted_wrt (\<lambda>a b. f64_val (min_x (ix_bounds a)) \<le> f64_val (min_x (ix_bounds b))) es"
    and "box_ok box"
  shows "\<exists>rs. query_range \<lparr>ix_entries = es, prefix_max_x = running_max (Infinity True) es\<rparr> box = Some rs \<and>
    set rs \<subseteq> set es \<and> (\<forall>P. (\<forall>e. P e \<longrightarrow> \<not> are_disjoint (ix_bounds e) box) \<longrightarrow> filter P rs = filter P es)"
proof -
  let ?ms = "running_max (Infinity True) es"
  have "\<forall>e \<in> set es. is_finite (max_x (ix_bounds e))" using assms(1) by (auto simp: box_ok_def)
  from running_max_spec [OF this, of "Infinity True"] have
    len: "length ?ms = length es" and
    max: "i < length es \<Longrightarrow> is_finite (?ms ! i)"
      "i < length es \<Longrightarrow> f64_val (max_x (ix_bounds (es ! i))) \<le> f64_val (?ms ! i)"
      "i < length es \<Longrightarrow> j \<le> i \<Longrightarrow> f64_val (?ms ! j) \<le> f64_val (?ms ! i)" for i j by auto
  have ok: "box_ok (ix_bounds (es ! i))" if "i < length es" for i using assms(1) that by simp
  let ?below = "\<lambda>i. flt (?ms ! i) (min_x box)" and ?upto = "\<lambda>i. fle (min_x (ix_bounds (es ! i))) (max_x box)"
  have below: "?below i \<longleftrightarrow> f64_val (?ms ! i) < f64_val (min_x box)" if "i < length es" for i
    using flt_val [OF max(1) [OF that]] assms(3) by (simp add: box_ok_def)
  have upto: "?upto i \<longleftrightarrow> f64_val (min_x (ix_bounds (es ! i))) \<le> f64_val (max_x box)" if "i < length es" for i
    using ok [OF that] assms(3) by (simp add: box_ok_def fle_val)
  let ?a = "lower_bound_at_least ?ms (min_x box)" and ?b = "upper_bound_min_x es (max_x box)"
  have a: "?a \<le> length es" "\<forall>i. i < ?a \<longrightarrow> ?below i"
  proof -
    have "?below i" if "i \<le> j" "j < length es" "?below j" for i j
      using below [of i] below [of j] max(3) [of j i] that by linarith
    then have "\<forall>j < length es. \<forall>i \<le> j. ?below j \<longrightarrow> ?below i" by blast
    from partition_point_all [OF this] show "?a \<le> length es" "\<forall>i. i < ?a \<longrightarrow> ?below i"
      by (simp_all only: lower_bound_at_least_def len) blast
  qed
  have b: "?b \<le> length es" "\<forall>i. ?b \<le> i \<and> i < length es \<longrightarrow> \<not> ?upto i" "\<forall>i. i < ?b \<longrightarrow> ?upto i"
  proof -
    have mono: "?upto i" if ij: "i \<le> j" "j < length es" "?upto j" for i j
    proof -
      have "f64_val (min_x (ix_bounds (es ! i))) \<le> f64_val (min_x (ix_bounds (es ! j)))"
        using sorted_wrt_nth_less [OF assms(2), of i j] ij by (cases "i = j") auto
      then show "?upto i" using ij upto [of i] upto [of j] by auto
    qed
    then have "\<forall>j < length es. \<forall>i \<le> j. ?upto j \<longrightarrow> ?upto i" by blast
    from partition_point_all [OF this] show "?b \<le> length es" "\<forall>i. ?b \<le> i \<and> i < length es \<longrightarrow> \<not> ?upto i" "\<forall>i. i < ?b \<longrightarrow> ?upto i"
      unfolding upper_bound_min_x_def by blast+
  qed
  have dis_a: "flt (max_x (ix_bounds (es ! i))) (min_x box)" if i: "i < ?a" for i
  proof -
    have "i < length es" using i a(1) by simp
    then show ?thesis using a(2) i below [of i] max(2) [of i] ok [of i] assms(3) by (auto simp: box_ok_def flt_val)
  qed
  have ab: "?a \<le> ?b"
  proof (rule ccontr)
    assume "\<not> ?a \<le> ?b"
    then have lt: "?b < ?a" by simp
    then have n: "?b < length es" using a(1) by simp
    show False using dis_a [OF lt] b(2) [rule_format, of ?b] n upto [OF n] ok [OF n] assms(3) by (auto simp: box_ok_def flt_val)
  qed
  have inside: "?a \<le> i \<and> i < ?b" if i: "i < length es" and "\<not> are_disjoint (ix_bounds (es ! i)) box" for i
  proof (intro conjI)
    show "?a \<le> i" using dis_a [of i] that by (meson are_disjoint_def not_le_imp_less)
    show "i < ?b"
    proof (rule ccontr)
      assume "\<not> i < ?b"
      then have "\<not> ?upto i" using b(2) i by simp
      then show False using upto [OF i] ok [OF i] assms(3) that(2) by (auto simp: are_disjoint_def box_ok_def flt_val)
    qed
  qed
  have "filter P (take (?b - ?a) (drop ?a es)) = filter P es" if "\<forall>e. P e \<longrightarrow> \<not> are_disjoint (ix_bounds e) box" for P
    using ab b(1) inside that by (intro filter_slice) auto
  moreover have "query_range \<lparr>ix_entries = es, prefix_max_x = ?ms\<rparr> box = Some (take (?b - ?a) (drop ?a es))"
    using ab b(1) by (simp add: query_range_def Let_def)
  moreover have "set (take (?b - ?a) (drop ?a es)) \<subseteq> set es" by (meson in_set_takeD in_set_dropD subsetI)
  ultimately show ?thesis by blast
qed

lemma index_sorted:
  assumes "\<forall>(v, b) \<in> set es. box_ok b"
  shows "\<forall>e \<in> set (ix_entries (bounds_index_new es)). box_ok (ix_bounds e)"
    "sorted_wrt (\<lambda>a b. f64_val (min_x (ix_bounds a)) \<le> f64_val (min_x (ix_bounds b))) (ix_entries (bounds_index_new es))"
proof -
  have ok: "\<forall>e \<in> set (numbered es). box_ok (ix_bounds e)"
    using assms numbered_entries(1) [of es] by (auto simp: image_iff split: prod.splits)
  then show 1: "\<forall>e \<in> set (ix_entries (bounds_index_new es)). box_ok (ix_bounds e)"
    by (simp add: bounds_index_new_def Let_def)
  have "sorted_cmp compare_bounds_index_entries (sort_by compare_bounds_index_entries (numbered es))"
    using ok by (intro entry_order.sorted_sort_by) auto
  moreover have "f64_val (min_x (ix_bounds a)) \<le> f64_val (min_x (ix_bounds b))"
    if "compare_bounds_index_entries a b \<noteq> Greater" "box_ok (ix_bounds a)" "box_ok (ix_bounds b)" for a b :: "'a index_entry"
    using that by (auto simp: compare_bounds_index_entries_def partial_order_val box_ok_def cmp_of_def cmp_simps split: if_splits)
  ultimately show "sorted_wrt (\<lambda>a b. f64_val (min_x (ix_bounds a)) \<le> f64_val (min_x (ix_bounds b))) (ix_entries (bounds_index_new es))"
    using 1 by (auto simp: bounds_index_new_def Let_def elim!: sorted_wrt_mono_rel [rotated])
qed

text \<open>
  C38. The bounds index answers exactly. Built from boxes and queried with a box, neither the query nor the
  existential query leaves its slice bounds, the query returns each value whose box meets the queried
  one once per entry and no other, and the existential query tells whether one of them satisfies the
  predicate.
\<close>

theorem bounds_index_exact:
  assumes "\<forall>(v, b) \<in> set es. box_ok b" "box_ok box"
  shows "\<exists>vs. index_query (bounds_index_new es) box = Some vs \<and>
    mset vs = mset (map fst (filter (\<lambda>(v, b). \<not> are_disjoint b box) es)) \<and>
    index_any_match (bounds_index_new es) box predicate = Some (\<exists>v \<in> set vs. predicate v)"
proof -
  let ?es = "ix_entries (bounds_index_new es)"
  let ?P = "\<lambda>e. \<not> are_disjoint (ix_bounds e) box"
  have i: "bounds_index_new es = \<lparr>ix_entries = ?es, prefix_max_x = running_max (Infinity True) ?es\<rparr>"
    by (simp add: bounds_index_new_def Let_def)
  obtain rs where rs: "query_range (bounds_index_new es) box = Some rs" "set rs \<subseteq> set ?es"
      "\<And>P. (\<forall>e. P e \<longrightarrow> ?P e) \<Longrightarrow> filter P rs = filter P ?es"
    using query_range_ok [OF index_sorted [OF assms(1)] assms(2)] unfolding i [symmetric] by blast
  let ?vs = "map ix_value (filter ?P ?es)"
  have q: "index_query (bounds_index_new es) box = Some ?vs" using rs(1) rs(3) [of ?P] by (simp add: index_query_def)
  have "mset ?vs = image_mset ix_value (filter_mset ?P (mset (numbered es)))"
    by (simp add: bounds_index_new_def Let_def mset_filter)
  also have "\<dots> = mset (map ix_value (filter ?P (numbered es)))" by (simp add: mset_filter)
  also have "map ix_value (filter ?P (numbered es)) = map fst (filter (\<lambda>(v, b). \<not> are_disjoint b box)
      (map (\<lambda>e. (ix_value e, ix_bounds e)) (numbered es)))"
    by (simp add: filter_map o_def)
  finally have m: "mset ?vs = mset (map fst (filter (\<lambda>(v, b). \<not> are_disjoint b box) es))" unfolding numbered_entries(3) .
  have "list_ex (\<lambda>e. ?P e \<and> predicate (ix_value e)) rs \<longleftrightarrow> (\<exists>v \<in> set ?vs. predicate v)"
  proof -
    have "set (filter ?P rs) = set (filter ?P ?es)" using rs(3) [of ?P] by simp
    then show ?thesis by (auto simp: list_ex_iff)
  qed
  then have "index_any_match (bounds_index_new es) box predicate = Some (\<exists>v \<in> set ?vs. predicate v)"
    by (simp only: index_any_match_def rs(1) option.map)
  then show ?thesis using q m by blast
qed

lemma bounds_index_exact_witness:
  "\<exists>vs. index_query (bounds_index_new [(1 :: nat, \<lparr>min_x = Finite False 0, min_y = Finite False 0, max_x = Finite False 2, max_y = Finite False 2\<rparr>),
      (2, \<lparr>min_x = Finite False 5, min_y = Finite False 0, max_x = Finite False 7, max_y = Finite False 2\<rparr>)])
      \<lparr>min_x = Finite False 6, min_y = Finite False 1, max_x = Finite False 6, max_y = Finite False 1\<rparr> = Some vs \<and> mset vs = {#2#}"
  using bounds_index_exact [of "[(1 :: nat, \<lparr>min_x = Finite False 0, min_y = Finite False 0, max_x = Finite False 2, max_y = Finite False 2\<rparr>),
      (2, \<lparr>min_x = Finite False 5, min_y = Finite False 0, max_x = Finite False 7, max_y = Finite False 2\<rparr>)]"
      "\<lparr>min_x = Finite False 6, min_y = Finite False 1, max_x = Finite False 6, max_y = Finite False 1\<rparr>"]
  by (auto simp: box_ok_def are_disjoint_def)

end
