(* ===== verification/SpatialIndex.thy ===== *)
theory SpatialIndex
  imports Domain "HOL-Library.AList"
begin

text \<open>
  \<open>crates/polygon-nesting-core/src/validation/spatial_index.rs\<close>: the persistent uniform grid over the
  translated collision polygons of placed pieces. A hash map is an association list without
  repeated keys; nothing the code does depends on its iteration order. \<open>Arc::ptr_eq\<close> is equality of
  addresses.
\<close>

definition DEFAULT_PLACED_COLLISION_GRID_CELL_SIZE_MM :: f64 where
  "DEFAULT_PLACED_COLLISION_GRID_CELL_SIZE_MM = lit 64"

definition MAX_GRID_CELLS_PER_ENTRY :: int where "MAX_GRID_CELLS_PER_ENTRY = 4096"
definition MAX_GRID_CELLS_PER_QUERY :: int where "MAX_GRID_CELLS_PER_QUERY = 4096"

definition JS_MAX_SAFE_INTEGER :: f64 where "JS_MAX_SAFE_INTEGER = lit 9007199254740991"

record indexed_placed_collision_polygon =
  indexed_polygon :: polygon_with_bounds
  indexed_winding :: int

datatype placed_collision_validation =
  Validation_Valid indexed_placed_collision_polygon | Validation_Invalid string

fun validation_bounds :: "placed_collision_validation \<Rightarrow> bounds option" where
  "validation_bounds (Validation_Valid v) = Some (pwb_bounds (indexed_polygon v))"
| "validation_bounds (Validation_Invalid message) = None"

record spatial_entry =
  entry_placed :: arc
  entry_validation :: placed_collision_validation
  entry_ordinal :: nat

record spatial_index =
  cell_size_mm :: f64
  index_entries :: "spatial_entry list"
  buckets :: "(string \<times> spatial_entry list) list"
  fallback_entries :: "spatial_entry list"

definition valid_cell_size :: "f64 \<Rightarrow> f64" where
  "valid_cell_size cell_mm =
    (if is_finite cell_mm \<and> flt f64_zero cell_mm then cell_mm else DEFAULT_PLACED_COLLISION_GRID_CELL_SIZE_MM)"

definition make_empty_placed_collision_spatial_index :: "f64 option \<Rightarrow> spatial_index" where
  "make_empty_placed_collision_spatial_index cell_mm = \<lparr>
    cell_size_mm = valid_cell_size (case cell_mm of None \<Rightarrow> DEFAULT_PLACED_COLLISION_GRID_CELL_SIZE_MM | Some s \<Rightarrow> s),
    index_entries = [], buckets = [], fallback_entries = []\<rparr>"

definition make_entry :: "robust \<Rightarrow> pieces_at \<Rightarrow> arc \<Rightarrow> nat \<Rightarrow> spatial_entry" where
  "make_entry robust heap placed ordinal =
    (let t = placement_transform (piece_placement (heap placed));
         translation = \<lparr>px = translate_x t, py = translate_y t\<rparr>
     in case translate_polygon_with_bounds (collision_polygon (piece_collision_geometry (heap placed))) translation of
         None \<Rightarrow> \<lparr>entry_placed = placed,
           entry_validation = Validation_Invalid ''placed translation must produce finite polygon coordinates.'',
           entry_ordinal = ordinal\<rparr>
       | Some moved \<Rightarrow> (case validate_strict_boundary robust (pwb_polygon moved) of
           Invalid message \<Rightarrow> \<lparr>entry_placed = placed, entry_validation = Validation_Invalid message, entry_ordinal = ordinal\<rparr>
         | Valid winding \<Rightarrow> \<lparr>entry_placed = placed,
             entry_validation = Validation_Valid \<lparr>indexed_polygon = moved, indexed_winding = winding\<rparr>,
             entry_ordinal = ordinal\<rparr>))"

definition is_js_safe_integer :: "f64 \<Rightarrow> bool" where
  "is_js_safe_integer v \<longleftrightarrow> is_finite v \<and> feq (ffract v) f64_zero \<and> fle (fabs v) JS_MAX_SAFE_INTEGER"

record grid_cell_range =
  cell_min_x :: int
  cell_min_y :: int
  cell_max_x :: int
  cell_max_y :: int

definition grid_cell_range_of :: "bounds \<Rightarrow> f64 \<Rightarrow> int \<Rightarrow> grid_cell_range option" where
  "grid_cell_range_of b cell_mm maximum_cell_count =
    (if \<not> is_finite (min_x b) \<or> \<not> is_finite (min_y b) \<or> \<not> is_finite (max_x b) \<or> \<not> is_finite (max_y b) \<or>
        flt (max_x b) (min_x b) \<or> flt (max_y b) (min_y b)
     then None
     else let x0 = ffloor (fdiv (min_x b) cell_mm); y0 = ffloor (fdiv (min_y b) cell_mm);
              x1 = ffloor (fdiv (max_x b) cell_mm); y1 = ffloor (fdiv (max_y b) cell_mm);
              width = fadd (fsub x1 x0) (lit 1); height = fadd (fsub y1 y0) (lit 1);
              cell_count = fmul width height
       in if \<not> is_js_safe_integer x0 \<or> \<not> is_js_safe_integer y0 \<or> \<not> is_js_safe_integer x1 \<or>
             \<not> is_js_safe_integer y1 \<or> \<not> is_js_safe_integer width \<or> \<not> is_js_safe_integer height \<or>
             \<not> is_js_safe_integer cell_count \<or> flt cell_count (lit 1) \<or> flt (lit (of_int maximum_cell_count)) cell_count
          then None
          else Some \<lparr>cell_min_x = as_i64 x0, cell_min_y = as_i64 y0, cell_max_x = as_i64 x1, cell_max_y = as_i64 y1\<rparr>)"

definition cell_key :: "int \<times> int \<Rightarrow> string" where
  "cell_key c = dec_int (fst c) @ '':'' @ dec_int (snd c)"

definition range_cells :: "grid_cell_range \<Rightarrow> (int \<times> int) list" where
  "range_cells r = concat (map (\<lambda>x. map (\<lambda>y. (x, y)) [cell_min_y r..cell_max_y r]) [cell_min_x r..cell_max_x r])"

definition push_bucket :: "spatial_entry \<Rightarrow> int \<times> int \<Rightarrow> (string \<times> spatial_entry list) list \<Rightarrow> (string \<times> spatial_entry list) list" where
  "push_bucket entry cell bs = (let key = cell_key cell;
     bucket = (case map_of bs key of None \<Rightarrow> [] | Some existing \<Rightarrow> existing)
   in AList.update key (bucket @ [entry]) bs)"

definition add_entry :: "robust \<Rightarrow> pieces_at \<Rightarrow> spatial_index \<Rightarrow> arc \<Rightarrow> spatial_index" where
  "add_entry robust heap index placed =
    (let entry = make_entry robust heap placed (length (index_entries index));
         cell_range = Option.bind (validation_bounds (entry_validation entry))
           (\<lambda>b. grid_cell_range_of b (cell_size_mm index) MAX_GRID_CELLS_PER_ENTRY);
         added = index\<lparr>index_entries := index_entries index @ [entry]\<rparr>
     in case cell_range of
         None \<Rightarrow> added\<lparr>fallback_entries := fallback_entries index @ [entry]\<rparr>
       | Some r \<Rightarrow> added\<lparr>buckets := fold (push_bucket entry) (range_cells r) (buckets index)\<rparr>)"

definition make_placed_collision_spatial_index :: "robust \<Rightarrow> pieces_at \<Rightarrow> arc list \<Rightarrow> f64 option \<Rightarrow> spatial_index" where
  "make_placed_collision_spatial_index robust heap placed cell_mm =
    foldl (add_entry robust heap) (make_empty_placed_collision_spatial_index cell_mm) placed"

text \<open>\<open>Arc::ptr_eq\<close>, element by element.\<close>

definition index_matches :: "spatial_index \<Rightarrow> arc list \<Rightarrow> bool" where
  "index_matches index placed \<longleftrightarrow> (if length placed \<noteq> length (index_entries index) then False
    else list_all (\<lambda>(placed_piece, entry). placed_piece = entry_placed entry) (zip placed (index_entries index)))"

text \<open>The bitmap over ordinals; \<open>None\<close> is the panic of an ordinal outside it.\<close>

fun select :: "spatial_entry list \<Rightarrow> bool list \<Rightarrow> bool list option" where
  "select [] selected = Some selected"
| "select (e # es) selected =
    (if entry_ordinal e < length selected then select es (selected[entry_ordinal e := True]) else None)"

fun select_cells :: "spatial_index \<Rightarrow> (int \<times> int) list \<Rightarrow> bool list \<Rightarrow> bool list option" where
  "select_cells index [] selected = Some selected"
| "select_cells index (cell # cells) selected =
    (case map_of (buckets index) (cell_key cell) of
       None \<Rightarrow> select_cells index cells selected
     | Some bucket \<Rightarrow> Option.bind (select bucket selected) (select_cells index cells))"

definition query_selected :: "spatial_index \<Rightarrow> bounds option \<Rightarrow> bool list option" where
  "query_selected index query_bounds =
    Option.bind (select (fallback_entries index) (replicate (length (index_entries index)) False)) (\<lambda>selected.
      case Option.bind query_bounds (\<lambda>b. grid_cell_range_of b (cell_size_mm index) MAX_GRID_CELLS_PER_QUERY) of
        None \<Rightarrow> select (index_entries index) selected
      | Some r \<Rightarrow> select_cells index (range_cells r) selected)"

definition entry_kept :: "bool list \<Rightarrow> bounds option \<Rightarrow> spatial_entry \<Rightarrow> bool" where
  "entry_kept selected query_bounds entry = (case entry_validation entry of
       Validation_Invalid message \<Rightarrow> selected ! entry_ordinal entry
     | Validation_Valid v \<Rightarrow> selected ! entry_ordinal entry \<and>
         (case query_bounds of None \<Rightarrow> True | Some b \<Rightarrow> \<not> are_disjoint (pwb_bounds (indexed_polygon v)) b))"

definition query_refs :: "spatial_index \<Rightarrow> bounds option \<Rightarrow> spatial_entry list option" where
  "query_refs index query_bounds =
    Option.bind (query_selected index query_bounds) (\<lambda>selected.
      if list_all (\<lambda>entry. entry_ordinal entry < length selected) (index_entries index)
      then Some (filter (entry_kept selected query_bounds) (index_entries index)) else None)"

definition query :: "spatial_index \<Rightarrow> bounds option \<Rightarrow> spatial_entry list option" where
  "query index query_bounds = query_refs index query_bounds"

end
