(* ===== verification/Placement.thy ===== *)
theory Placement
  imports SpatialIndex
begin

text \<open>
  \<open>crates/polygon-nesting-core/src/validation/placement.rs\<close>: the legality of a candidate placement,
  inside the sheet and without positive-area overlap with the placed collision polygons.
\<close>

subsection \<open>Data\<close>

record geometry_input_error =
  error_operation :: string
  error_message :: string

record placement_assessment =
  legal :: bool
  assessment_message :: string

datatype assess_placement_outcome = Assessment placement_assessment | Assess_Failure geometry_input_error

record assess_placement_input =
  input_sheet :: "domain_sheet option"
  input_placed :: "arc list"
  placed_collision_index :: "spatial_index option"
  moving :: transformed_collision_geometry
  candidate_point :: point

record validated_polygon =
  validated_points :: polygon
  validated_bounds :: bounds
  validated_winding :: int

definition invalid_geometry_failure :: "string \<Rightarrow> geometry_input_error" where
  "invalid_geometry_failure message = \<lparr>error_operation = ''validatePlacement'', error_message = message\<rparr>"

subsection \<open>Overlap of two polygons\<close>

definition is_inside_sheet :: "point list \<Rightarrow> f64 \<Rightarrow> f64 \<Rightarrow> bool" where
  "is_inside_sheet ps sheet_w sheet_h = list_all (\<lambda>p.
    fle f64_zero (px p) \<and> fle (px p) sheet_w \<and> fle f64_zero (py p) \<and> fle (py p) sheet_h) ps"

definition is_strictly_inside :: "robust \<Rightarrow> point \<Rightarrow> polygon \<Rightarrow> int \<Rightarrow> bool" where
  "is_strictly_inside robust p ps winding = list_all (\<lambda>(s, e).
    let turn = orientation robust s e p in \<not> (turn = 0 \<or> turn \<noteq> winding)) (polygon_edges ps)"

definition is_on_boundary :: "robust \<Rightarrow> point \<Rightarrow> polygon \<Rightarrow> bool" where
  "is_on_boundary robust p ps = list_ex (\<lambda>(s, e).
    orientation robust s e p = 0 \<and> point_is_on_segment p (s, e)) (polygon_edges ps)"

definition edges_cross :: "robust \<Rightarrow> edge \<Rightarrow> edge \<Rightarrow> bool" where
  "edges_cross robust first second =
    (let first_start_turn = orientation robust (fst first) (snd first) (fst second);
         first_end_turn = orientation robust (fst first) (snd first) (snd second);
         second_start_turn = orientation robust (fst second) (snd second) (fst first);
         second_end_turn = orientation robust (fst second) (snd second) (snd first)
     in if first_start_turn = 0 \<or> first_end_turn = 0 \<or> second_start_turn = 0 \<or> second_end_turn = 0 then False
        else first_start_turn \<noteq> first_end_turn \<and> second_start_turn \<noteq> second_end_turn)"

definition boundaries_have_proper_crossing :: "robust \<Rightarrow> polygon \<Rightarrow> polygon \<Rightarrow> bool" where
  "boundaries_have_proper_crossing robust first second =
    list_ex (\<lambda>e. list_ex (edges_cross robust e) (polygon_edges second)) (polygon_edges first)"

definition INTERIOR_POINT_MESSAGE :: string where
  "INTERIOR_POINT_MESSAGE = ''polygon interior-point arithmetic must produce finite coordinates.''"

fun interior_point_loop :: "f64 \<Rightarrow> point list \<Rightarrow> point \<Rightarrow> string + point" where
  "interior_point_loop weight [] acc = Inr acc"
| "interior_point_loop weight (p # ps) acc =
    (let weighted_x = fmul (px p) weight; weighted_y = fmul (py p) weight in
     if \<not> is_finite weighted_x \<or> \<not> is_finite weighted_y then Inl INTERIOR_POINT_MESSAGE
     else let x = fadd (px acc) weighted_x; y = fadd (py acc) weighted_y in
       if \<not> is_finite x \<or> \<not> is_finite y then Inl INTERIOR_POINT_MESSAGE
       else interior_point_loop weight ps \<lparr>px = x, py = y\<rparr>)"

definition strict_convex_interior_point :: "polygon \<Rightarrow> string + point" where
  "strict_convex_interior_point ps =
    (let weight = fdiv (lit 1) (lit (of_nat (length ps))) in
     if \<not> is_finite weight then Inl INTERIOR_POINT_MESSAGE
     else interior_point_loop weight ps \<lparr>px = Finite False 0, py = Finite False 0\<rparr>)"

definition segments_have_positive_length_overlap :: "edge \<Rightarrow> edge \<Rightarrow> bool" where
  "segments_have_positive_length_overlap first second =
    (let use_x = fle (fabs (fsub (py (snd first)) (py (fst first)))) (fabs (fsub (px (snd first)) (px (fst first))));
         c = (if use_x then px else py);
         first_start = c (fst first); first_end = c (snd first);
         second_start = c (fst second); second_end = c (snd second)
     in flt (js_max (js_min first_start first_end) (js_min second_start second_end))
          (js_min (js_max first_start first_end) (js_max second_start second_end)))"

text \<open>One pair of edges: \<open>Inl\<close> is the error, \<open>Inr None\<close> a \<open>continue\<close> or the end of the body.\<close>

definition collinear_overlap_pair :: "robust \<Rightarrow> polygon \<Rightarrow> int \<Rightarrow> edge \<Rightarrow> edge \<Rightarrow> string + bool" where
  "collinear_overlap_pair robust second first_winding first_edge second_edge =
    (if orientation robust (fst first_edge) (snd first_edge) (fst second_edge) \<noteq> 0 \<or>
        orientation robust (fst first_edge) (snd first_edge) (snd second_edge) \<noteq> 0 then Inr False
     else if \<not> segments_have_positive_length_overlap first_edge second_edge then Inr False
     else case find (\<lambda>p. orientation robust (fst first_edge) (snd first_edge) p \<noteq> 0) second of
         None \<Rightarrow> Inl ''polygon interior side arithmetic must produce a finite classification.''
       | Some second_interior_point \<Rightarrow>
           Inr (orientation robust (fst first_edge) (snd first_edge) second_interior_point = first_winding))"

fun first_true :: "('a \<Rightarrow> string + bool) \<Rightarrow> 'a list \<Rightarrow> string + bool" where
  "first_true f [] = Inr False"
| "first_true f (x # xs) = and_then (f x) (\<lambda>b. if b then Inr True else first_true f xs)"

definition boundaries_have_positive_collinear_overlap :: "robust \<Rightarrow> polygon \<Rightarrow> polygon \<Rightarrow> int \<Rightarrow> string + bool" where
  "boundaries_have_positive_collinear_overlap robust first second first_winding =
    first_true (\<lambda>first_edge. first_true (collinear_overlap_pair robust second first_winding first_edge)
      (polygon_edges second)) (polygon_edges first)"

definition polygons_have_positive_area_overlap :: "robust \<Rightarrow> validated_polygon \<Rightarrow> validated_polygon \<Rightarrow> string + bool" where
  "polygons_have_positive_area_overlap robust first second =
    (if are_disjoint (validated_bounds first) (validated_bounds second) then Inr False
     else if list_ex (\<lambda>p. is_strictly_inside robust p (validated_points second) (validated_winding second)) (validated_points first)
       then Inr True
     else if list_ex (\<lambda>p. is_strictly_inside robust p (validated_points first) (validated_winding first)) (validated_points second)
       then Inr True
     else if boundaries_have_proper_crossing robust (validated_points first) (validated_points second) then Inr True
     else and_then (strict_convex_interior_point (validated_points first)) (\<lambda>first_interior_point.
       and_then (strict_convex_interior_point (validated_points second)) (\<lambda>second_interior_point.
       if is_strictly_inside robust first_interior_point (validated_points second) (validated_winding second) \<or>
          is_strictly_inside robust second_interior_point (validated_points first) (validated_winding first) then Inr True
       else and_then (boundaries_have_positive_collinear_overlap robust (validated_points first) (validated_points second)
           (validated_winding first)) (\<lambda>overlap.
         if overlap then Inr True
         else Inr (list_all (\<lambda>p. is_on_boundary robust p (validated_points second)) (validated_points first) \<and>
           list_all (\<lambda>p. is_on_boundary robust p (validated_points first)) (validated_points second))))))"

subsection \<open>The assessment\<close>

definition translate_and_validate_polygon :: "robust \<Rightarrow> polygon \<Rightarrow> point \<Rightarrow> string \<Rightarrow> string + validated_polygon" where
  "translate_and_validate_polygon robust polygon translation label =
    (case translate_polygon_with_bounds polygon translation of
       None \<Rightarrow> Inl (label @ '' translation must produce finite polygon coordinates.'')
     | Some moved \<Rightarrow> (case validate_strict_boundary robust (pwb_polygon moved) of
         Invalid message \<Rightarrow> Inl message
       | Valid winding \<Rightarrow> Inr \<lparr>validated_points = pwb_polygon moved, validated_bounds = pwb_bounds moved,
           validated_winding = winding\<rparr>))"

fun collect_entries :: "spatial_entry list \<Rightarrow> string + validated_polygon list" where
  "collect_entries [] = Inr []"
| "collect_entries (e # es) = (case entry_validation e of
     Validation_Invalid message \<Rightarrow> Inl message
   | Validation_Valid v \<Rightarrow> and_then (collect_entries es) (\<lambda>ps. Inr (\<lparr>validated_points = pwb_polygon (indexed_polygon v),
       validated_bounds = pwb_bounds (indexed_polygon v), validated_winding = indexed_winding v\<rparr> # ps)))"

fun collect_placed :: "robust \<Rightarrow> pieces_at \<Rightarrow> arc list \<Rightarrow> string + validated_polygon list" where
  "collect_placed robust heap [] = Inr []"
| "collect_placed robust heap (placed # rest) =
    (let t = placement_transform (piece_placement (heap placed)) in
     and_then (translate_and_validate_polygon robust (collision_polygon (piece_collision_geometry (heap placed)))
       \<lparr>px = translate_x t, py = translate_y t\<rparr> ''placed'') (\<lambda>p.
     and_then (collect_placed robust heap rest) (\<lambda>ps. Inr (p # ps))))"

definition illegal :: "string \<Rightarrow> assess_placement_outcome" where
  "illegal message = Assessment \<lparr>legal = False, assessment_message = message\<rparr>"

fun overlap_loop :: "robust \<Rightarrow> validated_polygon \<Rightarrow> validated_polygon list \<Rightarrow> assess_placement_outcome" where
  "overlap_loop robust moving_polygon [] = Assessment \<lparr>legal = True, assessment_message = ''''\<rparr>"
| "overlap_loop robust moving_polygon (p # ps) = (case polygons_have_positive_area_overlap robust moving_polygon p of
     Inl message \<Rightarrow> Assess_Failure (invalid_geometry_failure message)
   | Inr True \<Rightarrow> illegal ''moving polygon has positive-area overlap with placed collision geometry.''
   | Inr False \<Rightarrow> overlap_loop robust moving_polygon ps)"

text \<open>The placed polygons, through the index when it matches; the outer \<open>None\<close> is a panic of the index.\<close>

definition placed_polygons :: "robust \<Rightarrow> pieces_at \<Rightarrow> assess_placement_input \<Rightarrow> bounds \<Rightarrow> (string + validated_polygon list) option" where
  "placed_polygons robust heap input moving_bounds =
    (case placed_collision_index input of
       Some index \<Rightarrow> if index_matches index (input_placed input)
         then map_option collect_entries (query_refs index (Some moving_bounds))
         else Some (collect_placed robust heap (input_placed input))
     | None \<Rightarrow> Some (collect_placed robust heap (input_placed input)))"

definition assess_placement :: "robust \<Rightarrow> pieces_at \<Rightarrow> assess_placement_input \<Rightarrow> bool \<Rightarrow> assess_placement_outcome option" where
  "assess_placement robust heap input enforce_sheet_bounds =
    (case translate_and_validate_polygon robust (collision_polygon (moving input)) (candidate_point input) ''moving'' of
       Inl message \<Rightarrow> Some (Assess_Failure (invalid_geometry_failure message))
     | Inr moving_polygon \<Rightarrow> map_option (\<lambda>placed. case placed of
           Inl message \<Rightarrow> Assess_Failure (invalid_geometry_failure message)
         | Inr polygons \<Rightarrow>
             if enforce_sheet_bounds \<and> (case input_sheet input of None \<Rightarrow> False
                 | Some s \<Rightarrow> \<not> is_inside_sheet (validated_points moving_polygon) (domain_sheet_width s) (domain_sheet_height s))
             then illegal ''moving polygon must remain inside the sheet.''
             else overlap_loop robust moving_polygon polygons)
         (placed_polygons robust heap input (validated_bounds moving_polygon)))"

definition outcome_check :: "assess_placement_outcome \<Rightarrow> geometry_input_error + bool" where
  "outcome_check outcome = (case outcome of Assessment a \<Rightarrow> Inr (legal a) | Assess_Failure e \<Rightarrow> Inl e)"

definition check :: "robust \<Rightarrow> pieces_at \<Rightarrow> assess_placement_input \<Rightarrow> (geometry_input_error + bool) option" where
  "check robust heap input = map_option outcome_check (assess_placement robust heap input True)"

definition check_sheetless :: "robust \<Rightarrow> pieces_at \<Rightarrow> assess_placement_input \<Rightarrow> (geometry_input_error + bool) option" where
  "check_sheetless robust heap input = map_option outcome_check (assess_placement robust heap input False)"

definition validate_placement :: "robust \<Rightarrow> pieces_at \<Rightarrow> assess_placement_input \<Rightarrow> (geometry_input_error + unit) option" where
  "validate_placement robust heap input = map_option (\<lambda>outcome. case outcome of
      Assessment a \<Rightarrow> if legal a then Inr ()
        else Inl \<lparr>error_operation = ''validatePlacement'', error_message = assessment_message a\<rparr>
    | Assess_Failure e \<Rightarrow> Inl e) (assess_placement robust heap input True)"

end
