(* ===== verification/Candidates.thy ===== *)
theory Candidates
  imports NfpCache BoundsIndex Placement
begin

unbundle bit_operations_syntax

text \<open>
  \<open>nfp_ifp/candidates.rs\<close>: the contact candidates of one moving piece against the placed ones, and their
  admission. A computation threads the geometry store, the caller's control, the point set and the
  provenance; it may end in an error, and \<open>None\<close> is a panic. The control is opaque: its \<open>poll\<close> is a
  parameter. The candidate telemetry, which nothing reads, is left out.
\<close>

subsection \<open>Control and errors\<close>

datatype nfp_ifp_checkpoint_phase =
    Phase_Ifp
  | Phase_Placed_Nfp
  | Phase_Ifp_Boundary_Intersection
  | Phase_Pairwise_Nfp_Boundary_Intersection
  | Phase_Candidate_Points

datatype nfp_ifp_abort_reason = Abort_Deadline | Abort_Cancelled

record nfp_ifp_control_abort_error =
  abort_reason :: nfp_ifp_abort_reason
  abort_message :: string

datatype nfp_ifp_error = Nfp_Geometry geometry_input_error | Nfp_Abort nfp_ifp_control_abort_error

datatype nfp_candidate_pruning_mode = Pruning_Indexed | Pruning_Reference

datatype candidate_domain = Domain_Sheet | Domain_Contact_Only | Domain_Sheetless_Nfp

definition invalid_geometry :: "string \<Rightarrow> string \<Rightarrow> geometry_input_error" where
  "invalid_geometry operation message = \<lparr>error_operation = operation, error_message = message\<rparr>"

subsection \<open>Sources and provenance\<close>

datatype nfp_ifp_candidate_source =
    From_Ifp_Corner
  | From_Nfp_Vertex
  | From_Antiparallel_Edge_Support
  | From_Ifp_Nfp_Intersection
  | From_Nfp_Nfp_Intersection

type_synonym u32 = "32 word"

fun source_bit :: "nfp_ifp_candidate_source \<Rightarrow> u32" where
  "source_bit From_Ifp_Corner = 1"
| "source_bit From_Nfp_Vertex = 2"
| "source_bit From_Antiparallel_Edge_Support = 4"
| "source_bit From_Ifp_Nfp_Intersection = 8"
| "source_bit From_Nfp_Nfp_Intersection = 16"

record raw_by_source =
  raw_ifp_corner :: u32
  raw_nfp_vertex :: u32
  raw_antiparallel_edge_support :: u32
  raw_ifp_nfp_intersection :: u32
  raw_nfp_nfp_intersection :: u32

fun raw_increment :: "nfp_ifp_candidate_source \<Rightarrow> raw_by_source \<Rightarrow> raw_by_source" where
  "raw_increment From_Ifp_Corner r = r\<lparr>raw_ifp_corner := raw_ifp_corner r + 1\<rparr>"
| "raw_increment From_Nfp_Vertex r = r\<lparr>raw_nfp_vertex := raw_nfp_vertex r + 1\<rparr>"
| "raw_increment From_Antiparallel_Edge_Support r =
    r\<lparr>raw_antiparallel_edge_support := raw_antiparallel_edge_support r + 1\<rparr>"
| "raw_increment From_Ifp_Nfp_Intersection r = r\<lparr>raw_ifp_nfp_intersection := raw_ifp_nfp_intersection r + 1\<rparr>"
| "raw_increment From_Nfp_Nfp_Intersection r = r\<lparr>raw_nfp_nfp_intersection := raw_nfp_nfp_intersection r + 1\<rparr>"

record mutable_candidate_provenance =
  acc_raw_by_source :: raw_by_source
  acc_outside_ifp :: u32
  acc_nfp_interior_rejected :: u32
  acc_live_convex_rejected :: u32
  acc_live_convex_legal :: u32

definition provenance_default :: mutable_candidate_provenance where
  "provenance_default = \<lparr>acc_raw_by_source = \<lparr>raw_ifp_corner = 0, raw_nfp_vertex = 0, raw_antiparallel_edge_support = 0,
     raw_ifp_nfp_intersection = 0, raw_nfp_nfp_intersection = 0\<rparr>, acc_outside_ifp = 0, acc_nfp_interior_rejected = 0,
   acc_live_convex_rejected = 0, acc_live_convex_legal = 0\<rparr>"

text \<open>A hash map from keys to masks as the list of its entries; \<open>entry(key).or_insert(0) |= mask\<close>.\<close>

fun merge_mask :: "'k \<Rightarrow> u32 \<Rightarrow> ('k \<times> u32) list \<Rightarrow> ('k \<times> u32) list" where
  "merge_mask key bits [] = [(key, bits)]"
| "merge_mask key bits ((k, m) # rest) = (if k = key then (k, m OR bits) # rest else (k, m) # merge_mask key bits rest)"

type_synonym point_key = "f64 \<times> f64"

record canonical_point_set =
  set_keys :: "point_key set"
  set_points :: "point list"
  set_source_masks :: "(point_key \<times> u32) list"

definition point_set_new :: canonical_point_set where
  "point_set_new = \<lparr>set_keys = {}, set_points = [], set_source_masks = []\<rparr>"

text \<open>The bit patterns of the coordinates: equal exactly when the floats are, a NaN aside.\<close>

definition point_key :: "point \<Rightarrow> point_key" where
  "point_key p = (px p, py p)"

definition is_inside_bounds :: "point \<Rightarrow> bounds \<Rightarrow> bool" where
  "is_inside_bounds p b \<longleftrightarrow> fle (min_x b) (px p) \<and> fle (px p) (max_x b) \<and> fle (min_y b) (py p) \<and> fle (py p) (max_y b)"

definition add_point :: "point \<Rightarrow> bounds option \<Rightarrow> nfp_ifp_candidate_source \<Rightarrow>
    canonical_point_set \<times> mutable_candidate_provenance option \<Rightarrow> canonical_point_set \<times> mutable_candidate_provenance option" where
  "add_point p candidate_bounds source s =
    (let (cps, provenance) = s;
         provenance1 = map_option (\<lambda>a. a\<lparr>acc_raw_by_source := raw_increment source (acc_raw_by_source a)\<rparr>) provenance;
         canonical_point = \<lparr>px = fold_negative_zero (px p), py = fold_negative_zero (py p)\<rparr>;
         outside = (case candidate_bounds of None \<Rightarrow> False | Some b \<Rightarrow> \<not> is_inside_bounds canonical_point b);
         key = point_key canonical_point; source_mask = source_bit source
     in if outside then (cps, map_option (\<lambda>a. a\<lparr>acc_outside_ifp := acc_outside_ifp a + 1\<rparr>) provenance1)
        else if key \<in> set_keys cps
        then (cps\<lparr>set_source_masks := merge_mask key source_mask (set_source_masks cps)\<rparr>, provenance1)
        else (cps\<lparr>set_keys := insert key (set_keys cps),
                set_source_masks := set_source_masks cps @ [(key, source_mask)],
                set_points := set_points cps @ [canonical_point]\<rparr>, provenance1))"

definition add_points :: "point list \<Rightarrow> bounds option \<Rightarrow> nfp_ifp_candidate_source \<Rightarrow>
    canonical_point_set \<times> mutable_candidate_provenance option \<Rightarrow> canonical_point_set \<times> mutable_candidate_provenance option" where
  "add_points ps candidate_bounds source s = foldl (\<lambda>t p. add_point p candidate_bounds source t) s ps"

record source_mask_count =
  count_source_mask :: u32
  mask_count :: u32

record nfp_ifp_legal_candidate_source =
  legal_grid_x :: int
  legal_grid_y :: int
  legal_source_mask :: u32

record nfp_ifp_candidate_provenance =
  out_raw_by_source :: raw_by_source
  unique_by_source_mask :: "source_mask_count list"
  outside_ifp :: u32
  nfp_interior_rejected :: u32
  live_convex_rejected :: u32
  live_convex_legal :: u32
  legal_candidate_sources :: "nfp_ifp_legal_candidate_source list"

fun count_mask :: "u32 \<Rightarrow> (u32 \<times> u32) list \<Rightarrow> (u32 \<times> u32) list" where
  "count_mask bits [] = [(bits, 1)]"
| "count_mask bits ((m, n) # rest) = (if m = bits then (m, n + 1) # rest else (m, n) # count_mask bits rest)"

text \<open>The three fields that are always \<open>NotEvaluated\<close> are left out.\<close>

definition build_provenance_snapshot :: "mutable_candidate_provenance \<Rightarrow> canonical_point_set option \<Rightarrow>
    ((int \<times> int) \<times> u32) list \<Rightarrow> nfp_ifp_candidate_provenance" where
  "build_provenance_snapshot accum cps legal_entries =
    (let masks = (case cps of None \<Rightarrow> [] | Some s \<Rightarrow> map snd (set_source_masks s));
         unique_counts = foldl (\<lambda>counts mask. count_mask mask counts) [] masks;
         by_mask = sort_by (\<lambda>a b. cmp_of (count_source_mask a) (count_source_mask b))
           (map (\<lambda>(mask, n). \<lparr>count_source_mask = mask, mask_count = n\<rparr>) unique_counts);
         sources = sort_by (\<lambda>a b. then_with (cmp_of (legal_grid_y a) (legal_grid_y b)) (cmp_of (legal_grid_x a) (legal_grid_x b)))
           (map (\<lambda>((x, y), mask). \<lparr>legal_grid_x = x, legal_grid_y = y, legal_source_mask = mask\<rparr>) legal_entries)
     in \<lparr>out_raw_by_source = acc_raw_by_source accum, unique_by_source_mask = by_mask, outside_ifp = acc_outside_ifp accum,
         nfp_interior_rejected = acc_nfp_interior_rejected accum, live_convex_rejected = acc_live_convex_rejected accum,
         live_convex_legal = acc_live_convex_legal accum, legal_candidate_sources = sources\<rparr>)"

subsection \<open>Canonical alternatives\<close>

record canonical_candidate_point =
  alt_x :: f64
  alt_y :: f64
  squared_distance :: f64
  alt_grid_x :: int
  alt_grid_y :: int

definition compare_canonical_candidate_points :: "canonical_candidate_point \<Rightarrow> canonical_candidate_point \<Rightarrow> ordering" where
  "compare_canonical_candidate_points first second =
    then_with (partial_order (squared_distance first) (squared_distance second))
      (then_with (cmp_of (alt_grid_x first) (alt_grid_x second)) (cmp_of (alt_grid_y first) (alt_grid_y second)))"

definition grid_alternative :: "point \<Rightarrow> f64 \<Rightarrow> f64 \<Rightarrow> int \<times> int \<Rightarrow> canonical_candidate_point list" where
  "grid_alternative raw_point center_x center_y delta =
    (let grid_x = fadd center_x (lit (of_int (fst delta))); grid_y = fadd center_y (lit (of_int (snd delta))) in
     if \<not> is_safe_integer grid_x \<or> \<not> is_safe_integer grid_y then []
     else let x = from_grid grid_x; y = from_grid grid_y in
       [\<lparr>alt_x = x, alt_y = y,
         squared_distance = fadd (fmul (fsub x (px raw_point)) (fsub x (px raw_point))) (fmul (fsub y (py raw_point)) (fsub y (py raw_point))),
         alt_grid_x = as_i64 grid_x, alt_grid_y = as_i64 grid_y\<rparr>])"

definition deltas :: "(int \<times> int) list" where
  "deltas = [(- 1, - 1), (- 1, 0), (- 1, 1), (0, - 1), (0, 0), (0, 1), (1, - 1), (1, 0), (1, 1)]"

definition canonical_placement_point_alternatives :: "point \<Rightarrow> canonical_candidate_point list" where
  "canonical_placement_point_alternatives raw_point =
    (case to_grid_mm (px raw_point) of None \<Rightarrow> [] | Some center_x \<Rightarrow>
     case to_grid_mm (py raw_point) of None \<Rightarrow> [] | Some center_y \<Rightarrow>
       sort_by compare_canonical_candidate_points (concat (map (grid_alternative raw_point center_x center_y) deltas)))"

definition compare_raw_points :: "point \<Rightarrow> point \<Rightarrow> ordering" where
  "compare_raw_points first second = then_with (partial_order (py first) (py second)) (partial_order (px first) (px second))"

subsection \<open>Segments\<close>

record segment =
  seg_start :: point
  seg_end :: point
  seg_bounds :: bounds

definition segment_bounds :: "point \<Rightarrow> point \<Rightarrow> bounds" where
  "segment_bounds p q = \<lparr>min_x = js_min (px p) (px q), min_y = js_min (py p) (py q),
    max_x = js_max (px p) (px q), max_y = js_max (py p) (py q)\<rparr>"

definition polygon_segments :: "point list \<Rightarrow> segment list" where
  "polygon_segments ps = map (\<lambda>(s, e). \<lparr>seg_start = s, seg_end = e, seg_bounds = segment_bounds s e\<rparr>) (polygon_edges ps)"

definition rectangle_corners :: "bounds \<Rightarrow> point list" where
  "rectangle_corners b = [\<lparr>px = min_x b, py = min_y b\<rparr>, \<lparr>px = max_x b, py = min_y b\<rparr>,
    \<lparr>px = max_x b, py = max_y b\<rparr>, \<lparr>px = min_x b, py = max_y b\<rparr>]"

definition rectangle_segments :: "bounds \<Rightarrow> segment list" where
  "rectangle_segments b = polygon_segments (rectangle_corners b)"

definition point_is_within_segment_bounds :: "point \<Rightarrow> segment \<Rightarrow> bool" where
  "point_is_within_segment_bounds p s \<longleftrightarrow> point_is_on_segment p (seg_start s, seg_end s)"

definition intersection_bounds :: "bounds \<Rightarrow> bounds \<Rightarrow> bounds option" where
  "intersection_bounds first second =
    (let x0 = js_max (min_x first) (min_x second); y0 = js_max (min_y first) (min_y second);
         x1 = js_min (max_x first) (max_x second); y1 = js_min (max_y first) (max_y second)
     in if flt x1 x0 \<or> flt y1 y0 then None else Some \<lparr>min_x = x0, min_y = y0, max_x = x1, max_y = y1\<rparr>)"

definition INTERSECTION_MESSAGE :: string where
  "INTERSECTION_MESSAGE = ''segment intersection arithmetic must produce finite coordinates.''"

text \<open>The fallback for a crossing whose floating denominator is zero, by the ratio of signed areas.\<close>

definition intersect_fallback :: "segment \<Rightarrow> segment \<Rightarrow> string + point list" where
  "intersect_fallback first second =
    (let dx = fsub (px (seg_end first)) (px (seg_start first)); dy = fsub (py (seg_end first)) (py (seg_start first));
         ex = fsub (px (seg_end second)) (px (seg_start second)); ey = fsub (py (seg_end second)) (py (seg_start second));
         ox = fsub (px (seg_start second)) (px (seg_start first)); oy = fsub (py (seg_start second)) (py (seg_start first));
         eox = fsub (px (seg_end second)) (px (seg_start first)); eoy = fsub (py (seg_end second)) (py (seg_start first));
         start_area = fsub (fmul dx oy) (fmul dy ox); end_area = fsub (fmul dx eoy) (fmul dy eox)
     in if \<not> is_finite eox \<or> \<not> is_finite eoy \<or> \<not> is_finite start_area \<or> \<not> is_finite end_area then Inl INTERSECTION_MESSAGE
        else let opposite_signs = (flt f64_zero start_area \<and> flt end_area f64_zero) \<or> (flt start_area f64_zero \<and> flt f64_zero end_area);
                 t = fdiv start_area (fsub start_area end_area);
                 p = \<lparr>px = fadd (px (seg_start second)) (fmul t ex), py = fadd (py (seg_start second)) (fmul t ey)\<rparr>
          in if \<not> opposite_signs \<or> \<not> is_finite t \<or> fle t f64_zero \<or> fle (lit 1) t \<or> \<not> is_finite (px p) \<or> \<not> is_finite (py p)
             then Inr []
             else if \<not> point_is_within_segment_bounds p first \<or> \<not> point_is_within_segment_bounds p second then Inr []
             else Inr [p])"

definition intersect_crossing :: "segment \<Rightarrow> segment \<Rightarrow> string + point list" where
  "intersect_crossing first second =
    (let dx = fsub (px (seg_end first)) (px (seg_start first)); dy = fsub (py (seg_end first)) (py (seg_start first));
         ex = fsub (px (seg_end second)) (px (seg_start second)); ey = fsub (py (seg_end second)) (py (seg_start second));
         denominator = fsub (fmul dx ey) (fmul dy ex);
         ox = fsub (px (seg_start second)) (px (seg_start first)); oy = fsub (py (seg_start second)) (py (seg_start first));
         numerator = fsub (fmul ox ey) (fmul oy ex)
     in if \<not> list_all is_finite [dx, dy, ex, ey, denominator, ox, oy, numerator] then Inl INTERSECTION_MESSAGE
        else if \<not> feq denominator f64_zero then
          (let t = fdiv numerator denominator;
               x = fadd (px (seg_start first)) (fmul t dx); y = fadd (py (seg_start first)) (fmul t dy)
           in if \<not> is_finite t \<or> \<not> is_finite x \<or> \<not> is_finite y then Inl INTERSECTION_MESSAGE else Inr [\<lparr>px = x, py = y\<rparr>])
        else intersect_fallback first second)"

definition intersect_segments :: "robust \<Rightarrow> segment \<Rightarrow> segment \<Rightarrow> string + point list" where
  "intersect_segments robust first second =
    (let first_start_turn = orientation robust (seg_start first) (seg_end first) (seg_start second);
         first_end_turn = orientation robust (seg_start first) (seg_end first) (seg_end second);
         second_start_turn = orientation robust (seg_start second) (seg_end second) (seg_start first);
         second_end_turn = orientation robust (seg_start second) (seg_end second) (seg_end first)
     in if first_start_turn \<noteq> 0 \<and> first_end_turn \<noteq> 0 \<and> second_start_turn \<noteq> 0 \<and> second_end_turn \<noteq> 0 \<and>
           first_start_turn \<noteq> first_end_turn \<and> second_start_turn \<noteq> second_end_turn
        then intersect_crossing first second
        else Inr (
          (if first_start_turn = 0 \<and> point_is_within_segment_bounds (seg_start second) first then [seg_start second] else []) @
          (if first_end_turn = 0 \<and> point_is_within_segment_bounds (seg_end second) first then [seg_end second] else []) @
          (if second_start_turn = 0 \<and> point_is_within_segment_bounds (seg_start first) second then [seg_start first] else []) @
          (if second_end_turn = 0 \<and> point_is_within_segment_bounds (seg_end first) second then [seg_end first] else [])))"

subsection \<open>Computations\<close>

record 'c generation =
  gen_store :: geometry_store
  gen_control :: "'c option"
  gen_set :: canonical_point_set
  gen_provenance :: "mutable_candidate_provenance option"

type_synonym 'c poll = "nfp_ifp_checkpoint_phase \<Rightarrow> 'c \<Rightarrow> nfp_ifp_control_abort_error option \<times> 'c"
type_synonym ('c, 'a) gen = "'c generation \<Rightarrow> ((nfp_ifp_error + 'a) \<times> 'c generation) option"

definition gen_ok :: "'a \<Rightarrow> ('c, 'a) gen" where
  "gen_ok a s = Some (Inr a, s)"

definition gen_fail :: "nfp_ifp_error \<Rightarrow> ('c, 'a) gen" where
  "gen_fail e s = Some (Inl e, s)"

definition gen_then :: "('c, 'a) gen \<Rightarrow> ('a \<Rightarrow> ('c, 'b) gen) \<Rightarrow> ('c, 'b) gen" where
  "gen_then m f s = (case m s of None \<Rightarrow> None | Some (Inl e, s') \<Rightarrow> Some (Inl e, s') | Some (Inr a, s') \<Rightarrow> f a s')"

definition gen_update :: "(canonical_point_set \<times> mutable_candidate_provenance option \<Rightarrow>
    canonical_point_set \<times> mutable_candidate_provenance option) \<Rightarrow> ('c, unit) gen" where
  "gen_update f s = (let (cps, provenance) = f (gen_set s, gen_provenance s) in
    Some (Inr (), s\<lparr>gen_set := cps, gen_provenance := provenance\<rparr>))"

fun gen_each :: "('x \<Rightarrow> ('c, unit) gen) \<Rightarrow> 'x list \<Rightarrow> ('c, unit) gen" where
  "gen_each f [] = gen_ok ()"
| "gen_each f (x # xs) = gen_then (f x) (\<lambda>_. gen_each f xs)"

definition nfp_checkpoint :: "'c poll \<Rightarrow> nfp_ifp_checkpoint_phase \<Rightarrow> ('c, unit) gen" where
  "nfp_checkpoint poll phase s = (case gen_control s of None \<Rightarrow> Some (Inr (), s)
    | Some c \<Rightarrow> (case poll phase c of (None, c') \<Rightarrow> Some (Inr (), s\<lparr>gen_control := Some c'\<rparr>)
        | (Some e, c') \<Rightarrow> Some (Inl (Nfp_Abort e), s\<lparr>gen_control := Some c'\<rparr>)))"

definition fail_generation :: "string \<Rightarrow> ('c, 'a) gen" where
  "fail_generation message = gen_fail (Nfp_Geometry (invalid_geometry ''generatePlacementCandidates'' message))"

text \<open>A computation that may panic, as one that ends in no state.\<close>

definition gen_lift :: "'a option \<Rightarrow> ('c, 'a) gen" where
  "gen_lift r s = map_option (\<lambda>a. (Inr a, s)) r"

subsection \<open>Boundary intersections\<close>

definition intersect_pair :: "robust \<Rightarrow> 'c poll \<Rightarrow> nfp_ifp_checkpoint_phase \<Rightarrow> nfp_ifp_candidate_source \<Rightarrow> bounds option \<Rightarrow>
    segment \<Rightarrow> nat \<times> segment \<Rightarrow> ('c, unit) gen" where
  "intersect_pair robust poll phase source candidate_bounds first pair =
    (let (pair_index, second) = pair in
     gen_then (if pair_index mod 32 = 0 then nfp_checkpoint poll phase else gen_ok ()) (\<lambda>_.
       if (case candidate_bounds of None \<Rightarrow> False | Some b \<Rightarrow> are_disjoint (seg_bounds second) b) then gen_ok ()
       else case intersect_segments robust first second of
         Inl message \<Rightarrow> fail_generation message
       | Inr ps \<Rightarrow> gen_update (add_points ps candidate_bounds source)))"

definition add_boundary_intersections :: "robust \<Rightarrow> 'c poll \<Rightarrow> segment list \<Rightarrow> segment list \<Rightarrow> segment bounds_index option \<Rightarrow>
    bounds option \<Rightarrow> nfp_ifp_checkpoint_phase \<Rightarrow> nfp_ifp_candidate_source \<Rightarrow> ('c, unit) gen" where
  "add_boundary_intersections robust poll first_segments second_segments second_segment_index candidate_bounds phase source =
    gen_each (\<lambda>first.
      case (case candidate_bounds of None \<Rightarrow> Some (seg_bounds first) | Some b \<Rightarrow> intersection_bounds (seg_bounds first) b) of
        None \<Rightarrow> gen_ok ()
      | Some first_query_bounds \<Rightarrow>
          gen_then (case second_segment_index of None \<Rightarrow> gen_ok second_segments
              | Some index \<Rightarrow> gen_lift (index_query index first_query_bounds)) (\<lambda>possible.
            gen_each (intersect_pair robust poll phase source candidate_bounds first) (zip [0..<length possible] possible)))
      first_segments"

subsection \<open>Antiparallel edges\<close>

definition SUPPORT_MESSAGE :: string where
  "SUPPORT_MESSAGE = ''antiparallel edge support arithmetic must produce finite coordinates.''"

definition antiparallel_pair :: "robust \<Rightarrow> bounds option \<Rightarrow> edge \<Rightarrow> edge \<Rightarrow> ('c, unit) gen" where
  "antiparallel_pair robust candidate_bounds fixed_edge moving_edge =
    (let direction = (\<lambda>e. \<lparr>px = fsub (px (snd e)) (px (fst e)), py = fsub (py (snd e)) (py (fst e))\<rparr>);
         fixed_direction = direction fixed_edge; moving_direction = direction moving_edge in
     if orientation robust ORIGIN fixed_direction moving_direction \<noteq> 0 then gen_ok ()
     else let dot = fadd (fmul (px fixed_direction) (px moving_direction)) (fmul (py fixed_direction) (py moving_direction)) in
       if \<not> is_finite dot \<or> fle f64_zero dot then gen_ok ()
       else let p = \<lparr>px = fsub (px (fst fixed_edge)) (px (snd moving_edge)), py = fsub (py (fst fixed_edge)) (py (snd moving_edge))\<rparr>;
                q = \<lparr>px = fsub (px (snd fixed_edge)) (px (fst moving_edge)), py = fsub (py (snd fixed_edge)) (py (fst moving_edge))\<rparr> in
         if \<not> list_all is_finite [px p, py p, px q, py q] then fail_generation SUPPORT_MESSAGE
         else gen_update (add_points [p, q] candidate_bounds From_Antiparallel_Edge_Support))"

definition add_antiparallel_edge_support_points :: "robust \<Rightarrow> irregular_placed_piece \<Rightarrow> transformed_collision_geometry \<Rightarrow>
    bounds option \<Rightarrow> ('c, unit) gen" where
  "add_antiparallel_edge_support_points robust fixed moving_geometry candidate_bounds =
    (let t = placement_transform (piece_placement fixed);
         fixed_points = map (\<lambda>p. \<lparr>px = fadd (px p) (translate_x t), py = fadd (py p) (translate_y t)\<rparr>) (fixed_polygon fixed)
     in gen_each (\<lambda>fixed_edge. gen_each (antiparallel_pair robust candidate_bounds fixed_edge)
          (polygon_edges (collision_polygon moving_geometry))) (polygon_edges fixed_points))"
subsection \<open>Boundaries of the placed pieces\<close>

record generate_placement_candidates_input =
  gi_sheet :: domain_sheet
  gi_placed :: "arc list"
  gi_index :: "spatial_index option"
  gi_moving :: transformed_collision_geometry
  gi_settings :: irregular_geometry_settings
  gi_domain :: candidate_domain
  gi_want_provenance :: bool

record nfp_boundary =
  nb_index :: nat
  nb_fixed :: irregular_placed_piece
  nb_polygon :: polygon
  nb_winding :: int
  nb_bounds :: bounds
  nb_segments :: "segment list"
  nb_segment_index :: "segment bounds_index"

definition segment_entries :: "segment list \<Rightarrow> (segment \<times> bounds) list" where
  "segment_entries segments = map (\<lambda>s. (s, seg_bounds s)) segments"

text \<open>An operation on the store that may panic, lifted to a computation.\<close>

definition on_store :: "(geometry_store \<Rightarrow> ('r \<times> geometry_store) option) \<Rightarrow> ('c, 'r) gen" where
  "on_store f s = map_option (\<lambda>(r, store). (Inr r, s\<lparr>gen_store := store\<rparr>)) (f (gen_store s))"

definition ifp_stage :: "robust \<Rightarrow> (f64 \<Rightarrow> string) \<Rightarrow> memory_layout \<Rightarrow> generate_placement_candidates_input \<Rightarrow>
    ('c, bounds option) gen" where
  "ifp_stage robust js room input =
    (if gi_domain input = Domain_Sheetless_Nfp then gen_ok None
     else gen_then (on_store (resolve_ifp_bounds robust js room \<lparr>key_sheet = gi_sheet input, key_moving = gi_moving input\<rparr>))
       (\<lambda>r. case r of
          Inr (v, key) \<Rightarrow> gen_ok (Some (ifp_box v))
        | Inl failure \<Rightarrow> (case ifp_failure_kind failure of
            Ifp_Invalid \<Rightarrow> gen_fail (Nfp_Geometry (invalid_geometry ''computeIfpBounds'' (ifp_failure_message failure)))
          | Ifp_Infeasible \<Rightarrow> gen_ok None)))"

definition boundary_stage :: "robust \<Rightarrow> (f64 \<Rightarrow> string) \<Rightarrow> memory_layout \<Rightarrow> 'c poll \<Rightarrow> pieces_at \<Rightarrow>
    generate_placement_candidates_input \<Rightarrow> nfp_construction_algorithm \<Rightarrow> prepared_moving_parts \<Rightarrow> nat \<Rightarrow> arc \<Rightarrow>
    ('c, nfp_boundary) gen" where
  "boundary_stage robust js room poll heap input algorithm prepared i placed =
    gen_then (nfp_checkpoint poll Phase_Placed_Nfp) (\<lambda>_.
    gen_then (on_store (resolve_nfp_boundary_with_prepared_moving robust js room
        \<lparr>nfp_fixed = heap placed, nfp_moving = gi_moving input, nfp_settings = gi_settings input\<rparr> algorithm prepared)) (\<lambda>r.
    case r of Inl message \<Rightarrow> gen_fail (Nfp_Geometry (invalid_geometry ''computeNfp'' message))
    | Inr (boundary, key) \<Rightarrow>
    gen_then (nfp_checkpoint poll Phase_Placed_Nfp) (\<lambda>_.
    case validate_strict_boundary robust boundary of
      Invalid message \<Rightarrow> fail_generation message
    | Valid winding \<Rightarrow> (case bounds_for_points boundary of
        None \<Rightarrow> fail_generation ''NFP boundary bounds must be finite.''
      | Some b \<Rightarrow> (let segments = polygon_segments boundary in
          gen_ok \<lparr>nb_index = i, nb_fixed = heap placed, nb_polygon = boundary, nb_winding = winding, nb_bounds = b,
            nb_segments = segments, nb_segment_index = bounds_index_new (segment_entries segments)\<rparr>)))))"

fun boundaries_stage :: "robust \<Rightarrow> (f64 \<Rightarrow> string) \<Rightarrow> memory_layout \<Rightarrow> 'c poll \<Rightarrow> pieces_at \<Rightarrow>
    generate_placement_candidates_input \<Rightarrow> nfp_construction_algorithm \<Rightarrow> prepared_moving_parts \<Rightarrow> arc list \<Rightarrow>
    nfp_boundary list \<Rightarrow> ('c, nfp_boundary list) gen" where
  "boundaries_stage robust js room poll heap input algorithm prepared [] acc = gen_ok acc"
| "boundaries_stage robust js room poll heap input algorithm prepared (placed # rest) acc =
    gen_then (boundary_stage robust js room poll heap input algorithm prepared (length acc) placed)
      (\<lambda>b. boundaries_stage robust js room poll heap input algorithm prepared rest (acc @ [b]))"

subsection \<open>Admission of one point\<close>

record candidate_point_outcome =
  outcome_nfp_interior_rejected :: u32
  outcome_live_convex_rejected :: u32
  outcome_live_convex_legal :: u32
  outcome_source_mask :: u32
  outcome_winner :: "(point \<times> int \<times> int) option"

record admission =
  adm_sheetless :: bool
  adm_ifp_bounds :: "bounds option"
  adm_pruning :: nfp_candidate_pruning_mode
  adm_index :: "nat bounds_index"
  adm_boundaries :: "nfp_boundary list"

definition inside_boundary :: "robust \<Rightarrow> point \<Rightarrow> nfp_boundary \<Rightarrow> bool" where
  "inside_boundary robust p b \<longleftrightarrow> is_inside_bounds p (nb_bounds b) \<and> is_strictly_inside robust p (nb_polygon b) (nb_winding b)"

definition strictly_inside_any :: "robust \<Rightarrow> admission \<Rightarrow> point \<Rightarrow> bool option" where
  "strictly_inside_any robust adm p =
    (if adm_pruning adm = Pruning_Indexed
     then index_any_match (adm_index adm) (point_bounds p) (\<lambda>i. inside_boundary robust p (adm_boundaries adm ! i))
     else Some (list_ex (inside_boundary robust p) (adm_boundaries adm)))"

definition assessment_input :: "generate_placement_candidates_input \<Rightarrow> bool \<Rightarrow> spatial_index option \<Rightarrow> point \<Rightarrow> assess_placement_input" where
  "assessment_input input sheetless index p = \<lparr>input_sheet = (if sheetless then None else Some (gi_sheet input)),
    input_placed = gi_placed input, placed_collision_index = index, moving = gi_moving input, candidate_point = p\<rparr>"

fun assess_alternatives :: "robust \<Rightarrow> pieces_at \<Rightarrow> generate_placement_candidates_input \<Rightarrow> spatial_index option \<Rightarrow> admission \<Rightarrow>
    canonical_candidate_point list \<Rightarrow> candidate_point_outcome \<Rightarrow> (nfp_ifp_error + candidate_point_outcome) option" where
  "assess_alternatives robust heap input index adm [] outcome = Some (Inr outcome)"
| "assess_alternatives robust heap input index adm (a # as) outcome =
    (let p = \<lparr>px = alt_x a, py = alt_y a\<rparr> in
     if \<not> adm_sheetless adm \<and> (case adm_ifp_bounds adm of None \<Rightarrow> True | Some b \<Rightarrow> \<not> is_inside_bounds p b)
     then assess_alternatives robust heap input index adm as outcome
     else case strictly_inside_any robust adm p of
       None \<Rightarrow> None
     | Some True \<Rightarrow> assess_alternatives robust heap input index adm as
         (outcome\<lparr>outcome_nfp_interior_rejected := outcome_nfp_interior_rejected outcome + 1\<rparr>)
     | Some False \<Rightarrow> (case assess_placement robust heap (assessment_input input (adm_sheetless adm) index p) (\<not> adm_sheetless adm) of
         None \<Rightarrow> None
       | Some (Assess_Failure e) \<Rightarrow> Some (Inl (Nfp_Geometry e))
       | Some (Assessment assessment) \<Rightarrow>
           if \<not> legal assessment
           then assess_alternatives robust heap input index adm as
             (outcome\<lparr>outcome_live_convex_rejected := outcome_live_convex_rejected outcome + 1\<rparr>)
           else Some (Inr (outcome\<lparr>outcome_live_convex_legal := outcome_live_convex_legal outcome + 1,
             outcome_winner := Some (p, alt_grid_x a, alt_grid_y a)\<rparr>))))"

definition assess_candidate_point :: "robust \<Rightarrow> pieces_at \<Rightarrow> generate_placement_candidates_input \<Rightarrow> spatial_index option \<Rightarrow>
    admission \<Rightarrow> canonical_point_set \<Rightarrow> point \<Rightarrow> (nfp_ifp_error + candidate_point_outcome) option" where
  "assess_candidate_point robust heap input index adm cps raw_point =
    assess_alternatives robust heap input index adm (canonical_placement_point_alternatives raw_point)
      \<lparr>outcome_nfp_interior_rejected = 0, outcome_live_convex_rejected = 0, outcome_live_convex_legal = 0,
       outcome_source_mask = (case map_of (set_source_masks cps) (point_key raw_point) of None \<Rightarrow> 0 | Some m \<Rightarrow> m),
       outcome_winner = None\<rparr>"

subsection \<open>The acceptance fold\<close>

record irregular_placement_candidate =
  cand_piece_id :: string
  cand_transform :: transform_candidate
  cand_point :: point
  cand_diagnostics :: "string list"

record acceptance =
  accepted_grid_keys :: "(int \<times> int) set"
  legal_masks :: "((int \<times> int) \<times> u32) list"
  accepted :: "irregular_placement_candidate list"

definition acceptance_new :: acceptance where
  "acceptance_new = \<lparr>accepted_grid_keys = {}, legal_masks = [], accepted = []\<rparr>"

definition tally :: "candidate_point_outcome \<Rightarrow> mutable_candidate_provenance \<Rightarrow> mutable_candidate_provenance" where
  "tally outcome a = a\<lparr>acc_nfp_interior_rejected := acc_nfp_interior_rejected a + outcome_nfp_interior_rejected outcome,
    acc_live_convex_rejected := acc_live_convex_rejected a + outcome_live_convex_rejected outcome,
    acc_live_convex_legal := acc_live_convex_legal a + outcome_live_convex_legal outcome\<rparr>"

definition accept_winner :: "transformed_collision_geometry \<Rightarrow> candidate_point_outcome \<Rightarrow> acceptance \<Rightarrow> acceptance" where
  "accept_winner moving_geometry outcome s = (case outcome_winner outcome of None \<Rightarrow> s
    | Some (p, grid_key) \<Rightarrow> (let s1 = s\<lparr>legal_masks := merge_mask grid_key (outcome_source_mask outcome) (legal_masks s)\<rparr> in
        if grid_key \<in> accepted_grid_keys s then s1
        else s1\<lparr>accepted_grid_keys := insert grid_key (accepted_grid_keys s),
          accepted := accepted s @ [\<lparr>cand_piece_id = collision_source_piece_id moving_geometry,
            cand_transform = collision_transform moving_geometry, cand_point = p, cand_diagnostics = []\<rparr>]\<rparr>))"

text \<open>\<open>for_each_chunked_outcome\<close>: a chunk is computed as a whole and replayed in order up to its first error.\<close>

definition CANDIDATE_POINT_CHUNK_SIZE :: nat where
  "CANDIDATE_POINT_CHUNK_SIZE = 32"

function chunks_of :: "'x list \<Rightarrow> 'x list list" where
  "chunks_of xs = (if xs = [] then [] else take CANDIDATE_POINT_CHUNK_SIZE xs # chunks_of (drop CANDIDATE_POINT_CHUNK_SIZE xs))"
  by pat_completeness auto
termination
  by (relation "measure length") (auto simp: CANDIDATE_POINT_CHUNK_SIZE_def)

declare chunks_of.simps [simp del]

fun all_computed :: "'r option list \<Rightarrow> 'r list option" where
  "all_computed [] = Some []"
| "all_computed (r # rs) = (case r of None \<Rightarrow> None | Some a \<Rightarrow> map_option ((#) a) (all_computed rs))"

fun replay_outcomes :: "transformed_collision_geometry \<Rightarrow> (nfp_ifp_error + candidate_point_outcome) list \<Rightarrow> acceptance \<Rightarrow>
    ('c, acceptance) gen" where
  "replay_outcomes moving_geometry [] acc = gen_ok acc"
| "replay_outcomes moving_geometry (Inl e # rs) acc = gen_fail e"
| "replay_outcomes moving_geometry (Inr outcome # rs) acc =
    gen_then (gen_update (\<lambda>(cps, provenance). (cps, map_option (tally outcome) provenance))) (\<lambda>_.
      replay_outcomes moving_geometry rs (accept_winner moving_geometry outcome acc))"

fun replay_chunks :: "'c poll \<Rightarrow> transformed_collision_geometry \<Rightarrow> (point \<Rightarrow> (nfp_ifp_error + candidate_point_outcome) option) \<Rightarrow>
    point list list \<Rightarrow> acceptance \<Rightarrow> ('c, acceptance) gen" where
  "replay_chunks poll moving_geometry assess [] acc = gen_ok acc"
| "replay_chunks poll moving_geometry assess (chunk # rest) acc =
    gen_then (nfp_checkpoint poll Phase_Candidate_Points) (\<lambda>_.
    gen_then (gen_lift (all_computed (map assess chunk))) (\<lambda>outcomes.
    gen_then (replay_outcomes moving_geometry outcomes acc) (\<lambda>acc'.
      replay_chunks poll moving_geometry assess rest acc')))"

subsection \<open>Generation\<close>

record generate_outcome =
  go_candidates :: "irregular_placement_candidate list"
  go_provenance :: "nfp_ifp_candidate_provenance option"

definition seed_corners :: "generate_placement_candidates_input \<Rightarrow> bounds option \<Rightarrow> bounds option \<Rightarrow> ('c, unit) gen" where
  "seed_corners input ifp candidate_bounds =
    (if gi_placed input = [] \<and> gi_domain input = Domain_Contact_Only
     then (case ifp of None \<Rightarrow> gen_ok ()
       | Some b \<Rightarrow> gen_update (add_point \<lparr>px = min_x b, py = min_y b\<rparr> candidate_bounds From_Ifp_Corner))
     else if gi_domain input = Domain_Sheet
     then (case ifp of None \<Rightarrow> gen_ok () | Some b \<Rightarrow> gen_update (add_points (rectangle_corners b) candidate_bounds From_Ifp_Corner))
     else gen_ok ())"

definition vertices_and_supports :: "robust \<Rightarrow> generate_placement_candidates_input \<Rightarrow> bounds option \<Rightarrow> nfp_boundary \<Rightarrow> ('c, unit) gen" where
  "vertices_and_supports robust input candidate_bounds b =
    gen_then (gen_update (add_points (nb_polygon b) candidate_bounds From_Nfp_Vertex)) (\<lambda>_.
      add_antiparallel_edge_support_points robust (nb_fixed b) (gi_moving input) candidate_bounds)"

definition ifp_intersections :: "robust \<Rightarrow> 'c poll \<Rightarrow> nfp_candidate_pruning_mode \<Rightarrow> segment list \<Rightarrow> bounds option \<Rightarrow> nfp_boundary \<Rightarrow>
    ('c, unit) gen" where
  "ifp_intersections robust poll pruning ifp_segments candidate_bounds b =
    gen_then (nfp_checkpoint poll Phase_Ifp_Boundary_Intersection) (\<lambda>_.
      add_boundary_intersections robust poll ifp_segments (nb_segments b)
        (if pruning = Pruning_Indexed then Some (nb_segment_index b) else None)
        candidate_bounds Phase_Ifp_Boundary_Intersection From_Ifp_Nfp_Intersection)"

definition pairwise_indexed :: "robust \<Rightarrow> 'c poll \<Rightarrow> nfp_boundary list \<Rightarrow> nat bounds_index \<Rightarrow> bounds option \<Rightarrow> nat \<Rightarrow> ('c, unit) gen" where
  "pairwise_indexed robust poll boundaries index candidate_bounds first_index =
    gen_then (nfp_checkpoint poll Phase_Pairwise_Nfp_Boundary_Intersection) (\<lambda>_.
    gen_then (gen_lift (index_query index (nb_bounds (boundaries ! first_index)))) (\<lambda>second_indices.
      gen_each (\<lambda>second_index. if second_index \<le> first_index then gen_ok ()
        else gen_then (nfp_checkpoint poll Phase_Pairwise_Nfp_Boundary_Intersection) (\<lambda>_.
          add_boundary_intersections robust poll (nb_segments (boundaries ! first_index)) (nb_segments (boundaries ! second_index))
            (Some (nb_segment_index (boundaries ! second_index))) candidate_bounds
            Phase_Pairwise_Nfp_Boundary_Intersection From_Nfp_Nfp_Intersection)) second_indices))"

definition pairwise_reference :: "robust \<Rightarrow> 'c poll \<Rightarrow> nfp_boundary list \<Rightarrow> nat \<Rightarrow> ('c, unit) gen" where
  "pairwise_reference robust poll boundaries first_index =
    gen_each (\<lambda>second_index. gen_then (nfp_checkpoint poll Phase_Pairwise_Nfp_Boundary_Intersection) (\<lambda>_.
        if are_disjoint (nb_bounds (boundaries ! first_index)) (nb_bounds (boundaries ! second_index)) then gen_ok ()
        else add_boundary_intersections robust poll (nb_segments (boundaries ! first_index)) (nb_segments (boundaries ! second_index))
          None None Phase_Pairwise_Nfp_Boundary_Intersection From_Nfp_Nfp_Intersection))
      [first_index + 1..<length boundaries]"

text \<open>Which boundaries the candidates come from: all, or in the indexed mode those whose box meets the inner-fit box.\<close>

definition candidate_indices :: "bool \<Rightarrow> nfp_candidate_pruning_mode \<Rightarrow> bounds option \<Rightarrow> nfp_boundary list \<Rightarrow> nat list option" where
  "candidate_indices sheetless pruning ifp boundaries =
    (if sheetless \<or> pruning \<noteq> Pruning_Indexed then Some [0..<length boundaries]
     else case ifp of None \<Rightarrow> Some []
       | Some b \<Rightarrow> index_query (bounds_index_new (map (\<lambda>x. (nb_index x, nb_bounds x)) boundaries)) b)"

text \<open>From the boundaries on: the points, their order, their admission.\<close>

definition collect_points :: "robust \<Rightarrow> 'c poll \<Rightarrow> generate_placement_candidates_input \<Rightarrow> nfp_candidate_pruning_mode \<Rightarrow>
    bounds option \<Rightarrow> nfp_boundary list \<Rightarrow> nat list \<Rightarrow> nat bounds_index \<Rightarrow> bounds option \<Rightarrow> ('c, unit) gen" where
  "collect_points robust poll input pruning ifp boundaries indices index candidate_bounds =
    gen_then (seed_corners input ifp candidate_bounds) (\<lambda>_.
    gen_then (gen_each (\<lambda>i. vertices_and_supports robust input candidate_bounds (boundaries ! i)) indices) (\<lambda>_.
    gen_then (if gi_domain input \<noteq> Domain_Sheet then gen_ok ()
        else gen_each (\<lambda>i. ifp_intersections robust poll pruning (case ifp of None \<Rightarrow> [] | Some b \<Rightarrow> rectangle_segments b)
          candidate_bounds (boundaries ! i)) indices) (\<lambda>_.
      if pruning = Pruning_Indexed then gen_each (pairwise_indexed robust poll boundaries index candidate_bounds) indices
      else gen_each (pairwise_reference robust poll boundaries) [0..<length boundaries])))"

definition admit_points :: "robust \<Rightarrow> 'c poll \<Rightarrow> pieces_at \<Rightarrow> generate_placement_candidates_input \<Rightarrow> spatial_index option \<Rightarrow>
    admission \<Rightarrow> ('c, acceptance) gen" where
  "admit_points robust poll heap input index adm s =
    gen_then (replay_chunks poll (gi_moving input) (assess_candidate_point robust heap input index adm (gen_set s))
        (chunks_of (sort_by compare_raw_points (set_points (gen_set s)))) acceptance_new) (\<lambda>acc.
    gen_then (nfp_checkpoint poll Phase_Candidate_Points) (\<lambda>_. gen_ok acc)) s"

definition finish_generation :: "acceptance \<Rightarrow> ('c, generate_outcome) gen" where
  "finish_generation acc s = Some (Inr \<lparr>go_candidates = accepted acc,
    go_provenance = map_option (\<lambda>a. build_provenance_snapshot a (Some (gen_set s)) (legal_masks acc)) (gen_provenance s)\<rparr>, s)"

definition generate_with_boundaries :: "robust \<Rightarrow> 'c poll \<Rightarrow> pieces_at \<Rightarrow> generate_placement_candidates_input \<Rightarrow>
    nfp_candidate_pruning_mode \<Rightarrow> bounds option \<Rightarrow> nfp_boundary list \<Rightarrow> ('c, generate_outcome) gen" where
  "generate_with_boundaries robust poll heap input pruning ifp boundaries =
    (let sheetless = (gi_domain input = Domain_Sheetless_Nfp) in
     gen_then (nfp_checkpoint poll Phase_Ifp) (\<lambda>_.
     gen_then (gen_lift (candidate_indices sheetless pruning ifp boundaries)) (\<lambda>indices.
     let index = bounds_index_new (map (\<lambda>i. (i, nb_bounds (boundaries ! i))) indices);
         candidate_bounds = (if \<not> sheetless \<and> pruning = Pruning_Indexed then ifp else None);
         placed_index = (case gi_index input of None \<Rightarrow> None
           | Some x \<Rightarrow> if index_matches x (gi_placed input) then Some x else None) in
     gen_then (collect_points robust poll input pruning ifp boundaries indices index candidate_bounds) (\<lambda>_.
     gen_then (admit_points robust poll heap input placed_index
       \<lparr>adm_sheetless = sheetless, adm_ifp_bounds = ifp, adm_pruning = pruning, adm_index = index, adm_boundaries = boundaries\<rparr>)
       finish_generation))))"

definition generate_placement_candidates_uncached :: "robust \<Rightarrow> (f64 \<Rightarrow> string) \<Rightarrow> memory_layout \<Rightarrow> 'c poll \<Rightarrow> pieces_at \<Rightarrow>
    generate_placement_candidates_input \<Rightarrow> nfp_construction_algorithm \<Rightarrow> nfp_candidate_pruning_mode \<Rightarrow> 'c option \<Rightarrow> geometry_store \<Rightarrow>
    ((nfp_ifp_error + generate_outcome) \<times> 'c generation) option" where
  "generate_placement_candidates_uncached robust js room poll heap input algorithm pruning control store =
    gen_then (nfp_checkpoint poll Phase_Ifp) (\<lambda>_.
    gen_then (ifp_stage robust js room input) (\<lambda>ifp.
    if gi_domain input \<noteq> Domain_Sheetless_Nfp \<and> ifp = None
    then (\<lambda>s. Some (Inr \<lparr>go_candidates = [], go_provenance =
      map_option (\<lambda>a. build_provenance_snapshot a None []) (gen_provenance s)\<rparr>, s))
    else
    gen_then (nfp_checkpoint poll Phase_Ifp) (\<lambda>_.
    gen_then (on_store (\<lambda>st. map_option (Pair ()) (precompute_missing_relative_nfp_boundaries robust js room
      (map heap (gi_placed input)) (gi_moving input) (gi_settings input) algorithm st))) (\<lambda>_.
    gen_then (boundaries_stage robust js room poll heap input algorithm
      (prepare_pairwise_nfp_moving_parts js (collision_polygon (gi_moving input)) (collision_transform (gi_moving input))
        (gi_settings input) algorithm) (gi_placed input) []) (\<lambda>boundaries.
    generate_with_boundaries robust poll heap input pruning ifp boundaries)))))
    \<lparr>gen_store = store, gen_control = control, gen_set = point_set_new,
     gen_provenance = (if gi_want_provenance input then Some provenance_default else None)\<rparr>"

end
