(* ===== verification/CandidateSafety.thy ===== *)
theory CandidateSafety
  imports Candidates
begin

text \<open>
  What \<open>generate_placement_candidates_uncached\<close> returns: every candidate was admitted by the placement
  validator, lies on the collision grid and stands for its own grid cell.
\<close>

subsection \<open>Computations\<close>

lemma gen_then_Inr: "gen_then m f s = Some (Inr b, s') \<longleftrightarrow> (\<exists>a t. m s = Some (Inr a, t) \<and> f a t = Some (Inr b, s'))"
  by (auto simp: gen_then_def split: option.splits sum.splits)

lemma gen_ok_Inr [simp]: "gen_ok a s = Some (Inr b, s') \<longleftrightarrow> b = a \<and> s' = s"
  by (auto simp: gen_ok_def)

lemma gen_fail_Inr [simp]: "\<not> gen_fail e s = Some (Inr b, s')"
  by (simp add: gen_fail_def)

lemma gen_lift_Inr [simp]: "gen_lift r s = Some (Inr b, s') \<longleftrightarrow> r = Some b \<and> s' = s"
  by (auto simp: gen_lift_def)

subsection \<open>One point\<close>

definition validated :: "robust \<Rightarrow> pieces_at \<Rightarrow> generate_placement_candidates_input \<Rightarrow> bool \<Rightarrow> spatial_index option \<Rightarrow> point \<Rightarrow> bool" where
  "validated robust heap input sheetless index p \<longleftrightarrow>
    (\<exists>a. assess_placement robust heap (assessment_input input sheetless index p) (\<not> sheetless) = Some (Assessment a) \<and> legal a)"

definition on_grid_cell :: "point \<Rightarrow> int \<times> int \<Rightarrow> bool" where
  "on_grid_cell p cell \<longleftrightarrow> (\<exists>u v. is_safe_integer u \<and> is_safe_integer v \<and> p = \<lparr>px = from_grid u, py = from_grid v\<rparr> \<and>
    cell = (as_i64 u, as_i64 v))"

definition admissible :: "robust \<Rightarrow> pieces_at \<Rightarrow> generate_placement_candidates_input \<Rightarrow> spatial_index option \<Rightarrow> admission \<Rightarrow> point \<Rightarrow> bool" where
  "admissible robust heap input index adm p \<longleftrightarrow> validated robust heap input (adm_sheetless adm) index p \<and>
    (adm_sheetless adm \<or> (\<exists>b. adm_ifp_bounds adm = Some b \<and> is_inside_bounds p b)) \<and> strictly_inside_any robust adm p = Some False"

lemma assess_alternatives_winner:
  assumes "assess_alternatives robust heap input index adm as outcome = Some (Inr r)" "outcome_winner r = Some (p, cell)"
    and "outcome_winner outcome = None"
  shows "admissible robust heap input index adm p \<and> (\<exists>a \<in> set as. p = \<lparr>px = alt_x a, py = alt_y a\<rparr> \<and> cell = (alt_grid_x a, alt_grid_y a))"
  using assms
proof (induction as arbitrary: outcome)
  case (Cons a as)
  let ?p = "\<lparr>px = alt_x a, py = alt_y a\<rparr>"
  let ?out = "\<not> adm_sheetless adm \<and> (case adm_ifp_bounds adm of None \<Rightarrow> True | Some b \<Rightarrow> \<not> is_inside_bounds ?p b)"
  let ?assess = "assess_placement robust heap (assessment_input input (adm_sheetless adm) index ?p) (\<not> adm_sheetless adm)"
  have skip: ?case if "assess_alternatives robust heap input index adm (a # as) outcome =
      assess_alternatives robust heap input index adm as outcome'" "outcome_winner outcome' = None" for outcome'
  proof -
    have "assess_alternatives robust heap input index adm as outcome' = Some (Inr r)" using that(1) Cons.prems(1) by simp
    from Cons.IH [OF this Cons.prems(2) that(2)] show ?thesis by (auto simp only: list.set)
  qed
  consider "?out" | "\<not> ?out" "strictly_inside_any robust adm ?p = None" | "\<not> ?out" "strictly_inside_any robust adm ?p = Some True"
    | "\<not> ?out" "strictly_inside_any robust adm ?p = Some False" by (cases "strictly_inside_any robust adm ?p") auto
  then show ?case
  proof cases
    case 1
    show ?thesis by (rule skip [OF _ Cons.prems(3)]) (simp only: assess_alternatives.simps Let_def if_P [OF 1])
  next
    case 2
    have "assess_alternatives robust heap input index adm (a # as) outcome = None"
      by (simp only: assess_alternatives.simps Let_def if_not_P [OF 2(1)] 2(2) option.case)
    then show ?thesis using Cons.prems(1) by simp
  next
    case 3
    show ?thesis
      by (rule skip, simp only: assess_alternatives.simps Let_def if_not_P [OF 3(1)] 3(2) option.case bool.case) (simp add: Cons.prems(3))
  next
    case inner: 4
    note step = assess_alternatives.simps Let_def if_not_P [OF inner(1)] inner(2) option.case bool.case sum.case
    show ?thesis
    proof (cases ?assess)
      case None
      have "assess_alternatives robust heap input index adm (a # as) outcome = None" by (simp only: step None)
      then show ?thesis using Cons.prems(1) by simp
    next
      case (Some ao)
      show ?thesis
      proof (cases ao)
        case (Assess_Failure e)
        have "assess_alternatives robust heap input index adm (a # as) outcome = Some (Inl (Nfp_Geometry e))"
          by (simp only: step Some Assess_Failure assess_placement_outcome.case)
        then show ?thesis using Cons.prems(1) by simp
      next
        case (Assessment assessment)
        show ?thesis
        proof (cases "legal assessment")
          case True
          have "assess_alternatives robust heap input index adm (a # as) outcome =
              Some (Inr (outcome\<lparr>outcome_live_convex_legal := outcome_live_convex_legal outcome + 1,
              outcome_winner := Some (?p, alt_grid_x a, alt_grid_y a)\<rparr>))"
            by (simp only: step Some Assessment assess_placement_outcome.case True not_True_eq_False if_False)
          then have "r = outcome\<lparr>outcome_live_convex_legal := outcome_live_convex_legal outcome + 1,
              outcome_winner := Some (?p, alt_grid_x a, alt_grid_y a)\<rparr>" using Cons.prems(1) by simp
          then have "p = ?p" "cell = (alt_grid_x a, alt_grid_y a)" using Cons.prems(2) by simp_all
          moreover have "admissible robust heap input index adm ?p"
            using inner True Some Assessment by (auto simp: admissible_def validated_def split: option.splits)
          ultimately show ?thesis by simp
        next
          case False
          show ?thesis
            by (rule skip, simp only: step Some Assessment assess_placement_outcome.case False not_False_eq_True if_True)
              (simp add: Cons.prems(3))
        qed
      qed
    qed
  qed
qed simp

lemma alternative_on_grid:
  assumes "a \<in> set (canonical_placement_point_alternatives p)"
  shows "on_grid_cell \<lparr>px = alt_x a, py = alt_y a\<rparr> (alt_grid_x a, alt_grid_y a)"
proof -
  have "\<exists>u v. is_safe_integer u \<and> is_safe_integer v \<and> alt_x a = from_grid u \<and> alt_y a = from_grid v \<and>
      alt_grid_x a = as_i64 u \<and> alt_grid_y a = as_i64 v"
    using assms by (auto simp: canonical_placement_point_alternatives_def grid_alternative_def Let_def
      split: option.splits if_splits) blast
  then show ?thesis by (auto simp: on_grid_cell_def)
qed

lemma assess_candidate_point_winner:
  assumes "assess_candidate_point robust heap input index adm cps raw = Some (Inr r)" "outcome_winner r = Some (p, cell)"
  shows "admissible robust heap input index adm p \<and> on_grid_cell p cell"
  using assess_alternatives_winner [OF assms(1) [unfolded assess_candidate_point_def] assms(2)] alternative_on_grid by auto

subsection \<open>The acceptance fold\<close>

definition stands_for :: "robust \<Rightarrow> pieces_at \<Rightarrow> generate_placement_candidates_input \<Rightarrow> spatial_index option \<Rightarrow> admission \<Rightarrow>
    irregular_placement_candidate \<Rightarrow> int \<times> int \<Rightarrow> bool" where
  "stands_for robust heap input index adm c cell \<longleftrightarrow> cand_piece_id c = collision_source_piece_id (gi_moving input) \<and>
    cand_transform c = collision_transform (gi_moving input) \<and>
    admissible robust heap input index adm (cand_point c) \<and> on_grid_cell (cand_point c) cell"

definition acceptance_ok :: "robust \<Rightarrow> pieces_at \<Rightarrow> generate_placement_candidates_input \<Rightarrow> spatial_index option \<Rightarrow> admission \<Rightarrow>
    acceptance \<Rightarrow> bool" where
  "acceptance_ok robust heap input index adm acc \<longleftrightarrow> (\<exists>cells. distinct cells \<and> set cells = accepted_grid_keys acc \<and>
    list_all2 (stands_for robust heap input index adm) (accepted acc) cells)"

lemma accept_winner_ok:
  assumes "acceptance_ok robust heap input index adm acc"
    and "\<And>p cell. outcome_winner r = Some (p, cell) \<Longrightarrow> admissible robust heap input index adm p \<and> on_grid_cell p cell"
  shows "acceptance_ok robust heap input index adm (accept_winner (gi_moving input) r acc)"
proof (cases "outcome_winner r")
  case None
  then show ?thesis using assms(1) by (simp add: accept_winner_def)
next
  case (Some w)
  obtain p cell where w: "w = (p, cell)" by (cases w)
  obtain cells where c: "distinct cells" "set cells = accepted_grid_keys acc"
      "list_all2 (stands_for robust heap input index adm) (accepted acc) cells"
    using assms(1) by (auto simp: acceptance_ok_def)
  show ?thesis
  proof (cases "cell \<in> accepted_grid_keys acc")
    case True
    then show ?thesis using c Some w by (auto simp: accept_winner_def acceptance_ok_def Let_def)
  next
    case False
    let ?c = "\<lparr>cand_piece_id = collision_source_piece_id (gi_moving input),
            cand_transform = collision_transform (gi_moving input), cand_point = p, cand_diagnostics = []\<rparr>"
    have "stands_for robust heap input index adm ?c cell" using assms(2) Some w by (simp add: stands_for_def)
    then have "list_all2 (stands_for robust heap input index adm) (accepted acc @ [?c]) (cells @ [cell])"
      using c(3) by (simp add: list_all2_appendI)
    moreover have "distinct (cells @ [cell])" "set (cells @ [cell]) = insert cell (accepted_grid_keys acc)" using False c by auto
    ultimately show ?thesis using False Some w unfolding acceptance_ok_def
      by (intro exI [of _ "cells @ [cell]"]) (simp add: accept_winner_def Let_def)
  qed
qed

lemma replay_outcomes_ok:
  assumes "replay_outcomes (gi_moving input) rs acc s = Some (Inr acc', s')" "acceptance_ok robust heap input index adm acc"
    and "\<forall>r p cell. Inr r \<in> set rs \<and> outcome_winner r = Some (p, cell) \<longrightarrow> admissible robust heap input index adm p \<and> on_grid_cell p cell"
  shows "acceptance_ok robust heap input index adm acc'"
  using assms
proof (induction rs arbitrary: acc s)
  case (Cons r rs)
  show ?case
  proof (cases r)
    case (Inr outcome)
    obtain t where "replay_outcomes (gi_moving input) rs (accept_winner (gi_moving input) outcome acc) t = Some (Inr acc', s')"
      using Cons.prems(1) Inr by (auto simp: gen_then_Inr)
    moreover have "acceptance_ok robust heap input index adm (accept_winner (gi_moving input) outcome acc)"
      using Cons.prems(2,3) Inr by (intro accept_winner_ok) auto
    ultimately show ?thesis using Cons.prems(3) by (intro Cons.IH) auto
  qed (use Cons.prems in simp)
qed simp

lemma all_computed_in: "all_computed (map f xs) = Some rs \<Longrightarrow> r \<in> set rs \<Longrightarrow> \<exists>x \<in> set xs. f x = Some r"
  by (induction xs arbitrary: rs) (auto split: option.splits)

lemma replay_chunks_ok:
  assumes "replay_chunks poll (gi_moving input) (assess_candidate_point robust heap input index adm cps) chunks acc s = Some (Inr acc', s')"
    and "acceptance_ok robust heap input index adm acc"
  shows "acceptance_ok robust heap input index adm acc'"
  using assms
proof (induction chunks arbitrary: acc s)
  case (Cons chunk chunks)
  obtain rs acc1 t u where o: "all_computed (map (assess_candidate_point robust heap input index adm cps) chunk) = Some rs"
      "replay_outcomes (gi_moving input) rs acc t = Some (Inr acc1, u)"
      "replay_chunks poll (gi_moving input) (assess_candidate_point robust heap input index adm cps) chunks acc1 u = Some (Inr acc', s')"
    using Cons.prems(1) by (auto simp: gen_then_Inr)
  have "acceptance_ok robust heap input index adm acc1"
  proof (rule replay_outcomes_ok [OF o(2) Cons.prems(2)], intro allI impI)
    fix r p cell assume "Inr r \<in> set rs \<and> outcome_winner r = Some (p, cell)"
    then show "admissible robust heap input index adm p \<and> on_grid_cell p cell"
      using all_computed_in [OF o(1)] assess_candidate_point_winner by blast
  qed
  then show ?case using Cons.IH o(3) by blast
qed simp

lemma admit_points_ok:
  assumes "admit_points robust poll heap input index adm s = Some (Inr acc, s')"
  shows "acceptance_ok robust heap input index adm acc"
proof -
  obtain u where "replay_chunks poll (gi_moving input) (assess_candidate_point robust heap input index adm (gen_set s))
      (chunks_of (sort_by compare_raw_points (set_points (gen_set s)))) acceptance_new s = Some (Inr acc, u)"
    using assms by (auto simp: admit_points_def gen_then_Inr)
  then show ?thesis
    by (rule replay_chunks_ok) (auto simp: acceptance_ok_def acceptance_new_def intro: exI [of _ "[]"])
qed

definition matching_index :: "generate_placement_candidates_input \<Rightarrow> spatial_index option" where
  "matching_index input = (case gi_index input of None \<Rightarrow> None
    | Some x \<Rightarrow> if index_matches x (gi_placed input) then Some x else None)"

lemma generate_with_boundaries_ok:
  assumes "generate_with_boundaries robust poll heap input pruning ifp boundaries s = Some (Inr outcome, s')"
  shows "\<exists>cells indices. candidate_indices (gi_domain input = Domain_Sheetless_Nfp) pruning ifp boundaries = Some indices \<and>
    distinct cells \<and> list_all2 (stands_for robust heap input (matching_index input)
      \<lparr>adm_sheetless = (gi_domain input = Domain_Sheetless_Nfp), adm_ifp_bounds = ifp, adm_pruning = pruning,
       adm_index = bounds_index_new (map (\<lambda>i. (i, nb_bounds (boundaries ! i))) indices), adm_boundaries = boundaries\<rparr>)
      (go_candidates outcome) cells"
proof -
  let ?adm = "\<lambda>indices. \<lparr>adm_sheetless = (gi_domain input = Domain_Sheetless_Nfp), adm_ifp_bounds = ifp, adm_pruning = pruning,
       adm_index = bounds_index_new (map (\<lambda>i. (i, nb_bounds (boundaries ! i))) indices), adm_boundaries = boundaries\<rparr>"
  obtain indices t acc u where i: "candidate_indices (gi_domain input = Domain_Sheetless_Nfp) pruning ifp boundaries = Some indices"
      and a: "admit_points robust poll heap input (matching_index input) (?adm indices) t = Some (Inr acc, u)"
      and f: "finish_generation acc u = Some (Inr outcome, s')"
    using assms by (auto simp: generate_with_boundaries_def gen_then_Inr Let_def matching_index_def)
  have "acceptance_ok robust heap input (matching_index input) (?adm indices) acc" by (rule admit_points_ok [OF a])
  then show ?thesis using i f by (auto simp: acceptance_ok_def finish_generation_def)
qed

text \<open>
  C6. Every candidate the generator returns is a legal placement. Whatever the cache holds and whatever the
  control does, if the generation succeeds, each candidate carries the moving piece's identity and
  transform, its point is on the collision grid and was judged legal by the placement validator (with the
  sheet, unless the domain is sheetless), and no two candidates stand for the same grid cell.
\<close>

theorem candidates_are_legal:
  assumes "generate_placement_candidates_uncached robust js room poll heap input algorithm pruning control store =
      Some (Inr outcome, s')"
  shows "\<exists>cells. distinct cells \<and> list_all2 (\<lambda>c cell. cand_piece_id c = collision_source_piece_id (gi_moving input) \<and>
      cand_transform c = collision_transform (gi_moving input) \<and> on_grid_cell (cand_point c) cell \<and>
      validated robust heap input (gi_domain input = Domain_Sheetless_Nfp) (matching_index input) (cand_point c))
    (go_candidates outcome) cells"
proof -
  consider "go_candidates outcome = []"
    | ifp boundaries t where "generate_with_boundaries robust poll heap input pruning ifp boundaries t = Some (Inr outcome, s')"
    using assms by (auto simp: generate_placement_candidates_uncached_def gen_then_Inr split: if_splits)
  then show ?thesis
  proof cases
    case 2
    obtain cells indices where "distinct cells" "list_all2 (stands_for robust heap input (matching_index input)
        \<lparr>adm_sheetless = (gi_domain input = Domain_Sheetless_Nfp), adm_ifp_bounds = ifp, adm_pruning = pruning,
         adm_index = bounds_index_new (map (\<lambda>i. (i, nb_bounds (boundaries ! i))) indices), adm_boundaries = boundaries\<rparr>)
        (go_candidates outcome) cells"
      using generate_with_boundaries_ok [OF 2] by blast
    then show ?thesis
      by (intro exI [of _ cells]) (auto elim!: list_all2_mono simp: stands_for_def admissible_def)
  qed (intro exI [of _ "[]"], simp)
qed

end
