(* ===== verification/CandidateMemo.thy ===== *)
theory CandidateMemo
  imports CandidateSafety
begin

text \<open>
  \<open>nfp_ifp/service.rs\<close> with the key of \<open>caches/legal_candidate_memo.rs\<close>: the generator behind the
  legal-candidate memo of one search. An entry keeps the points and the provenance; a hit stamps the
  current piece's identity and transform on them.
\<close>

subsection \<open>One no-fit polygon, one inner-fit rectangle\<close>

record irregular_nfp =
  nfp_fixed_piece_id :: string
  nfp_moving_piece_id :: string
  nfp_polygon :: polygon

definition compute_nfp :: "robust \<Rightarrow> (f64 \<Rightarrow> string) \<Rightarrow> memory_layout \<Rightarrow> core_nfp_input \<Rightarrow> nfp_construction_algorithm \<Rightarrow>
    geometry_store \<Rightarrow> ((geometry_input_error + irregular_nfp) \<times> geometry_store) option" where
  "compute_nfp robust js room input algorithm store =
    map_option (\<lambda>(r, s). (case r of
        Inr (boundary, key) \<Rightarrow> Inr \<lparr>nfp_fixed_piece_id = placement_source_piece_id (piece_placement (nfp_fixed input)),
          nfp_moving_piece_id = collision_source_piece_id (nfp_moving input), nfp_polygon = boundary\<rparr>
      | Inl message \<Rightarrow> Inl (invalid_geometry ''computeNfp'' message), s))
      (resolve_nfp_boundary robust js room input algorithm store)"

record geometry_infeasible_error =
  infeasible_operation :: string
  infeasible_message :: string

datatype compute_ifp_bounds_error = Ifp_input_error geometry_input_error | Ifp_infeasible_error geometry_infeasible_error

definition service_compute_ifp_bounds :: "robust \<Rightarrow> (f64 \<Rightarrow> string) \<Rightarrow> memory_layout \<Rightarrow> inner_fit_key_input \<Rightarrow>
    geometry_store \<Rightarrow> ((compute_ifp_bounds_error + ifp_bounds) \<times> geometry_store) option" where
  "service_compute_ifp_bounds robust js room input store =
    map_option (\<lambda>(r, s). (case r of
        Inr (v, key) \<Rightarrow> Inr v
      | Inl failure \<Rightarrow> Inl (case ifp_failure_kind failure of
          Ifp_Invalid \<Rightarrow> Ifp_input_error (invalid_geometry ''computeIfpBounds'' (ifp_failure_message failure))
        | Ifp_Infeasible \<Rightarrow> Ifp_infeasible_error
            \<lparr>infeasible_operation = ''computeIfpBounds'', infeasible_message = ifp_failure_message failure\<rparr>), s))
      (resolve_ifp_bounds robust js room input store)"

subsection \<open>The memo key\<close>

definition LEGAL_CANDIDATE_MEMO_NAMESPACE :: string where
  "LEGAL_CANDIDATE_MEMO_NAMESPACE = ''legal-placement-candidates-v1''"

fun pruning_as_str :: "nfp_candidate_pruning_mode \<Rightarrow> string" where
  "pruning_as_str Pruning_Indexed = ''indexed''"
| "pruning_as_str Pruning_Reference = ''reference''"

fun domain_as_str :: "candidate_domain \<Rightarrow> string" where
  "domain_as_str Domain_Sheet = ''sheet''"
| "domain_as_str Domain_Contact_Only = ''contact-only''"
| "domain_as_str Domain_Sheetless_Nfp = ''sheetless-nfp''"

record placed_piece_key_input =
  pk_points :: "point list"
  pk_translate_x :: f64
  pk_translate_y :: f64

record memo_key_input =
  mk_sheet :: "(f64 \<times> f64) option"
  mk_placed :: "placed_piece_key_input list"
  mk_moving_points :: "point list"
  mk_moving_bounds :: bounds
  mk_settings :: irregular_geometry_settings
  mk_domain :: candidate_domain

definition exact_ordered_polygon_digest :: "(f64 \<Rightarrow> string) \<Rightarrow> point list \<Rightarrow> string" where
  "exact_ordered_polygon_digest js ps = join_with '';'' (map (point_digest js) ps)"

definition join_placed_memo_parts :: "(f64 \<Rightarrow> string) \<Rightarrow> placed_piece_key_input list \<Rightarrow> string" where
  "join_placed_memo_parts js placed = join_with ''|'' (map (\<lambda>p. exact_ordered_polygon_digest js (pk_points p) @ ''@'' @
    point_digest js \<lparr>px = pk_translate_x p, py = pk_translate_y p\<rparr>) placed)"

definition legal_placement_candidate_memo_key :: "(f64 \<Rightarrow> string) \<Rightarrow> memo_key_input \<Rightarrow> string option \<Rightarrow>
    nfp_construction_algorithm \<Rightarrow> nfp_candidate_pruning_mode \<Rightarrow> string" where
  "legal_placement_candidate_memo_key js input prepared_placed algorithm pruning =
    (let sheet_identity = (case mk_sheet input of None \<Rightarrow> ''sheet=deferred''
           | Some (w, h) \<Rightarrow> ''sheet='' @ fold_negative_zero_key js w @ '','' @ fold_negative_zero_key js h);
         placed_joined = (case prepared_placed of Some parts \<Rightarrow> parts | None \<Rightarrow> join_placed_memo_parts js (mk_placed input));
         array_elements = map json_string_for_array_element
           ([LEGAL_CANDIDATE_MEMO_NAMESPACE, sheet_identity, ''placed='' @ placed_joined,
             ''moving='' @ exact_ordered_polygon_digest js (mk_moving_points input),
             ''moving-bounds='' @ bounds_digest js (mk_moving_bounds input)] @
            geometry_settings_parts js (mk_settings input) @
            [''nfp-construction='' @ construction_as_str algorithm, ''candidate-pruning='' @ pruning_as_str pruning,
             ''candidate-domain='' @ domain_as_str (mk_domain input)])
     in ''['' @ join_with '','' array_elements @ '']'')"

definition build_memo_key :: "(f64 \<Rightarrow> string) \<Rightarrow> pieces_at \<Rightarrow> generate_placement_candidates_input \<Rightarrow> string option \<Rightarrow>
    nfp_construction_algorithm \<Rightarrow> nfp_candidate_pruning_mode \<Rightarrow> string" where
  "build_memo_key js heap input prepared algorithm pruning =
    legal_placement_candidate_memo_key js
      \<lparr>mk_sheet = (if gi_domain input = Domain_Sheetless_Nfp then None
         else Some (domain_sheet_width (gi_sheet input), domain_sheet_height (gi_sheet input))),
       mk_placed = (if prepared = None then map (\<lambda>a. let placed = heap a; t = placement_transform (piece_placement placed) in
           \<lparr>pk_points = fixed_polygon placed, pk_translate_x = translate_x t, pk_translate_y = translate_y t\<rparr>) (gi_placed input)
         else []),
       mk_moving_points = collision_polygon (gi_moving input), mk_moving_bounds = collision_bounds (gi_moving input),
       mk_settings = gi_settings input, mk_domain = gi_domain input\<rparr> prepared algorithm pruning"

subsection \<open>The memo\<close>

record cached_legal_candidate_entry =
  ce_candidates :: "(point \<times> string list) list"
  ce_provenance :: "nfp_ifp_candidate_provenance option"

type_synonym legal_candidate_memo = "string \<rightharpoonup> cached_legal_candidate_entry"

definition cache_legal_candidates :: "irregular_placement_candidate list \<Rightarrow> (point \<times> string list) list" where
  "cache_legal_candidates cs = map (\<lambda>c. (cand_point c, cand_diagnostics c)) cs"

definition restore_cached_legal_candidates :: "(point \<times> string list) list \<Rightarrow> transformed_collision_geometry \<Rightarrow>
    irregular_placement_candidate list" where
  "restore_cached_legal_candidates cached moving_geometry = map (\<lambda>(p, diagnostics).
    \<lparr>cand_piece_id = collision_source_piece_id moving_geometry, cand_transform = collision_transform moving_geometry,
     cand_point = p, cand_diagnostics = diagnostics\<rparr>) cached"

text \<open>A hit still observes one checkpoint; the memo is written only after a success.\<close>

definition generate_placement_candidates :: "robust \<Rightarrow> (f64 \<Rightarrow> string) \<Rightarrow> memory_layout \<Rightarrow> 'c poll \<Rightarrow> pieces_at \<Rightarrow>
    generate_placement_candidates_input \<Rightarrow> string option \<Rightarrow> nfp_construction_algorithm \<Rightarrow> nfp_candidate_pruning_mode \<Rightarrow>
    legal_candidate_memo option \<Rightarrow> 'c option \<Rightarrow> geometry_store \<Rightarrow>
    ((nfp_ifp_error + generate_outcome) \<times> legal_candidate_memo option \<times> 'c option \<times> geometry_store) option" where
  "generate_placement_candidates robust js room poll heap input prepared algorithm pruning memo control store =
    (let uncached = map_option (\<lambda>(r, s). (r, gen_control s, gen_store s))
           (generate_placement_candidates_uncached robust js room poll heap input algorithm pruning control store) in
     case memo of None \<Rightarrow> map_option (\<lambda>(r, c, s). (r, None, c, s)) uncached
     | Some table \<Rightarrow>
        (let key = build_memo_key js heap input prepared algorithm pruning in
         case (case table key of None \<Rightarrow> None
             | Some entry \<Rightarrow> if \<not> gi_want_provenance input \<or> ce_provenance entry \<noteq> None then Some entry else None) of
           Some entry \<Rightarrow>
             (case control of
                None \<Rightarrow> Some (Inr \<lparr>go_candidates = restore_cached_legal_candidates (ce_candidates entry) (gi_moving input),
                  go_provenance = (if gi_want_provenance input then ce_provenance entry else None)\<rparr>, memo, None, store)
              | Some c \<Rightarrow> (case poll Phase_Candidate_Points c of
                  (Some e, c') \<Rightarrow> Some (Inl (Nfp_Abort e), memo, Some c', store)
                | (None, c') \<Rightarrow> Some (Inr \<lparr>go_candidates = restore_cached_legal_candidates (ce_candidates entry) (gi_moving input),
                    go_provenance = (if gi_want_provenance input then ce_provenance entry else None)\<rparr>, memo, Some c', store)))
         | None \<Rightarrow> map_option (\<lambda>(r, c, s). (case r of
               Inl e \<Rightarrow> (Inl e, memo, c, s)
             | Inr outcome \<Rightarrow> (Inr outcome, Some (table(key \<mapsto> \<lparr>ce_candidates = cache_legal_candidates (go_candidates outcome),
                 ce_provenance = go_provenance outcome\<rparr>)), c, s))) uncached))"

definition stamped :: "transformed_collision_geometry \<Rightarrow> irregular_placement_candidate \<Rightarrow> irregular_placement_candidate" where
  "stamped moving_geometry c = c\<lparr>cand_piece_id := collision_source_piece_id moving_geometry,
    cand_transform := collision_transform moving_geometry\<rparr>"

lemma restore_cached: "restore_cached_legal_candidates (cache_legal_candidates cs) moving_geometry = map (stamped moving_geometry) cs"
  by (simp add: restore_cached_legal_candidates_def cache_legal_candidates_def stamped_def)

lemma restore_stamped: "restore_cached_legal_candidates ps m = map (stamped m) (restore_cached_legal_candidates ps n)"
  by (auto simp: restore_cached_legal_candidates_def stamped_def)

text \<open>
  C39. The memo replays an answer for the same question. After a successful request, a request with the
  same memo key that carries no control, and that wants provenance only if the first answer recorded one,
  is served from the memo, without touching the geometry store: it gets the same points in the same order
  under its own piece's identity and transform, with the recorded provenance when it asks for it.
\<close>

theorem memo_replays_answer:
  assumes "generate_placement_candidates robust js room poll heap input prepared algorithm pruning (Some memo) control store =
      Some (Inr outcome, Some memo', control', store')"
    and "build_memo_key js heap later prepared' algorithm' pruning' = build_memo_key js heap input prepared algorithm pruning"
    and "gi_want_provenance later \<longrightarrow> go_provenance outcome \<noteq> None"
  shows "generate_placement_candidates robust js room poll heap later prepared' algorithm' pruning' (Some memo') None store2 =
    Some (Inr \<lparr>go_candidates = map (stamped (gi_moving later)) (go_candidates outcome),
      go_provenance = (if gi_want_provenance later then go_provenance outcome else None)\<rparr>, Some memo', None, store2)"
proof -
  let ?key = "build_memo_key js heap input prepared algorithm pruning"
  let ?accepts = "\<lambda>e. \<not> gi_want_provenance input \<or> ce_provenance e \<noteq> None"
  have "\<exists>e. memo' ?key = Some e \<and> (gi_want_provenance later \<longrightarrow> ce_provenance e = go_provenance outcome) \<and>
    restore_cached_legal_candidates (ce_candidates e) (gi_moving later) = map (stamped (gi_moving later)) (go_candidates outcome)"
  proof (cases "\<exists>e. memo ?key = Some e \<and> ?accepts e")
    case True
    then obtain e where e: "memo ?key = Some e" "?accepts e" by blast
    then have "memo' = memo" "go_candidates outcome = restore_cached_legal_candidates (ce_candidates e) (gi_moving input)"
        "go_provenance outcome = (if gi_want_provenance input then ce_provenance e else None)"
      using assms(1) unfolding generate_placement_candidates_def
      by (auto simp: Let_def split: option.splits prod.splits)
    then show ?thesis using e assms(3) restore_stamped by auto
  next
    case False
    then have n: "(case memo ?key of None \<Rightarrow> None | Some entry \<Rightarrow>
        if \<not> gi_want_provenance input \<or> ce_provenance entry \<noteq> None then Some entry else None) = None"
      by (auto split: option.splits)
    obtain r :: "nfp_ifp_error + generate_outcome" and c st where "(case r of Inl e \<Rightarrow> (Inl e, Some memo, c, st)
        | Inr out \<Rightarrow> (Inr out, Some (memo(?key \<mapsto> \<lparr>ce_candidates = cache_legal_candidates (go_candidates out),
            ce_provenance = go_provenance out\<rparr>)), c, st)) = (Inr outcome, Some memo', control', store')"
      using assms(1) unfolding generate_placement_candidates_def Let_def option.case n by (auto intro: that)
    then have "memo' ?key = Some \<lparr>ce_candidates = cache_legal_candidates (go_candidates outcome), ce_provenance = go_provenance outcome\<rparr>"
      by (cases r) auto
    then show ?thesis by (simp add: restore_cached)
  qed
  then show ?thesis using assms(3)
    unfolding generate_placement_candidates_def assms(2) by (auto simp: Let_def)
qed

end
