(* ===== verification/F64Eval.thy ===== *)
theory F64Eval
  imports F64
begin

text \<open>
  Evaluating binary64 arithmetic on small integers by simplification, for the concrete inputs of
  the witnesses.
\<close>

named_theorems f64_eval \<open>values of binary64 operations on small integers\<close>

lemma round_to_numeral [f64_eval]:
  assumes "(numeral n :: int) \<le> 2 ^ 53"
  shows "round_to s (numeral n) = Finite s (numeral n)"
  using round_to_int [of "numeral n" s] assms by simp

lemma round_to_01 [f64_eval]: "round_to s 0 = Finite s 0" "round_to s 1 = Finite s 1"
  using round_to_int [of 0 s] round_to_int [of 1 s] by simp_all

lemma lit_01 [f64_eval]: "lit 0 = Finite False 0" "lit 1 = Finite False 1"
  by (simp_all add: lit_def f64_eval)

lemma lit_numeral [f64_eval]: "(numeral n :: int) \<le> 2 ^ 53 \<Longrightarrow> lit (numeral n) = Finite False (numeral n)"
  by (simp add: lit_def f64_eval)

lemma lit_half_powers [f64_eval]:
  "lit (1 / 4) = Finite False (1 / 4)" "lit (1 / 128) = Finite False (1 / 128)"
  using round_mag_exact [of "1 / 4" 1 "- 2"] round_mag_exact [of "1 / 128" 1 "- 7"]
  by (simp_all add: lit_def round_to_def f64_top_def Let_def power_int_minus)

lemma lit_hundredth: "is_finite (lit (1 / 100))" "\<not> fle (lit (1 / 100)) f64_zero" "\<not> flt (lit (1 / 100)) f64_zero"
  "0 < f64_val (lit (1 / 100))"
proof -
  have "round_mag (1 / 100) \<le> round_mag 1" by (rule round_mag_mono) simp_all
  also have "\<dots> = 1" using round_mag_int [of 1] by simp
  finally have 1: "round_mag (1 / 100) \<le> 1" .
  have "1 / 128 = round_mag (1 / 128)" using round_mag_exact [of "1 / 128" 1 "- 7"] by (simp add: power_int_minus)
  also have "\<dots> \<le> round_mag (1 / 100)" by (rule round_mag_mono) simp_all
  finally have 2: "1 / 128 \<le> round_mag (1 / 100)" .
  from 1 have "round_mag (1 / 100) < f64_top" by (simp add: f64_top_def)
  with 2 show "is_finite (lit (1 / 100))" "\<not> fle (lit (1 / 100)) f64_zero" "\<not> flt (lit (1 / 100)) f64_zero"
    "0 < f64_val (lit (1 / 100))" by (auto simp: lit_def round_to_def fle_def)
qed

end
