(* ===== verification/SpatialQuery.thy ===== *)
theory SpatialQuery
  imports SpatialIndex F64Eval
begin

text \<open>
  The query of the spatial index is exact: whatever the grid does, it returns the entries a linear
  scan would keep. Floating-point division and \<open>floor\<close> are monotone, so two boxes that are not
  disjoint share a cell of the grid.
\<close>

subsection \<open>Monotone rounding\<close>

definition srnd :: "rat \<Rightarrow> rat" where
  "srnd v = (if v < 0 then - round_mag (- v) else round_mag v)"

lemma srnd_mono: "a \<le> b \<Longrightarrow> srnd a \<le> srnd b"
proof -
  assume ab: "a \<le> b"
  have "- round_mag (- a) \<le> round_mag b" if "a < 0" "0 \<le> b"
    using round_mag_nonneg [of "- a"] round_mag_nonneg [of b] that by simp
  then show ?thesis using ab round_mag_mono [of a b] round_mag_mono [of "- b" "- a"] by (auto simp: srnd_def)
qed

lemma fdiv_val:
  assumes "is_finite a" "f64_ok a" "c = Finite False m" "0 < m" "is_finite (fdiv a c)"
  shows "f64_val (fdiv a c) = srnd (f64_val a / m)"
proof -
  obtain s n where a: "a = Finite s n" using assms(1) by (cases a) auto
  have n: "0 \<le> n" using assms(2) by (simp add: a)
  have "n / m < 0 \<longleftrightarrow> False" using n assms(4) by (simp add: divide_less_0_iff)
  then have "srnd (n / m) = round_mag (n / m)" "srnd (- n / m) = - round_mag (n / m)"
    using n assms(4) by (auto simp: srnd_def divide_less_0_iff zero_less_divide_iff)
  then show ?thesis
    using assms(4,5) by (auto simp: a assms(3) round_to_def Let_def split: if_splits)
qed

lemma fdiv_mono:
  assumes "is_finite a" "f64_ok a" "is_finite b" "f64_ok b" "c = Finite False m" "0 < m"
    and "is_finite (fdiv a c)" "is_finite (fdiv b c)" "\<not> flt b a"
  shows "f64_val (fdiv a c) \<le> f64_val (fdiv b c)"
proof -
  have "f64_val a \<le> f64_val b" using assms(1,3,9) by (cases a; cases b) auto
  then have "f64_val a / m \<le> f64_val b / m" using assms(6) by (simp add: divide_right_mono)
  then show ?thesis
    unfolding fdiv_val [OF assms(1,2,5,6,7)] fdiv_val [OF assms(3,4,5,6,8)] by (rule srnd_mono)
qed

lemma ffloor_val: "is_finite v \<Longrightarrow> f64_val (ffloor v) = of_int \<lfloor>f64_val v\<rfloor>"
  by (cases v) (auto simp: floor_minus)

lemma ffloor_finite: "is_finite (ffloor v) = is_finite v"
  by (cases v) auto

lemma js_safe_floor:
  assumes "is_js_safe_integer (ffloor v)" "f64_ok v"
  shows "is_finite v \<and> as_i64 (ffloor v) = \<lfloor>f64_val v\<rfloor>"
proof -
  obtain s m where v: "v = Finite s m" "0 \<le> m"
    using assms by (cases v) (auto simp: is_js_safe_integer_def)
  let ?k = "if s then \<lceil>m\<rceil> else \<lfloor>m\<rfloor>"
  have k: "0 \<le> ?k" using v(2) by auto
  have M: "JS_MAX_SAFE_INTEGER = Finite False 9007199254740991"
    using lit_numeral [of "Num.num_of_nat 9007199254740991"] by (simp add: JS_MAX_SAFE_INTEGER_def f64_eval)
  have "(of_int ?k :: rat) \<le> 9007199254740991"
    using assms(1) by (auto simp: is_js_safe_integer_def v M fle_def split: if_splits) linarith+
  then have "(of_int ?k :: rat) \<le> of_int 9007199254740991" by simp
  then have "?k \<le> 9007199254740991" unfolding of_int_le_iff .
  then have t: "\<bar>\<lfloor>f64_val v\<rfloor>\<bar> \<le> 9007199254740991" using k by (auto simp: v floor_minus split: if_splits)
  have "trunc_int (ffloor v) = \<lfloor>f64_val v\<rfloor>" by (simp add: v floor_minus)
  moreover have "as_i64 (ffloor v) = max (- (2 ^ 63)) (min (2 ^ 63 - 1) (trunc_int (ffloor v)))" by (simp add: v)
  ultimately show ?thesis using t by (simp add: v(1))
qed

definition bounds_ok :: "bounds \<Rightarrow> bool" where
  "bounds_ok b \<longleftrightarrow> f64_ok (min_x b) \<and> f64_ok (min_y b) \<and> f64_ok (max_x b) \<and> f64_ok (max_y b)"

text \<open>The cells of a box: the floors of its sides over the cell size.\<close>

definition cell_of :: "f64 \<Rightarrow> f64 \<Rightarrow> int" where
  "cell_of c v = \<lfloor>f64_val (fdiv v c)\<rfloor>"

lemma grid_cell_range_of_Some:
  assumes "grid_cell_range_of b c n = Some r" "bounds_ok b" "c = Finite False m" "0 < m" "f64_ok c"
  shows "r = \<lparr>cell_min_x = cell_of c (min_x b), cell_min_y = cell_of c (min_y b),
      cell_max_x = cell_of c (max_x b), cell_max_y = cell_of c (max_y b)\<rparr> \<and>
    (\<forall>v \<in> {min_x b, min_y b, max_x b, max_y b}. is_finite v \<and> is_finite (fdiv v c)) \<and>
    \<not> flt (max_x b) (min_x b) \<and> \<not> flt (max_y b) (min_y b)"
proof -
  note ok = f64_ok_fdiv [OF _ assms(5)]
  have "is_js_safe_integer (ffloor (fdiv v c)) \<and> is_finite v" if "v \<in> {min_x b, min_y b, max_x b, max_y b}" for v
    using assms(1) that by (auto simp: grid_cell_range_of_def Let_def split: if_splits)
  moreover have "f64_ok v" if "v \<in> {min_x b, min_y b, max_x b, max_y b}" for v
    using assms(2) that by (auto simp: bounds_ok_def)
  ultimately have f: "is_finite v \<and> is_finite (fdiv v c) \<and> as_i64 (ffloor (fdiv v c)) = cell_of c v"
    if "v \<in> {min_x b, min_y b, max_x b, max_y b}" for v
    using js_safe_floor [of "fdiv v c"] ok that by (auto simp: cell_of_def)
  have "r = \<lparr>cell_min_x = as_i64 (ffloor (fdiv (min_x b) c)), cell_min_y = as_i64 (ffloor (fdiv (min_y b) c)),
      cell_max_x = as_i64 (ffloor (fdiv (max_x b) c)), cell_max_y = as_i64 (ffloor (fdiv (max_y b) c))\<rparr> \<and>
    \<not> flt (max_x b) (min_x b) \<and> \<not> flt (max_y b) (min_y b)"
    using assms(1) by (auto simp: grid_cell_range_of_def Let_def split: if_splits)
  then show ?thesis using f by auto
qed

lemma cell_of_mono:
  assumes "is_finite a" "f64_ok a" "is_finite b" "f64_ok b" "c = Finite False m" "0 < m"
    and "is_finite (fdiv a c)" "is_finite (fdiv b c)" "\<not> flt b a"
  shows "cell_of c a \<le> cell_of c b"
  unfolding cell_of_def using fdiv_mono [OF assms] by (rule floor_mono)

lemma range_cells_iff: "(x, y) \<in> set (range_cells r) \<longleftrightarrow>
    cell_min_x r \<le> x \<and> x \<le> cell_max_x r \<and> cell_min_y r \<le> y \<and> y \<le> cell_max_y r"
  by (force simp: range_cells_def)

text \<open>Two boxes that are not disjoint share a cell.\<close>

lemma shared_cell:
  assumes "grid_cell_range_of a c n = Some r" "grid_cell_range_of b c k = Some t" "bounds_ok a" "bounds_ok b"
    and "c = Finite False m" "0 < m" "f64_ok c" "\<not> are_disjoint a b"
  shows "\<exists>cell. cell \<in> set (range_cells r) \<and> cell \<in> set (range_cells t)"
proof -
  note r = grid_cell_range_of_Some [OF assms(1,3,5,6,7)] and t = grid_cell_range_of_Some [OF assms(2,4,5,6,7)]
  have d: "\<not> flt (max_x a) (min_x b)" "\<not> flt (max_x b) (min_x a)" "\<not> flt (max_y a) (min_y b)" "\<not> flt (max_y b) (min_y a)"
    using assms(8) by (auto simp: are_disjoint_def)
  note m = cell_of_mono [OF _ _ _ _ assms(5,6)]
  have x: "cell_of c (min_x a) \<le> cell_of c (max_x a)" "cell_of c (min_x b) \<le> cell_of c (max_x b)"
    "cell_of c (min_x b) \<le> cell_of c (max_x a)" "cell_of c (min_x a) \<le> cell_of c (max_x b)"
    by (rule m; use r t d assms(3,4) in \<open>simp add: bounds_ok_def\<close>)+
  have y: "cell_of c (min_y a) \<le> cell_of c (max_y a)" "cell_of c (min_y b) \<le> cell_of c (max_y b)"
    "cell_of c (min_y b) \<le> cell_of c (max_y a)" "cell_of c (min_y a) \<le> cell_of c (max_y b)"
    by (rule m; use r t d assms(3,4) in \<open>simp add: bounds_ok_def\<close>)+
  let ?c = "(max (cell_of c (min_x a)) (cell_of c (min_x b)), max (cell_of c (min_y a)) (cell_of c (min_y b)))"
  have "?c \<in> set (range_cells r)" "?c \<in> set (range_cells t)"
    using r t x y by (simp_all add: range_cells_iff)
  then show ?thesis by blast
qed

subsection \<open>The bitmap\<close>

lemma select_spec:
  "\<forall>e \<in> set es. entry_ordinal e < length s \<Longrightarrow> \<exists>t. select es s = Some t \<and> length t = length s \<and>
    (\<forall>i < length s. t ! i \<longleftrightarrow> s ! i \<or> i \<in> entry_ordinal ` set es)"
proof (induction es arbitrary: s)
  case (Cons e es)
  then have "\<forall>d \<in> set es. entry_ordinal d < length (s[entry_ordinal e := True])" by simp
  from Cons.IH [OF this] obtain t where t: "select es (s[entry_ordinal e := True]) = Some t" "length t = length s"
    "\<forall>i < length s. t ! i \<longleftrightarrow> s[entry_ordinal e := True] ! i \<or> i \<in> entry_ordinal ` set es" by auto
  moreover have "entry_ordinal e < length s" using Cons.prems by simp
  ultimately show ?case by (intro exI [of _ t]) (auto simp: nth_list_update)
qed simp

lemma select_cells_spec:
  "\<forall>k es. map_of (buckets index) k = Some es \<longrightarrow> (\<forall>e \<in> set es. entry_ordinal e < length s) \<Longrightarrow>
    \<exists>t. select_cells index cells s = Some t \<and> length t = length s \<and>
    (\<forall>i < length s. t ! i \<longleftrightarrow> s ! i \<or> (\<exists>cell \<in> set cells. \<exists>es.
      map_of (buckets index) (cell_key cell) = Some es \<and> i \<in> entry_ordinal ` set es))"
proof (induction cells arbitrary: s)
  case (Cons cell cells)
  show ?case
  proof (cases "map_of (buckets index) (cell_key cell)")
    case None
    then show ?thesis using Cons by simp
  next
    case (Some bucket)
    then have "\<forall>e \<in> set bucket. entry_ordinal e < length s" using Cons.prems by blast
    from select_spec [OF this] obtain u where u: "select bucket s = Some u" "length u = length s"
      "\<forall>i < length s. u ! i \<longleftrightarrow> s ! i \<or> i \<in> entry_ordinal ` set bucket" by blast
    from Cons.IH [of u] Cons.prems u(2) obtain t where t: "select_cells index cells u = Some t" "length t = length s"
      "\<forall>i < length s. t ! i \<longleftrightarrow> u ! i \<or> (\<exists>cell \<in> set cells. \<exists>es.
        map_of (buckets index) (cell_key cell) = Some es \<and> i \<in> entry_ordinal ` set es)" by auto
    then show ?thesis using u Some by (intro exI [of _ t]) auto
  qed
qed simp

subsection \<open>The invariant of the index\<close>

definition bucket_at :: "(string \<times> spatial_entry list) list \<Rightarrow> string \<Rightarrow> spatial_entry set" where
  "bucket_at bs k = (case map_of bs k of None \<Rightarrow> {} | Some es \<Rightarrow> set es)"

definition filed :: "spatial_index \<Rightarrow> spatial_entry \<Rightarrow> bool" where
  "filed index e \<longleftrightarrow> (case Option.bind (validation_bounds (entry_validation e))
      (\<lambda>b. grid_cell_range_of b (cell_size_mm index) MAX_GRID_CELLS_PER_ENTRY) of
    None \<Rightarrow> e \<in> set (fallback_entries index)
  | Some r \<Rightarrow> \<forall>cell \<in> set (range_cells r). e \<in> bucket_at (buckets index) (cell_key cell))"

definition index_inv :: "spatial_index \<Rightarrow> bool" where
  "index_inv index \<longleftrightarrow>
    (\<exists>m. cell_size_mm index = Finite False m \<and> 0 < m \<and> f64_ok (cell_size_mm index)) \<and>
    map entry_ordinal (index_entries index) = [0..<length (index_entries index)] \<and>
    (\<forall>e \<in> set (index_entries index). \<forall>b. validation_bounds (entry_validation e) = Some b \<longrightarrow> bounds_ok b) \<and>
    set (fallback_entries index) \<subseteq> set (index_entries index) \<and>
    (\<forall>k. bucket_at (buckets index) k \<subseteq> set (index_entries index)) \<and>
    (\<forall>e \<in> set (index_entries index). filed index e)"

lemma map_of_push: "map_of (push_bucket e cell bs) = (map_of bs)(cell_key cell \<mapsto>
    (case map_of bs (cell_key cell) of None \<Rightarrow> [] | Some es \<Rightarrow> es) @ [e])"
  by (simp add: push_bucket_def Let_def update_conv')

lemma bucket_at_push: "bucket_at (push_bucket e cell bs) k = (if k = cell_key cell then insert e (bucket_at bs k) else bucket_at bs k)"
  by (auto simp: bucket_at_def map_of_push split: option.splits)

lemma bucket_at_pushes:
  "bucket_at (fold (push_bucket e) cells bs) k = (if k \<in> cell_key ` set cells then insert e (bucket_at bs k) else bucket_at bs k)"
  by (induction cells arbitrary: bs) (auto simp: bucket_at_push)

lemma bucket_at_iff: "e \<in> bucket_at bs k \<longleftrightarrow> (\<exists>es. map_of bs k = Some es \<and> e \<in> set es)"
  by (auto simp: bucket_at_def split: option.splits)

lemma bucket_at_subset: "(\<forall>k es. map_of bs k = Some es \<longrightarrow> set es \<subseteq> A) \<longleftrightarrow> (\<forall>k. bucket_at bs k \<subseteq> A)"
  by (auto simp: bucket_at_def split: option.splits)

lemma js_extrema_ok: "f64_ok a \<Longrightarrow> f64_ok b \<Longrightarrow> f64_ok (js_min a b) \<and> f64_ok (js_max a b)"
  by (simp add: js_min_def js_max_def)

lemma bounds_ok_widen: "bounds_ok b \<Longrightarrow> bounds_ok (widen b (translated p t))"
  unfolding bounds_ok_def widen_def translated_def using js_extrema_ok f64_ok_fadd by simp

lemma translate_loop_ok:
  "translate_loop t acc b ps = Some m \<Longrightarrow> bounds_ok b \<Longrightarrow> bounds_ok (pwb_bounds m)"
proof (induction ps arbitrary: acc b)
  case Nil
  then show ?case by (auto simp: make_bounds_def bounds_ok_def split: if_splits)
next
  case (Cons p ps)
  have "translate_loop t (acc @ [translated p t]) (widen b (translated p t)) ps = Some m"
    using Cons.prems(1) by (simp add: Let_def split: if_splits)
  then show ?case using bounds_ok_widen [OF Cons.prems(2)] by (rule Cons.IH)
qed

lemma translate_bounds_ok:
  assumes "translate_polygon_with_bounds ps t = Some m"
  shows "bounds_ok (pwb_bounds m)"
proof -
  obtain p qs where "ps = p # qs" using assms by (cases ps) (auto simp: translate_polygon_with_bounds_def)
  with assms have "translate_loop t [translated p t] (point_bounds (translated p t)) qs = Some m"
    by (simp add: translate_polygon_with_bounds_def Let_def split: if_splits)
  then show ?thesis
    by (rule translate_loop_ok) (simp add: bounds_ok_def point_bounds_def translated_def f64_ok_fadd)
qed

lemma make_entry_facts:
  "entry_ordinal (make_entry robust heap p n) = n" "entry_placed (make_entry robust heap p n) = p"
  "validation_bounds (entry_validation (make_entry robust heap p n)) = Some b \<Longrightarrow> bounds_ok b"
  by (auto simp: make_entry_def Let_def translate_bounds_ok split: option.splits strict_convex_boundary_validation.splits)

lemma index_inv_empty: "case sz of None \<Rightarrow> True | Some v \<Rightarrow> f64_ok v \<Longrightarrow>
  index_inv (make_empty_placed_collision_spatial_index sz)"
proof -
  assume ok: "case sz of None \<Rightarrow> True | Some v \<Rightarrow> f64_ok v"
  have d: "DEFAULT_PLACED_COLLISION_GRID_CELL_SIZE_MM = Finite False 64"
    by (simp add: DEFAULT_PLACED_COLLISION_GRID_CELL_SIZE_MM_def f64_eval)
  have "f64_ok (Finite False 64)" using f64_ok_lit [of 64] by (simp add: f64_eval)
  moreover have "\<exists>m. v = Finite False m \<and> 0 < m" if "is_finite v" "flt f64_zero v" "f64_ok v" for v
    using that by (cases v) (auto split: if_splits)
  ultimately show ?thesis
    using ok by (auto simp: index_inv_def make_empty_placed_collision_spatial_index_def valid_cell_size_def d bucket_at_def
        simp del: f64_ok.simps split: option.splits)
qed

lemma index_inv_add:
  assumes "index_inv index"
  shows "index_inv (add_entry robust heap index p)"
proof -
  let ?e = "make_entry robust heap p (length (index_entries index))"
  let ?r = "Option.bind (validation_bounds (entry_validation ?e)) (\<lambda>b. grid_cell_range_of b (cell_size_mm index) MAX_GRID_CELLS_PER_ENTRY)"
  let ?i = "add_entry robust heap index p"
  have es: "index_entries ?i = index_entries index @ [?e]" "cell_size_mm ?i = cell_size_mm index"
    by (auto simp: add_entry_def Let_def split: option.splits)
  have fb: "fallback_entries ?i = (if ?r = None then fallback_entries index @ [?e] else fallback_entries index)"
    by (auto simp: add_entry_def Let_def split: option.splits)
  have bs: "buckets ?i = (case ?r of None \<Rightarrow> buckets index | Some r \<Rightarrow> fold (push_bucket ?e) (range_cells r) (buckets index))"
    by (auto simp: add_entry_def Let_def split: option.splits)
  have mono: "bucket_at (buckets index) k \<subseteq> bucket_at (buckets ?i) k" for k
    by (auto simp: bs bucket_at_pushes split: option.splits)
  have old: "filed ?i e" if "filed index e" for e
    using that mono unfolding filed_def es(2) fb by (auto split: option.splits)
  have new: "filed ?i ?e"
    unfolding filed_def es(2) by (auto simp: fb bs bucket_at_pushes split: option.splits)
  show ?thesis
    unfolding index_inv_def es
  proof (intro conjI)
    show "\<exists>m. cell_size_mm index = Finite False m \<and> 0 < m \<and> f64_ok (cell_size_mm index)"
      using assms unfolding index_inv_def by blast
    show "map entry_ordinal (index_entries index @ [?e]) = [0..<length (index_entries index @ [?e])]"
      using assms by (simp add: index_inv_def make_entry_facts)
    show "\<forall>e \<in> set (index_entries index @ [?e]). \<forall>b. validation_bounds (entry_validation e) = Some b \<longrightarrow> bounds_ok b"
      using assms make_entry_facts(3) by (auto simp: index_inv_def)
    show "set (fallback_entries ?i) \<subseteq> set (index_entries index @ [?e])"
      using assms unfolding fb index_inv_def by auto
    show "\<forall>k. bucket_at (buckets ?i) k \<subseteq> set (index_entries index @ [?e])"
      using assms unfolding index_inv_def by (auto simp: bs bucket_at_pushes split: option.splits if_splits)
    show "\<forall>e \<in> set (index_entries index @ [?e]). filed ?i e"
      using assms old new by (auto simp: index_inv_def)
  qed
qed

lemma index_inv_make:
  assumes "case sz of None \<Rightarrow> True | Some v \<Rightarrow> f64_ok v"
  shows "index_inv (make_placed_collision_spatial_index robust heap placed sz) \<and>
    index_entries (make_placed_collision_spatial_index robust heap placed sz) =
      map (\<lambda>(i, p). make_entry robust heap p i) (enumerate 0 placed)"
proof (induction placed rule: rev_induct)
  case Nil
  then show ?case using index_inv_empty [OF assms]
    by (simp add: make_placed_collision_spatial_index_def) (simp add: make_empty_placed_collision_spatial_index_def)
next
  case (snoc p ps)
  then have "length (index_entries (make_placed_collision_spatial_index robust heap ps sz)) = length ps" by simp
  with snoc show ?case
    using index_inv_add [of "make_placed_collision_spatial_index robust heap ps sz" robust heap p]
    by (auto simp: make_placed_collision_spatial_index_def enumerate_append_eq add_entry_def Let_def split: option.splits)
qed

subsection \<open>The query\<close>

definition relevant :: "bounds option \<Rightarrow> spatial_entry \<Rightarrow> bool" where
  "relevant query_bounds e = (case (entry_validation e, query_bounds) of
     (Validation_Valid v, Some b) \<Rightarrow> \<not> are_disjoint (pwb_bounds (indexed_polygon v)) b
   | _ \<Rightarrow> True)"

lemma are_disjoint_sym: "are_disjoint a b = are_disjoint b a"
  by (auto simp: are_disjoint_def)

text \<open>Every relevant entry is selected.\<close>

lemma relevant_reached:
  assumes inv: "index_inv index" and e: "e \<in> set (index_entries index)" "relevant (Some b) e"
    and r: "grid_cell_range_of b (cell_size_mm index) n = Some r" and ok: "bounds_ok b"
  shows "e \<in> set (fallback_entries index) \<or> (\<exists>cell \<in> set (range_cells r). e \<in> bucket_at (buckets index) (cell_key cell))"
proof -
  obtain m where m: "cell_size_mm index = Finite False m" "0 < m" "f64_ok (cell_size_mm index)"
    using inv unfolding index_inv_def by blast
  have f: "filed index e" using inv e(1) by (simp add: index_inv_def)
  show ?thesis
  proof (cases "Option.bind (validation_bounds (entry_validation e))
      (\<lambda>b. grid_cell_range_of b (cell_size_mm index) MAX_GRID_CELLS_PER_ENTRY)")
    case None
    then show ?thesis using f by (simp add: filed_def)
  next
    case (Some t)
    then obtain d where d: "validation_bounds (entry_validation e) = Some d"
      "grid_cell_range_of d (cell_size_mm index) MAX_GRID_CELLS_PER_ENTRY = Some t"
      by (auto simp: bind_eq_Some_conv)
    have "\<not> are_disjoint d b" using d(1) e(2) by (cases "entry_validation e") (auto simp: relevant_def)
    moreover have "bounds_ok d" using inv e(1) d(1) unfolding index_inv_def by blast
    ultimately obtain cell where "cell \<in> set (range_cells t)" "cell \<in> set (range_cells r)"
      using shared_cell [OF d(2) r _ ok m] by blast
    then show ?thesis using f Some by (auto simp: filed_def)
  qed
qed

lemma query_refs_filter:
  assumes inv: "index_inv index" and ok: "case qb of None \<Rightarrow> True | Some b \<Rightarrow> bounds_ok b"
  shows "query_refs index qb = Some (filter (relevant qb) (index_entries index))"
proof -
  let ?n = "length (index_entries index)"
  have ords: "map entry_ordinal (index_entries index) = [0..<?n]" using inv by (simp add: index_inv_def)
  then have "entry_ordinal ` set (index_entries index) = {0..<?n}" by (metis set_map set_upt)
  then have lt: "entry_ordinal e < ?n" if "e \<in> set (index_entries index)" for e using that by auto
  have inj: "e = d" if "e \<in> set (index_entries index)" "d \<in> set (index_entries index)" "entry_ordinal e = entry_ordinal d" for d e
    using that ords by (metis distinct_upt distinct_map inj_onD)
  have fb: "\<forall>e \<in> set (fallback_entries index). e \<in> set (index_entries index)"
    and bk: "\<forall>k. bucket_at (buckets index) k \<subseteq> set (index_entries index)"
    and inval: "validation_bounds (entry_validation e) = None \<Longrightarrow> e \<in> set (index_entries index) \<Longrightarrow> e \<in> set (fallback_entries index)" for e
    using inv by (auto simp: index_inv_def filed_def)
  obtain s where s: "select (fallback_entries index) (replicate ?n False) = Some s" "length s = ?n"
    "\<forall>i < ?n. s ! i \<longleftrightarrow> i \<in> entry_ordinal ` set (fallback_entries index)"
    using select_spec [of "fallback_entries index" "replicate ?n False"] fb lt by auto
  have hit: "s ! entry_ordinal e \<longleftrightarrow> e \<in> set (fallback_entries index)" if "e \<in> set (index_entries index)" for e
    using s(3) lt [OF that] inj [OF that] fb by auto
  have "\<exists>t. query_selected index qb = Some t \<and> length t = ?n \<and>
      (\<forall>e \<in> set (index_entries index). relevant qb e \<longrightarrow> t ! entry_ordinal e)"
  proof (cases "Option.bind qb (\<lambda>b. grid_cell_range_of b (cell_size_mm index) MAX_GRID_CELLS_PER_QUERY)")
    case None
    obtain t where t: "select (index_entries index) s = Some t" "length t = ?n"
      "\<forall>i < ?n. t ! i \<longleftrightarrow> s ! i \<or> i \<in> entry_ordinal ` set (index_entries index)"
      using select_spec [of "index_entries index" s] lt s(2) by auto
    then show ?thesis using None s lt by (simp add: query_selected_def)
  next
    case (Some r)
    then obtain b where b: "qb = Some b" "grid_cell_range_of b (cell_size_mm index) MAX_GRID_CELLS_PER_QUERY = Some r"
      by (auto simp: bind_eq_Some_conv)
    have "\<forall>k es. map_of (buckets index) k = Some es \<longrightarrow> (\<forall>e \<in> set es. entry_ordinal e < length s)"
      using bk lt s(2) bucket_at_iff by (metis subsetD)
    from select_cells_spec [OF this, of "range_cells r"] obtain t where
      t: "select_cells index (range_cells r) s = Some t" "length t = length s"
      "\<forall>i < length s. t ! i \<longleftrightarrow> s ! i \<or> (\<exists>cell \<in> set (range_cells r). \<exists>es.
        map_of (buckets index) (cell_key cell) = Some es \<and> i \<in> entry_ordinal ` set es)" by blast
    have "t ! entry_ordinal e" if e: "e \<in> set (index_entries index)" "relevant qb e" for e
    proof -
      have "e \<in> set (fallback_entries index) \<or> (\<exists>cell \<in> set (range_cells r). e \<in> bucket_at (buckets index) (cell_key cell))"
        using relevant_reached [OF inv e(1) _ b(2)] e(2) ok by (simp add: b(1))
      then show ?thesis using t(3) lt [OF e(1)] s(2) hit [OF e(1)] by (auto simp: bucket_at_iff)
    qed
    then show ?thesis using t s Some by (simp add: query_selected_def)
  qed
  then obtain t where t: "query_selected index qb = Some t" "length t = ?n"
    "\<forall>e \<in> set (index_entries index). relevant qb e \<longrightarrow> t ! entry_ordinal e" by blast
  have "entry_kept t qb e = relevant qb e" if "e \<in> set (index_entries index)" for e
    using t(3) that by (auto simp: entry_kept_def relevant_def split: placed_collision_validation.splits option.splits)
  then have "filter (entry_kept t qb) (index_entries index) = filter (relevant qb) (index_entries index)"
    by (intro filter_cong) auto
  moreover have "list_all (\<lambda>entry. entry_ordinal entry < length t) (index_entries index)"
    using lt t(2) by (simp add: list_all_iff)
  ultimately show ?thesis using t(1) by (simp add: query_refs_def)
qed

text \<open>
  C3. The grid is invisible: a query of an index built by adding placed pieces, with any cell size and
  any bounds, never panics and returns, in insertion order, exactly the entries a linear scan
  keeps: the invalid ones, and the valid ones whose bounds are not disjoint from the query's.
\<close>

theorem spatial_query_exact:
  assumes "case cell_size of None \<Rightarrow> True | Some v \<Rightarrow> f64_ok v" "case query_bounds of None \<Rightarrow> True | Some b \<Rightarrow> bounds_ok b"
  shows "query (make_placed_collision_spatial_index robust heap placed cell_size) query_bounds =
    Some (filter (relevant query_bounds) (map (\<lambda>(i, p). make_entry robust heap p i) (enumerate 0 placed)))"
  using query_refs_filter [OF _ assms(2)] index_inv_make [OF assms(1), of robust heap placed] by (simp add: query_def)

end
