(* ===== verification/StrictBoundary.thy ===== *)
theory StrictBoundary
  imports ConvexHull
begin

text \<open>
  \<open>validate_strict_boundary\<close> accepts every strictly convex ring, on its linear path (one revolution)
  and on its quadratic one (no two edges meet), and reports its winding.
\<close>

lemma orientation_side:
  assumes e: "exact_on robust (set ps)" and c: "convex_ring (of_int w) (ring ps)" and i: "i < length ps" and j: "j < length ps"
    and off: "j \<noteq> i" "j \<noteq> nx (length ps) i"
  shows "orientation robust (ps ! i) (ps ! nx (length ps) i) (ps ! j) = w"
proof -
  have w: "w = 1 \<or> w = - 1"
    using c unfolding convex_ring_def of_int_eq_1_iff by (metis of_int_1 of_int_eq_iff of_int_minus)
  have "0 < side (of_int w) (ring ps) i (ring ps ! j)" using c i j off by (simp add: convex_ring_def)
  then have "0 < side (of_int w) (ring ps) i (pt (ps ! j))" using j by simp
  then show ?thesis
    using orientation_winding(1) [OF e _ _ nth_mem [OF j] w] edge_in_set [OF i] unfolding side_ring [OF i] by blast
qed

subsection \<open>Corners\<close>

lemma scan_corners_constant:
  assumes "\<forall>(a, b, c) \<in> set cs. orientation robust a b c = w" "w \<noteq> 0"
  shows "scan_corners robust cs (Some w) = \<lparr>scan_winding = Some w, scan_failure = None\<rparr>"
  using assms by (induction cs) auto

lemma corners_oriented:
  assumes "exact_on robust (set ps)" "convex_ring (of_int w) (ring ps)"
  shows "\<forall>(a, b, c) \<in> set (corners ps). orientation robust a b c = w"
proof (clarsimp simp: corners_def)
  let ?n = "length ps"
  have n: "3 \<le> ?n" using assms(2) by (simp add: convex_ring_def)
  fix i assume i: "i < ?n"
  obtain k where k: "k < ?n" "nx ?n k = i" "k \<noteq> i" "k \<noteq> nx ?n i" using pred_index [OF i n] .
  have "(i + ?n - 1) mod ?n = k"
  proof (cases "k + 1 < ?n")
    case True
    then have "i = Suc k" using k(2) by simp
    then show ?thesis using k(1) by simp
  next
    case False
    then have "k + 1 = ?n" using k(1) by simp
    then have "i = 0" "k = ?n - 1" using k(2) by simp_all
    then show ?thesis using n by simp
  qed
  then have "(i + ?n - Suc 0) mod ?n = k" by simp
  moreover have "orientation robust (ps ! k) (ps ! nx ?n k) (ps ! nx ?n i) = w"
    using orientation_side [OF assms k(1), of "nx ?n i"] nx_facts [OF i n] k by auto
  ultimately show "orientation robust (ps ! ((i + ?n - Suc 0) mod ?n)) (ps ! i) (ps ! (Suc i mod ?n)) = w"
    using k(2) by simp
qed

subsection \<open>No self-intersection\<close>

lemma segments_apart:
  assumes "orientation robust a b c = w" "orientation robust a b d = w" "orientation robust c d a = w" "orientation robust c d b = w" "w \<noteq> 0"
  shows "\<not> segments_intersect robust (a, b) (c, d)"
  using assms by (simp add: segments_intersect_def Let_def)

lemma convex_no_self_intersection:
  assumes e: "exact_on robust (set ps)" and c: "convex_ring (of_int w) (ring ps)" and w: "w \<noteq> 0"
  shows "\<not> has_self_intersection robust (polygon_edges ps)"
proof -
  let ?n = "length ps"
  have n: "3 \<le> ?n" using c by (simp add: convex_ring_def)
  have "\<not> segments_intersect robust (ps ! i, ps ! nx ?n i) (ps ! j, ps ! nx ?n j)"
    if ij: "i + 1 \<le> j" "j < ?n" "\<not> are_adjacent_edges i j ?n" for i j
  proof (rule segments_apart [OF _ _ _ _ w])
    have i: "i < ?n" using ij by simp
    have far: "j \<noteq> i" "j \<noteq> i + 1" "\<not> (i = 0 \<and> j = ?n - 1)" using ij by (auto simp: are_adjacent_edges_def)
    have nxi: "nx ?n i = i + 1" using ij by simp
    have nxj: "nx ?n j = (if j = ?n - 1 then 0 else j + 1)"
    proof (cases "j = ?n - 1")
      case True
      then have "j + 1 = ?n" using n by simp
      then have "nx ?n j = 0" by (simp only: mod_self)
      then show ?thesis using True by simp
    qed (use ij(2) in simp)
    have off: "nx ?n j \<noteq> i" "nx ?n j \<noteq> nx ?n i" "j \<noteq> nx ?n i" "i \<noteq> j" "i \<noteq> nx ?n j" "nx ?n i \<noteq> j" "nx ?n i \<noteq> nx ?n j"
      using far ij(1) unfolding nxi nxj by auto
    have m: "nx ?n i < ?n" "nx ?n j < ?n" by (rule nx_facts(1) [OF i n], rule nx_facts(1) [OF ij(2) n])
    show "orientation robust (ps ! i) (ps ! nx ?n i) (ps ! j) = w"
      by (rule orientation_side [OF e c i ij(2)]) (use off in auto)
    show "orientation robust (ps ! i) (ps ! nx ?n i) (ps ! nx ?n j) = w"
      by (rule orientation_side [OF e c i m(2)]) (use off in auto)
    show "orientation robust (ps ! j) (ps ! nx ?n j) (ps ! i) = w"
      by (rule orientation_side [OF e c ij(2) i]) (use off in auto)
    show "orientation robust (ps ! j) (ps ! nx ?n j) (ps ! nx ?n i) = w"
      by (rule orientation_side [OF e c ij(2) m(1)]) (use off in auto)
  qed
  then show ?thesis by (auto simp: has_self_intersection_def polygon_edges_def)
qed

subsection \<open>One revolution\<close>

text \<open>The lowest vertex of a ring is where its edges stop going down.\<close>

definition ring_down :: "rpoint list \<Rightarrow> nat \<Rightarrow> bool" where
  "ring_down h i \<longleftrightarrow> snd (h ! nx (length h) i) < snd (h ! i)"

definition switch :: "rpoint list \<Rightarrow> nat \<Rightarrow> bool" where
  "switch h i \<longleftrightarrow> i < length h \<and> ring_down h i \<and> \<not> ring_down h (nx (length h) i)"

lemma switch_lowest:
  assumes c: "convex_ring w h" and s: "switch h i" and j: "j < length h" "j \<noteq> nx (length h) i"
  shows "snd (h ! nx (length h) i) \<le> snd (h ! j)"
    "j \<noteq> nx (length h) (nx (length h) i) \<Longrightarrow> snd (h ! nx (length h) i) < snd (h ! j)"
proof -
  let ?n = "length h"
  have n: "3 \<le> ?n" and w: "w = 1 \<or> w = - 1" using c by (auto simp: convex_ring_def)
  have i: "i < ?n" using s by (simp add: switch_def)
  note nx = nx_facts [OF i n]
  define a where "a = h ! i"
  define b where "b = h ! nx ?n i"
  define d where "d = h ! nx ?n (nx ?n i)"
  define q where "q = h ! j"
  have sideA: "0 \<le> w * ConvexGeometry.det a b q"
    using vertex_in_ring [OF c j(1)] i by (simp add: in_ring_def side_def a_def b_def q_def)
  have sideB: "0 \<le> w * ConvexGeometry.det b d q"
    using vertex_in_ring [OF c j(1)] nx(1) by (simp add: in_ring_def side_def b_def d_def q_def)
  have nx2: "nx ?n (nx ?n i) < ?n" using nx_facts(1) [OF nx(1) n] .
  have corner: "0 < w * ConvexGeometry.det a b d"
    using c i nx nx2 nx_facts [OF nx(1) n] by (auto simp: convex_ring_def side_def a_def b_def d_def)
  have dy: "snd b - snd a < 0" "0 \<le> snd d - snd b"
    using s by (auto simp: switch_def ring_down_def a_def b_def d_def)
  have id: "w * ConvexGeometry.det a b d * (snd q - snd b) = w * ConvexGeometry.det b d q * (snd a - snd b) + w * ConvexGeometry.det a b q * (snd d - snd b)"
    by (simp add: ConvexGeometry.det_def algebra_simps)
  have r: "0 \<le> w * ConvexGeometry.det b d q * (snd a - snd b)" "0 \<le> w * ConvexGeometry.det a b q * (snd d - snd b)"
    using sideA sideB dy by (simp_all add: mult_nonneg_nonneg)
  then have "0 \<le> w * ConvexGeometry.det a b d * (snd q - snd b)" unfolding id by simp
  then show "snd (h ! nx ?n i) \<le> snd (h ! j)"
    using corner by (simp add: zero_le_mult_iff b_def q_def)
  assume "j \<noteq> nx ?n (nx ?n i)"
  then have "0 < w * ConvexGeometry.det b d q"
    using c nx(1) j by (auto simp: convex_ring_def side_def b_def d_def q_def)
  then have "0 < w * ConvexGeometry.det b d q * (snd a - snd b)" by (rule mult_pos_pos) (use dy in simp)
  then have "0 < w * ConvexGeometry.det a b d * (snd q - snd b)" unfolding id using r by linarith
  from zero_less_mult_pos [OF this corner] show "snd (h ! nx ?n i) < snd (h ! j)"
    by (simp add: b_def q_def)
qed

lemma nx_inj: "i < n \<Longrightarrow> j < n \<Longrightarrow> nx n i = nx n j \<Longrightarrow> i = j"
  by (cases "i + 1 = n"; cases "j + 1 = n") auto

lemma switch_unique:
  assumes c: "convex_ring w h" and s: "switch h i" "switch h j"
  shows "i = j"
proof (rule ccontr)
  assume ne: "i \<noteq> j"
  let ?n = "length h"
  have n: "3 \<le> ?n" using c by (simp add: convex_ring_def)
  have ij: "i < ?n" "j < ?n" using s by (simp_all add: switch_def)
  have inj: "nx ?n i \<noteq> nx ?n j" using nx_inj [OF ij] ne by blast
  have m: "nx ?n i < ?n" "nx ?n j < ?n" by (rule nx_facts(1) [OF ij(1) n], rule nx_facts(1) [OF ij(2) n])
  have step: "nx ?n l = nx ?n (nx ?n k)" if kl: "switch h k" "switch h l" "nx ?n k < ?n" "nx ?n l < ?n" "nx ?n k \<noteq> nx ?n l" for k l
  proof (rule ccontr)
    assume "\<not> ?thesis"
    then have "snd (h ! nx ?n k) < snd (h ! nx ?n l)" by (rule switch_lowest(2) [OF c kl(1) kl(4) kl(5) [symmetric]])
    moreover have "snd (h ! nx ?n l) \<le> snd (h ! nx ?n k)" by (rule switch_lowest(1) [OF c kl(2,3,5)])
    ultimately show False by simp
  qed
  have "nx ?n j = nx ?n (nx ?n i)" by (rule step [OF s m inj])
  moreover have "nx ?n i = nx ?n (nx ?n j)" by (rule step [OF s(2,1) m(2,1) inj [symmetric]])
  ultimately have "nx ?n i = nx ?n (nx ?n (nx ?n i))" by simp
  then show False using nx_facts [OF m(1) n] nx_facts [OF nx_facts(1) [OF m(1) n] n] by auto
qed

lemma switch_exists:
  assumes c: "convex_ring w h"
  shows "\<exists>i. switch h i"
proof -
  let ?n = "length h"
  have n: "3 \<le> ?n" using c by (simp add: convex_ring_def)
  define f where "f j = snd (h ! j)" for j
  have Y: "finite (f ` {0..<?n})" "f ` {0..<?n} \<noteq> {}" using n by auto
  from Min_in [OF Y] obtain v where v: "Min (f ` {0..<?n}) = f v" "v \<in> {0..<?n}" by (rule imageE)
  have low: "snd (h ! v) \<le> snd (h ! j)" if "j < ?n" for j
    using Min_le [OF Y(1), of "f j"] that unfolding v(1) f_def by simp
  have v: "v < ?n" using v(2) by simp
  obtain p where p: "p < ?n" "nx ?n p = v" "p \<noteq> v" "p \<noteq> nx ?n v" using pred_index [OF v n] .
  obtain q where q: "q < ?n" "nx ?n q = p" "q \<noteq> p" "q \<noteq> nx ?n p" using pred_index [OF p(1) n] .
  show ?thesis
  proof (cases "snd (h ! v) < snd (h ! p)")
    case True
    have "\<not> snd (h ! nx ?n v) < snd (h ! v)" using low [OF nx_facts(1) [OF v n]] by simp
    then have "switch h p" unfolding switch_def ring_down_def p(2) using p(1) True by simp
    then show ?thesis by blast
  next
    case False
    then have pv: "snd (h ! p) = snd (h ! v)" using low [OF p(1)] by simp
    have "snd (h ! q) \<noteq> snd (h ! p)"
    proof
      assume "snd (h ! q) = snd (h ! p)"
      then have "side w h p (h ! q) = 0" unfolding side_def p(2) using pv by (simp add: ConvexGeometry.det_def)
      moreover have "0 < side w h p (h ! q)" using c p(1) q(1,3,4) unfolding convex_ring_def by blast
      ultimately show False by simp
    qed
    then have "snd (h ! p) < snd (h ! q)" using low [OF q(1)] pv by simp
    then have "switch h q" unfolding switch_def ring_down_def q(2) p(2) using q(1) pv by simp
    then show ?thesis by blast
  qed
qed

lemma convex_one_revolution:
  assumes f: "\<forall>p \<in> set ps. finite_point p" and c: "convex_ring w (ring ps)"
  shows "completes_one_revolution (polygon_edges ps)"
proof -
  let ?n = "length ps"
  have n: "0 < ?n" using c by (auto simp: convex_ring_def)
  have down: "points_downwards (polygon_edges ps ! i) \<longleftrightarrow> ring_down (ring ps) i" if i: "i < ?n" for i
    using f edge_in_set [OF i] i n
    by (simp add: points_downwards_def polygon_edges_def ring_down_def flt_val finite_point_def pt_def vy_def)
  obtain i where i: "switch (ring ps) i" using switch_exists [OF c] by blast
  have "{j. j < ?n \<and> points_downwards (polygon_edges ps ! j) \<and> \<not> points_downwards (polygon_edges ps ! nx ?n j)} = {j. switch (ring ps) j}"
    using down n by (auto simp: switch_def)
  also have "\<dots> = {i}" using i switch_unique [OF c] by blast
  finally show ?thesis
    by (simp add: completes_one_revolution_def length_filter_conv_card polygon_edges_def cong: conj_cong)
qed

subsection \<open>Acceptance\<close>

lemma strict_boundary_valid:
  assumes f: "\<forall>p \<in> set ps. finite_point p" and e: "exact_on robust (set ps)" and c: "convex_ring (of_int w) (ring ps)"
  shows "validate_strict_boundary robust ps = Valid w"
proof -
  have n: "3 \<le> length ps" and w: "w \<noteq> 0" using c by (auto simp: convex_ring_def)
  have "corners ps \<noteq> []" using n by (auto simp: corners_def)
  then obtain a b d cs where cs: "corners ps = (a, b, d) # cs" by (metis list.exhaust prod.exhaust)
  have "scan_turns robust ps = \<lparr>scan_winding = Some w, scan_failure = None\<rparr>"
    using corners_oriented [OF e c] w scan_corners_constant [of cs robust w] by (simp add: scan_turns_def cs)
  moreover have "\<not> list_ex (\<lambda>(s, e). feq (px s) (px e) \<and> feq (py s) (py e)) (polygon_edges ps)"
  proof -
    have "\<not> (feq (px (ps ! i)) (px (ps ! nx (length ps) i)) \<and> feq (py (ps ! i)) (py (ps ! nx (length ps) i)))"
      if i: "i < length ps" for i
      using edge_distinct [OF c, of i] i nx_facts(1) [OF i n] same_point_pt [of "ps ! i" "ps ! nx (length ps) i"] f edge_in_set [OF i] by auto
    then show ?thesis by (auto simp: list_ex_iff polygon_edges_set)
  qed
  moreover have "\<not> list_ex (\<lambda>p. \<not> is_finite (px p) \<or> \<not> is_finite (py p)) ps"
    using f by (auto simp: list_ex_iff finite_point_def)
  ultimately show ?thesis
    using n convex_one_revolution [OF f c] convex_no_self_intersection [OF e c w]
    by (simp add: validate_strict_boundary_def Let_def)
qed

end
