(* ===== verification/OneRevolution.thy ===== *)
theory OneRevolution
  imports StrictBoundary
begin

text \<open>
  The linear path of \<open>validate_strict_boundary\<close> decides convexity: a ring that always turns the same way and
  whose edges stop going down only once is strictly convex. Sorted by direction, the edges going up come
  before those going down, so that the distances of the vertices from an edge first grow and then fall.
\<close>

subsection \<open>Directions\<close>

definition cross :: "rpoint \<Rightarrow> rpoint \<Rightarrow> rat" where
  "cross u v = fst u * snd v - snd u * fst v"

lemma cross_swap: "cross v u = - cross u v"
  by (simp add: cross_def)

lemma cross_self [simp]: "cross u u = 0"
  by (simp add: cross_def)

lemma cross_triangle: "cross a b * snd u + cross b u * snd a + cross u a * snd b = 0"
  by (simp add: cross_def algebra_simps)

text \<open>Between two directions of one half-plane a third one keeps the side; the upper half-plane is closed.\<close>

lemma up_step:
  assumes "0 \<le> snd u" "0 \<le> snd a" "0 \<le> snd b" "0 < cross a b" "0 < cross u a"
  shows "0 < cross u b \<or> cross u b = 0 \<and> snd b = 0 \<and> fst b < 0"
proof -
  have t: "cross b u * snd a = - (cross a b * snd u + cross u a * snd b)" using cross_triangle [of a b u] by linarith
  have p: "0 \<le> cross a b * snd u" "0 \<le> cross u a * snd b" using assms by simp_all
  show ?thesis
  proof (cases "snd a = 0")
    case True
    then have "cross a b * snd u + cross u a * snd b = 0" using t by simp
    then have "cross u a * snd b = 0" using p by linarith
    then have "snd b = 0" using assms(5) by simp
    then show ?thesis using True assms(4) by (simp add: cross_def)
  next
    case False
    then have a: "0 < snd a" using assms(2) by simp
    have "cross b u * snd a \<le> 0" using t p by simp
    then have le: "cross b u \<le> 0" using a by (simp add: mult_le_0_iff)
    show ?thesis
    proof (cases "cross b u = 0")
      case True
      then have "cross a b * snd u + cross u a * snd b = 0" using t by simp
      then have "cross u a * snd b = 0" using p by linarith
      then have b: "snd b = 0" using assms by simp
      then have "fst b < 0" using assms(4) a by (simp add: cross_def mult_less_0_iff)
      then show ?thesis using True b cross_swap [of b u] by simp
    qed (use le cross_swap [of b u] in simp)
  qed
qed

lemma down_step:
  assumes "snd u < 0" "snd a < 0" "snd b < 0" "0 < cross a b" "0 < cross u a"
  shows "0 < cross u b"
proof -
  have t: "cross b u * snd a = - (cross a b * snd u + cross u a * snd b)" using cross_triangle [of a b u] by linarith
  have "cross a b * snd u < 0" "cross u a * snd b < 0" using assms by (simp_all add: mult_pos_neg)
  then have "0 < cross b u * snd a" using t by simp
  then have "cross b u < 0" using assms(2) by (simp add: zero_less_mult_iff)
  then show ?thesis using cross_swap [of b u] by simp
qed

lemma up_stay:
  assumes "snd u < 0" "0 \<le> snd a" "0 \<le> snd b" "0 < cross a b" "cross u a \<le> 0"
  shows "cross u b \<le> 0"
proof -
  have t: "cross b u * snd a = - (cross a b * snd u + cross u a * snd b)" using cross_triangle [of a b u] by linarith
  have "cross a b * snd u < 0" "cross u a * snd b \<le> 0" using assms by (simp_all add: mult_pos_neg mult_nonpos_nonneg)
  then have "0 < cross b u * snd a" using t by simp
  then have "0 < cross b u" using assms(2) by (simp add: zero_less_mult_iff)
  then show ?thesis using cross_swap [of b u] by simp
qed

lemma down_stay:
  assumes "0 \<le> snd u" "snd a < 0" "snd b < 0" "0 < cross a b" "cross u a \<le> 0"
  shows "cross u b \<le> 0"
proof -
  have t: "cross b u * snd a = - (cross a b * snd u + cross u a * snd b)" using cross_triangle [of a b u] by linarith
  have "0 \<le> cross a b * snd u" "0 \<le> cross u a * snd b" using assms by (simp_all add: mult_nonpos_nonpos)
  then have "cross b u * snd a \<le> 0" using t by simp
  then have "0 \<le> cross b u" using assms(2) by (simp add: mult_le_0_iff)
  then show ?thesis using cross_swap [of b u] by simp
qed

subsection \<open>Sums around a ring\<close>

lemma proper_prefix_positive:
  fixes xs ys :: "rat list"
  assumes sorted: "sorted_wrt (\<lambda>x y. x < 0 \<longrightarrow> y \<le> 0) (xs @ ys)" and total: "sum_list (xs @ ys) = 0"
    and ne: "xs \<noteq> []" "ys \<noteq> []" and ends: "0 < hd xs" "last ys < 0"
  shows "0 < sum_list xs"
proof (rule ccontr)
  assume neg: "\<not> 0 < sum_list xs"
  obtain x xs' where x: "xs = x # xs'" "0 < x" using ne(1) ends(1) by (cases xs) auto
  have "\<exists>z \<in> set xs. z < 0"
  proof (rule ccontr)
    assume "\<not> ?thesis"
    then have "0 \<le> sum_list xs'" using x(1) by (intro sum_list_nonneg) auto
    then show False using neg x by simp
  qed
  then obtain z where "z \<in> set xs" "z < 0" by blast
  then have y: "\<forall>y \<in> set ys. y \<le> 0" using sorted by (auto simp: sorted_wrt_append)
  have "ys = butlast ys @ [last ys]" using ne(2) by simp
  then have "sum_list ys = sum_list (butlast ys) + last ys" by (metis sum_list.Cons sum_list.Nil sum_list_append add.right_neutral)
  moreover have "sum_list (butlast ys) \<le> 0" using y by (intro sum_list_nonpos) (auto dest: in_set_butlastD)
  ultimately have "sum_list ys < 0" using ends(2) by simp
  then show False using neg total by simp
qed

lemma telescope: "a \<le> b \<Longrightarrow>
    sum_list (map (\<lambda>k. cross u (fst (q (Suc k)) - fst (q k), snd (q (Suc k)) - snd (q k))) [a..<b]) =
    cross u (fst (q b) - fst (q a), snd (q b) - snd (q a))"
  by (induction b rule: dec_induct) (simp_all add: cross_def algebra_simps)

text \<open>A closed walk of \<open>n\<close> edges, the first \<open>m\<close> of them going up, that always turns left.\<close>

definition edge_at :: "(nat \<Rightarrow> rpoint) \<Rightarrow> nat \<Rightarrow> rpoint" where
  "edge_at q k = (fst (q (Suc k)) - fst (q k), snd (q (Suc k)) - snd (q k))"

definition turning_walk :: "(nat \<Rightarrow> rpoint) \<Rightarrow> nat \<Rightarrow> nat \<Rightarrow> bool" where
  "turning_walk q n m \<longleftrightarrow> q n = q 0 \<and> m < n \<and> (\<forall>k < m. 0 \<le> snd (edge_at q k)) \<and>
    (\<forall>k. m \<le> k \<and> k < n \<longrightarrow> snd (edge_at q k) < 0) \<and>
    (\<forall>k. Suc k < n \<longrightarrow> 0 < cross (edge_at q k) (edge_at q (Suc k))) \<and> 0 < cross (edge_at q (n - 1)) (edge_at q 0)"

lemma walk_ups:
  assumes w: "turning_walk q n m" and "k < l" "l < m"
  shows "0 < cross (edge_at q k) (edge_at q l) \<or>
    cross (edge_at q k) (edge_at q l) = 0 \<and> snd (edge_at q l) = 0 \<and> fst (edge_at q l) < 0"
  using assms(2,3)
proof (induction l)
  case (Suc l)
  let ?e = "edge_at q"
  have u: "0 \<le> snd (?e k)" "0 \<le> snd (?e l)" "0 \<le> snd (?e (Suc l))" "0 < cross (?e l) (?e (Suc l))"
    using w Suc.prems by (simp_all add: turning_walk_def)
  show ?case
  proof (cases "k = l")
    case True
    then show ?thesis using u(4) by simp
  next
    case False
    then have "0 < cross (?e k) (?e l) \<or> cross (?e k) (?e l) = 0 \<and> snd (?e l) = 0 \<and> fst (?e l) < 0"
      using Suc by simp
    then show ?thesis
    proof
      assume z: "cross (?e k) (?e l) = 0 \<and> snd (?e l) = 0 \<and> fst (?e l) < 0"
      then have "fst (?e l) * snd (?e (Suc l)) \<le> 0" using u(3) by (simp add: mult_nonpos_nonneg)
      moreover have "0 < fst (?e l) * snd (?e (Suc l))" using u(4) z by (simp add: cross_def)
      ultimately show ?thesis by simp
    qed (rule up_step [OF u])
  qed
qed simp

lemma walk_downs:
  assumes w: "turning_walk q n m" and "m \<le> k" "k < l" "l < n"
  shows "0 < cross (edge_at q k) (edge_at q l)"
  using assms(3,4)
proof (induction l)
  case (Suc l)
  let ?e = "edge_at q"
  have d: "snd (?e k) < 0" "snd (?e l) < 0" "snd (?e (Suc l)) < 0" "0 < cross (?e l) (?e (Suc l))"
    using w Suc.prems assms(2) by (simp_all add: turning_walk_def)
  show ?case
  proof (cases "k = l")
    case False
    then have "0 < cross (?e k) (?e l)" using Suc by simp
    then show ?thesis by (rule down_step [OF d])
  qed (use d in simp)
qed simp

lemma walk_up_stays:
  assumes w: "turning_walk q n m" and u: "snd u < 0" and "k < l" "l < m" "cross u (edge_at q k) \<le> 0"
  shows "cross u (edge_at q l) \<le> 0"
  using assms(3,4)
proof (induction l)
  case (Suc l)
  then have c: "cross u (edge_at q l) \<le> 0" using assms(5) by (cases "k = l") auto
  have "0 \<le> snd (edge_at q l)" "0 \<le> snd (edge_at q (Suc l))" "0 < cross (edge_at q l) (edge_at q (Suc l))"
    using w Suc.prems by (simp_all add: turning_walk_def)
  then show ?case by (rule up_stay [OF u _ _ _ c])
qed simp

lemma walk_down_stays:
  assumes w: "turning_walk q n m" and u: "0 \<le> snd u" and "m \<le> k" "k < l" "l < n" "cross u (edge_at q k) \<le> 0"
  shows "cross u (edge_at q l) \<le> 0"
  using assms(4,5)
proof (induction l)
  case (Suc l)
  then have c: "cross u (edge_at q l) \<le> 0" using assms(6) by (cases "k = l") auto
  have "snd (edge_at q l) < 0" "snd (edge_at q (Suc l)) < 0" "0 < cross (edge_at q l) (edge_at q (Suc l))"
    using w Suc.prems assms(3) by (simp_all add: turning_walk_def)
  then show ?case by (rule down_stay [OF u _ _ _ c])
qed simp

lemma walk_sorted:
  assumes w: "turning_walk q n m" and i: "i < n"
  shows "sorted_wrt (\<lambda>k l. cross (edge_at q i) (edge_at q k) < 0 \<longrightarrow> cross (edge_at q i) (edge_at q l) \<le> 0) ([i + 1..<n] @ [0..<i])"
    (is "sorted_wrt ?R _")
proof -
  let ?e = "edge_at q"
  have R: "?R k l" if "i < k \<and> k < l \<and> l < n \<or> k < l \<and> l < i \<or> l < i \<and> i < k \<and> k < n" for k l
  proof (cases "i < m")
    case True
    have "cross (?e i) (?e l) \<le> 0" if "l < i" using walk_ups [OF w that True] cross_swap [of "?e i" "?e l"] by auto
    moreover have "0 \<le> snd (?e i)" using w True by (simp add: turning_walk_def)
    then have "cross (?e i) (?e k) < 0 \<longrightarrow> cross (?e i) (?e l) \<le> 0" if "i < k" "k < l" "l < n"
      using walk_ups [OF w that(1)] walk_down_stays [OF w _ _ that(2,3), of "?e i"] by (cases "k < m") auto
    ultimately show ?thesis using that by blast
  next
    case False
    then have "0 < cross (?e i) (?e k)" if "i < k" "k < n" using walk_downs [OF w _ that] by simp
    moreover have "snd (?e i) < 0" using w False i by (simp add: turning_walk_def)
    then have "cross (?e i) (?e k) < 0 \<longrightarrow> cross (?e i) (?e l) \<le> 0" if "k < l" "l < i"
    proof (cases "l < m")
      case True
      then show ?thesis using walk_up_stays [OF w \<open>snd (?e i) < 0\<close> that(1)] by simp
    next
      case l: False
      then have "0 < cross (?e l) (?e i)" using walk_downs [OF w _ that(2) i] by simp
      then show ?thesis using cross_swap [of "?e i" "?e l"] by simp
    qed
    ultimately show ?thesis using that by force
  qed
  have R': "?R k l" if "k \<in> set [i + 1..<n] \<and> l \<in> set [i + 1..<n] \<and> k < l \<or> k \<in> set [0..<i] \<and> l \<in> set [0..<i] \<and> k < l \<or>
      k \<in> set [i + 1..<n] \<and> l \<in> set [0..<i]" for k l
    by (rule R) (use that in auto)
  have "sorted_wrt ?R [i + 1..<n]" "sorted_wrt ?R [0..<i]"
    by (rule sorted_wrt_mono_rel [OF _ sorted_wrt_upt], rule R', blast)+
  then show ?thesis unfolding sorted_wrt_append using R' by blast
qed

lemma turning_walk_convex:
  assumes w: "turning_walk q n m" and i: "i < n" and j: "j < n" "j \<noteq> i" "j \<noteq> nx n i"
  shows "0 < ConvexGeometry.det (q i) (q (Suc i)) (q j)"
proof -
  let ?e = "edge_at q"
  define c where "c k = cross (?e i) (?e k)" for k
  have closed: "q n = q 0" and left: "\<And>k. Suc k < n \<Longrightarrow> 0 < cross (?e k) (?e (Suc k))" and close: "0 < cross (?e (n - 1)) (?e 0)"
    using w by (simp_all add: turning_walk_def)
  have tele: "sum_list (map c [a..<b]) = cross (?e i) (fst (q b) - fst (q a), snd (q b) - snd (q a))" if "a \<le> b" for a b
    using telescope [OF that, of "?e i" q] by (simp only: c_def [abs_def] edge_at_def)
  have total: "sum_list (map c ([i + 1..<n] @ [0..<i])) = 0"
    using i by (simp add: tele closed) (simp add: cross_def edge_at_def algebra_simps)
  have first: "0 < c (nx n i)"
  proof (cases "Suc i < n")
    case False
    then have "Suc i = n" using i by simp
    then show ?thesis using close by (auto simp: c_def)
  qed (use left in \<open>simp add: c_def\<close>)
  have last: "c (if i = 0 then n - 1 else i - 1) < 0"
    using left [of "i - 1"] close i cross_swap [of "?e i" "?e (if i = 0 then n - 1 else i - 1)"] by (cases i) (auto simp: c_def)
  have pick: "0 < sum_list (map c xs)" if xy: "[i + 1..<n] @ [0..<i] = xs @ ys" "xs \<noteq> []" "ys \<noteq> []" for xs ys
  proof (rule proper_prefix_positive)
    have n: "i + 1 < n \<or> 0 < i" using xy by (cases "i + 1 < n"; cases i) auto
    have "n = Suc i" if "\<not> i + 1 < n" using that i by simp
    then have "hd xs = nx n i" using arg_cong [OF xy(1), of hd] xy(2) n by (cases "i + 1 < n") (auto simp: hd_append)
    then show "0 < hd (map c xs)" using first xy(2) by (simp add: hd_map)
    have "last ys = (if i = 0 then n - 1 else i - 1)"
      using arg_cong [OF xy(1), of last] xy(3) n by (cases i) (auto simp: last_append split: if_splits)
    then show "last (map c ys) < 0" using last xy(3) by (simp add: last_map)
    show "sorted_wrt (\<lambda>x y. x < 0 \<longrightarrow> y \<le> 0) (map c xs @ map c ys)"
      using walk_sorted [OF w i] unfolding xy(1) by (simp add: c_def sorted_wrt_map flip: map_append)
    show "sum_list (map c xs @ map c ys) = 0" using total unfolding xy(1) by simp
  qed (use xy in simp_all)
  have d: "ConvexGeometry.det (q i) (q (Suc i)) (q j) = cross (?e i) (fst (q j) - fst (q (Suc i)), snd (q j) - snd (q (Suc i)))"
    by (simp add: ConvexGeometry.det_def cross_def edge_at_def algebra_simps)
  show ?thesis
  proof (cases "i < j")
    case True
    then have ij: "i + 1 < j" using j i by (cases "i + 1 = j") auto
    have "[i + 1..<n] = [i + 1..<j] @ [j..<n]" using ij j(1) upt_add_eq_append [of "i + 1" j "n - j"] by simp
    then have "0 < sum_list (map c [i + 1..<j])" using ij j(1) by (intro pick [of _ "[j..<n] @ [0..<i]"]) auto
    then show ?thesis using ij by (simp add: tele d)
  next
    case False
    then have ji: "j < i" using j by simp
    have "[0..<i] = [0..<j] @ [j..<i]" using ji upt_add_eq_append [of 0 j "i - j"] by simp
    moreover have "[i + 1..<n] @ [0..<j] \<noteq> []" using j(3) i by (cases "i + 1 = n") auto
    ultimately have "0 < sum_list (map c ([i + 1..<n] @ [0..<j]))" using ji by (intro pick [of _ "[j..<i]"]) auto
    also have "\<dots> = cross (?e i) (fst (q j) - fst (q (Suc i)), snd (q j) - snd (q (Suc i)))"
      using i by (simp add: tele closed) (simp add: cross_def algebra_simps)
    finally show ?thesis using d by simp
  qed
qed

subsection \<open>Rings\<close>

lemma shifted_next: "nx n ((k + t) mod n) = (Suc k + t) mod n"
  by (simp add: mod_simps)

lemma shifted_index:
  assumes "i < n" "t < (n :: nat)"
  obtains k where "k < n" "(k + t) mod n = i"
proof
  show "(i + (n - t)) mod n < n" using assms by simp
  have "((i + (n - t)) mod n + t) mod n = (i + (n - t) + t) mod n" by (simp add: mod_simps)
  also have "\<dots> = i" using assms by simp
  finally show "((i + (n - t)) mod n + t) mod n = i" .
qed

lemma one_revolution_convex:
  assumes n: "3 \<le> length h" and w: "w = 1 \<or> w = - 1"
    and turns: "\<forall>i < length h. 0 < w * ConvexGeometry.det (h ! i) (h ! nx (length h) i) (h ! nx (length h) (nx (length h) i))"
    and s: "{j. switch h j} = {s}"
  shows "convex_ring w h"
proof -
  let ?n = "length h"
  define t where "t = nx ?n s"
  define v where "v k = h ! ((k + t) mod ?n)" for k
  define q where "q k = (w * fst (v k), snd (v k))" for k
  have sw: "switch h s" "\<And>j. switch h j \<Longrightarrow> j = s" using s by auto
  have sn: "s < ?n" using sw(1) by (simp add: switch_def)
  then have t: "t < ?n" "(?n - 1 + t) mod ?n = s"
    unfolding t_def by (cases "s + 1 < ?n"; auto simp: mod_if)+
  have period: "v (k + ?n) = v k" for k
  proof -
    have "k + ?n + t = k + t + ?n" by simp
    then show ?thesis unfolding v_def by (simp only: mod_add_self2)
  qed
  have det: "ConvexGeometry.det (q a) (q b) (q c) = w * ConvexGeometry.det (v a) (v b) (v c)" for a b c
    by (simp add: q_def ConvexGeometry.det_def algebra_simps)
  have down: "ring_down h ((k + t) mod ?n) \<longleftrightarrow> snd (edge_at q k) < 0" for k
    using shifted_next [of k t ?n] by (simp add: ring_down_def edge_at_def q_def v_def)
  have lt: "(k + t) mod ?n < ?n" for k by (rule mod_less_divisor) (use n in linarith)
  have left: "0 < cross (edge_at q k) (edge_at q (Suc k))" for k
  proof -
    have "cross (edge_at q k) (edge_at q (Suc k)) = ConvexGeometry.det (q k) (q (Suc k)) (q (Suc (Suc k)))"
      by (simp add: cross_def edge_at_def ConvexGeometry.det_def algebra_simps)
    also have "0 < \<dots>"
      using turns [rule_format, OF lt, of k] unfolding det v_def shifted_next by (simp only: add_Suc)
    finally show ?thesis .
  qed
  have stay: "snd (edge_at q (Suc k)) < 0" if "snd (edge_at q k) < 0" "Suc k < ?n" for k
  proof (rule ccontr)
    assume "\<not> ?thesis"
    then have "switch h ((k + t) mod ?n)"
      unfolding switch_def shifted_next using that down [of k] down [of "Suc k"] lt by blast
    then have "(k + t) mod ?n = (?n - 1 + t) mod ?n" using sw(2) t(2) by simp
    then have "?n dvd (?n - 1 + t) - (k + t)" using that(2) by (metis mod_eq_dvd_iff_nat add_le_mono1 Suc_leI less_diff_conv Suc_eq_plus1 nat_less_le)
    moreover have "(?n - 1 + t) - (k + t) = ?n - 1 - k" by simp
    ultimately show False using that(2) by (auto dest!: dvd_imp_le)
  qed
  have last_down: "snd (edge_at q (?n - 1)) < 0" using sw(1) down [of "?n - 1"] unfolding t(2) switch_def by blast
  define m where "m = (LEAST k. snd (edge_at q k) < 0)"
  have m: "snd (edge_at q m) < 0" "m \<le> ?n - 1" "\<And>k. k < m \<Longrightarrow> 0 \<le> snd (edge_at q k)"
    unfolding m_def using last_down by (auto intro: LeastI Least_le dest: not_less_Least)
  have downs: "snd (edge_at q k) < 0" if "m \<le> k" "k < ?n" for k
    using that by (induction k rule: dec_induct) (use m(1) stay in auto)
  have "q ?n = q 0" using period [of 0] by (simp add: q_def)
  have "edge_at q ?n = edge_at q 0" using period [of 0] period [of 1] by (simp add: edge_at_def q_def)
  moreover have "Suc (?n - 1) = ?n" using n by linarith
  ultimately have "0 < cross (edge_at q (?n - 1)) (edge_at q 0)" using left [of "?n - 1"] by simp
  then have walk: "turning_walk q ?n m" using \<open>q ?n = q 0\<close> m n downs left by (auto simp: turning_walk_def)
  have "0 < side w h i (h ! j)" if ij: "i < ?n" "j < ?n" "j \<noteq> i" "j \<noteq> nx ?n i" for i j
  proof -
    obtain i' where i': "i' < ?n" "(i' + t) mod ?n = i" using shifted_index [OF ij(1) t(1)] .
    obtain j' where j': "j' < ?n" "(j' + t) mod ?n = j" using shifted_index [OF ij(2) t(1)] .
    have nxt: "(Suc i' + t) mod ?n = nx ?n i" using shifted_next [of i' t ?n] i'(2) by simp
    then have "(nx ?n i' + t) mod ?n = nx ?n i" by (simp add: mod_simps)
    then have "j' \<noteq> i'" "j' \<noteq> nx ?n i'" using ij(3,4) i'(2) j'(2) by auto
    from turning_walk_convex [OF walk i'(1) j'(1) this]
    show ?thesis using i'(2) j'(2) nxt unfolding det v_def by (simp add: side_def)
  qed
  then show ?thesis using n w by (simp add: convex_ring_def)
qed

subsection \<open>The linear path of the validation\<close>

lemma scan_corners_same:
  assumes "scan_corners robust cs (Some w) = \<lparr>scan_winding = Some v, scan_failure = None\<rparr>"
  shows "v = w \<and> (\<forall>(a, b, c) \<in> set cs. orientation robust a b c = w)"
  using assms by (induction cs) (auto simp: Let_def split: if_splits)

lemma scan_turns_same:
  assumes "scan_turns robust ps = \<lparr>scan_winding = Some w, scan_failure = None\<rparr>"
  shows "w \<noteq> 0 \<and> (\<forall>(a, b, c) \<in> set (corners ps). orientation robust a b c = w)"
proof (cases "corners ps")
  case (Cons x cs)
  obtain a b c where x: "x = (a, b, c)" by (cases x)
  then show ?thesis using assms Cons scan_corners_same [of robust cs "orientation robust a b c" w]
    by (auto simp: scan_turns_def Let_def split: if_splits)
qed (use assms in \<open>simp add: scan_turns_def\<close>)

lemma corner_at:
  assumes "i < length ps" "3 \<le> length ps"
  shows "(ps ! i, ps ! nx (length ps) i, ps ! nx (length ps) (nx (length ps) i)) \<in> set (corners ps)"
proof -
  let ?n = "length ps"
  have "(nx ?n i + ?n - 1) mod ?n = i"
  proof (cases "i + 1 < ?n")
    case False
    then have "i + 1 = ?n" using assms(1) by simp
    then have "nx ?n i = 0" by (simp only: mod_self)
    then show ?thesis using \<open>i + 1 = ?n\<close> by simp
  qed simp
  then show ?thesis using nx_facts(1) [OF assms] by (force simp: corners_def)
qed

lemma one_revolution_switch:
  assumes f: "\<forall>p \<in> set ps. finite_point p" and "completes_one_revolution (polygon_edges ps)"
  shows "\<exists>s. {j. switch (ring ps) j} = {s}"
proof -
  let ?n = "length ps"
  have down: "points_downwards (polygon_edges ps ! i) \<longleftrightarrow> ring_down (ring ps) i" if i: "i < ?n" for i
  proof -
    have n: "0 < ?n" using i by linarith
    show ?thesis using f edge_in_set [OF i] i n
      by (simp add: points_downwards_def polygon_edges_def ring_down_def flt_val finite_point_def pt_def vy_def)
  qed
  have "{j. j < ?n \<and> points_downwards (polygon_edges ps ! j) \<and> \<not> points_downwards (polygon_edges ps ! nx ?n j)} = {j. switch (ring ps) j}"
  proof -
    have "nx ?n i < ?n" if "i < ?n" for i using that by (intro mod_less_divisor) linarith
    then show ?thesis using down by (fastforce simp: switch_def)
  qed
  then have "card {j. switch (ring ps) j} = 1"
    using assms(2) by (simp add: completes_one_revolution_def length_filter_conv_card polygon_edges_def cong: conj_cong)
  then show ?thesis by (simp add: card_1_singleton_iff)
qed

lemma valid_convex:
  assumes f: "\<forall>p \<in> set ps. finite_point p" and e: "exact_on robust (set ps)" and l: "supports_linear_topology_decision ps"
    and v: "validate_strict_boundary robust ps = Valid w"
  shows "convex_ring (of_int w) (ring ps)"
proof -
  let ?n = "length ps"
  have n: "3 \<le> ?n" and s: "scan_turns robust ps = \<lparr>scan_winding = Some w, scan_failure = None\<rparr>"
    and r: "completes_one_revolution (polygon_edges ps)"
    using v l by (auto simp: validate_strict_boundary_def Let_def split: if_splits option.splits)
  have turns: "\<forall>(a, b, c) \<in> set (corners ps). orientation robust a b c = w" "w \<noteq> 0" using scan_turns_same [OF s] by auto
  have "orientation robust (ps ! 0) (ps ! nx ?n 0) (ps ! nx ?n (nx ?n 0)) = w"
    using turns(1) corner_at [of 0 ps] n by fastforce
  then have w: "w = 1 \<or> w = - 1" using orientation_range turns(2) by (metis insertE singletonD)
  have "0 < of_int w * ConvexGeometry.det (ring ps ! i) (ring ps ! nx ?n i) (ring ps ! nx ?n (nx ?n i))" if i: "i < ?n" for i
  proof -
    note m = nx_facts(1) [OF i n] nx_facts(1) [OF nx_facts(1) [OF i n] n]
    have "orientation robust (ps ! i) (ps ! nx ?n i) (ps ! nx ?n (nx ?n i)) = w" using turns(1) corner_at [OF i n] by fast
    then have "0 < of_int w * turn (ps ! i) (ps ! nx ?n i) (ps ! nx ?n (nx ?n i))"
      using orientation_winding(1) [OF e nth_mem [OF i] nth_mem [OF m(1)] nth_mem [OF m(2)] w] by simp
    then show ?thesis using i m by (simp add: turn_det)
  qed
  moreover obtain j where "{j. switch (ring ps) j} = {j}" using one_revolution_switch [OF f r] by blast
  ultimately show ?thesis using n w by (intro one_revolution_convex [of _ _ j]) auto
qed

text \<open>
  C4. The linear validation of a boundary is exact. With exact orientations and coordinates inside the
  range of the linear decision, a ring of finite points is accepted with a winding exactly when it is a
  strictly convex ring of that winding: every vertex lies strictly on the inner side of every edge it is
  not an end of. In particular no edges of an accepted ring meet, as the exhaustive sweep would check.
\<close>

theorem strict_boundary_exact:
  assumes "\<forall>p \<in> set ps. finite_point p" "exact_on robust (set ps)" "supports_linear_topology_decision ps"
  shows "(validate_strict_boundary robust ps = Valid w \<longleftrightarrow> convex_ring (of_int w) (ring ps)) \<and>
    (validate_strict_boundary robust ps = Valid w \<longrightarrow> \<not> has_self_intersection robust (polygon_edges ps))"
proof -
  have "w \<noteq> 0" if "convex_ring (of_int w) (ring ps)" using that by (auto simp: convex_ring_def)
  then show ?thesis
    using valid_convex [OF assms(1-3)] strict_boundary_valid [OF assms(1,2)] convex_no_self_intersection [OF assms(2)] by blast
qed

end
