(* ===== verification/Legality.thy ===== *)
theory Legality
  imports Placement SpatialQuery OneRevolution
begin

text \<open>
  What an assessment says: it does not depend on the spatial index, and what its overlap test decides.
\<close>

subsection \<open>The index does not change an assessment\<close>

lemma make_entry_collect:
  "collect_entries (make_entry robust heap p n # es) =
    (let t = placement_transform (piece_placement (heap p)) in
     and_then (translate_and_validate_polygon robust (collision_polygon (piece_collision_geometry (heap p)))
       \<lparr>px = translate_x t, py = translate_y t\<rparr> ''placed'') (\<lambda>q.
     and_then (collect_entries es) (\<lambda>ps. Inr (q # ps))))"
  by (auto simp: make_entry_def translate_and_validate_polygon_def Let_def
      split: option.splits strict_convex_boundary_validation.splits)

lemma collect_entries_placed:
  "collect_entries (map (\<lambda>(i, p). make_entry robust heap p i) (enumerate n placed)) = collect_placed robust heap placed"
proof (induction placed arbitrary: n)
  case (Cons p ps)
  have "collect_entries (map (\<lambda>(i, p). make_entry robust heap p i) (enumerate n (p # ps))) =
      collect_entries (make_entry robust heap p n # map (\<lambda>(i, p). make_entry robust heap p i) (enumerate (Suc n) ps))"
    by simp
  then show ?case unfolding make_entry_collect Cons.IH by (simp add: Let_def)
qed simp

lemma collect_filter:
  "collect_entries (filter (relevant (Some b)) es) = (case collect_entries es of Inl m \<Rightarrow> Inl m
    | Inr ps \<Rightarrow> Inr (filter (\<lambda>p. \<not> are_disjoint (validated_bounds p) b) ps))"
  by (induction es) (auto simp: relevant_def and_then_def split: placed_collision_validation.splits sum.splits)

lemma overlap_loop_filter:
  "overlap_loop robust m (filter (\<lambda>p. \<not> are_disjoint (validated_bounds p) (validated_bounds m)) ps) = overlap_loop robust m ps"
proof (induction ps)
  case (Cons p ps)
  show ?case
  proof (cases "are_disjoint (validated_bounds p) (validated_bounds m)")
    case True
    then have "polygons_have_positive_area_overlap robust m p = Inr False"
      using are_disjoint_sym by (simp add: polygons_have_positive_area_overlap_def)
    then show ?thesis using True Cons by simp
  next
    case False
    then show ?thesis using Cons by (simp split: sum.splits bool.splits)
  qed
qed simp

lemma matches_eq:
  assumes "index_entries index = map (\<lambda>(i, p). make_entry robust heap p i) (enumerate 0 placed)"
  shows "index_matches index qs \<longleftrightarrow> qs = placed"
proof
  assume m: "index_matches index qs"
  then have len: "length qs = length placed" by (simp add: index_matches_def assms split: if_splits)
  moreover have "qs ! i = placed ! i" if "i < length qs" for i
    using m that len by (auto simp: index_matches_def assms list_all_length make_entry_facts nth_enumerate_eq split: if_splits)
  ultimately show "qs = placed" by (rule nth_equalityI)
next
  assume "qs = placed"
  then show "index_matches index qs"
    by (auto simp: index_matches_def assms list_all_length make_entry_facts nth_enumerate_eq)
qed

lemma translate_and_validate_bounds_ok:
  "translate_and_validate_polygon robust polygon t label = Inr q \<Longrightarrow> bounds_ok (validated_bounds q)"
  by (auto simp: translate_and_validate_polygon_def translate_bounds_ok
      split: option.splits strict_convex_boundary_validation.splits)

lemma ignores_index:
  assumes "case cell_size of None \<Rightarrow> True | Some v \<Rightarrow> f64_ok v"
  shows "assess_placement robust heap
      (input\<lparr>placed_collision_index := Some (make_placed_collision_spatial_index robust heap indexed cell_size)\<rparr>) enforce =
    assess_placement robust heap (input\<lparr>placed_collision_index := None\<rparr>) enforce"
proof -
  let ?index = "make_placed_collision_spatial_index robust heap indexed cell_size"
  note inv = index_inv_make [OF assms, of robust heap indexed]
  have outcome: "(case collect_entries (filter (relevant (Some (validated_bounds m))) (index_entries ?index)) of
        Inl message \<Rightarrow> f message | Inr polygons \<Rightarrow> if c then d else overlap_loop robust m polygons) =
      (case collect_placed robust heap indexed of
        Inl message \<Rightarrow> f message | Inr polygons \<Rightarrow> if c then d else overlap_loop robust m polygons)" for m f c d
    unfolding collect_filter inv [THEN conjunct2] collect_entries_placed
    by (auto simp: overlap_loop_filter split: sum.splits)
  show ?thesis
  proof (cases "translate_and_validate_polygon robust (collision_polygon (moving input)) (candidate_point input) ''moving''")
    case (Inr m)
    have q: "query_refs ?index (Some (validated_bounds m)) = Some (filter (relevant (Some (validated_bounds m))) (index_entries ?index))"
      using translate_and_validate_bounds_ok [OF Inr] inv by (intro query_refs_filter) auto
    show ?thesis
      using Inr outcome [where m = m] by (simp add: assess_placement_def placed_polygons_def matches_eq [OF inv [THEN conjunct2]] q)
  qed (simp add: assess_placement_def)
qed

text \<open>
  C2. The spatial index is only an accelerator: with an index built from any list of placed pieces and
  any cell size, an assessment never panics and has exactly the outcome, message included, of the
  assessment that checks every placed polygon in the caller's order.
\<close>

theorem assessment_ignores_index:
  assumes "case cell_size of None \<Rightarrow> True | Some v \<Rightarrow> f64_ok v"
  shows "assess_placement robust heap
      (input\<lparr>placed_collision_index := Some (make_placed_collision_spatial_index robust heap indexed cell_size)\<rparr>) enforce =
    assess_placement robust heap (input\<lparr>placed_collision_index := None\<rparr>) enforce"
  by (rule ignores_index [OF assms])

subsection \<open>Finite coordinates and bounds\<close>

definition encloses :: "bounds \<Rightarrow> point \<Rightarrow> bool" where
  "encloses b p \<longleftrightarrow> f64_val (min_x b) \<le> vx p \<and> vx p \<le> f64_val (max_x b) \<and>
    f64_val (min_y b) \<le> vy p \<and> vy p \<le> f64_val (max_y b)"

definition finite_bounds :: "bounds \<Rightarrow> bool" where
  "finite_bounds b \<longleftrightarrow> is_finite (min_x b) \<and> is_finite (min_y b) \<and> is_finite (max_x b) \<and> is_finite (max_y b)"

lemma encloses_widen:
  assumes "finite_bounds b" "finite_point q"
  shows "finite_bounds (widen b q)" "encloses (widen b q) q" "encloses b p \<Longrightarrow> encloses (widen b q) p"
  using assms by (auto simp: finite_bounds_def finite_point_def encloses_def widen_def js_extrema_val vx_def vy_def)

lemma translate_loop_encloses:
  assumes "translate_loop t acc b ps = Some m" "finite_bounds b" "\<forall>q \<in> set acc. finite_point q \<and> encloses b q"
  shows "pwb_polygon m = acc @ map (\<lambda>p. translated p t) ps \<and> finite_bounds (pwb_bounds m) \<and>
    (\<forall>q \<in> set (pwb_polygon m). finite_point q \<and> encloses (pwb_bounds m) q)"
  using assms
proof (induction ps arbitrary: acc b)
  case Nil
  from Nil.prems(1) obtain z where z: "make_bounds (min_x b) (min_y b) (max_x b) (max_y b) = Some z"
    "m = \<lparr>pwb_polygon = acc, pwb_bounds = z\<rparr>" by auto
  from z(1) have "z = b" by (auto simp: make_bounds_def split: if_splits)
  then have m: "m = \<lparr>pwb_polygon = acc, pwb_bounds = b\<rparr>" using z(2) by simp
  show ?case unfolding m using Nil.prems(2,3) by simp
next
  case (Cons p ps)
  let ?q = "translated p t"
  have q: "finite_point ?q" using Cons.prems(1) by (simp add: finite_point_def Let_def split: if_splits)
  note w = encloses_widen [OF Cons.prems(2) q]
  have step: "translate_loop t (acc @ [?q]) (widen b ?q) ps = Some m"
    using Cons.prems(1) by (simp add: Let_def split: if_splits)
  have all: "\<forall>r \<in> set (acc @ [?q]). finite_point r \<and> encloses (widen b ?q) r"
    using Cons.prems(3) q w(2,3) by simp
  from Cons.IH [OF step w(1) all] show ?case by simp
qed

lemma translate_encloses:
  assumes "translate_polygon_with_bounds ps t = Some m"
  shows "pwb_polygon m = map (\<lambda>p. translated p t) ps \<and> ps \<noteq> [] \<and> finite_bounds (pwb_bounds m) \<and>
    (\<forall>q \<in> set (pwb_polygon m). finite_point q \<and> encloses (pwb_bounds m) q)"
proof -
  obtain p qs where ps: "ps = p # qs" using assms by (cases ps) (auto simp: translate_polygon_with_bounds_def)
  let ?q = "translated p t"
  have q: "finite_point ?q" and l: "translate_loop t [?q] (point_bounds ?q) qs = Some m"
    using assms by (auto simp: translate_polygon_with_bounds_def ps Let_def finite_point_def split: if_splits)
  have "finite_bounds (point_bounds ?q)" "encloses (point_bounds ?q) ?q"
    using q by (auto simp: finite_bounds_def point_bounds_def finite_point_def encloses_def vx_def vy_def)
  then show ?thesis using translate_loop_encloses [OF l] q ps by auto
qed

text \<open>Disjoint boxes hold disjoint rings.\<close>

lemma disjoint_boxes:
  assumes d: "are_disjoint a b" and ab: "finite_bounds a" "finite_bounds b"
    and p: "\<forall>q \<in> set ps. encloses a q" "ps \<noteq> []" "inside w (map pt ps) x"
    and q: "\<forall>q \<in> set qs. encloses b q" "qs \<noteq> []" "inside v (map pt qs) x"
  shows False
proof -
  have low: "\<exists>r \<in> set rs. f * vx r + g * vy r \<le> f * fst x + g * snd x"
    if "inside u (map pt rs) x" "rs \<noteq> []" "f * f + g * g = (1 :: rat)" for u rs f g
    using inside_not_beyond [OF that(1), of f g] that(2,3) by (auto simp: pt_def)
  have box: "f64_val (min_x c) \<le> fst x \<and> fst x \<le> f64_val (max_x c) \<and> f64_val (min_y c) \<le> snd x \<and> snd x \<le> f64_val (max_y c)"
    if "inside u (map pt rs) x" "rs \<noteq> []" and e: "\<forall>q \<in> set rs. encloses c q" for u rs c
  proof (intro conjI)
    note low = low [OF that(1,2)]
    obtain r where "r \<in> set rs" "vx r \<le> fst x" using low [of 1 0] by auto
    then show "f64_val (min_x c) \<le> fst x" using e order_trans unfolding encloses_def by blast
    obtain r where "r \<in> set rs" "fst x \<le> vx r" using low [of "- 1" 0] by auto
    then show "fst x \<le> f64_val (max_x c)" using e order_trans unfolding encloses_def by blast
    obtain r where "r \<in> set rs" "vy r \<le> snd x" using low [of 0 1] by auto
    then show "f64_val (min_y c) \<le> snd x" using e order_trans unfolding encloses_def by blast
    obtain r where "r \<in> set rs" "snd x \<le> vy r" using low [of 0 "- 1"] by auto
    then show "snd x \<le> f64_val (max_y c)" using e order_trans unfolding encloses_def by blast
  qed
  from box [OF p(3,2,1)] box [OF q(3,2,1)] d ab show False
    by (auto simp: are_disjoint_def finite_bounds_def flt_val)
qed

subsection \<open>The tests on exact orientations\<close>

lemma strictly_inside_iff:
  assumes e: "exact_on robust A" "set ps \<subseteq> A" "p \<in> A" and w: "w = 1 \<or> w = - 1"
  shows "is_strictly_inside robust p ps w \<longleftrightarrow> inside (of_int w) (ring ps) (pt p)"
proof -
  have "orientation robust (ps ! i) (ps ! nx (length ps) i) p = w \<longleftrightarrow> 0 < side (of_int w) (ring ps) i (pt p)"
    if "i < length ps" for i
    unfolding side_ring [OF that] using orientation_winding(1) [OF e(1) _ _ e(3) w] edge_in_set [OF that] e(2) by blast
  moreover have "w \<noteq> 0" using w by auto
  ultimately show ?thesis
    by (auto simp: is_strictly_inside_def list_all_iff polygon_edges_set inside_def Let_def)
qed

lemma lerp_between:
  assumes "0 \<le> t" "t \<le> 1" "pt p = lerp t (pt a) (pt b)" "finite_point a" "finite_point b" "finite_point p"
  shows "point_is_on_segment p (a, b)"
proof -
  have between: "min c d \<le> (1 - t) * c + t * d \<and> (1 - t) * c + t * d \<le> max c d" for c d :: rat
  proof -
    have "(1 - t) * min c d + t * min c d \<le> (1 - t) * c + t * d" "(1 - t) * c + t * d \<le> (1 - t) * max c d + t * max c d"
      using assms(1,2) by (intro add_mono mult_left_mono; simp)+
    then show ?thesis by (simp add: algebra_simps)
  qed
  have v: "vx p = (1 - t) * vx a + t * vx b" "vy p = (1 - t) * vy a + t * vy b"
    using assms(3) by (simp_all add: pt_def lerp_def)
  show ?thesis
    using assms(4-6) between [of "vx a" "vx b"] between [of "vy a" "vy b"] v
    by (simp add: point_is_on_segment_def finite_point_def fle_val js_extrema_val vx_def vy_def)
qed

lemma in_ring_code:
  assumes e: "exact_on robust A" "set ps \<subseteq> A" "p \<in> A" and f: "\<forall>q \<in> set ps. finite_point q" "finite_point p"
    and w: "w = 1 \<or> w = - 1" and c: "convex_ring (of_int w) (ring ps)" and i: "in_ring (of_int w) (ring ps) (pt p)"
  shows "is_strictly_inside robust p ps w \<or> is_on_boundary robust p ps"
proof (cases "inside (of_int w) (ring ps) (pt p)")
  case True
  then show ?thesis using strictly_inside_iff [OF e w] by simp
next
  case False
  then obtain j where j: "j < length ps" "side (of_int w) (ring ps) j (pt p) = 0"
    using i by (auto simp: inside_def in_ring_def not_less intro: order_antisym)
  have nj: "nx (length ps) j < length ps" using j(1) by (intro mod_less_divisor) linarith
  have "j < length (ring ps)" using j(1) by simp
  then obtain t where t: "0 \<le> t" "t \<le> 1" "pt p = lerp t (pt (ps ! j)) (pt (ps ! nx (length ps) j))"
    using in_ring_on_edge [OF c _ i j(2)] j(1) nj by (metis length_map nth_map)
  have "point_is_on_segment p (ps ! j, ps ! nx (length ps) j)"
    by (rule lerp_between [OF t]) (use f edge_in_set [OF j(1)] in auto)
  moreover have "turn (ps ! j) (ps ! nx (length ps) j) p = 0"
    using j w unfolding side_ring [OF j(1)] by auto
  then have "orientation robust (ps ! j) (ps ! nx (length ps) j) p = 0"
    using orientation_winding(2) [OF e(1) _ _ e(3) w] edge_in_set [OF j(1)] e(2) by blast
  ultimately show ?thesis
    using j(1) by (auto simp: is_on_boundary_def list_ex_iff polygon_edges_set)
qed

lemma crossing_code:
  assumes e: "exact_on robust A" "{a, b, c, d} \<subseteq> A" and "turn a b c * turn a b d < 0" "turn c d a * turn c d b < 0"
  shows "edges_cross robust (a, b) (c, d)"
proof -
  have "orientation robust a b c \<noteq> 0 \<and> orientation robust a b d \<noteq> 0 \<and> orientation robust a b c \<noteq> orientation robust a b d"
    using assms(3) e by (simp add: orientation_exact [OF e(1)] mult_less_0_iff) auto
  moreover have "orientation robust c d a \<noteq> 0 \<and> orientation robust c d b \<noteq> 0 \<and> orientation robust c d a \<noteq> orientation robust c d b"
    using assms(4) e by (simp add: orientation_exact [OF e(1)] mult_less_0_iff) auto
  ultimately show ?thesis by (simp add: edges_cross_def Let_def)
qed

subsection \<open>A legal placement does not overlap\<close>

lemma no_overlap_disjoint:
  fixes m q :: validated_polygon
  defines "P \<equiv> validated_points m" and "Q \<equiv> validated_points q"
  assumes no: "polygons_have_positive_area_overlap robust m q = Inr False"
    and e: "exact_on robust (set P \<union> set Q)"
    and c: "convex_ring (of_int (validated_winding m)) (ring P)" "convex_ring (of_int (validated_winding q)) (ring Q)"
    and b: "finite_bounds (validated_bounds m)" "finite_bounds (validated_bounds q)"
    and f: "\<forall>r \<in> set P. finite_point r \<and> encloses (validated_bounds m) r"
      "\<forall>r \<in> set Q. finite_point r \<and> encloses (validated_bounds q) r"
    and g: "\<forall>r \<in> set P. \<not> is_on_boundary robust r Q" "\<forall>r \<in> set Q. \<not> is_on_boundary robust r P"
  shows "\<not> (inside (of_int (validated_winding m)) (ring P) x \<and> inside (of_int (validated_winding q)) (ring Q) x)"
proof
  let ?w = "validated_winding m" and ?v = "validated_winding q"
  assume x: "inside (of_int ?w) (ring P) x \<and> inside (of_int ?v) (ring Q) x"
  have n: "3 \<le> length P" "3 \<le> length Q" using c by (auto simp: convex_ring_def)
  have w: "?w = 1 \<or> ?w = - 1" "?v = 1 \<or> ?v = - 1" using c by (auto simp: convex_ring_def)
  have "\<not> are_disjoint (validated_bounds m) (validated_bounds q)"
    using disjoint_boxes [OF _ b, of P _ x Q] f x n by fastforce
  then have no: "\<forall>r \<in> set P. \<not> is_strictly_inside robust r Q ?v" "\<forall>r \<in> set Q. \<not> is_strictly_inside robust r P ?w"
    "\<not> boundaries_have_proper_crossing robust P Q"
    using no unfolding P_def Q_def polygons_have_positive_area_overlap_def by (auto simp: list_ex_iff split: if_splits)
  have pq: "\<not> in_ring (of_int ?v) (ring Q) (pt r)" if "r \<in> set P" for r
    using in_ring_code [OF e _ _ _ _ w(2) c(2), of r] no(1) g(1) f that by auto
  have qp: "\<not> in_ring (of_int ?w) (ring P) (pt r)" if "r \<in> set Q" for r
    using in_ring_code [OF e _ _ _ _ w(1) c(1), of r] no(2) g(2) f that by auto
  obtain i j where ij: "i < length P" "j < length Q"
    "side (of_int ?v) (ring Q) j (pt (P ! i)) * side (of_int ?v) (ring Q) j (pt (P ! nx (length P) i)) < 0"
    "side (of_int ?w) (ring P) i (pt (Q ! j)) * side (of_int ?w) (ring P) i (pt (Q ! nx (length Q) j)) < 0"
  proof (rule overlapping_rings_cross [OF c])
    show "inside (of_int ?w) (ring P) x" "inside (of_int ?v) (ring Q) x" using x by auto
    show "\<forall>i < length (ring P). \<not> in_ring (of_int ?v) (ring Q) (ring P ! i)" using pq by simp
    show "\<forall>i < length (ring Q). \<not> in_ring (of_int ?w) (ring P) (ring Q ! i)" using qp by simp
    fix i j
    assume ij: "i < length (ring P)" "j < length (ring Q)"
      "side (of_int ?v) (ring Q) j (ring P ! i) * side (of_int ?v) (ring Q) j (ring P ! nx (length (ring P)) i) < 0"
      "side (of_int ?w) (ring P) i (ring Q ! j) * side (of_int ?w) (ring P) i (ring Q ! nx (length (ring Q)) j) < 0"
    have "nx (length P) i < length P" "nx (length Q) j < length Q" using n by (auto intro!: mod_less_divisor)
    with ij show thesis by (intro that [of i j]) simp_all
  qed
  have sq: "of_int ?v * of_int ?v = (1 :: rat)" "of_int ?w * of_int ?w = (1 :: rat)" using w by auto
  have mul: "(k * a) * (k * b) = (k * k) * (a * b)" for k a b :: rat by (simp add: mult_ac)
  have "edges_cross robust (P ! i, P ! nx (length P) i) (Q ! j, Q ! nx (length Q) j)"
  proof (rule crossing_code [OF e])
    show "turn (Q ! j) (Q ! nx (length Q) j) (P ! i) * turn (Q ! j) (Q ! nx (length Q) j) (P ! nx (length P) i) < 0"
      using ij(3) unfolding side_ring [OF ij(2)] mul sq by simp
    show "turn (P ! i) (P ! nx (length P) i) (Q ! j) * turn (P ! i) (P ! nx (length P) i) (Q ! nx (length Q) j) < 0"
      using ij(4) unfolding side_ring [OF ij(1)] mul sq by simp
  qed (use edge_in_set [OF ij(1)] edge_in_set [OF ij(2)] in auto)
  then have "boundaries_have_proper_crossing robust P Q"
    using ij(1,2) unfolding boundaries_have_proper_crossing_def list_ex_iff polygon_edges_set by blast
  with no(3) show False ..
qed

text \<open>What an assessment checks, whichever way it gets the placed polygons.\<close>

definition index_ok :: "robust \<Rightarrow> pieces_at \<Rightarrow> assess_placement_input \<Rightarrow> bool" where
  "index_ok robust heap input \<longleftrightarrow> (\<forall>index. placed_collision_index input = Some index \<longrightarrow>
    (\<exists>indexed cell_size. (case cell_size of None \<Rightarrow> True | Some v \<Rightarrow> f64_ok v) \<and>
      index = make_placed_collision_spatial_index robust heap indexed cell_size))"

definition placed_at :: "pieces_at \<Rightarrow> arc \<Rightarrow> polygon" where
  "placed_at heap p = (let t = placement_transform (piece_placement (heap p)) in
    map (\<lambda>q. translated q \<lparr>px = translate_x t, py = translate_y t\<rparr>) (collision_polygon (piece_collision_geometry (heap p))))"

definition candidate_polygon :: "assess_placement_input \<Rightarrow> polygon" where
  "candidate_polygon input = map (\<lambda>q. translated q (candidate_point input)) (collision_polygon (moving input))"

lemma translate_and_validate_facts:
  assumes "translate_and_validate_polygon robust polygon t label = Inr q"
  shows "validated_points q = map (\<lambda>p. translated p t) polygon \<and> finite_bounds (validated_bounds q) \<and>
    (\<forall>r \<in> set (validated_points q). finite_point r \<and> encloses (validated_bounds q) r) \<and>
    validate_strict_boundary robust (validated_points q) = Valid (validated_winding q)"
  using assms translate_encloses
  by (fastforce simp: translate_and_validate_polygon_def split: option.splits strict_convex_boundary_validation.splits)

lemma collect_placed_member:
  assumes "collect_placed robust heap placed = Inr ps" "a \<in> set placed"
  obtains q where "q \<in> set ps" "translate_and_validate_polygon robust (collision_polygon (piece_collision_geometry (heap a)))
    \<lparr>px = translate_x (placement_transform (piece_placement (heap a))),
     py = translate_y (placement_transform (piece_placement (heap a)))\<rparr> ''placed'' = Inr q"
proof -
  have "\<exists>q \<in> set ps. translate_and_validate_polygon robust (collision_polygon (piece_collision_geometry (heap a)))
    \<lparr>px = translate_x (placement_transform (piece_placement (heap a))),
     py = translate_y (placement_transform (piece_placement (heap a)))\<rparr> ''placed'' = Inr q"
    using assms by (induction placed arbitrary: ps) (auto simp: Let_def and_then_Inr_iff)
  then show ?thesis using that by blast
qed

lemma overlap_loop_legal:
  assumes "overlap_loop robust m ps = Assessment a" "legal a" "q \<in> set ps"
  shows "polygons_have_positive_area_overlap robust m q = Inr False"
  using assms by (induction ps) (auto simp: illegal_def split: sum.splits bool.splits)

lemma assess_parts:
  assumes ok: "index_ok robust heap input" and a: "assess_placement robust heap input enforce = Some (Assessment a)" "legal a"
  obtains m ps where "translate_and_validate_polygon robust (collision_polygon (moving input)) (candidate_point input) ''moving'' = Inr m"
    "collect_placed robust heap (input_placed input) = Inr ps" "overlap_loop robust m ps = Assessment a"
    "enforce \<Longrightarrow> (\<forall>s. input_sheet input = Some s \<longrightarrow> is_inside_sheet (validated_points m) (domain_sheet_width s) (domain_sheet_height s))"
proof -
  have "assess_placement robust heap (input\<lparr>placed_collision_index := None\<rparr>) enforce = Some (Assessment a)"
  proof (cases "placed_collision_index input")
    case None
    then have "input\<lparr>placed_collision_index := None\<rparr> = input" by simp
    then show ?thesis using a(1) by simp
  next
    case (Some index)
    then obtain indexed cs where i: "case cs of None \<Rightarrow> True | Some v \<Rightarrow> f64_ok v"
      "index = make_placed_collision_spatial_index robust heap indexed cs" using ok unfolding index_ok_def by blast
    have "input = input\<lparr>placed_collision_index := Some index\<rparr>" using Some by simp
    then show ?thesis using ignores_index [OF i(1), where robust = robust and heap = heap and input = input and indexed = indexed and enforce = enforce] a(1) i(2) by simp
  qed
  then obtain m ps where mp: "translate_and_validate_polygon robust (collision_polygon (moving input)) (candidate_point input) ''moving'' = Inr m"
    "collect_placed robust heap (input_placed input) = Inr ps"
    "(if enforce \<and> (case input_sheet input of None \<Rightarrow> False
        | Some s \<Rightarrow> \<not> is_inside_sheet (validated_points m) (domain_sheet_width s) (domain_sheet_height s))
      then illegal ''moving polygon must remain inside the sheet.'' else overlap_loop robust m ps) = Assessment a"
    by (auto simp: assess_placement_def placed_polygons_def split: sum.splits)
  then show ?thesis
    using a(2) by (intro that [OF mp(1,2)]) (auto simp: illegal_def split: if_splits option.splits)
qed

text \<open>
  C1. A placement judged legal does not overlap what is placed. With exact orientations and coordinates
  in the range of the linear validation, both polygons are strictly convex rings at their floating-point
  coordinates, and unless a vertex of one lies exactly on the boundary of the other, no point is
  strictly inside both; and when the sheet is enforced every vertex of the candidate is inside it. With or without the index.
\<close>

theorem legal_placement_is_disjoint:
  assumes "index_ok robust heap input" "assess_placement robust heap input enforce = Some (Assessment a)" "legal a"
    and "p \<in> set (input_placed input)" "exact_on robust (set (candidate_polygon input) \<union> set (placed_at heap p))"
    and "supports_linear_topology_decision (candidate_polygon input)" "supports_linear_topology_decision (placed_at heap p)"
    and "\<forall>q \<in> set (candidate_polygon input). \<not> is_on_boundary robust q (placed_at heap p)"
    and "\<forall>q \<in> set (placed_at heap p). \<not> is_on_boundary robust q (candidate_polygon input)"
  shows "(\<exists>w v. convex_ring w (ring (candidate_polygon input)) \<and> convex_ring v (ring (placed_at heap p)) \<and>
      (\<forall>x. \<not> (inside w (ring (candidate_polygon input)) x \<and> inside v (ring (placed_at heap p)) x))) \<and>
    (enforce \<longrightarrow> (\<forall>s. input_sheet input = Some s \<longrightarrow> (\<forall>q \<in> set (candidate_polygon input).
      0 \<le> vx q \<and> fle (px q) (domain_sheet_width s) \<and> 0 \<le> vy q \<and> fle (py q) (domain_sheet_height s))))"
proof -
  obtain m ps where m: "translate_and_validate_polygon robust (collision_polygon (moving input)) (candidate_point input) ''moving'' = Inr m"
    and ps: "collect_placed robust heap (input_placed input) = Inr ps" and loop: "overlap_loop robust m ps = Assessment a"
    and sheet: "enforce \<Longrightarrow> (\<forall>s. input_sheet input = Some s \<longrightarrow>
      is_inside_sheet (validated_points m) (domain_sheet_width s) (domain_sheet_height s))"
    using assess_parts [OF assms(1-3)] by blast
  obtain q where q: "q \<in> set ps" "translate_and_validate_polygon robust (collision_polygon (piece_collision_geometry (heap p)))
    \<lparr>px = translate_x (placement_transform (piece_placement (heap p))),
     py = translate_y (placement_transform (piece_placement (heap p)))\<rparr> ''placed'' = Inr q"
    using collect_placed_member [OF ps assms(4)] by blast
  note mf = translate_and_validate_facts [OF m, folded candidate_polygon_def]
  have qf: "validated_points q = placed_at heap p" using translate_and_validate_facts [OF q(2)] by (simp add: placed_at_def Let_def)
  note qv = translate_and_validate_facts [OF q(2), unfolded qf]
  have ex: "exact_on robust (set (candidate_polygon input))" "exact_on robust (set (placed_at heap p))"
    using assms(5) by (auto simp: exact_on_def)
  let ?w = "of_int (validated_winding m) :: rat" and ?v = "of_int (validated_winding q) :: rat"
  have c: "convex_ring ?w (ring (candidate_polygon input))" "convex_ring ?v (ring (placed_at heap p))"
    using valid_convex [OF _ ex(1) assms(6)] valid_convex [OF _ ex(2) assms(7)] mf qv by auto
  have "\<not> (inside ?w (ring (candidate_polygon input)) x \<and> inside ?v (ring (placed_at heap p)) x)" for x
    using no_overlap_disjoint [OF overlap_loop_legal [OF loop assms(3) q(1)], of x] assms(5,8,9) c mf qv qf by simp
  moreover have "\<forall>q \<in> set (candidate_polygon input). 0 \<le> vx q \<and> fle (px q) (domain_sheet_width s) \<and> 0 \<le> vy q \<and>
      fle (py q) (domain_sheet_height s)" if "enforce" "input_sheet input = Some s" for s
    using sheet that mf by (auto simp: is_inside_sheet_def list_all_iff fle_val finite_point_def vx_def vy_def)
  ultimately show ?thesis using c by meson
qed

end
