(* ===== verification/IntPoints.thy ===== *)
theory IntPoints
  imports Legality F64Eval
begin

text \<open>
  Points with integer coordinates and the exact orientation, for concrete inputs: the geometry of such
  points evaluates by simplification.
\<close>

definition fi :: "int \<Rightarrow> f64" where
  "fi i = Finite (i < 0) (of_int \<bar>i\<bar>)"

definition gp :: "int \<Rightarrow> int \<Rightarrow> point" where
  "gp x y = \<lparr>px = fi x, py = fi y\<rparr>"

definition sign_robust :: robust where
  "sign_robust a b c = (if 0 < turn a b c then Finite False 1 else if turn a b c < 0 then Finite True 1 else Finite False 0)"

lemma sign_robust_exact [simp]: "exact_on sign_robust A"
  by (simp add: exact_on_def sign_robust_def)

lemma fi_val [simp]: "f64_val (fi i) = of_int i" "is_finite (fi i)" "\<not> is_nan (fi i)"
  by (simp_all add: fi_def)

lemma fi_cmp [simp]: "flt (fi i) (fi j) \<longleftrightarrow> i < j" "feq (fi i) (fi j) \<longleftrightarrow> i = j" "fle (fi i) (fi j) \<longleftrightarrow> i \<le> j"
  by (simp_all add: flt_val feq_val fle_val)

lemma fi_zero: "Finite False 0 = fi 0"
  by (simp add: fi_def)

lemma fi_numeral: "Finite False 1 = fi 1" "Finite False (numeral n) = fi (numeral n)"
  by (simp_all add: fi_def)

lemma fi_extrema [simp]: "js_min (fi i) (fi j) = fi (min i j)" "js_max (fi i) (fi j) = fi (max i j)"
  by (auto simp: js_min_def js_max_def fi_zero) (auto simp: fi_def min_def max_def)

lemma fi_abs [simp]: "fabs (fi i) = fi \<bar>i\<bar>"
  by (simp add: fi_def)

lemma fi_ok [simp]: "\<bar>i\<bar> \<le> 2 ^ 53 \<Longrightarrow> f64_ok (fi i)"
  using round_to_int_val [of i "i < 0"] round_to_int [of i "i < 0"] by (simp add: fi_def is_int_val_def)

lemma fi_add [simp]: "\<bar>i + j\<bar> \<le> 2 ^ 53 \<Longrightarrow> fadd (fi i) (fi j) = fi (i + j)"
proof -
  assume b: "\<bar>i + j\<bar> \<le> 2 ^ 53"
  have v: "f64_val (fi i) + f64_val (fi j) = of_int (i + j)" by simp
  have s: "fadd (fi i) (fi j) = (let v = f64_val (fi i) + f64_val (fi j)
     in if v = 0 then Finite (i < 0 \<and> j < 0) 0 else round_to (v < 0) \<bar>v\<bar>)"
    by (simp add: fi_def)
  show ?thesis
  proof (cases "i + j = 0")
    case True
    then show ?thesis unfolding s v by (auto simp: fi_def)
  next
    case False
    have "round_to (i + j < 0) (of_int \<bar>i + j\<bar>) = fi (i + j)" using round_to_int [OF b] by (simp add: fi_def)
    then show ?thesis unfolding s v Let_def using False by (simp del: of_int_add of_int_abs add: of_int_abs [symmetric])
  qed
qed

lemma fi_sub [simp]: "\<bar>i - j\<bar> \<le> 2 ^ 53 \<Longrightarrow> \<bar>i\<bar> \<le> 2 ^ 53 \<Longrightarrow> fsub (fi i) (fi j) = fi (i - j)"
proof (cases "j = 0")
  case True
  assume "\<bar>i\<bar> \<le> 2 ^ 53"
  then have "round_to (i < 0) (of_int \<bar>i\<bar>) = fi i" using round_to_int by (simp add: fi_def)
  then show ?thesis using True by (auto simp: fsub_def fi_def Let_def abs_if split: if_splits)
next
  case False
  assume b: "\<bar>i - j\<bar> \<le> 2 ^ 53"
  have "fneg (fi j) = fi (- j)" using False by (auto simp: fi_def)
  then show ?thesis using fi_add [of i "- j"] b by (simp add: fsub_def)
qed

lemma gp_point [simp]: "px (gp x y) = fi x" "py (gp x y) = fi y" "vx (gp x y) = of_int x" "vy (gp x y) = of_int y"
  "gp x y = gp u v \<longleftrightarrow> x = u \<and> y = v"
  by (auto simp: gp_def vx_def vy_def fi_def split: if_splits)

lemma gp_translated [simp]:
  "\<bar>x + u\<bar> \<le> 2 ^ 53 \<Longrightarrow> \<bar>y + v\<bar> \<le> 2 ^ 53 \<Longrightarrow> translated (gp x y) (gp u v) = gp (x + u) (y + v)"
  by (simp add: translated_def gp_def)

lemma gp_finite [simp]: "finite_point (gp x y)"
  by (simp add: finite_point_def)

lemma orientation_gp [simp]:
  "orientation sign_robust (gp a b) (gp c d) (gp e f) =
    (if 0 < (c - a) * (f - b) - (d - b) * (e - a) then 1
     else if (c - a) * (f - b) - (d - b) * (e - a) < 0 then - 1 else 0)"
proof -
  have "turn (gp a b) (gp c d) (gp e f) = of_int ((c - a) * (f - b) - (d - b) * (e - a))" by (simp add: turn_def)
  then show ?thesis
    unfolding orientation_exact [OF sign_robust_exact [of UNIV] UNIV_I UNIV_I UNIV_I]
    by (simp only: of_int_0_less_iff of_int_less_0_iff)
qed

lemma on_segment_gp [simp]:
  "point_is_on_segment (gp x y) (gp a b, gp c d) \<longleftrightarrow> min a c \<le> x \<and> x \<le> max a c \<and> min b d \<le> y \<and> y \<le> max b d"
  by (simp add: point_is_on_segment_def)

lemma fi_linear_topology [simp]: "\<bar>i\<bar> \<le> 2 ^ 53 \<Longrightarrow> coordinate_supports_linear_topology (fi i)"
proof (cases "i = 0")
  case True
  then show ?thesis by (simp add: coordinate_supports_linear_topology_def fi_zero)
next
  case False
  assume i: "\<bar>i\<bar> \<le> 2 ^ 53"
  have "(1 :: rat) / 2 ^ 450 \<le> 1" by simp
  moreover have "(of_int 1 :: rat) \<le> of_int \<bar>i\<bar>" using False unfolding of_int_le_iff by simp
  then have "(1 :: rat) \<le> of_int \<bar>i\<bar>" by simp
  ultimately have lo: "(1 :: rat) / 2 ^ 450 \<le> of_int \<bar>i\<bar>" by (rule order_trans)
  have "(of_int \<bar>i\<bar> :: rat) \<le> of_int (2 ^ 500)" using i by (simp only: of_int_le_iff) simp
  then have "(of_int \<bar>i\<bar> :: rat) \<le> 2 ^ 500" by simp
  with lo show ?thesis
    by (simp add: coordinate_supports_linear_topology_def MIN_LINEAR_TOPOLOGY_NON_ZERO_COORDINATE_def
        MAX_LINEAR_TOPOLOGY_COORDINATE_def fle_val del: of_int_abs)
qed

lemma upt_small: "[0..<3] = [0, 1, 2 :: nat]" "[0..<4] = [0, 1, 2, 3 :: nat]" "[0..<8] = [0, 1, 2, 3, 4, 5, 6, 7 :: nat]"
  by (simp_all add: upt_rec)

lemma edges_3: "polygon_edges [a, b, c] = [(a, b), (b, c), (c, a)]"
  by (simp add: polygon_edges_def upt_small)

lemma edges_4: "polygon_edges [a, b, c, d] = [(a, b), (b, c), (c, d), (d, a)]"
  by (simp add: polygon_edges_def upt_small)

lemma edges_8: "polygon_edges [a, b, c, d, e, f, g, h] = [(a, b), (b, c), (c, d), (d, e), (e, f), (f, g), (g, h), (h, a)]"
  by (simp add: polygon_edges_def upt_small)

lemma corners_3: "corners [a, b, c] = [(c, a, b), (a, b, c), (b, c, a)]"
  by (simp add: corners_def upt_small)

lemma corners_4: "corners [a, b, c, d] = [(d, a, b), (a, b, c), (b, c, d), (c, d, a)]"
  by (simp add: corners_def upt_small)

lemma corners_8: "corners [a, b, c, d, e, f, g, h] =
    [(h, a, b), (a, b, c), (b, c, d), (c, d, e), (d, e, f), (e, f, g), (f, g, h), (g, h, a)]"
  by (simp add: corners_def upt_small)

subsection \<open>The overlap test can miss an overlap\<close>

text \<open>
  An octagon and a thin quadrilateral that crosses it along two of its diagonals: every crossing of
  their boundaries is at a vertex of the octagon, no vertex of either is strictly inside the other,
  and neither vertex average is in the other polygon.
\<close>

definition octagon :: "point list" where
  "octagon = [gp 40 (- 8), gp 80 0, gp 80 8, gp 64 40, gp 40 56, gp 16 40, gp 0 8, gp 0 0]"

definition strip :: "point list" where
  "strip = [gp (- 384) 0, gp 128 0, gp 128 8, gp (- 384) 8]"

lemma octagon_valid: "validate_strict_boundary sign_robust octagon = Valid 1"
proof -
  have "scan_turns sign_robust octagon = \<lparr>scan_winding = Some 1, scan_failure = None\<rparr>"
    by (simp add: scan_turns_def octagon_def corners_8 Let_def)
  moreover have "completes_one_revolution (polygon_edges octagon)"
    by (simp add: completes_one_revolution_def octagon_def edges_8 upt_small points_downwards_def)
  moreover have "supports_linear_topology_decision octagon"
    by (simp add: supports_linear_topology_decision_def octagon_def)
  ultimately show ?thesis
    by (simp add: validate_strict_boundary_def Let_def) (simp add: octagon_def edges_8)
qed

lemma strip_valid: "validate_strict_boundary sign_robust strip = Valid 1"
proof -
  have "scan_turns sign_robust strip = \<lparr>scan_winding = Some 1, scan_failure = None\<rparr>"
    by (simp add: scan_turns_def strip_def corners_4 Let_def)
  moreover have "completes_one_revolution (polygon_edges strip)"
    by (simp add: completes_one_revolution_def strip_def edges_4 upt_small points_downwards_def)
  moreover have "supports_linear_topology_decision strip"
    by (simp add: supports_linear_topology_decision_def strip_def)
  ultimately show ?thesis
    by (simp add: validate_strict_boundary_def Let_def) (simp add: strip_def edges_4)
qed

lemma make_bounds_fi: "a \<le> c \<Longrightarrow> b \<le> d \<Longrightarrow>
  make_bounds (fi a) (fi b) (fi c) (fi d) = Some \<lparr>min_x = fi a, min_y = fi b, max_x = fi c, max_y = fi d\<rparr>"
  by (simp add: make_bounds_def)

lemma octagon_translated: "translate_polygon_with_bounds octagon (gp 0 0) =
    Some \<lparr>pwb_polygon = octagon, pwb_bounds = \<lparr>min_x = fi 0, min_y = fi (- 8), max_x = fi 80, max_y = fi 56\<rparr>\<rparr>"
  by (simp add: translate_polygon_with_bounds_def octagon_def Let_def point_bounds_def widen_def make_bounds_fi)

lemma strip_translated: "translate_polygon_with_bounds strip (gp 0 0) =
    Some \<lparr>pwb_polygon = strip, pwb_bounds = \<lparr>min_x = fi (- 384), min_y = fi 0, max_x = fi 128, max_y = fi 8\<rparr>\<rparr>"
  by (simp add: translate_polygon_with_bounds_def strip_def Let_def point_bounds_def widen_def make_bounds_fi)

lemma weight_eighth: "fmul (fi (8 * k)) (Finite False (1 / 8)) = fi k" if "\<bar>k\<bar> \<le> 2 ^ 53"
  using round_to_int [OF that, of "k < 0"] by (simp add: fi_def abs_mult)

lemma weight_quarter: "fmul (fi (4 * k)) (Finite False (1 / 4)) = fi k" if "\<bar>k\<bar> \<le> 2 ^ 53"
  using round_to_int [OF that, of "k < 0"] by (simp add: fi_def abs_mult)

lemma weights: "round_to False (1 / 8) = Finite False (1 / 8)" "round_to False (1 / 4) = Finite False (1 / 4)"
  using round_mag_exact [of "1 / 8" 1 "- 3"] round_mag_exact [of "1 / 4" 1 "- 2"]
  by (simp_all add: round_to_def Let_def f64_top_def power_int_minus)

lemma octagon_average: "strict_convex_interior_point octagon = Inr (gp 40 18)"
proof -
  have w: "fmul (fi 0) (Finite False (1 / 8)) = fi 0" "fmul (fi (- 8)) (Finite False (1 / 8)) = fi (- 1)"
    "fmul (fi 8) (Finite False (1 / 8)) = fi 1" "fmul (fi 16) (Finite False (1 / 8)) = fi 2"
    "fmul (fi 40) (Finite False (1 / 8)) = fi 5" "fmul (fi 56) (Finite False (1 / 8)) = fi 7"
    "fmul (fi 64) (Finite False (1 / 8)) = fi 8" "fmul (fi 80) (Finite False (1 / 8)) = fi 10"
    using weight_eighth [of 0] weight_eighth [of "- 1"] weight_eighth [of 1] weight_eighth [of 2] weight_eighth [of 5]
      weight_eighth [of 7] weight_eighth [of 8] weight_eighth [of 10] by simp_all
  show ?thesis
    by (simp add: strict_convex_interior_point_def octagon_def weights f64_eval Let_def w fi_zero gp_def)
qed

lemma strip_average: "strict_convex_interior_point strip = Inr (gp (- 128) 4)"
proof -
  have w: "fmul (fi 0) (Finite False (1 / 4)) = fi 0" "fmul (fi (- 384)) (Finite False (1 / 4)) = fi (- 96)"
    "fmul (fi 8) (Finite False (1 / 4)) = fi 2" "fmul (fi 128) (Finite False (1 / 4)) = fi 32"
    using weight_quarter [of 0] weight_quarter [of "- 96"] weight_quarter [of 2] weight_quarter [of 32] by simp_all
  show ?thesis
    by (simp add: strict_convex_interior_point_def strip_def weights f64_eval Let_def w fi_zero gp_def)
qed

lemma octagon_strip_apart:
  "\<not> list_ex (\<lambda>p. is_strictly_inside sign_robust p octagon 1) strip"
  "\<not> list_ex (\<lambda>p. is_strictly_inside sign_robust p strip 1) octagon"
  by (simp_all add: is_strictly_inside_def Let_def strip_def octagon_def edges_4 edges_8)

lemma octagon_strip_no_crossing: "\<not> boundaries_have_proper_crossing sign_robust octagon strip"
  by (simp add: boundaries_have_proper_crossing_def edges_cross_def Let_def strip_def octagon_def edges_4 edges_8)

lemma octagon_strip_no_collinear: "boundaries_have_positive_collinear_overlap sign_robust octagon strip 1 = Inr False"
  by (simp add: boundaries_have_positive_collinear_overlap_def collinear_overlap_pair_def strip_def octagon_def edges_4 edges_8)

lemma octagon_strip_averages:
  "\<not> is_strictly_inside sign_robust (gp 40 18) strip 1" "\<not> is_strictly_inside sign_robust (gp (- 128) 4) octagon 1"
  by (simp_all add: is_strictly_inside_def Let_def strip_def octagon_def edges_4 edges_8)

lemma octagon_strip_boundary: "\<not> list_all (\<lambda>p. is_on_boundary sign_robust p strip) octagon"
  by (simp add: is_on_boundary_def strip_def octagon_def edges_4)

lemma octagon_strip_missed:
  "polygons_have_positive_area_overlap sign_robust
    \<lparr>validated_points = octagon, validated_bounds = b, validated_winding = 1\<rparr>
    \<lparr>validated_points = strip, validated_bounds = d, validated_winding = 1\<rparr> = Inr False"
  using octagon_strip_apart octagon_strip_no_crossing octagon_strip_no_collinear octagon_strip_averages octagon_strip_boundary
  by (simp add: polygons_have_positive_area_overlap_def octagon_average strip_average)

lemma convex_ring_edges:
  assumes "3 \<le> length ps" "w = 1 \<or> w = - 1" "distinct (ring ps)"
    and "\<forall>(s, e) \<in> set (polygon_edges ps). \<forall>p \<in> set ps. p = s \<or> p = e \<or> 0 < w * turn s e p"
  shows "convex_ring w (ring ps)"
  unfolding convex_ring_def length_map
proof (intro conjI allI impI)
  have d: "distinct ps" using assms(3) by (simp add: distinct_map)
  fix i j
  assume ij: "i < length ps" "j < length ps" "j \<noteq> i \<and> j \<noteq> nx (length ps) i"
  have n: "nx (length ps) i < length ps" using ij(1) by (intro mod_less_divisor) linarith
  have "ps ! j \<noteq> ps ! i" "ps ! j \<noteq> ps ! nx (length ps) i"
    using d ij n by (simp_all only: nth_eq_iff_index_eq not_False_eq_True simp_thms)
  moreover have "(ps ! i, ps ! nx (length ps) i) \<in> set (polygon_edges ps)" using ij(1) by (auto simp: polygon_edges_def)
  then have "\<forall>p \<in> set ps. p = ps ! i \<or> p = ps ! nx (length ps) i \<or> 0 < w * turn (ps ! i) (ps ! nx (length ps) i) p"
    using assms(4) by blast
  ultimately have "0 < w * turn (ps ! i) (ps ! nx (length ps) i) (ps ! j)" using ij(2) nth_mem by blast
  then show "0 < side w (ring ps) i (ring ps ! j)" using side_ring [OF ij(1), of w "ps ! j"] ij(2) by simp
qed (use assms in auto)

lemma inside_edges: "inside w (ring ps) (pt p) \<longleftrightarrow> (\<forall>(s, e) \<in> set (polygon_edges ps). 0 < w * turn s e p)"
proof -
  have "(\<forall>e \<in> set (polygon_edges ps). P e) \<longleftrightarrow> (\<forall>i < length ps. P (ps ! i, ps ! nx (length ps) i))" for P
    by (auto simp: polygon_edges_def)
  then show ?thesis by (simp add: inside_def side_ring)
qed

lemma turn_gp [simp]: "turn (gp a b) (gp c d) (gp e f) =
    (of_int c - of_int a) * (of_int f - of_int b) - (of_int d - of_int b) * (of_int e - of_int a)"
  by (simp add: turn_def)

lemma octagon_convex: "convex_ring 1 (ring octagon)"
  by (rule convex_ring_edges) (simp_all add: octagon_def edges_8 pt_def)

lemma strip_convex: "convex_ring 1 (ring strip)"
  by (rule convex_ring_edges) (simp_all add: strip_def edges_4 pt_def)

subsection \<open>Sample pieces\<close>

definition geometry_of :: "point list \<Rightarrow> transformed_collision_geometry" where
  "geometry_of ps = \<lparr>collision_source_piece_id = ''s'',
    collision_transform = \<lparr>candidate_index = fi 0, candidate_rotation_deg = fi 0, candidate_mirrored = False, candidate_reason = Orthogonal\<rparr>,
    collision_polygon = ps, collision_bounds = \<lparr>min_x = fi 0, min_y = fi 0, max_x = fi 0, max_y = fi 0\<rparr>\<rparr>"

definition piece_of :: "point list \<Rightarrow> irregular_placed_piece" where
  "piece_of ps = \<lparr>piece_placement = \<lparr>placement_piece_id = None, placement_source_piece_id = ''s'', placement_reference = None,
      placement_transform = \<lparr>translate_x = fi 0, translate_y = fi 0, transform_rotation_deg = fi 0, transform_mirrored = False\<rparr>\<rparr>,
    piece_collision_geometry = geometry_of ps\<rparr>"

text \<open>The polygon \<open>ps\<close> at its own place, against the placed pieces 0, ..., without a sheet.\<close>

definition input_of :: "point list \<Rightarrow> arc list \<Rightarrow> assess_placement_input" where
  "input_of ps placed = \<lparr>input_sheet = None, input_placed = placed, placed_collision_index = None,
    moving = geometry_of ps, candidate_point = gp 0 0\<rparr>"

lemma piece_of_simps [simp]:
  "collision_polygon (piece_collision_geometry (piece_of ps)) = ps"
  "\<lparr>px = translate_x (placement_transform (piece_placement (piece_of ps))),
    py = translate_y (placement_transform (piece_placement (piece_of ps)))\<rparr> = gp 0 0"
  "collision_polygon (moving (input_of ps placed)) = ps" "candidate_point (input_of ps placed) = gp 0 0"
  by (simp_all add: piece_of_def geometry_of_def input_of_def gp_def)

text \<open>
  C5. The overlap test is not complete: there are strictly convex polygons whose interiors share a point
  and which the assessment, on exact orientations, judges legal. Boundaries that cross only at
  vertices escape every stage of the test, so the restriction of the previous claim is needed.
\<close>

theorem overlap_test_incomplete:
  "\<exists>robust heap input p x. (\<forall>A. exact_on robust A) \<and> p \<in> set (input_placed input) \<and>
    convex_ring 1 (ring (candidate_polygon input)) \<and> inside 1 (ring (candidate_polygon input)) x \<and>
    convex_ring 1 (ring (placed_at heap p)) \<and> inside 1 (ring (placed_at heap p)) x \<and>
    check_sheetless robust heap input = Some (Inr True)"
proof (intro exI conjI allI)
  show "exact_on sign_robust A" for A by simp
  show "0 \<in> set (input_placed (input_of octagon [0]))" by (simp add: input_of_def)
  have c: "candidate_polygon (input_of octagon [0]) = octagon" by (simp add: candidate_polygon_def octagon_def)
  have p: "placed_at (\<lambda>_. piece_of strip) 0 = strip" by (simp add: placed_at_def Let_def strip_def)
  show "convex_ring 1 (ring (candidate_polygon (input_of octagon [0])))" "convex_ring 1 (ring (placed_at (\<lambda>_. piece_of strip) 0))"
    unfolding c p by (rule octagon_convex, rule strip_convex)
  show "inside 1 (ring (candidate_polygon (input_of octagon [0]))) (pt (gp 40 4))"
    unfolding c inside_edges by (simp add: octagon_def edges_8)
  show "inside 1 (ring (placed_at (\<lambda>_. piece_of strip) 0)) (pt (gp 40 4))"
    unfolding p inside_edges by (simp add: strip_def edges_4)
  have "placed_collision_index (input_of octagon [0]) = None" "input_placed (input_of octagon [0]) = [0]"
    by (simp_all add: input_of_def)
  then show "check_sheetless sign_robust (\<lambda>_. piece_of strip) (input_of octagon [0]) = Some (Inr True)"
    by (simp add: check_sheetless_def assess_placement_def placed_polygons_def translate_and_validate_polygon_def Let_def
        octagon_translated strip_translated octagon_valid strip_valid octagon_strip_missed outcome_check_def)
qed

subsection \<open>Witnesses\<close>

lemma strip_entry: "make_entry sign_robust (\<lambda>_. piece_of strip) p n = \<lparr>entry_placed = p,
    entry_validation = Validation_Valid \<lparr>indexed_polygon = \<lparr>pwb_polygon = strip,
      pwb_bounds = \<lparr>min_x = fi (- 384), min_y = fi 0, max_x = fi 128, max_y = fi 8\<rparr>\<rparr>, indexed_winding = 1\<rparr>,
    entry_ordinal = n\<rparr>"
  by (simp add: make_entry_def Let_def strip_translated strip_valid)

lemma spatial_query_exact_witness:
  "query (make_placed_collision_spatial_index sign_robust (\<lambda>_. piece_of strip) [0, 0] (Some (fi 10)))
      (Some \<lparr>min_x = fi 0, min_y = fi 9, max_x = fi 5, max_y = fi 12\<rparr>) = Some [] \<and>
    query (make_placed_collision_spatial_index sign_robust (\<lambda>_. piece_of strip) [0, 0] (Some (fi 10)))
      (Some \<lparr>min_x = fi 0, min_y = fi 8, max_x = fi 5, max_y = fi 12\<rparr>) =
    Some [make_entry sign_robust (\<lambda>_. piece_of strip) 0 0, make_entry sign_robust (\<lambda>_. piece_of strip) 0 1]"
proof -
  have c: "case Some (fi 10) of None \<Rightarrow> True | Some v \<Rightarrow> f64_ok v" by simp
  have b: "case Some \<lparr>min_x = fi 0, min_y = fi k, max_x = fi 5, max_y = fi 12\<rparr> of None \<Rightarrow> True | Some b \<Rightarrow> bounds_ok b"
    if "\<bar>k\<bar> \<le> 2 ^ 53" for k using that by (simp add: bounds_ok_def)
  note q = spatial_query_exact [OF c b, where robust = sign_robust and heap = "\<lambda>_. piece_of strip" and placed = "[0, 0]"]
  show ?thesis using q [of 9] q [of 8] by (simp add: relevant_def strip_entry are_disjoint_def)
qed

definition kite :: "point list" where "kite = [gp 0 0, gp 8 0, gp 4 4, gp 0 4]"
definition trapezium :: "point list" where "trapezium = [gp 12 4, gp 12 12, gp 4 12, gp 8 4]"

lemma kite_facts:
  "validate_strict_boundary sign_robust kite = Valid 1" "convex_ring 1 (ring kite)"
  "translate_polygon_with_bounds kite (gp 0 0) =
    Some \<lparr>pwb_polygon = kite, pwb_bounds = \<lparr>min_x = fi 0, min_y = fi 0, max_x = fi 8, max_y = fi 4\<rparr>\<rparr>"
proof -
  have "scan_turns sign_robust kite = \<lparr>scan_winding = Some 1, scan_failure = None\<rparr>"
    by (simp add: scan_turns_def kite_def corners_4 Let_def)
  moreover have "completes_one_revolution (polygon_edges kite)"
    by (simp add: completes_one_revolution_def kite_def edges_4 upt_small points_downwards_def)
  moreover have "supports_linear_topology_decision kite" by (simp add: supports_linear_topology_decision_def kite_def)
  ultimately show "validate_strict_boundary sign_robust kite = Valid 1"
    by (simp add: validate_strict_boundary_def Let_def) (simp add: kite_def edges_4)
  show "convex_ring 1 (ring kite)" by (rule convex_ring_edges) (simp_all add: kite_def edges_4 pt_def)
qed (simp add: translate_polygon_with_bounds_def kite_def Let_def point_bounds_def widen_def make_bounds_fi)

lemma trapezium_facts:
  "validate_strict_boundary sign_robust trapezium = Valid 1" "convex_ring 1 (ring trapezium)"
  "translate_polygon_with_bounds trapezium (gp 0 0) =
    Some \<lparr>pwb_polygon = trapezium, pwb_bounds = \<lparr>min_x = fi 4, min_y = fi 4, max_x = fi 12, max_y = fi 12\<rparr>\<rparr>"
proof -
  have "scan_turns sign_robust trapezium = \<lparr>scan_winding = Some 1, scan_failure = None\<rparr>"
    by (simp add: scan_turns_def trapezium_def corners_4 Let_def)
  moreover have "completes_one_revolution (polygon_edges trapezium)"
    by (simp add: completes_one_revolution_def trapezium_def edges_4 upt_small points_downwards_def)
  moreover have "supports_linear_topology_decision trapezium" by (simp add: supports_linear_topology_decision_def trapezium_def)
  ultimately show "validate_strict_boundary sign_robust trapezium = Valid 1"
    by (simp add: validate_strict_boundary_def Let_def) (simp add: trapezium_def edges_4)
  show "convex_ring 1 (ring trapezium)" by (rule convex_ring_edges) (simp_all add: trapezium_def edges_4 pt_def)
qed (simp add: translate_polygon_with_bounds_def trapezium_def Let_def point_bounds_def widen_def make_bounds_fi)

lemma kite_trapezium_averages:
  "strict_convex_interior_point kite = Inr (gp 3 2)" "strict_convex_interior_point trapezium = Inr (gp 9 8)"
proof -
  have w: "fmul (fi 0) (Finite False (1 / 4)) = fi 0" "fmul (fi 4) (Finite False (1 / 4)) = fi 1"
    "fmul (fi 8) (Finite False (1 / 4)) = fi 2" "fmul (fi 12) (Finite False (1 / 4)) = fi 3"
    using weight_quarter [of 0] weight_quarter [of 1] weight_quarter [of 2] weight_quarter [of 3] by simp_all
  show "strict_convex_interior_point kite = Inr (gp 3 2)" "strict_convex_interior_point trapezium = Inr (gp 9 8)"
    by (simp_all add: strict_convex_interior_point_def kite_def trapezium_def weights f64_eval Let_def w fi_zero gp_def)
qed

lemma kite_trapezium_legal:
  "assess_placement sign_robust (\<lambda>_. piece_of trapezium) (input_of kite [0]) True =
    Some (Assessment \<lparr>legal = True, assessment_message = ''''\<rparr>)"
proof -
  have s: "\<not> list_ex (\<lambda>p. is_strictly_inside sign_robust p trapezium 1) kite"
    "\<not> list_ex (\<lambda>p. is_strictly_inside sign_robust p kite 1) trapezium"
    "\<not> is_strictly_inside sign_robust (gp 3 2) trapezium 1" "\<not> is_strictly_inside sign_robust (gp 9 8) kite 1"
    by (simp_all add: is_strictly_inside_def Let_def kite_def trapezium_def edges_4)
  have c: "\<not> boundaries_have_proper_crossing sign_robust kite trapezium"
    by (simp add: boundaries_have_proper_crossing_def edges_cross_def Let_def kite_def trapezium_def edges_4)
  have o: "boundaries_have_positive_collinear_overlap sign_robust kite trapezium 1 = Inr False"
    by (simp add: boundaries_have_positive_collinear_overlap_def collinear_overlap_pair_def
        segments_have_positive_length_overlap_def Let_def kite_def trapezium_def edges_4)
  have b: "\<not> list_all (\<lambda>p. is_on_boundary sign_robust p trapezium) kite"
    by (simp add: is_on_boundary_def kite_def trapezium_def edges_4)
  have "polygons_have_positive_area_overlap sign_robust
    \<lparr>validated_points = kite, validated_bounds = d, validated_winding = 1\<rparr>
    \<lparr>validated_points = trapezium, validated_bounds = e, validated_winding = 1\<rparr> = Inr False" for d e
    using s c o b by (simp add: polygons_have_positive_area_overlap_def kite_trapezium_averages)
  moreover have "placed_collision_index (input_of kite [0]) = None" "input_placed (input_of kite [0]) = [0]"
    "input_sheet (input_of kite [0]) = None" by (simp_all add: input_of_def)
  ultimately show ?thesis
    by (simp add: assess_placement_def placed_polygons_def translate_and_validate_polygon_def Let_def
        kite_facts trapezium_facts)
qed

lemma legal_placement_is_disjoint_witness:
  "\<exists>w v. convex_ring w (ring kite) \<and> convex_ring v (ring trapezium) \<and>
    (\<forall>x. \<not> (inside w (ring kite) x \<and> inside v (ring trapezium) x))"
proof -
  have c: "candidate_polygon (input_of kite [0]) = kite" by (simp add: candidate_polygon_def kite_def)
  have p: "placed_at (\<lambda>_. piece_of trapezium) 0 = trapezium" by (simp add: placed_at_def Let_def trapezium_def)
  have b: "\<forall>q \<in> set kite. \<not> is_on_boundary sign_robust q trapezium" "\<forall>q \<in> set trapezium. \<not> is_on_boundary sign_robust q kite"
    by (simp_all add: is_on_boundary_def kite_def trapezium_def edges_4)
  have i: "index_ok sign_robust (\<lambda>_. piece_of trapezium) (input_of kite [0])" "0 \<in> set (input_placed (input_of kite [0]))"
    by (simp_all add: index_ok_def input_of_def)
  have l: "legal \<lparr>legal = True, assessment_message = ''''\<rparr>" by simp
  have t: "supports_linear_topology_decision kite" "supports_linear_topology_decision trapezium"
    by (simp_all add: supports_linear_topology_decision_def kite_def trapezium_def)
  from legal_placement_is_disjoint [OF i(1) kite_trapezium_legal l i(2), unfolded c p, OF sign_robust_exact t b]
  show ?thesis by blast
qed

lemma strict_boundary_exact_witness:
  "validate_strict_boundary sign_robust kite = Valid 1 \<and> convex_ring 1 (ring kite) \<and>
    \<not> has_self_intersection sign_robust (polygon_edges kite)"
proof -
  have "\<forall>p \<in> set kite. finite_point p" by (simp add: kite_def finite_point_def)
  moreover have "exact_on sign_robust (set kite)" by simp
  moreover have "supports_linear_topology_decision kite" by (simp add: supports_linear_topology_decision_def kite_def)
  ultimately show ?thesis using strict_boundary_exact [of kite sign_robust 1] kite_facts(1) by simp
qed

lemma assessment_ignores_index_witness:
  "assess_placement sign_robust (\<lambda>_. piece_of trapezium) ((input_of kite [0])\<lparr>placed_collision_index :=
      Some (make_placed_collision_spatial_index sign_robust (\<lambda>_. piece_of trapezium) [0] (Some (fi 3)))\<rparr>) True =
    Some (Assessment \<lparr>legal = True, assessment_message = ''''\<rparr>)"
proof -
  have "case Some (fi 3) of None \<Rightarrow> True | Some v \<Rightarrow> f64_ok v" by simp
  from assessment_ignores_index [OF this] have "assess_placement sign_robust (\<lambda>_. piece_of trapezium)
      ((input_of kite [0])\<lparr>placed_collision_index :=
        Some (make_placed_collision_spatial_index sign_robust (\<lambda>_. piece_of trapezium) [0] (Some (fi 3)))\<rparr>) True =
    assess_placement sign_robust (\<lambda>_. piece_of trapezium) ((input_of kite [0])\<lparr>placed_collision_index := None\<rparr>) True" .
  also have "(input_of kite [0])\<lparr>placed_collision_index := None\<rparr> = input_of kite [0]" by (simp add: input_of_def)
  finally show ?thesis using kite_trapezium_legal by simp
qed

end
