(* ===== verification/CandidateWitness.thy ===== *)
theory CandidateWitness
  imports CandidateMemo IntPoints
begin

text \<open>A run of the generator and of its memo: a kite in the corner of an empty sheet.\<close>

subsection \<open>The grid around the corner\<close>

lemma sort_by_least:
  assumes "\<forall>b \<in> set bs. cmp m b = Less" "\<forall>a \<in> set as. cmp a m = Greater"
  shows "\<exists>rest. sort_by cmp (as @ m # bs) = m # rest"
  using assms(2)
proof (induction as)
  case Nil
  have "insert_by cmp m (sort_by cmp bs) = m # sort_by cmp bs"
  proof (cases "sort_by cmp bs")
    case (Cons y ys)
    have "y \<in> set bs" unfolding set_sort_by [of cmp bs, symmetric] Cons by simp
    then show ?thesis using assms(1) Cons by simp
  qed simp
  then show ?case by (simp add: sort_by_def)
next
  case (Cons a as)
  then show ?case by (auto simp: sort_by_def)
qed

definition step :: rat where
  "step = round_mag (1 / 1000)"

lemma step_bounds: "1 / 1024 \<le> step" "step \<le> 1 / 512" "round_mag step = step"
proof -
  have p: "round_mag (1 / 1024) = 1 / 1024" "round_mag (1 / 512) = 1 / 512"
    using round_mag_exact [of "1 / 1024" 1 "- 10"] round_mag_exact [of "1 / 512" 1 "- 9"] by (simp_all add: power_int_minus)
  show "1 / 1024 \<le> step" using round_mag_mono [of "1 / 1024" "1 / 1000"] p by (simp add: step_def)
  show "step \<le> 1 / 512" using round_mag_mono [of "1 / 1000" "1 / 512"] p by (simp add: step_def)
  show "round_mag step = step" by (simp add: step_def round_mag_idem)
qed

lemma grid_step: "from_grid (fi 0) = fi 0" "from_grid (fi 1) = Finite False step" "from_grid (fi (- 1)) = Finite True step"
proof -
  have "step < f64_top" using step_bounds(2) by (simp add: f64_top_def)
  then have "round_to s (1 / 1000) = Finite s step" for s by (simp add: round_to_def step_def)
  then show "from_grid (fi 0) = fi 0" "from_grid (fi 1) = Finite False step" "from_grid (fi (- 1)) = Finite True step"
    by (simp_all add: from_grid_def CLIPPER2_OFFSET_SCALE_def f64_eval fi_def)
qed

definition coordinate :: "int \<Rightarrow> f64" where
  "coordinate i = from_grid (fi i)"

lemma coordinate_square:
  assumes "i \<in> {- 1, 0, 1}"
  shows "fmul (fsub (coordinate i) (fi 0)) (fsub (coordinate i) (fi 0)) = Finite False (if i = 0 then 0 else round_mag (step * step))"
proof -
  have "step < f64_top" "step * step < 1" using step_bounds mult_mono [of step "1 / 512" step "1 / 512"] by (simp_all add: f64_top_def)
  moreover from this(2) have "round_mag (step * step) < f64_top" using round_mag_mono [of "step * step" 1] round_mag_int [of 1] step_bounds(1)
    by (simp add: f64_top_def)
  ultimately have "fsub (Finite s step) (fi 0) = Finite s step"
      "fmul (Finite s step) (Finite s step) = Finite False (round_mag (step * step))" for s
    using step_bounds(1,3) by (cases s; simp add: fsub_def fi_def Let_def round_to_def)+
  moreover have "fmul (fsub (fi 0) (fi 0)) (fsub (fi 0) (fi 0)) = Finite False 0" by (simp add: fsub_def fi_def f64_eval)
  ultimately show ?thesis using assms unfolding coordinate_def by (elim insertE emptyE) (simp_all only: grid_step, simp_all)
qed

definition around :: "int \<times> int \<Rightarrow> canonical_candidate_point" where
  "around d = \<lparr>alt_x = coordinate (fst d), alt_y = coordinate (snd d),
    squared_distance = fadd (Finite False (if fst d = 0 then 0 else round_mag (step * step)))
      (Finite False (if snd d = 0 then 0 else round_mag (step * step))), alt_grid_x = fst d, alt_grid_y = snd d\<rparr>"

lemma grid_around: "d \<in> {- 1, 0, 1} \<times> {- 1, 0, 1} \<Longrightarrow> grid_alternative (gp 0 0) (fi 0) (fi 0) d = [around d]"
proof -
  assume "d \<in> {- 1, 0, 1} \<times> {- 1, 0, 1}"
  then obtain i j where d: "d = (i, j)" "i \<in> {- 1, 0, 1}" "j \<in> {- 1, 0, 1}" by auto
  have a: "fadd (fi 0) (lit (rat_of_int k)) = fi k" "is_safe_integer (fi k)" "as_i64 (fi k) = k" if "k \<in> {- 1, 0, 1}" for k
  proof -
    have l: "fadd (fi 0) (lit (rat_of_int k)) = fi k"
      using that by (elim insertE emptyE) (simp_all add: lit_def f64_eval fi_def)
    have k: "\<bar>k\<bar> \<le> 1" using that by auto
    then have ok: "f64_ok (fi k)" by simp
    have v: "is_int_val (fi k) k" using ok by (auto simp: is_int_val_def)
    show "fadd (fi 0) (lit (rat_of_int k)) = fi k" by (rule l)
    show "is_safe_integer (fi k)" using safe_integer_iff [OF ok] v k by force
    show "as_i64 (fi k) = k" using as_i64_int_val [OF v] k by simp
  qed
  show ?thesis
    using d a [OF d(2)] a [OF d(3)] coordinate_square [OF d(2)] coordinate_square [OF d(3)]
    by (simp add: grid_alternative_def around_def Let_def coordinate_def)
qed

lemma around_order:
  assumes "d \<in> {- 1, 0, 1} \<times> {- 1, 0, 1}" "d \<noteq> (0, 0)"
  shows "compare_canonical_candidate_points (around (0, 0)) (around d) = Less"
    "compare_canonical_candidate_points (around d) (around (0, 0)) = Greater"
proof -
  let ?q = "round_mag (step * step)"
  have lo: "round_mag (1 / 1048576) = 1 / 1048576" using round_mag_exact [of "1 / 1048576" 1 "- 20"] by (simp add: power_int_minus)
  have "1 / 1048576 \<le> step * step" using mult_mono [of "1 / 1024" step "1 / 1024" step] step_bounds(1) by simp
  then have q: "1 / 1048576 \<le> ?q" using round_mag_mono [of "1 / 1048576" "step * step"] lo by simp
  have "step * step \<le> 1" using step_bounds mult_mono [of step "1 / 512" step "1 / 512"] by simp
  then have q1: "?q \<le> 1" using round_mag_mono [of "step * step" 1] round_mag_int [of 1] step_bounds(1) by simp
  have s: "fadd (Finite False a) (Finite False b) = Finite False (round_mag (a + b)) \<and> 1 / 1048576 \<le> round_mag (a + b)"
    if "1 / 1048576 \<le> a + b" "0 \<le> a" "0 \<le> b" "a + b \<le> 2" for a b :: rat
  proof -
    have "1 / 1048576 \<le> round_mag (a + b)" using round_mag_mono [of "1 / 1048576" "a + b"] that(1) lo by simp
    moreover have "round_mag (a + b) \<le> 2" using round_mag_mono [of "a + b" 2] that round_mag_int [of 2] by simp
    ultimately show ?thesis using that by (simp add: Let_def round_to_def f64_top_def)
  qed
  obtain r where r: "squared_distance (around d) = Finite False r" "1 / 1048576 \<le> r"
  proof -
    let ?a = "if fst d = 0 then 0 else ?q" and ?b = "if snd d = 0 then 0 else ?q"
    have "1 / 1048576 \<le> ?a + ?b" "0 \<le> ?a" "0 \<le> ?b" "?a + ?b \<le> 2" using assms(2) q q1 by (auto simp: prod_eq_iff)
    from s [OF this] show ?thesis using that by (simp add: around_def)
  qed
  moreover have "squared_distance (around (0, 0)) = Finite False 0" by (simp add: around_def)
  ultimately show "compare_canonical_candidate_points (around (0, 0)) (around d) = Less"
    "compare_canonical_candidate_points (around d) (around (0, 0)) = Greater"
    by (simp_all add: compare_canonical_candidate_points_def partial_order_def)
qed

lemma corner_alternatives: "\<exists>rest. canonical_placement_point_alternatives (gp 0 0) = around (0, 0) # rest"
proof -
  have z: "to_grid_mm (fi 0) = Some (fi 0)" using to_grid_zero(1) by (simp add: fi_def)
  let ?D = "{- 1, 0, 1} \<times> {- 1, 0, 1} :: (int \<times> int) set"
  let ?as = "[(- 1, - 1), (- 1, 0), (- 1, 1), (0, - 1)]" and ?bs = "[(0, 1), (1, - 1), (1, 0), (1, 1)]"
  have D: "deltas = ?as @ (0, 0) # ?bs" "set deltas \<subseteq> ?D" by (auto simp: deltas_def)
  have "map (grid_alternative (gp 0 0) (fi 0) (fi 0)) deltas = map (\<lambda>d. [around d]) deltas"
    using D(2) by (intro map_cong refl grid_around) auto
  then have "canonical_placement_point_alternatives (gp 0 0) =
      sort_by compare_canonical_candidate_points (map around ?as @ around (0, 0) # map around ?bs)"
    by (simp only: canonical_placement_point_alternatives_def gp_point z option.case D(1)) (simp only: map_append list.map concat.simps append.simps)
  moreover have "\<forall>b \<in> set (map around ?bs). compare_canonical_candidate_points (around (0, 0)) b = Less"
    "\<forall>a \<in> set (map around ?as). compare_canonical_candidate_points a (around (0, 0)) = Greater"
    using around_order by auto
  ultimately show ?thesis using sort_by_least by metis
qed

subsection \<open>The run\<close>

definition corner_search :: "bool \<Rightarrow> string \<Rightarrow> generate_placement_candidates_input" where
  "corner_search want piece = \<lparr>gi_sheet = key_sheet (sample_fit kite), gi_placed = [], gi_index = None,
    gi_moving = (sample_geometry kite)\<lparr>collision_source_piece_id := piece\<rparr>,
    gi_settings = sample_settings, gi_domain = Domain_Contact_Only, gi_want_provenance = want\<rparr>"

definition corner_box :: bounds where
  "corner_box = \<lparr>min_x = fi 0, min_y = fi 0, max_x = fi 1, max_y = fi 5\<rparr>"

lemma kite_bounds: "bounds_for_points kite = Some \<lparr>min_x = fi 0, min_y = fi 0, max_x = fi 8, max_y = fi 4\<rparr>"
  by (simp add: bounds_for_points_def kite_def Let_def point_bounds_def widen_def make_bounds_fi)

lemma kite_fit: "\<exists>v. compute_ifp_bounds sign_robust \<lparr>key_sheet = key_sheet (sample_fit kite),
    key_moving = (sample_geometry kite)\<lparr>collision_source_piece_id := piece\<rparr>\<rparr> = Inr v \<and> ifp_box v = corner_box"
proof -
  have f: "fold_negative_zero (fneg (fi 0)) = fi 0" "fold_negative_zero (fi 1) = fi 1" "fold_negative_zero (fi 5) = fi 5"
    by (simp_all add: fi_def fold_negative_zero_def)
  have w: "domain_sheet_width (key_sheet (sample_fit kite)) = fi 9" "domain_sheet_height (key_sheet (sample_fit kite)) = fi 9"
    by (simp_all add: sample_fit_def fi_def)
  have "fneg (fi 0) = Finite True 0" by (simp add: fi_def)
  then show ?thesis using f w
    by (simp add: compute_ifp_bounds_def sample_geometry_def Let_def kite_facts kite_bounds corner_box_def)
qed

lemma kite_legal: "assess_placement sign_robust heap (assessment_input (corner_search want piece) False None (gp 0 0)) True =
    Some (Assessment \<lparr>legal = True, assessment_message = []\<rparr>)"
proof -
  have "is_inside_sheet kite (fi 9) (fi 9)" by (simp add: is_inside_sheet_def kite_def fi_zero)
  then show ?thesis
    by (simp add: assess_placement_def assessment_input_def corner_search_def sample_fit_def sample_geometry_def
      translate_and_validate_polygon_def Let_def kite_facts placed_polygons_def fi_numeral)
qed

definition placed_in_corner :: "string \<Rightarrow> irregular_placement_candidate" where
  "placed_in_corner piece = \<lparr>cand_piece_id = piece, cand_transform = collision_transform (sample_geometry kite),
    cand_point = gp 0 0, cand_diagnostics = []\<rparr>"

lemma no_boundaries: "index_query (bounds_index_new []) b = Some []" "index_any_match (bounds_index_new []) b f = Some False"
  by (simp_all add: index_query_def index_any_match_def query_range_def bounds_index_new_def numbered_def sort_by_def
    lower_bound_at_least_def upper_bound_min_x_def partition_point.simps)

lemma corner_assessed:
  "\<exists>r. assess_candidate_point sign_robust heap (corner_search want piece) None
      \<lparr>adm_sheetless = False, adm_ifp_bounds = Some corner_box, adm_pruning = Pruning_Indexed,
       adm_index = bounds_index_new [], adm_boundaries = []\<rparr> cps (gp 0 0) = Some (Inr r) \<and> outcome_winner r = Some (gp 0 0, 0, 0)"
proof -
  obtain rest where r: "canonical_placement_point_alternatives (gp 0 0) = around (0, 0) # rest" using corner_alternatives by blast
  have p: "\<lparr>px = alt_x (around (0, 0)), py = alt_y (around (0, 0))\<rparr> = gp 0 0" "alt_grid_x (around (0, 0)) = 0" "alt_grid_y (around (0, 0)) = 0"
    using grid_step by (simp_all add: around_def coordinate_def gp_def)
  have "is_inside_bounds (gp 0 0) corner_box" by (simp add: is_inside_bounds_def corner_box_def)
  then show ?thesis
    by (simp add: assess_candidate_point_def r Let_def p strictly_inside_any_def no_boundaries kite_legal)
qed

lemma corner_generated:
  assumes "gen_control s = None" "gen_set s = point_set_new" "gen_provenance s = None"
  shows "\<exists>s'. generate_with_boundaries sign_robust poll heap (corner_search False piece) Pruning_Indexed (Some corner_box) [] s =
    Some (Inr \<lparr>go_candidates = [placed_in_corner piece], go_provenance = None\<rparr>, s')"
proof -
  have k: "fold_negative_zero (fi 0) = fi 0" by (simp add: fi_def fold_negative_zero_def)
  have "is_inside_bounds (gp 0 0) corner_box" by (simp add: is_inside_bounds_def corner_box_def)
  then have b: "is_inside_bounds \<lparr>px = fi 0, py = fi 0\<rparr> corner_box" by (simp add: gp_def)
  let ?cps = "\<lparr>set_keys = {(fi 0, fi 0)}, set_points = [gp 0 0], set_source_masks = [((fi 0, fi 0), source_bit From_Ifp_Corner)]\<rparr>"
  have seeded: "seed_corners (corner_search False piece) (Some corner_box) (Some corner_box) s =
      Some (Inr (), s\<lparr>gen_set := ?cps, gen_provenance := None\<rparr>)"
    using assms b by (simp add: seed_corners_def corner_search_def gen_update_def add_point_def Let_def corner_box_def k
      point_set_new_def point_key_def gp_def)
  have c: "chunks_of [p] = [[p]]" "sort_by cmp [p] = [p]" for p :: point and cmp
    by (simp_all add: chunks_of.simps CANDIDATE_POINT_CHUNK_SIZE_def sort_by_def)
  obtain r where r: "assess_candidate_point sign_robust heap (corner_search False piece) None
      \<lparr>adm_sheetless = False, adm_ifp_bounds = Some corner_box, adm_pruning = Pruning_Indexed,
       adm_index = bounds_index_new [], adm_boundaries = []\<rparr> ?cps (gp 0 0) = Some (Inr r)" "outcome_winner r = Some (gp 0 0, 0, 0)"
    using corner_assessed by blast
  have d: "gi_domain (corner_search False piece) = Domain_Contact_Only" "gi_index (corner_search False piece) = None"
    "gi_moving (corner_search False piece) = (sample_geometry kite)\<lparr>collision_source_piece_id := piece\<rparr>"
    by (simp_all add: corner_search_def)
  show ?thesis
    using assms r seeded
    by (simp add: generate_with_boundaries_def gen_then_def nfp_checkpoint_def gen_lift_def candidate_indices_def no_boundaries
      Let_def d collect_points_def gen_ok_def admit_points_def c gen_update_def accept_winner_def acceptance_new_def
      finish_generation_def placed_in_corner_def)
qed

lemma corner_ifp: "\<exists>v key s'. resolve_ifp_bounds sign_robust js room \<lparr>key_sheet = gi_sheet (corner_search want piece),
    key_moving = gi_moving (corner_search want piece)\<rparr> (with_byte_cap 200) = Some (Inr (v, key), s') \<and> ifp_box v = corner_box"
proof -
  let ?input = "\<lparr>key_sheet = gi_sheet (corner_search want piece), key_moving = gi_moving (corner_search want piece)\<rparr>"
  let ?key = "make_inner_fit_bounds_cache_key js ?input"
  obtain v where v: "compute_ifp_bounds sign_robust ?input = Inr v" "ifp_box v = corner_box"
    using kite_fit [of piece] by (auto simp: corner_search_def)
  have "validate_strict_boundary sign_robust (collision_polygon (key_moving ?input)) = Valid 1"
    by (simp add: corner_search_def sample_geometry_def kite_facts)
  moreover have "found as_ifp ?key (with_byte_cap 200) = None"
    using found_in [of as_ifp ?key "with_byte_cap 200"] empty_store(2) by (cases "found as_ifp ?key (with_byte_cap 200)") auto
  moreover obtain s1 where s1: "cache_get as_ifp ?key (with_byte_cap 200) = Some (found as_ifp ?key (with_byte_cap 200), s1)"
      "store_ok s1" "cache_values s1 = {}"
    using get_contents [OF empty_store(1), of as_ifp ?key] empty_store(2) by auto
  moreover have "feasible_entries s1" using s1(3) by (simp add: feasible_entries_def)
  ultimately show ?thesis
    using ifp_recompute_answer [of s1 sign_robust room ?input ?key] v by (auto simp: resolve_ifp_bounds_def)
qed

lemma corner_run:
  "\<exists>s'. generate_placement_candidates_uncached sign_robust js room poll heap (corner_search False piece) Vertex_Pair_Hull
    Pruning_Indexed None (with_byte_cap 200) = Some (Inr \<lparr>go_candidates = [placed_in_corner piece], go_provenance = None\<rparr>, s')"
proof -
  obtain v key st where i: "resolve_ifp_bounds sign_robust js room \<lparr>key_sheet = gi_sheet (corner_search False piece),
      key_moving = gi_moving (corner_search False piece)\<rparr> (with_byte_cap 200) = Some (Inr (v, key), st)" "ifp_box v = corner_box"
    using corner_ifp by blast
  let ?g = "corner_search False piece"
  have g: "gi_domain ?g = Domain_Contact_Only" "gi_placed ?g = []" "gi_want_provenance ?g = False" by (simp_all add: corner_search_def)
  have p: "precompute_missing_relative_nfp_boundaries sign_robust js room [] (gi_moving ?g) (gi_settings ?g) Vertex_Pair_Hull st = Some st"
    by (simp add: precompute_missing_relative_nfp_boundaries_def Let_def split: strict_convex_boundary_validation.splits)
  obtain s' where "generate_with_boundaries sign_robust poll heap ?g Pruning_Indexed (Some corner_box) []
      \<lparr>gen_store = st, gen_control = None, gen_set = point_set_new, gen_provenance = None\<rparr> =
    Some (Inr \<lparr>go_candidates = [placed_in_corner piece], go_provenance = None\<rparr>, s')"
    using corner_generated by (metis generation.select_convs(2,3,4))
  then show ?thesis
    by (simp add: generate_placement_candidates_uncached_def gen_then_def nfp_checkpoint_def ifp_stage_def g on_store_def i gen_ok_def p)
qed

lemma candidates_are_legal_witness:
  "validated sign_robust (\<lambda>_. piece_of kite) (corner_search False ''a'') False None (gp 0 0)"
proof -
  obtain s' where "generate_placement_candidates_uncached sign_robust (\<lambda>_. []) sample_room (\<lambda>_ c. (None, c :: unit)) (\<lambda>_. piece_of kite)
      (corner_search False ''a'') Vertex_Pair_Hull Pruning_Indexed None (with_byte_cap 200) =
    Some (Inr \<lparr>go_candidates = [placed_in_corner ''a''], go_provenance = None\<rparr>, s')"
    using corner_run by blast
  from candidates_are_legal [OF this] show ?thesis
    by (auto simp: corner_search_def matching_index_def placed_in_corner_def list_all2_Cons1)
qed

lemma memo_replays_answer_witness:
  "\<exists>memo s'. generate_placement_candidates sign_robust (\<lambda>_. []) sample_room (\<lambda>_ c. (None, c :: unit)) (\<lambda>_. piece_of kite)
      (corner_search False ''b'') None Vertex_Pair_Hull Pruning_Indexed (Some memo) None s' =
    Some (Inr \<lparr>go_candidates = [placed_in_corner ''b''], go_provenance = None\<rparr>, Some memo, None, s')"
proof -
  obtain s' where "generate_placement_candidates_uncached sign_robust (\<lambda>_. []) sample_room (\<lambda>_ c. (None, c :: unit)) (\<lambda>_. piece_of kite)
      (corner_search False ''a'') Vertex_Pair_Hull Pruning_Indexed None (with_byte_cap 200) =
    Some (Inr \<lparr>go_candidates = [placed_in_corner ''a''], go_provenance = None\<rparr>, s')"
    using corner_run by blast
  then obtain memo where m: "generate_placement_candidates sign_robust (\<lambda>_. []) sample_room (\<lambda>_ c. (None, c :: unit)) (\<lambda>_. piece_of kite)
      (corner_search False ''a'') None Vertex_Pair_Hull Pruning_Indexed (Some Map.empty) None (with_byte_cap 200) =
    Some (Inr \<lparr>go_candidates = [placed_in_corner ''a''], go_provenance = None\<rparr>, Some memo, gen_control s', gen_store s')"
    by (simp add: generate_placement_candidates_def Let_def)
  have k: "build_memo_key (\<lambda>_. []) (\<lambda>_. piece_of kite) (corner_search False ''b'') None Vertex_Pair_Hull Pruning_Indexed =
      build_memo_key (\<lambda>_. []) (\<lambda>_. piece_of kite) (corner_search False ''a'') None Vertex_Pair_Hull Pruning_Indexed"
    by (simp add: build_memo_key_def corner_search_def)
  have w: "gi_want_provenance (corner_search False ''b'') \<longrightarrow>
      go_provenance \<lparr>go_candidates = [placed_in_corner ''a''], go_provenance = None\<rparr> \<noteq> None" by (simp add: corner_search_def)
  from memo_replays_answer [OF m k w, of "gen_store s'"] show ?thesis
    by (intro exI [of _ memo] exI [of _ "gen_store s'"]) (simp add: stamped_def placed_in_corner_def corner_search_def sample_geometry_def)
qed

end
