(* ===== verification/KeyCycles.thy ===== *)
theory KeyCycles
  imports CacheIdentity
begin

text \<open>
  Keys of rings. A ring is keyed by its points' tokens from some start, in one of the two directions,
  joined by semicolons; the key determines the ring up to start and direction. This is what lets the
  pairwise cache keys and the keys of collision families tell polygons apart.
\<close>

subsection \<open>Decimal numbers and separators\<close>

lemma dec_int_chars: "c \<in> set (dec_int i) \<Longrightarrow> is_digit c \<or> c = CHR ''-''"
  using dec_digits [of "nat i"] dec_digits [of "nat (- i)"] by (auto simp: dec_int_def split: if_splits)

lemma dec_int_separators: "CHR '','' \<notin> set (dec_int i)" "CHR '';'' \<notin> set (dec_int i)"
  using dec_int_chars [of "CHR '',''" i] dec_int_chars [of "CHR '';''" i] by (auto simp: is_digit_def)

lemma dec_int_inject: "dec_int i = dec_int j \<longleftrightarrow> i = j"
proof -
  have "CHR ''-'' \<notin> set (dec n)" for n using dec_digits [of n] by (auto simp: is_digit_def)
  then have "dec n \<noteq> ''-'' @ s" for n s by (metis append_Cons list.set_intros(1))
  then show ?thesis by (auto simp: dec_int_def) (metis append_Cons append_Nil)+
qed

lemma pair_inject: "CHR '','' \<notin> set a \<Longrightarrow> CHR '','' \<notin> set b \<Longrightarrow> a @ '','' @ s = b @ '','' @ t \<Longrightarrow> a = b \<and> s = t"
proof -
  assume n: "CHR '','' \<notin> set a" "CHR '','' \<notin> set b" and e: "a @ '','' @ s = b @ '','' @ t"
  have "takeWhile (\<lambda>c. c \<noteq> CHR '','') (a @ '','' @ s) = a" "takeWhile (\<lambda>c. c \<noteq> CHR '','') (b @ '','' @ t) = b"
    using n by (subst takeWhile_append2; auto)+
  then show ?thesis using e by simp
qed

subsection \<open>Joined tokens\<close>

lemma join_with_joined: "join_with '';'' ts = joined ts"
  by (induction ts rule: joined.induct) simp_all

lemma joined_first: "CHR '';'' \<notin> set t \<Longrightarrow> takeWhile (\<lambda>c. c \<noteq> CHR '';'') (joined (t # ts)) = t"
  by (cases ts) (auto simp: takeWhile_append)

lemma joined_tokens_inject:
  "joined ts = joined us \<Longrightarrow> \<forall>t \<in> set ts \<union> set us. t \<noteq> [] \<and> CHR '';'' \<notin> set t \<Longrightarrow> ts = us"
proof (induction ts arbitrary: us rule: joined.induct)
  case 1
  then show ?case by (cases us rule: joined.cases) auto
next
  case (2 t)
  show ?case
  proof (cases us rule: joined.cases)
    case (3 u v ws)
    then have "CHR '';'' \<in> set (joined [t])" using 2(1) by simp
    then show ?thesis using 2(2) by simp
  qed (use 2 in auto)
next
  case (3 t v ts)
  show ?case
  proof (cases us rule: joined.cases)
    case (2 u)
    then have "CHR '';'' \<in> set (joined us)" using 3(2) [symmetric] by simp
    then show ?thesis using 3(3) 2 by simp
  next
    case us: (3 u w ws)
    have "t = u" using joined_first [of t "v # ts"] joined_first [of u "w # ws"] 3(2,3) us by auto
    then show ?thesis using 3 us by auto
  qed (use 3 in auto)
qed

text \<open>The index arithmetic of the two walks of a ring.\<close>

lemma walk_indices:
  assumes "start < length keys"
  shows "map (\<lambda>k. keys ! nat ((int start + 1 * int k + int (length keys) * 2) mod int (length keys))) [0..<length keys] = rotate start keys"
    "map (\<lambda>k. keys ! nat ((int start + - 1 * int k + int (length keys) * 2) mod int (length keys))) [0..<length keys] =
      rotate (length keys - 1 - start) (rev keys)"
proof -
  let ?n = "length keys"
  have n: "0 < ?n" using assms by linarith
  have i: "nat ((int start + int k) mod int ?n) = (start + k) mod ?n" for k
    by (metis nat_int of_nat_add zmod_int)
  show "map (\<lambda>k. keys ! nat ((int start + 1 * int k + int ?n * 2) mod int ?n)) [0..<?n] = rotate start keys"
    by (rule nth_equalityI) (simp_all add: i nth_rotate)
  have j: "nat ((int start - int k + int ?n * 2) mod int ?n) = ?n - 1 - (?n - 1 - start + k) mod ?n" if k: "k < ?n" for k
  proof (cases "k \<le> start")
    case True
    then have "(int start - int k + int ?n * 2) mod int ?n = int (start - k)" using assms by (simp add: of_nat_diff)
    moreover have "?n - 1 - start + k < ?n" using True assms by linarith
    ultimately show ?thesis using True assms by simp
  next
    case False
    then have e: "int start - int k + int ?n * 2 = int (start + ?n - k) + int ?n" using k by (simp add: of_nat_diff)
    have "start + ?n - k < ?n" using False k by linarith
    then have "(int start - int k + int ?n * 2) mod int ?n = int (start + ?n - k)" unfolding e by simp
    moreover have "?n - 1 - start + k = (k - start - 1) + ?n" using False assms by linarith
    then have "(?n - 1 - start + k) mod ?n = (k - start - 1) mod ?n" by (simp only: mod_add_self2)
    moreover have "(k - start - 1) mod ?n = k - start - 1" using k by (intro mod_less) linarith
    ultimately show ?thesis using False k by simp
  qed
  show "map (\<lambda>k. keys ! nat ((int start + - 1 * int k + int ?n * 2) mod int ?n)) [0..<?n] = rotate (?n - 1 - start) (rev keys)"
  proof (rule nth_equalityI)
    fix k
    assume "k < length (map (\<lambda>k. keys ! nat ((int start + - 1 * int k + int ?n * 2) mod int ?n)) [0..<?n])"
    then have k: "k < ?n" by simp
    have m: "(?n - 1 - start + k) mod ?n < ?n" using n by simp
    have "rev keys ! ((?n - 1 - start + k) mod ?n) = keys ! (?n - 1 - (?n - 1 - start + k) mod ?n)"
      using m by (simp add: rev_nth)
    then show "map (\<lambda>k. keys ! nat ((int start + - 1 * int k + int ?n * 2) mod int ?n)) [0..<?n] ! k = rotate (?n - 1 - start) (rev keys) ! k"
      using k j [OF k] by (simp add: nth_rotate)
  qed simp
qed

lemma map_eq_transfer:
  "map f ys = map f zs \<Longrightarrow> \<forall>y \<in> set ys. \<forall>z \<in> set zs. f y = f z \<longrightarrow> g y = g z \<Longrightarrow> map g ys = map g zs"
  by (induction ys zs rule: list_induct2') auto

lemma same_cycle_transfer:
  assumes "same_cycle (map f xs) (map f ys)" "\<forall>x \<in> set xs. \<forall>y \<in> set ys. f y = f x \<longrightarrow> g y = g x"
  shows "same_cycle (map g xs) (map g ys)"
proof -
  obtain n where "map f ys = rotate n (map f xs) \<or> map f ys = rotate n (rev (map f xs))"
    using assms(1) unfolding same_cycle_def by blast
  then have "map f ys = map f (rotate n xs) \<or> map f ys = map f (rotate n (rev xs))"
    by (simp add: rotate_map rev_map)
  then obtain zs where zs: "same_cycle xs zs" "map f ys = map f zs" unfolding same_cycle_def by blast
  have "map g ys = map g zs"
    by (rule map_eq_transfer [OF zs(2)]) (use assms(2) same_cycle_set [OF zs(1)] in blast)
  then show ?thesis using same_cycle_map [OF zs(1), of g] by simp
qed

subsection \<open>Digests of polygons\<close>

text \<open>
  What the keys rely on of the general formatter: JavaScript's number rendering has no comma and no
  semicolon, renders different numbers differently except the two zeros, and a safe integer as its
  decimal digits.
\<close>

definition js_contract :: "(f64 \<Rightarrow> string) \<Rightarrow> bool" where
  "js_contract js \<longleftrightarrow> (\<forall>a. CHR '','' \<notin> set (js a) \<and> CHR '';'' \<notin> set (js a)) \<and>
    (\<forall>a b. f64_ok a \<longrightarrow> f64_ok b \<longrightarrow> (js a = js b \<longleftrightarrow> a = b \<or> feq a b)) \<and>
    (\<forall>a. js_safe_integer a \<longrightarrow> js a = dec_int (as_i64 a))"

text \<open>A point with finite binary64 coordinates, none of them a negative zero, as snapping to the grid leaves it.\<close>

definition folded :: "f64 \<Rightarrow> bool" where
  "folded v \<longleftrightarrow> is_finite v \<and> f64_ok v \<and> fold_negative_zero v = v"

definition folded_point :: "point \<Rightarrow> bool" where
  "folded_point p \<longleftrightarrow> folded (px p) \<and> folded (py p)"

lemma folded_eq: "folded a \<Longrightarrow> folded b \<Longrightarrow> feq a b \<longleftrightarrow> a = b"
  by (cases a; cases b) (auto simp: folded_def fold_negative_zero_def split: if_splits)

lemma contract_key: "js_contract js \<Longrightarrow> fold_negative_zero_key js v = js v"
  by (simp add: js_contract_def fold_negative_zero_key_def number_to_js_string_def)

lemma point_digest_inject:
  assumes "js_contract js" "folded_point p" "folded_point q"
  shows "point_digest js p = point_digest js q \<longleftrightarrow> p = q"
proof
  assume e: "point_digest js p = point_digest js q"
  have "js (px p) = js (px q)" "js (py p) = js (py q)"
    using pair_inject [of "js (px p)" "js (px q)" "js (py p)" "js (py q)"] e assms(1)
    by (auto simp: point_digest_def contract_key [OF assms(1)] js_contract_def)
  then have "px p = px q \<or> feq (px p) (px q)" "py p = py q \<or> feq (py p) (py q)"
    using assms unfolding js_contract_def folded_point_def folded_def by blast+
  then have "px p = px q" "py p = py q" using folded_eq assms(2,3) unfolding folded_point_def by blast+
  then show "p = q" by simp
qed simp

lemma point_digest_token: "js_contract js \<Longrightarrow> point_digest js p \<noteq> [] \<and> CHR '';'' \<notin> set (point_digest js p)"
  by (simp add: point_digest_def contract_key) (simp add: js_contract_def)

lemma digest_start_less: "ps \<noteq> [] \<Longrightarrow> digest_start ps < length ps"
proof -
  let ?f = "\<lambda>start_index i. let candidate = ps ! i; current = ps ! start_index in
     if flt (px candidate) (px current) \<or> feq (px candidate) (px current) \<and> flt (py candidate) (py current)
     then i else start_index"
  have "foldl ?f s is \<in> insert s (set is)" for s "is"
    by (induction "is" arbitrary: s) (auto simp: Let_def split: if_splits)
  from this [of 0 "[1..<length ps]"] show "ps \<noteq> [] \<Longrightarrow> digest_start ps < length ps"
    unfolding digest_start_def by auto
qed

lemma canonical_digest_walk:
  assumes "ps \<noteq> []"
  obtains qs where "same_cycle ps qs" "canonical_polygon_digest js ps = joined (map (point_digest js) qs)"
proof -
  let ?s = "digest_start ps"
  have s: "?s < length ps" using assms by (rule digest_start_less)
  have c: "cyclic_polygon_digest js ps ?s d = joined (map (point_digest js)
      (map (\<lambda>k. ps ! nat ((int ?s + d * int k + int (length ps) * 2) mod int (length ps))) [0..<length ps]))" for d
    by (simp add: cyclic_polygon_digest_def join_with_joined comp_def)
  have "canonical_polygon_digest js ps \<in> {cyclic_polygon_digest js ps ?s 1, cyclic_polygon_digest js ps ?s (- 1)}"
    using assms by (auto simp: canonical_polygon_digest_def Let_def)
  then consider "canonical_polygon_digest js ps = joined (map (point_digest js) (rotate ?s ps))"
    | "canonical_polygon_digest js ps = joined (map (point_digest js) (rotate (length ps - 1 - ?s) (rev ps)))"
    unfolding c walk_indices [OF s] by blast
  then show thesis
  proof cases
    case 1
    show thesis by (rule that [OF _ 1]) (auto simp: same_cycle_def)
  next
    case 2
    show thesis by (rule that [OF _ 2]) (auto simp: same_cycle_def)
  qed
qed

text \<open>Equal digests are the same ring.\<close>

lemma canonical_digest_inject:
  assumes "js_contract js" "ps \<noteq> []" "qs \<noteq> []" "\<forall>p \<in> set ps \<union> set qs. folded_point p"
    and "canonical_polygon_digest js ps = canonical_polygon_digest js qs"
  shows "same_cycle ps qs"
proof -
  obtain vs where vs: "same_cycle ps vs" "canonical_polygon_digest js ps = joined (map (point_digest js) vs)"
    using canonical_digest_walk [OF assms(2)] by blast
  obtain ws where ws: "same_cycle qs ws" "canonical_polygon_digest js qs = joined (map (point_digest js) ws)"
    using canonical_digest_walk [OF assms(3)] by blast
  have "map (point_digest js) vs = map (point_digest js) ws"
    by (rule joined_tokens_inject) (use vs ws assms(5) point_digest_token [OF assms(1)] in auto)
  then have "map id vs = map id ws"
  proof (rule map_eq_transfer)
    have "set vs = set ps" "set ws = set qs" using same_cycle_set vs(1) ws(1) by blast+
    then show "\<forall>p \<in> set vs. \<forall>q \<in> set ws. point_digest js p = point_digest js q \<longrightarrow> id p = id q"
      using point_digest_inject [OF assms(1)] assms(4) by simp
  qed
  then have "vs = ws" by simp
  then show ?thesis using vs(1) ws(1) same_cycle_sym same_cycle_trans by blast
qed

end
