(* ===== verification/CollisionFamily.thy ===== *)
theory CollisionFamily
  imports KeyCycles Rotate
begin

text \<open>
  \<open>search/strict_family.rs\<close>: prepared copies are grouped into families by their declared interchangeability
  and the exact shape of their collision polygon, read as a cycle of grid points in either direction. An
  \<open>ImportedPiece\<close> stands for its identity, and the legacy priority key, which the grouping does not read, is
  left out; \<open>padded_collision_polygon\<close> is the geometry's \<open>collision_polygon\<close>.
\<close>

subsection \<open>Data\<close>

record irregular_prepared_piece =
  prepared_piece_id :: "string option"
  prepared_interchangeability_key :: "string option"
  prepared_source_id :: string
  prepared_allow_mirror :: bool
  prepared_collision_geometry :: collision_geometry
  prepared_transforms :: "transform_candidate list"

record collision_family =
  family_key :: string
  family_members :: "irregular_prepared_piece list"
  first_baseline_index :: f64
  collision_area_mm2 :: f64
  maximum_side_mm :: f64
  aspect_ratio :: f64

record group_builder =
  group_key :: string
  group_members :: "irregular_prepared_piece list"
  group_first :: f64

record polygon_measurements =
  measured_area_mm2 :: f64
  measured_maximum_side_mm :: f64
  measured_aspect_ratio :: f64

subsection \<open>Keys\<close>

definition json_string_literal :: "string \<Rightarrow> string" where
  "json_string_literal v = [CHR 0x22] @ concat (map json_escape v) @ [CHR 0x22]"

definition json_stringify_string_pair :: "string \<Rightarrow> string \<Rightarrow> string" where
  "json_stringify_string_pair first second = ''['' @ json_string_literal first @ '','' @ json_string_literal second @ '']''"

definition cyclic_keys :: "string list \<Rightarrow> nat \<Rightarrow> int \<Rightarrow> string" where
  "cyclic_keys keys start direction = (let len = int (length keys) in
    join_with '';'' (map (\<lambda>offset. keys ! nat ((int start + direction * int offset + len * 2) mod len)) [0..<length keys]))"

definition point_key :: "(f64 \<Rightarrow> string) \<Rightarrow> point \<Rightarrow> string" where
  "point_key js p = (case (to_grid_mm (px p), to_grid_mm (py p)) of
      (Some x, Some y) \<Rightarrow> number_to_js_string js x @ '','' @ number_to_js_string js y
    | _ \<Rightarrow> ''invalid'')"

definition better_variant :: "string option \<Rightarrow> string \<Rightarrow> string option" where
  "better_variant best variant = (case best of None \<Rightarrow> Some variant
    | Some current \<Rightarrow> Some (if cmp_js_code_units variant current = Less then variant else current))"

definition canonical_cyclic_polygon_key :: "(f64 \<Rightarrow> string) \<Rightarrow> point list \<Rightarrow> string" where
  "canonical_cyclic_polygon_key js ps = (let keys = map (point_key js) ps in
    if keys = [] then []
    else case foldl better_variant None
        (concat (map (\<lambda>start. [cyclic_keys keys start 1, cyclic_keys keys start (- 1)]) [0..<length keys])) of
      Some best \<Rightarrow> best | None \<Rightarrow> [])"

definition intrinsic_collision_family_key :: "(f64 \<Rightarrow> string) \<Rightarrow> irregular_prepared_piece \<Rightarrow> string" where
  "intrinsic_collision_family_key js piece = json_stringify_string_pair
    (case prepared_interchangeability_key piece of Some k \<Rightarrow> k | None \<Rightarrow> prepared_source_id piece)
    (canonical_cyclic_polygon_key js (padded_collision_polygon (prepared_collision_geometry piece)))"

subsection \<open>Measurements\<close>

text \<open>The doubled area on the grid and the bounds, over the edges of the ring.\<close>

fun measure_loop :: "edge list \<Rightarrow> f64 \<times> f64 \<times> f64 \<times> f64 \<times> f64 \<Rightarrow> (f64 \<times> f64 \<times> f64 \<times> f64 \<times> f64) option" where
  "measure_loop [] acc = Some acc"
| "measure_loop ((first, second) # edges) (doubled_area, x0, y0, x1, y1) = do {
    first_x \<leftarrow> to_grid_mm (px first);
    first_y \<leftarrow> to_grid_mm (py first);
    second_x \<leftarrow> to_grid_mm (px second);
    second_y \<leftarrow> to_grid_mm (py second);
    measure_loop edges (fadd doubled_area (fsub (fmul first_x second_y) (fmul second_x first_y)),
      js_min x0 (px first), js_min y0 (py first), js_max x1 (px first), js_max y1 (py first))
  }"

definition measure_collision_polygon :: "point list \<Rightarrow> polygon_measurements option" where
  "measure_collision_polygon ps = (if length ps < 3 then None
    else case measure_loop (polygon_edges ps) (f64_zero, Infinity False, Infinity False, Infinity True, Infinity True) of
      None \<Rightarrow> None
    | Some (doubled_area, x0, y0, x1, y1) \<Rightarrow>
        let width = fsub x1 x0; height = fsub y1 y0; shorter = js_min width height; longer = js_max width height
        in if fle shorter f64_zero \<or> \<not> is_finite width \<or> \<not> is_finite height \<or> \<not> is_finite doubled_area then None
           else Some \<lparr>measured_area_mm2 = fdiv (fabs doubled_area) (lit 2000000),
             measured_maximum_side_mm = longer, measured_aspect_ratio = fdiv longer shorter\<rparr>)"

subsection \<open>Grouping\<close>

fun group_loop :: "(f64 \<Rightarrow> string) \<Rightarrow> (nat \<times> irregular_prepared_piece) list \<Rightarrow> group_builder list \<Rightarrow> (string \<rightharpoonup> nat) \<Rightarrow> group_builder list" where
  "group_loop js [] groups index_by_key = groups"
| "group_loop js ((index, piece) # rest) groups index_by_key =
    (let key = intrinsic_collision_family_key js piece in
     case index_by_key key of
       Some g \<Rightarrow> group_loop js rest (groups[g := (groups ! g)\<lparr>group_members := group_members (groups ! g) @ [piece]\<rparr>]) index_by_key
     | None \<Rightarrow> group_loop js rest (groups @ [\<lparr>group_key = key, group_members = [piece], group_first = lit (of_nat index)\<rparr>])
         (index_by_key(key \<mapsto> length groups)))"

definition family_of_group :: "group_builder \<Rightarrow> collision_family" where
  "family_of_group g =
    (let m = (case group_members g of [] \<Rightarrow> None
       | first # _ \<Rightarrow> measure_collision_polygon (padded_collision_polygon (prepared_collision_geometry first)))
     in \<lparr>family_key = group_key g, family_members = group_members g, first_baseline_index = group_first g,
         collision_area_mm2 = (case m of None \<Rightarrow> f64_zero | Some m \<Rightarrow> measured_area_mm2 m),
         maximum_side_mm = (case m of None \<Rightarrow> f64_zero | Some m \<Rightarrow> measured_maximum_side_mm m),
         aspect_ratio = (case m of None \<Rightarrow> lit 1 | Some m \<Rightarrow> measured_aspect_ratio m)\<rparr>)"

definition group_intrinsic_collision_families :: "(f64 \<Rightarrow> string) \<Rightarrow> irregular_prepared_piece list \<Rightarrow> collision_family list" where
  "group_intrinsic_collision_families js prepared = map family_of_group (group_loop js (enumerate 0 prepared) [] Map.empty)"

subsection \<open>The groups\<close>

text \<open>What the scan knows of the pieces read so far: the groups, the index of their keys, and where each began.\<close>

definition groups_ok :: "(f64 \<Rightarrow> string) \<Rightarrow> irregular_prepared_piece list \<Rightarrow> group_builder list \<Rightarrow> (string \<rightharpoonup> nat) \<Rightarrow> nat list \<Rightarrow> bool" where
  "groups_ok js done groups index_by_key firsts \<longleftrightarrow>
    (\<forall>k g. index_by_key k = Some g \<longleftrightarrow> g < length groups \<and> group_key (groups ! g) = k) \<and>
    (\<forall>p \<in> set done. \<exists>g < length groups. group_key (groups ! g) = intrinsic_collision_family_key js p) \<and>
    (\<forall>g < length groups. group_members (groups ! g) =
      filter (\<lambda>p. intrinsic_collision_family_key js p = group_key (groups ! g)) done) \<and>
    length firsts = length groups \<and> sorted_wrt (<) firsts \<and> (\<forall>g < length groups.
      firsts ! g < length done \<and> group_first (groups ! g) = lit (of_nat (firsts ! g)) \<and>
      intrinsic_collision_family_key js (done ! (firsts ! g)) = group_key (groups ! g) \<and>
      (\<forall>j < firsts ! g. intrinsic_collision_family_key js (done ! j) \<noteq> group_key (groups ! g)))"

lemma groups_ok_old:
  assumes ok: "groups_ok js done groups m firsts" and k: "m (intrinsic_collision_family_key js p) = Some g"
  shows "groups_ok js (done @ [p]) (groups[g := (groups ! g)\<lparr>group_members := group_members (groups ! g) @ [p]\<rparr>]) m firsts"
proof -
  have g: "g < length groups" "group_key (groups ! g) = intrinsic_collision_family_key js p"
    using ok k by (auto simp: groups_ok_def)
  let ?gs = "groups[g := (groups ! g)\<lparr>group_members := group_members (groups ! g) @ [p]\<rparr>]"
  have key: "group_key (?gs ! h) = group_key (groups ! h)" "group_first (?gs ! h) = group_first (groups ! h)" if "h < length groups" for h
    using that by (cases "h = g"; simp)+
  have other: "group_key (groups ! h) \<noteq> intrinsic_collision_family_key js p" if "h < length groups" "h \<noteq> g" for h
    using ok k that unfolding groups_ok_def by (metis option.inject)
  have mem: "group_members (?gs ! h) = filter (\<lambda>q. intrinsic_collision_family_key js q = group_key (groups ! h)) (done @ [p])"
    if "h < length groups" for h
    using ok that g other [OF that] by (cases "h = g") (auto simp: groups_ok_def)
  show ?thesis unfolding groups_ok_def length_list_update
  proof (intro conjI allI impI ballI)
    show "m k = Some h \<longleftrightarrow> h < length groups \<and> group_key (?gs ! h) = k" for k h
      using ok key(1) unfolding groups_ok_def by metis
    show "\<exists>h < length groups. group_key (?gs ! h) = intrinsic_collision_family_key js q" if "q \<in> set (done @ [p])" for q
    proof -
      have "\<exists>h < length groups. group_key (groups ! h) = intrinsic_collision_family_key js q"
        using ok g that unfolding groups_ok_def by auto
      then show ?thesis using key(1) by metis
    qed
  qed (use ok key mem in \<open>auto simp: groups_ok_def nth_append\<close>)
qed

lemma groups_ok_new:
  assumes ok: "groups_ok js done groups m firsts" and k: "m (intrinsic_collision_family_key js p) = None"
  shows "groups_ok js (done @ [p]) (groups @ [\<lparr>group_key = intrinsic_collision_family_key js p, group_members = [p],
    group_first = lit (of_nat (length done))\<rparr>]) (m(intrinsic_collision_family_key js p \<mapsto> length groups)) (firsts @ [length done])"
proof -
  let ?k = "intrinsic_collision_family_key js p"
  have new: "group_key (groups ! h) \<noteq> ?k" if "h < length groups" for h
    using ok k that unfolding groups_ok_def by (metis option.distinct(1))
  then have old: "intrinsic_collision_family_key js q \<noteq> ?k" if "q \<in> set done" for q
    using ok that unfolding groups_ok_def by metis
  have "\<forall>h < length groups. firsts ! h < length done" "length firsts = length groups" using ok by (auto simp: groups_ok_def)
  then have "\<forall>x \<in> set firsts. x < length done" by (auto simp: in_set_conv_nth)
  then show ?thesis using ok new old unfolding groups_ok_def
    by (auto simp: nth_append less_Suc_eq sorted_wrt_append filter_empty_conv)
qed

lemma group_loop_ok:
  "groups_ok js done groups m firsts \<Longrightarrow> \<exists>m' firsts'. groups_ok js (done @ ps) (group_loop js (enumerate (length done) ps) groups m) m' firsts'"
proof (induction ps arbitrary: "done" groups m firsts)
  case (Cons p ps)
  show ?case
  proof (cases "m (intrinsic_collision_family_key js p)")
    case None
    then show ?thesis using Cons.IH [OF groups_ok_new [OF Cons.prems None]] None by (simp add: Let_def del: fun_upd_apply)
  next
    case (Some g)
    then show ?thesis using Cons.IH [OF groups_ok_old [OF Cons.prems Some]] Some by (simp add: Let_def)
  qed
qed auto

subsection \<open>Keys of points\<close>

definition grid_cell :: "point \<Rightarrow> (rat \<times> rat) option" where
  "grid_cell p = (case (to_grid_mm (px p), to_grid_mm (py p)) of (Some x, Some y) \<Rightarrow> Some (f64_val x, f64_val y) | _ \<Rightarrow> None)"

lemma grid_int:
  assumes "f64_ok v" "to_grid_mm v = Some g"
  obtains i where "f64_val g = of_int i" "number_to_js_string js g = dec_int i"
proof -
  obtain s m where v: "v = Finite s m" using assms(2) by (cases v) (auto simp: to_grid_mm_def)
  let ?n = "units_at 1000 m"
  have m: "0 \<le> m" using assms(1) by (simp add: v)
  have g: "?n \<le> 9007199254740991" "g = Finite s (of_int ?n)"
    using assms grid_at_eq [of s m 1000] unfolding v grid_defs by (auto split: if_splits)
  have n: "0 \<le> ?n" using m by (intro units_nonneg) auto
  let ?i = "if s then - ?n else ?n"
  have r: "round_mag (of_int ?n) = (of_int ?n :: rat)" using n g(1) by (intro round_mag_int) auto
  have "(of_int ?n :: rat) \<le> 9007199254740991" using g(1) by (metis of_int_le_iff of_int_numeral)
  then have i: "is_int_val g ?i" using n r by (auto simp: is_int_val_def g(2) f64_top_def)
  have a: "\<bar>?i\<bar> \<le> 9007199254740991" using n g(1) by auto
  have "js_safe_integer g" unfolding js_safe_integer_eq using i a by (subst safe_integer_iff) (auto simp: is_int_val_def)
  then have "number_to_js_string js g = dec_int ?i" using as_i64_int_val [OF i a] by (simp add: number_to_js_string_def)
  then show ?thesis using that i by (auto simp: is_int_val_def)
qed

definition coordinates_ok :: "point \<Rightarrow> bool" where
  "coordinates_ok p \<longleftrightarrow> f64_ok (px p) \<and> f64_ok (py p)"

lemma point_key_cases:
  assumes "coordinates_ok p"
  obtains (cell) i j where "grid_cell p = Some (of_int i, of_int j)" "point_key js p = dec_int i @ '','' @ dec_int j"
  | (invalid) "grid_cell p = None" "point_key js p = ''invalid''"
proof (cases "to_grid_mm (px p)"; cases "to_grid_mm (py p)")
  fix x y
  assume "to_grid_mm (px p) = Some x" "to_grid_mm (py p) = Some y"
  note xy = this
  obtain i where i: "f64_val x = of_int i" "number_to_js_string js x = dec_int i"
    using grid_int [OF _ xy(1), of js] assms by (auto simp: coordinates_ok_def)
  obtain j where j: "f64_val y = of_int j" "number_to_js_string js y = dec_int j"
    using grid_int [OF _ xy(2), of js] assms by (auto simp: coordinates_ok_def)
  show thesis by (rule cell [of i j]) (simp_all only: grid_cell_def point_key_def xy i j option.simps prod.simps)
qed (auto simp: grid_cell_def point_key_def intro: invalid)

lemma point_key_inject:
  assumes "coordinates_ok p" "coordinates_ok q"
  shows "point_key js p = point_key js q \<longleftrightarrow> grid_cell p = grid_cell q"
proof -
  have comma: "dec_int i @ '','' @ dec_int j \<noteq> ''invalid''" for i j
  proof
    assume "dec_int i @ '','' @ dec_int j = ''invalid''"
    then have "CHR '','' \<in> set ''invalid''" by (metis append_Cons in_set_conv_decomp)
    then show False by simp
  qed
  show ?thesis
    using assms(1)
  proof (cases p rule: point_key_cases [where js = js])
    case p: (cell i j)
    show ?thesis using assms(2)
    proof (cases q rule: point_key_cases [where js = js])
      case q: (cell k l)
      have "dec_int i @ '','' @ dec_int j = dec_int k @ '','' @ dec_int l \<longleftrightarrow> i = k \<and> j = l"
        using pair_inject [OF dec_int_separators(1) dec_int_separators(1), of i "dec_int j" k "dec_int l"]
        by (auto simp only: dec_int_inject)
      then show ?thesis unfolding p q by (simp only: option.inject prod.inject of_int_eq_iff)
    qed (use p comma in auto)
  next
    case p: invalid
    show ?thesis using assms(2)
    proof (cases q rule: point_key_cases [where js = js])
      case q: (cell k l)
      show ?thesis unfolding p q by (simp only: option.distinct comma [of k l, THEN not_sym])
    qed (use p in auto)
  qed
qed

lemma point_key_token: "coordinates_ok p \<Longrightarrow> point_key js p \<noteq> [] \<and> CHR '';'' \<notin> set (point_key js p)"
  using dec_int_separators(2) by (elim point_key_cases [where js = js]) auto

subsection \<open>Keys of polygons\<close>

lemma cyclic_keys_walk:
  assumes "start < length keys"
  shows "cyclic_keys keys start 1 = joined (rotate start keys)" "cyclic_keys keys start (- 1) = joined (rotate (length keys - 1 - start) (rev keys))"
  by (simp_all only: cyclic_keys_def join_with_joined walk_indices [OF assms] Let_def)

lemma fold_better_variant:
  "\<exists>r. foldl better_variant (Some b) vs = Some r \<and> r \<in> insert b (set vs) \<and> (\<forall>v \<in> insert b (set vs). code_units r \<le> code_units v)"
proof (induction vs arbitrary: b)
  case (Cons v vs)
  define c where "c = (if cmp_js_code_units v b = Less then v else b)"
  have c: "code_units c \<le> code_units v" "code_units c \<le> code_units b" "c \<in> {v, b}"
    by (auto simp: c_def cmp_js_code_units_eq cmp_of_def not_less split: if_splits)
  obtain r where r: "foldl better_variant (Some c) vs = Some r" "r \<in> insert c (set vs)" "\<forall>v \<in> insert c (set vs). code_units r \<le> code_units v"
    using Cons.IH [of c] by blast
  have "better_variant (Some b) v = Some c" by (simp add: better_variant_def c_def)
  then have "foldl better_variant (Some b) (v # vs) = Some r" using r(1) by simp
  moreover have "r \<in> insert b (set (v # vs))" using r(2) c(3) by auto
  moreover have "code_units r \<le> code_units w" if "w \<in> insert b (set (v # vs))" for w
  proof -
    have "code_units r \<le> code_units c" using r(3) by blast
    then have "code_units r \<le> code_units v" "code_units r \<le> code_units b" using c(1,2) order_trans by blast+
    then show ?thesis using that r(3) by auto
  qed
  ultimately show ?case by blast
qed simp

lemma polygon_key_least:
  assumes "ps \<noteq> []"
  obtains ws where "same_cycle (map (point_key js) ps) ws" "canonical_cyclic_polygon_key js ps = joined ws"
    "\<forall>us. same_cycle (map (point_key js) ps) us \<longrightarrow> code_units (joined ws) \<le> code_units (joined us)"
proof -
  let ?k = "map (point_key js) ps" and ?n = "length ps"
  define vs where "vs = concat (map (\<lambda>s. [cyclic_keys ?k s 1, cyclic_keys ?k s (- 1)]) [0..<?n])"
  have mem: "v \<in> set vs \<longleftrightarrow> (\<exists>us. same_cycle ?k us \<and> v = joined us)" for v
  proof
    assume "v \<in> set vs"
    then obtain s where "s < ?n" "v = cyclic_keys ?k s 1 \<or> v = cyclic_keys ?k s (- 1)" by (auto simp: vs_def)
    then show "\<exists>us. same_cycle ?k us \<and> v = joined us" using cyclic_keys_walk [of s ?k] unfolding same_cycle_def by auto
  next
    assume "\<exists>us. same_cycle ?k us \<and> v = joined us"
    then obtain us m where us: "us = rotate m ?k \<or> us = rotate m (rev ?k)" "v = joined us" by (auto simp: same_cycle_def)
    have m: "m mod ?n < ?n" using assms by simp
    then have s: "?n - 1 - m mod ?n < ?n" "?n - 1 - (?n - 1 - m mod ?n) = m mod ?n" by linarith+
    have "v = cyclic_keys ?k (m mod ?n) 1 \<or> v = cyclic_keys ?k (?n - 1 - m mod ?n) (- 1)"
      using us cyclic_keys_walk(1) [of "m mod ?n" ?k] cyclic_keys_walk(2) [of "?n - 1 - m mod ?n" ?k] m s
        rotate_conv_mod [of m ?k] rotate_conv_mod [of m "rev ?k"] by auto
    then show "v \<in> set vs" using m s(1) by (auto simp: vs_def)
  qed
  obtain v ws where vs: "vs = v # ws" using assms by (cases vs) (auto simp: vs_def)
  obtain r where r: "foldl better_variant (Some v) ws = Some r" "r \<in> set vs" "\<forall>u \<in> set vs. code_units r \<le> code_units u"
    using fold_better_variant [of v ws] unfolding vs by auto
  obtain us where us: "same_cycle ?k us" "r = joined us" using r(2) mem by blast
  have "foldl better_variant None vs = Some r" using r(1) by (simp add: vs better_variant_def)
  then have "canonical_cyclic_polygon_key js ps = joined us"
    using assms us(2) by (simp add: canonical_cyclic_polygon_key_def Let_def vs_def)
  moreover have "\<forall>ws. same_cycle ?k ws \<longrightarrow> code_units (joined us) \<le> code_units (joined ws)"
    using r(3) mem us(2) by blast
  ultimately show ?thesis using that us(1) by blast
qed

lemma polygon_key_inject:
  assumes ok: "\<forall>p \<in> set ps \<union> set qs. coordinates_ok p"
  shows "canonical_cyclic_polygon_key js ps = canonical_cyclic_polygon_key js qs \<longleftrightarrow>
    same_cycle (map grid_cell ps) (map grid_cell qs)"
proof -
  let ?k = "map (point_key js)"
  have empty: "canonical_cyclic_polygon_key js [] = []" by (simp add: canonical_cyclic_polygon_key_def)
  have nonempty: "canonical_cyclic_polygon_key js rs \<noteq> []" if rs: "rs \<noteq> []" "\<forall>p \<in> set rs. coordinates_ok p" for rs
  proof -
    obtain ws where ws: "same_cycle (?k rs) ws" "canonical_cyclic_polygon_key js rs = joined ws"
      using polygon_key_least [OF rs(1), of js] by blast
    then have "ws \<noteq> []" using rs(1) same_cycle_length by fastforce
    moreover have "\<forall>t \<in> set ws. t \<noteq> []" using same_cycle_set [OF ws(1)] point_key_token rs(2) by auto
    ultimately show ?thesis unfolding ws(2) by (cases ws rule: joined.cases) auto
  qed
  show ?thesis
  proof (cases "ps = [] \<or> qs = []")
    case True
    have "same_cycle (map grid_cell ps) (map grid_cell qs) \<longleftrightarrow> ps = qs"
    proof
      assume "same_cycle (map grid_cell ps) (map grid_cell qs)"
      from same_cycle_length [OF this] show "ps = qs" using True by auto
    next
      assume "ps = qs"
      then show "same_cycle (map grid_cell ps) (map grid_cell qs)" unfolding same_cycle_def by (intro exI [of _ 0]) simp
    qed
    moreover have "canonical_cyclic_polygon_key js ps \<noteq> []" if "ps \<noteq> []" using nonempty [of ps] ok that by simp
    moreover have "canonical_cyclic_polygon_key js qs \<noteq> []" if "qs \<noteq> []" using nonempty [of qs] ok that by simp
    ultimately show ?thesis using True empty by (cases "ps = []"; cases "qs = []") auto
  next
    case False
    obtain ws where ws: "same_cycle (?k ps) ws" "canonical_cyclic_polygon_key js ps = joined ws"
      "\<forall>us. same_cycle (?k ps) us \<longrightarrow> code_units (joined ws) \<le> code_units (joined us)"
      using polygon_key_least [of ps js] False by blast
    obtain vs where vs: "same_cycle (?k qs) vs" "canonical_cyclic_polygon_key js qs = joined vs"
      "\<forall>us. same_cycle (?k qs) us \<longrightarrow> code_units (joined vs) \<le> code_units (joined us)"
      using polygon_key_least [of qs js] False by blast
    have "joined ws = joined vs \<longleftrightarrow> same_cycle (?k ps) (?k qs)"
    proof
      assume "joined ws = joined vs"
      moreover have "\<forall>t \<in> set ws \<union> set vs. t \<noteq> [] \<and> CHR '';'' \<notin> set t"
        using same_cycle_set [OF ws(1)] same_cycle_set [OF vs(1)] ok point_key_token by auto
      ultimately have "ws = vs" by (rule joined_tokens_inject)
      then show "same_cycle (?k ps) (?k qs)" using ws(1) vs(1) same_cycle_sym same_cycle_trans by blast
    next
      assume s: "same_cycle (?k ps) (?k qs)"
      then have "code_units (joined ws) \<le> code_units (joined vs)" "code_units (joined vs) \<le> code_units (joined ws)"
        using ws vs same_cycle_sym same_cycle_trans by blast+
      then show "joined ws = joined vs" by (simp add: code_units_inject)
    qed
    moreover have "same_cycle (?k ps) (?k qs) \<longleftrightarrow> same_cycle (map grid_cell ps) (map grid_cell qs)"
    proof -
      have "\<forall>x \<in> set ps. \<forall>y \<in> set qs. point_key js y = point_key js x \<longleftrightarrow> grid_cell y = grid_cell x"
        using ok point_key_inject by blast
      then show ?thesis using same_cycle_transfer [of "point_key js" ps qs grid_cell]
          same_cycle_transfer [of grid_cell ps qs "point_key js"] by blast
    qed
    ultimately show ?thesis using ws(2) vs(2) by simp
  qed
qed

definition declared_key :: "irregular_prepared_piece \<Rightarrow> string" where
  "declared_key p = (case prepared_interchangeability_key p of Some k \<Rightarrow> k | None \<Rightarrow> prepared_source_id p)"

abbreviation collision_ring :: "irregular_prepared_piece \<Rightarrow> point list" where
  "collision_ring p \<equiv> padded_collision_polygon (prepared_collision_geometry p)"

lemma family_key_inject:
  assumes "\<forall>v \<in> set (collision_ring p) \<union> set (collision_ring q). coordinates_ok v"
  shows "intrinsic_collision_family_key js p = intrinsic_collision_family_key js q \<longleftrightarrow>
    declared_key p = declared_key q \<and> same_cycle (map grid_cell (collision_ring p)) (map grid_cell (collision_ring q))"
proof -
  have l: "json_string_literal v = push_json_string [] v" for v by (simp add: json_string_literal_def push_json_string_def)
  have "json_stringify_string_pair a b = json_stringify_string_pair c d \<longleftrightarrow> a = c \<and> b = d" for a b c d
    using json_string_inject [of a "'','' @ push_json_string [] b @ '']''" c "'','' @ push_json_string [] d @ '']''"]
      json_string_inject [of b "'']''" d "'']''"] by (simp add: json_stringify_string_pair_def l)
  then show ?thesis using polygon_key_inject [OF assms, of js]
    by (simp add: intrinsic_collision_family_key_def declared_key_def)
qed

subsection \<open>Families\<close>

lemma mset_filter_disjoint:
  "\<forall>x \<in> set xs. \<not> (P x \<and> Q x) \<Longrightarrow> mset (filter (\<lambda>x. P x \<or> Q x) xs) = mset (filter P xs) + mset (filter Q xs)"
  by (induction xs) auto

lemma mset_split_by_key:
  "distinct ks \<Longrightarrow> mset (concat (map (\<lambda>k. filter (\<lambda>p. f p = k) xs) ks)) = mset (filter (\<lambda>p. f p \<in> set ks) xs)"
proof (induction ks)
  case (Cons k ks)
  have "mset (filter (\<lambda>p. f p = k \<or> f p \<in> set ks) xs) = mset (filter (\<lambda>p. f p = k) xs) + mset (filter (\<lambda>p. f p \<in> set ks) xs)"
    using Cons.prems by (intro mset_filter_disjoint) auto
  then show ?case using Cons by simp
qed simp

text \<open>The families are the groups with their measurements.\<close>

definition grouped :: "(f64 \<Rightarrow> string) \<Rightarrow> irregular_prepared_piece list \<Rightarrow> collision_family list \<Rightarrow> bool" where
  "grouped js prepared fs \<longleftrightarrow> distinct (map family_key fs) \<and>
    (\<forall>g < length fs. family_members (fs ! g) =
      filter (\<lambda>p. intrinsic_collision_family_key js p = family_key (fs ! g)) prepared) \<and>
    (\<forall>p \<in> set prepared. \<exists>g < length fs. family_key (fs ! g) = intrinsic_collision_family_key js p)"

lemma family_of_group_fields:
  "family_key (family_of_group g) = group_key g" "family_members (family_of_group g) = group_members g"
  "first_baseline_index (family_of_group g) = group_first g"
  by (simp_all add: family_of_group_def Let_def)

lemma groups_ok_grouped:
  assumes "groups_ok js prepared groups m firsts"
  shows "grouped js prepared (map family_of_group groups)"
proof -
  have "\<forall>g < length groups. m (group_key (groups ! g)) = Some g" using assms unfolding groups_ok_def by blast
  then have "g = h" if "g < length groups" "h < length groups" "group_key (groups ! g) = group_key (groups ! h)" for g h
    using that by (metis option.inject)
  moreover have "\<exists>g < length groups. family_key (map family_of_group groups ! g) = intrinsic_collision_family_key js p"
    if "p \<in> set prepared" for p
    using assms that unfolding groups_ok_def by (metis family_of_group_fields(1) nth_map)
  ultimately show ?thesis using assms unfolding grouped_def
    by (auto simp: groups_ok_def family_of_group_fields distinct_conv_nth)
qed

lemma families_grouped:
  obtains m firsts where "groups_ok js prepared (group_loop js (enumerate 0 prepared) [] Map.empty) m firsts"
proof -
  have "groups_ok js [] [] Map.empty []" by (simp add: groups_ok_def)
  from group_loop_ok [OF this, of prepared] that show ?thesis by (simp only: append_Nil list.size) blast
qed

text \<open>The first member of a group is the piece at its recorded index.\<close>

lemma group_start:
  assumes "groups_ok js prepared groups m firsts" and "g < length groups"
  shows "hd (group_members (groups ! g)) = prepared ! (firsts ! g) \<and> group_members (groups ! g) \<noteq> []"
proof -
  let ?k = "group_key (groups ! g)" and ?i = "firsts ! g" and ?key = "intrinsic_collision_family_key js"
  have i: "?i < length prepared" "?key (prepared ! ?i) = ?k" "\<forall>j < ?i. ?key (prepared ! j) \<noteq> ?k"
    and mem: "group_members (groups ! g) = filter (\<lambda>p. ?key p = ?k) prepared"
    using assms unfolding groups_ok_def by blast+
  have "prepared = take ?i prepared @ prepared ! ?i # drop (Suc ?i) prepared" using i(1) by (rule id_take_nth_drop)
  moreover have "filter (\<lambda>p. ?key p = ?k) (take ?i prepared) = []" using i(1,3) by (auto simp: filter_empty_conv in_set_conv_nth)
  ultimately have "filter (\<lambda>p. ?key p = ?k) prepared = prepared ! ?i # filter (\<lambda>p. ?key p = ?k) (drop (Suc ?i) prepared)"
    using i(2) by (metis (mono_tags, lifting) append_Nil filter.simps(2) filter_append)
  then show ?thesis using mem by simp
qed

lemma grouped_partition:
  assumes "grouped js prepared fs"
  shows "mset (concat (map family_members fs)) = mset prepared"
proof -
  let ?key = "intrinsic_collision_family_key js"
  have "map family_members fs = map (\<lambda>k. filter (\<lambda>p. ?key p = k) prepared) (map family_key fs)"
    using assms by (intro nth_equalityI) (simp_all add: grouped_def)
  moreover have "distinct (map family_key fs)" using assms by (simp add: grouped_def)
  ultimately have "mset (concat (map family_members fs)) = mset (filter (\<lambda>p. ?key p \<in> set (map family_key fs)) prepared)"
    by (simp only: mset_split_by_key)
  moreover have "?key p \<in> set (map family_key fs)" if "p \<in> set prepared" for p
    using assms that unfolding grouped_def by (metis length_map nth_map nth_mem)
  then have "filter (\<lambda>p. ?key p \<in> set (map family_key fs)) prepared = prepared" by (simp only: filter_id_conv) blast
  ultimately show ?thesis by (simp only:)
qed

lemma grouped_share:
  assumes "grouped js prepared fs" and pq: "p \<in> set prepared" "q \<in> set prepared"
  shows "(\<exists>family \<in> set fs. p \<in> set (family_members family) \<and> q \<in> set (family_members family)) \<longleftrightarrow>
    intrinsic_collision_family_key js p = intrinsic_collision_family_key js q"
proof -
  have mem: "family_members (fs ! g) = filter (\<lambda>p. intrinsic_collision_family_key js p = family_key (fs ! g)) prepared"
    if "g < length fs" for g using assms(1) that by (simp add: grouped_def)
  obtain h where h: "h < length fs" "family_key (fs ! h) = intrinsic_collision_family_key js p"
    using assms unfolding grouped_def by blast
  show ?thesis
  proof
    assume "\<exists>family \<in> set fs. p \<in> set (family_members family) \<and> q \<in> set (family_members family)"
    then obtain g where g: "g < length fs" "p \<in> set (family_members (fs ! g))" "q \<in> set (family_members (fs ! g))"
      by (metis in_set_conv_nth)
    then show "intrinsic_collision_family_key js p = intrinsic_collision_family_key js q" unfolding mem [OF g(1)] by simp
  next
    assume e: "intrinsic_collision_family_key js p = intrinsic_collision_family_key js q"
    have "p \<in> set (family_members (fs ! h))" "q \<in> set (family_members (fs ! h))"
      unfolding mem [OF h(1)] h(2) using pq e by simp_all
    then show "\<exists>family \<in> set fs. p \<in> set (family_members family) \<and> q \<in> set (family_members family)"
      using nth_mem [OF h(1)] by blast
  qed
qed

text \<open>
  C40. Collision families. Grouping prepared copies splits them into families with different keys, in the
  order of their first members: a family holds all the copies with its key, in their order, and starts at
  the recorded index. For float coordinates two copies share a family exactly when they have the same
  interchangeability key (or source) and their collision polygons are the same cycle of grid points, from
  any start and in either direction.
\<close>

theorem collision_families_exact:
  assumes "\<forall>p \<in> set prepared. \<forall>v \<in> set (collision_ring p). f64_ok (px v) \<and> f64_ok (py v)"
  shows "let families = group_intrinsic_collision_families js prepared in
    distinct (map family_key families) \<and>
    (\<exists>firsts. length firsts = length families \<and> sorted_wrt (<) firsts \<and> (\<forall>f < length families.
      let family = families ! f in
        first_baseline_index family = lit (of_nat (firsts ! f)) \<and> firsts ! f < length prepared \<and>
        hd (family_members family) = prepared ! (firsts ! f) \<and> family_members family \<noteq> [] \<and>
        family_members family = filter (\<lambda>p. intrinsic_collision_family_key js p = family_key family) prepared)) \<and>
    mset (concat (map family_members families)) = mset prepared \<and>
    (\<forall>p \<in> set prepared. \<forall>q \<in> set prepared. (\<exists>family \<in> set families. p \<in> set (family_members family) \<and> q \<in> set (family_members family)) \<longleftrightarrow>
      declared_key p = declared_key q \<and> same_cycle (map grid_cell (collision_ring p)) (map grid_cell (collision_ring q)))"
proof -
  let ?gs = "group_loop js (enumerate 0 prepared) [] Map.empty"
  let ?fs = "group_intrinsic_collision_families js prepared"
  obtain m firsts where ok: "groups_ok js prepared ?gs m firsts" by (rule families_grouped)
  have fs: "?fs = map family_of_group ?gs" by (simp add: group_intrinsic_collision_families_def)
  have grouped: "grouped js prepared ?fs" unfolding fs by (rule groups_ok_grouped [OF ok])
  have firsts: "length firsts = length ?fs" "sorted_wrt (<) firsts" using ok by (auto simp: groups_ok_def fs)
  have start: "first_baseline_index (?fs ! g) = lit (of_nat (firsts ! g)) \<and> firsts ! g < length prepared \<and>
      hd (family_members (?fs ! g)) = prepared ! (firsts ! g) \<and> family_members (?fs ! g) \<noteq> [] \<and>
      family_members (?fs ! g) = filter (\<lambda>p. intrinsic_collision_family_key js p = family_key (?fs ! g)) prepared"
    if g: "g < length ?fs" for g
    using ok group_start [OF ok, of g] g by (simp add: groups_ok_def fs family_of_group_fields)
  have same: "intrinsic_collision_family_key js p = intrinsic_collision_family_key js q \<longleftrightarrow>
      declared_key p = declared_key q \<and> same_cycle (map grid_cell (collision_ring p)) (map grid_cell (collision_ring q))"
    if "p \<in> set prepared" "q \<in> set prepared" for p q
    using assms that by (intro family_key_inject) (auto simp: coordinates_ok_def)
  have share: "(\<exists>family \<in> set ?fs. p \<in> set (family_members family) \<and> q \<in> set (family_members family)) \<longleftrightarrow>
      declared_key p = declared_key q \<and> same_cycle (map grid_cell (collision_ring p)) (map grid_cell (collision_ring q))"
    if "p \<in> set prepared" "q \<in> set prepared" for p q
    using grouped_share [OF grouped that] same [OF that] by (simp only:)
  have "distinct (map family_key ?fs)" using grouped by (simp add: grouped_def)
  then show ?thesis unfolding Let_def using firsts start share grouped_partition [OF grouped] by blast
qed

subsection \<open>A concrete grouping\<close>

definition sample_ring :: "point list" where
  "sample_ring = [\<lparr>px = lit 0, py = lit 0\<rparr>, \<lparr>px = lit 8, py = lit 0\<rparr>, \<lparr>px = lit 4, py = lit 4\<rparr>]"

definition sample_copy :: "string \<Rightarrow> string option \<Rightarrow> point list \<Rightarrow> irregular_prepared_piece" where
  "sample_copy i k ps = \<lparr>prepared_piece_id = Some i, prepared_interchangeability_key = k, prepared_source_id = ''a'',
    prepared_allow_mirror = False, prepared_collision_geometry = \<lparr>geometry_source_piece_id = ''a'',
      geometry_source_bounds = \<lparr>min_x = lit 0, min_y = lit 0, max_x = lit 8, max_y = lit 4\<rparr>, sampled_points = [],
      convex_hull_polygon = ps, padded_collision_polygon = ps, geometry_placement_reference = \<lparr>px = lit 0, py = lit 0\<rparr>\<rparr>,
    prepared_transforms = []\<rparr>"

lemma collision_families_exact_witness:
  "let first = sample_copy ''a#1'' None sample_ring; second = sample_copy ''a#2'' None (rotate 1 (rev sample_ring));
      third = sample_copy ''b#1'' (Some ''b'') sample_ring;
      families = group_intrinsic_collision_families (\<lambda>v. dec_int (as_i64 v)) [first, second, third]
    in (\<exists>family \<in> set families. first \<in> set (family_members family) \<and> second \<in> set (family_members family)) \<and>
      \<not> (\<exists>family \<in> set families. first \<in> set (family_members family) \<and> third \<in> set (family_members family))"
proof -
  let ?a = "sample_copy ''a#1'' None sample_ring" and ?b = "sample_copy ''a#2'' None (rotate 1 (rev sample_ring))"
    and ?c = "sample_copy ''b#1'' (Some ''b'') sample_ring"
  have "\<forall>p \<in> set [?a, ?b, ?c]. \<forall>v \<in> set (collision_ring p). f64_ok (px v) \<and> f64_ok (py v)"
    by (simp add: sample_copy_def sample_ring_def)
  from collision_families_exact [OF this, of "\<lambda>v. dec_int (as_i64 v)"]
  have in_family: "\<forall>p \<in> {?a, ?b, ?c}. \<forall>q \<in> {?a, ?b, ?c}. (\<exists>family \<in> set (group_intrinsic_collision_families (\<lambda>v. dec_int (as_i64 v)) [?a, ?b, ?c]).
      p \<in> set (family_members family) \<and> q \<in> set (family_members family)) \<longleftrightarrow>
      declared_key p = declared_key q \<and> same_cycle (map grid_cell (collision_ring p)) (map grid_cell (collision_ring q))"
    by (simp only: Let_def list.set) blast
  have "same_cycle sample_ring (rotate 1 (rev sample_ring))"
    unfolding same_cycle_def by blast
  then have "same_cycle (map grid_cell (collision_ring ?a)) (map grid_cell (collision_ring ?b))"
    by (simp only: sample_copy_def irregular_prepared_piece.select_convs collision_geometry.select_convs same_cycle_map)
  moreover have "declared_key ?a = declared_key ?b" "declared_key ?a \<noteq> declared_key ?c"
    by (simp_all add: sample_copy_def declared_key_def)
  ultimately show ?thesis using in_family unfolding Let_def by blast
qed

end
