(* ===== verification/GridContact.thy ===== *)
theory GridContact
  imports ScoreGrid
begin

text \<open>
  \<open>crates/polygon-nesting-core/src/canonical_grid/contact.rs\<close>, its part on canonical grid paths: exact
  collinear overlaps of edges, the measured contact of two paths with its structural signatures, and
  the axis-aligned overlap of the short-side search with its cancellation hook. \<open>hypot\<close> is the
  platform's Euclidean norm and \<open>js\<close> the general JavaScript number formatter.
\<close>

definition MIN_STRUCTURAL_EDGE_LENGTH_RATIO :: f64 where
  "MIN_STRUCTURAL_EDGE_LENGTH_RATIO = lit (1 / 2)"

definition MIN_NEAR_COMPLETE_EDGE_OVERLAP_RATIO :: f64 where
  "MIN_NEAR_COMPLETE_EDGE_OVERLAP_RATIO = lit (95 / 100)"

definition STRUCTURAL_CONTACT_RATIO_SIGNATURE_SCALE :: f64 where
  "STRUCTURAL_CONTACT_RATIO_SIGNATURE_SCALE = lit 1000"

definition STRUCTURAL_CONTACT_TURN_SIGNATURE_SCALE :: f64 where
  "STRUCTURAL_CONTACT_TURN_SIGNATURE_SCALE = lit 1000"

record boundary_contact =
  contact_length_mm :: f64
  contact_normalized_units :: f64
  contact_count :: f64
  contact_signatures :: "string list"

datatype overlap_result = Measured int | Undecidable | Aborted

record grid_edge =
  edge_start :: grid_point
  edge_end :: grid_point
  start_index :: nat

text \<open>
  \<open>f64_to_bigint\<close> prints without decimals and parses: the nearest integer. Every call is on a
  coordinate that was checked to be a safe integer.
\<close>

definition grid_coordinate_to_bigint :: "f64 \<Rightarrow> int" where
  "grid_coordinate_to_bigint v = round_even (f64_val v)"

definition absolute_bigint :: "int \<Rightarrow> int" where
  "absolute_bigint v = (if v < 0 then - v else v)"

definition minimum_bigint :: "int \<Rightarrow> int \<Rightarrow> int" where
  "minimum_bigint a b = (if a < b then a else b)"

definition maximum_bigint :: "int \<Rightarrow> int \<Rightarrow> int" where
  "maximum_bigint a b = (if a > b then a else b)"

subsection \<open>Edges\<close>

definition edge_refused :: "grid_point \<Rightarrow> grid_point \<Rightarrow> bool" where
  "edge_refused s e \<longleftrightarrow> \<not> js_safe_integer (gx s) \<or> \<not> js_safe_integer (gy s) \<or>
    \<not> js_safe_integer (gx e) \<or> \<not> js_safe_integer (gy e) \<or> feq (gx s) (gx e) \<and> feq (gy s) (gy e)"

text \<open>The loop over the indices; a checkpoint is a function of its own state.\<close>

fun path_edges_loop :: "grid_path \<Rightarrow> ('s \<Rightarrow> bool \<times> 's) option \<Rightarrow> nat list \<Rightarrow> grid_edge list \<Rightarrow> 's \<Rightarrow>
    grid_edge list option \<times> 's" where
  "path_edges_loop path checkpoint [] edges st = (Some edges, st)"
| "path_edges_loop path checkpoint (index # rest) edges st =
    (let (go, st1) = (case checkpoint of None \<Rightarrow> (True, st) | Some callback \<Rightarrow> callback st)
     in if \<not> go then (None, st1)
        else let s = path ! index; e = path ! ((index + 1) mod length path)
          in if edge_refused s e then (None, st1)
             else path_edges_loop path checkpoint rest
               (edges @ [\<lparr>edge_start = s, edge_end = e, start_index = index\<rparr>]) st1)"

definition canonical_grid_path_edges :: "grid_path \<Rightarrow> ('s \<Rightarrow> bool \<times> 's) option \<Rightarrow> 's \<Rightarrow> grid_edge list option \<times> 's" where
  "canonical_grid_path_edges path checkpoint st =
    (if length path < 3 then (None, st) else path_edges_loop path checkpoint [0..<length path] [] st)"

subsection \<open>Overlap of two edges\<close>

definition edge_dx :: "grid_edge \<Rightarrow> int" where
  "edge_dx e = grid_coordinate_to_bigint (gx (edge_end e)) - grid_coordinate_to_bigint (gx (edge_start e))"

definition edge_dy :: "grid_edge \<Rightarrow> int" where
  "edge_dy e = grid_coordinate_to_bigint (gy (edge_end e)) - grid_coordinate_to_bigint (gy (edge_start e))"

definition axis_of :: "bool \<Rightarrow> grid_point \<Rightarrow> int" where
  "axis_of use_x p = grid_coordinate_to_bigint (if use_x then gx p else gy p)"

definition canonical_grid_collinear_overlap_axis_units :: "grid_edge \<Rightarrow> grid_edge \<Rightarrow> int option" where
  "canonical_grid_collinear_overlap_axis_units first second =
    (case canonical_grid_cross_sign (edge_start first) (edge_end first) (edge_start second) of
       None \<Rightarrow> None
     | Some second_start_cross \<Rightarrow>
         (case canonical_grid_cross_sign (edge_start first) (edge_end first) (edge_end second) of
            None \<Rightarrow> None
          | Some second_end_cross \<Rightarrow>
              if second_start_cross \<noteq> 0 \<or> second_end_cross \<noteq> 0 then Some 0
              else let use_x = (absolute_bigint (edge_dx first) \<ge> absolute_bigint (edge_dy first));
                  first_start = axis_of use_x (edge_start first); first_end = axis_of use_x (edge_end first);
                  second_start = axis_of use_x (edge_start second); second_end = axis_of use_x (edge_end second);
                  overlapping_axis_length =
                    minimum_bigint (maximum_bigint first_start first_end) (maximum_bigint second_start second_end) -
                    maximum_bigint (minimum_bigint first_start first_end) (minimum_bigint second_start second_end)
                in Some (if overlapping_axis_length > 0 then overlapping_axis_length else 0)))"

definition canonical_grid_edge_length_mm :: "(f64 \<Rightarrow> f64 \<Rightarrow> f64) \<Rightarrow> grid_edge \<Rightarrow> f64 option" where
  "canonical_grid_edge_length_mm hypot edge =
    (let dx = fsub (gx (edge_end edge)) (gx (edge_start edge));
         dy = fsub (gy (edge_end edge)) (gy (edge_start edge));
         length_mm = fdiv (hypot dx dy) (lit 1000)
     in if is_finite length_mm \<and> flt f64_zero length_mm then Some length_mm else None)"

definition canonical_grid_collinear_overlap :: "(f64 \<Rightarrow> f64 \<Rightarrow> f64) \<Rightarrow> grid_edge \<Rightarrow> grid_edge \<Rightarrow> f64 option" where
  "canonical_grid_collinear_overlap hypot first second =
    (case canonical_grid_collinear_overlap_axis_units first second of
       None \<Rightarrow> None
     | Some axis_units \<Rightarrow>
         if axis_units \<le> 0 then Some f64_zero
         else let use_x = (absolute_bigint (edge_dx first) \<ge> absolute_bigint (edge_dy first));
             first_axis_length = absolute_bigint (axis_of use_x (edge_end first) - axis_of use_x (edge_start first))
           in case canonical_grid_edge_length_mm hypot first of
                None \<Rightarrow> None
              | Some edge_length_mm \<Rightarrow>
                  let overlap_axis_length = bigint_to_number axis_units;
                      axis_length = bigint_to_number first_axis_length
                  in if \<not> js_safe_integer overlap_axis_length \<or> \<not> js_safe_integer axis_length \<or> fle axis_length f64_zero
                     then None
                     else let length_mm = fdiv (fmul overlap_axis_length edge_length_mm) axis_length
                       in if is_finite length_mm \<and> flt f64_zero length_mm then Some length_mm else None)"

subsection \<open>Contact of two paths\<close>

fun positive_contact_scan :: "(f64 \<Rightarrow> f64 \<Rightarrow> f64) \<Rightarrow> (grid_edge \<times> grid_edge) list \<Rightarrow> bool option" where
  "positive_contact_scan hypot [] = Some False"
| "positive_contact_scan hypot ((first_edge, second_edge) # rest) =
    (case canonical_grid_collinear_overlap hypot first_edge second_edge of
       None \<Rightarrow> None
     | Some length_mm \<Rightarrow> if flt f64_zero length_mm then Some True else positive_contact_scan hypot rest)"

definition has_positive_contact_between_prepared_edges ::
    "(f64 \<Rightarrow> f64 \<Rightarrow> f64) \<Rightarrow> grid_edge list \<Rightarrow> grid_edge list \<Rightarrow> bool option" where
  "has_positive_contact_between_prepared_edges hypot first_edges second_edges =
    positive_contact_scan hypot (List.product first_edges second_edges)"

definition path_edges :: "grid_path \<Rightarrow> grid_edge list option" where
  "path_edges path = fst (canonical_grid_path_edges path None ())"

definition has_positive_canonical_grid_boundary_contact ::
    "(f64 \<Rightarrow> f64 \<Rightarrow> f64) \<Rightarrow> grid_path \<Rightarrow> grid_path \<Rightarrow> bool option" where
  "has_positive_canonical_grid_boundary_contact hypot first second =
    Option.bind (path_edges first) (\<lambda>first_edges.
    Option.bind (path_edges second) (\<lambda>second_edges.
      has_positive_contact_between_prepared_edges hypot first_edges second_edges))"

definition ratio_signature_key :: "f64 \<Rightarrow> f64 \<Rightarrow> f64 option" where
  "ratio_signature_key value longest_edge_mm =
    (let key = js_round (fmul (fdiv value longest_edge_mm) STRUCTURAL_CONTACT_RATIO_SIGNATURE_SCALE)
     in if js_safe_integer key then Some key else None)"

definition canonical_grid_turn_cosine ::
    "(f64 \<Rightarrow> f64 \<Rightarrow> f64) \<Rightarrow> grid_point \<Rightarrow> grid_point \<Rightarrow> grid_point \<Rightarrow> f64 option" where
  "canonical_grid_turn_cosine hypot previous vertex next_point =
    (let previous_x = fsub (gx previous) (gx vertex); previous_y = fsub (gy previous) (gy vertex);
         next_x = fsub (gx next_point) (gx vertex); next_y = fsub (gy next_point) (gy vertex);
         denominator = fmul (hypot previous_x previous_y) (hypot next_x next_y)
     in if \<not> is_finite denominator \<or> fle denominator f64_zero then None
        else let cosine = fdiv (fadd (fmul previous_x next_x) (fmul previous_y next_y)) denominator
          in if is_finite cosine then Some (js_max (lit (- 1)) (js_min (lit 1) cosine)) else None)"

definition canonical_grid_structural_edge_descriptor ::
    "(f64 \<Rightarrow> f64 \<Rightarrow> f64) \<Rightarrow> (f64 \<Rightarrow> string) \<Rightarrow> grid_edge \<Rightarrow> grid_edge list \<Rightarrow> f64 \<Rightarrow> string option" where
  "canonical_grid_structural_edge_descriptor hypot js edge edges longest_edge_mm =
    (let n = length edges;
         previous = edges ! ((start_index edge + n - 1) mod n);
         next_edge = edges ! ((start_index edge + 1) mod n)
     in Option.bind (canonical_grid_edge_length_mm hypot edge) (\<lambda>edge_length_mm.
        Option.bind (canonical_grid_edge_length_mm hypot previous) (\<lambda>previous_length_mm.
        Option.bind (canonical_grid_edge_length_mm hypot next_edge) (\<lambda>next_length_mm.
        Option.bind (canonical_grid_turn_cosine hypot (edge_start previous) (edge_start edge) (edge_end edge)) (\<lambda>start_turn_cosine.
        Option.bind (canonical_grid_turn_cosine hypot (edge_start edge) (edge_end edge) (edge_end next_edge)) (\<lambda>end_turn_cosine.
        Option.bind (ratio_signature_key edge_length_mm longest_edge_mm) (\<lambda>edge_ratio_key.
        Option.bind (ratio_signature_key previous_length_mm longest_edge_mm) (\<lambda>previous_ratio_key.
        Option.bind (ratio_signature_key next_length_mm longest_edge_mm) (\<lambda>next_ratio_key.
          let start_turn_key = js_round (fmul start_turn_cosine STRUCTURAL_CONTACT_TURN_SIGNATURE_SCALE);
              end_turn_key = js_round (fmul end_turn_cosine STRUCTURAL_CONTACT_TURN_SIGNATURE_SCALE)
          in if \<not> js_safe_integer start_turn_key \<or> \<not> js_safe_integer end_turn_key then None
             else let num = number_to_js_string js;
                 first_endpoint = num previous_ratio_key @ '':'' @ num start_turn_key;
                 second_endpoint = num next_ratio_key @ '':'' @ num end_turn_key;
                 endpoint_pair = (if cmp_js_code_units first_endpoint second_endpoint \<noteq> Greater
                   then first_endpoint @ '':'' @ second_endpoint else second_endpoint @ '':'' @ first_endpoint)
               in Some (num edge_ratio_key @ '':'' @ endpoint_pair))))))))))"

definition canonical_grid_structural_contact_signature ::
    "(f64 \<Rightarrow> f64 \<Rightarrow> f64) \<Rightarrow> (f64 \<Rightarrow> string) \<Rightarrow> grid_edge \<Rightarrow> grid_edge \<Rightarrow> grid_edge list \<Rightarrow> grid_edge list \<Rightarrow>
      f64 \<Rightarrow> f64 \<Rightarrow> string option" where
  "canonical_grid_structural_contact_signature hypot js first_edge second_edge first_edges second_edges
      first_longest_edge_mm second_longest_edge_mm =
    Option.bind (canonical_grid_structural_edge_descriptor hypot js first_edge first_edges first_longest_edge_mm) (\<lambda>first_descriptor.
    Option.bind (canonical_grid_structural_edge_descriptor hypot js second_edge second_edges second_longest_edge_mm) (\<lambda>second_descriptor.
      Some (if cmp_js_code_units first_descriptor second_descriptor \<noteq> Greater
        then first_descriptor @ ''|'' @ second_descriptor else second_descriptor @ ''|'' @ first_descriptor)))"

fun longest_edge_loop :: "(f64 \<Rightarrow> f64 \<Rightarrow> f64) \<Rightarrow> grid_edge list \<Rightarrow> f64 \<Rightarrow> f64 option" where
  "longest_edge_loop hypot [] longest = Some longest"
| "longest_edge_loop hypot (edge # edges) longest = (case canonical_grid_edge_length_mm hypot edge of
      None \<Rightarrow> None
    | Some edge_length_mm \<Rightarrow> longest_edge_loop hypot edges (js_max longest edge_length_mm))"

definition longest_canonical_grid_edge_length :: "(f64 \<Rightarrow> f64 \<Rightarrow> f64) \<Rightarrow> grid_edge list \<Rightarrow> f64 option" where
  "longest_canonical_grid_edge_length hypot edges =
    Option.bind (longest_edge_loop hypot edges f64_zero) (\<lambda>longest.
      if flt f64_zero longest then Some longest else None)"

text \<open>The inner and the outer loop of the signatures.\<close>

fun signatures_inner :: "(f64 \<Rightarrow> f64 \<Rightarrow> f64) \<Rightarrow> (grid_edge \<Rightarrow> string option) \<Rightarrow> grid_edge \<Rightarrow> f64 \<Rightarrow> f64 \<Rightarrow>
    grid_edge list \<Rightarrow> string list \<Rightarrow> string list option" where
  "signatures_inner hypot signature first_edge first_edge_length_mm second_longest [] sigs = Some sigs"
| "signatures_inner hypot signature first_edge first_edge_length_mm second_longest (second_edge # rest) sigs =
    (case canonical_grid_edge_length_mm hypot second_edge of
       None \<Rightarrow> None
     | Some second_edge_length_mm \<Rightarrow>
         if flt second_edge_length_mm (fmul second_longest MIN_STRUCTURAL_EDGE_LENGTH_RATIO)
         then signatures_inner hypot signature first_edge first_edge_length_mm second_longest rest sigs
         else case canonical_grid_collinear_overlap hypot first_edge second_edge of
             None \<Rightarrow> None
           | Some overlap \<Rightarrow>
               let shorter = js_min first_edge_length_mm second_edge_length_mm
               in if fle (fmul shorter MIN_NEAR_COMPLETE_EDGE_OVERLAP_RATIO) overlap
                  then (case signature second_edge of
                      None \<Rightarrow> None
                    | Some sig \<Rightarrow> signatures_inner hypot signature first_edge first_edge_length_mm second_longest rest (sigs @ [sig]))
                  else signatures_inner hypot signature first_edge first_edge_length_mm second_longest rest sigs)"

fun signatures_outer :: "(f64 \<Rightarrow> f64 \<Rightarrow> f64) \<Rightarrow> (grid_edge \<Rightarrow> grid_edge \<Rightarrow> string option) \<Rightarrow> f64 \<Rightarrow> f64 \<Rightarrow>
    grid_edge list \<Rightarrow> grid_edge list \<Rightarrow> string list \<Rightarrow> string list option" where
  "signatures_outer hypot signature first_longest second_longest [] second_edges sigs = Some sigs"
| "signatures_outer hypot signature first_longest second_longest (first_edge # rest) second_edges sigs =
    (case canonical_grid_edge_length_mm hypot first_edge of
       None \<Rightarrow> None
     | Some first_edge_length_mm \<Rightarrow>
         if flt first_edge_length_mm (fmul first_longest MIN_STRUCTURAL_EDGE_LENGTH_RATIO)
         then signatures_outer hypot signature first_longest second_longest rest second_edges sigs
         else case signatures_inner hypot (signature first_edge) first_edge first_edge_length_mm second_longest second_edges sigs of
             None \<Rightarrow> None
           | Some sigs1 \<Rightarrow> signatures_outer hypot signature first_longest second_longest rest second_edges sigs1)"

definition derive_near_complete_structural_contact_signatures_grid ::
    "(f64 \<Rightarrow> f64 \<Rightarrow> f64) \<Rightarrow> (f64 \<Rightarrow> string) \<Rightarrow> grid_edge list \<Rightarrow> grid_edge list \<Rightarrow> f64 \<Rightarrow> f64 \<Rightarrow> string list option" where
  "derive_near_complete_structural_contact_signatures_grid hypot js first_edges second_edges first_longest second_longest =
    signatures_outer hypot (\<lambda>first_edge second_edge.
        canonical_grid_structural_contact_signature hypot js first_edge second_edge first_edges second_edges
          first_longest second_longest)
      first_longest second_longest first_edges second_edges []"

fun overlap_lengths :: "(f64 \<Rightarrow> f64 \<Rightarrow> f64) \<Rightarrow> (grid_edge \<times> grid_edge) list \<Rightarrow> f64 list option" where
  "overlap_lengths hypot [] = Some []"
| "overlap_lengths hypot ((first_edge, second_edge) # rest) =
    (case canonical_grid_collinear_overlap hypot first_edge second_edge of
       None \<Rightarrow> None
     | Some length_mm \<Rightarrow> map_option (\<lambda>ls. if flt f64_zero length_mm then length_mm # ls else ls) (overlap_lengths hypot rest))"

definition measure_canonical_grid_boundary_contact ::
    "(f64 \<Rightarrow> f64 \<Rightarrow> f64) \<Rightarrow> (f64 \<Rightarrow> string) \<Rightarrow> grid_path \<Rightarrow> grid_path \<Rightarrow> boundary_contact option" where
  "measure_canonical_grid_boundary_contact hypot js first second =
    Option.bind (path_edges first) (\<lambda>first_edges.
    Option.bind (path_edges second) (\<lambda>second_edges.
    Option.bind (overlap_lengths hypot (List.product first_edges second_edges)) (\<lambda>segment_lengths_mm.
      let length_mm = foldl fadd f64_zero segment_lengths_mm
      in if \<not> is_finite length_mm \<or> flt length_mm f64_zero then None
         else if feq length_mm f64_zero then
           Some \<lparr>contact_length_mm = f64_zero, contact_normalized_units = f64_zero, contact_count = f64_zero, contact_signatures = []\<rparr>
         else
           Option.bind (longest_canonical_grid_edge_length hypot first_edges) (\<lambda>first_longest_edge_mm.
           Option.bind (longest_canonical_grid_edge_length hypot second_edges) (\<lambda>second_longest_edge_mm.
             let normalization_length_mm = js_min first_longest_edge_mm second_longest_edge_mm;
                 normalized_units = fdiv length_mm normalization_length_mm
             in if \<not> is_finite normalized_units \<or> flt normalized_units f64_zero then None
                else map_option (\<lambda>signatures.
                    \<lparr>contact_length_mm = length_mm, contact_normalized_units = normalized_units,
                     contact_count = lit (of_nat (length signatures)), contact_signatures = signatures\<rparr>)
                  (derive_near_complete_structural_contact_signatures_grid hypot js first_edges second_edges
                     first_longest_edge_mm second_longest_edge_mm))))))"

subsection \<open>The axis-aligned overlap with its cancellation hook\<close>

text \<open>
  The state of a measurement: the flag \<open>aborted\<close> and the state of the caller's checkpoint.
  \<open>checked_poll\<close> polls the checkpoint, when there is one.
\<close>

definition checked_poll :: "('s \<Rightarrow> bool \<times> 's) option \<Rightarrow> bool \<times> 's \<Rightarrow> bool \<times> (bool \<times> 's)" where
  "checked_poll checkpoint st = (case checkpoint of
      None \<Rightarrow> (True, st)
    | Some callback \<Rightarrow> (let (go, s) = callback (snd st) in if go then (True, (fst st, s)) else (False, (True, s))))"

fun overlap_inner :: "('s \<Rightarrow> bool \<times> 's) option \<Rightarrow> grid_edge \<Rightarrow> grid_edge list \<Rightarrow> int \<Rightarrow> bool \<times> 's \<Rightarrow>
    (overlap_result + int) \<times> (bool \<times> 's)" where
  "overlap_inner checkpoint first_edge [] so_far st = (Inr so_far, st)"
| "overlap_inner checkpoint first_edge (second_edge # rest) so_far st =
    (let (go, st1) = checked_poll checkpoint st
     in if \<not> go then (Inl Aborted, st1)
        else case canonical_grid_collinear_overlap_axis_units first_edge second_edge of
            None \<Rightarrow> (Inl Undecidable, st1)
          | Some axis_units \<Rightarrow>
              if axis_units > 0 \<and> edge_dx first_edge \<noteq> 0 \<and> edge_dy first_edge \<noteq> 0 then (Inl Undecidable, st1)
              else overlap_inner checkpoint first_edge rest (so_far + axis_units) st1)"

fun overlap_outer :: "('s \<Rightarrow> bool \<times> 's) option \<Rightarrow> grid_edge list \<Rightarrow> grid_edge list \<Rightarrow> int \<Rightarrow> bool \<times> 's \<Rightarrow>
    overlap_result \<times> (bool \<times> 's)" where
  "overlap_outer checkpoint [] second_edges so_far st = (Measured so_far, st)"
| "overlap_outer checkpoint (first_edge # rest) second_edges so_far st =
    (let (go, st1) = checked_poll checkpoint st
     in if \<not> go then (Aborted, st1)
        else case overlap_inner checkpoint first_edge second_edges so_far st1 of
            (Inl r, st2) \<Rightarrow> (r, st2)
          | (Inr so_far1, st2) \<Rightarrow> overlap_outer checkpoint rest second_edges so_far1 st2)"

definition measure_canonical_grid_boundary_overlap_axis_units ::
    "grid_path \<Rightarrow> grid_path \<Rightarrow> ('s \<Rightarrow> bool \<times> 's) option \<Rightarrow> 's \<Rightarrow> overlap_result" where
  "measure_canonical_grid_boundary_overlap_axis_units first second checkpoint s0 =
    (case canonical_grid_path_edges first (Some (checked_poll checkpoint)) (False, s0) of
       (None, st) \<Rightarrow> if fst st then Aborted else Undecidable
     | (Some first_edges, st) \<Rightarrow>
         (case canonical_grid_path_edges second (Some (checked_poll checkpoint)) st of
            (None, st1) \<Rightarrow> if fst st1 then Aborted else Undecidable
          | (Some second_edges, st1) \<Rightarrow> fst (overlap_outer checkpoint first_edges second_edges 0 st1)))"

subsection \<open>Exact overlap\<close>

definition edge_ok_coords :: "grid_edge \<Rightarrow> bool" where
  "edge_ok_coords e \<longleftrightarrow> point_ok (edge_start e) \<and> point_ok (edge_end e) \<and> canonical_point (edge_start e) \<and>
    canonical_point (edge_end e) \<and> pt (edge_start e) \<noteq> pt (edge_end e)"

lemma grid_coordinate_int: "is_int_val v i \<Longrightarrow> grid_coordinate_to_bigint v = i"
  by (simp add: grid_coordinate_to_bigint_def is_int_val_def)

lemma grid_coordinate_pt:
  assumes "point_ok p" "canonical_point p"
  shows "grid_coordinate_to_bigint (gx p) = fst (pt p)" "grid_coordinate_to_bigint (gy p) = snd (pt p)"
  using canonical_point_vals [OF assms] by (auto intro: grid_coordinate_int)

definition axis :: "bool \<Rightarrow> ipoint \<Rightarrow> int" where
  "axis use_x p = (if use_x then fst p else snd p)"

definition major :: "ipoint \<Rightarrow> ipoint \<Rightarrow> bool" where
  "major p q \<longleftrightarrow> \<bar>snd q - snd p\<bar> \<le> \<bar>fst q - fst p\<bar>"

definition overlap_of :: "ipoint \<Rightarrow> ipoint \<Rightarrow> ipoint \<Rightarrow> ipoint \<Rightarrow> int" where
  "overlap_of p q r s =
    (if icross p q r = 0 \<and> icross p q s = 0 then
       max 0 (min (max (axis (major p q) p) (axis (major p q) q)) (max (axis (major p q) r) (axis (major p q) s)) -
         max (min (axis (major p q) p) (axis (major p q) q)) (min (axis (major p q) r) (axis (major p q) s)))
     else 0)"

lemma bigint_ops:
  "absolute_bigint v = \<bar>v\<bar>" "minimum_bigint a b = min a b" "maximum_bigint a b = max a b"
  by (auto simp: absolute_bigint_def minimum_bigint_def maximum_bigint_def)

lemma axis_units_eq:
  assumes "edge_ok_coords e" "edge_ok_coords f"
  shows "canonical_grid_collinear_overlap_axis_units e f =
    Some (overlap_of (pt (edge_start e)) (pt (edge_end e)) (pt (edge_start f)) (pt (edge_end f)))"
proof -
  note ok = assms [unfolded edge_ok_coords_def]
  have x: "axis_of u p = axis u (pt p)" if "point_ok p" "canonical_point p" for u p
    using grid_coordinate_pt [OF that] by (simp add: axis_of_def axis_def)
  have m: "absolute_bigint (edge_dy e) \<le> absolute_bigint (edge_dx e) \<longleftrightarrow> major (pt (edge_start e)) (pt (edge_end e))"
    using ok grid_coordinate_pt by (simp add: bigint_ops edge_dx_def edge_dy_def major_def)
  have xs: "axis_of u (edge_start e) = axis u (pt (edge_start e))" "axis_of u (edge_end e) = axis u (pt (edge_end e))"
    "axis_of u (edge_start f) = axis u (pt (edge_start f))" "axis_of u (edge_end f) = axis u (pt (edge_end f))" for u
    using ok x by blast+
  have c: "canonical_grid_cross_sign (edge_start e) (edge_end e) (edge_start f) =
      Some (sgn (icross (pt (edge_start e)) (pt (edge_end e)) (pt (edge_start f))))"
    "canonical_grid_cross_sign (edge_start e) (edge_end e) (edge_end f) =
      Some (sgn (icross (pt (edge_start e)) (pt (edge_end e)) (pt (edge_end f))))"
    using ok by (simp_all add: cross_sign_eq canonical_grid_cross_eq)
  have mx: "(if 0 < n then n else 0) = max 0 n" for n :: int by simp
  show ?thesis
    unfolding canonical_grid_collinear_overlap_axis_units_def c option.case m xs Let_def bigint_ops(2,3) mx overlap_of_def
    by (auto simp: sgn_0_0)
qed

text \<open>A grid point on a segment.\<close>

definition on_segment :: "ipoint \<Rightarrow> ipoint \<Rightarrow> ipoint \<Rightarrow> bool" where
  "on_segment p q z \<longleftrightarrow> icross p q z = 0 \<and>
    min (fst p) (fst q) \<le> fst z \<and> fst z \<le> max (fst p) (fst q) \<and>
    min (snd p) (snd q) \<le> snd z \<and> snd z \<le> max (snd p) (snd q)"

lemma parallel_trans:
  assumes "vcross u v = 0" "vcross v w = 0" "v \<noteq> (0, 0)"
  shows "vcross u w = 0"
proof -
  have a: "fst v * vcross u w = fst w * vcross u v + fst u * vcross v w"
    "snd v * vcross u w = snd w * vcross u v + snd u * vcross v w"
    by (simp_all add: vcross_def algebra_simps)
  have "fst v \<noteq> 0 \<or> snd v \<noteq> 0" using assms(3) by (cases v) auto
  then show ?thesis using a assms(1,2) by auto
qed

lemma vsub_zero: "vsub q p = (0, 0) \<longleftrightarrow> p = q"
  by (cases p; cases q) (auto simp: vsub_def)

lemma vcross_swap: "vcross v u = - vcross u v"
  by (simp add: vcross_def)

lemma vcross_sub: "vcross u (vsub b a) = vcross u (vsub b c) - vcross u (vsub a c)"
  by (simp add: vcross_def vsub_def algebra_simps)

text \<open>Two lines with two common points are one line.\<close>

lemma common_line:
  assumes "icross p q x = 0" "icross p q y = 0" "icross r s x = 0" "icross r s y = 0" "x \<noteq> y" "r \<noteq> s"
  shows "icross p q r = 0" "icross p q s = 0"
proof -
  let ?d = "vsub q p" and ?e = "vsub s r" and ?c = "vsub y x"
  have dc: "vcross ?d ?c = 0" using assms(1,2) vcross_sub [of ?d y x p] by (simp add: icross_vcross)
  have ec: "vcross ?e ?c = 0" using assms(3,4) vcross_sub [of ?e y x r] by (simp add: icross_vcross)
  then have "vcross ?c ?e = 0" using vcross_swap [of ?c ?e] by simp
  moreover have "?c \<noteq> (0, 0)" using assms(5) by (simp add: vsub_zero)
  ultimately have de: "vcross ?d ?e = 0" using parallel_trans dc by blast
  have "vcross ?e (vsub x r) = 0" using assms(3) by (simp add: icross_vcross)
  then have "vcross ?d (vsub x r) = 0" using parallel_trans [OF de] assms(6) by (simp add: vsub_zero)
  then show r: "icross p q r = 0"
    using assms(1) vcross_sub [of ?d x r p] by (simp add: icross_vcross)
  then show "icross p q s = 0" using de vcross_sub [of ?d s r p] by (simp add: icross_vcross)
qed

lemma axis_major_neq: "p \<noteq> q \<Longrightarrow> axis (major p q) p \<noteq> axis (major p q) q"
  by (cases p; cases q) (auto simp: axis_def major_def)

text \<open>On a line, the position along the longer axis decides betweenness.\<close>

lemma between_scaled:
  fixes a b c d :: int
  assumes "d * b = c * a" "0 < d" "0 \<le> a" "a \<le> d"
  shows "min 0 c \<le> b \<and> b \<le> max 0 c"
proof (cases "0 \<le> c")
  case True
  have "0 \<le> d * b" using assms True by simp
  moreover have "d * b \<le> d * c" using mult_left_mono [OF assms(4) True] unfolding assms(1) by (simp only: mult.commute [of d c])
  ultimately show ?thesis using assms(2) True by (simp add: zero_le_mult_iff)
next
  case False
  then have "c * a \<le> 0" using assms(3) by (simp add: mult_le_0_iff)
  moreover have "c * d \<le> c * a" using False assms(4) by (simp add: mult_left_mono_neg)
  ultimately have "d * b \<le> 0" "d * c \<le> d * b" using assms(1) by (simp_all add: mult.commute)
  then show ?thesis using assms(2) False by (simp add: mult_le_0_iff)
qed

lemma on_segment_axis:
  assumes "p \<noteq> q"
  shows "on_segment p q z \<longleftrightarrow> icross p q z = 0 \<and>
    min (axis (major p q) p) (axis (major p q) q) \<le> axis (major p q) z \<and>
    axis (major p q) z \<le> max (axis (major p q) p) (axis (major p q) q)"
proof -
  have sw: "icross p q z = 0 \<Longrightarrow> icross q p z = 0" for p q z
    by (simp add: icross_def algebra_simps)
  have key: "min (snd p) (snd q) \<le> snd z \<and> snd z \<le> max (snd p) (snd q)"
    if "icross p q z = 0" "fst p < fst q" "fst p \<le> fst z" "fst z \<le> fst q" for p q z :: ipoint
    using between_scaled [of "fst q - fst p" "snd z - snd p" "snd q - snd p" "fst z - fst p"] that
    by (auto simp: icross_def)
  have keyx: "min (snd p) (snd q) \<le> snd z \<and> snd z \<le> max (snd p) (snd q)"
    if "icross p q z = 0" "fst p \<noteq> fst q" "min (fst p) (fst q) \<le> fst z" "fst z \<le> max (fst p) (fst q)" for p q z :: ipoint
    using key [of p q z] key [of q p z] sw [of p q z] that by (cases "fst p < fst q") (auto simp: min_def max_def split: if_splits)
  have flip: "icross (prod.swap p) (prod.swap q) (prod.swap z) = - icross p q z" for p q z
    by (simp add: icross_def)
  have keyy: "min (fst p) (fst q) \<le> fst z \<and> fst z \<le> max (fst p) (fst q)"
    if "icross p q z = 0" "snd p \<noteq> snd q" "min (snd p) (snd q) \<le> snd z" "snd z \<le> max (snd p) (snd q)"
    using keyx [of "prod.swap p" "prod.swap q" "prod.swap z"] that flip [of p q z] by simp
  have n: "major p q \<Longrightarrow> fst p \<noteq> fst q" "\<not> major p q \<Longrightarrow> snd p \<noteq> snd q"
    using axis_major_neq [OF assms] by (auto simp: axis_def)
  show ?thesis
  proof (cases "major p q")
    case True
    then show ?thesis using keyx [of p q z] n by (auto simp: on_segment_def axis_def)
  next
    case False
    then show ?thesis using keyy n by (auto simp: on_segment_def axis_def)
  qed
qed

lemma major_parallel:
  assumes "p \<noteq> q" "r \<noteq> s" "vcross (vsub q p) (vsub s r) = 0"
  shows "major r s \<longleftrightarrow> major p q"
proof -
  have le: "\<bar>snd v\<bar> \<le> \<bar>fst v\<bar>" if "vcross u v = 0" "u \<noteq> (0, 0)" "\<bar>snd u\<bar> \<le> \<bar>fst u\<bar>" for u v
  proof -
    have u: "0 < \<bar>fst u\<bar>" using that(2,3) by (cases u) auto
    have "fst u * snd v = snd u * fst v" using that(1) by (simp add: vcross_def)
    then have "\<bar>fst u\<bar> * \<bar>snd v\<bar> = \<bar>snd u\<bar> * \<bar>fst v\<bar>" by (simp flip: abs_mult)
    also have "\<dots> \<le> \<bar>fst u\<bar> * \<bar>fst v\<bar>" using that(3) by (rule mult_right_mono) simp
    finally show ?thesis using u by simp
  qed
  have n: "vsub q p \<noteq> (0, 0)" "vsub s r \<noteq> (0, 0)" using assms(1,2) by (simp_all add: vsub_zero)
  have m: "major a b \<longleftrightarrow> \<bar>snd (vsub b a)\<bar> \<le> \<bar>fst (vsub b a)\<bar>" for a b by (simp add: major_def vsub_def)
  show ?thesis
    unfolding m using le [OF assms(3) n(1)] le [of "vsub s r" "vsub q p"] n assms(3) vcross_swap [of "vsub s r" "vsub q p"] by auto
qed

text \<open>Edges on one line.\<close>

definition collinear :: "ipoint \<Rightarrow> ipoint \<Rightarrow> ipoint \<Rightarrow> ipoint \<Rightarrow> bool" where
  "collinear p q r s \<longleftrightarrow> icross p q r = 0 \<and> icross p q s = 0"

lemma collinear_sym: "p \<noteq> q \<Longrightarrow> r \<noteq> s \<Longrightarrow> collinear p q r s \<Longrightarrow> collinear r s p q"
  unfolding collinear_def using common_line [OF icross_same(1) icross_same(2), of p q r s] by blast

lemma collinear_vcross: "collinear p q r s \<Longrightarrow> vcross (vsub q p) (vsub s r) = 0"
  using vcross_sub [of "vsub q p" s r p] by (simp add: collinear_def icross_vcross)

lemma collinear_point:
  assumes "p \<noteq> q" "collinear p q r s" "icross p q z = 0"
  shows "icross r s z = 0"
proof -
  let ?d = "vsub q p" and ?e = "vsub s r"
  have ed: "vcross ?e ?d = 0" using collinear_vcross [OF assms(2)] vcross_swap [of ?e ?d] by simp
  have d: "?d \<noteq> (0, 0)" using assms(1) by (simp add: vsub_zero)
  have "vcross ?e (vsub z p) = 0" "vcross ?e (vsub r p) = 0"
    using parallel_trans [OF ed _ d] assms(2,3) by (auto simp: icross_vcross collinear_def)
  then show ?thesis using vcross_sub [of ?e z r p] by (simp add: icross_vcross)
qed

lemma collinear_facts:
  assumes "p \<noteq> q" "r \<noteq> s" "collinear p q r s"
  shows "major r s = major p q" "collinear r s p q" "icross r s z = 0 \<longleftrightarrow> icross p q z = 0"
  using major_parallel [OF assms(1,2) collinear_vcross [OF assms(3)]] collinear_sym [OF assms]
    collinear_point [OF assms(1,3)] collinear_point [OF assms(2) collinear_sym [OF assms]] by blast+

lemma overlap_of_sym:
  assumes "p \<noteq> q" "r \<noteq> s"
  shows "overlap_of r s p q = overlap_of p q r s"
proof (cases "collinear p q r s")
  case True
  note f = collinear_facts [OF assms True]
  have "icross p q r = 0 \<and> icross p q s = 0" "icross r s p = 0 \<and> icross r s q = 0"
    using True f(2) by (simp_all add: collinear_def)
  note c = this
  have swap: "max 0 (min A B - max C D) = max 0 (min B A - max D C)" for A B C D :: int
    by (simp only: min.commute [of A B] max.commute [of C D])
  show ?thesis unfolding overlap_of_def if_P [OF c(1)] if_P [OF c(2)] f(1) by (rule swap)
next
  case False
  then have "\<not> collinear r s p q" using collinear_sym assms by blast
  with False show ?thesis by (auto simp: overlap_of_def collinear_def)
qed

lemma within_interval: "(l :: int) \<le> a \<Longrightarrow> a \<le> h \<Longrightarrow> l \<le> b \<Longrightarrow> b \<le> h \<Longrightarrow> \<bar>a - b\<bar> \<le> max 0 (h - l)"
  by linarith

lemma max_positive: "(0 :: int) < max 0 (h - l) \<Longrightarrow> max 0 (h - l) = h - l \<and> l < h"
  by linarith

lemma bounds_attained:
  "\<exists>z \<in> {p, q, r, s}. (f z :: int) = max (min (f p) (f q)) (min (f r) (f s))"
  "\<exists>z \<in> {p, q, r, s}. (f z :: int) = min (max (f p) (f q)) (max (f r) (f s))"
  by (auto simp: min_def max_def)

lemma overlap_of_bound:
  assumes "p \<noteq> q" "r \<noteq> s" and "on_segment p q x" "on_segment p q y" "on_segment r s x" "on_segment r s y"
  shows "\<bar>axis (major p q) x - axis (major p q) y\<bar> \<le> overlap_of p q r s"
proof (cases "x = y")
  case False
  then have "collinear p q r s"
    using common_line [OF _ _ _ _ False assms(2), of p q] assms(3-6) unfolding collinear_def on_segment_def by blast
  then have c: "icross p q r = 0 \<and> icross p q s = 0" "major r s = major p q"
    using collinear_facts(1) [OF assms(1,2)] by (auto simp: collinear_def)
  note on = assms(3-6) [unfolded on_segment_axis [OF assms(1)] on_segment_axis [OF assms(2)] c(2)]
  show ?thesis unfolding overlap_of_def if_P [OF c(1)]
    by (rule within_interval) (use on in \<open>simp_all only: max.bounded_iff min.bounded_iff simp_thms\<close>)
qed (simp add: overlap_of_def)

lemma overlap_of_attained:
  assumes "p \<noteq> q" "r \<noteq> s" and "0 < overlap_of p q r s"
  obtains x y where "on_segment p q x" "on_segment p q y" "on_segment r s x" "on_segment r s y"
    "axis (major p q) y - axis (major p q) x = overlap_of p q r s"
proof -
  let ?a = "axis (major p q)"
  have c: "collinear p q r s" using assms(3) by (auto simp: overlap_of_def collinear_def split: if_splits)
  note f = collinear_facts [OF assms(1,2) c]
  let ?lo = "max (min (?a p) (?a q)) (min (?a r) (?a s))" and ?hi = "min (max (?a p) (?a q)) (max (?a r) (?a s))"
  have "overlap_of p q r s = max 0 (?hi - ?lo)" unfolding overlap_of_def if_P [OF c [unfolded collinear_def]] ..
  then have o: "overlap_of p q r s = ?hi - ?lo" "?lo < ?hi"
    using max_positive [of ?hi ?lo] assms(3) by (simp_all only: simp_thms)
  have on: "on_segment p q z \<and> on_segment r s z" if "icross p q z = 0" "?lo \<le> ?a z" "?a z \<le> ?hi" for z
    using that unfolding on_segment_axis [OF assms(1)] on_segment_axis [OF assms(2)] f(1) f(3)
    by (simp only: max.bounded_iff min.bounded_iff simp_thms)
  have ends: "\<forall>z \<in> {p, q, r, s}. icross p q z = 0" using c by (simp add: collinear_def)
  from bounds_attained(1) [of p q r s ?a]
  obtain x where x: "icross p q x = 0" "?a x = ?lo" using ends by blast
  from bounds_attained(2) [of p q r s ?a]
  obtain y where y: "icross p q y = 0" "?a y = ?hi" using ends by blast
  show ?thesis
    using that [of x y] on [OF x(1)] on [OF y(1)] o unfolding x(2) y(2) by (simp only: order.refl less_imp_le simp_thms)
qed

text \<open>
  C34. The overlap of two edges is exact: for edges between distinct grid points with safe integer
  coordinates it is the greatest distance, along the longer axis of the first edge, between two grid
  points that lie on both edges, and 0 when they share at most one; and it does not depend on the
  order of the edges.
\<close>

theorem contact_overlap_exact:
  assumes "edge_ok_coords e" "edge_ok_coords f"
  shows "\<exists>n. canonical_grid_collinear_overlap_axis_units e f = Some n \<and>
    canonical_grid_collinear_overlap_axis_units f e = Some n \<and>
    (let a = axis (major (pt (edge_start e)) (pt (edge_end e)));
         shared = (\<lambda>z. on_segment (pt (edge_start e)) (pt (edge_end e)) z \<and> on_segment (pt (edge_start f)) (pt (edge_end f)) z)
     in (\<forall>x y. shared x \<and> shared y \<longrightarrow> \<bar>a x - a y\<bar> \<le> n) \<and>
        (0 < n \<longrightarrow> (\<exists>x y. shared x \<and> shared y \<and> a y - a x = n)) \<and> 0 \<le> n)"
proof -
  let ?p = "pt (edge_start e)" and ?q = "pt (edge_end e)" and ?r = "pt (edge_start f)" and ?s = "pt (edge_end f)"
  let ?n = "overlap_of ?p ?q ?r ?s"
  have d: "?p \<noteq> ?q" "?r \<noteq> ?s" using assms by (simp_all add: edge_ok_coords_def)
  show ?thesis
    unfolding Let_def
  proof (intro exI [of _ ?n] conjI allI impI)
    show "canonical_grid_collinear_overlap_axis_units e f = Some ?n" by (rule axis_units_eq [OF assms])
    show "canonical_grid_collinear_overlap_axis_units f e = Some ?n"
      unfolding axis_units_eq [OF assms(2,1)] overlap_of_sym [OF d] ..
    show "\<bar>axis (major ?p ?q) x - axis (major ?p ?q) y\<bar> \<le> ?n"
      if "(on_segment ?p ?q x \<and> on_segment ?r ?s x) \<and> on_segment ?p ?q y \<and> on_segment ?r ?s y" for x y
      using that overlap_of_bound [OF d, of x y] by blast
    show "\<exists>x y. (on_segment ?p ?q x \<and> on_segment ?r ?s x) \<and> (on_segment ?p ?q y \<and> on_segment ?r ?s y) \<and>
      axis (major ?p ?q) y - axis (major ?p ?q) x = ?n" if "0 < ?n"
      using overlap_of_attained [OF d that] by (metis (no_types))
    show "0 \<le> ?n" by (simp add: overlap_of_def)
  qed
qed

subsection \<open>The cancellation hook\<close>

text \<open>
  A polled computation ends with the unpolled answer, or aborted with the flag set, and then the
  checkpoint can refuse.
\<close>

definition refuses :: "('s \<Rightarrow> bool \<times> 's) option \<Rightarrow> bool" where
  "refuses cp \<longleftrightarrow> (\<exists>f s. cp = Some f \<and> \<not> fst (f s))"

definition polled_as :: "bool \<Rightarrow> 'r \<Rightarrow> 'r \<Rightarrow> 'r \<times> (bool \<times> 's) \<Rightarrow> bool" where
  "polled_as may abort r res \<longleftrightarrow> fst res = r \<and> \<not> fst (snd res) \<or> fst res = abort \<and> fst (snd res) \<and> may"

lemma polled_as_intros [intro!]: "polled_as may abort r (r, (False, s))" "may \<Longrightarrow> polled_as may abort r (abort, (True, s))"
  by (simp_all add: polled_as_def)

lemma polled_asE:
  assumes "polled_as may abort r res"
  obtains s where "res = (r, (False, s))" | s where "res = (abort, (True, s))" "may"
  using assms by (cases res; cases "snd res") (auto simp: polled_as_def)

lemma checked_poll_None [simp]: "checked_poll None st = (True, st)"
  by (simp add: checked_poll_def)

lemma checked_pollE:
  obtains s' where "checked_poll cp (False, s) = (True, (False, s'))"
  | s' where "checked_poll cp (False, s) = (False, (True, s'))" "refuses cp"
proof (cases cp)
  case None
  then show ?thesis using that(1) by simp
next
  case (Some f)
  obtain go s' where f: "f s = (go, s')" by (cases "f s")
  show ?thesis
  proof (cases go)
    case True
    then show ?thesis using that(1) [of s'] by (simp add: checked_poll_def Some f)
  next
    case False
    then have "refuses cp" using Some f unfolding refuses_def by (metis fst_conv)
    then show ?thesis using that(2) [of s'] False by (simp add: checked_poll_def Some f)
  qed
qed

lemma path_edges_polled:
  "polled_as (refuses cp) None (fst (path_edges_loop path None ns es ())) (path_edges_loop path (Some (checked_poll cp)) ns es (False, s))"
proof (induction ns arbitrary: es s)
  case Nil
  show ?case by auto
next
  case (Cons n ns)
  show ?case
  proof (cases rule: checked_pollE [of cp s])
    case (1 s')
    then show ?thesis using Cons.IH [of _ s'] by (auto simp: Let_def)
  next
    case (2 s')
    then show ?thesis by (auto simp: Let_def)
  qed
qed

lemma canonical_edges_polled:
  "polled_as (refuses cp) None (path_edges path) (canonical_grid_path_edges path (Some (checked_poll cp)) (False, s))"
  using path_edges_polled [of cp path "[0..<length path]" "[]" s]
  by (auto simp: canonical_grid_path_edges_def path_edges_def)

lemma overlap_inner_steps:
  "checked_poll cp st = (False, st1) \<Longrightarrow> overlap_inner cp e (f # fs) t st = (Inl Aborted, st1)"
  "checked_poll cp st = (True, st1) \<Longrightarrow> overlap_inner cp e (f # fs) t st =
    (case canonical_grid_collinear_overlap_axis_units e f of
       None \<Rightarrow> (Inl Undecidable, st1)
     | Some n \<Rightarrow> if n > 0 \<and> edge_dx e \<noteq> 0 \<and> edge_dy e \<noteq> 0 then (Inl Undecidable, st1) else overlap_inner cp e fs (t + n) st1)"
  by simp_all

lemma overlap_outer_steps:
  "checked_poll cp st = (False, st1) \<Longrightarrow> overlap_outer cp (e # es) fs t st = (Aborted, st1)"
  "checked_poll cp st = (True, st1) \<Longrightarrow> overlap_outer cp (e # es) fs t st =
    (case overlap_inner cp e fs t st1 of (Inl r, st2) \<Rightarrow> (r, st2) | (Inr t1, st2) \<Rightarrow> overlap_outer cp es fs t1 st2)"
  by simp_all

definition inner_result :: "grid_edge \<Rightarrow> grid_edge list \<Rightarrow> int \<Rightarrow> overlap_result + int" where
  "inner_result e fs t = fst (overlap_inner None e fs t (False, ()))"

definition outer_result :: "grid_edge list \<Rightarrow> grid_edge list \<Rightarrow> int \<Rightarrow> overlap_result" where
  "outer_result es fs t = fst (overlap_outer None es fs t (False, ()))"

lemma overlap_inner_unpolled: "overlap_inner None e fs t st = (inner_result e fs t, st)"
proof -
  have "overlap_inner None e fs t st = (fst (overlap_inner None e fs t st'), st)" for st' :: "bool \<times> unit" and st :: "bool \<times> 's"
    by (induction fs arbitrary: t) (simp_all split: option.split)
  then show ?thesis unfolding inner_result_def .
qed

lemma inner_result_simps:
  "inner_result e [] t = Inr t"
  "inner_result e (f # fs) t = (case canonical_grid_collinear_overlap_axis_units e f of
       None \<Rightarrow> Inl Undecidable
     | Some n \<Rightarrow> if n > 0 \<and> edge_dx e \<noteq> 0 \<and> edge_dy e \<noteq> 0 then Inl Undecidable else inner_result e fs (t + n))"
  by (simp_all add: inner_result_def split: option.split)

lemma outer_result_simps:
  "outer_result [] fs t = Measured t"
  "outer_result (e # es) fs t = (case inner_result e fs t of Inl r \<Rightarrow> r | Inr t1 \<Rightarrow> outer_result es fs t1)"
  by (simp_all add: outer_result_def overlap_inner_unpolled split: sum.split)

lemma overlap_inner_polled: "polled_as (refuses cp) (Inl Aborted) (inner_result e fs t) (overlap_inner cp e fs t (False, s))"
proof (induction fs arbitrary: t s)
  case Nil
  show ?case by (auto simp: inner_result_simps)
next
  case (Cons f fs)
  show ?case
  proof (cases rule: checked_pollE [of cp s])
    case (1 s')
    show ?thesis
      unfolding overlap_inner_steps(2) [OF 1] inner_result_simps using Cons.IH [of _ s'] by (auto split: option.split)
  next
    case (2 s')
    show ?thesis unfolding overlap_inner_steps(1) [OF 2(1)] using 2(2) by auto
  qed
qed

lemma overlap_outer_polled: "polled_as (refuses cp) Aborted (outer_result es fs t) (overlap_outer cp es fs t (False, s))"
proof (induction es arbitrary: t s)
  case Nil
  show ?case by (auto simp: outer_result_simps)
next
  case (Cons e es)
  show ?case
  proof (cases rule: checked_pollE [of cp s])
    case (1 s')
    from overlap_inner_polled [of cp e fs t s'] show ?thesis
      unfolding overlap_outer_steps(2) [OF 1] outer_result_simps
    proof (cases rule: polled_asE)
      case (1 s1)
      show "polled_as (refuses cp) Aborted (case inner_result e fs t of Inl r \<Rightarrow> r | Inr t1 \<Rightarrow> outer_result es fs t1)
        (case overlap_inner cp e fs t (False, s') of (Inl r, st2) \<Rightarrow> (r, st2) | (Inr t1, st2) \<Rightarrow> overlap_outer cp es fs t1 st2)"
        unfolding 1 using Cons.IH [of _ s1] by (auto split: sum.split)
    next
      case (2 s1)
      show "polled_as (refuses cp) Aborted (case inner_result e fs t of Inl r \<Rightarrow> r | Inr t1 \<Rightarrow> outer_result es fs t1)
        (case overlap_inner cp e fs t (False, s') of (Inl r, st2) \<Rightarrow> (r, st2) | (Inr t1, st2) \<Rightarrow> overlap_outer cp es fs t1 st2)"
        unfolding 2(1) using 2(2) by auto
    qed
  next
    case (2 s')
    show ?thesis unfolding overlap_outer_steps(1) [OF 2(1)] using 2(2) by auto
  qed
qed

definition measured :: "grid_path \<Rightarrow> grid_path \<Rightarrow> overlap_result" where
  "measured first second = (case (path_edges first, path_edges second) of
      (Some es, Some fs) \<Rightarrow> outer_result es fs 0 | _ \<Rightarrow> Undecidable)"

lemma measure_polled:
  "measure_canonical_grid_boundary_overlap_axis_units first second cp s = measured first second \<or>
    measure_canonical_grid_boundary_overlap_axis_units first second cp s = Aborted \<and> refuses cp"
proof (cases rule: polled_asE [OF canonical_edges_polled [of cp first s]])
  case (1 s1)
  note first = 1
  show ?thesis
  proof (cases "path_edges first")
    case None
    then show ?thesis by (simp add: measure_canonical_grid_boundary_overlap_axis_units_def first measured_def)
  next
    case (Some es)
    show ?thesis
    proof (cases rule: polled_asE [OF canonical_edges_polled [of cp second s1]])
      case (1 s2)
      show ?thesis
        using overlap_outer_polled [of cp es _ 0 s2]
        by (cases "path_edges second") (auto simp: measure_canonical_grid_boundary_overlap_axis_units_def first Some 1 measured_def polled_as_def)
    next
      case (2 s2)
      show ?thesis by (simp add: measure_canonical_grid_boundary_overlap_axis_units_def first Some 2)
    qed
  qed
next
  case (2 s1)
  then show ?thesis by (simp add: measure_canonical_grid_boundary_overlap_axis_units_def)
qed

subsection \<open>Symmetry\<close>

definition ov :: "grid_edge \<Rightarrow> grid_edge \<Rightarrow> int" where
  "ov e f = overlap_of (pt (edge_start e)) (pt (edge_end e)) (pt (edge_start f)) (pt (edge_end f))"

definition skew :: "grid_edge \<Rightarrow> bool" where
  "skew e \<longleftrightarrow> edge_dx e \<noteq> 0 \<and> edge_dy e \<noteq> 0"

lemma inner_result_eq:
  assumes "edge_ok_coords e" "\<forall>f \<in> set fs. edge_ok_coords f"
  shows "inner_result e fs t = (if \<exists>f \<in> set fs. 0 < ov e f \<and> skew e then Inl Undecidable else Inr (t + (\<Sum>f \<leftarrow> fs. ov e f)))"
  using assms(2)
  by (induction fs arbitrary: t) (auto simp: inner_result_simps axis_units_eq assms(1) ov_def skew_def)

lemma outer_result_eq:
  assumes "\<forall>e \<in> set es. edge_ok_coords e" "\<forall>f \<in> set fs. edge_ok_coords f"
  shows "outer_result es fs t = (if \<exists>e \<in> set es. \<exists>f \<in> set fs. 0 < ov e f \<and> skew e then Undecidable
    else Measured (t + (\<Sum>e \<leftarrow> es. \<Sum>f \<leftarrow> fs. ov e f)))"
  using assms(1)
proof (induction es arbitrary: t)
  case (Cons e es)
  have e: "edge_ok_coords e" "\<forall>x \<in> set es. edge_ok_coords x" using Cons.prems by simp_all
  show ?case
    unfolding outer_result_simps inner_result_eq [OF e(1) assms(2)] using Cons.IH [OF e(2)] by (simp add: add.assoc)
qed (simp add: outer_result_simps)

lemma skew_parallel:
  assumes "edge_ok_coords e" "edge_ok_coords f" "0 < ov e f"
  shows "skew e \<longleftrightarrow> skew f"
proof -
  let ?p = "pt (edge_start e)" and ?q = "pt (edge_end e)" and ?r = "pt (edge_start f)" and ?s = "pt (edge_end f)"
  have "collinear ?p ?q ?r ?s" using assms(3) by (auto simp: ov_def overlap_of_def collinear_def split: if_splits)
  then have v: "vcross (vsub ?q ?p) (vsub ?s ?r) = 0" by (rule collinear_vcross)
  have d: "?p \<noteq> ?q" "?r \<noteq> ?s" using assms(1,2) by (simp_all add: edge_ok_coords_def)
  have k: "skew x \<longleftrightarrow> fst (vsub (pt (edge_end x)) (pt (edge_start x))) \<noteq> 0 \<and> snd (vsub (pt (edge_end x)) (pt (edge_start x))) \<noteq> 0"
    if "edge_ok_coords x" for x
    using that grid_coordinate_pt by (simp add: skew_def edge_dx_def edge_dy_def vsub_def edge_ok_coords_def)
  have par: "snd v \<noteq> 0 \<and> fst v \<noteq> 0"
    if "vcross u v = 0" "fst u \<noteq> 0" "snd u \<noteq> 0" "v \<noteq> (0, 0)" for u v
  proof -
    have "fst u * snd v = snd u * fst v" using that(1) by (simp add: vcross_def)
    then show ?thesis using that(2-4) by (cases v) auto
  qed
  show ?thesis
    unfolding k [OF assms(1)] k [OF assms(2)]
    using par [OF v] par [of "vsub ?s ?r" "vsub ?q ?p"] v vcross_swap [of "vsub ?s ?r" "vsub ?q ?p"] d
    by (auto simp: vsub_zero)
qed

lemma ov_sym: "edge_ok_coords e \<Longrightarrow> edge_ok_coords f \<Longrightarrow> ov f e = ov e f"
  unfolding ov_def by (rule overlap_of_sym) (simp_all add: edge_ok_coords_def)

lemma sum_list_swap: "(\<Sum>x \<leftarrow> xs. \<Sum>y \<leftarrow> ys. (g x y :: int)) = (\<Sum>y \<leftarrow> ys. \<Sum>x \<leftarrow> xs. g x y)"
  by (induction xs) (simp_all add: sum_list_addf)

lemma outer_result_sym:
  assumes "\<forall>e \<in> set es. edge_ok_coords e" "\<forall>f \<in> set fs. edge_ok_coords f"
  shows "outer_result fs es 0 = outer_result es fs 0"
proof -
  have "(\<exists>f \<in> set fs. \<exists>e \<in> set es. 0 < ov f e \<and> skew f) \<longleftrightarrow> (\<exists>e \<in> set es. \<exists>f \<in> set fs. 0 < ov e f \<and> skew e)"
    using assms ov_sym skew_parallel by metis
  moreover have "(\<Sum>f \<leftarrow> fs. \<Sum>e \<leftarrow> es. ov f e) = (\<Sum>f \<leftarrow> fs. \<Sum>e \<leftarrow> es. ov e f)"
    using assms by (intro arg_cong [of _ _ sum_list] map_cong refl) (auto simp: ov_sym)
  ultimately show ?thesis
    unfolding outer_result_eq [OF assms] outer_result_eq [OF assms(2,1)] using sum_list_swap [of ov fs es] by simp
qed

lemma path_edges_loop_ok:
  assumes "path_edges_loop path None ns es0 st = (Some es, st')"
    and "\<forall>p \<in> set path. point_ok p" "\<forall>n \<in> set ns. n < length path" "\<forall>e \<in> set es0. edge_ok_coords e"
  shows "\<forall>e \<in> set es. edge_ok_coords e"
  using assms(1,3,4)
proof (induction ns arbitrary: es0)
  case (Cons n ns)
  let ?s = "path ! n" and ?e = "path ! ((n + 1) mod length path)"
  have len: "n < length path" "(n + 1) mod length path < length path"
    using Cons.prems(2) by (auto intro: mod_less_divisor)
  then have p: "point_ok ?s" "point_ok ?e" using assms(2) by simp_all
  have r: "\<not> edge_refused ?s ?e"
    "path_edges_loop path None ns (es0 @ [\<lparr>edge_start = ?s, edge_end = ?e, start_index = n\<rparr>]) st = (Some es, st')"
    using Cons.prems(1) by (auto simp: Let_def split: if_splits)
  then have c: "canonical_point ?s" "canonical_point ?e"
    by (auto simp: edge_refused_def canonical_point_def is_canonical_grid_coordinate_def js_safe_integer_eq)
  have "pt ?s \<noteq> pt ?e"
    using r(1) is_int_val_cmp(1) [OF canonical_point_vals(1) [OF p(1) c(1)] canonical_point_vals(1) [OF p(2) c(2)]]
      is_int_val_cmp(1) [OF canonical_point_vals(2) [OF p(1) c(1)] canonical_point_vals(2) [OF p(2) c(2)]]
    by (auto simp: edge_refused_def)
  then have "edge_ok_coords \<lparr>edge_start = ?s, edge_end = ?e, start_index = n\<rparr>" using p c by (simp add: edge_ok_coords_def)
  with Cons.prems(3) have "\<forall>e \<in> set (es0 @ [\<lparr>edge_start = ?s, edge_end = ?e, start_index = n\<rparr>]). edge_ok_coords e"
    by (simp only: set_append list.set ball_Un ball_simps simp_thms)
  moreover have "\<forall>m \<in> set ns. m < length path" using Cons.prems(2) by simp
  ultimately show ?case by (intro Cons.IH [OF r(2)])
qed simp

lemma path_edges_ok:
  assumes "path_edges path = Some es" "\<forall>p \<in> set path. point_ok p"
  shows "\<forall>e \<in> set es. edge_ok_coords e"
proof -
  have "path_edges_loop path None [0..<length path] [] () = (Some es, ())"
    using assms(1) by (simp add: path_edges_def canonical_grid_path_edges_def prod_eq_iff split: if_splits)
  from path_edges_loop_ok [OF this assms(2)] show ?thesis by simp
qed

text \<open>
  The short-side overlap measurement is symmetric in its two paths, and its cancellation hook
  changes nothing else: with any checkpoint the answer is the one without, or \<open>Aborted\<close>, and \<open>Aborted\<close>
  only when the checkpoint can refuse; without a checkpoint it is never \<open>Aborted\<close>.
\<close>

theorem overlap_measure_cancellable:
  assumes "\<forall>p \<in> set first. point_ok p" "\<forall>p \<in> set second. point_ok p"
  shows "measure_canonical_grid_boundary_overlap_axis_units second first None () =
      measure_canonical_grid_boundary_overlap_axis_units first second None () \<and>
    measure_canonical_grid_boundary_overlap_axis_units first second None () \<noteq> Aborted \<and>
    (measure_canonical_grid_boundary_overlap_axis_units first second cp s =
        measure_canonical_grid_boundary_overlap_axis_units first second None () \<or>
     measure_canonical_grid_boundary_overlap_axis_units first second cp s = Aborted \<and> refuses cp)"
proof -
  have u: "measure_canonical_grid_boundary_overlap_axis_units p q None () = measured p q" for p q
    using measure_polled [of p q None "()"] by (simp add: refuses_def)
  have "measured second first = measured first second \<and> measured first second \<noteq> Aborted"
  proof (cases "path_edges first"; cases "path_edges second")
    fix es fs assume e: "path_edges first = Some es" "path_edges second = Some fs"
    have ok: "\<forall>e \<in> set es. edge_ok_coords e" "\<forall>e \<in> set fs. edge_ok_coords e"
      using path_edges_ok e assms by blast+
    have m: "measured second first = outer_result fs es 0" "measured first second = outer_result es fs 0"
      by (simp_all add: measured_def e)
    show ?thesis unfolding m outer_result_sym [OF ok] unfolding outer_result_eq [OF ok] by simp
  qed (simp_all add: measured_def)
  then show ?thesis unfolding u using measure_polled [of first second cp s] by blast
qed

definition int_edge :: "int \<Rightarrow> int \<Rightarrow> int \<Rightarrow> int \<Rightarrow> grid_edge" where
  "int_edge a b c d = \<lparr>edge_start = int_point a b, edge_end = int_point c d, start_index = 0\<rparr>"

lemma int_edge_ok: "edge_ok_coords (int_edge 0 0 4 0)" "edge_ok_coords (int_edge 8 0 2 0)"
  by (simp_all add: edge_ok_coords_def int_edge_def int_point_vals)

lemma contact_overlap_exact_witness:
  "\<exists>n. canonical_grid_collinear_overlap_axis_units (int_edge 0 0 4 0) (int_edge 8 0 2 0) = Some n \<and> 2 \<le> n"
proof -
  have "on_segment (0, 0) (4, 0) (2, 0)" "on_segment (0, 0) (4, 0) (4, 0)" "on_segment (8, 0) (2, 0) (2, 0)"
    "on_segment (8, 0) (2, 0) (4, 0)" by (simp_all add: on_segment_def icross_def)
  note on = this
  have v: "pt (edge_start (int_edge 0 0 4 0)) = (0, 0)" "pt (edge_end (int_edge 0 0 4 0)) = (4, 0)"
    "pt (edge_start (int_edge 8 0 2 0)) = (8, 0)" "pt (edge_end (int_edge 8 0 2 0)) = (2, 0)"
    by (simp_all add: int_edge_def int_point_vals)
  obtain n where n: "canonical_grid_collinear_overlap_axis_units (int_edge 0 0 4 0) (int_edge 8 0 2 0) = Some n"
    "\<And>x y. (on_segment (0, 0) (4, 0) x \<and> on_segment (8, 0) (2, 0) x) \<and> on_segment (0, 0) (4, 0) y \<and> on_segment (8, 0) (2, 0) y
      \<Longrightarrow> \<bar>axis (major (0, 0) (4, 0)) x - axis (major (0, 0) (4, 0)) y\<bar> \<le> n"
    using contact_overlap_exact [OF int_edge_ok] unfolding v Let_def by blast
  from n(2) [of "(2, 0)" "(4, 0)"] on have "2 \<le> n" by (simp add: axis_def major_def)
  with n(1) show ?thesis by blast
qed

lemma overlap_measure_cancellable_witness:
  "measure_canonical_grid_boundary_overlap_axis_units [int_point 0 0, int_point 2 0, int_point 0 2]
      [int_point 0 0, int_point 0 (- 2), int_point 2 0] (Some (\<lambda>s. (True, s))) () =
    measure_canonical_grid_boundary_overlap_axis_units [int_point 0 0, int_point 0 (- 2), int_point 2 0]
      [int_point 0 0, int_point 2 0, int_point 0 2] None ()"
proof -
  have "\<forall>p \<in> set [int_point 0 0, int_point 2 0, int_point 0 2]. point_ok p"
    "\<forall>p \<in> set [int_point 0 0, int_point 0 (- 2), int_point 2 0]. point_ok p" by simp_all
  from overlap_measure_cancellable [OF this, of "Some (\<lambda>s. (True, s))" "()"] show ?thesis
    by (simp add: refuses_def)
qed

end
