(* ===== verification/Control.thy ===== *)
theory Control
  imports Prelude
begin

text \<open>
  \<open>crates/polygon-nesting-core/src/control.rs\<close>: the cancellation control, one atomic byte
  that callers, signal handlers and the deadline check change by compare-exchange. Every
  operation touches the atomic once, so an execution of any number of threads is a sequence
  of operations; \<open>control_run\<close> runs one and records what each call returned.
\<close>

datatype cancel_reason = Cancelled | Deadline

type_synonym control = "8 word"

definition RUNNING :: control where "RUNNING = 0"
definition CANCELLED :: control where "CANCELLED = 1"
definition DEADLINE :: control where "DEADLINE = 2"
definition COMPLETED :: control where "COMPLETED = 3"

lemmas control_codes = RUNNING_def CANCELLED_def DEADLINE_def COMPLETED_def

text \<open>\<open>compare_exchange(expected, new).is_ok()\<close> with the cell's next value.\<close>

definition compare_exchange :: "'a \<Rightarrow> 'a \<Rightarrow> 'a \<Rightarrow> bool \<times> 'a" where
  "compare_exchange expected new current =
    (if current = expected then (True, new) else (False, current))"

definition control_new :: control where
  "control_new = RUNNING"

definition terminal_code :: "cancel_reason \<Rightarrow> control" where
  "terminal_code r = (case r of Cancelled \<Rightarrow> CANCELLED | Deadline \<Rightarrow> DEADLINE)"

definition cancel :: "cancel_reason \<Rightarrow> control \<Rightarrow> bool \<times> control" where
  "cancel r c = compare_exchange RUNNING (terminal_code r) c"

definition try_complete :: "control \<Rightarrow> bool \<times> control" where
  "try_complete c = compare_exchange RUNNING COMPLETED c"

text \<open>\<open>reason\<close> panics on a state that is none of the four: \<open>None\<close> stands for the panic.\<close>

definition reason :: "control \<Rightarrow> cancel_reason option option" where
  "reason c =
    (if c = RUNNING \<or> c = COMPLETED then Some None
     else if c = CANCELLED then Some (Some Cancelled)
     else if c = DEADLINE then Some (Some Deadline)
     else None)"

definition checkpoint :: "control \<Rightarrow> (cancel_reason + unit) option" where
  "checkpoint c = map_option (\<lambda>r. case r of None \<Rightarrow> Inr () | Some x \<Rightarrow> Inl x) (reason c)"

text \<open>The bridge into the NFP/IFP checkpoints (\<open>impl NfpIfpControl for CancellationControl\<close>).\<close>

datatype nfp_abort_reason = AbortDeadline | AbortCancelled

record nfp_abort_error =
  abort_reason :: nfp_abort_reason
  abort_message :: string

definition nfp_checkpoint :: "control \<Rightarrow> (nfp_abort_error + unit) option" where
  "nfp_checkpoint c = map_option (\<lambda>r. case r of
      Inr u \<Rightarrow> Inr u
    | Inl Cancelled \<Rightarrow> Inl \<lparr>abort_reason = AbortCancelled, abort_message = ''cancelled''\<rparr>
    | Inl Deadline \<Rightarrow> Inl \<lparr>abort_reason = AbortDeadline, abort_message = ''deadline exceeded''\<rparr>)
    (checkpoint c)"

subsection \<open>Executions\<close>

datatype control_op = Cancel cancel_reason | Try_complete

fun control_step :: "control_op \<Rightarrow> control \<Rightarrow> bool \<times> control" where
  "control_step (Cancel r) c = cancel r c"
| "control_step Try_complete c = try_complete c"

fun control_run :: "control \<Rightarrow> control_op list \<Rightarrow> bool list \<times> control" where
  "control_run c [] = ([], c)"
| "control_run c (x # xs) =
    (let (ok, c') = control_step x c; (oks, c'') = control_run c' xs in (ok # oks, c''))"

fun op_code :: "control_op \<Rightarrow> control" where
  "op_code (Cancel r) = terminal_code r"
| "op_code Try_complete = COMPLETED"

definition control_cell :: "control \<Rightarrow> control option" where
  "control_cell c = (if c = RUNNING then None else Some c)"

definition control_put :: "control_op \<Rightarrow> control \<Rightarrow> control" where
  "control_put x c = snd (control_step x c)"

lemma op_code_not_running [simp]: "op_code x \<noteq> RUNNING"
  by (cases x) (auto simp: terminal_code_def control_codes split: cancel_reason.splits)

lemma control_step_eq: "control_step x c = (if c = RUNNING then (True, op_code x) else (False, c))"
  by (cases x) (auto simp: cancel_def try_complete_def compare_exchange_def)

interpretation cell: first_writer control_cell control_put op_code
  by unfold_locales (auto simp: control_cell_def control_put_def control_step_eq split: if_splits)

lemma control_run_state: "snd (control_run c xs) = foldl (\<lambda>c x. control_put x c) c xs"
  by (induction xs arbitrary: c) (simp_all add: control_put_def case_prod_beta)

lemma control_run_full:
  "c \<noteq> RUNNING \<Longrightarrow> control_run c xs = (replicate (length xs) False, c)"
  by (induction xs) (auto simp: control_step_eq)

lemma control_run_new:
  "control_run RUNNING (x # xs) = (True # replicate (length xs) False, op_code x)"
  by (simp add: control_step_eq control_run_full)

lemma reason_codes [simp]:
  "reason RUNNING = Some None" "reason COMPLETED = Some None"
  "reason CANCELLED = Some (Some Cancelled)" "reason DEADLINE = Some (Some Deadline)"
  by (simp_all add: reason_def control_codes)

lemma reason_terminal [simp]: "reason (terminal_code r) = Some (Some r)"
  by (cases r) (simp_all add: terminal_code_def)

lemma reason_op_code:
  "reason (op_code x) = Some (case x of Cancel r \<Rightarrow> Some r | Try_complete \<Rightarrow> None)"
  by (cases x) simp_all

text \<open>
  C13. First writer wins. In any execution that starts from a new control, exactly the first
  state-changing call (\<open>cancel\<close> or \<open>try_complete\<close>) reports success, every later call reports
  failure and changes nothing, and \<open>reason\<close> reports the first call's cancellation reason, or
  nothing when the job completed first or no call was made. \<open>reason\<close> never panics.
\<close>

theorem control_first_writer_wins:
  "fst (control_run control_new xs) = (case xs of [] \<Rightarrow> [] | _ # rest \<Rightarrow> True # replicate (length rest) False)
   \<and> reason (snd (control_run control_new xs)) =
      Some (case xs of Cancel r # _ \<Rightarrow> Some r | _ \<Rightarrow> None)"
proof (cases xs)
  case Nil
  then show ?thesis by (simp add: control_new_def)
next
  case (Cons x rest)
  then show ?thesis
    unfolding control_new_def Cons control_run_new by (cases x) (simp_all add: reason_op_code)
qed

text \<open>
  A checkpoint fails exactly when the job was cancelled or timed out before it could
  complete, and the NFP/IFP layer sees the same reason.
\<close>

theorem nfp_checkpoint_reports_first_reason:
  "map_option (map_sum abort_reason id) (nfp_checkpoint (snd (control_run control_new xs))) =
    Some (case xs of
        Cancel Cancelled # _ \<Rightarrow> Inl AbortCancelled
      | Cancel Deadline # _ \<Rightarrow> Inl AbortDeadline
      | _ \<Rightarrow> Inr ())"
proof -
  have "reason (snd (control_run control_new xs)) = Some (case xs of Cancel r # _ \<Rightarrow> Some r | _ \<Rightarrow> None)"
    by (cases xs) (simp_all add: control_new_def control_run_new reason_op_code del: control_run.simps(2)
      split: control_op.splits)
  then show ?thesis
    by (auto simp: nfp_checkpoint_def checkpoint_def split: list.splits control_op.splits cancel_reason.splits)
qed

end
