(* ===== verification/Events.thy ===== *)
theory Events
  imports Prelude F64
begin

text \<open>
  \<open>crates/polygon-nesting-core/src/events.rs\<close> with the event types of
  \<open>crates/polygon-nesting-protocol/src/event.rs\<close>, and the two sinks the program connects to
  it through the \<open>EngineEventSink\<close> trait (here the locale \<open>event_sink\<close>). The summaries and
  snapshots inside an event are type parameters: nothing between the core and the sinks
  looks into them.
\<close>

datatype portfolio_phase = SharedArchive | ShortSideProfile | Completed_Phase

record 'score portfolio_progress =
  phase :: portfolio_phase
  best_score :: "'score option"
  elapsed_ms :: f64

datatype ('score, 'snap) engine_event =
    PortfolioProgress "'score portfolio_progress"
  | StateSnapshot 'snap f64

record 'e sequenced_event =
  ordinal :: u64
  event :: 'e

record 's event_sequencer =
  next_ordinal :: u64
  sink :: 's

definition sequencer_new :: "'s \<Rightarrow> 's event_sequencer" where
  "sequencer_new s = \<lparr>next_ordinal = 0, sink = s\<rparr>"

text \<open>
  \<open>emit\<close> first advances the ordinal, panicking on overflow (\<open>None\<close>), then forwards the frame.
\<close>

definition sequencer_emit ::
    "('e sequenced_event \<Rightarrow> 's \<Rightarrow> 's) \<Rightarrow> 'e \<Rightarrow> 's event_sequencer \<Rightarrow> 's event_sequencer option" where
  "sequencer_emit emit e q = (let n = next_ordinal q in
    case checked_add n 1 of
      None \<Rightarrow> None
    | Some n' \<Rightarrow> Some (q\<lparr>next_ordinal := n', sink := emit \<lparr>ordinal = n, event = e\<rparr> (sink q)\<rparr>))"

fun sequencer_emit_all ::
    "('e sequenced_event \<Rightarrow> 's \<Rightarrow> 's) \<Rightarrow> 'e list \<Rightarrow> 's event_sequencer \<Rightarrow> 's event_sequencer option" where
  "sequencer_emit_all emit [] q = Some q"
| "sequencer_emit_all emit (e # es) q =
    (case sequencer_emit emit e q of None \<Rightarrow> None | Some q' \<Rightarrow> sequencer_emit_all emit es q')"

text \<open>The events numbered from \<open>n\<close>.\<close>

fun numbered :: "nat \<Rightarrow> 'e list \<Rightarrow> 'e sequenced_event list" where
  "numbered n [] = []"
| "numbered n (e # es) = \<lparr>ordinal = of_nat n, event = e\<rparr> # numbered (Suc n) es"

lemma length_numbered [simp]: "length (numbered n es) = length es"
  by (induction es arbitrary: n) auto

lemma numbered_nth: "i < length es \<Longrightarrow> numbered n es ! i = \<lparr>ordinal = of_nat (n + i), event = es ! i\<rparr>"
  by (induction es arbitrary: n i) (auto simp: nth_Cons split: nat.split)

lemma events_numbered [simp]: "map event (numbered n es) = es"
  by (induction es arbitrary: n) auto

text \<open>
  What the sequencer relies on of a sink: a sink that expects ordinal \<open>n\<close> takes the frame
  numbered \<open>n\<close>, adds to what it has made visible what it makes of that frame (a filtering sink
  may show nothing), and then expects the next ordinal.
\<close>

locale event_sink =
  fixes emit :: "'e sequenced_event \<Rightarrow> 's \<Rightarrow> 's"
    and expects :: "u64 \<Rightarrow> 's \<Rightarrow> bool"
    and seen :: "'s \<Rightarrow> 'f list"
    and shown :: "'e sequenced_event \<Rightarrow> 'f list"
  assumes emit_seen: "expects (ordinal ev) s \<Longrightarrow> unat (ordinal ev) < u64_max \<Longrightarrow>
      seen (emit ev s) = seen s @ shown ev"
    and emit_expects: "expects (ordinal ev) s \<Longrightarrow> unat (ordinal ev) < u64_max \<Longrightarrow>
      expects (ordinal ev + 1) (emit ev s)"
begin

lemma emit_all:
  assumes "expects (next_ordinal q) (sink q)" and "unat (next_ordinal q) + length es \<le> u64_max"
  shows "\<exists>q'. sequencer_emit_all emit es q = Some q' \<and>
    unat (next_ordinal q') = unat (next_ordinal q) + length es \<and>
    expects (next_ordinal q') (sink q') \<and>
    seen (sink q') = seen (sink q) @ concat (map shown (numbered (unat (next_ordinal q)) es))"
  using assms
proof (induction es arbitrary: q)
  case Nil
  then show ?case by simp
next
  case (Cons e es)
  let ?n = "next_ordinal q"
  let ?ev = "\<lparr>ordinal = ?n, event = e\<rparr>"
  let ?q = "q\<lparr>next_ordinal := ?n + 1, sink := emit ?ev (sink q)\<rparr>"
  have lt: "unat ?n < u64_max" using Cons.prems(2) by simp
  then have n: "unat (?n + 1) = Suc (unat ?n)" using unat_u64_add [of ?n 1] by simp
  have step: "sequencer_emit emit e q = Some ?q"
    using lt by (simp add: sequencer_emit_def checked_add_def Let_def)
  have "expects (next_ordinal ?q) (sink ?q)" using emit_expects [of ?ev "sink q"] Cons.prems(1) lt by simp
  moreover have "unat (next_ordinal ?q) + length es \<le> u64_max" using Cons.prems(2) n by simp
  ultimately obtain q' where q': "sequencer_emit_all emit es ?q = Some q'"
    "unat (next_ordinal q') = unat (next_ordinal ?q) + length es"
    "expects (next_ordinal q') (sink q')"
    "seen (sink q') = seen (sink ?q) @ concat (map shown (numbered (unat (next_ordinal ?q)) es))"
    using Cons.IH [of ?q] by blast
  then show ?case using step emit_seen [of ?ev "sink q"] Cons.prems(1) lt n by simp
qed

lemma fold_emit:
  assumes "expects (of_nat n) s" and "n + length es \<le> u64_max"
  shows "seen (fold emit (numbered n es) s) = seen s @ concat (map shown (numbered n es)) \<and>
    expects (of_nat (n + length es)) (fold emit (numbered n es) s)"
  using assms
proof (induction es arbitrary: n s)
  case Nil
  then show ?case by simp
next
  case (Cons e es)
  let ?ev = "\<lparr>ordinal = of_nat n, event = e\<rparr>"
  have lt: "unat (ordinal ?ev) < u64_max" using Cons.prems(2) by (simp add: unat_of_nat)
  have "expects (of_nat (Suc n)) (emit ?ev s)" using emit_expects [of ?ev s] Cons.prems(1) lt by (simp add: add.commute)
  from Cons.IH [OF this] emit_seen [of ?ev s] Cons.prems lt show ?case by simp
qed

text \<open>The ordinals run out: the emit after ordinal \<open>2 ^ 64 - 2\<close> panics.\<close>

lemma emit_overflow: "unat (next_ordinal q) = u64_max \<Longrightarrow> sequencer_emit emit e q = None"
  by (simp add: sequencer_emit_def checked_add_def Let_def)

end

text \<open>The buffering sink of the command line (\<open>crates/polygon-nesting-cli/src/lib.rs\<close>).\<close>

record 'e buffered_sink =
  events :: "'e sequenced_event list"

definition buffered_emit :: "'e sequenced_event \<Rightarrow> 'e buffered_sink \<Rightarrow> 'e buffered_sink" where
  "buffered_emit ev s = s\<lparr>events := events s @ [ev]\<rparr>"

interpretation buffered: event_sink buffered_emit "\<lambda>_ _. True" events "\<lambda>ev. [ev]"
  by unfold_locales (auto simp: buffered_emit_def)

text \<open>
  Numbering of a run's events: whatever the core emits, the command line's sink ends up
  holding exactly those events in their order, numbered 0, 1, 2, ... without gap or
  repetition, and \<open>next_ordinal\<close> is their number. (A run of \<open>2 ^ 64\<close> events would panic.)
\<close>

theorem buffered_events_numbered:
  assumes "length es \<le> u64_max"
  shows "\<exists>q. sequencer_emit_all buffered_emit es (sequencer_new \<lparr>events = []\<rparr>) = Some q \<and>
    unat (next_ordinal q) = length es \<and>
    map event (events (sink q)) = es \<and>
    (\<forall>i < length es. unat (ordinal (events (sink q) ! i)) = i)"
proof -
  have 1: "\<forall>i < length es. unat (ordinal (numbered 0 es ! i)) = i"
    using assms by (simp add: numbered_nth unat_of_nat)
  have 2: "concat (map (\<lambda>ev. [ev]) (numbered 0 es)) = numbered 0 es" by simp
  show ?thesis
    using buffered.emit_all [of "sequencer_new \<lparr>events = []\<rparr>" es] assms 1
    unfolding sequencer_new_def by (auto simp: 2 simp del: concat_map_singleton)
qed

lemma buffered_events_numbered_witness:
  "\<exists>q. sequencer_emit_all buffered_emit [True, False] (sequencer_new \<lparr>events = []\<rparr>) = Some q \<and>
    unat (next_ordinal q) = 2"
  using buffered_events_numbered [of "[True, False]"] by auto

end
