(* ===== verification/CoreJob.thy ===== *)
theory CoreJob
  imports Control Events SortPieces
begin

text \<open>
  \<open>crates/polygon-nesting-core/src/job.rs\<close>: one engine job. It validates and prepares the
  request, runs the search under the cancellation control, and commits exactly one terminal
  result. The search itself (\<open>compute_irregular_nesting\<close>) is an argument, an arbitrary
  terminating program that may poll the control, emit events, fail or panic. Other threads may
  operate on the control between any two accesses of the job: the environment is a function
  that says what they do.

  The domain types a request is converted to mirror the wire types field by field; the wire
  records stand for both, and only what the conversion changes has its own record.
\<close>

subsection \<open>Preparing the request\<close>

datatype intrinsic_objective_profile_id = Profile_Compact | Profile_ShortSide

fun intrinsic_objective_profile_id_from_engine :: "engine_profile \<Rightarrow> intrinsic_objective_profile_id" where
  "intrinsic_objective_profile_id_from_engine Compact = Profile_Compact"
| "intrinsic_objective_profile_id_from_engine CompactShortSide = Profile_ShortSide"

record nesting_settings =
  ns_geometry :: geometry_settings
  ns_optimizer :: optimizer_settings
  intrinsic_objective_profile_id :: intrinsic_objective_profile_id

record nesting_options =
  opt_allow_global_rotation :: bool
  opt_allow_global_mirror :: "bool option"
  opt_history_mode :: history_mode
  opt_diagnostic_trace_mode :: diagnostic_trace_mode
  irregular_settings :: "nesting_settings option"

record nesting_request =
  nr_sheet :: sheet_spec
  nr_padding :: f64
  nr_pieces :: "prepared_piece list"
  nr_source_pieces :: "source_piece list"
  nr_options :: nesting_options

definition nesting_settings_from_engine :: "engine_settings \<Rightarrow> engine_profile \<Rightarrow> nesting_settings" where
  "nesting_settings_from_engine s p = \<lparr>ns_geometry = geometry s, ns_optimizer = optimizer s,
    intrinsic_objective_profile_id = intrinsic_objective_profile_id_from_engine p\<rparr>"

definition prepare_nesting_request :: "engine_request \<Rightarrow> nesting_request" where
  "prepare_nesting_request r = \<lparr>nr_sheet = sheet r, nr_padding = settings_padding (settings r),
    nr_pieces = sort_by compare_canonical_request_ties (pieces r),
    nr_source_pieces = source_pieces r,
    nr_options = \<lparr>opt_allow_global_rotation = allow_global_rotation (settings r),
      opt_allow_global_mirror = Some (allow_global_mirror (settings r)),
      opt_history_mode = history_mode r, opt_diagnostic_trace_mode = diagnostic_trace_mode r,
      irregular_settings = Some (nesting_settings_from_engine (settings r) (profile r))\<rparr>\<rparr>"

subsection \<open>Errors\<close>

datatype portfolio_error_category = Cat_Geometry | Cat_Scoring | Cat_Search

datatype irregular_compute_error_type =
    Compute string string string              \<comment> \<open>prepared piece id, source piece id, message\<close>
  | GeometryInput string string               \<comment> \<open>operation, message\<close>
  | NfpIfpControlAbort nfp_abort_error
  | NoValidResult string string
  | NotImplemented string string string       \<comment> \<open>service, operation, message\<close>
  | Portfolio string portfolio_error_category string
  | PlacementScoring string string
  | LayoutScoring string string

text \<open>\<open>irregular_compute_error_app_code\<close> of \<open>result/mod.rs\<close>, the authoritative wire category.\<close>

fun irregular_compute_error_app_code :: "irregular_compute_error_type \<Rightarrow> string" where
  "irregular_compute_error_app_code (Compute _ _ _) = ''irregular_source_geometry_missing''"
| "irregular_compute_error_app_code (GeometryInput _ _) = ''irregular_geometry_invalid''"
| "irregular_compute_error_app_code (NfpIfpControlAbort e) =
    (case abort_reason e of AbortCancelled \<Rightarrow> ''worker_cancelled'' | AbortDeadline \<Rightarrow> ''worker_timeout'')"
| "irregular_compute_error_app_code (NoValidResult _ _) = ''irregular_no_valid_result''"
| "irregular_compute_error_app_code (NotImplemented _ _ _) = ''not_implemented''"
| "irregular_compute_error_app_code (Portfolio _ c _) =
    (case c of Cat_Geometry \<Rightarrow> ''irregular_geometry_invalid'' | _ \<Rightarrow> ''irregular_scoring_error'')"
| "irregular_compute_error_app_code (PlacementScoring _ _) = ''irregular_scoring_error''"
| "irregular_compute_error_app_code (LayoutScoring _ _) = ''irregular_scoring_error''"

definition OPERATION :: string where
  "OPERATION = ''computeIrregularNesting''"

fun project_error :: "irregular_compute_error_type \<Rightarrow> engine_error" where
  "project_error (NfpIfpControlAbort e) = (case abort_reason e of
      AbortCancelled \<Rightarrow> with_context ''reason'' ''cancelled''
        (engine_error_new Code_Cancelled OPERATION (abort_message e))
    | AbortDeadline \<Rightarrow> with_context ''reason'' ''deadline''
        (engine_error_new DeadlineExceeded OPERATION (abort_message e)))"
| "project_error (GeometryInput op m) =
    with_context ''operation'' op (engine_error_new InvalidGeometry op m)"
| "project_error (Compute pid sid m) = with_context ''sourcePieceId'' sid
    (with_context ''preparedPieceId'' pid (engine_error_new InvalidGeometry OPERATION m))"
| "project_error (NoValidResult op m) =
    with_context ''operation'' op (engine_error_new EngineFailure op m)"
| "project_error (NotImplemented service op m) = with_context ''operation'' op
    (with_context ''service'' service (engine_error_new InternalFailure op m))"
| "project_error (Portfolio op c m) = (let (category, context_category) = (case c of
        Cat_Geometry \<Rightarrow> (InvalidGeometry, ''geometry'')
      | Cat_Scoring \<Rightarrow> (EngineFailure, ''scoring'')
      | Cat_Search \<Rightarrow> (EngineFailure, ''search''))
    in with_context ''category'' context_category
      (with_context ''operation'' op (engine_error_new category op m)))"
| "project_error (PlacementScoring op m) =
    with_context ''operation'' op (engine_error_new EngineFailure op m)"
| "project_error (LayoutScoring op m) =
    with_context ''operation'' op (engine_error_new EngineFailure op m)"

definition validation_error :: "(protocol_error \<Rightarrow> string) \<Rightarrow> protocol_error \<Rightarrow> engine_error" where
  "validation_error to_string e = engine_error_new
    (case e of UnsupportedVersion _ _ \<Rightarrow> ProtocolVersionMismatch | _ \<Rightarrow> Code_MalformedInput)
    ''validate-request'' (to_string e)"

definition internal_failure :: "string \<Rightarrow> engine_error" where
  "internal_failure operation =
    engine_error_new InternalFailure operation ''polygon nesting execution failed internally''"

subsection \<open>Committing the terminal result\<close>

type_synonym 'r job_result = "engine_error + 'r engine_outcome"

text \<open>\<open>control_failure_outcome\<close>; the outer \<open>None\<close> is the panic of \<open>reason\<close>.\<close>

definition failure_of_reason :: "cancel_reason \<Rightarrow> engine_error" where
  "failure_of_reason r = (case r of
      Cancelled \<Rightarrow> with_context ''reason'' ''cancelled''
        (engine_error_new Code_Cancelled OPERATION ''cancelled by caller'')
    | Deadline \<Rightarrow> with_context ''reason'' ''deadline''
        (engine_error_new DeadlineExceeded OPERATION ''deadline exceeded''))"

definition control_failure_outcome :: "control \<Rightarrow> 'r engine_outcome option option" where
  "control_failure_outcome c = map_option
    (map_option (\<lambda>r. Failure (failure_of_reason r) execution_diagnostics_default)) (reason c)"

fun outcome_cancel_reason :: "'r engine_outcome \<Rightarrow> cancel_reason option" where
  "outcome_cancel_reason (Failure e _) = (case err_category e of
      Code_Cancelled \<Rightarrow> Some Cancelled
    | DeadlineExceeded \<Rightarrow> Some Deadline
    | _ \<Rightarrow> None)"
| "outcome_cancel_reason _ = None"

text \<open>
  \<open>commit_terminal_result\<close>. The control is accessed up to three times; \<open>env1\<close> and \<open>env2\<close> are
  what other threads do to it between them. The result is \<open>None\<close> when the code panics.
\<close>

definition commit_terminal_result ::
    "control_op list \<Rightarrow> control_op list \<Rightarrow> 'r job_result \<Rightarrow> control \<Rightarrow> 'r job_result option \<times> control" where
  "commit_terminal_result env1 env2 candidate c =
    (let (completed, c1) = try_complete c in
     if completed then (Some candidate, c1)
     else let c2 = snd (control_run c1 env1) in
       case reason c2 of
         None \<Rightarrow> (None, c2)
       | Some None \<Rightarrow> (Some candidate, c2)
       | Some (Some r) \<Rightarrow>
           if (case candidate of Inr out \<Rightarrow> outcome_cancel_reason out = Some r | Inl _ \<Rightarrow> False)
           then (Some candidate, c2)
           else let c3 = snd (control_run c2 env2) in
             (case control_failure_outcome c3 of
                Some (Some out) \<Rightarrow> (Some (Inr out), c3)
              | _ \<Rightarrow> (None, c3)))"

subsection \<open>The search and its environment\<close>

text \<open>
  A search's result as \<open>project_result\<close> reads it: the engine result without the diagnostic traces,
  and the one with them, which is \<open>None\<close> when projecting a trace panics (its \<open>unreachable!\<close> and
  \<open>expect\<close> on literals of the traces). The projection of everything else has no panic.
\<close>

record 'r compute_result =
  without_traces :: 'r
  with_traces :: "'r option"

definition project_result :: "'r compute_result \<Rightarrow> diagnostic_trace_mode \<Rightarrow> 'r option" where
  "project_result result m = (case m of
      Trace_Full \<Rightarrow> with_traces result
    | Trace_Off \<Rightarrow> Some (without_traces result))"

text \<open>A search: it returns, panics, polls the control, or emits an event and goes on.\<close>

datatype ('e, 'r) search =
    Return "irregular_compute_error_type + 'r compute_result"
  | Panic
  | Poll "nfp_abort_reason option \<Rightarrow> ('e, 'r) search"
  | Emit 'e "('e, 'r) search"

text \<open>
  What happens around one poll: the operations of other threads before each of its accesses,
  and whether the deadline has passed.
\<close>

record poll_env =
  before_check :: "control_op list"
  deadline_passed :: bool
  before_cancel :: "control_op list"
  before_read :: "control_op list"

definition abort_of :: "cancel_reason \<Rightarrow> nfp_abort_reason" where
  "abort_of r = (case r of Cancelled \<Rightarrow> AbortCancelled | Deadline \<Rightarrow> AbortDeadline)"

text \<open>The closure \<open>cancellation_reason\<close> of \<open>run_uncommitted\<close> (\<open>None\<close> panics).\<close>

definition cancellation_reason :: "poll_env \<Rightarrow> control \<Rightarrow> nfp_abort_reason option option \<times> control" where
  "cancellation_reason env c =
    (let c1 = snd (control_run c (before_check env));
         c2 = (if reason c1 = Some None \<and> deadline_passed env
               then snd (cancel Deadline (snd (control_run c1 (before_cancel env)))) else c1);
         c3 = snd (control_run c2 (before_read env))
     in (map_option (map_option abort_of) (reason c3), c3))"

text \<open>
  Runs a search, up to its unprojected result. The first component is \<open>None\<close> when it panicked (which \<open>catch_unwind\<close> turns into a
  failure); events go through the sequencer, whose overflow panics too.
\<close>

primrec run_search ::
    "('e sequenced_event \<Rightarrow> 's \<Rightarrow> 's) \<Rightarrow> (nat \<Rightarrow> poll_env) \<Rightarrow> ('e, 'r) search \<Rightarrow> nat \<Rightarrow> control \<Rightarrow>
      's event_sequencer \<Rightarrow> (irregular_compute_error_type + 'r compute_result) option \<times> control \<times> 's event_sequencer" where
  "run_search emit env (Return x) n c q = (Some x, c, q)"
| "run_search emit env Panic n c q = (None, c, q)"
| "run_search emit env (Poll k) n c q = (case cancellation_reason (env n) c of
      (None, c') \<Rightarrow> (None, c', q)
    | (Some r, c') \<Rightarrow> run_search emit env (k r) (Suc n) c' q)"
| "run_search emit env (Emit e s) n c q = (case sequencer_emit emit e q of
      None \<Rightarrow> (None, c, q)
    | Some q' \<Rightarrow> run_search emit env s n c q')"

record job_env =
  to_string :: "protocol_error \<Rightarrow> string"
  diagnostics_of :: "execution_diagnostics"
  pool_built :: bool                        \<comment> \<open>\<open>JobPool::new\<close> does not panic\<close>
  poll :: "nat \<Rightarrow> poll_env"
  before_first :: "control_op list"
  before_commit :: "control_op list"
  commit_env1 :: "control_op list"
  commit_env2 :: "control_op list"

text \<open>
  \<open>Job::run_uncommitted\<close>. Only the search runs under \<open>catch_unwind\<close>: the outer \<open>None\<close> is a panic
  outside it, of the control's \<open>reason\<close>, of \<open>JobPool::new\<close> when the operating system gives no
  thread, or of \<open>project_result\<close>.
\<close>

definition run_uncommitted ::
    "(nesting_request \<Rightarrow> ('e, 'r) search) \<Rightarrow> ('e sequenced_event \<Rightarrow> 's \<Rightarrow> 's) \<Rightarrow> job_env \<Rightarrow>
      engine_request \<Rightarrow> control \<Rightarrow> 's \<Rightarrow> 'r job_result option \<times> control \<times> 's" where
  "run_uncommitted compute emit env r c s = (case validate r of
      Inl e \<Rightarrow> (Some (Inl (validation_error (to_string env) e)), c, s)
    | Inr _ \<Rightarrow> (let c1 = snd (control_run c (before_first env)) in
        case control_failure_outcome c1 of
          None \<Rightarrow> (None, c1, s)
        | Some (Some out) \<Rightarrow> (Some (Inr out), c1, s)
        | Some None \<Rightarrow> (case archive_ineligible_outcome r of
            Some out \<Rightarrow> (Some (Inr out), c1, s)
          | None \<Rightarrow> (let request = prepare_nesting_request r in
              case irregular_settings (nr_options request) of
                None \<Rightarrow> (Some (Inl (internal_failure ''prepare-nesting-request'')), c1, s)
              | Some _ \<Rightarrow> if \<not> pool_built env then (None, c1, s)
                else (let (x, c2, q) = run_search emit (poll env) (compute request) 0 c1 (sequencer_new s) in
                  ((case x of
                      None \<Rightarrow> Some (Inr (Failure (internal_failure ''compute-irregular-nesting'') (diagnostics_of env)))
                    | Some (Inl e) \<Rightarrow> Some (Inr (Failure (project_error e) (diagnostics_of env)))
                    | Some (Inr result) \<Rightarrow> map_option (\<lambda>res. Inr (Success res (diagnostics_of env)))
                        (project_result result (diagnostic_trace_mode r))), c2, sink q))))))"

definition job_run ::
    "(nesting_request \<Rightarrow> ('e, 'r) search) \<Rightarrow> ('e sequenced_event \<Rightarrow> 's \<Rightarrow> 's) \<Rightarrow> job_env \<Rightarrow>
      engine_request \<Rightarrow> control \<Rightarrow> 's \<Rightarrow> 'r job_result option \<times> control \<times> 's" where
  "job_run compute emit env r c s = (case run_uncommitted compute emit env r c s of
      (None, c', s') \<Rightarrow> (None, c', s')
    | (Some candidate, c', s') \<Rightarrow>
        (let (res, c'') = commit_terminal_result (commit_env1 env) (commit_env2 env) candidate
          (snd (control_run c' (before_commit env))) in (res, c'', s')))"

subsection \<open>The control only ever holds its four codes\<close>

definition control_ok :: "control \<Rightarrow> bool" where
  "control_ok c \<longleftrightarrow> c = RUNNING \<or> c = CANCELLED \<or> c = DEADLINE \<or> c = COMPLETED"

lemma control_ok_step: "control_ok c \<Longrightarrow> control_ok (snd (control_step x c))"
  by (cases x) (auto simp: control_step_eq control_ok_def terminal_code_def split: cancel_reason.splits)

lemma control_ok_run: "control_ok c \<Longrightarrow> control_ok (snd (control_run c xs))"
proof (induction xs arbitrary: c)
  case (Cons x xs)
  then show ?case using control_ok_step [of c x] by (simp add: case_prod_beta)
qed simp

lemma control_ok_new [simp]: "control_ok RUNNING" "control_ok control_new"
  by (simp_all add: control_ok_def control_new_def)

lemma control_run_stuck [simp]: "c \<noteq> RUNNING \<Longrightarrow> snd (control_run c xs) = c"
  by (simp add: control_run_full)

lemma control_ok_cases:
  assumes "control_ok c"
  obtains "c = RUNNING" | r where "c = terminal_code r" "reason c = Some (Some r)" | "c = COMPLETED"
  using assms that(2) [of Cancelled] that(2) [of Deadline] that(1,3)
  by (auto simp: control_ok_def terminal_code_def)

lemma terminal_code_not [simp]: "terminal_code r \<noteq> RUNNING" "terminal_code r \<noteq> COMPLETED"
  by (cases r; simp add: terminal_code_def control_codes)+

lemma completed_not_running [simp]: "COMPLETED \<noteq> RUNNING"
  by (simp add: control_codes)

lemma failure_of_reason_category [simp]:
  "err_category (failure_of_reason r) = (case r of Cancelled \<Rightarrow> Code_Cancelled | Deadline \<Rightarrow> DeadlineExceeded)"
  by (cases r) (simp_all add: failure_of_reason_def engine_error_new_def with_context_def)

lemma control_failure_outcome_ok: "control_ok c \<Longrightarrow> control_failure_outcome c \<noteq> None"
  by (auto simp: control_failure_outcome_def control_ok_def)

lemma cancel_leaves_running: "snd (cancel r c) \<noteq> RUNNING"
  using control_step_eq [of "Cancel r" c] by (simp split: if_splits)

lemma cancel_not_completed: "c \<noteq> COMPLETED \<Longrightarrow> snd (cancel r c) \<noteq> COMPLETED"
  using control_step_eq [of "Cancel r" c] by (simp split: if_splits)

text \<open>What a result says of the control: it agrees with the reason the control ended with.\<close>

definition agrees :: "'r job_result option \<Rightarrow> control \<Rightarrow> bool" where
  "agrees res c \<longleftrightarrow> res \<noteq> None \<and> c \<noteq> RUNNING \<and>
    (\<forall>r. reason c = Some (Some r) \<longrightarrow> (\<exists>out. res = Some (Inr out) \<and> outcome_cancel_reason out = Some r))"

lemma commit_agrees:
  assumes "control_ok c" and "commit_terminal_result env1 env2 candidate c = (res, c')"
  shows "agrees res c' \<and> (c' = COMPLETED \<longrightarrow> res = Some candidate)"
  using assms(1)
proof (cases rule: control_ok_cases)
  case 1
  then show ?thesis using assms(2)
    by (auto simp: commit_terminal_result_def try_complete_def compare_exchange_def agrees_def)
next
  case (2 r)
  then have "commit_terminal_result env1 env2 candidate c =
      (if (case candidate of Inr out \<Rightarrow> outcome_cancel_reason out = Some r | Inl _ \<Rightarrow> False)
       then (Some candidate, c)
       else (Some (Inr (Failure (failure_of_reason r) execution_diagnostics_default)), c))"
    by (simp add: commit_terminal_result_def try_complete_def compare_exchange_def
        control_failure_outcome_def)
  then show ?thesis using assms(2) 2 by (cases r) (auto simp: agrees_def split: if_splits sum.splits)
next
  case 3
  then show ?thesis using assms(2)
    by (auto simp: commit_terminal_result_def try_complete_def compare_exchange_def agrees_def)
qed

subsection \<open>Polling\<close>

lemma cancellation_reason_ok: "control_ok c \<Longrightarrow> control_ok (snd (cancellation_reason env c))"
  using control_ok_step [of _ "Cancel Deadline"] control_ok_run
  by (simp add: cancellation_reason_def Let_def)

lemma control_ok_reason: "control_ok c \<Longrightarrow> reason c \<noteq> None"
  by (auto simp: control_ok_def)

lemma control_run_no_complete:
  assumes "Try_complete \<notin> set xs" and "control_ok c" and "c \<noteq> COMPLETED"
  shows "snd (control_run c xs) \<noteq> COMPLETED"
  using assms
proof (induction xs arbitrary: c)
  case (Cons x xs)
  then obtain r where x: "x = Cancel r" by (cases x) auto
  then have "snd (control_step x c) \<noteq> COMPLETED"
    using Cons.prems by (auto simp: cancel_def compare_exchange_def)
  then show ?case using Cons control_ok_step [of c x] by (simp add: case_prod_beta)
qed simp

text \<open>
  Every poll of the search sees the control's current reason, the one it keeps for good once
  there is one; and a poll after the deadline always sees a reason: the job cannot outlive its
  timeout unnoticed, whatever other threads do (as long as only the job completes itself).
\<close>

theorem poll_observes_control:
  assumes "control_ok c" and "c \<noteq> COMPLETED"
    and "Try_complete \<notin> set (before_check env @ before_cancel env @ before_read env)"
    and "cancellation_reason env c = (answer, c')"
  shows "\<exists>r. answer = Some (map_option abort_of r) \<and> reason c' = Some r \<and>
    (deadline_passed env \<longrightarrow> r \<noteq> None) \<and> (\<forall>xs. r \<noteq> None \<longrightarrow> snd (control_run c' xs) = c')"
proof -
  define c1 where "c1 = snd (control_run c (before_check env))"
  define c2 where "c2 = (if reason c1 = Some None \<and> deadline_passed env
    then snd (cancel Deadline (snd (control_run c1 (before_cancel env)))) else c1)"
  have "(map_option (map_option abort_of) (reason (snd (control_run c2 (before_read env)))),
      snd (control_run c2 (before_read env))) = (answer, c')"
    using assms(4) unfolding cancellation_reason_def Let_def c1_def [symmetric] c2_def [symmetric] .
  then have c': "c' = snd (control_run c2 (before_read env))"
    and a: "answer = map_option (map_option abort_of) (reason c')" by auto
  have 1: "control_ok c1" "c1 \<noteq> COMPLETED"
    using assms control_ok_run control_run_no_complete by (auto simp: c1_def)
  let ?c = "snd (control_run c1 (before_cancel env))"
  have m: "control_ok ?c" "?c \<noteq> COMPLETED" using 1 assms(3) control_ok_run control_run_no_complete by auto
  have 2: "control_ok c2" "c2 \<noteq> COMPLETED" "deadline_passed env \<Longrightarrow> c2 \<noteq> RUNNING"
    using 1 m control_ok_step [OF m(1), of "Cancel Deadline"]
    by (auto simp: c2_def cancel_leaves_running cancel_not_completed)
  have 3: "control_ok c'" "c' \<noteq> COMPLETED"
    using 2 assms(3) control_ok_run control_run_no_complete by (auto simp: c')
  have d: "deadline_passed env \<Longrightarrow> c' \<noteq> RUNNING" using 2(3) by (simp add: c')
  show ?thesis using 3(1)
  proof (cases rule: control_ok_cases)
    case 1
    then show ?thesis using a d by auto
  next
    case (2 r)
    then show ?thesis using a by auto
  next
    case 3
    then show ?thesis using \<open>c' \<noteq> COMPLETED\<close> by simp
  qed
qed

definition quiet_poll :: "bool \<Rightarrow> poll_env" where
  "quiet_poll late = \<lparr>before_check = [], deadline_passed = late, before_cancel = [], before_read = []\<rparr>"

lemma poll_observes_control_witness:
  "\<exists>r. cancellation_reason (quiet_poll True) RUNNING = (Some (Some AbortDeadline), DEADLINE) \<and>
    reason DEADLINE = Some r \<and> r \<noteq> None"
proof -
  have e: "cancellation_reason (quiet_poll True) RUNNING = (Some (Some AbortDeadline), DEADLINE)"
    by (simp add: cancellation_reason_def quiet_poll_def cancel_def compare_exchange_def
        terminal_code_def abort_of_def)
  show ?thesis
    using poll_observes_control [OF _ _ _ e] e by (auto simp: quiet_poll_def)
qed

subsection \<open>A whole job\<close>

lemma run_search_ok:
  "control_ok c \<Longrightarrow> control_ok (fst (snd (run_search emit env s n c q)))"
proof (induction s arbitrary: n c q)
  case (Poll k)
  obtain a c' where p: "cancellation_reason (env n) c = (a, c')" by fastforce
  then have "control_ok c'" using cancellation_reason_ok [OF Poll.prems, of "env n"] by simp
  then show ?case using Poll.IH p by (cases a) (auto simp: rangeI)
next
  case (Emit e s)
  then show ?case by (cases "sequencer_emit emit e q") auto
qed auto

lemma numbered_append: "numbered n (xs @ [y]) = numbered n xs @ [\<lparr>ordinal = of_nat (n + length xs), event = y\<rparr>]"
  by (induction xs arbitrary: n) auto

definition numbered_stream :: "('e sequenced_event \<Rightarrow> 's \<Rightarrow> 's) \<Rightarrow> 's \<Rightarrow> 's \<Rightarrow> bool" where
  "numbered_stream emit s s' \<longleftrightarrow> (\<exists>es. length es \<le> u64_max \<and> s' = fold emit (numbered 0 es) s)"

lemma numbered_stream_refl [simp]: "numbered_stream emit s s"
  unfolding numbered_stream_def by (rule exI [of _ "[]"]) simp

definition emitted :: "('e sequenced_event \<Rightarrow> 's \<Rightarrow> 's) \<Rightarrow> 's \<Rightarrow> 's event_sequencer \<Rightarrow> bool" where
  "emitted emit s q \<longleftrightarrow> (\<exists>es. sink q = fold emit (numbered 0 es) s \<and> unat (next_ordinal q) = length es)"

lemma run_search_emitted:
  "emitted emit s0 q \<Longrightarrow> emitted emit s0 (snd (snd (run_search emit env s n c q)))"
proof (induction s arbitrary: n c q)
  case (Poll k)
  obtain a c' where "cancellation_reason (env n) c = (a, c')" by fastforce
  then show ?case using Poll by (cases a) (auto simp: rangeI)
next
  case (Emit e s)
  show ?case
  proof (cases "sequencer_emit emit e q")
    case None
    then show ?thesis using Emit by simp
  next
    case (Some q')
    obtain es where es: "sink q = fold emit (numbered 0 es) s0" "unat (next_ordinal q) = length es"
      using Emit.prems by (auto simp: emitted_def)
    obtain n' where n': "checked_add (next_ordinal q) 1 = Some n'"
      "q' = q\<lparr>next_ordinal := n', sink := emit \<lparr>ordinal = next_ordinal q, event = e\<rparr> (sink q)\<rparr>"
      using Some by (auto simp: sequencer_emit_def Let_def split: option.splits)
    have "of_nat (length es) = next_ordinal q" by (simp flip: es(2))
    then have "emitted emit s0 q'"
      unfolding emitted_def using n' es checked_add_Some [OF n'(1)]
      by (intro exI [of _ "es @ [e]"]) (simp add: numbered_append)
    then show ?thesis using Emit.IH Some by simp
  qed
qed auto

text \<open>
  The panics that leave a job: no thread pool, or traces that do not project. Both are outside
  the guarded search.
\<close>

definition panic_explained ::
    "(nesting_request \<Rightarrow> ('e, 'r) search) \<Rightarrow> ('e sequenced_event \<Rightarrow> 's \<Rightarrow> 's) \<Rightarrow> job_env \<Rightarrow> engine_request \<Rightarrow>
      control \<Rightarrow> 's \<Rightarrow> bool" where
  "panic_explained compute emit env r c s \<longleftrightarrow> \<not> pool_built env \<or>
    (diagnostic_trace_mode r = Trace_Full \<and> (\<exists>result c2 q. with_traces result = None \<and>
      run_search emit (poll env) (compute (prepare_nesting_request r)) 0
        (snd (control_run c (before_first env))) (sequencer_new s) = (Some (Inr result), c2, q)))"

lemma project_result_panics: "project_result result m = None \<longleftrightarrow> m = Trace_Full \<and> with_traces result = None"
  by (cases m) (simp_all add: project_result_def)

lemma run_uncommitted_ok:
  assumes "control_ok c" and "run_uncommitted compute emit env r c s = (cand, c', s')"
  shows "(cand = None \<longrightarrow> panic_explained compute emit env r c s) \<and> control_ok c' \<and> numbered_stream emit s s'"
proof -
  let ?c1 = "snd (control_run c (before_first env))"
  have c1: "control_ok ?c1" using assms(1) by (rule control_ok_run)
  obtain x c2 q where x: "run_search emit (poll env) (compute (prepare_nesting_request r)) 0 ?c1 (sequencer_new s) = (x, c2, q)"
    by (metis prod_cases3)
  have "emitted emit s (sequencer_new s)"
    unfolding emitted_def by (rule exI [of _ "[]"]) (simp add: sequencer_new_def)
  then have "emitted emit s q" using run_search_emitted x by (metis snd_conv)
  then have "numbered_stream emit s (sink q)" by (auto simp: emitted_def numbered_stream_def) (metis unat_u64_bound)
  moreover have "control_ok c2" using run_search_ok [OF c1] x by (metis fst_conv snd_conv)
  moreover have "panic_explained compute emit env r c s"
    if "\<not> pool_built env \<or> (\<exists>result. x = Some (Inr result) \<and> project_result result (diagnostic_trace_mode r) = None)"
    using that x unfolding panic_explained_def project_result_panics by blast
  ultimately show ?thesis
    using assms c1 x
    by (auto simp: run_uncommitted_def Let_def prepare_nesting_request_def
        control_failure_outcome_ok [OF c1] split: sum.splits option.splits if_splits)
qed

lemma job_run_agrees:
  assumes "job_run compute emit env r control_new s = (res, c', s')"
  shows "(case res of
      None \<Rightarrow> panic_explained compute emit env r control_new s
    | Some result \<Rightarrow> c' \<noteq> RUNNING \<and>
        (\<forall>reas. reason c' = Some (Some reas) \<longrightarrow>
          (\<exists>out. result = Inr out \<and> outcome_cancel_reason out = Some reas))) \<and>
    (\<exists>es. length es \<le> u64_max \<and> s' = fold emit (numbered 0 es) s)"
proof -
  obtain cand c1 s1 where u: "run_uncommitted compute emit env r control_new s = (cand, c1, s1)"
    by (metis prod_cases3)
  have ok: "cand = None \<Longrightarrow> panic_explained compute emit env r control_new s" "control_ok c1"
    "numbered_stream emit s s1"
    using run_uncommitted_ok [OF _ u] by auto
  show ?thesis
  proof (cases cand)
    case None
    then have "res = None" "s' = s1" using assms u by (simp_all add: job_run_def)
    then show ?thesis using ok(1) [OF None] ok(3) by (simp add: numbered_stream_def)
  next
    case (Some candidate)
    then have "commit_terminal_result (commit_env1 env) (commit_env2 env) candidate
        (snd (control_run c1 (before_commit env))) = (res, c') \<and> s' = s1"
      using assms u by (auto simp: job_run_def Let_def split: prod.splits)
    then have "agrees res c'" "s' = s1" using commit_agrees [OF control_ok_run [OF ok(2)]] by blast+
    then show ?thesis using ok(3) by (auto simp: agrees_def numbered_stream_def)
  qed
qed

text \<open>
  C12. The result of a job agrees with its control, whatever the search does (panics included) and
  however other threads use the control. A job that returns has moved the control out of its
  running state, and if the control was cancelled or timed out first, the result is the failure
  with that reason (never a success). A job panics only where no thread pool can be built or, with
  full diagnostic traces, where the search returned a result whose traces do not project.
  Every event the sink received is numbered in order from 0.
\<close>

theorem job_result_agrees_with_control:
  assumes "job_run compute emit env r control_new s = (res, c', s')"
  shows "(case res of
      None \<Rightarrow> \<not> pool_built env \<or>
        (diagnostic_trace_mode r = Trace_Full \<and> (\<exists>result c2 q. with_traces result = None \<and>
          run_search emit (poll env) (compute (prepare_nesting_request r)) 0
            (snd (control_run control_new (before_first env))) (sequencer_new s) = (Some (Inr result), c2, q)))
    | Some result \<Rightarrow> c' \<noteq> RUNNING \<and>
        (\<forall>reas. reason c' = Some (Some reas) \<longrightarrow>
          (\<exists>out. result = Inr out \<and> outcome_cancel_reason out = Some reas))) \<and>
    (\<exists>es. length es \<le> u64_max \<and> s' = fold emit (numbered 0 es) s)"
  using job_run_agrees [OF assms] unfolding panic_explained_def .

definition quiet_env :: "control_op list \<Rightarrow> job_env" where
  "quiet_env xs = \<lparr>to_string = (\<lambda>_. []), diagnostics_of = execution_diagnostics_default, pool_built = True,
    poll = (\<lambda>_. quiet_poll False), before_first = [], before_commit = xs, commit_env1 = [], commit_env2 = []\<rparr>"

lemma sample_request_valid: "validate (sample_request [''a'']) = Inr ()"
  unfolding validate_ok [OF sample_request_ints]
  by (simp add: request_wf_def sample_request_def sample_piece_def sample_settings_def settings_wf_def
      prepared_piece_wf_def PROTOCOL_VERSION_def is_blank_def is_whitespace_def Let_def)

lemma sample_request_eligible: "archive_ineligible_outcome (sample_request ids) = None"
  by (simp add: archive_ineligible_outcome_def archive_ineligibility_def sample_request_def
      sample_settings_def ga_active_def Let_def)

definition sample_search :: "nesting_request \<Rightarrow> ('e, unit) search" where
  "sample_search _ = Return (Inr \<lparr>without_traces = (), with_traces = Some ()\<rparr>)"

lemma sample_run_uncommitted:
  "run_uncommitted sample_search emit (quiet_env xs) (sample_request [''a'']) RUNNING s =
    (Some (Inr (Success () execution_diagnostics_default)), RUNNING, s)"
  by (simp add: run_uncommitted_def sample_request_valid sample_request_eligible control_failure_outcome_def
      prepare_nesting_request_def quiet_env_def sequencer_new_def sample_search_def project_result_def Let_def
      split: diagnostic_trace_mode.split)

lemma job_result_agrees_with_control_witness:
  "\<exists>out. fst (job_run sample_search buffered_emit (quiet_env [Cancel Cancelled])
      (sample_request [''a'']) control_new \<lparr>events = ([] :: unit sequenced_event list)\<rparr>) = Some (Inr out) \<and>
    outcome_cancel_reason out = Some Cancelled"
proof -
  obtain res c' s' where j: "job_run sample_search buffered_emit (quiet_env [Cancel Cancelled])
      (sample_request [''a'']) control_new \<lparr>events = ([] :: unit sequenced_event list)\<rparr> = (res, c', s')"
    by (metis prod_cases3)
  have "reason c' = Some (Some Cancelled)"
    using j unfolding job_run_def control_new_def sample_run_uncommitted
    by (simp add: quiet_env_def Let_def cancel_def compare_exchange_def terminal_code_def
        commit_terminal_result_def try_complete_def control_failure_outcome_def control_codes reason_def
        split: prod.splits)
  moreover have "res \<noteq> None"
    using j unfolding job_run_def control_new_def sample_run_uncommitted
    by (auto simp: quiet_env_def Let_def cancel_def compare_exchange_def terminal_code_def
        commit_terminal_result_def try_complete_def control_failure_outcome_def control_codes reason_def
        split: prod.splits)
  ultimately show ?thesis using job_result_agrees_with_control [OF j] j by (auto split: option.splits)
qed

lemma prepare_permutation:
  assumes "request_wf r" and "mset ps = mset (pieces r)"
  shows "prepare_nesting_request (r\<lparr>pieces := ps\<rparr>) = prepare_nesting_request r"
proof -
  have set: "set ps = set (pieces r)" using assms(2) by (metis set_mset_mset)
  have num: "safe_int_from lo v \<Longrightarrow> \<not> is_nan v" for lo v by (cases v) (auto simp: safe_int_from_def)
  have "set ps \<subseteq> comparable_pieces"
    using assms(1) unfolding set request_wf_def prepared_piece_wf_def comparable_pieces_def piece_keys_def
    by (auto dest: num)
  moreover have "a = b" if "a \<in> set ps" "b \<in> set ps" "compare_canonical_request_ties a b = Equal" for a b
  proof -
    have "piece_id a = piece_id b"
      using that(3) tokens_inject as_bytes_inject
      by (auto simp: compare_canonical_request_ties_def cmp_simps compare_natural_piece_ids_tokens)
    then show ?thesis using assms(1) that(1,2) unfolding set request_wf_def by (metis distinct_map inj_onD)
  qed
  ultimately have "sort_by compare_canonical_request_ties ps = sort_by compare_canonical_request_ties (pieces r)"
    using assms(2) by (intro canonical.sort_by_perm)
  then show ?thesis by (simp add: prepare_nesting_request_def)
qed

lemma archive_ineligible_outcome_pieces:
  "archive_ineligible_outcome (r\<lparr>pieces := ps\<rparr>) = archive_ineligible_outcome r"
  by (simp add: archive_ineligible_outcome_def archive_ineligibility_def)

lemma request_wf_permutation:
  assumes "mset ps = mset (pieces r)"
  shows "request_wf (r\<lparr>pieces := ps\<rparr>) = request_wf r"
proof -
  have "set ps = set (pieces r)" "ps = [] \<longleftrightarrow> pieces r = []"
    "distinct (map piece_id ps) \<longleftrightarrow> distinct (map piece_id (pieces r))"
    using assms mset_eq_imp_distinct_iff [of "map piece_id ps" "map piece_id (pieces r)"]
    by (metis set_mset_mset, metis mset_zero_iff, metis mset_map)
  then show ?thesis by (simp add: request_wf_def)
qed

text \<open>
  C20. The order in which a valid request lists its pieces is irrelevant: any permutation of them
  gives the same prepared request and the same job, with the same result, events and final
  control, for any search and any environment.
\<close>

theorem job_permutation_invariant:
  assumes "list_all f64_ok (request_ints r)" and "validate r = Inr ()" and "mset ps = mset (pieces r)"
  shows "prepare_nesting_request (r\<lparr>pieces := ps\<rparr>) = prepare_nesting_request r \<and>
    job_run compute emit env (r\<lparr>pieces := ps\<rparr>) c s = job_run compute emit env r c s"
proof -
  have set: "set ps = set (pieces r)" using assms(3) by (metis set_mset_mset)
  have "list_all f64_ok (request_ints (r\<lparr>pieces := ps\<rparr>))"
    using assms(1) by (simp add: request_ints_def list_all_iff set)
  moreover have wf: "request_wf r" using assms(1,2) validate_ok by blast
  ultimately have v: "validate (r\<lparr>pieces := ps\<rparr>) = Inr ()"
    using validate_ok request_wf_permutation [OF assms(3)] by blast
  have p: "prepare_nesting_request (r\<lparr>pieces := ps\<rparr>) = prepare_nesting_request r"
    by (rule prepare_permutation [OF wf assms(3)])
  have d: "diagnostic_trace_mode (r\<lparr>pieces := ps\<rparr>) = diagnostic_trace_mode r" by simp
  show ?thesis
    unfolding job_run_def run_uncommitted_def v assms(2) archive_ineligible_outcome_pieces p d by simp
qed

lemma job_permutation_invariant_witness:
  "prepare_nesting_request ((sample_request [''a'', ''b''])\<lparr>pieces := [sample_piece ''b'', sample_piece ''a'']\<rparr>) =
    prepare_nesting_request (sample_request [''a'', ''b''])"
proof -
  have "validate (sample_request [''a'', ''b'']) = Inr ()"
    unfolding validate_ok [OF sample_request_ints]
    by (simp add: request_wf_def sample_request_def sample_piece_def sample_settings_def settings_wf_def
        prepared_piece_wf_def PROTOCOL_VERSION_def is_blank_def is_whitespace_def Let_def)
  then show ?thesis
    by (rule job_permutation_invariant [OF sample_request_ints, THEN conjunct1])
      (simp add: sample_request_def)
qed

end
