(* ===== verification/TerminalLatch.thy ===== *)
theory TerminalLatch
  imports Prelude
begin

text \<open>
  \<open>crates/polygon-nesting-napi/src/events.rs\<close>, \<open>TerminalLatch\<close>: the hand-over of the last
  event of a job to JavaScript, raced by three parties that share two atomics, a \<open>OnceLock\<close>
  and the waiter's park token:

  \<^item> the job thread in \<open>enqueue_terminal_and_wait\<close> (program counter \<open>wpc\<close>),
  \<^item> the callback that acknowledges the terminal frame, at most once (\<open>apc\<close>),
  \<^item> any number of environment cleanups in \<open>close_for_cleanup\<close> (\<open>kpc k\<close>).

  All accesses are \<open>SeqCst\<close>, so an execution is an interleaving of single accesses: every
  program counter stands between two shared accesses, and one action performs one of them.
  The load and the compare-exchange of each retry loop are separate actions.

  A Node-API \<open>Status\<close> is represented by its code (\<open>Ok = 0\<close>, \<open>InvalidArg = 1\<close>,
  \<open>Closing = 16\<close>), which \<open>i32::from\<close> and \<open>Status::from\<close> convert without loss.
\<close>

type_synonym status = nat

definition Status_Ok :: status where "Status_Ok = 0"
definition Status_InvalidArg :: status where "Status_InvalidArg = 1"
definition Status_Closing :: status where "Status_Closing = 16"

lemmas status_codes = Status_Ok_def Status_InvalidArg_def Status_Closing_def

definition TERMINAL_PENDING :: int where "TERMINAL_PENDING = - 1"
definition TERMINAL_ADMITTING :: int where "TERMINAL_ADMITTING = - 2"
definition TERMINAL_WAITING :: int where "TERMINAL_WAITING = - 3"
definition TERMINAL_CLOSING :: int where "TERMINAL_CLOSING = - 4"
definition TERMINAL_CLEANUP_ADMITTING :: int where "TERMINAL_CLEANUP_ADMITTING = - 5"

lemmas latch_codes = TERMINAL_PENDING_def TERMINAL_ADMITTING_def TERMINAL_WAITING_def
  TERMINAL_CLOSING_def TERMINAL_CLEANUP_ADMITTING_def

definition is_terminal_outcome :: "int \<Rightarrow> bool" where
  "is_terminal_outcome out \<longleftrightarrow> out = TERMINAL_CLOSING \<or> out \<ge> 0"

text \<open>\<open>None\<close> is the \<open>unreachable!\<close> panic.\<close>

definition status_for_terminal_outcome :: "int \<Rightarrow> status option" where
  "status_for_terminal_outcome out =
    (if out = TERMINAL_CLOSING then Some Status_Closing
     else if out \<ge> 0 then Some (nat out)
     else None)"

subsection \<open>Program counters and shared state\<close>

datatype waiter_pc =
    W_claim                     \<comment> \<open>before the compare-exchange that claims the latch\<close>
  | W_register                  \<comment> \<open>before \<open>waiter.set\<close>\<close>
  | W_enqueue                   \<comment> \<open>inside the \<open>enqueue\<close> callback\<close>
  | W_fail_load status          \<comment> \<open>\<open>commit_enqueue_failure\<close>: before the load\<close>
  | W_fail_cas status int       \<comment> \<open>\<open>commit_enqueue_failure\<close>: before the compare-exchange\<close>
  | W_fail_unpark
  | W_fail_result               \<comment> \<open>before the load whose outcome is returned\<close>
  | W_admit_load                \<comment> \<open>\<open>complete_successful_admission\<close>\<close>
  | W_admit_cas int
  | W_flag                      \<comment> \<open>\<open>commit_cleanup_if_requested\<close>: before reading the flag\<close>
  | W_commit_load
  | W_commit_cas int
  | W_load                      \<comment> \<open>head of the waiting loop\<close>
  | W_park
  | W_return status
  | W_panic

datatype ack_pc =
    A_none                      \<comment> \<open>the acknowledgement does not exist yet\<close>
  | A_held                      \<comment> \<open>handed to the transport, not used\<close>
  | A_load status               \<comment> \<open>\<open>commit_status\<close>: before the load\<close>
  | A_cas status int
  | A_unpark
  | A_done

datatype cleanup_pc =
    K_idle                      \<comment> \<open>\<open>close_for_cleanup\<close> not called\<close>
  | K_flag                      \<comment> \<open>flag stored; \<open>commit_cleanup_if_requested\<close> reads it\<close>
  | K_load
  | K_cas int
  | K_unpark
  | K_done

record latch_sys =
  outcome :: int
  cleanup_requested :: bool
  waiter_set :: bool
  token :: bool
  wpc :: waiter_pc
  apc :: ack_pc
  kpc :: "nat \<Rightarrow> cleanup_pc"

definition latch_new :: latch_sys where
  "latch_new = \<lparr>outcome = TERMINAL_PENDING, cleanup_requested = False, waiter_set = False,
    token = False, wpc = W_claim, apc = A_none, kpc = (\<lambda>_. K_idle)\<rparr>"

subsection \<open>The methods, one shared access at a time\<close>

definition returned :: "int \<Rightarrow> waiter_pc" where
  "returned out = (case status_for_terminal_outcome out of Some st \<Rightarrow> W_return st | None \<Rightarrow> W_panic)"

text \<open>\<open>unpark\<close> makes the park token available; without a registered waiter nothing happens.\<close>

definition unpark_waiter :: "latch_sys \<Rightarrow> latch_sys" where
  "unpark_waiter s = (if waiter_set s then s\<lparr>token := True\<rparr> else s)"

definition admission_next :: "int \<Rightarrow> int option" where
  "admission_next current =
    (if current = TERMINAL_ADMITTING then Some TERMINAL_WAITING
     else if current = TERMINAL_CLEANUP_ADMITTING then Some TERMINAL_CLOSING
     else None)"

definition cleanup_next :: "int \<Rightarrow> int" where
  "cleanup_next current =
    (if current = TERMINAL_ADMITTING then TERMINAL_CLEANUP_ADMITTING else TERMINAL_CLOSING)"

definition commit_blocked :: "int \<Rightarrow> bool" where
  "commit_blocked current \<longleftrightarrow> is_terminal_outcome current \<or> current = TERMINAL_CLEANUP_ADMITTING"

text \<open>
  \<open>enqueue_terminal_and_wait\<close> with the methods it calls. A parked waiter and one inside
  the callback are moved by actions of the environment.
\<close>

definition waiter_step :: "latch_sys \<Rightarrow> latch_sys option" where
  "waiter_step s = (case wpc s of
      W_claim \<Rightarrow> Some (if outcome s = TERMINAL_PENDING
        then s\<lparr>outcome := TERMINAL_ADMITTING, wpc := W_register\<rparr>
        else s\<lparr>wpc := returned (outcome s)\<rparr>)
    | W_register \<Rightarrow> Some (if waiter_set s then s\<lparr>wpc := W_panic\<rparr>
        else s\<lparr>waiter_set := True, apc := A_held, wpc := W_enqueue\<rparr>)
    | W_enqueue \<Rightarrow> None
    | W_fail_load st \<Rightarrow> Some (if is_terminal_outcome (outcome s) then s\<lparr>wpc := W_fail_result\<rparr>
        else s\<lparr>wpc := W_fail_cas st (outcome s)\<rparr>)
    | W_fail_cas st cur \<Rightarrow> Some (if outcome s = cur
        then s\<lparr>outcome := int st, wpc := W_fail_unpark\<rparr> else s\<lparr>wpc := W_fail_load st\<rparr>)
    | W_fail_unpark \<Rightarrow> Some ((unpark_waiter s)\<lparr>wpc := W_fail_result\<rparr>)
    | W_fail_result \<Rightarrow> Some (s\<lparr>wpc := returned (outcome s)\<rparr>)
    | W_admit_load \<Rightarrow> Some (if admission_next (outcome s) = None then s\<lparr>wpc := W_flag\<rparr>
        else s\<lparr>wpc := W_admit_cas (outcome s)\<rparr>)
    | W_admit_cas cur \<Rightarrow> Some (if outcome s = cur
        then s\<lparr>outcome := the (admission_next cur), wpc := W_flag\<rparr> else s\<lparr>wpc := W_admit_load\<rparr>)
    | W_flag \<Rightarrow> Some (if cleanup_requested s then s\<lparr>wpc := W_commit_load\<rparr> else s\<lparr>wpc := W_load\<rparr>)
    | W_commit_load \<Rightarrow> Some (if commit_blocked (outcome s) then s\<lparr>wpc := W_load\<rparr>
        else s\<lparr>wpc := W_commit_cas (outcome s)\<rparr>)
    | W_commit_cas cur \<Rightarrow> Some (if outcome s = cur
        then s\<lparr>outcome := cleanup_next cur, wpc := W_load\<rparr> else s\<lparr>wpc := W_commit_load\<rparr>)
    | W_load \<Rightarrow> Some (if is_terminal_outcome (outcome s) then s\<lparr>wpc := returned (outcome s)\<rparr>
        else s\<lparr>wpc := W_park\<rparr>)
    | W_park \<Rightarrow> (if token s then Some (s\<lparr>token := False, wpc := W_flag\<rparr>) else None)
    | W_return st \<Rightarrow> None
    | W_panic \<Rightarrow> None)"

text \<open>\<open>acknowledge\<close>, that is \<open>commit_status\<close>.\<close>

definition ack_step :: "latch_sys \<Rightarrow> latch_sys option" where
  "ack_step s = (case apc s of
      A_load st \<Rightarrow> Some (if commit_blocked (outcome s) then s\<lparr>apc := A_done\<rparr>
        else s\<lparr>apc := A_cas st (outcome s)\<rparr>)
    | A_cas st cur \<Rightarrow> Some (if outcome s = cur
        then s\<lparr>outcome := int st, apc := A_unpark\<rparr> else s\<lparr>apc := A_load st\<rparr>)
    | A_unpark \<Rightarrow> Some ((unpark_waiter s)\<lparr>apc := A_done\<rparr>)
    | _ \<Rightarrow> None)"

text \<open>\<open>close_for_cleanup\<close>, with \<open>commit_cleanup_if_requested\<close>.\<close>

definition cleanup_step :: "nat \<Rightarrow> latch_sys \<Rightarrow> latch_sys option" where
  "cleanup_step k s = (let at = (\<lambda>pc. s\<lparr>kpc := (kpc s)(k := pc)\<rparr>) in case kpc s k of
      K_idle \<Rightarrow> Some ((at K_flag)\<lparr>cleanup_requested := True\<rparr>)
    | K_flag \<Rightarrow> Some (if cleanup_requested s then at K_load else at K_unpark)
    | K_load \<Rightarrow> Some (if commit_blocked (outcome s) then at K_unpark else at (K_cas (outcome s)))
    | K_cas cur \<Rightarrow> Some (if outcome s = cur
        then (at K_unpark)\<lparr>outcome := cleanup_next cur\<rparr> else at K_load)
    | K_unpark \<Rightarrow> Some (unpark_waiter (at K_done))
    | K_done \<Rightarrow> None)"

datatype latch_action =
    Waiter
  | Enqueue_returns status
  | Spurious_wakeup
  | Ack_call status
  | Ack
  | Cleanup nat

fun latch_exec :: "latch_action \<Rightarrow> latch_sys \<Rightarrow> latch_sys option" where
  "latch_exec Waiter s = waiter_step s"
| "latch_exec (Enqueue_returns st) s =
    (if wpc s = W_enqueue
     then Some (s\<lparr>wpc := (if st = Status_Ok then W_admit_load else W_fail_load st)\<rparr>) else None)"
| "latch_exec Spurious_wakeup s = (if wpc s = W_park then Some (s\<lparr>wpc := W_flag\<rparr>) else None)"
| "latch_exec (Ack_call st) s = (if apc s = A_held then Some (s\<lparr>apc := A_load st\<rparr>) else None)"
| "latch_exec Ack s = ack_step s"
| "latch_exec (Cleanup k) s = cleanup_step k s"

fun latch_run :: "latch_action list \<Rightarrow> latch_sys \<Rightarrow> latch_sys option" where
  "latch_run [] s = Some s"
| "latch_run (x # xs) s = (case latch_exec x s of None \<Rightarrow> None | Some t \<Rightarrow> latch_run xs t)"

text \<open>The same executions as a relation, with the actions so far, latest first.\<close>

inductive latch_trace :: "latch_action list \<Rightarrow> latch_sys \<Rightarrow> bool" where
  trace_new: "latch_trace [] latch_new"
| trace_step: "latch_trace xs s \<Longrightarrow> latch_exec x s = Some t \<Longrightarrow> latch_trace (x # xs) t"

inductive_cases latch_trace_Cons: "latch_trace (x # xs) t"

lemma latch_trace_run: "latch_trace xs s \<Longrightarrow> latch_run ys s = Some t \<Longrightarrow> latch_trace (rev ys @ xs) t"
proof (induction ys arbitrary: xs s)
  case Nil
  then show ?case by simp
next
  case (Cons y ys)
  then obtain u where "latch_exec y s = Some u" "latch_run ys u = Some t"
    by (auto split: option.splits)
  with Cons.IH [of "y # xs" u] Cons.prems(1) show ?case by (simp add: trace_step)
qed

lemma latch_run_trace: "latch_run ys latch_new = Some t \<Longrightarrow> latch_trace (rev ys) t"
  using latch_trace_run [OF trace_new] by fastforce

subsection \<open>Invariant\<close>

definition admitting :: "int \<Rightarrow> bool" where
  "admitting out \<longleftrightarrow> out = TERMINAL_ADMITTING \<or> out = TERMINAL_CLEANUP_ADMITTING"

definition awaiting :: "int \<Rightarrow> bool" where
  "awaiting out \<longleftrightarrow> out = TERMINAL_WAITING \<or> is_terminal_outcome out"

text \<open>What the waiter's position says about the outcome and the two hand-over cells.\<close>

fun waiter_ok :: "waiter_pc \<Rightarrow> int \<Rightarrow> bool \<Rightarrow> bool \<Rightarrow> bool" where
  "waiter_ok W_claim out reg none \<longleftrightarrow> (out = TERMINAL_PENDING \<or> out = TERMINAL_CLOSING) \<and> \<not> reg \<and> none"
| "waiter_ok W_register out reg none \<longleftrightarrow> admitting out \<and> \<not> reg \<and> none"
| "waiter_ok W_enqueue out reg none \<longleftrightarrow> (admitting out \<or> out \<ge> 0) \<and> reg"
| "waiter_ok (W_fail_load st) out reg none \<longleftrightarrow> (admitting out \<or> out \<ge> 0) \<and> reg \<and> st \<noteq> Status_Ok"
| "waiter_ok (W_fail_cas st cur) out reg none \<longleftrightarrow>
    (admitting out \<or> out \<ge> 0) \<and> reg \<and> st \<noteq> Status_Ok \<and> admitting cur"
| "waiter_ok W_fail_unpark out reg none \<longleftrightarrow> out \<ge> 0 \<and> reg"
| "waiter_ok W_fail_result out reg none \<longleftrightarrow> out \<ge> 0 \<and> reg"
| "waiter_ok W_admit_load out reg none \<longleftrightarrow> (admitting out \<or> out \<ge> 0) \<and> reg"
| "waiter_ok (W_admit_cas cur) out reg none \<longleftrightarrow> (admitting out \<or> out \<ge> 0) \<and> reg \<and> admitting cur"
| "waiter_ok W_flag out reg none \<longleftrightarrow> awaiting out \<and> reg"
| "waiter_ok W_commit_load out reg none \<longleftrightarrow> awaiting out \<and> reg"
| "waiter_ok (W_commit_cas cur) out reg none \<longleftrightarrow> awaiting out \<and> reg \<and> cur = TERMINAL_WAITING"
| "waiter_ok W_load out reg none \<longleftrightarrow> awaiting out \<and> reg"
| "waiter_ok W_park out reg none \<longleftrightarrow> awaiting out \<and> reg"
| "waiter_ok (W_return st) out reg none \<longleftrightarrow> status_for_terminal_outcome out = Some st"
| "waiter_ok W_panic out reg none \<longleftrightarrow> False"

fun ack_ok :: "ack_pc \<Rightarrow> int \<Rightarrow> bool" where
  "ack_ok A_none out \<longleftrightarrow> True"
| "ack_ok A_held out \<longleftrightarrow> out \<noteq> TERMINAL_PENDING"
| "ack_ok (A_load st) out \<longleftrightarrow> out \<noteq> TERMINAL_PENDING"
| "ack_ok (A_cas st cur) out \<longleftrightarrow> out \<noteq> TERMINAL_PENDING \<and> (cur = TERMINAL_ADMITTING \<or> cur = TERMINAL_WAITING)"
| "ack_ok A_unpark out \<longleftrightarrow> is_terminal_outcome out"
| "ack_ok A_done out \<longleftrightarrow> commit_blocked out"

fun cleanup_ok :: "cleanup_pc \<Rightarrow> int \<Rightarrow> bool \<Rightarrow> bool" where
  "cleanup_ok K_idle out req \<longleftrightarrow> True"
| "cleanup_ok K_flag out req \<longleftrightarrow> req"
| "cleanup_ok K_load out req \<longleftrightarrow> req"
| "cleanup_ok (K_cas cur) out req \<longleftrightarrow>
    req \<and> (cur = TERMINAL_PENDING \<or> cur = TERMINAL_ADMITTING \<or> cur = TERMINAL_WAITING)"
| "cleanup_ok K_unpark out req \<longleftrightarrow> req \<and> commit_blocked out"
| "cleanup_ok K_done out req \<longleftrightarrow> req \<and> commit_blocked out"

text \<open>The changes of the outcome each party makes.\<close>

definition cleanup_move :: "int \<Rightarrow> int \<Rightarrow> bool" where
  "cleanup_move a b \<longleftrightarrow> b = a
    \<or> a = TERMINAL_PENDING \<and> b = TERMINAL_CLOSING
    \<or> a = TERMINAL_ADMITTING \<and> b = TERMINAL_CLEANUP_ADMITTING
    \<or> a = TERMINAL_WAITING \<and> b = TERMINAL_CLOSING"

definition ack_move :: "int \<Rightarrow> int \<Rightarrow> bool" where
  "ack_move a b \<longleftrightarrow> b = a \<or> (a = TERMINAL_ADMITTING \<or> a = TERMINAL_WAITING) \<and> b \<ge> 0"

definition waiter_move :: "int \<Rightarrow> int \<Rightarrow> bool" where
  "waiter_move a b \<longleftrightarrow> b = a
    \<or> a = TERMINAL_PENDING \<and> b = TERMINAL_ADMITTING
    \<or> a = TERMINAL_ADMITTING \<and> b = TERMINAL_WAITING
    \<or> a = TERMINAL_CLEANUP_ADMITTING \<and> b = TERMINAL_CLOSING
    \<or> a = TERMINAL_WAITING \<and> b = TERMINAL_CLOSING
    \<or> admitting a \<and> b \<ge> 0"

definition latch_valid :: "int \<Rightarrow> bool" where
  "latch_valid out \<longleftrightarrow> out = TERMINAL_PENDING \<or> admitting out \<or> awaiting out"

lemmas latch_defs = admitting_def awaiting_def commit_blocked_def is_terminal_outcome_def
  latch_valid_def latch_codes

definition outcome_move :: "int \<Rightarrow> int \<Rightarrow> bool" where
  "outcome_move a b \<longleftrightarrow> cleanup_move a b \<or> ack_move a b \<or> waiter_move a b"

lemmas move_defs = outcome_move_def cleanup_move_def ack_move_def waiter_move_def

lemma waiter_ok_cleanup: "waiter_ok pc a reg none \<Longrightarrow> cleanup_move a b \<Longrightarrow> waiter_ok pc b reg none"
  by (cases pc) (auto simp: move_defs status_for_terminal_outcome_def latch_defs split: if_splits)

lemma waiter_ok_ack: "waiter_ok pc a reg False \<Longrightarrow> ack_move a b \<Longrightarrow> waiter_ok pc b reg False"
  by (cases pc) (auto simp: move_defs status_for_terminal_outcome_def latch_defs split: if_splits)

lemma ack_ok_move: "ack_ok pc a \<Longrightarrow> outcome_move a b \<Longrightarrow> ack_ok pc b"
  by (cases pc) (auto simp: move_defs latch_defs)

lemma cleanup_ok_move: "cleanup_ok pc a req \<Longrightarrow> outcome_move a b \<Longrightarrow> cleanup_ok pc b req"
  by (cases pc) (auto simp: move_defs latch_defs)

lemma valid_move: "latch_valid a \<Longrightarrow> outcome_move a b \<Longrightarrow> latch_valid b"
  by (auto simp: move_defs latch_defs)

lemma terminal_move: "is_terminal_outcome a \<Longrightarrow> outcome_move a b \<Longrightarrow> b = a"
  by (auto simp: move_defs latch_defs)

definition wakeup_ok :: "latch_sys \<Rightarrow> bool" where
  "wakeup_ok s \<longleftrightarrow> (wpc s = W_park \<and> is_terminal_outcome (outcome s) \<longrightarrow>
    token s \<or> apc s = A_unpark \<or> (\<exists>k. kpc s k = K_unpark))"

definition latch_inv :: "latch_sys \<Rightarrow> bool" where
  "latch_inv s \<longleftrightarrow> waiter_ok (wpc s) (outcome s) (waiter_set s) (apc s = A_none) \<and>
    ack_ok (apc s) (outcome s) \<and> (\<forall>k. cleanup_ok (kpc s k) (outcome s) (cleanup_requested s)) \<and>
    (cleanup_requested s \<longrightarrow> (\<exists>k. kpc s k \<noteq> K_idle)) \<and> latch_valid (outcome s) \<and> wakeup_ok s"

lemma latch_inv_new: "latch_inv latch_new"
  by (simp add: latch_inv_def latch_new_def latch_valid_def wakeup_ok_def)

text \<open>What one step of each party changes.\<close>

lemma unpark_sel [simp]:
  "outcome (unpark_waiter s) = outcome s" "wpc (unpark_waiter s) = wpc s"
  "apc (unpark_waiter s) = apc s" "kpc (unpark_waiter s) = kpc s"
  "waiter_set (unpark_waiter s) = waiter_set s"
  "cleanup_requested (unpark_waiter s) = cleanup_requested s"
  "token (unpark_waiter s) \<longleftrightarrow> token s \<or> waiter_set s"
  by (simp_all add: unpark_waiter_def)

lemma ack_effect:
  assumes "ack_ok (apc s) (outcome s)" "latch_valid (outcome s)" "ack_step s = Some t"
  shows "ack_move (outcome s) (outcome t) \<and> ack_ok (apc t) (outcome t) \<and>
    (apc t = A_none) = (apc s = A_none) \<and> wpc t = wpc s \<and> waiter_set t = waiter_set s \<and>
    kpc t = kpc s \<and> cleanup_requested t = cleanup_requested s \<and> (token s \<longrightarrow> token t) \<and>
    (apc t = A_unpark \<or> outcome t = outcome s) \<and> (apc s = A_unpark \<and> waiter_set s \<longrightarrow> token t)"
  using assms
  by (cases "apc s"; simp only: ack_step_def ack_pc.simps option.simps split: if_splits;
    fastforce simp: ack_move_def latch_defs split: if_splits)

lemma cleanup_effect:
  assumes "cleanup_ok (kpc s k) (outcome s) (cleanup_requested s)" "latch_valid (outcome s)" "cleanup_step k s = Some t"
  shows "cleanup_move (outcome s) (outcome t) \<and>
    cleanup_ok (kpc t k) (outcome t) (cleanup_requested t) \<and>
    (\<forall>j. j \<noteq> k \<longrightarrow> kpc t j = kpc s j) \<and> kpc t k \<noteq> K_idle \<and> wpc t = wpc s \<and>
    waiter_set t = waiter_set s \<and> apc t = apc s \<and> cleanup_requested t \<and>
    (token s \<longrightarrow> token t) \<and> (kpc t k = K_unpark \<or> outcome t = outcome s) \<and>
    (kpc s k = K_unpark \<and> waiter_set s \<longrightarrow> token t)"
  using assms
  by (cases "kpc s k"; simp only: cleanup_step_def Let_def cleanup_pc.simps option.simps split: if_splits;
    fastforce simp: cleanup_move_def cleanup_next_def latch_defs split: if_splits)

lemma waiter_effect:
  assumes "waiter_ok (wpc s) (outcome s) (waiter_set s) (apc s = A_none)" "waiter_step s = Some t"
  shows "waiter_move (outcome s) (outcome t) \<and>
    waiter_ok (wpc t) (outcome t) (waiter_set t) (apc t = A_none) \<and>
    (apc t = apc s \<or> apc s = A_none \<and> apc t = A_held \<and> outcome t \<noteq> TERMINAL_PENDING) \<and>
    kpc t = kpc s \<and> cleanup_requested t = cleanup_requested s \<and>
    \<not> (wpc t = W_park \<and> is_terminal_outcome (outcome t))"
  using assms
  by (cases "wpc s"; simp only: waiter_step_def waiter_pc.simps option.simps split: if_splits;
    fastforce simp: waiter_move_def latch_defs cleanup_next_def returned_def
      status_for_terminal_outcome_def admission_next_def split: if_splits)

lemma latch_exec_inv:
  assumes inv: "latch_inv s" and ex: "latch_exec x s = Some t"
  shows "latch_inv t \<and> outcome_move (outcome s) (outcome t)"
proof (cases x)
  case Waiter
  then have st: "waiter_step s = Some t" using ex by simp
  have w: "waiter_ok (wpc s) (outcome s) (waiter_set s) (apc s = A_none)" using inv by (simp add: latch_inv_def)
  note e = waiter_effect [OF w st]
  then have m: "outcome_move (outcome s) (outcome t)" by (simp add: outcome_move_def)
  have "ack_ok (apc t) (outcome t)"
    using e ack_ok_move [OF _ m, of "apc s"] inv by (auto simp: latch_inv_def)
  moreover have "cleanup_ok (kpc t k) (outcome t) (cleanup_requested t)" for k
    using e cleanup_ok_move [OF _ m, of "kpc s k"] inv by (auto simp: latch_inv_def)
  moreover have "latch_valid (outcome t)" using valid_move [OF _ m] inv by (simp add: latch_inv_def)
  ultimately show ?thesis using e m inv by (auto simp: latch_inv_def wakeup_ok_def)
next
  case Ack
  then have st: "ack_step s = Some t" using ex by simp
  have a: "ack_ok (apc s) (outcome s)" "latch_valid (outcome s)" using inv by (simp_all add: latch_inv_def)
  note e = ack_effect [OF a st]
  then have m: "outcome_move (outcome s) (outcome t)" by (simp add: outcome_move_def)
  have n: "apc s \<noteq> A_none" using st by (auto simp: ack_step_def)
  have "waiter_ok (wpc t) (outcome t) (waiter_set t) (apc t = A_none)"
    using e waiter_ok_ack [of "wpc s" "outcome s" "waiter_set s" "outcome t"] n inv
    by (auto simp: latch_inv_def)
  moreover have "cleanup_ok (kpc t k) (outcome t) (cleanup_requested t)" for k
    using e cleanup_ok_move [OF _ m, of "kpc s k"] inv by (auto simp: latch_inv_def)
  moreover have "latch_valid (outcome t)" using valid_move [OF _ m] inv by (simp add: latch_inv_def)
  moreover have "wakeup_ok t"
  proof (cases "wpc s = W_park")
    case True
    then have "waiter_set s" using inv by (simp add: latch_inv_def)
    then show ?thesis using e inv by (auto simp: latch_inv_def wakeup_ok_def)
  qed (use e in \<open>simp add: wakeup_ok_def\<close>)
  ultimately show ?thesis using e m inv by (simp add: latch_inv_def)
next
  case (Cleanup k)
  then have st: "cleanup_step k s = Some t" using ex by simp
  have c: "cleanup_ok (kpc s k) (outcome s) (cleanup_requested s)" "latch_valid (outcome s)"
    using inv by (simp_all add: latch_inv_def)
  note e = cleanup_effect [OF c st]
  then have m: "outcome_move (outcome s) (outcome t)" by (simp add: outcome_move_def)
  have "waiter_ok (wpc t) (outcome t) (waiter_set t) (apc t = A_none)"
    using e waiter_ok_cleanup [of "wpc s" "outcome s" "waiter_set s"] inv by (auto simp: latch_inv_def)
  moreover have "ack_ok (apc t) (outcome t)"
    using e ack_ok_move [OF _ m, of "apc s"] inv by (auto simp: latch_inv_def)
  moreover have "cleanup_ok (kpc t j) (outcome t) (cleanup_requested t)" for j
  proof (cases "j = k")
    case False
    then have j: "kpc t j = kpc s j" using e by blast
    have "cleanup_ok (kpc s j) (outcome t) (cleanup_requested s)"
      using cleanup_ok_move [OF _ m] inv by (simp add: latch_inv_def)
    then show ?thesis using j e by (cases "kpc s j") auto
  qed (use e in blast)
  moreover have "latch_valid (outcome t)" using valid_move [OF _ m] inv by (simp add: latch_inv_def)
  moreover have "wakeup_ok t"
  proof (cases "wpc s = W_park")
    case True
    then have "waiter_set s" using inv by (simp add: latch_inv_def)
    then show ?thesis using e inv unfolding latch_inv_def wakeup_ok_def by metis
  qed (use e in \<open>simp add: wakeup_ok_def\<close>)
  ultimately show ?thesis using e m unfolding latch_inv_def by blast
next
  case (Enqueue_returns st)
  then have "wpc s = W_enqueue"
    "t = s\<lparr>wpc := (if st = Status_Ok then W_admit_load else W_fail_load st)\<rparr>"
    using ex by (simp_all split: if_splits)
  then show ?thesis using inv by (simp add: latch_inv_def wakeup_ok_def outcome_move_def waiter_move_def)
next
  case Spurious_wakeup
  then have "wpc s = W_park" "t = s\<lparr>wpc := W_flag\<rparr>" using ex by (simp_all split: if_splits)
  then show ?thesis using inv by (simp add: latch_inv_def wakeup_ok_def outcome_move_def waiter_move_def)
next
  case (Ack_call st)
  then have "apc s = A_held" "t = s\<lparr>apc := A_load st\<rparr>" using ex by (simp_all split: if_splits)
  then show ?thesis using inv by (simp add: latch_inv_def wakeup_ok_def outcome_move_def waiter_move_def)
qed

lemma latch_trace_inv: "latch_trace xs s \<Longrightarrow> latch_inv s"
  by (induction rule: latch_trace.induct) (auto simp: latch_inv_new dest: latch_exec_inv)

lemma latch_run_inv:
  "latch_run xs s = Some t \<Longrightarrow> latch_inv s \<Longrightarrow>
    latch_inv t \<and> (is_terminal_outcome (outcome s) \<longrightarrow> outcome t = outcome s)"
proof (induction xs arbitrary: s)
  case Nil
  then show ?case by simp
next
  case (Cons x xs)
  then obtain u where u: "latch_exec x s = Some u" "latch_run xs u = Some t"
    by (auto split: option.splits)
  with latch_exec_inv [OF Cons.prems(2) u(1)] Cons.IH [of u] terminal_move show ?case by metis
qed

text \<open>
  C16. The committed outcome of the terminal hand-over is final: once any of the three parties
  has committed it, no later step of the callback, of any cleanup or of the waiter changes it.
\<close>

theorem terminal_outcome_stable:
  assumes "latch_run xs latch_new = Some s" and "is_terminal_outcome (outcome s)"
    and "latch_run ys s = Some t"
  shows "outcome t = outcome s"
  using latch_run_inv [OF assms(3)] latch_trace_inv [OF latch_run_trace [OF assms(1)]] assms(2)
  by blast

text \<open>
  In every interleaving the waiter returns only a committed outcome, the one every party
  sees from then on, and never runs into the \<open>unreachable!\<close> of
  \<open>status_for_terminal_outcome\<close> or registers its thread twice.
\<close>

theorem waiter_returns_committed_outcome:
  assumes "latch_run xs latch_new = Some s"
  shows "wpc s \<noteq> W_panic \<and>
    (\<forall>st. wpc s = W_return st \<longrightarrow> status_for_terminal_outcome (outcome s) = Some st)"
  using latch_trace_inv [OF latch_run_trace [OF assms]] by (auto simp: latch_inv_def)

subsection \<open>No lost wake-up\<close>

text \<open>The waiter, running alone, returns within \<open>n\<close> of its own steps.\<close>

definition returns_within :: "nat \<Rightarrow> latch_sys \<Rightarrow> bool" where
  "returns_within n s \<longleftrightarrow> (\<exists>m \<le> n. \<exists>t st. latch_run (replicate m Waiter) s = Some t \<and> wpc t = W_return st)"

lemma returns_now: "wpc s = W_return st \<Longrightarrow> returns_within 0 s"
  by (auto simp: returns_within_def)

lemma returns_step: "waiter_step s = Some u \<Longrightarrow> returns_within n u \<Longrightarrow> returns_within (Suc n) s"
  unfolding returns_within_def
  by (metis Suc_le_mono latch_exec.simps(1) latch_run.simps(2) option.simps(5) replicate_Suc)

lemma returns_mono: "returns_within n s \<Longrightarrow> n \<le> m \<Longrightarrow> returns_within m s"
  unfolding returns_within_def using le_trans by blast

lemma terminal_returned: "is_terminal_outcome out \<Longrightarrow> \<exists>st. returned out = W_return st"
  by (auto simp: returned_def status_for_terminal_outcome_def is_terminal_outcome_def)

lemma returns_load:
  assumes "wpc s = W_load" "is_terminal_outcome (outcome s)"
  shows "returns_within 1 s"
proof -
  obtain st where "returned (outcome s) = W_return st" using terminal_returned [OF assms(2)] ..
  then show ?thesis
    using returns_step [of s "s\<lparr>wpc := returned (outcome s)\<rparr>" 0] assms
    by (simp add: waiter_step_def returns_now)
qed

lemma returns_fail_result:
  assumes "wpc s = W_fail_result" "is_terminal_outcome (outcome s)"
  shows "returns_within 1 s"
proof -
  obtain st where "returned (outcome s) = W_return st" using terminal_returned [OF assms(2)] ..
  then show ?thesis
    using returns_step [of s "s\<lparr>wpc := returned (outcome s)\<rparr>" 0] assms
    by (simp add: waiter_step_def returns_now)
qed

lemma returns_commit_load:
  assumes "wpc s = W_commit_load" "is_terminal_outcome (outcome s)"
  shows "returns_within 2 s"
  using returns_step [of s "s\<lparr>wpc := W_load\<rparr>" 1] assms returns_load [of "s\<lparr>wpc := W_load\<rparr>"]
  by (simp add: waiter_step_def commit_blocked_def numeral_2_eq_2)

lemma returns_flag:
  assumes "wpc s = W_flag" "is_terminal_outcome (outcome s)"
  shows "returns_within 3 s"
proof (cases "cleanup_requested s")
  case True
  then show ?thesis
    using returns_step [of s "s\<lparr>wpc := W_commit_load\<rparr>" 2] assms
      returns_commit_load [of "s\<lparr>wpc := W_commit_load\<rparr>"]
    by (simp add: waiter_step_def)
next
  case False
  then show ?thesis
    using returns_step [of s "s\<lparr>wpc := W_load\<rparr>" 1] assms returns_load [of "s\<lparr>wpc := W_load\<rparr>"]
      returns_mono [of 2 s 3]
    by (simp add: waiter_step_def numeral_2_eq_2)
qed

lemma returns_admit_load:
  assumes "wpc s = W_admit_load" "commit_blocked (outcome s)" "admitting (outcome s) \<or> outcome s \<ge> 0"
  shows "returns_within 5 s"
proof (cases "outcome s = TERMINAL_CLEANUP_ADMITTING")
  case True
  let ?u = "s\<lparr>wpc := W_admit_cas (outcome s)\<rparr>"
  let ?v = "?u\<lparr>outcome := TERMINAL_CLOSING, wpc := W_flag\<rparr>"
  have "returns_within 3 ?v" by (rule returns_flag) (simp_all add: is_terminal_outcome_def)
  moreover have "waiter_step ?u = Some ?v" "waiter_step s = Some ?u"
    using True assms by (simp_all add: waiter_step_def admission_next_def latch_codes)
  ultimately have "returns_within (Suc (Suc 3)) s" by (blast intro: returns_step)
  then show ?thesis by simp
next
  case False
  then have "is_terminal_outcome (outcome s)" "admission_next (outcome s) = None"
    using assms by (auto simp: latch_defs admission_next_def)
  then show ?thesis
    using returns_step [of s "s\<lparr>wpc := W_flag\<rparr>" 3] returns_flag [of "s\<lparr>wpc := W_flag\<rparr>"] assms
      returns_mono [of 4 s 5]
    by (simp add: waiter_step_def)
qed

lemma returns_fail_load:
  assumes "wpc s = W_fail_load st"
  shows "returns_within 4 s"
proof (cases "is_terminal_outcome (outcome s)")
  case True
  then have "returns_within (Suc 1) s"
    using returns_step [of s "s\<lparr>wpc := W_fail_result\<rparr>" 1] assms
      returns_fail_result [of "s\<lparr>wpc := W_fail_result\<rparr>"] by (simp add: waiter_step_def)
  then show ?thesis by (rule returns_mono) simp
next
  case False
  let ?u = "s\<lparr>wpc := W_fail_cas st (outcome s)\<rparr>"
  let ?v = "?u\<lparr>outcome := int st, wpc := W_fail_unpark\<rparr>"
  let ?w = "(unpark_waiter ?v)\<lparr>wpc := W_fail_result\<rparr>"
  have "returns_within 1 ?w" by (rule returns_fail_result) (simp_all add: is_terminal_outcome_def)
  moreover have "waiter_step ?v = Some ?w" "waiter_step ?u = Some ?v" "waiter_step s = Some ?u"
    using False assms by (simp_all add: waiter_step_def)
  ultimately have "returns_within (Suc (Suc (Suc 1))) s" by (blast intro: returns_step)
  then show ?thesis by (simp add: numeral_eq_Suc)
qed

lemma returns_fail_cas:
  assumes "wpc s = W_fail_cas st cur"
  shows "returns_within 5 s"
proof (cases "outcome s = cur")
  case True
  let ?v = "s\<lparr>outcome := int st, wpc := W_fail_unpark\<rparr>"
  let ?w = "(unpark_waiter ?v)\<lparr>wpc := W_fail_result\<rparr>"
  have "returns_within 1 ?w" by (rule returns_fail_result) (simp_all add: is_terminal_outcome_def)
  moreover have "waiter_step ?v = Some ?w" "waiter_step s = Some ?v"
    using True assms by (simp_all add: waiter_step_def)
  ultimately have "returns_within (Suc (Suc 1)) s" by (blast intro: returns_step)
  then show ?thesis by (rule returns_mono) simp
next
  case False
  then have "returns_within (Suc 4) s"
    using returns_step [of s "s\<lparr>wpc := W_fail_load st\<rparr>" 4] assms
      returns_fail_load [of "s\<lparr>wpc := W_fail_load st\<rparr>" st] by (simp add: waiter_step_def)
  then show ?thesis by simp
qed

lemma returns_admit_cas:
  assumes "wpc s = W_admit_cas cur" "admitting cur"
    and "commit_blocked (outcome s)" "admitting (outcome s) \<or> outcome s \<ge> 0"
  shows "returns_within 6 s"
proof (cases "outcome s = cur")
  case True
  then have cur: "cur = TERMINAL_CLEANUP_ADMITTING" using assms by (auto simp: latch_defs)
  let ?v = "s\<lparr>outcome := the (admission_next cur), wpc := W_flag\<rparr>"
  have "returns_within 3 ?v"
    by (rule returns_flag) (simp_all add: is_terminal_outcome_def admission_next_def cur latch_codes)
  then have "returns_within (Suc 3) s"
    using True assms(1) by (intro returns_step [of s ?v]) (simp_all add: waiter_step_def)
  then show ?thesis by (rule returns_mono) simp
next
  case False
  then have "returns_within (Suc 5) s"
    using returns_step [of s "s\<lparr>wpc := W_admit_load\<rparr>" 5] assms
      returns_admit_load [of "s\<lparr>wpc := W_admit_load\<rparr>"] by (simp add: waiter_step_def)
  then show ?thesis by simp
qed

lemma returns_park:
  assumes "wpc s = W_park" "token s" "is_terminal_outcome (outcome s)"
  shows "returns_within 4 s"
  using returns_step [of s "s\<lparr>token := False, wpc := W_flag\<rparr>" 3] assms
    returns_flag [of "s\<lparr>token := False, wpc := W_flag\<rparr>"] by (simp add: waiter_step_def)

lemma returns_commit_cas:
  assumes "wpc s = W_commit_cas cur" "cur = TERMINAL_WAITING" "is_terminal_outcome (outcome s)"
  shows "returns_within 3 s"
  using returns_step [of s "s\<lparr>wpc := W_commit_load\<rparr>" 2] assms
    returns_commit_load [of "s\<lparr>wpc := W_commit_load\<rparr>"] by (auto simp: waiter_step_def latch_defs)

definition past_enqueue :: "waiter_pc \<Rightarrow> bool" where
  "past_enqueue pc \<longleftrightarrow> pc \<noteq> W_claim \<and> pc \<noteq> W_register \<and> pc \<noteq> W_enqueue"

lemma quiescent_committed:
  assumes "latch_inv s" "apc s = A_done \<or> cleanup_requested s" "\<forall>k. kpc s k = K_idle \<or> kpc s k = K_done"
  shows "commit_blocked (outcome s)"
proof (cases "apc s = A_done")
  case True
  then show ?thesis using assms(1) by (simp add: latch_inv_def)
next
  case False
  then obtain k where "kpc s k \<noteq> K_idle" using assms(1,2) by (auto simp: latch_inv_def)
  then have "kpc s k = K_done" using assms(3) by blast
  moreover have "cleanup_ok (kpc s k) (outcome s) (cleanup_requested s)"
    using assms(1) by (simp add: latch_inv_def)
  ultimately show ?thesis by simp
qed

text \<open>
  C14. No lost wake-up: in every reachable state in which the terminal frame was handed over,
  and either the callback has been acknowledged or some cleanup has been requested, with the
  acknowledging and the cleaning-up threads not in the middle of their calls, the waiter
  returns within six steps of its own. It is not asleep without a wake-up on its way, and its
  retry loops end.
\<close>

theorem waiter_not_stuck:
  assumes "latch_run xs latch_new = Some s" and "past_enqueue (wpc s)"
    and "apc s = A_done \<or> apc s = A_held \<and> cleanup_requested s"
    and "\<forall>k. kpc s k = K_idle \<or> kpc s k = K_done"
  shows "returns_within 6 s"
proof -
  have inv: "latch_inv s" using latch_trace_inv [OF latch_run_trace [OF assms(1)]] .
  have c: "commit_blocked (outcome s)" using quiescent_committed [OF inv _ assms(4)] assms(3) by blast
  have w: "waiter_ok (wpc s) (outcome s) (waiter_set s) (apc s = A_none)" using inv by (simp add: latch_inv_def)
  have t: "awaiting (outcome s) \<Longrightarrow> is_terminal_outcome (outcome s)" using c by (auto simp: latch_defs)
  have p: "token s" if park: "wpc s = W_park"
  proof -
    have "token s \<or> apc s = A_unpark \<or> (\<exists>k. kpc s k = K_unpark)"
      using inv w t park by (simp add: latch_inv_def wakeup_ok_def)
    moreover have "apc s \<noteq> A_unpark" using assms(3) by auto
    moreover have "kpc s k \<noteq> K_unpark" for k
      using assms(4) [rule_format, of k] by auto
    ultimately show ?thesis by blast
  qed
  show ?thesis
  proof (cases "wpc s")
    case (W_fail_load st)
    show ?thesis by (rule returns_mono [OF returns_fail_load [OF W_fail_load]]) simp
  next
    case (W_fail_cas st cur)
    show ?thesis by (rule returns_mono [OF returns_fail_cas [OF W_fail_cas]]) simp
  next
    case W_fail_unpark
    let ?u = "(unpark_waiter s)\<lparr>wpc := W_fail_result\<rparr>"
    have "returns_within 1 ?u"
      by (rule returns_fail_result) (use W_fail_unpark w in \<open>simp_all add: is_terminal_outcome_def\<close>)
    then have "returns_within (Suc 1) s"
      by (rule returns_step [rotated]) (simp add: W_fail_unpark waiter_step_def)
    then show ?thesis by (rule returns_mono) simp
  next
    case W_fail_result
    then show ?thesis using w returns_mono [OF returns_fail_result, of s 6] by (simp add: is_terminal_outcome_def)
  next
    case W_admit_load
    then show ?thesis using w c returns_mono [OF returns_admit_load, of s 6] by simp
  next
    case (W_admit_cas cur)
    then show ?thesis using w c returns_admit_cas [of s cur] by simp
  next
    case W_flag
    then show ?thesis using w t returns_mono [OF returns_flag, of s 6] by simp
  next
    case W_commit_load
    then show ?thesis using w t returns_mono [OF returns_commit_load, of s 6] by simp
  next
    case (W_commit_cas cur)
    then show ?thesis using w t returns_mono [OF returns_commit_cas, of s cur 6] by simp
  next
    case W_load
    then show ?thesis using w t returns_mono [OF returns_load, of s 6] by simp
  next
    case W_park
    then show ?thesis using w t p returns_mono [OF returns_park, of s 6] by simp
  next
    case (W_return st)
    then show ?thesis using returns_mono [OF returns_now, of s st 6] by simp
  qed (use w assms(2) in \<open>simp_all add: past_enqueue_def\<close>)
qed

subsection \<open>Where the outcome comes from\<close>

fun waiter_prov :: "latch_action set \<Rightarrow> waiter_pc \<Rightarrow> bool" where
  "waiter_prov X (W_fail_load st) \<longleftrightarrow> Enqueue_returns st \<in> X \<and> st \<noteq> Status_Ok"
| "waiter_prov X (W_fail_cas st cur) \<longleftrightarrow> Enqueue_returns st \<in> X \<and> st \<noteq> Status_Ok"
| "waiter_prov X W_commit_load \<longleftrightarrow> (\<exists>k. Cleanup k \<in> X)"
| "waiter_prov X (W_commit_cas cur) \<longleftrightarrow> (\<exists>k. Cleanup k \<in> X)"
| "waiter_prov X _ \<longleftrightarrow> True"

fun ack_prov :: "latch_action set \<Rightarrow> ack_pc \<Rightarrow> bool" where
  "ack_prov X (A_load st) \<longleftrightarrow> Ack_call st \<in> X"
| "ack_prov X (A_cas st cur) \<longleftrightarrow> Ack_call st \<in> X"
| "ack_prov X _ \<longleftrightarrow> True"

definition outcome_prov :: "latch_action set \<Rightarrow> int \<Rightarrow> bool" where
  "outcome_prov X out \<longleftrightarrow>
    (out \<ge> 0 \<longrightarrow> (Enqueue_returns (nat out) \<in> X \<and> nat out \<noteq> Status_Ok) \<or> Ack_call (nat out) \<in> X) \<and>
    (out = TERMINAL_CLOSING \<or> out = TERMINAL_CLEANUP_ADMITTING \<longrightarrow> (\<exists>k. Cleanup k \<in> X))"

definition prov :: "latch_action set \<Rightarrow> latch_sys \<Rightarrow> bool" where
  "prov X s \<longleftrightarrow> waiter_prov X (wpc s) \<and> ack_prov X (apc s) \<and> outcome_prov X (outcome s) \<and>
    (cleanup_requested s \<longrightarrow> (\<exists>k. Cleanup k \<in> X))"

lemma waiter_prov_mono: "waiter_prov X pc \<Longrightarrow> X \<subseteq> Y \<Longrightarrow> waiter_prov Y pc"
  by (cases pc) auto

lemma ack_prov_mono: "ack_prov X pc \<Longrightarrow> X \<subseteq> Y \<Longrightarrow> ack_prov Y pc"
  by (cases pc) auto

lemma outcome_prov_mono: "outcome_prov X out \<Longrightarrow> X \<subseteq> Y \<Longrightarrow> outcome_prov Y out"
  unfolding outcome_prov_def by blast

lemma prov_mono: "prov X s \<Longrightarrow> X \<subseteq> Y \<Longrightarrow> prov Y s"
  by (auto simp: prov_def intro: waiter_prov_mono ack_prov_mono outcome_prov_mono)

lemma prov_new: "prov {} latch_new"
  by (simp add: prov_def latch_new_def outcome_prov_def latch_codes)

lemma prov_set_outcome:
  assumes "prov X s" "Enqueue_returns st \<in> X \<and> st \<noteq> Status_Ok \<or> Ack_call st \<in> X"
  shows "outcome_prov X (int st)"
  using assms by (simp add: outcome_prov_def latch_codes)

lemma waiter_prov_returned [simp]: "waiter_prov X (returned out)"
  by (simp add: returned_def split: option.split)

lemma prov_Waiter:
  assumes "waiter_ok (wpc s) (outcome s) (waiter_set s) (apc s = A_none)" "prov X s" "waiter_step s = Some t"
  shows "prov X t"
proof (cases "wpc s")
  case (W_fail_cas st cur)
  then show ?thesis
    using assms prov_set_outcome [OF assms(2), of st]
    by (cases "outcome s = cur") (auto simp: waiter_step_def prov_def)
next
  case (W_admit_cas cur)
  have "outcome_prov X cur \<Longrightarrow> admitting cur \<Longrightarrow> outcome_prov X (the (admission_next cur))"
    by (auto simp: outcome_prov_def admission_next_def admitting_def latch_codes)
  with W_admit_cas show ?thesis
    using assms by (cases "outcome s = cur") (auto simp: waiter_step_def prov_def)
next
  case (W_commit_cas cur)
  have "\<exists>k. Cleanup k \<in> X \<Longrightarrow> outcome_prov X (cleanup_next cur)"
    by (simp add: outcome_prov_def cleanup_next_def latch_codes)
  with W_commit_cas show ?thesis
    using assms(2,3) by (cases "outcome s = cur") (auto simp: waiter_step_def prov_def)
next
  case W_claim
  have "outcome_prov X TERMINAL_ADMITTING" by (simp add: outcome_prov_def latch_codes)
  with W_claim show ?thesis using assms(2,3)
    by (cases "outcome s = TERMINAL_PENDING")
      (auto simp: waiter_step_def prov_def)
next
  case W_flag
  then show ?thesis using assms(2,3)
    by (cases "cleanup_requested s") (auto simp: waiter_step_def prov_def)
next
  case W_park
  then show ?thesis using assms(2,3)
    by (cases "token s") (auto simp: waiter_step_def prov_def)
next
  case W_register
  then show ?thesis using assms(2,3)
    by (cases "waiter_set s") (auto simp: waiter_step_def prov_def)
next
  case W_load
  then show ?thesis using assms(2,3)
    by (cases "is_terminal_outcome (outcome s)")
      (auto simp: waiter_step_def prov_def)
next
  case (W_fail_load st)
  then show ?thesis using assms(2,3)
    by (cases "is_terminal_outcome (outcome s)") (auto simp: waiter_step_def prov_def)
next
  case W_commit_load
  then show ?thesis using assms(2,3)
    by (cases "commit_blocked (outcome s)") (auto simp: waiter_step_def prov_def)
next
  case W_admit_load
  then show ?thesis using assms(2,3)
    by (cases "admission_next (outcome s) = None") (auto simp: waiter_step_def prov_def)
qed (use assms(2,3) in \<open>auto simp: waiter_step_def prov_def\<close>)

lemma prov_Ack:
  assumes "prov X s" "ack_step s = Some t"
  shows "prov X t"
proof (cases "apc s")
  case (A_cas st cur)
  then show ?thesis
    using assms prov_set_outcome [OF assms(1), of st]
    by (cases "outcome s = cur") (auto simp: ack_step_def prov_def)
qed (use assms in \<open>auto simp: ack_step_def prov_def split: if_splits\<close>)

lemma prov_Cleanup:
  assumes "cleanup_ok (kpc s k) (outcome s) (cleanup_requested s)" "prov X s" "Cleanup k \<in> X"
    "cleanup_step k s = Some t"
  shows "prov X t"
proof (cases "kpc s k")
  case (K_cas cur)
  have "outcome_prov X (cleanup_next cur)"
    using assms(3) by (auto simp: outcome_prov_def cleanup_next_def latch_codes)
  then show ?thesis
    using K_cas assms by (cases "outcome s = cur") (auto simp: cleanup_step_def Let_def prov_def)
qed (use assms in \<open>auto simp: cleanup_step_def Let_def prov_def split: if_splits\<close>)

lemma latch_trace_prov: "latch_trace xs s \<Longrightarrow> prov (set xs) s"
proof (induction rule: latch_trace.induct)
  case trace_new
  then show ?case by (simp add: prov_new)
next
  case (trace_step xs s x t)
  have inv: "latch_inv s" using trace_step.hyps(1) by (rule latch_trace_inv)
  have p: "prov (set (x # xs)) s" using trace_step.IH by (rule prov_mono) auto
  show ?case
  proof (cases x)
    case Waiter
    then show ?thesis using prov_Waiter [OF _ p] inv trace_step.hyps(2) by (simp add: latch_inv_def)
  next
    case Ack
    then show ?thesis using prov_Ack [OF p] trace_step.hyps(2) by simp
  next
    case (Cleanup k)
    then show ?thesis using prov_Cleanup [OF _ p, of k] inv trace_step.hyps(2) by (simp add: latch_inv_def)
  next
    case (Enqueue_returns st)
    then show ?thesis using p trace_step.hyps(2) by (auto simp: prov_def split: if_splits)
  next
    case (Ack_call st)
    then show ?thesis using p trace_step.hyps(2) by (auto simp: prov_def split: if_splits)
  next
    case Spurious_wakeup
    then show ?thesis using p trace_step.hyps(2) by (auto simp: prov_def split: if_splits)
  qed
qed

lemma returned_prov:
  assumes "latch_trace xs s" and "wpc s = W_return st"
  shows "st = Status_Closing \<and> (\<exists>k. Cleanup k \<in> set xs)
      \<or> st \<noteq> Status_Ok \<and> Enqueue_returns st \<in> set xs \<or> Ack_call st \<in> set xs"
proof -
  have inv: "latch_inv s" and p: "prov (set xs) s"
    using latch_trace_inv latch_trace_prov assms(1) by auto
  then have "status_for_terminal_outcome (outcome s) = Some st" using assms(2) by (simp add: latch_inv_def)
  then have "outcome s = TERMINAL_CLOSING \<and> st = Status_Closing \<or> outcome s \<ge> 0 \<and> st = nat (outcome s)"
    by (auto simp: status_for_terminal_outcome_def split: if_splits)
  then show ?thesis using p by (auto simp: prov_def outcome_prov_def)
qed

lemma ack_called_exists: "latch_trace xs s \<Longrightarrow> Ack_call st \<in> set xs \<Longrightarrow> apc s \<noteq> A_none"
proof (induction rule: latch_trace.induct)
  case (trace_step xs s x t)
  have "apc t \<noteq> A_none" if "apc s \<noteq> A_none"
  proof (cases x)
    case Waiter
    with trace_step.hyps(2) that show ?thesis
      by (cases "wpc s") (auto simp: waiter_step_def unpark_waiter_def split: if_splits)
  next
    case (Cleanup k)
    with trace_step.hyps(2) that show ?thesis
      by (cases "kpc s k") (auto simp: cleanup_step_def Let_def unpark_waiter_def split: if_splits)
  next
    case Ack
    with trace_step.hyps(2) that show ?thesis
      by (cases "apc s") (auto simp: ack_step_def split: if_splits)
  qed (use trace_step.hyps(2) that in \<open>auto split: if_splits\<close>)
  with trace_step show ?case by (auto split: if_splits)
qed simp

lemma latch_ok_acknowledged:
  assumes "latch_run xs latch_new = Some s" and "wpc s = W_return Status_Ok"
  shows "apc s \<noteq> A_none"
  using returned_prov [OF latch_run_trace [OF assms(1)] assms(2)]
    ack_called_exists [OF latch_run_trace [OF assms(1)]] by (auto simp: status_codes)

text \<open>
  C15. The status the job thread gets from the terminal hand-over was reported by someone: it is
  \<open>Closing\<close> after a cleanup request, or the failure the enqueue returned, or the status the
  callback acknowledged. In particular the job is told \<open>Ok\<close> only when the callback acknowledged
  the terminal frame with \<open>Ok\<close>.
\<close>

theorem terminal_status_provenance:
  assumes "latch_run xs latch_new = Some s" and "wpc s = W_return st"
  shows "(st = Status_Closing \<and> (\<exists>k. Cleanup k \<in> set xs)
      \<or> st \<noteq> Status_Ok \<and> Enqueue_returns st \<in> set xs
      \<or> Ack_call st \<in> set xs)
    \<and> (st = Status_Ok \<longrightarrow> Ack_call Status_Ok \<in> set xs)"
  using returned_prov [OF latch_run_trace [OF assms(1)] assms(2)]
  by (auto simp: status_codes)

text \<open>
  A cleanup that has finished before the job thread claims the latch closes it for good:
  the terminal frame is never enqueued, no acknowledgement is handed out, and the waiter returns
  \<open>Closing\<close>.
\<close>

theorem cleanup_before_claim_closes:
  assumes "latch_run xs latch_new = Some s" and "wpc s = W_claim" and "kpc s k = K_done"
    and "latch_run ys s = Some t"
  shows "apc t = A_none \<and> (wpc t = W_claim \<or> wpc t = W_return Status_Closing)"
proof -
  have inv: "latch_inv s" using latch_trace_inv [OF latch_run_trace [OF assms(1)]] .
  then have "cleanup_ok (kpc s k) (outcome s) (cleanup_requested s)" by (simp add: latch_inv_def)
  then have "outcome s = TERMINAL_CLOSING \<and> apc s = A_none"
    using inv assms(2,3) by (auto simp: latch_inv_def latch_defs)
  then have "latch_inv s \<and> outcome s = TERMINAL_CLOSING \<and> apc s = A_none \<and>
      (wpc s = W_claim \<or> wpc s = W_return Status_Closing)"
    using inv assms(2) by simp
  with assms(4) show ?thesis
  proof (induction ys arbitrary: s)
    case Nil
    then show ?case by simp
  next
    case (Cons y ys)
    obtain u where u: "latch_exec y s = Some u" "latch_run ys u = Some t"
      using Cons.prems(1) by (auto split: option.splits)
    have "outcome u = TERMINAL_CLOSING \<and> latch_inv u"
      using latch_exec_inv [OF _ u(1)] terminal_move Cons.prems(2)
      by (metis is_terminal_outcome_def)
    moreover have "apc u = A_none \<and> (wpc u = W_claim \<or> wpc u = W_return Status_Closing)"
    proof (cases y)
      case Waiter
      then show ?thesis using u(1) Cons.prems(2)
        by (auto simp: waiter_step_def returned_def status_for_terminal_outcome_def latch_codes)
    next
      case (Cleanup j)
      then show ?thesis using u(1) Cons.prems(2) cleanup_effect [of s j u] by (auto simp: latch_inv_def)
    qed (use u(1) Cons.prems(2) in \<open>auto simp: ack_step_def\<close>)
    ultimately show ?case using Cons.IH [OF u(2)] by blast
  qed
qed

subsection \<open>Executions\<close>

text \<open>The callback acknowledges while the enqueue call has just returned.\<close>

definition acked_run :: "latch_action list" where
  "acked_run = [Waiter, Waiter, Enqueue_returns Status_Ok, Ack_call Status_Ok, Ack, Ack]"

definition cleanup_run :: "latch_action list" where
  "cleanup_run = [Cleanup 0, Cleanup 0, Cleanup 0, Cleanup 0, Cleanup 0]"

definition late_cleanup_run :: "latch_action list" where
  "late_cleanup_run = [Cleanup 0, Cleanup 0, Cleanup 0, Cleanup 0]"

lemmas latch_eval = acked_run_def cleanup_run_def late_cleanup_run_def latch_new_def waiter_step_def ack_step_def
  cleanup_step_def unpark_waiter_def admission_next_def cleanup_next_def commit_blocked_def
  is_terminal_outcome_def returned_def status_for_terminal_outcome_def status_codes latch_codes

lemma acked_run_result:
  "\<exists>s. latch_run acked_run latch_new = Some s \<and> outcome s = 0 \<and> apc s = A_unpark \<and> wpc s = W_admit_load
    \<and> latch_run late_cleanup_run s \<noteq> None"
  by (simp add: latch_eval Let_def)

lemma terminal_outcome_stable_witness:
  "\<exists>s t. latch_run acked_run latch_new = Some s \<and> latch_run late_cleanup_run s = Some t \<and> outcome t = 0"
proof -
  obtain s t where s: "latch_run acked_run latch_new = Some s" "outcome s = 0"
    and t: "latch_run late_cleanup_run s = Some t"
    using acked_run_result by blast
  then have "outcome t = outcome s"
    by (intro terminal_outcome_stable [OF s(1) _ t]) (simp add: is_terminal_outcome_def)
  with s t show ?thesis by auto
qed

lemma waiter_returns_committed_outcome_witness:
  "\<exists>s. latch_run acked_run latch_new = Some s \<and> wpc s \<noteq> W_panic"
  using waiter_returns_committed_outcome [of acked_run] acked_run_result by blast

lemma acked_quiescent:
  "\<exists>s. latch_run (acked_run @ [Ack]) latch_new = Some s \<and> apc s = A_done \<and> wpc s = W_admit_load
    \<and> (\<forall>k. kpc s k = K_idle)"
  by (simp add: latch_eval Let_def)

lemma waiter_not_stuck_witness:
  "\<exists>s. latch_run (acked_run @ [Ack]) latch_new = Some s \<and> returns_within 6 s"
proof -
  obtain s where s: "latch_run (acked_run @ [Ack]) latch_new = Some s" "apc s = A_done"
    "wpc s = W_admit_load" "\<forall>k. kpc s k = K_idle"
    using acked_quiescent by blast
  then have "returns_within 6 s"
    by (intro waiter_not_stuck [OF s(1)]) (simp_all add: past_enqueue_def)
  with s(1) show ?thesis by blast
qed

lemma returned_ok_run:
  "\<exists>s. latch_run (acked_run @ [Ack, Waiter, Waiter, Waiter]) latch_new = Some s \<and> wpc s = W_return Status_Ok
    \<and> apc s = A_done"
  by (simp add: latch_eval Let_def)

lemma terminal_status_provenance_witness:
  "\<exists>s. latch_run (acked_run @ [Ack, Waiter, Waiter, Waiter]) latch_new = Some s \<and>
    wpc s = W_return Status_Ok \<and> Ack_call Status_Ok \<in> set (acked_run @ [Ack, Waiter, Waiter, Waiter])"
  using terminal_status_provenance returned_ok_run by blast

lemma closed_run:
  "\<exists>s t. latch_run cleanup_run latch_new = Some s \<and> wpc s = W_claim \<and> kpc s 0 = K_done
    \<and> latch_run [Waiter] s = Some t \<and> wpc t \<noteq> W_claim"
  by (simp add: latch_eval Let_def)

lemma cleanup_before_claim_closes_witness:
  "\<exists>s t. latch_run cleanup_run latch_new = Some s \<and> latch_run [Waiter] s = Some t \<and>
    wpc t = W_return Status_Closing \<and> apc t = A_none"
proof -
  obtain s t where s: "latch_run cleanup_run latch_new = Some s" "wpc s = W_claim" "kpc s 0 = K_done"
    and t: "latch_run [Waiter] s = Some t" "wpc t \<noteq> W_claim"
    using closed_run by blast
  with cleanup_before_claim_closes [OF s t(1)] show ?thesis by blast
qed

end
