(* ===== verification/Bridge.thy ===== *)
theory Bridge
  imports Events TerminalLatch
begin

text \<open>
  \<open>crates/polygon-nesting-napi/src/events.rs\<close>: \<open>EventFrame\<close>, \<open>DeliveryFailure\<close> and
  \<open>EventBridge\<close>, and the sink \<open>NapiEventSink\<close> of \<open>job.rs\<close>. The JavaScript callback transport
  is the environment: \<open>answer\<close> gives the status with which it takes a frame, from the frames
  it was handed so far, and \<open>sent\<close> records those frames. Results that the callback reports
  later are separate operations.
\<close>

datatype 'e event_frame = Core "'e sequenced_event" | Terminal u64

fun frame_ordinal :: "'e event_frame \<Rightarrow> u64" where
  "frame_ordinal (Core ev) = ordinal ev"
| "frame_ordinal (Terminal n) = n"

subsection \<open>Frames as JSON\<close>

text \<open>\<open>str::find(',')\<close>: the position of the first comma.\<close>

fun find_comma :: "string \<Rightarrow> nat option" where
  "find_comma [] = None"
| "find_comma (c # cs) = (if c = CHR '','' then Some 0 else map_option Suc (find_comma cs))"

text \<open>
  \<open>EventFrame::json\<close>; \<open>to_json\<close> is the serializer of \<open>serde_json\<close>, and \<open>None\<close> the panic of
  an event without a payload field.
\<close>

definition frame_json :: "('e \<Rightarrow> string) \<Rightarrow> 'e event_frame \<Rightarrow> string option" where
  "frame_json to_json f = (case f of
      Core ev \<Rightarrow> (let json = to_json (event ev) in
        case find_comma json of
          None \<Rightarrow> None
        | Some kind_end \<Rightarrow> Some (take (Suc kind_end) json @
            CHR 0x22 # ''ordinal'' @ [CHR 0x22] @ '':'' @ dec (unat (ordinal ev)) @ '','' @
            drop (Suc kind_end) json))
    | Terminal n \<Rightarrow> Some (''{'' @ CHR 0x22 # ''kind'' @ [CHR 0x22] @ '':'' @ CHR 0x22 # ''terminal'' @
        [CHR 0x22] @ '','' @ CHR 0x22 # ''ordinal'' @ [CHR 0x22] @ '':'' @ dec (unat n) @ ''}''))"

lemma find_comma_split:
  "CHR '','' \<notin> set pre \<Longrightarrow> find_comma (pre @ CHR '','' # post) = Some (length pre)"
  by (induction pre) auto

lemma find_comma_None: "find_comma cs = None \<longleftrightarrow> CHR '','' \<notin> set cs"
  by (induction cs) auto

subsection \<open>Delivery failure\<close>

definition NO_DELIVERY_FAILURE :: int where "NO_DELIVERY_FAILURE = - 1"

definition failure_record :: "status \<Rightarrow> int \<Rightarrow> int" where
  "failure_record st first = (if first = NO_DELIVERY_FAILURE then int st else first)"

definition failure_status :: "int \<Rightarrow> status option" where
  "failure_status first = (if first = NO_DELIVERY_FAILURE then None else Some (nat first))"

text \<open>The cell only ever holds the initial value or a status code.\<close>

definition failure_cell :: "status list \<Rightarrow> int" where
  "failure_cell sts = fold failure_record sts NO_DELIVERY_FAILURE"

lemma failure_record_status:
  "first = NO_DELIVERY_FAILURE \<or> first \<ge> 0 \<Longrightarrow>
    failure_status (failure_record st first) = (case failure_status first of None \<Rightarrow> Some st | Some x \<Rightarrow> Some x)"
  by (auto simp: failure_record_def failure_status_def NO_DELIVERY_FAILURE_def)

lemma failure_cell_status: "failure_status (failure_cell sts) = (case sts of [] \<Rightarrow> None | st # _ \<Rightarrow> Some st)"
proof -
  have "first \<ge> 0 \<Longrightarrow> fold failure_record sts first = first" for first and sts :: "status list"
    by (induction sts) (auto simp: failure_record_def NO_DELIVERY_FAILURE_def)
  then show ?thesis
    by (cases sts) (auto simp: failure_cell_def failure_status_def failure_record_def NO_DELIVERY_FAILURE_def)
qed

lemma failure_cell_snoc: "failure_record st (failure_cell sts) = failure_cell (sts @ [st])"
  by (simp add: failure_cell_def)

subsection \<open>The bridge\<close>

record 'e event_bridge =
  bridge_next :: u64
  terminal_emitted :: bool
  first_failure :: int
  sent :: "'e event_frame list"

definition bridge_new :: "'e event_bridge" where
  "bridge_new = \<lparr>bridge_next = 0, terminal_emitted = False, first_failure = NO_DELIVERY_FAILURE, sent = []\<rparr>"

definition record_failure :: "status \<Rightarrow> 'e event_bridge \<Rightarrow> 'e event_bridge" where
  "record_failure st b = b\<lparr>first_failure := failure_record st (first_failure b)\<rparr>"

definition record_unless_ok :: "status \<Rightarrow> 'e event_bridge \<Rightarrow> 'e event_bridge" where
  "record_unless_ok st b = (if st \<noteq> Status_Ok then record_failure st b else b)"

text \<open>\<open>deliver_core\<close>, with the closure that delivers a frame as an argument.\<close>

definition deliver_core ::
    "('e event_frame \<Rightarrow> 'e event_frame list \<Rightarrow> status \<times> 'e event_frame list) \<Rightarrow>
      'e sequenced_event \<Rightarrow> 'e event_bridge \<Rightarrow> status \<times> 'e event_bridge" where
  "deliver_core deliver ev b =
    (if terminal_emitted b then (Status_Ok, b)
     else case checked_add (ordinal ev) 1 of
       None \<Rightarrow> (Status_InvalidArg, record_failure Status_InvalidArg b)
     | Some n \<Rightarrow>
         if ordinal ev \<noteq> bridge_next b then (Status_InvalidArg, record_failure Status_InvalidArg b)
         else let (st, fs) = deliver (Core ev) (sent b)
           in (st, record_unless_ok st (b\<lparr>bridge_next := n, sent := fs\<rparr>)))"

definition skip_core :: "'e sequenced_event \<Rightarrow> 'e event_bridge \<Rightarrow> status \<times> 'e event_bridge" where
  "skip_core ev b = deliver_core (\<lambda>_ fs. (Status_Ok, fs)) ev b"

definition deliver_core_to_js ::
    "('e event_frame list \<Rightarrow> 'e event_frame \<Rightarrow> status) \<Rightarrow>
      'e sequenced_event \<Rightarrow> 'e event_bridge \<Rightarrow> status \<times> 'e event_bridge" where
  "deliver_core_to_js answer ev b = deliver_core (\<lambda>f fs. (answer fs f, fs @ [f])) ev b"

text \<open>
  The terminal frame goes through the latch. \<open>latch_returns q st\<close> says that some execution of
  the latch makes the waiter return \<open>st\<close>, having handed the frame to the callback exactly
  when \<open>q\<close>.
\<close>

definition latch_returns :: "bool \<Rightarrow> status \<Rightarrow> bool" where
  "latch_returns q st \<longleftrightarrow>
    (\<exists>xs s. latch_run xs latch_new = Some s \<and> wpc s = W_return st \<and> (q \<longleftrightarrow> apc s \<noteq> A_none))"

definition emit_terminal_and_wait ::
    "bool \<times> status \<Rightarrow> 'e event_bridge \<Rightarrow> status \<times> 'e event_bridge" where
  "emit_terminal_and_wait latch b =
    (if terminal_emitted b then (Status_Ok, b)
     else let frame = Terminal (bridge_next b); (queued, st) = latch in
       (st, record_unless_ok st (b\<lparr>terminal_emitted := True,
          bridge_next := sat_add (bridge_next b) 1,
          sent := (if queued then sent b @ [frame] else sent b)\<rparr>)))"

definition first_delivery_failure :: "'e event_bridge \<Rightarrow> status option" where
  "first_delivery_failure b = failure_status (first_failure b)"

subsection \<open>Histories of a bridge\<close>

datatype 'e bridge_op =
    Deliver "'e sequenced_event"
  | Skip "'e sequenced_event"
  | Callback_error status       \<comment> \<open>a nonblocking callback reports its error\<close>
  | Emit_terminal bool status   \<comment> \<open>with what the latch answers\<close>

fun bridge_step :: "('e event_frame list \<Rightarrow> 'e event_frame \<Rightarrow> status) \<Rightarrow> 'e bridge_op \<Rightarrow>
    'e event_bridge \<Rightarrow> status \<times> 'e event_bridge" where
  "bridge_step answer (Deliver ev) b = deliver_core_to_js answer ev b"
| "bridge_step answer (Skip ev) b = skip_core ev b"
| "bridge_step answer (Callback_error st) b = (st, record_failure st b)"
| "bridge_step answer (Emit_terminal q st) b = emit_terminal_and_wait (q, st) b"

text \<open>The statuses that count as delivery failures: every status but \<open>Ok\<close>, and all late errors.\<close>

fun reported :: "'e bridge_op \<Rightarrow> status \<Rightarrow> status list" where
  "reported (Callback_error _) st = [st]"
| "reported _ st = (if st = Status_Ok then [] else [st])"

fun bridge_run :: "('e event_frame list \<Rightarrow> 'e event_frame \<Rightarrow> status) \<Rightarrow> 'e bridge_op list \<Rightarrow>
    'e event_bridge \<Rightarrow> status list \<times> 'e event_bridge" where
  "bridge_run answer [] b = ([], b)"
| "bridge_run answer (x # xs) b =
    (let (st, b1) = bridge_step answer x b; (sts, b2) = bridge_run answer xs b1
     in (reported x st @ sts, b2))"

lemma record_failure_sel [simp]:
  "bridge_next (record_failure st b) = bridge_next b" "sent (record_failure st b) = sent b"
  "terminal_emitted (record_failure st b) = terminal_emitted b"
  "first_failure (record_failure st b) = failure_record st (first_failure b)"
  by (simp_all add: record_failure_def)

lemma record_unless_ok_sel [simp]:
  "bridge_next (record_unless_ok st b) = bridge_next b" "sent (record_unless_ok st b) = sent b"
  "terminal_emitted (record_unless_ok st b) = terminal_emitted b"
  "first_failure (record_unless_ok st b) =
    (if st = Status_Ok then first_failure b else failure_record st (first_failure b))"
  by (simp_all add: record_unless_ok_def)

lemma status_distinct [simp]: "Status_InvalidArg \<noteq> Status_Ok" "Status_Closing \<noteq> Status_Ok"
  by (simp_all add: status_codes)

lemma bridge_step_failure:
  assumes "bridge_step answer x b = (st, b')" and "first_failure b = failure_cell sts"
  shows "first_failure b' = failure_cell (sts @ reported x st)"
  using assms
  by (cases x) (auto simp: deliver_core_to_js_def skip_core_def deliver_core_def emit_terminal_and_wait_def
      failure_cell_snoc Let_def split: if_splits option.splits prod.splits)

lemma bridge_run_failure:
  "first_failure b = failure_cell sts \<Longrightarrow>
    first_failure (snd (bridge_run answer xs b)) = failure_cell (sts @ fst (bridge_run answer xs b))"
proof (induction xs arbitrary: b sts)
  case Nil
  then show ?case by simp
next
  case (Cons x xs)
  obtain st b1 where 1: "bridge_step answer x b = (st, b1)" by fastforce
  then have "first_failure b1 = failure_cell (sts @ reported x st)"
    using bridge_step_failure Cons.prems by blast
  from Cons.IH [OF this] 1 show ?case by (simp add: case_prod_beta)
qed

text \<open>
  The first delivery failure is kept. After any sequence of deliveries, skips, late
  callback errors and the terminal hand-over, \<open>first_delivery_failure\<close> is the first of the
  failures reported, in the order they were reported, and nothing when all went well.
\<close>

theorem first_delivery_failure_kept:
  "first_delivery_failure (snd (bridge_run answer xs bridge_new)) =
    (case fst (bridge_run answer xs bridge_new) of [] \<Rightarrow> None | st # _ \<Rightarrow> Some st)"
proof -
  have "first_failure bridge_new = failure_cell []"
    by (simp add: bridge_new_def failure_cell_def)
  from bridge_run_failure [OF this, of answer xs] show ?thesis
    by (simp add: first_delivery_failure_def failure_cell_status)
qed

subsection \<open>The order of the frames\<close>

definition is_core :: "'e event_frame \<Rightarrow> bool" where
  "is_core f \<longleftrightarrow> (case f of Core _ \<Rightarrow> True | Terminal _ \<Rightarrow> False)"

definition bridge_inv :: "'e event_bridge \<Rightarrow> bool" where
  "bridge_inv b \<longleftrightarrow> sorted_wrt (\<lambda>f g. frame_ordinal f < frame_ordinal g) (sent b) \<and>
    list_all is_core (butlast (sent b)) \<and>
    (terminal_emitted b \<or> list_all is_core (sent b) \<and> (\<forall>f \<in> set (sent b). frame_ordinal f < bridge_next b))"

lemma bridge_inv_new: "bridge_inv bridge_new"
  by (simp add: bridge_inv_def bridge_new_def)

lemma checked_add_1: "checked_add a 1 = Some n \<Longrightarrow> a < n \<and> n = a + 1"
  using checked_add_Some [of a 1 n] by (auto simp: word_less_nat_alt checked_add_def split: if_splits)

lemma bridge_inv_deliver:
  assumes "bridge_inv b" and "deliver (Core ev) (sent b) = (st, fs)"
    and "fs = sent b \<or> fs = sent b @ [Core ev]"
  shows "bridge_inv (snd (deliver_core deliver ev b))"
proof (cases "terminal_emitted b \<or> ordinal ev \<noteq> bridge_next b \<or> checked_add (ordinal ev) 1 = None")
  case True
  then show ?thesis using assms(1)
    by (auto simp: deliver_core_def bridge_inv_def split: option.split)
next
  case False
  then obtain n where n: "checked_add (bridge_next b) 1 = Some n" "bridge_next b < n"
    using checked_add_1 by fastforce
  have lt: "\<forall>f \<in> set (sent b). frame_ordinal f < bridge_next b" and core: "list_all is_core (sent b)"
    using False assms(1) by (auto simp: bridge_inv_def)
  then have "\<forall>f \<in> set (sent b). frame_ordinal f < n" using n(2) by fastforce
  then show ?thesis
    using False n lt core assms
    by (auto simp: deliver_core_def bridge_inv_def sorted_wrt_append butlast_append is_core_def)
qed

lemma bridge_inv_step: "bridge_inv b \<Longrightarrow> bridge_inv (snd (bridge_step answer x b))"
proof (cases x)
  case (Deliver ev)
  assume "bridge_inv b"
  with Deliver show ?thesis
    by (simp add: deliver_core_to_js_def bridge_inv_deliver [of b _ ev "answer (sent b) (Core ev)" "sent b @ [Core ev]"])
next
  case (Skip ev)
  assume "bridge_inv b"
  with Skip show ?thesis
    by (simp add: skip_core_def bridge_inv_deliver [of b _ ev Status_Ok "sent b"])
next
  case (Emit_terminal q st)
  assume "bridge_inv b"
  with Emit_terminal show ?thesis
    by (auto simp: emit_terminal_and_wait_def bridge_inv_def Let_def sorted_wrt_append butlast_append)
qed (simp add: bridge_inv_def)

lemma bridge_inv_run: "bridge_inv b \<Longrightarrow> bridge_inv (snd (bridge_run answer xs b))"
proof (induction xs arbitrary: b)
  case (Cons x xs)
  then show ?case using bridge_inv_step [OF Cons.prems, of answer x] by (simp add: case_prod_beta)
qed simp

text \<open>
  C18. The stream JavaScript sees is well formed even if the core misnumbers its events:
  ordinals strictly increase, every frame but the last is a core frame, and a terminal frame,
  if one is sent, is the last frame of the stream.
\<close>

theorem bridge_stream_well_formed:
  "sorted_wrt (\<lambda>f g. frame_ordinal f < frame_ordinal g) (sent (snd (bridge_run answer xs bridge_new)))
   \<and> list_all is_core (butlast (sent (snd (bridge_run answer xs bridge_new))))"
  using bridge_inv_run [OF bridge_inv_new, of answer xs] by (simp add: bridge_inv_def)

subsection \<open>A whole job\<close>

text \<open>\<open>NapiEventSink::emit\<close>: state snapshots are numbered but not delivered unless asked for.\<close>

fun is_snapshot :: "('score, 'snap) engine_event \<Rightarrow> bool" where
  "is_snapshot (StateSnapshot _ _) = True"
| "is_snapshot (PortfolioProgress _) = False"

definition napi_emit ::
    "(('score, 'snap) engine_event event_frame list \<Rightarrow> ('score, 'snap) engine_event event_frame \<Rightarrow> status) \<Rightarrow>
      bool \<Rightarrow> ('score, 'snap) engine_event sequenced_event \<Rightarrow>
      ('score, 'snap) engine_event event_bridge \<Rightarrow> ('score, 'snap) engine_event event_bridge" where
  "napi_emit answer emit_state_snapshots ev b =
    (if \<not> emit_state_snapshots \<and> is_snapshot (event ev) then snd (skip_core ev b)
     else snd (deliver_core_to_js answer ev b))"

definition frame_visible :: "bool \<Rightarrow> ('score, 'snap) engine_event sequenced_event \<Rightarrow> bool" where
  "frame_visible emit_state_snapshots ev \<longleftrightarrow> emit_state_snapshots \<or> \<not> is_snapshot (event ev)"

interpretation napi: event_sink "napi_emit answer snapshots"
  "\<lambda>n b. \<not> terminal_emitted b \<and> bridge_next b = n" sent
  "\<lambda>ev. if frame_visible snapshots ev then [Core ev] else []" for answer snapshots
  by unfold_locales
    (auto simp: napi_emit_def frame_visible_def skip_core_def deliver_core_to_js_def deliver_core_def
      checked_add_def)

lemma concat_visible: "concat (map (\<lambda>x. if P x then [f x] else []) xs) = map f (filter P xs)"
  by (induction xs) auto

text \<open>
  C17. A whole job over N-API: from a new bridge, the core's events reach JavaScript in order
  with the core's own ordinals, hidden snapshots keeping their numbers; then the terminal frame,
  numbered with the count of events, follows exactly when the latch handed it over. The job
  hears \<open>Ok\<close> only if the terminal frame was handed over. This holds however the callback
  answers.
\<close>

theorem napi_job_stream:
  fixes es :: "('score, 'snap) engine_event list"
  assumes "length es < u64_max" and "latch_returns queued st"
  shows "\<exists>q. sequencer_emit_all (napi_emit answer snapshots) es (sequencer_new bridge_new) = Some q \<and>
    fst (emit_terminal_and_wait (queued, st) (sink q)) = st \<and>
    sent (snd (emit_terminal_and_wait (queued, st) (sink q))) =
      map Core (filter (frame_visible snapshots) (numbered 0 es)) @
      (if queued then [Terminal (of_nat (length es))] else []) \<and>
    (st = Status_Ok \<longrightarrow> queued)"
proof -
  let ?q = "sequencer_new bridge_new :: ('score, 'snap) engine_event event_bridge event_sequencer"
  have 0: "unat (next_ordinal ?q) = 0" "sent (sink ?q) = []" "next_ordinal ?q = 0"
    "\<not> terminal_emitted (sink ?q) \<and> bridge_next (sink ?q) = next_ordinal ?q"
    by (simp_all add: sequencer_new_def bridge_new_def)
  obtain q where q: "sequencer_emit_all (napi_emit answer snapshots) es ?q = Some q"
    "unat (next_ordinal q) = length es"
    "\<not> terminal_emitted (sink q)" "bridge_next (sink q) = next_ordinal q"
    "sent (sink q) = map Core (filter (frame_visible snapshots) (numbered 0 es))"
    using napi.emit_all [of ?q es answer snapshots, OF 0(4)] assms(1) 0 by (auto simp: concat_visible)
  have "next_ordinal q = of_nat (length es)" by (simp flip: q(2))
  moreover have "queued" if "st = Status_Ok"
    using assms(2) latch_ok_acknowledged that by (auto simp: latch_returns_def)
  ultimately show ?thesis
    using q by (intro exI [of _ q]) (simp add: emit_terminal_and_wait_def Let_def)
qed

lemma napi_job_stream_witness:
  "\<exists>q. sequencer_emit_all (napi_emit (\<lambda>_ _. Status_Ok) False)
      [StateSnapshot (0::nat) (Finite False 1),
       PortfolioProgress \<lparr>phase = SharedArchive, best_score = (None::nat option), elapsed_ms = Finite False 1\<rparr>]
      (sequencer_new bridge_new) = Some q \<and>
    map frame_ordinal (sent (snd (emit_terminal_and_wait (True, Status_Ok) (sink q)))) = [1, 2]"
proof -
  have "latch_returns True Status_Ok"
    unfolding latch_returns_def using returned_ok_run by (fastforce)
  from napi_job_stream [OF _ this, of "[StateSnapshot (0::nat) (Finite False 1),
       PortfolioProgress \<lparr>phase = SharedArchive, best_score = (None::nat option), elapsed_ms = Finite False 1\<rparr>]"
       "\<lambda>_ _. Status_Ok" False]
  show ?thesis by (auto simp: frame_visible_def)
qed

text \<open>
  The JSON of a core frame is the serializer's JSON of the event with the ordinal spliced in
  as the second member: for an internally tagged event, whose kind has no comma, the kind member
  comes first, then the ordinal, then the rest of the payload unchanged.
\<close>

theorem frame_json_splices_ordinal:
  assumes "to_json (event ev) = ''{'' @ CHR 0x22 # ''kind'' @ [CHR 0x22] @ '':'' @ CHR 0x22 # kind @
      [CHR 0x22] @ '','' @ payload"
    and "CHR '','' \<notin> set kind"
  shows "frame_json to_json (Core ev) = Some (''{'' @ CHR 0x22 # ''kind'' @ [CHR 0x22] @ '':'' @
      CHR 0x22 # kind @ [CHR 0x22] @ '','' @ CHR 0x22 # ''ordinal'' @ [CHR 0x22] @ '':'' @
      dec (unat (ordinal ev)) @ '','' @ payload)"
proof -
  let ?pre = "''{'' @ CHR 0x22 # ''kind'' @ [CHR 0x22] @ '':'' @ CHR 0x22 # kind @ [CHR 0x22]"
  have json: "to_json (event ev) = ?pre @ CHR '','' # payload" using assms(1) by simp
  have "CHR '','' \<notin> set ?pre" using assms(2) by simp
  then have "find_comma (to_json (event ev)) = Some (length ?pre)"
    unfolding json by (rule find_comma_split)
  then show ?thesis by (simp add: frame_json_def json)
qed

lemma frame_json_splices_ordinal_witness:
  "frame_json (\<lambda>_. ''{'' @ CHR 0x22 # ''kind'' @ [CHR 0x22] @ '':'' @ CHR 0x22 # ''x'' @
      [CHR 0x22] @ '','' @ ''p}'') (Core \<lparr>ordinal = 7, event = ()\<rparr>) =
    Some (''{'' @ CHR 0x22 # ''kind'' @ [CHR 0x22] @ '':'' @ CHR 0x22 # ''x'' @ [CHR 0x22] @ '','' @
      CHR 0x22 # ''ordinal'' @ [CHR 0x22] @ '':'' @ dec 7 @ '','' @ ''p}'')"
  by (subst frame_json_splices_ordinal [where kind = "''x''" and payload = "''p}''"]) simp_all

end
