(* ===== verification/NapiJob.thy ===== *)
theory NapiJob
  imports CoreJob Bridge
begin

text \<open>
  \<open>crates/polygon-nesting-napi/src\<close>: \<open>registry.rs\<close> (which running job a token cancels),
  \<open>job.rs\<close> (the life of a job behind the N-API boundary and the projection of its outcome to
  the response envelope), \<open>compat.rs\<close> (the desktop request). A lease is an \<open>Arc\<close>: leases are
  identified by numbers, handed out once each, with their controls in a store. A response is
  modelled before it is rendered to JSON text.
\<close>

subsection \<open>Response envelopes\<close>

record wire_error =
  we_category :: string
  we_operation :: string
  we_message :: string
  we_context :: "(string \<rightharpoonup> string) option"

datatype 'r response = Response_ok 'r | Response_error wire_error

text \<open>\<open>failure_envelope\<close> drops an empty context.\<close>

definition failure_envelope :: "string \<Rightarrow> string \<Rightarrow> string \<Rightarrow> (string \<rightharpoonup> string) \<Rightarrow> 'r response" where
  "failure_envelope category operation message context = Response_error
    \<lparr>we_category = category, we_operation = operation, we_message = message,
     we_context = (if context = Map.empty then None else Some context)\<rparr>"

definition engine_error_wire_category :: "engine_error \<Rightarrow> string option" where
  "engine_error_wire_category e = (case err_category e of
      Code_Cancelled \<Rightarrow> Some ''worker_cancelled''
    | DeadlineExceeded \<Rightarrow> Some ''worker_timeout''
    | InvalidGeometry \<Rightarrow>
        if err_context e ''preparedPieceId'' \<noteq> None \<and> err_context e ''sourcePieceId'' \<noteq> None
        then Some ''irregular_source_geometry_missing'' else Some ''irregular_geometry_invalid''
    | EngineFailure \<Rightarrow>
        if err_context e ''category'' \<in> {Some ''scoring'', Some ''search''} \<or>
          err_context e ''operation'' \<in>
            {Some ''scoreCandidate'', Some ''scoreState'', Some ''scorePlacement'', Some ''scoreLayout''}
        then Some ''irregular_scoring_error'' else Some ''irregular_no_valid_result''
    | InternalFailure \<Rightarrow>
        if err_context e ''service'' \<noteq> None \<and> err_context e ''operation'' \<noteq> None
        then Some ''not_implemented'' else Some ''unknown_error''
    | IoFailure \<Rightarrow> Some ''unknown_error''
    | Code_MalformedInput \<Rightarrow> Some ''worker_protocol_error''
    | ProtocolVersionMismatch \<Rightarrow> Some ''worker_protocol_error''
    | Code_ArchiveIneligible \<Rightarrow> None)"

definition ineligible_message :: "string \<Rightarrow> string" where
  "ineligible_message why = ''request settings are not intrinsic-shared-archive-eligible ('' @ why @
    ''); this backend only implements the Compact / Compact Short Side archive path and does not emulate TypeScript'' @
    [CHR 0x27] @
    ''s legacy windowed-beam/GA path -- route this request to the TypeScript backend.''"

definition ineligible_reason_text :: "string option \<Rightarrow> string" where
  "ineligible_reason_text r = (case r of None \<Rightarrow> ''unknown'' | Some why \<Rightarrow>
     if why = ''archive-disabled'' then ''intrinsicSharedArchiveEnabled is false''
     else if why = ''ga-active'' then ''GA is active''
     else if why = ''short-side-fill'' then ''placementPolicyId is '' @ [CHR 0x27] @ ''short-side-fill'' @ [CHR 0x27]
     else why)"

definition project_engine_error :: "engine_error \<Rightarrow> 'r response" where
  "project_engine_error e = (case engine_error_wire_category e of
      Some category \<Rightarrow> failure_envelope category (err_operation e) (err_message e) (err_context e)
    | None \<Rightarrow> failure_envelope ''not_implemented'' ''legacy-portfolio-unsupported''
        (ineligible_message (ineligible_reason_text (err_context e ''reason'')))
        [''service'' \<mapsto> ''irregular-native'', ''operation'' \<mapsto> ''legacy-portfolio-unsupported''])"

definition project_delivery_failure :: "string \<Rightarrow> 'r response" where
  "project_delivery_failure status = failure_envelope ''worker_protocol_error'' ''nativeEventDelivery''
    ''native irregular event delivery failed'' [''napiStatus'' \<mapsto> status]"

definition project_panic :: "string \<Rightarrow> 'r response" where
  "project_panic operation = failure_envelope ''unknown_error'' operation
    ''native irregular nesting job failed unexpectedly''
    [''operation'' \<mapsto> operation, ''backend'' \<mapsto> ''rust'']"

fun complete_engine_outcome :: "'r engine_outcome \<Rightarrow> 'r response" where
  "complete_engine_outcome (Success result _) = Response_ok result"
| "complete_engine_outcome (Failure e _) = project_engine_error e"
| "complete_engine_outcome (Outcome_ArchiveIneligible _ e _) = project_engine_error e"

fun response_category :: "'r response \<Rightarrow> string option" where
  "response_category (Response_ok _) = None"
| "response_category (Response_error e) = Some (we_category e)"

text \<open>
  The two error projections, core to protocol and protocol to wire, together give every
  compute error the wire category of the authoritative table
  \<open>irregular_compute_error_app_code\<close> exactly when a scoring error names one of the scorers'
  operations and a no-valid-result error names none of them; the scorers only ever report
  \<open>scoreCandidate\<close> and \<open>scoreState\<close>.
\<close>

theorem wire_category_agrees_with_table:
  "response_category (complete_engine_outcome (Failure (project_error e) d)) =
      Some (irregular_compute_error_app_code e) \<longleftrightarrow>
    (case e of
      PlacementScoring op _ \<Rightarrow> op \<in> {''scoreCandidate'', ''scoreState'', ''scorePlacement'', ''scoreLayout''}
    | LayoutScoring op _ \<Rightarrow> op \<in> {''scoreCandidate'', ''scoreState'', ''scorePlacement'', ''scoreLayout''}
    | NoValidResult op _ \<Rightarrow> op \<notin> {''scoreCandidate'', ''scoreState'', ''scorePlacement'', ''scoreLayout''}
    | _ \<Rightarrow> True)"
  by (cases e) (auto simp: project_engine_error_def engine_error_wire_category_def engine_error_new_def
      with_context_def failure_envelope_def Let_def
      split: nfp_abort_reason.splits portfolio_error_category.splits)

subsection \<open>The registry\<close>

definition cancellation_reason_from_wire :: "string \<Rightarrow> cancel_reason option" where
  "cancellation_reason_from_wire why =
    (if why = ''cancelled'' then Some Cancelled
     else if why = ''timeout'' then Some Deadline
     else None)"

record registry =
  leases :: "string \<rightharpoonup> nat"
  controls :: "nat \<Rightarrow> control"
  next_lease :: nat

definition registry_new :: registry where
  "registry_new = \<lparr>leases = Map.empty, controls = (\<lambda>_. control_new), next_lease = 0\<rparr>"

definition registry_register :: "string \<Rightarrow> nat \<Rightarrow> registry \<Rightarrow> (unit + unit) \<times> registry" where
  "registry_register tok lease g = (case leases g tok of
      None \<Rightarrow> (Inr (), g\<lparr>leases := (leases g)(tok \<mapsto> lease)\<rparr>)
    | Some _ \<Rightarrow> (Inl (), g))"

definition lease_cancel :: "nat \<Rightarrow> cancel_reason \<Rightarrow> registry \<Rightarrow> registry" where
  "lease_cancel l r g = g\<lparr>controls := (controls g)(l := snd (cancel r (controls g l)))\<rparr>"

definition registry_cancel :: "string \<Rightarrow> cancel_reason \<Rightarrow> registry \<Rightarrow> bool \<times> registry" where
  "registry_cancel tok r g = (case leases g tok of
      None \<Rightarrow> (False, g)
    | Some l \<Rightarrow> (True, lease_cancel l r g))"

definition remove_if_current :: "string \<Rightarrow> nat \<Rightarrow> registry \<Rightarrow> registry" where
  "remove_if_current tok lease g =
    (if leases g tok = Some lease then g\<lparr>leases := (leases g)(tok := None)\<rparr> else g)"

definition cancel_irregular_job :: "string \<Rightarrow> string \<Rightarrow> registry \<Rightarrow> bool \<times> registry" where
  "cancel_irregular_job tok why g = (case cancellation_reason_from_wire why of
      None \<Rightarrow> (False, g)
    | Some r \<Rightarrow> registry_cancel tok r g)"

text \<open>
  \<open>run_irregular_job\<close> up to the hand-over to the worker thread: a new lease, registered under
  the token; \<open>hook_ok\<close> says whether Node-API accepts the cleanup hook. The result is the lease.
\<close>

definition run_irregular_job :: "bool \<Rightarrow> string \<Rightarrow> registry \<Rightarrow> nat option \<times> registry" where
  "run_irregular_job hook_ok tok g =
    (let l = next_lease g; g1 = g\<lparr>next_lease := Suc l, controls := (controls g)(l := control_new)\<rparr>
     in case registry_register tok l g1 of
          (Inl _, g2) \<Rightarrow> (None, g2)
        | (Inr _, g2) \<Rightarrow> if hook_ok then (Some l, g2) else (None, remove_if_current tok l g2))"

text \<open>The environment-cleanup hook of a job, at most once.\<close>

record cleanup_hook =
  fired :: bool
  hook_token :: string
  hook_lease :: nat

record cleanup_counters =
  hooks_fired :: u64
  close_requests :: u64

definition hook_cleanup ::
    "cleanup_hook \<Rightarrow> cleanup_counters \<Rightarrow> registry \<Rightarrow> bool \<times> cleanup_hook \<times> cleanup_counters \<times> registry" where
  "hook_cleanup h n g =
    (if fired h then (False, h, n, g)
     else (True, h\<lparr>fired := True\<rparr>,
       n\<lparr>hooks_fired := hooks_fired n + 1, close_requests := close_requests n + 1\<rparr>,
       remove_if_current (hook_token h) (hook_lease h) (lease_cancel (hook_lease h) Cancelled g)))"

datatype registry_op =
    Run_job bool string
  | Cancel_job string string
  | Drop_job string nat             \<comment> \<open>\<open>RegistryCleanup::drop\<close>\<close>
  | Hook_cleanup string nat         \<comment> \<open>a cleanup hook that has not fired\<close>
  | Core_op nat control_op          \<comment> \<open>the core on a lease's control\<close>

fun registry_step :: "registry_op \<Rightarrow> registry \<Rightarrow> registry" where
  "registry_step (Run_job ok tok) g = snd (run_irregular_job ok tok g)"
| "registry_step (Cancel_job tok why) g = snd (cancel_irregular_job tok why g)"
| "registry_step (Drop_job tok l) g = remove_if_current tok l g"
| "registry_step (Hook_cleanup tok l) g = remove_if_current tok l (lease_cancel l Cancelled g)"
| "registry_step (Core_op l x) g = g\<lparr>controls := (controls g)(l := snd (control_step x (controls g l)))\<rparr>"

definition registry_run :: "registry_op list \<Rightarrow> registry \<Rightarrow> registry" where
  "registry_run xs g = fold registry_step xs g"

text \<open>What a history does to the control of the job that holds \<open>l\<close> under \<open>tok\<close>.\<close>

fun control_ops_of :: "string \<Rightarrow> nat \<Rightarrow> registry_op \<Rightarrow> control_op list" where
  "control_ops_of tok l (Cancel_job t why) = (if t = tok
    then (case cancellation_reason_from_wire why of None \<Rightarrow> [] | Some r \<Rightarrow> [Cancel r]) else [])"
| "control_ops_of tok l (Hook_cleanup t k) = (if k = l then [Cancel Cancelled] else [])"
| "control_ops_of tok l (Core_op k x) = (if k = l then [x] else [])"
| "control_ops_of tok l _ = []"

definition registry_ok :: "registry \<Rightarrow> bool" where
  "registry_ok g \<longleftrightarrow> (\<forall>t l. leases g t = Some l \<longrightarrow> l < next_lease g) \<and>
    (\<forall>t u l. leases g t = Some l \<longrightarrow> leases g u = Some l \<longrightarrow> t = u)"

lemma registry_ok_new: "registry_ok registry_new"
  by (simp add: registry_ok_def registry_new_def)

lemma registry_ok_step: "registry_ok g \<Longrightarrow> registry_ok (registry_step x g)"
proof (cases x)
  case (Run_job ok tok)
  assume g: "registry_ok g"
  show ?thesis
  proof (cases "leases g tok")
    case None
    have "registry_ok (g\<lparr>next_lease := Suc (next_lease g), controls := c, leases := (leases g)(tok \<mapsto> next_lease g)\<rparr>)"
      "registry_ok (g\<lparr>next_lease := Suc (next_lease g), controls := c, leases := (leases g)(tok := None)\<rparr>)" for c
      using g unfolding registry_ok_def by (auto split: if_splits) (metis less_irrefl less_SucI)+
    then show ?thesis using Run_job None
      by (auto simp: run_irregular_job_def Let_def registry_register_def remove_if_current_def)
  next
    case (Some l)
    then show ?thesis using Run_job g
      by (auto simp: run_irregular_job_def Let_def registry_register_def registry_ok_def less_SucI)
  qed
qed (auto simp: registry_ok_def cancel_irregular_job_def registry_cancel_def lease_cancel_def
    remove_if_current_def split: option.splits if_splits)

lemma control_run_append: "snd (control_run c (xs @ ys)) = snd (control_run (snd (control_run c xs)) ys)"
  by (simp add: control_run_state)

lemma registry_step_held:
  assumes "registry_ok g" and "leases g tok = Some l"
    and "x \<noteq> Drop_job tok l" and "x \<noteq> Hook_cleanup tok l"
  shows "leases (registry_step x g) tok = Some l \<and>
    controls (registry_step x g) l = snd (control_run (controls g l) (control_ops_of tok l x))"
proof (cases x)
  case (Run_job ok t)
  have "l \<noteq> next_lease g" using assms(1,2) by (auto simp: registry_ok_def)
  then show ?thesis using Run_job assms(2)
    by (cases "leases g t")
      (auto simp: run_irregular_job_def Let_def registry_register_def remove_if_current_def)
next
  case (Cancel_job t why)
  show ?thesis
  proof (cases "t = tok")
    case True
    then show ?thesis using Cancel_job assms(2)
      by (simp add: cancel_irregular_job_def registry_cancel_def lease_cancel_def case_prod_beta split: option.split)
  next
    case False
    then have "leases g t \<noteq> Some l" using assms(1,2) unfolding registry_ok_def by blast
    with False show ?thesis using Cancel_job assms(2)
      by (auto simp: cancel_irregular_job_def registry_cancel_def lease_cancel_def case_prod_beta split: option.split)
  qed
next
  case (Drop_job t k)
  then have "\<not> (t = tok \<and> k = l)" using assms(3) by blast
  then show ?thesis using Drop_job assms(2) by (auto simp: remove_if_current_def)
next
  case (Hook_cleanup t k)
  then have "\<not> (t = tok \<and> k = l)" using assms(4) by blast
  then show ?thesis using Hook_cleanup assms(2) by (auto simp: remove_if_current_def lease_cancel_def case_prod_beta)
next
  case (Core_op k y)
  then show ?thesis using assms(2) by (simp add: case_prod_beta)
qed

lemma registry_run_ok: "registry_ok g \<Longrightarrow> registry_ok (registry_run xs g)"
  by (induction xs arbitrary: g) (auto simp: registry_run_def registry_ok_step)

lemma registry_run_held:
  assumes "registry_ok g" and "leases g tok = Some l"
    and "Drop_job tok l \<notin> set ys" and "Hook_cleanup tok l \<notin> set ys"
  shows "leases (registry_run ys g) tok = Some l \<and>
    controls (registry_run ys g) l =
      snd (control_run (controls g l) (concat (map (control_ops_of tok l) ys)))"
  using assms
proof (induction ys arbitrary: g)
  case Nil
  then show ?case by (simp add: registry_run_def)
next
  case (Cons y ys)
  have s: "leases (registry_step y g) tok = Some l \<and>
    controls (registry_step y g) l = snd (control_run (controls g l) (control_ops_of tok l y))"
    using Cons.prems by (intro registry_step_held) auto
  have "registry_ok (registry_step y g)" using Cons.prems(1) by (rule registry_ok_step)
  then show ?case using Cons.IH [of "registry_step y g"] s Cons.prems(3,4)
    by (simp add: registry_run_def control_run_append)
qed

text \<open>
  C22. Jobs are isolated in the registry: from the moment a job is registered under a token until
  its own clean-up, the token stays bound to that job's lease, whatever other jobs are started
  (also under the same token), cancelled, dropped or cleaned up. Meanwhile its control receives
  exactly the cancellations addressed to its token and its own core's operations, so
  first-writer-wins decides between them.
\<close>

theorem registry_isolates_jobs:
  assumes "leases (registry_run xs registry_new) tok = Some l"
    and "Drop_job tok l \<notin> set ys" and "Hook_cleanup tok l \<notin> set ys"
  shows "leases (registry_run (xs @ ys) registry_new) tok = Some l \<and>
    controls (registry_run (xs @ ys) registry_new) l =
      snd (control_run (controls (registry_run xs registry_new) l)
        (concat (map (control_ops_of tok l) ys)))"
proof -
  have "registry_run (xs @ ys) registry_new = registry_run ys (registry_run xs registry_new)"
    by (simp add: registry_run_def)
  then show ?thesis
    using registry_run_held [OF registry_run_ok [OF registry_ok_new] assms] by simp
qed

lemma registry_isolates_jobs_witness:
  "controls (registry_run ([Run_job True ''a''] @ [Run_job True ''a'', Run_job True ''b'',
      Drop_job ''a'' 1, Cancel_job ''b'' ''cancelled'', Cancel_job ''a'' ''timeout'']) registry_new) 0 = DEADLINE"
proof -
  have "leases (registry_run [Run_job True ''a''] registry_new) ''a'' = Some 0"
    "controls (registry_run [Run_job True ''a''] registry_new) 0 = RUNNING"
    by (simp_all add: registry_run_def registry_new_def run_irregular_job_def registry_register_def
        control_new_def)
  with registry_isolates_jobs [of "[Run_job True ''a'']" "''a''" 0 "[Run_job True ''a'', Run_job True ''b'',
      Drop_job ''a'' 1, Cancel_job ''b'' ''cancelled'', Cancel_job ''a'' ''timeout'']"]
  show ?thesis
    by (simp add: cancellation_reason_from_wire_def cancel_def compare_exchange_def terminal_code_def)
qed

text \<open>
  An environment clean-up ends the job it belongs to, once: the job is no longer registered,
  its control is no longer running, with a cancellation unless it was decided before, and a
  second call of the hook changes nothing.
\<close>

theorem hook_cleanup_once:
  "case hook_cleanup \<lparr>fired = False, hook_token = tok, hook_lease = l\<rparr> n g of (did, h', n', g') \<Rightarrow>
    did \<and> leases g' tok \<noteq> Some l \<and>
    controls g' l = (if controls g l = RUNNING then CANCELLED else controls g l) \<and>
    hooks_fired n' = hooks_fired n + 1 \<and>
    hook_cleanup h' n' g' = (False, h', n', g')"
  by (auto simp: hook_cleanup_def remove_if_current_def lease_cancel_def cancel_def compare_exchange_def
      terminal_code_def)

subsection \<open>The life of a job\<close>

text \<open>
  \<open>run_lifecycle\<close>: \<open>execute\<close> and \<open>terminal\<close> run under \<open>catch_unwind\<close> (\<open>None\<close> is a panic);
  \<open>debug\<close> is the \<open>Debug\<close> text of a status. The registry entry is dropped at the end.
\<close>

definition run_lifecycle ::
    "(status \<Rightarrow> string) \<Rightarrow> string \<Rightarrow> nat \<Rightarrow> ('st \<Rightarrow> 'r response option \<times> 'st) \<Rightarrow>
      ('st \<Rightarrow> status option option \<times> 'st) \<Rightarrow> 'st \<Rightarrow> registry \<Rightarrow> 'r response \<times> 'st \<times> registry" where
  "run_lifecycle debug tok l execute terminal st g =
    (let (r1, st1) = execute st;
         resolved = (case r1 of None \<Rightarrow> project_panic ''runIrregularJob'' | Some x \<Rightarrow> x);
         (r2, st2) = terminal st1
     in (case r2 of
           Some (Some status) \<Rightarrow> project_delivery_failure (debug status)
         | Some None \<Rightarrow> resolved
         | None \<Rightarrow> project_panic ''runIrregularJob'', st2, remove_if_current tok l g))"

text \<open>The closure \<open>execute\<close> of \<open>RunIrregularJobTask::compute\<close>, from the decoded request on.\<close>

type_synonym ('score, 'snap) napi_state = "('score, 'snap) engine_event event_bridge \<times> control"

definition napi_execute ::
    "(('score, 'snap) engine_event event_frame list \<Rightarrow> ('score, 'snap) engine_event event_frame \<Rightarrow> status) \<Rightarrow>
      bool \<Rightarrow> (nesting_request \<Rightarrow> (('score, 'snap) engine_event, 'r) search) \<Rightarrow> job_env \<Rightarrow>
      wire_error + engine_request \<Rightarrow> ('score, 'snap) napi_state \<Rightarrow>
      'r response option \<times> ('score, 'snap) napi_state" where
  "napi_execute answer snapshots search env decoded st = (case decoded of
      Inl e \<Rightarrow> (Some (Response_error e), st)
    | Inr request \<Rightarrow> (case job_run search (napi_emit answer snapshots) env request (snd st) (fst st) of
        (None, c, b) \<Rightarrow> (None, b, c)
      | (Some (Inr out), c, b) \<Rightarrow> (Some (complete_engine_outcome out), b, c)
      | (Some (Inl e), c, b) \<Rightarrow> (Some (project_engine_error e), b, c)))"

text \<open>
  The closure \<open>terminal\<close>: \<open>late\<close> are the errors that callbacks of core frames report before and
  after the terminal hand-over, \<open>latch\<close> what the terminal latch answers.
\<close>

definition napi_terminal ::
    "status list \<times> status list \<Rightarrow> bool \<times> status \<Rightarrow> ('score, 'snap) napi_state \<Rightarrow>
      status option option \<times> ('score, 'snap) napi_state" where
  "napi_terminal late latch st =
    (let (status, b1) = emit_terminal_and_wait latch (fold record_failure (fst late) (fst st));
         b2 = fold record_failure (snd late) b1
     in (Some (case first_delivery_failure b2 of
           Some f \<Rightarrow> Some f
         | None \<Rightarrow> if status \<noteq> Status_Ok then Some status else None), b2, snd st))"

definition napi_compute ::
    "(status \<Rightarrow> string) \<Rightarrow> string \<Rightarrow> nat \<Rightarrow>
      (('score, 'snap) engine_event event_frame list \<Rightarrow> ('score, 'snap) engine_event event_frame \<Rightarrow> status) \<Rightarrow>
      bool \<Rightarrow> (nesting_request \<Rightarrow> (('score, 'snap) engine_event, 'r) search) \<Rightarrow> job_env \<Rightarrow>
      wire_error + engine_request \<Rightarrow> status list \<times> status list \<Rightarrow> bool \<times> status \<Rightarrow> control \<Rightarrow> registry \<Rightarrow>
      'r response \<times> ('score, 'snap) napi_state \<times> registry" where
  "napi_compute debug tok l answer snapshots search env decoded late latch c g =
    run_lifecycle debug tok l (napi_execute answer snapshots search env decoded)
      (napi_terminal late latch) (bridge_new, c) g"

subsection \<open>What a success response means\<close>

definition all_accepted ::
    "('e event_frame list \<Rightarrow> 'e event_frame \<Rightarrow> status) \<Rightarrow> 'e event_frame list \<Rightarrow> bool" where
  "all_accepted answer fs \<longleftrightarrow> (\<forall>i < length fs. answer (take i fs) (fs ! i) = Status_Ok)"

lemma all_accepted_snoc:
  "all_accepted answer (fs @ [f]) \<longleftrightarrow> all_accepted answer fs \<and> answer fs f = Status_Ok"
  by (auto simp: all_accepted_def nth_append less_Suc_eq)

lemma failure_record_none: "failure_record st first = NO_DELIVERY_FAILURE \<longleftrightarrow> False"
  by (auto simp: failure_record_def NO_DELIVERY_FAILURE_def)

lemma napi_emit_accepted:
  assumes "first_failure (napi_emit answer snapshots ev b) = NO_DELIVERY_FAILURE"
    and "\<not> terminal_emitted b"
  shows "first_failure b = NO_DELIVERY_FAILURE \<and>
    (all_accepted answer (sent b) \<longrightarrow> all_accepted answer (sent (napi_emit answer snapshots ev b)))"
  using assms
  by (auto simp: napi_emit_def skip_core_def deliver_core_to_js_def deliver_core_def all_accepted_snoc
      failure_record_none split: if_splits option.splits)

lemma napi_emit_keeps [simp]:
  "terminal_emitted (napi_emit answer snapshots ev b) = terminal_emitted b"
  by (auto simp: napi_emit_def skip_core_def deliver_core_to_js_def deliver_core_def split: option.split)

lemma napi_fold_accepted:
  "first_failure (fold (napi_emit answer snapshots) evs b) = NO_DELIVERY_FAILURE \<Longrightarrow>
    \<not> terminal_emitted b \<Longrightarrow>
    first_failure b = NO_DELIVERY_FAILURE \<and>
    (all_accepted answer (sent b) \<longrightarrow> all_accepted answer (sent (fold (napi_emit answer snapshots) evs b)))"
proof (induction evs arbitrary: b)
  case Nil
  then show ?case by simp
next
  case (Cons ev evs)
  then show ?case using napi_emit_accepted [of answer snapshots ev b] by auto
qed

lemma fold_record_failure_none:
  "first_failure (fold record_failure late b) = NO_DELIVERY_FAILURE \<longleftrightarrow>
    late = [] \<and> first_failure b = NO_DELIVERY_FAILURE"
  by (induction late arbitrary: b) (auto simp: failure_record_none)

lemma fold_record_failure_sent [simp]: "sent (fold record_failure late b) = sent b"
  by (induction late arbitrary: b) auto

lemma napi_fold_stream:
  fixes es :: "('score, 'snap) engine_event list"
  assumes "length es \<le> u64_max" and "b = fold (napi_emit answer snapshots) (numbered 0 es) bridge_new"
  shows "sent b = map Core (filter (frame_visible snapshots) (numbered 0 es)) \<and>
    \<not> terminal_emitted b \<and> bridge_next b = of_nat (length es)"
proof -
  have s: "sent (bridge_new :: ('score, 'snap) engine_event event_bridge) = []"
    "\<not> terminal_emitted (bridge_new :: ('score, 'snap) engine_event event_bridge)"
    "bridge_next (bridge_new :: ('score, 'snap) engine_event event_bridge) = of_nat 0"
    by (simp_all add: bridge_new_def)
  show ?thesis
    unfolding assms(2) using napi.fold_emit [of bridge_new 0 es answer snapshots] assms(1) s
    by (simp add: concat_visible)
qed

lemma fold_record_failure_keeps [simp]:
  "terminal_emitted (fold record_failure late b) = terminal_emitted b"
  "bridge_next (fold record_failure late b) = bridge_next b"
  by (induction late arbitrary: b) auto

lemma failure_status_none: "failure_status x = None \<longleftrightarrow> x = NO_DELIVERY_FAILURE"
  by (simp add: failure_status_def)

lemma napi_terminal_silent:
  assumes "napi_terminal late (queued, st) (b, c) = (Some None, (b', c'))" and "\<not> terminal_emitted b"
  shows "st = Status_Ok \<and> late = ([], []) \<and> first_failure b = NO_DELIVERY_FAILURE \<and> c' = c \<and>
    sent b' = (if queued then sent b @ [Terminal (bridge_next b)] else sent b)"
proof -
  let ?b1 = "snd (emit_terminal_and_wait (queued, st) (fold record_failure (fst late) b))"
  have e: "fst (emit_terminal_and_wait (queued, st) (fold record_failure (fst late) b)) = st"
    using assms(2) by (simp add: emit_terminal_and_wait_def Let_def)
  have f: "first_failure (fold record_failure (snd late) ?b1) = NO_DELIVERY_FAILURE" "st = Status_Ok"
    and b': "b' = fold record_failure (snd late) ?b1" "c' = c"
    using assms(1) e
    by (auto simp: napi_terminal_def Let_def case_prod_beta first_delivery_failure_def failure_status_none
        split: option.splits if_splits)
  then have "snd late = []" "first_failure ?b1 = NO_DELIVERY_FAILURE" by (simp_all add: fold_record_failure_none)
  moreover from this have "first_failure (fold record_failure (fst late) b) = NO_DELIVERY_FAILURE"
    using assms(2) f(2) by (auto simp: emit_terminal_and_wait_def Let_def)
  then have "fst late = []" "first_failure b = NO_DELIVERY_FAILURE" by (simp_all add: fold_record_failure_none)
  ultimately show ?thesis
    using assms(2) f(2) b' by (cases late) (auto simp: emit_terminal_and_wait_def Let_def)
qed

lemma latch_returns_ok: "latch_returns queued Status_Ok \<Longrightarrow> queued"
  using latch_ok_acknowledged by (auto simp: latch_returns_def)

text \<open>
  C21. A success response tells JavaScript the truth: if the task answers with a result, then the
  request was decoded and the core returned that very result without having been cancelled or
  timed out; every visible core event was handed to the callback in order with its ordinal and
  accepted with \<open>Ok\<close>; no callback reported an error; the terminal frame came last and was
  acknowledged with \<open>Ok\<close>; and the job is no longer registered.
\<close>

theorem napi_success_is_complete:
  fixes search :: "nesting_request \<Rightarrow> (('score, 'snap) engine_event, 'r) search"
  assumes "napi_compute debug tok l answer snapshots search env decoded late (queued, st) control_new g =
      (Response_ok res, (b, c), g')"
    and "latch_returns queued st"
  shows "\<exists>request d es. decoded = Inr request \<and>
    fst (job_run search (napi_emit answer snapshots) env request control_new bridge_new) =
      Some (Inr (Success res d)) \<and>
    (\<forall>why. reason c \<noteq> Some (Some why)) \<and> late = ([], []) \<and> st = Status_Ok \<and>
    sent b = map Core (filter (frame_visible snapshots) (numbered 0 es)) @ [Terminal (of_nat (length es))] \<and>
    all_accepted answer (butlast (sent b)) \<and> leases g' tok \<noteq> Some l"
proof -
  let ?exec = "napi_execute answer snapshots search env decoded"
  obtain r1 b1 c1 where x: "?exec (bridge_new, control_new) = (r1, (b1, c1))" by (metis prod.collapse)
  obtain r2 b2 c2 where t: "napi_terminal late (queued, st) (b1, c1) = (r2, (b2, c2))" by (metis prod.collapse)
  have r2: "r2 = Some None" "r1 = Some (Response_ok res)" "b = b2" "c = c2" "g' = remove_if_current tok l g"
    using assms(1) x t
    by (auto simp: napi_compute_def run_lifecycle_def Let_def project_panic_def project_delivery_failure_def
        failure_envelope_def split: option.splits)
  then obtain request where req: "decoded = Inr request"
    using x by (cases decoded) (auto simp: napi_execute_def)
  obtain res1 c' s' where j: "job_run search (napi_emit answer snapshots) env request control_new bridge_new = (res1, c', s')"
    by (metis prod_cases3)
  have succ: "\<exists>d. res1 = Some (Inr (Success res d)) \<and> b1 = s' \<and> c1 = c'"
    using x r2(2) j unfolding req napi_execute_def
    by (auto simp: project_engine_error_def failure_envelope_def
        split: option.splits sum.splits elim!: complete_engine_outcome.elims)
  then obtain d where d: "res1 = Some (Inr (Success res d))" "b1 = s'" "c1 = c'" by blast
  obtain es where es: "length es \<le> u64_max" "s' = fold (napi_emit answer snapshots) (numbered 0 es) bridge_new"
    and ag: "\<forall>reas. reason c' = Some (Some reas) \<longrightarrow>
      (\<exists>out. Inr (Success res d) = (Inr out :: 'r job_result) \<and> outcome_cancel_reason out = Some reas)"
    using job_run_agrees [OF j] d(1) by auto
  have st: "sent b1 = map Core (filter (frame_visible snapshots) (numbered 0 es))" "\<not> terminal_emitted b1"
    "bridge_next b1 = of_nat (length es)"
    using napi_fold_stream [OF es(1) es(2)] unfolding d(2) by auto
  have trm: "st = Status_Ok" "late = ([], [])" "first_failure b1 = NO_DELIVERY_FAILURE" "c2 = c1"
    "sent b2 = (if queued then sent b1 @ [Terminal (bridge_next b1)] else sent b1)"
    using napi_terminal_silent [OF _ st(2)] t r2(1) by auto
  have q: "queued" using latch_returns_ok assms(2) trm(1) by simp
  have "all_accepted answer (sent b1)"
    using napi_fold_accepted [of answer snapshots "numbered 0 es" bridge_new] trm(3) d(2) es(2)
    by (simp add: bridge_new_def all_accepted_def)
  moreover have "\<forall>why. reason c \<noteq> Some (Some why)" using ag r2(4) trm(4) d(3) by auto
  moreover have "leases g' tok \<noteq> Some l" by (simp add: r2(5) remove_if_current_def)
  ultimately show ?thesis
    using req j d(1) trm st q r2(3)
    by (intro exI [of _ request] exI [of _ d] exI [of _ es]) simp
qed

lemma sample_job_run:
  "job_run sample_search emit (quiet_env []) (sample_request [''a'']) control_new s =
    (Some (Inr (Success () execution_diagnostics_default)), COMPLETED, s)"
  unfolding job_run_def control_new_def sample_run_uncommitted
  by (simp add: quiet_env_def Let_def commit_terminal_result_def try_complete_def compare_exchange_def)

lemma napi_success_is_complete_witness:
  "let (x, (b, c), g') = napi_compute (\<lambda>_. []) ''t'' 0 (\<lambda>_ _. Status_Ok) True
      (sample_search :: nesting_request \<Rightarrow> ((unit, unit) engine_event, unit) search) (quiet_env [])
      (Inr (sample_request [''a''])) ([], []) (True, Status_Ok) control_new registry_new
   in x = Response_ok () \<and> sent b \<noteq> [] \<and> (\<forall>why. reason c \<noteq> Some (Some why))"
proof -
  let ?n = "napi_compute (\<lambda>_. []) ''t'' 0 (\<lambda>_ _. Status_Ok) True
      (sample_search :: nesting_request \<Rightarrow> ((unit, unit) engine_event, unit) search) (quiet_env [])
      (Inr (sample_request [''a''])) ([], []) (True, Status_Ok) control_new registry_new"
  have ok: "fst ?n = Response_ok ()"
    by (simp add: napi_compute_def run_lifecycle_def napi_execute_def sample_job_run napi_terminal_def
        emit_terminal_and_wait_def bridge_new_def first_delivery_failure_def failure_status_def Let_def)
  obtain x b c g' where n: "?n = (x, (b, c), g')" by (metis prod.collapse)
  with ok have r: "?n = (Response_ok (), (b, c), g')" by simp
  have l: "latch_returns True Status_Ok"
    using returned_ok_run unfolding latch_returns_def by force
  from napi_success_is_complete [OF r l] show ?thesis unfolding r by (auto simp: Let_def)
qed

end
