(* ===== verification/PolygonInput.thy ===== *)
theory PolygonInput
  imports Protocol SortPieces CacheKey Cycles Predicates
begin

text \<open>
  \<open>crates/polygon-nesting-cli/src/polygon_input.rs\<close>: turning a document of polygons into an engine
  request. Arguments stand for the crates it uses: \<open>parse\<close> (\<open>serde_json::from_slice\<close> into the
  document type), \<open>encode\<close> (\<open>serde_json::to_vec\<close> of a geometry key), \<open>sha256\<close> and \<open>robust\<close>
  (\<open>robust::orient2d\<close>); \<open>show_other\<close> is the standard library's rendering of an \<open>f64\<close> that is no
  integer below \<open>2 ^ 53\<close>. A \<open>usize\<close> is a natural number; its checked operations are written out.
\<close>

subsection \<open>Data\<close>

definition POLYGON_INPUT_VERSION :: u32 where "POLYGON_INPUT_VERSION = 1"
definition MAX_POLYGON_DEFINITIONS :: nat where "MAX_POLYGON_DEFINITIONS = 1000"
definition MAX_PIECE_INSTANCES :: nat where "MAX_PIECE_INSTANCES = 10000"
definition MAX_POLYGON_ID_CHARACTERS :: nat where "MAX_POLYGON_ID_CHARACTERS = 256"
definition MAX_VERTICES_PER_POLYGON :: nat where "MAX_VERTICES_PER_POLYGON = 4096"
definition MAX_TOTAL_VERTICES :: nat where "MAX_TOTAL_VERTICES = 1000000"
definition MAX_SELF_INTERSECTION_PAIR_CHECKS :: nat where "MAX_SELF_INTERSECTION_PAIR_CHECKS = 10000000"
definition MAX_POLYGON_INPUT_BYTES :: nat where "MAX_POLYGON_INPUT_BYTES = 64 * 1024 * 1024"

record import_options =
  opt_sheet_width :: f64
  opt_sheet_height :: f64
  opt_padding :: u64
  opt_profile :: engine_profile
  opt_allow_mirror :: bool
  opt_timeout_ms :: f64

datatype polygon_point = Object f64 f64 | Pair_of f64 f64

record polygon_definition =
  def_id :: string
  def_quantity :: u32
  def_points :: "polygon_point list"
  def_allow_rotation :: bool
  def_allow_mirror :: bool

record polygon_document =
  doc_version :: u32
  doc_polygons :: "polygon_definition list"

record normalized_polygon =
  np_id :: string
  np_quantity :: nat
  np_allow_rotation :: bool
  np_allow_mirror :: bool
  np_real_bounds :: rect
  np_segments :: "source_geometry_segment list"

fun into_point :: "polygon_point \<Rightarrow> point" where
  "into_point (Object x y) = \<lparr>px = x, py = y\<rparr>"
| "into_point (Pair_of x y) = \<lparr>px = x, py = y\<rparr>"

definition checked_usize :: "nat \<Rightarrow> nat option" where
  "checked_usize n = (if n \<le> u64_max then Some n else None)"

definition ensure :: "bool \<Rightarrow> string \<Rightarrow> string + unit" where
  "ensure ok message = (if ok then Inr () else Inl message)"

definition polygon_at :: "nat \<Rightarrow> string" where
  "polygon_at index = ''polygons['' @ dec index @ '']''"

subsection \<open>Orientation and intersection\<close>

definition point_is_on_segment :: "point \<Rightarrow> point \<times> point \<Rightarrow> bool" where
  "point_is_on_segment p seg = (case seg of (s, e) \<Rightarrow>
    fle (fmin (px s) (px e)) (px p) \<and> fle (px p) (fmax (px s) (px e)) \<and>
    fle (fmin (py s) (py e)) (py p) \<and> fle (py p) (fmax (py s) (py e)))"

definition segments_intersect :: "(point \<Rightarrow> point \<Rightarrow> point \<Rightarrow> f64) \<Rightarrow> point \<times> point \<Rightarrow> point \<times> point \<Rightarrow> bool" where
  "segments_intersect robust first second =
    (let first_start_turn = orientation robust (fst first) (snd first) (fst second);
         first_end_turn = orientation robust (fst first) (snd first) (snd second);
         second_start_turn = orientation robust (fst second) (snd second) (fst first);
         second_end_turn = orientation robust (fst second) (snd second) (snd first)
     in if first_start_turn = 0 \<and> point_is_on_segment (fst second) first then True
        else if first_end_turn = 0 \<and> point_is_on_segment (snd second) first then True
        else if second_start_turn = 0 \<and> point_is_on_segment (fst first) second then True
        else if second_end_turn = 0 \<and> point_is_on_segment (snd first) second then True
        else first_start_turn \<noteq> first_end_turn \<and> second_start_turn \<noteq> second_end_turn)"

definition ring_edge :: "point list \<Rightarrow> nat \<Rightarrow> point \<times> point" where
  "ring_edge ps i = (ps ! i, ps ! ((i + 1) mod length ps))"

definition has_self_intersection :: "(point \<Rightarrow> point \<Rightarrow> point \<Rightarrow> f64) \<Rightarrow> point list \<Rightarrow> bool" where
  "has_self_intersection robust ps \<longleftrightarrow> (\<exists>first_index \<in> set [0..<length ps].
    \<exists>second_index \<in> set [first_index + 1..<length ps].
      \<not> (second_index = first_index + 1 \<or> first_index = 0 \<and> second_index = length ps - 1) \<and>
      segments_intersect robust (ring_edge ps first_index) (ring_edge ps second_index))"

definition point_eq :: "point \<Rightarrow> point \<Rightarrow> bool" where
  "point_eq p q \<longleftrightarrow> feq (px p) (px q) \<and> feq (py p) (py q)"

definition contains_non_collinear_triple :: "point list \<Rightarrow> bool" where
  "contains_non_collinear_triple ps =
    (let first = ps ! 0
     in case find (\<lambda>(_, p). \<not> point_eq p first) (drop 1 (enumerate 0 ps)) of
          None \<Rightarrow> False
        | Some (second_index, second) \<Rightarrow>
            list_ex (\<lambda>(index, third). index \<noteq> second_index \<and>
              (let cross = fsub (fmul (fsub (px second) (px first)) (fsub (py third) (py first)))
                     (fmul (fsub (py second) (py first)) (fsub (px third) (px first)))
               in is_finite cross \<and> \<not> feq cross f64_zero)) (drop 1 (enumerate 0 ps)))"

subsection \<open>The canonical ring\<close>

definition compare_points :: "point \<Rightarrow> point \<Rightarrow> ordering" where
  "compare_points l r = then_with (total_cmp (px l) (px r)) (total_cmp (py l) (py r))"

fun compare_rings :: "point list \<Rightarrow> point list \<Rightarrow> ordering" where
  "compare_rings (l # ls) (r # rs) = then_with (compare_points l r) (compare_rings ls rs)"
| "compare_rings _ _ = Equal"

text \<open>\<open>min_by\<close> keeps the first of equal elements.\<close>

definition min_index :: "point list \<Rightarrow> nat" where
  "min_index ps = foldl (\<lambda>best i. if compare_points (ps ! best) (ps ! i) = Greater then i else best) 0 [1..<length ps]"

definition canonicalize_ring :: "point list \<Rightarrow> point list" where
  "canonicalize_ring ps =
    (let start = min_index ps; n = length ps;
         forward = map (\<lambda>offset. ps ! ((start + offset) mod n)) [0..<n];
         backward = map (\<lambda>offset. ps ! ((start + n - offset) mod n)) [0..<n]
     in if compare_rings forward backward = Greater then backward else forward)"

subsection \<open>Normalizing a polygon\<close>

definition fold_zero :: "f64 \<Rightarrow> f64" where
  "fold_zero v = (if feq v f64_zero then Finite False 0 else v)"

text \<open>The first loop: finite coordinates, negative zeros folded, repeated points dropped.\<close>

fun clean_points :: "nat \<Rightarrow> point list \<Rightarrow> point list \<Rightarrow> string + point list" where
  "clean_points index acc [] = Inr acc"
| "clean_points index acc (p # ps) =
    (if \<not> is_finite (px p) \<or> \<not> is_finite (py p)
     then Inl (polygon_at index @ ''.points must contain only finite coordinates'')
     else let q = \<lparr>px = fold_zero (px p), py = fold_zero (py p)\<rparr>
       in if acc \<noteq> [] \<and> point_eq (last acc) q then clean_points index acc ps
          else clean_points index (acc @ [q]) ps)"

definition open_ring :: "point list \<Rightarrow> point list" where
  "open_ring ps = (if 2 \<le> length ps \<and> point_eq (hd ps) (last ps) then butlast ps else ps)"

definition ring_segments :: "point list \<Rightarrow> source_geometry_segment list" where
  "ring_segments ps = map (\<lambda>(s, e). Segment_Line
      \<lparr>line_x1 = px s, line_y1 = py s, line_x2 = px e, line_y2 = py e, bulge = None, source_curve = None\<rparr>)
    (zip ps (tl ps @ [hd ps]))"

text \<open>The loops for \<open>min_x\<close>, \<open>min_y\<close>, \<open>max_x\<close> and \<open>max_y\<close>, from the first point on.\<close>

definition extent :: "(f64 \<Rightarrow> f64 \<Rightarrow> f64) \<Rightarrow> (point \<Rightarrow> f64) \<Rightarrow> point list \<Rightarrow> f64" where
  "extent pick f ps = foldl (\<lambda>m p. pick m (f p)) (f (ps ! 0)) (tl ps)"

definition normalize_polygon :: "(point \<Rightarrow> point \<Rightarrow> point \<Rightarrow> f64) \<Rightarrow> polygon_definition \<Rightarrow> nat \<Rightarrow> string + normalized_polygon" where
  "normalize_polygon robust polygon index =
    and_then (ensure (length (def_points polygon) \<le> MAX_VERTICES_PER_POLYGON)
      (polygon_at index @ ''.points must contain at most '' @ dec MAX_VERTICES_PER_POLYGON @ '' vertices'')) (\<lambda>_.
    and_then (clean_points index [] (map into_point (def_points polygon))) (\<lambda>cleaned.
    let points = open_ring cleaned in
    and_then (ensure (3 \<le> length points)
      (polygon_at index @ ''.points must contain at least three distinct vertices'')) (\<lambda>_.
    and_then (ensure (distinct points) (polygon_at index @ ''.points must not repeat a vertex'')) (\<lambda>_.
    let min_x = extent fmin px points; min_y = extent fmin py points;
        max_x = extent fmax px points; max_y = extent fmax py points;
        width = fsub max_x min_x; height = fsub max_y min_y in
    and_then (ensure (\<not> (\<not> is_finite width \<or> \<not> is_finite height \<or> fle width f64_zero \<or> fle height f64_zero))
      (polygon_at index @ '' must have positive finite width and height'')) (\<lambda>_.
    let normalized = map (\<lambda>p. \<lparr>px = fold_zero (fsub (px p) min_x), py = fold_zero (fsub (py p) min_y)\<rparr>) points in
    and_then (ensure (contains_non_collinear_triple normalized)
      (polygon_at index @ '' must contain at least three non-collinear vertices'')) (\<lambda>_.
    and_then (ensure (\<not> has_self_intersection robust normalized)
      (polygon_at index @ '' must form a simple ring without self-intersections'')) (\<lambda>_.
    let ring = canonicalize_ring normalized;
        real_width = fmax (fceil width) (lit 1); real_height = fmax (fceil height) (lit 1) in
    and_then (ensure (\<not> (flt MAX_SAFE_INTEGER real_width \<or> flt MAX_SAFE_INTEGER real_height))
      (polygon_at index @ '' dimensions exceed the supported range'')) (\<lambda>_.
    Inr \<lparr>np_id = def_id polygon, np_quantity = unat (def_quantity polygon),
      np_allow_rotation = def_allow_rotation polygon, np_allow_mirror = def_allow_mirror polygon,
      np_real_bounds = \<lparr>rect_x = f64_zero, rect_y = f64_zero, rect_width = real_width, rect_height = real_height\<rparr>,
      np_segments = ring_segments ring\<rparr>))))))))"

subsection \<open>The request\<close>

text \<open>The standard library's rendering of an \<open>f64\<close>: an integer below \<open>2 ^ 53\<close> in decimal digits.\<close>

definition show_f64 :: "(f64 \<Rightarrow> string) \<Rightarrow> f64 \<Rightarrow> string" where
  "show_f64 show_other v = (case v of
      Finite s m \<Rightarrow> if m = of_int \<lfloor>m\<rfloor> \<and> m < 2 ^ 53 then (if s then ''-'' else []) @ dec (nat \<lfloor>m\<rfloor>) else show_other v
    | _ \<Rightarrow> show_other v)"

text \<open>\<open>Debug\<close> of a string, for code points below 256.\<close>

fun hex :: "nat \<Rightarrow> string" where
  "hex n = (if n < 16 then [hex_digit n] else hex (n div 16) @ [hex_digit (n mod 16)])"

definition debug_char :: "char \<Rightarrow> string" where
  "debug_char c = (let n = of_char c :: nat; bs = CHR 0x5C in
    if n = 0 then [bs, CHR ''0''] else if n = 9 then [bs, CHR ''t''] else if n = 10 then [bs, CHR ''n'']
    else if n = 13 then [bs, CHR ''r''] else if n = 34 \<or> n = 92 then [bs, c]
    else if n < 32 \<or> 127 \<le> n \<and> n \<le> 160 \<or> n = 173 then [bs, CHR ''u'', CHR 0x7B] @ hex n @ [CHR 0x7D]
    else [c])"

definition debug_string :: "string \<Rightarrow> string" where
  "debug_string s = [CHR 0x22] @ concat (map debug_char s) @ [CHR 0x22]"

fun protocol_error_display :: "protocol_error \<Rightarrow> string" where
  "protocol_error_display (MalformedInput message) = ''malformed protocol input: '' @ message"
| "protocol_error_display (UnsupportedVersion expected received) =
    ''unsupported protocol version '' @ dec (unat received) @ ''; expected '' @ dec (unat expected)"
| "protocol_error_display (Validation field message) = ''invalid protocol field '' @ field @ '': '' @ message"
| "protocol_error_display (InvalidDecimalString field value) =
    ''protocol field '' @ field @ '' must be a canonical decimal string, received '' @ debug_string value"
| "protocol_error_display (Encoding message) = ''protocol encoding failed: '' @ message"

definition byte_hex :: "nat \<Rightarrow> string" where
  "byte_hex b = [hex_digit (b div 16), hex_digit (b mod 16)]"

definition geometry_key ::
    "(f64 \<Rightarrow> f64 \<Rightarrow> source_geometry_segment list \<Rightarrow> string + nat list) \<Rightarrow> (nat list \<Rightarrow> nat list) \<Rightarrow>
      rect \<Rightarrow> source_geometry_segment list \<Rightarrow> bool \<Rightarrow> bool \<Rightarrow> string + string" where
  "geometry_key encode sha256 bounds segments rotation mirror =
    (case encode (rect_width bounds) (rect_height bounds) segments of
       Inl e \<Rightarrow> Inl (''geometry identity could not be encoded: '' @ e)
     | Inr bytes \<Rightarrow>
         let tail = (if \<not> rotation \<or> \<not> mirror
           then [0] @ map of_char ''transform-permissions-v1'' @ [0] @ [of_bool rotation, of_bool mirror] else [])
         in Inr (concat (map byte_hex (sha256 (bytes @ tail)))))"

definition default_optimizer_settings :: optimizer_settings where
  "default_optimizer_settings = \<lparr>
    order_window = lit 4, beam_width = lit 8, local_candidate_fanout = lit 4, local_repair_budget = lit 0,
    intrinsic_shared_archive_enabled = True, transform_cap = lit 8,
    transform_minimum_edge_length_mm = lit 1, transform_angle_deduplication_tolerance_deg = lit (1 / 100),
    configured_rotation_enabled = True, edge_alignment_enabled = True, configured_rotation_deg = [],
    ga_enabled = False, baseline_only = True, ga_population = lit 12, ga_generation_budget = lit 2,
    ga_evaluation_budget = lit 24, ga_time_budget_ms = lit 0, ga_seed = ''default'',
    priority_order_mutation_enabled = True, transform_preference_mutation_enabled = True,
    placement_policy_mutation_enabled = True, placement_policy_id = BalancedCompactness,
    placement_policy_ids = [BalancedCompactness, ShortSideFill, EdgeContactThenBalancedCompactness]\<rparr>"

definition instance_piece :: "normalized_polygon \<Rightarrow> string \<Rightarrow> f64 \<Rightarrow> bool \<Rightarrow> nat \<Rightarrow> prepared_piece" where
  "instance_piece polygon key side_padding mirror ordinal =
    (let padded_width = fadd (rect_width (np_real_bounds polygon)) (fmul side_padding (lit 2));
         padded_height = fadd (rect_height (np_real_bounds polygon)) (fmul side_padding (lit 2))
     in \<lparr>piece_id = np_id polygon @ ''#'' @ dec ordinal, source_piece_id = np_id polygon,
         interchangeability_key = Some key, real_bounds = np_real_bounds polygon,
         padded_bounds = \<lparr>rect_x = f64_zero, rect_y = f64_zero, rect_width = padded_width, rect_height = padded_height,
           longest_edge = fmax padded_width padded_height, rect_area = fmul padded_width padded_height,
           imbalance = fabs (fsub padded_width padded_height)\<rparr>,
         piece_padding = side_padding, allow_rotation = np_allow_rotation polygon, allow_mirror = mirror,
         cut_row_ref = None\<rparr>)"

definition polygon_source_piece :: "normalized_polygon \<Rightarrow> source_piece" where
  "polygon_source_piece polygon = \<lparr>sp_id = np_id polygon, source_file_id = np_id polygon, source_layer = None,
    sp_label = np_id polygon, sp_real_bounds = np_real_bounds polygon,
    sp_geometry = \<lparr>geometry_entity_type = PresetShape, geometry_closed = True, geometry_segments = np_segments polygon\<rparr>,
    warnings = []\<rparr>"

text \<open>The loop over the polygons; the two accumulators are the two vectors.\<close>

fun build_pieces :: "(f64 \<Rightarrow> f64 \<Rightarrow> source_geometry_segment list \<Rightarrow> string + nat list) \<Rightarrow> (nat list \<Rightarrow> nat list) \<Rightarrow>
    import_options \<Rightarrow> f64 \<Rightarrow> normalized_polygon list \<Rightarrow> prepared_piece list \<Rightarrow> source_piece list \<Rightarrow>
    string + prepared_piece list \<times> source_piece list" where
  "build_pieces encode sha256 options side_padding [] ps ss = Inr (ps, ss)"
| "build_pieces encode sha256 options side_padding (polygon # rest) ps ss =
    (let effective_allow_mirror = (opt_allow_mirror options \<and> np_allow_mirror polygon) in
     and_then (geometry_key encode sha256 (np_real_bounds polygon) (np_segments polygon) (np_allow_rotation polygon)
       effective_allow_mirror) (\<lambda>key.
     build_pieces encode sha256 options side_padding rest
       (ps @ map (instance_piece polygon key side_padding effective_allow_mirror) [1..<np_quantity polygon + 1])
       (ss @ [polygon_source_piece polygon])))"

definition build_request :: "(f64 \<Rightarrow> f64 \<Rightarrow> source_geometry_segment list \<Rightarrow> string + nat list) \<Rightarrow> (nat list \<Rightarrow> nat list) \<Rightarrow>
    (f64 \<Rightarrow> string) \<Rightarrow> normalized_polygon list \<Rightarrow> import_options \<Rightarrow> string + engine_request" where
  "build_request encode sha256 show_other polygons options =
    (let side_padding = lit (of_nat ((unat (opt_padding options) + 1) div 2)) in
     and_then (build_pieces encode sha256 options side_padding polygons [] []) (\<lambda>(ps, ss).
     let request = \<lparr>version = PROTOCOL_VERSION, timeout_ms = opt_timeout_ms options, profile = opt_profile options,
         sheet = \<lparr>sheet_width = opt_sheet_width options, sheet_height = opt_sheet_height options,
           sheet_label = show_f64 show_other (opt_sheet_width options) @ ''x'' @ show_f64 show_other (opt_sheet_height options)\<rparr>,
         pieces = ps, source_pieces = ss,
         settings = \<lparr>settings_padding = lit (of_nat (unat (opt_padding options))), allow_global_rotation = True,
           allow_global_mirror = opt_allow_mirror options,
           geometry = \<lparr>flattening_sag_tolerance_mm = lit (1 / 4), clearance_safety_margin_mm = lit (1 / 4),
             geometry_backend_id = ''irregular-convex-v2-default'', geometry_backend_version = ''0''\<rparr>,
           optimizer = default_optimizer_settings\<rparr>,
         history_mode = History_Off, diagnostic_trace_mode = Trace_Off\<rparr>
     in case validate request of
          Inl e \<Rightarrow> Inl (''generated EngineRequest is invalid: '' @ protocol_error_display e)
        | Inr _ \<Rightarrow> Inr request))"

subsection \<open>The import\<close>

definition validate_options :: "import_options \<Rightarrow> string + unit" where
  "validate_options options = run_checks (map (\<lambda>(name, v).
      ensure (\<not> (\<not> is_finite v \<or> fle v f64_zero)) (name @ '' must be a positive finite number''))
    [(''sheet width'', opt_sheet_width options), (''sheet height'', opt_sheet_height options),
     (''timeout'', opt_timeout_ms options)] @
    [ensure (unat (opt_padding options) mod 2 = 0) ''padding must be an even number of millimetres''])"

record import_totals =
  seen_ids :: "string list"
  total_instances :: nat
  total_vertices :: nat
  total_pair_checks :: nat

definition usize_or :: "string \<Rightarrow> nat \<Rightarrow> string + nat" where
  "usize_or message n = (case checked_usize n of None \<Rightarrow> Inl message | Some k \<Rightarrow> Inr k)"

text \<open>The checks of the loop body before the polygon is normalized; they update the totals.\<close>

definition check_polygon :: "nat \<Rightarrow> polygon_definition \<Rightarrow> import_totals \<Rightarrow> string + import_totals" where
  "check_polygon index polygon t =
    and_then (ensure (\<not> is_blank (def_id polygon)) (polygon_at index @ ''.id must be a non-empty string'')) (\<lambda>_.
    and_then (ensure (length (def_id polygon) \<le> MAX_POLYGON_ID_CHARACTERS)
      (polygon_at index @ ''.id must contain at most '' @ dec MAX_POLYGON_ID_CHARACTERS @ '' characters'')) (\<lambda>_.
    and_then (ensure (def_id polygon \<notin> set (seen_ids t)) (polygon_at index @ ''.id must be unique'')) (\<lambda>_.
    let quantity = unat (def_quantity polygon) in
    and_then (ensure (quantity \<noteq> 0) (polygon_at index @ ''.quantity must be at least one'')) (\<lambda>_.
    and_then (usize_or ''total polygon quantity exceeds the supported range'' (total_instances t + quantity)) (\<lambda>instances.
    and_then (ensure (instances \<le> MAX_PIECE_INSTANCES)
      (''total polygon quantity must not exceed '' @ dec MAX_PIECE_INSTANCES)) (\<lambda>_.
    let vertex_count = length (def_points polygon) in
    and_then (usize_or ''total polygon vertex count is too large'' (total_vertices t + vertex_count)) (\<lambda>vertices.
    and_then (ensure (vertices \<le> MAX_TOTAL_VERTICES)
      (''total polygon vertex count must not exceed '' @ dec MAX_TOTAL_VERTICES)) (\<lambda>_.
    and_then (usize_or ''polygon self-intersection work exceeds the supported range''
      (vertex_count * (vertex_count - 3))) (\<lambda>product.
    and_then (usize_or ''polygon self-intersection work exceeds the supported range''
      (total_pair_checks t + product div 2)) (\<lambda>pair_checks.
    and_then (ensure (pair_checks \<le> MAX_SELF_INTERSECTION_PAIR_CHECKS)
      (''polygon self-intersection checks must not exceed '' @ dec MAX_SELF_INTERSECTION_PAIR_CHECKS @ '' edge pairs'')) (\<lambda>_.
    Inr \<lparr>seen_ids = def_id polygon # seen_ids t, total_instances = instances, total_vertices = vertices,
      total_pair_checks = pair_checks\<rparr>)))))))))))"

fun import_loop :: "(point \<Rightarrow> point \<Rightarrow> point \<Rightarrow> f64) \<Rightarrow> nat \<Rightarrow> polygon_definition list \<Rightarrow> import_totals \<Rightarrow>
    normalized_polygon list \<Rightarrow> string + normalized_polygon list" where
  "import_loop robust index [] t normalized = Inr normalized"
| "import_loop robust index (polygon # rest) t normalized =
    and_then (check_polygon index polygon t) (\<lambda>t1.
    and_then (normalize_polygon robust polygon index) (\<lambda>n.
    import_loop robust (Suc index) rest t1 (normalized @ [n])))"

definition import_document :: "(point \<Rightarrow> point \<Rightarrow> point \<Rightarrow> f64) \<Rightarrow>
    (f64 \<Rightarrow> f64 \<Rightarrow> source_geometry_segment list \<Rightarrow> string + nat list) \<Rightarrow> (nat list \<Rightarrow> nat list) \<Rightarrow> (f64 \<Rightarrow> string) \<Rightarrow>
    polygon_document \<Rightarrow> import_options \<Rightarrow> string + engine_request" where
  "import_document robust encode sha256 show_other document options =
    and_then (ensure (doc_version document = POLYGON_INPUT_VERSION)
      (''polygon input version must be '' @ dec (unat POLYGON_INPUT_VERSION) @ ''; received '' @ dec (unat (doc_version document)))) (\<lambda>_.
    and_then (ensure (doc_polygons document \<noteq> []) ''polygons must contain at least one polygon'') (\<lambda>_.
    and_then (ensure (length (doc_polygons document) \<le> MAX_POLYGON_DEFINITIONS)
      (''polygons must contain at most '' @ dec MAX_POLYGON_DEFINITIONS @ '' definitions'')) (\<lambda>_.
    and_then (import_loop robust 0 (doc_polygons document)
      \<lparr>seen_ids = [], total_instances = 0, total_vertices = 0, total_pair_checks = 0\<rparr> []) (\<lambda>normalized.
    build_request encode sha256 show_other
      (sort_by (\<lambda>l r. cmp_of (as_bytes (np_id l)) (as_bytes (np_id r))) normalized) options))))"

definition import_polygon_json :: "(nat list \<Rightarrow> string + polygon_document) \<Rightarrow> (point \<Rightarrow> point \<Rightarrow> point \<Rightarrow> f64) \<Rightarrow>
    (f64 \<Rightarrow> f64 \<Rightarrow> source_geometry_segment list \<Rightarrow> string + nat list) \<Rightarrow> (nat list \<Rightarrow> nat list) \<Rightarrow> (f64 \<Rightarrow> string) \<Rightarrow>
    nat list \<Rightarrow> import_options \<Rightarrow> string + engine_request" where
  "import_polygon_json parse robust encode sha256 show_other input options =
    and_then (validate_options options) (\<lambda>_.
    and_then (ensure (length input \<le> MAX_POLYGON_INPUT_BYTES)
      (''polygon input must not exceed '' @ dec MAX_POLYGON_INPUT_BYTES @ '' bytes'')) (\<lambda>_.
    case parse input of
      Inl e \<Rightarrow> Inl (''polygon JSON is invalid: '' @ e)
    | Inr document \<Rightarrow> import_document robust encode sha256 show_other document options))"

subsection \<open>The canonical ring does not depend on the order of the vertices\<close>

definition ring_point_ok :: "point \<Rightarrow> bool" where
  "ring_point_ok p \<longleftrightarrow> f64_ok (px p) \<and> f64_ok (py p)"

lemma point_order: "comparator A compare_points"
  unfolding compare_points_def [abs_def]
  by (rule comparator_then_with) (rule comparator_key [OF total_cmp_comparator [of UNIV]], simp)+

interpretation points: comparator UNIV compare_points
  by (rule point_order)

lemma compare_points_Equal: "ring_point_ok p \<Longrightarrow> ring_point_ok q \<Longrightarrow> compare_points p q = Equal \<Longrightarrow> p = q"
  using total_cmp_Equal [of "px p" "px q"] total_cmp_Equal [of "py p" "py q"]
  by (cases p; cases q) (auto simp: compare_points_def ring_point_ok_def cmp_simps)

lemma compare_rings_swap: "compare_rings rs ls = reverse_ordering (compare_rings ls rs)"
proof (induction ls rs rule: compare_rings.induct)
  case (1 l ls r rs)
  have "compare_points r l = reverse_ordering (compare_points l r)" by (rule points.swap) simp_all
  then show ?case by (simp add: 1 reverse_then_with)
qed simp_all

lemma compare_rings_Equal:
  "length ls = length rs \<Longrightarrow> \<forall>p \<in> set ls \<union> set rs. ring_point_ok p \<Longrightarrow> compare_rings ls rs = Equal \<Longrightarrow> ls = rs"
  by (induction ls rs rule: compare_rings.induct) (auto simp: cmp_simps intro: compare_points_Equal)

lemma min_index_least:
  assumes "ps \<noteq> []"
  shows "min_index ps < length ps \<and> (\<forall>i < length ps. compare_points (ps ! min_index ps) (ps ! i) \<noteq> Greater)"
proof -
  let ?f = "\<lambda>best i. if compare_points (ps ! best) (ps ! i) = Greater then i else best"
  have "foldl ?f 0 [1..<k] < k \<and> (\<forall>i < k. compare_points (ps ! foldl ?f 0 [1..<k]) (ps ! i) \<noteq> Greater)"
    if "1 \<le> k" for k
    using that
  proof (induction k rule: dec_induct)
    case base
    then show ?case using points.refl by simp
  next
    case (step k)
    let ?b = "foldl ?f 0 [1..<k]"
    have next': "foldl ?f 0 [1..<Suc k] = ?f ?b k" using step.hyps by simp
    show ?case
    proof (cases "compare_points (ps ! ?b) (ps ! k) = Greater")
      case True
      then have "compare_points (ps ! k) (ps ! ?b) = Less" using points.swap [of "ps ! ?b" "ps ! k"] by simp
      then have "compare_points (ps ! k) (ps ! i) \<noteq> Greater" if "i < k" for i
        using points.less_trans [of "ps ! k" "ps ! ?b" "ps ! i"] step.IH that by auto
      then show ?thesis unfolding next' using True points.refl [of "ps ! k"] by (auto simp: less_Suc_eq)
    next
      case False
      then show ?thesis unfolding next' using step.IH by (auto simp: less_Suc_eq)
    qed
  qed
  from this [of "length ps"] assms show ?thesis unfolding min_index_def by (simp add: Suc_le_eq)
qed

lemma forward_rotate:
  assumes "s < length ps"
  shows "map (\<lambda>k. ps ! ((s + k) mod length ps)) [0..<length ps] = rotate s ps"
  using assms by (intro nth_equalityI) (simp_all add: nth_rotate add.commute)

lemma backward_rotate:
  assumes "s < length ps"
  shows "map (\<lambda>k. ps ! ((s + length ps - k) mod length ps)) [0..<length ps] = rotate (length ps - 1 - s) (rev ps)"
proof (rule nth_equalityI)
  let ?n = "length ps"
  fix k assume "k < length (map (\<lambda>k. ps ! ((s + ?n - k) mod ?n)) [0..<?n])"
  then have k: "k < ?n" by simp
  have "(s + ?n - k) mod ?n = ?n - 1 - (?n - 1 - s + k) mod ?n"
  proof (cases "k \<le> s")
    case True
    have "s + ?n - k = s - k + ?n" using True by linarith
    moreover have "s - k < ?n" using assms by linarith
    ultimately have 1: "(s + ?n - k) mod ?n = s - k" by (simp only: mod_add_self2 mod_less)
    have "?n - 1 - s + k < ?n" using True assms by linarith
    then have 2: "(?n - 1 - s + k) mod ?n = ?n - 1 - s + k" by (rule mod_less)
    show ?thesis unfolding 1 2 using True assms by linarith
  next
    case False
    have "?n - 1 - s + k = k - 1 - s + ?n" using False assms by linarith
    moreover have "k - 1 - s < ?n" using k by linarith
    ultimately have 1: "(?n - 1 - s + k) mod ?n = k - 1 - s" by (simp only: mod_add_self2 mod_less)
    have "s + ?n - k < ?n" using False k by linarith
    then have 2: "(s + ?n - k) mod ?n = s + ?n - k" by (rule mod_less)
    show ?thesis unfolding 1 2 using False assms k by linarith
  qed
  moreover have "(?n - 1 - s + k) mod ?n < ?n" using assms by (intro mod_less_divisor) linarith
  ultimately show "map (\<lambda>k. ps ! ((s + ?n - k) mod ?n)) [0..<?n] ! k = rotate (?n - 1 - s) (rev ps) ! k"
    using k by (simp add: nth_rotate rev_nth)
qed simp

lemma canonicalize_walks:
  assumes "distinct ps" "ps \<noteq> []"
  shows "\<exists>x \<in> set ps. (\<forall>y \<in> set ps. compare_points x y \<noteq> Greater) \<and>
    canonicalize_ring ps = (if compare_rings (walk_from x ps) (walk_from x (rev ps)) = Greater
      then walk_from x (rev ps) else walk_from x ps)"
proof
  let ?s = "min_index ps"
  let ?x = "ps ! ?s"
  have s: "?s < length ps" using min_index_least [OF assms(2)] by simp
  then show x: "?x \<in> set ps" by simp
  have least: "\<forall>y \<in> set ps. compare_points ?x y \<noteq> Greater"
    using min_index_least [OF assms(2)] by (auto simp: in_set_conv_nth)
  have "rotate ?s ps = walk_from ?x ps"
    using s by (intro rotation_walk_from [OF assms(1) x]) (simp add: hd_rotate_conv_nth [OF assms(2)])
  moreover have "rotate (length ps - 1 - ?s) (rev ps) = walk_from ?x (rev ps)"
  proof (rule rotation_walk_from)
    have "hd (rotate (length ps - 1 - ?s) (rev ps)) = rev ps ! ((length ps - 1 - ?s) mod length ps)"
      using hd_rotate_conv_nth [of "rev ps"] assms(2) by simp
    also have "\<dots> = ?x" using s by (simp add: rev_nth)
    finally show "hd (rotate (length ps - 1 - ?s) (rev ps)) = ?x" .
  qed (use assms x in simp_all)
  ultimately show "(\<forall>y \<in> set ps. compare_points ?x y \<noteq> Greater) \<and>
    canonicalize_ring ps = (if compare_rings (walk_from ?x ps) (walk_from ?x (rev ps)) = Greater
      then walk_from ?x (rev ps) else walk_from ?x ps)"
    using least by (simp add: canonicalize_ring_def Let_def forward_rotate [OF s] backward_rotate [OF s])
qed

lemma walk_from_set: "set (walk_from x ps) = set ps"
  using walk_from_rotate [of x ps] by auto

lemma canonicalize_cycle:
  assumes "distinct ps" "ps \<noteq> []" "\<forall>p \<in> set ps. ring_point_ok p" and "same_cycle ps qs"
  shows "canonicalize_ring qs = canonicalize_ring ps"
proof -
  have q: "distinct qs" "qs \<noteq> []" "set qs = set ps"
    using assms same_cycle_distinct same_cycle_set same_cycle_length by (metis, metis length_0_conv, metis)
  obtain x where x: "x \<in> set ps" "\<forall>y \<in> set ps. compare_points x y \<noteq> Greater"
    "canonicalize_ring ps = (if compare_rings (walk_from x ps) (walk_from x (rev ps)) = Greater
      then walk_from x (rev ps) else walk_from x ps)"
    using canonicalize_walks [OF assms(1,2)] by blast
  obtain y where y: "y \<in> set ps" "\<forall>z \<in> set ps. compare_points y z \<noteq> Greater"
    "canonicalize_ring qs = (if compare_rings (walk_from y qs) (walk_from y (rev qs)) = Greater
      then walk_from y (rev qs) else walk_from y qs)"
    using canonicalize_walks [OF q(1,2)] q(3) by auto
  have "compare_points x y = Equal" using x(1,2) y(1,2) points.Equal_iff by blast
  then have xy: "y = x" using compare_points_Equal x(1) y(1) assms(3) by metis
  have w: "{walk_from x qs, walk_from x (rev qs)} = {walk_from x ps, walk_from x (rev ps)}"
    by (rule same_cycle_walks [OF assms(1) x(1) assms(4)])
  have len: "length (walk_from x ps) = length (walk_from x (rev ps))"
    using walk_from_rotate [of x ps] walk_from_rotate [of x "rev ps"] by auto
  have eq: "compare_rings (walk_from x ps) (walk_from x (rev ps)) = Equal \<Longrightarrow> walk_from x ps = walk_from x (rev ps)"
    using compare_rings_Equal [OF len] assms(3) by (simp add: walk_from_set)
  show ?thesis
    using w eq compare_rings_swap [of "walk_from x ps" "walk_from x (rev ps)"]
    unfolding x(3) y(3) xy by (cases "compare_rings (walk_from x ps) (walk_from x (rev ps))") (auto simp: doubleton_eq_iff)
qed

subsection \<open>Cleaned points and their extents\<close>

text \<open>A finite binary64 value that is no negative zero; equal such values are identical.\<close>

definition plain :: "f64 \<Rightarrow> bool" where
  "plain v \<longleftrightarrow> is_finite v \<and> f64_ok v \<and> fold_zero v = v"

lemma plain_eq: "plain a \<Longrightarrow> plain b \<Longrightarrow> feq a b \<longleftrightarrow> a = b"
  by (cases a; cases b) (auto simp: plain_def fold_zero_def split: if_splits)

lemma plain_fold: "is_finite v \<Longrightarrow> f64_ok v \<Longrightarrow> plain (fold_zero v)"
  by (auto simp: plain_def fold_zero_def f64_top_def)

lemma plain_total: "plain a \<Longrightarrow> plain b \<Longrightarrow> flt a b \<or> a = b \<or> flt b a"
  using flt_total [of a b] plain_eq [of a b] by (cases a; cases b) (auto simp: plain_def)

definition plain_point :: "point \<Rightarrow> bool" where
  "plain_point p \<longleftrightarrow> plain (px p) \<and> plain (py p)"

lemma point_eq_plain: "plain_point p \<Longrightarrow> plain_point q \<Longrightarrow> point_eq p q \<longleftrightarrow> p = q"
  by (cases p; cases q) (auto simp: plain_point_def point_eq_def plain_eq)

lemma clean_points_plain:
  assumes "clean_points i acc ps = Inr qs" "\<forall>p \<in> set ps. ring_point_ok p" "\<forall>p \<in> set acc. plain_point p"
  shows "\<forall>p \<in> set qs. plain_point p"
  using assms
proof (induction ps arbitrary: acc)
  case (Cons p ps)
  have "plain_point \<lparr>px = fold_zero (px p), py = fold_zero (py p)\<rparr>"
    using Cons.prems by (auto simp: plain_point_def ring_point_ok_def plain_fold split: if_splits)
  then have acc: "\<forall>q \<in> set (acc @ [\<lparr>px = fold_zero (px p), py = fold_zero (py p)\<rparr>]). plain_point q"
    using Cons.prems(3) by simp
  have fin: "is_finite (px p)" "is_finite (py p)" using Cons.prems(1) by (simp_all split: if_splits)
  show ?case
  proof (cases "acc \<noteq> [] \<and> point_eq (last acc) \<lparr>px = fold_zero (px p), py = fold_zero (py p)\<rparr>")
    case True
    then have "clean_points i acc ps = Inr qs" using Cons.prems(1) fin by (simp add: Let_def)
    then show ?thesis by (rule Cons.IH) (use Cons.prems in simp_all)
  next
    case False
    then have "clean_points i (acc @ [\<lparr>px = fold_zero (px p), py = fold_zero (py p)\<rparr>]) ps = Inr qs"
      using Cons.prems(1) fin by (auto simp: Let_def)
    then show ?thesis by (rule Cons.IH) (use Cons.prems acc in simp_all)
  qed
qed simp

lemma open_ring_set: "set (open_ring ps) \<subseteq> set ps"
  by (auto simp: open_ring_def dest: in_set_butlastD)

text \<open>The index only occurs in messages.\<close>

lemma clean_points_index:
  "clean_points i acc ps = Inr qs \<Longrightarrow> clean_points j acc ps = Inr qs"
  by (induction ps arbitrary: acc) (auto simp: Let_def split: if_splits)

definition ring_of :: "polygon_definition \<Rightarrow> point list" where
  "ring_of p = (case clean_points 0 [] (map into_point (def_points p)) of Inl _ \<Rightarrow> [] | Inr c \<Rightarrow> open_ring c)"

text \<open>A pick that returns one of its operands, and never the worse one.\<close>

lemma extent_picks:
  assumes "ps \<noteq> []" and pick: "\<And>a b. pick a b = a \<or> pick a b = b"
    and worse: "\<And>a b. plain a \<Longrightarrow> plain b \<Longrightarrow> \<not> worse (pick a b) a \<and> \<not> worse (pick a b) b"
    and trans: "\<And>a b c. plain a \<Longrightarrow> plain b \<Longrightarrow> plain c \<Longrightarrow> \<not> worse a b \<Longrightarrow> \<not> worse b c \<Longrightarrow> \<not> worse a c"
    and irrefl: "\<And>a. \<not> worse a a"
    and plain: "\<forall>p \<in> set ps. plain (f p)"
  shows "extent pick f ps \<in> f ` set ps \<and> (\<forall>p \<in> set ps. \<not> worse (extent pick f ps) (f p))"
proof -
  obtain q qs where ps: "ps = q # qs" using assms(1) by (cases ps) auto
  have "foldl (\<lambda>m p. pick m (f p)) (f q) qs \<in> f ` set (q # qs) \<and>
      (\<forall>p \<in> set (q # qs). \<not> worse (foldl (\<lambda>m p. pick m (f p)) (f q) qs) (f p))"
    if "\<forall>p \<in> set (q # qs). plain (f p)" for qs
    using that
  proof (induction qs rule: rev_induct)
    case Nil
    then show ?case using irrefl by simp
  next
    case (snoc p qs)
    let ?m = "foldl (\<lambda>m p. pick m (f p)) (f q) qs"
    have m: "?m \<in> f ` set (q # qs)" "\<forall>p \<in> set (q # qs). \<not> worse ?m (f p)" using snoc by auto
    then have pl: "plain ?m" "plain (f p)" using snoc.prems by auto
    have new: "plain (pick ?m (f p))" using pick [of ?m "f p"] pl by auto
    have "\<not> worse (pick ?m (f p)) (f r)" if "r \<in> set (q # qs)" for r
      using trans [OF new pl(1), of "f r"] worse [OF pl] m(2) snoc.prems that by auto
    then show ?case using worse [OF pl] pick [of ?m "f p"] m(1) by auto
  qed
  from this [of qs] plain show ?thesis by (simp add: extent_def ps)
qed

lemma flt_plain_trans: "plain a \<Longrightarrow> plain b \<Longrightarrow> plain c \<Longrightarrow> \<not> flt a b \<Longrightarrow> \<not> flt b c \<Longrightarrow> \<not> flt a c"
proof
  assume p: "plain a" "plain b" "plain c" "\<not> flt a b" "\<not> flt b c" and ac: "flt a c"
  from plain_total [OF p(1,2)] p(4) have "a = b \<or> flt b a" by blast
  then have "flt b c" using flt_trans [OF _ ac] ac by blast
  with p(5) show False ..
qed

lemma plain_not_nan: "plain a \<Longrightarrow> \<not> is_nan a"
  by (cases a) (auto simp: plain_def)

lemma extent_min:
  assumes "ps \<noteq> []" "\<forall>p \<in> set ps. plain (f p)"
  shows "extent fmin f ps \<in> f ` set ps \<and> (\<forall>p \<in> set ps. \<not> flt (f p) (extent fmin f ps))"
  using assms(2)
  by (intro extent_picks [OF assms(1), where worse = "\<lambda>a b. flt b a"])
    (auto simp: fmin_def plain_not_nan dest: flt_asym flt_plain_trans)

lemma extent_max:
  assumes "ps \<noteq> []" "\<forall>p \<in> set ps. plain (f p)"
  shows "extent fmax f ps \<in> f ` set ps \<and> (\<forall>p \<in> set ps. \<not> flt (extent fmax f ps) (f p))"
  using assms(2)
  by (intro extent_picks [OF assms(1), where worse = flt])
    (auto simp: fmax_def plain_not_nan dest: flt_asym flt_plain_trans)

lemma extent_unique:
  assumes "ps \<noteq> []" "set qs = set ps" "\<forall>p \<in> set ps. plain (f p)"
  shows "extent fmin f qs = extent fmin f ps" "extent fmax f qs = extent fmax f ps"
proof -
  have q: "qs \<noteq> []" "\<forall>p \<in> set qs. plain (f p)" using assms by auto
  note m = extent_min [OF assms(1,3)] extent_min [OF q] extent_max [OF assms(1,3)] extent_max [OF q]
  have e: "a = b" if "a \<in> f ` set ps" "b \<in> f ` set ps" "\<not> flt a b" "\<not> flt b a" for a b
    using that plain_total [of a b] assms(3) by auto
  show "extent fmin f qs = extent fmin f ps" using m(1,2) unfolding assms(2) by (intro e) auto
  show "extent fmax f qs = extent fmax f ps" using m(3,4) unfolding assms(2) by (intro e) auto
qed

end
