(* ===== verification/PolygonImport.thy ===== *)
theory PolygonImport
  imports PolygonInput F64Eval
begin

text \<open>
  What an import promises: the request of a document that is accepted, and the first problem of a
  document that is refused. The loop of \<open>import_document\<close> is characterized by its accepted inputs;
  the properties read off that characterization.
\<close>

subsection \<open>Accepted polygons\<close>

declare run_checks.simps(2) [simp del]

lemma ensure_Inr [simp]: "ensure b m = Inr u \<longleftrightarrow> b"
  by (simp add: ensure_def)

lemma ensure_Inl [simp]: "ensure b m = Inl e \<longleftrightarrow> \<not> b \<and> e = m"
  by (auto simp: ensure_def)

lemma usize_or_Inr [simp]: "usize_or m n = Inr k \<longleftrightarrow> n \<le> u64_max \<and> k = n"
  by (auto simp: usize_or_def checked_usize_def)

lemma usize_or_Inl [simp]: "usize_or m n = Inl e \<longleftrightarrow> u64_max < n \<and> e = m"
  by (auto simp: usize_or_def checked_usize_def)

definition pair_checks :: "polygon_definition \<Rightarrow> nat" where
  "pair_checks p = length (def_points p) * (length (def_points p) - 3) div 2"

definition definition_ok :: "polygon_definition \<Rightarrow> bool" where
  "definition_ok p \<longleftrightarrow> \<not> is_blank (def_id p) \<and> length (def_id p) \<le> MAX_POLYGON_ID_CHARACTERS \<and> unat (def_quantity p) \<noteq> 0"

definition totals_after :: "polygon_definition \<Rightarrow> import_totals \<Rightarrow> import_totals" where
  "totals_after p t = \<lparr>seen_ids = def_id p # seen_ids t, total_instances = total_instances t + unat (def_quantity p),
    total_vertices = total_vertices t + length (def_points p), total_pair_checks = total_pair_checks t + pair_checks p\<rparr>"

definition totals_ok :: "import_totals \<Rightarrow> bool" where
  "totals_ok t \<longleftrightarrow> total_instances t \<le> MAX_PIECE_INSTANCES \<and> total_vertices t \<le> MAX_TOTAL_VERTICES \<and>
    total_pair_checks t \<le> MAX_SELF_INTERSECTION_PAIR_CHECKS"

lemma check_polygon_Inr:
  "check_polygon i p t = Inr t1 \<longleftrightarrow>
    definition_ok p \<and> def_id p \<notin> set (seen_ids t) \<and> totals_ok (totals_after p t) \<and> t1 = totals_after p t"
proof -
  have "n \<le> u64_max" if "n div 2 \<le> 10000000" for n :: nat using that by simp
  then have b: "n \<le> u64_max" if "m + n div 2 \<le> 10000000" for m n :: nat using that by fastforce
  have s: "n \<le> u64_max" if "n \<le> 10000000" for n :: nat using that by simp
  show ?thesis
    using b [of "total_pair_checks t" "length (def_points p) * (length (def_points p) - 3)"] s
    unfolding check_polygon_def
    by (auto simp: Let_def and_then_Inr_iff definition_ok_def totals_ok_def totals_after_def pair_checks_def
        MAX_PIECE_INSTANCES_def MAX_TOTAL_VERTICES_def MAX_SELF_INTERSECTION_PAIR_CHECKS_def)
qed

lemma normalize_index: "normalize_polygon robust p i = Inr n \<Longrightarrow> normalize_polygon robust p j = Inr n"
  by (auto simp: normalize_polygon_def and_then_Inr_iff Let_def intro: clean_points_index)

lemma normalize_kept:
  "normalize_polygon robust p i = Inr n \<Longrightarrow> np_id n = def_id p \<and> np_quantity n = unat (def_quantity p) \<and>
    np_allow_rotation n = def_allow_rotation p \<and> np_allow_mirror n = def_allow_mirror p"
  by (auto simp: normalize_polygon_def and_then_Inr_iff Let_def)

definition totals_of :: "polygon_definition list \<Rightarrow> import_totals \<Rightarrow> import_totals" where
  "totals_of ps t = foldl (\<lambda>t p. totals_after p t) t ps"

lemma totals_of_sums:
  "seen_ids (totals_of ps t) = rev (map def_id ps) @ seen_ids t"
  "total_instances (totals_of ps t) = total_instances t + (\<Sum>p \<leftarrow> ps. unat (def_quantity p))"
  "total_vertices (totals_of ps t) = total_vertices t + (\<Sum>p \<leftarrow> ps. length (def_points p))"
  "total_pair_checks (totals_of ps t) = total_pair_checks t + (\<Sum>p \<leftarrow> ps. pair_checks p)"
  by (induction ps arbitrary: t) (simp_all add: totals_of_def totals_after_def)

lemma totals_ok_mono: "totals_ok (totals_of ps t) \<Longrightarrow> totals_ok t"
  by (auto simp: totals_ok_def totals_of_sums)

text \<open>The loop accepts exactly these inputs, and the order only matters for the order of the result.\<close>

definition accepts :: "(point \<Rightarrow> point \<Rightarrow> point \<Rightarrow> f64) \<Rightarrow> polygon_definition \<Rightarrow> normalized_polygon \<Rightarrow> bool" where
  "accepts robust p n \<longleftrightarrow> definition_ok p \<and> normalize_polygon robust p 0 = Inr n"

lemma import_loop_Inr:
  "totals_ok t \<Longrightarrow> import_loop robust i ps t acc = Inr ns \<longleftrightarrow>
    (\<exists>ms. ns = acc @ ms \<and> list_all2 (accepts robust) ps ms) \<and> distinct (map def_id ps) \<and>
    set (map def_id ps) \<inter> set (seen_ids t) = {} \<and> totals_ok (totals_of ps t)"
proof (induction ps arbitrary: i t acc)
  case Nil
  then show ?case by (auto simp: totals_of_def)
next
  case (Cons p ps)
  have of: "totals_of (p # ps) t = totals_of ps (totals_after p t)" by (simp add: totals_of_def)
  have seen: "seen_ids (totals_after p t) = def_id p # seen_ids t" by (simp add: totals_after_def)
  have step: "import_loop robust i (p # ps) t acc = Inr ns \<longleftrightarrow>
      definition_ok p \<and> def_id p \<notin> set (seen_ids t) \<and> totals_ok (totals_after p t) \<and>
      (\<exists>n. normalize_polygon robust p 0 = Inr n \<and>
        import_loop robust (Suc i) ps (totals_after p t) (acc @ [n]) = Inr ns)"
    by (auto simp: and_then_Inr_iff check_polygon_Inr dest: normalize_index)
  show ?case
  proof (cases "totals_ok (totals_after p t)")
    case True
    show ?thesis
      unfolding step of Cons.IH [OF True] seen
      by (auto simp: True list_all2_Cons1) (auto simp: accepts_def)
  next
    case False
    then have "\<not> totals_ok (totals_of (p # ps) t)" unfolding of using totals_ok_mono by blast
    then show ?thesis unfolding step using False by blast
  qed
qed

subsection \<open>The request of an accepted document\<close>

abbreviation by_id :: "normalized_polygon \<Rightarrow> normalized_polygon \<Rightarrow> ordering" where
  "by_id \<equiv> \<lambda>l r. cmp_of (as_bytes (np_id l)) (as_bytes (np_id r))"

interpretation by_id: comparator A by_id
  by (rule comparator_linorder_key)

definition polygon_instances :: "import_options \<Rightarrow> f64 \<Rightarrow> normalized_polygon \<times> string \<Rightarrow> prepared_piece list" where
  "polygon_instances options padding = (\<lambda>(n, key).
    map (instance_piece n key padding (opt_allow_mirror options \<and> np_allow_mirror n)) [1..<np_quantity n + 1])"

lemma build_pieces_Inr:
  "build_pieces encode sha256 options padding ns ps ss = Inr r \<Longrightarrow>
    \<exists>keys. length keys = length ns \<and>
      r = (ps @ concat (map (polygon_instances options padding) (zip ns keys)), ss @ map polygon_source_piece ns)"
proof (induction ns arbitrary: ps ss)
  case (Cons n ns)
  let ?mirror = "opt_allow_mirror options \<and> np_allow_mirror n"
  from Cons.prems obtain key where
    "build_pieces encode sha256 options padding ns
      (ps @ map (instance_piece n key padding ?mirror) [1..<np_quantity n + 1]) (ss @ [polygon_source_piece n]) = Inr r"
    by (auto simp: Let_def and_then_Inr_iff)
  from Cons.IH [OF this] obtain keys where "length keys = length ns" "r = (ps @ map (instance_piece n key padding ?mirror)
      [1..<np_quantity n + 1] @ concat (map (polygon_instances options padding) (zip ns keys)), ss @ map polygon_source_piece (n # ns))"
    by auto
  then show ?case by (intro exI [of _ "key # keys"]) (simp add: polygon_instances_def)
qed simp

lemma build_request_Inr:
  assumes "build_request encode sha256 show_other ns options = Inr r"
  obtains keys padding where "validate r = Inr ()" "archive_ineligibility r = None"
    "source_pieces r = map polygon_source_piece ns" "length keys = length ns"
    "pieces r = concat (map (polygon_instances options padding) (zip ns keys))"
proof -
  from assms obtain b where b: "build_pieces encode sha256 options
      (lit (of_nat ((unat (opt_padding options) + 1) div 2))) ns [] [] = Inr b"
    by (auto simp: build_request_def and_then_Inr_iff)
  from build_pieces_Inr [OF b] obtain keys where k: "length keys = length ns" "b = (concat (map (polygon_instances options
      (lit (of_nat ((unat (opt_padding options) + 1) div 2)))) (zip ns keys)), map polygon_source_piece ns)" by auto
  from assms b have "validate r = Inr ()" "pieces r = fst b" "source_pieces r = snd b"
    "optimizer (settings r) = default_optimizer_settings"
    by (auto simp: build_request_def Let_def split: sum.splits prod.splits)
  moreover from this(4) have "archive_ineligibility r = None"
    by (simp add: archive_ineligibility_def default_optimizer_settings_def ga_active_def)
  ultimately show ?thesis using k by (intro that) auto
qed

definition no_totals :: import_totals where
  "no_totals = \<lparr>seen_ids = [], total_instances = 0, total_vertices = 0, total_pair_checks = 0\<rparr>"

lemma import_document_Inr:
  "import_document robust encode sha256 show_other doc options = Inr r \<longleftrightarrow>
    doc_version doc = POLYGON_INPUT_VERSION \<and> doc_polygons doc \<noteq> [] \<and>
    length (doc_polygons doc) \<le> MAX_POLYGON_DEFINITIONS \<and> distinct (map def_id (doc_polygons doc)) \<and>
    totals_ok (totals_of (doc_polygons doc) no_totals) \<and>
    (\<exists>ns. list_all2 (accepts robust) (doc_polygons doc) ns \<and>
      build_request encode sha256 show_other (sort_by by_id ns) options = Inr r)"
proof -
  have "totals_ok no_totals" by (simp add: totals_ok_def no_totals_def)
  from import_loop_Inr [OF this, of robust 0 "doc_polygons doc" "[]"] show ?thesis
    by (auto simp: import_document_def and_then_Inr_iff no_totals_def)
qed

lemma accepts_ids: "list_all2 (accepts robust) ps ns \<Longrightarrow> map np_id ns = map def_id ps"
  by (induction rule: list_all2_induct) (auto simp: accepts_def dest: normalize_kept)

subsection \<open>A sample document\<close>

text \<open>The determinant \<open>robust\<close> approximates, here in plain binary64 arithmetic.\<close>

definition sample_robust :: "point \<Rightarrow> point \<Rightarrow> point \<Rightarrow> f64" where
  "sample_robust a b c = fsub (fmul (fsub (px a) (px c)) (fsub (py b) (py c)))
    (fmul (fsub (py a) (py c)) (fsub (px b) (px c)))"

definition sample_triangle :: "string \<Rightarrow> u32 \<Rightarrow> polygon_definition" where
  "sample_triangle i q = \<lparr>def_id = i, def_quantity = q, def_points = [Pair_of (lit 1) (lit 1), Pair_of (lit 4) (lit 1),
    Object (lit 4) (lit 3)], def_allow_rotation = True, def_allow_mirror = False\<rparr>"

definition sample_options :: import_options where
  "sample_options = \<lparr>opt_sheet_width = lit 100, opt_sheet_height = lit 50, opt_padding = 2, opt_profile = Compact,
    opt_allow_mirror = True, opt_timeout_ms = lit 1000\<rparr>"

definition sample_document :: "polygon_definition list \<Rightarrow> polygon_document" where
  "sample_document ps = \<lparr>doc_version = 1, doc_polygons = ps\<rparr>"

lemmas sample_eval = f64_eval Let_def open_ring_def point_eq_def fle_def fmin_def fmax_def fsub_def fold_zero_def
  ensure_def extent_def

lemma sample_clean:
  "clean_points k [] (map into_point (def_points (sample_triangle i q))) = Inr [\<lparr>px = Finite False 1, py = Finite False 1\<rparr>,
    \<lparr>px = Finite False 4, py = Finite False 1\<rparr>, \<lparr>px = Finite False 4, py = Finite False 3\<rparr>]"
  by (simp add: sample_eval sample_triangle_def)

definition sample_ring :: "point list" where
  "sample_ring = [\<lparr>px = Finite False 0, py = Finite False 0\<rparr>, \<lparr>px = Finite False 3, py = Finite False 0\<rparr>,
    \<lparr>px = Finite False 3, py = Finite False 2\<rparr>]"

lemma triangle_simple: "length ps = 3 \<Longrightarrow> \<not> has_self_intersection robust ps"
  by (auto simp: has_self_intersection_def)

lemma sample_noncollinear: "contains_non_collinear_triple sample_ring"
  by (simp add: sample_eval sample_ring_def contains_non_collinear_triple_def enumerate_eq_zip)

definition sample_normalized :: "string \<Rightarrow> nat \<Rightarrow> normalized_polygon" where
  "sample_normalized i q = \<lparr>np_id = i, np_quantity = q, np_allow_rotation = True, np_allow_mirror = False,
    np_real_bounds = \<lparr>rect_x = f64_zero, rect_y = f64_zero, rect_width = Finite False 3, rect_height = Finite False 2\<rparr>,
    np_segments = ring_segments (canonicalize_ring sample_ring)\<rparr>"

lemma sample_normalize:
  "normalize_polygon sample_robust (sample_triangle i q) k = Inr (sample_normalized i (unat q))"
proof -
  let ?ps = "[\<lparr>px = Finite False 1, py = Finite False 1\<rparr>, \<lparr>px = Finite False 4, py = Finite False 1\<rparr>,
    \<lparr>px = Finite False 4, py = Finite False 3\<rparr>]"
  have o: "open_ring ?ps = ?ps" by (simp add: open_ring_def point_eq_def)
  have e: "extent fmin px ?ps = Finite False 1" "extent fmin py ?ps = Finite False 1"
    "extent fmax px ?ps = Finite False 4" "extent fmax py ?ps = Finite False 3" by (simp_all add: extent_def fmin_def fmax_def)
  have w: "fsub (Finite False 4) (Finite False 1) = Finite False 3" "fsub (Finite False 3) (Finite False 1) = Finite False 2"
    "fsub (Finite False 1) (Finite False 1) = f64_zero" "fold_zero (Finite False 3) = Finite False 3"
    "fold_zero (Finite False 2) = Finite False 2" "fold_zero f64_zero = f64_zero"
    by (simp_all add: sample_eval)
  have t: "\<not> has_self_intersection sample_robust sample_ring" by (rule triangle_simple) (simp add: sample_ring_def)
  show ?thesis
    unfolding normalize_polygon_def sample_clean
    by (simp add: o e w t sample_ring_def [symmetric] Let_def sample_noncollinear ensure_def fle_def fmax_def f64_eval
        MAX_SAFE_INTEGER_def sample_normalized_def) (simp add: sample_triangle_def MAX_VERTICES_PER_POLYGON_def)
qed

lemma sample_canonical: "canonicalize_ring sample_ring = [\<lparr>px = Finite False 0, py = Finite False 0\<rparr>,
    \<lparr>px = Finite False 3, py = Finite False 0\<rparr>, \<lparr>px = Finite False 3, py = Finite False 2\<rparr>]"
proof -
  have u: "[0..<3] = [0, 1, 2]" "[1..<3] = [1, 2 :: nat]" by (simp_all add: upt_rec)
  have "min_index sample_ring = 0"
    by (simp add: min_index_def sample_ring_def compare_points_def total_cmp_def cmp_of_def u)
  then show ?thesis
    by (simp add: canonicalize_ring_def sample_ring_def compare_points_def total_cmp_def cmp_of_def u)
qed

text \<open>The request the sample document becomes.\<close>

definition sample_build :: "normalized_polygon list \<Rightarrow> string + engine_request" where
  "sample_build ns = build_request (\<lambda>_ _ _. Inr [7]) (\<lambda>_. [171]) (\<lambda>_. '''') ns sample_options"

lemma sample_key: "geometry_key (\<lambda>_ _ _. Inr [7]) (\<lambda>_. [171]) b s rot mir = Inr [hex_digit 10, hex_digit 11]"
  by (simp add: geometry_key_def byte_hex_def Let_def)

lemma sample_normalized_simps [simp]:
  "np_id (sample_normalized i q) = i" "np_quantity (sample_normalized i q) = q"
  "np_allow_rotation (sample_normalized i q)" "\<not> np_allow_mirror (sample_normalized i q)"
  "np_real_bounds (sample_normalized i q) = \<lparr>rect_x = Finite False 0, rect_y = Finite False 0,
    rect_width = Finite False 3, rect_height = Finite False 2\<rparr>"
  by (simp_all add: sample_normalized_def)

lemma sample_pieces:
  "build_pieces (\<lambda>_ _ _. Inr [7]) (\<lambda>_. [171]) options f64_one
      [sample_normalized ''a'' 1, sample_normalized ''b'' 2] [] [] =
    Inr ([instance_piece (sample_normalized ''a'' 1) [hex_digit 10, hex_digit 11] f64_one False 1,
      instance_piece (sample_normalized ''b'' 2) [hex_digit 10, hex_digit 11] f64_one False 1,
      instance_piece (sample_normalized ''b'' 2) [hex_digit 10, hex_digit 11] f64_one False 2],
      [polygon_source_piece (sample_normalized ''a'' 1), polygon_source_piece (sample_normalized ''b'' 2)])"
proof -
  have "[1..<2] = [1 :: nat]" "[1..<3] = [1, 2 :: nat]" by (simp_all add: upt_rec)
  then show ?thesis by (simp add: sample_key Let_def numeral_3_eq_3 numeral_2_eq_2)
qed

lemma sample_require:
  assumes "is_int_val v k" "1 \<le> k" "k \<le> 9007199254740991"
  shows "require_positive_safe_integer f v = Inr ()" "require_non_negative_safe_integer f v = Inr ()"
  using assms require_positive_safe_integer_ok [of v f] require_non_negative_safe_integer_ok [of v f]
  by (auto simp: is_int_val_def safe_int_from_def)

lemma is_int_val_numeral: "(numeral n :: int) \<le> 2 ^ 53 \<Longrightarrow> is_int_val (Finite False (numeral n)) (numeral n)"
  using is_int_val_lit [of "numeral n"] by (simp add: f64_eval)

lemma sample_prepared:
  "i \<noteq> [] \<Longrightarrow> prepared_piece_validate j (instance_piece (sample_normalized i q) [hex_digit 10, hex_digit 11] f64_one False k) = Inr ()"
proof -
  have f: "fadd (Finite False 3) (fmul f64_one (Finite False 2)) = Finite False 5"
    "fadd (Finite False 2) (fmul f64_one (Finite False 2)) = Finite False 4"
    "fmax (Finite False 5) (Finite False 4) = Finite False 5" "fmul (Finite False 5) (Finite False 4) = Finite False 20"
    "fabs (fsub (Finite False 5) (Finite False 4)) = f64_one"
    by (simp_all add: f64_one_def f64_eval fmax_def fsub_def)
  note r = is_int_val_numeral [THEN sample_require(1)] is_int_val_numeral [THEN sample_require(2)]
  have n: "require_non_negative_safe_integer g f64_one = Inr ()" "require_non_negative_safe_integer g f64_zero = Inr ()" for g
    by (simp add: require_non_negative_safe_integer_ok) (simp add: require_non_negative_safe_integer_ok safe_int_from_def)
  have b: "\<not> is_blank (i @ ''#'' @ dec k)" by (simp add: is_blank_def is_whitespace_def)
  assume "i \<noteq> []"
  then show ?thesis
    using b by (simp add: prepared_piece_validate_def instance_piece_def Let_def f r n f64_eval)
qed

lemma sample_source: "source_piece_validate j (polygon_source_piece (sample_normalized [c] q)) = Inr ()"
proof -
  note r = is_int_val_numeral [THEN sample_require(1)]
  have n: "require_non_negative_safe_integer g f64_zero = Inr ()" for g
    by (simp add: require_non_negative_safe_integer_ok safe_int_from_def)
  have c: "check_fields require_finite p [(a1, Finite s1 m1), (a2, Finite s2 m2), (a3, Finite s3 m3), (a4, Finite s4 m4)] = Inr ()"
    for p a1 a2 a3 a4 s1 s2 s3 s4 m1 m2 m3 m4 by simp
  have "source_geometry_validate p \<lparr>geometry_entity_type = PresetShape, geometry_closed = True,
      geometry_segments = np_segments (sample_normalized [c] q)\<rparr> = Inr ()" for p
    by (simp add: source_geometry_validate_def sample_normalized_def sample_canonical ring_segments_def
        source_line_segment_validate_def c run_checks.simps)
  then show ?thesis by (simp add: source_piece_validate_def polygon_source_piece_def Let_def r n)
qed

lemma sample_settings_ok:
  "engine_settings_validate \<lparr>settings_padding = Finite False 2, allow_global_rotation = True, allow_global_mirror = True,
     geometry = \<lparr>flattening_sag_tolerance_mm = lit (1 / 4), clearance_safety_margin_mm = lit (1 / 4),
       geometry_backend_id = ''irregular-convex-v2-default'', geometry_backend_version = ''0''\<rparr>,
     optimizer = default_optimizer_settings\<rparr> = Inr ()"
proof -
  note r = is_int_val_numeral [THEN sample_require(1)] is_int_val_numeral [THEN sample_require(2)]
  have n: "require_non_negative_safe_integer g f64_zero = Inr ()" for g
    by (simp add: require_non_negative_safe_integer_ok safe_int_from_def)
  show ?thesis
    by (simp add: engine_settings_validate_def geometry_settings_validate_def optimizer_settings_validate_def
        default_optimizer_settings_def f64_eval lit_hundredth r n fle_def)
qed

lemma sample_built: "\<exists>r. sample_build [sample_normalized ''a'' 1, sample_normalized ''b'' 2] = Inr r"
proof -
  have "lit (of_nat ((unat (opt_padding sample_options) + 1) div 2)) = f64_one"
    "lit (of_nat (unat (opt_padding sample_options))) = Finite False 2"
    by (simp_all add: sample_options_def f64_eval f64_one_def)
  moreover have "validate \<lparr>version = PROTOCOL_VERSION, timeout_ms = opt_timeout_ms sample_options,
      profile = p, sheet = \<lparr>sheet_width = opt_sheet_width sample_options, sheet_height = opt_sheet_height sample_options,
        sheet_label = label\<rparr>,
      pieces = [instance_piece (sample_normalized ''a'' 1) [hex_digit 10, hex_digit 11] f64_one False 1,
        instance_piece (sample_normalized ''b'' 2) [hex_digit 10, hex_digit 11] f64_one False 1,
        instance_piece (sample_normalized ''b'' 2) [hex_digit 10, hex_digit 11] f64_one False 2],
      source_pieces = [polygon_source_piece (sample_normalized ''a'' 1), polygon_source_piece (sample_normalized ''b'' 2)],
      settings = \<lparr>settings_padding = Finite False 2, allow_global_rotation = True,
        allow_global_mirror = opt_allow_mirror sample_options,
        geometry = \<lparr>flattening_sag_tolerance_mm = lit (1 / 4), clearance_safety_margin_mm = lit (1 / 4),
          geometry_backend_id = ''irregular-convex-v2-default'', geometry_backend_version = ''0''\<rparr>,
        optimizer = default_optimizer_settings\<rparr>,
      history_mode = History_Off, diagnostic_trace_mode = Trace_Off\<rparr> = Inr ()" for p label
  proof -
    note r = is_int_val_numeral [THEN sample_require(1)]
    have i: "piece_id (instance_piece (sample_normalized i q) k f64_one False n) = i @ ''#'' @ dec n" for i q k n
      by (simp add: instance_piece_def Let_def)
    have s: "sp_id (polygon_source_piece (sample_normalized i q)) = i" for i q
      by (simp add: polygon_source_piece_def)
    have o: "opt_sheet_width sample_options = Finite False 100" "opt_sheet_height sample_options = Finite False 50"
      "opt_timeout_ms sample_options = Finite False 1000" "opt_allow_mirror sample_options"
      by (simp_all add: sample_options_def f64_eval)
    have d: "(1 :: nat) \<noteq> 2" by simp
    show ?thesis
      by (simp add: validate_def check_unique_ok r o sample_settings_ok i s nth_Cons' sample_prepared sample_source d
          del: One_nat_def)
  qed
  ultimately show ?thesis
    unfolding sample_build_def build_request_def Let_def by (simp only: sample_pieces) simp
qed

definition sample_import :: "polygon_definition list \<Rightarrow> string + engine_request" where
  "sample_import ps = import_document sample_robust (\<lambda>_ _ _. Inr [7]) (\<lambda>_. [171]) (\<lambda>_. '''') (sample_document ps) sample_options"

lemma sample_imported: "\<exists>r. sample_import [sample_triangle ''b'' 2, sample_triangle ''a'' 1] = Inr r"
proof -
  let ?ps = "[sample_triangle ''b'' 2, sample_triangle ''a'' 1]"
  let ?ns = "[sample_normalized ''b'' 2, sample_normalized ''a'' 1]"
  have "definition_ok (sample_triangle ''b'' 2)" "definition_ok (sample_triangle ''a'' 1)"
    by (simp_all add: definition_ok_def sample_triangle_def is_blank_def is_whitespace_def MAX_POLYGON_ID_CHARACTERS_def)
  then have "list_all2 (accepts sample_robust) ?ps ?ns"
    using sample_normalize [of "''b''" 2 0] sample_normalize [of "''a''" 1 0] by (simp add: accepts_def)
  moreover have "sort_by by_id ?ns = [sample_normalized ''a'' 1, sample_normalized ''b'' 2]"
    by (simp add: sort_by_def cmp_of_def as_bytes_def)
  moreover have "totals_ok (totals_of ?ps no_totals)"
    by (simp add: totals_ok_def totals_of_sums no_totals_def pair_checks_def sample_triangle_def MAX_PIECE_INSTANCES_def
        MAX_TOTAL_VERTICES_def MAX_SELF_INTERSECTION_PAIR_CHECKS_def)
  moreover have "distinct (map def_id ?ps)" by (simp add: sample_triangle_def)
  moreover obtain r where "sample_build [sample_normalized ''a'' 1, sample_normalized ''b'' 2] = Inr r"
    using sample_built by blast
  ultimately have "sample_import ?ps = Inr r"
    unfolding sample_import_def import_document_Inr sample_build_def
    by (intro conjI exI [of _ ?ns])
      (simp_all add: sample_document_def POLYGON_INPUT_VERSION_def MAX_POLYGON_DEFINITIONS_def del: One_nat_def)
  then show ?thesis by blast
qed

subsection \<open>Properties\<close>

lemma concat_map_zip:
  "length ks = length xs \<Longrightarrow> (\<And>x k. x \<in> set xs \<Longrightarrow> map f (g (x, k)) = h x) \<Longrightarrow>
    map f (concat (map g (zip xs ks))) = concat (map h xs)"
proof (induction xs arbitrary: ks)
  case (Cons x xs)
  then obtain k ks' where "ks = k # ks'" by (cases ks) auto
  with Cons show ?case by simp
qed simp

lemma instance_pieces:
  assumes "length keys = length ns"
  shows "map (\<lambda>p. (piece_id p, source_piece_id p, real_bounds p)) (concat (map (polygon_instances options padding) (zip ns keys))) =
    concat (map (\<lambda>n. map (\<lambda>k. (np_id n @ ''#'' @ dec k, np_id n, np_real_bounds n)) [1..<np_quantity n + 1]) ns)"
  by (rule concat_map_zip [OF assms]) (simp add: polygon_instances_def instance_piece_def Let_def o_def)

text \<open>
  C24. What is imported can be run: an accepted document becomes a request that passes \<open>validate\<close> and
  is eligible for the archive path. Its source pieces are the polygons in the order of their ids'
  bytes; its pieces are, for each of them in that order, as many instances as the document asks
  for, numbered from one and with the bounds of their source piece; at most
  \<open>MAX_POLYGON_DEFINITIONS\<close> polygons and \<open>MAX_PIECE_INSTANCES\<close> instances.
\<close>

theorem import_yields_runnable_request:
  assumes "import_polygon_json parse robust encode sha256 show_other input options = Inr r"
  shows "\<exists>document quantity. parse input = Inr document \<and>
    quantity = map_of (map (\<lambda>p. (def_id p, unat (def_quantity p))) (doc_polygons document)) \<and>
    validate r = Inr () \<and> archive_ineligibility r = None \<and>
    mset (map sp_id (source_pieces r)) = mset (map def_id (doc_polygons document)) \<and>
    sorted_cmp (\<lambda>a b. cmp_of (as_bytes (sp_id a)) (as_bytes (sp_id b))) (source_pieces r) \<and>
    map (\<lambda>p. (piece_id p, source_piece_id p, real_bounds p)) (pieces r) =
      concat (map (\<lambda>s. map (\<lambda>k. (sp_id s @ ''#'' @ dec k, sp_id s, sp_real_bounds s)) [1..<the (quantity (sp_id s)) + 1])
        (source_pieces r)) \<and>
    length (source_pieces r) \<le> MAX_POLYGON_DEFINITIONS \<and>
    length (pieces r) = (\<Sum>p \<leftarrow> doc_polygons document. unat (def_quantity p)) \<and> length (pieces r) \<le> MAX_PIECE_INSTANCES"
proof -
  from assms obtain doc where doc: "parse input = Inr doc"
    "import_document robust encode sha256 show_other doc options = Inr r"
    by (auto simp: import_polygon_json_def and_then_Inr_iff split: sum.splits)
  let ?ps = "doc_polygons doc"
  let ?q = "map_of (map (\<lambda>p. (def_id p, unat (def_quantity p))) ?ps)"
  from doc(2) [unfolded import_document_Inr] obtain ns where
    len: "length ?ps \<le> MAX_POLYGON_DEFINITIONS" and dist: "distinct (map def_id ?ps)" and tot: "totals_ok (totals_of ?ps no_totals)"
    and ns: "list_all2 (accepts robust) ?ps ns" and b: "build_request encode sha256 show_other (sort_by by_id ns) options = Inr r"
    by blast
  from b obtain keys padding where r: "validate r = Inr ()" "archive_ineligibility r = None"
    "source_pieces r = map polygon_source_piece (sort_by by_id ns)" "length keys = length (sort_by by_id ns)"
    "pieces r = concat (map (polygon_instances options padding) (zip (sort_by by_id ns) keys))"
    by (rule build_request_Inr)
  have sp [simp]: "sp_id (polygon_source_piece n) = np_id n" "sp_real_bounds (polygon_source_piece n) = np_real_bounds n" for n
    by (simp_all add: polygon_source_piece_def)
  have q: "?q (np_id n) = Some (np_quantity n)" if "n \<in> set ns" for n
  proof -
    from ns that obtain p where "p \<in> set ?ps" "accepts robust p n"
      by (metis in_set_conv_nth list_all2_conv_all_nth)
    with dist show ?thesis
      by (auto simp: accepts_def distinct_map inj_on_def intro!: map_of_is_SomeI dest!: normalize_kept)
  qed
  have ids: "map np_id ns = map def_id ?ps" by (rule accepts_ids [OF ns])
  have "map np_quantity ns = map (\<lambda>p. unat (def_quantity p)) ?ps"
    using ns by (induction rule: list_all2_induct) (auto simp: accepts_def dest: normalize_kept)
  then have sum: "(\<Sum>n \<leftarrow> ns. np_quantity n) = (\<Sum>p \<leftarrow> ?ps. unat (def_quantity p))" by simp
  have triples: "map (\<lambda>p. (piece_id p, source_piece_id p, real_bounds p)) (pieces r) =
      concat (map (\<lambda>s. map (\<lambda>k. (sp_id s @ ''#'' @ dec k, sp_id s, sp_real_bounds s)) [1..<the (?q (sp_id s)) + 1])
        (source_pieces r))"
    unfolding r(3,5) instance_pieces [OF r(4)] map_map
    by (intro arg_cong [where f = concat] map_cong refl) (simp add: q del: upt_Suc)
  have "mset (map np_quantity (sort_by by_id ns)) = mset (map np_quantity ns)" by simp
  then have "(\<Sum>n \<leftarrow> sort_by by_id ns. np_quantity n) = (\<Sum>n \<leftarrow> ns. np_quantity n)"
    by (metis sum_mset_sum_list)
  moreover have "length (pieces r) = (\<Sum>n \<leftarrow> sort_by by_id ns. np_quantity n)"
    using arg_cong [OF instance_pieces [OF r(4), of options padding], of length]
    by (simp add: r(5) length_concat o_def del: upt_Suc)
  ultimately have n: "length (pieces r) = (\<Sum>p \<leftarrow> ?ps. unat (def_quantity p))" using sum by simp
  have "mset (map sp_id (source_pieces r)) = mset (map np_id ns)" by (simp add: r(3) o_def)
  moreover have "sorted_cmp (\<lambda>a b. cmp_of (as_bytes (sp_id a)) (as_bytes (sp_id b))) (source_pieces r)"
    using by_id.sorted_sort_by [of ns UNIV] by (simp add: r(3) sorted_wrt_map)
  moreover have "length (source_pieces r) = length ?ps" using list_all2_lengthD [OF ns] by (simp add: r(3))
  ultimately show ?thesis
    using doc(1) r(1,2) triples n len tot ids by (auto simp: totals_ok_def totals_of_sums no_totals_def)
qed

lemma import_yields_runnable_request_witness:
  "\<exists>r. import_polygon_json (\<lambda>_. Inr (sample_document [sample_triangle ''b'' 2, sample_triangle ''a'' 1])) sample_robust
      (\<lambda>_ _ _. Inr [7]) (\<lambda>_. [171]) (\<lambda>_. '''') [123, 125] sample_options = Inr r \<and>
    validate r = Inr () \<and> length (pieces r) = 3"
proof -
  obtain r where r: "sample_import [sample_triangle ''b'' 2, sample_triangle ''a'' 1] = Inr r" using sample_imported by blast
  have "validate_options sample_options = Inr ()"
    by (simp add: validate_options_def sample_options_def f64_eval fle_def)
  with r have i: "import_polygon_json (\<lambda>_. Inr (sample_document [sample_triangle ''b'' 2, sample_triangle ''a'' 1]))
      sample_robust (\<lambda>_ _ _. Inr [7]) (\<lambda>_. [171]) (\<lambda>_. '''') [123, 125] sample_options = Inr r"
    by (simp add: import_polygon_json_def sample_import_def MAX_POLYGON_INPUT_BYTES_def ensure_def)
  from import_yields_runnable_request [OF i] i show ?thesis
    by (auto simp: sample_document_def sample_triangle_def)
qed

lemma totals_of_perm:
  assumes "mset ps' = mset ps"
  shows "totals_ok (totals_of ps' t) \<longleftrightarrow> totals_ok (totals_of ps t)"
proof -
  have "(\<Sum>p \<leftarrow> ps'. f p) = (\<Sum>p \<leftarrow> ps. f p)" for f :: "polygon_definition \<Rightarrow> nat"
    by (metis assms mset_map sum_mset_sum_list)
  then show ?thesis by (simp add: totals_ok_def totals_of_sums)
qed

text \<open>
  C26. The order of the polygons in a document does not matter: whenever a document is accepted, every
  document with the same polygons in another order is accepted too and becomes the same request,
  byte for byte of every piece and source piece in the same place.
\<close>

theorem import_order_irrelevant:
  assumes "import_document robust encode sha256 show_other document options = Inr r"
    and "mset (doc_polygons document') = mset (doc_polygons document)" "doc_version document' = doc_version document"
  shows "import_document robust encode sha256 show_other document' options = Inr r"
proof -
  from assms(1) [unfolded import_document_Inr] obtain ns where
    d: "distinct (map def_id (doc_polygons document))" and ns: "list_all2 (accepts robust) (doc_polygons document) ns"
    and b: "build_request encode sha256 show_other (sort_by by_id ns) options = Inr r" by blast
  from list_all2_reorder_left_invariance [OF ns assms(2)] obtain ns' where
    ns': "list_all2 (accepts robust) (doc_polygons document') ns'" "mset ns' = mset ns" by blast
  have "distinct (map np_id ns)" using d accepts_ids [OF ns] by simp
  then have "x = y" if "x \<in> set ns" "y \<in> set ns" "by_id x y = Equal" for x y
    using that as_bytes_inject [of "np_id x" "np_id y"] by (auto simp: distinct_map inj_on_def cmp_simps)
  then have "sort_by by_id ns' = sort_by by_id ns"
    using by_id.sort_by_perm [OF ns'(2) [symmetric], of UNIV] by simp
  moreover have "distinct (map def_id (doc_polygons document'))"
    using d assms(2) by (metis mset_eq_imp_distinct_iff mset_map)
  moreover have "length (doc_polygons document') = length (doc_polygons document)"
    using assms(2) by (metis size_mset)
  ultimately show ?thesis
    using assms ns'(1) b totals_of_perm [OF assms(2)] unfolding import_document_Inr by auto
qed

lemma import_order_irrelevant_witness:
  "\<exists>r. sample_import [sample_triangle ''b'' 2, sample_triangle ''a'' 1] = Inr r \<and>
    sample_import [sample_triangle ''a'' 1, sample_triangle ''b'' 2] = Inr r"
proof -
  obtain r where r: "sample_import [sample_triangle ''b'' 2, sample_triangle ''a'' 1] = Inr r" using sample_imported by blast
  have "sample_import [sample_triangle ''a'' 1, sample_triangle ''b'' 2] = Inr r"
    unfolding sample_import_def
    by (rule import_order_irrelevant [OF r [unfolded sample_import_def]]) (simp_all add: sample_document_def)
  with r show ?thesis by blast
qed

text \<open>Where the loop refuses, it refuses at one polygon, whatever follows it.\<close>

lemma import_loop_Inl:
  "import_loop robust i ps t acc = Inl e \<Longrightarrow> \<exists>k < length ps.
    (\<exists>ns. import_loop robust i (take k ps) t acc = Inr ns) \<and>
    (check_polygon (i + k) (ps ! k) (totals_of (take k ps) t) = Inl e \<or>
      normalize_polygon robust (ps ! k) (i + k) = Inl e \<and>
      check_polygon (i + k) (ps ! k) (totals_of (take k ps) t) = Inr (totals_after (ps ! k) (totals_of (take k ps) t)))"
proof (induction ps arbitrary: i t acc)
  case (Cons p ps)
  show ?case
  proof (cases "check_polygon i p t")
    case (Inl d)
    with Cons.prems show ?thesis by (intro exI [of _ 0]) (simp add: totals_of_def)
  next
    case (Inr t1)
    then have t1: "t1 = totals_after p t" by (simp add: check_polygon_Inr)
    show ?thesis
    proof (cases "normalize_polygon robust p i")
      case (Inl d)
      with Cons.prems Inr t1 show ?thesis by (intro exI [of _ 0]) (simp add: totals_of_def)
    next
      case (Inr n)
      with Cons.prems \<open>check_polygon i p t = Inr t1\<close> have "import_loop robust (Suc i) ps t1 (acc @ [n]) = Inl e" by simp
      from Cons.IH [OF this] obtain k where "k < length ps"
        "\<exists>ns. import_loop robust (Suc i) (take k ps) t1 (acc @ [n]) = Inr ns"
        "check_polygon (Suc i + k) (ps ! k) (totals_of (take k ps) t1) = Inl e \<or>
          normalize_polygon robust (ps ! k) (Suc i + k) = Inl e \<and>
          check_polygon (Suc i + k) (ps ! k) (totals_of (take k ps) t1) = Inr (totals_after (ps ! k) (totals_of (take k ps) t1))"
        by blast
      then show ?thesis
        using Inr \<open>check_polygon i p t = Inr t1\<close> t1 by (intro exI [of _ "Suc k"]) (simp add: totals_of_def)
    qed
  qed
qed simp

lemma import_loop_append:
  "import_loop robust i (xs @ ys) t acc =
    and_then (import_loop robust i xs t acc) (\<lambda>ns. import_loop robust (i + length xs) ys (totals_of xs t) ns)"
proof (induction xs arbitrary: i t acc)
  case (Cons x xs)
  then show ?case
    by (cases "check_polygon i x t"; cases "normalize_polygon robust x i")
      (auto simp: totals_of_def dest!: check_polygon_Inr [THEN iffD1])
qed (simp add: totals_of_def)

lemma check_polygon_Inl:
  assumes "check_polygon i p t = Inl e"
  shows "(\<exists>m. e = polygon_at i @ m) \<or> \<not> totals_ok (totals_after p t)"
proof -
  have s: "10000000 < n" if "u64_max < n" for n :: nat using that by simp
  have "10000000 < m + n div 2" if "u64_max < n" for m n :: nat using that by simp
  with assms s show ?thesis
    unfolding check_polygon_def Let_def and_then_Inl_iff ensure_Inl ensure_Inr usize_or_Inl usize_or_Inr
    by (auto simp: totals_ok_def totals_after_def pair_checks_def MAX_PIECE_INSTANCES_def MAX_TOTAL_VERTICES_def
        MAX_SELF_INTERSECTION_PAIR_CHECKS_def not_le)
qed

lemma clean_points_Inl: "clean_points i acc ps = Inl e \<Longrightarrow> \<exists>m. e = polygon_at i @ m"
  by (induction ps arbitrary: acc) (auto simp: Let_def split: if_splits)

lemma normalize_Inl: "normalize_polygon robust p i = Inl e \<Longrightarrow> \<exists>m. e = polygon_at i @ m"
  unfolding normalize_polygon_def Let_def and_then_Inl_iff ensure_Inl by (auto dest: clean_points_Inl)

text \<open>
  C27. A refused document is refused at its first polygon that does not fit: the polygons before it are
  accepted, no continuation of the document changes the message, and the message starts with
  \<open>polygons[k]\<close>, the index of that polygon, unless it reports that the totals of the polygons up to
  this one exceed a limit.
\<close>

theorem import_refuses_at_first_polygon:
  assumes "import_loop robust 0 ps no_totals [] = Inl e"
  shows "\<exists>k < length ps. (\<exists>ns. import_loop robust 0 (take k ps) no_totals [] = Inr ns) \<and>
    (\<forall>rest. import_loop robust 0 (take (Suc k) ps @ rest) no_totals [] = Inl e) \<and>
    ((\<exists>m. e = polygon_at k @ m) \<or> \<not> totals_ok (totals_of (take (Suc k) ps) no_totals))"
proof -
  from import_loop_Inl [OF assms] obtain k ns where k: "k < length ps"
    "import_loop robust 0 (take k ps) no_totals [] = Inr ns"
    "check_polygon k (ps ! k) (totals_of (take k ps) no_totals) = Inl e \<or>
      normalize_polygon robust (ps ! k) k = Inl e \<and>
      check_polygon k (ps ! k) (totals_of (take k ps) no_totals) = Inr (totals_after (ps ! k) (totals_of (take k ps) no_totals))"
    by auto
  have take: "take (Suc k) ps = take k ps @ [ps ! k]" using k(1) by (simp add: take_Suc_conv_app_nth)
  then have after: "totals_of (take (Suc k) ps) no_totals = totals_after (ps ! k) (totals_of (take k ps) no_totals)"
    by (simp add: totals_of_def)
  have "import_loop robust 0 (take (Suc k) ps @ rest) no_totals [] = Inl e" for rest
    using k by (auto simp: take import_loop_append)
  moreover have "(\<exists>m. e = polygon_at k @ m) \<or> \<not> totals_ok (totals_of (take (Suc k) ps) no_totals)"
    using k(3) normalize_Inl check_polygon_Inl unfolding after by blast
  ultimately show ?thesis using k(1,2) by blast
qed

lemma import_refuses_at_first_polygon_witness:
  "\<exists>k. import_loop sample_robust 0 [sample_triangle ''a'' 1, sample_triangle ''a'' 2] no_totals [] =
      Inl (polygon_at 1 @ ''.id must be unique'') \<and>
    import_loop sample_robust 0 (take (Suc k) [sample_triangle ''a'' 1, sample_triangle ''a'' 2] @ [sample_triangle ''c'' 1])
      no_totals [] = Inl (polygon_at 1 @ ''.id must be unique'')"
proof -
  have c: "check_polygon 0 (sample_triangle ''a'' 1) no_totals = Inr (totals_after (sample_triangle ''a'' 1) no_totals)"
    unfolding check_polygon_Inr
    by (simp add: definition_ok_def sample_triangle_def is_blank_def is_whitespace_def MAX_POLYGON_ID_CHARACTERS_def no_totals_def
        totals_ok_def totals_after_def pair_checks_def MAX_PIECE_INSTANCES_def MAX_TOTAL_VERTICES_def
        MAX_SELF_INTERSECTION_PAIR_CHECKS_def)
  have d: "check_polygon 1 (sample_triangle ''a'' 2) (totals_after (sample_triangle ''a'' 1) no_totals) =
      Inl (polygon_at 1 @ ''.id must be unique'')"
    by (simp add: check_polygon_def ensure_def sample_triangle_def totals_after_def is_blank_def is_whitespace_def
        MAX_POLYGON_ID_CHARACTERS_def)
  have i: "import_loop sample_robust 0 [sample_triangle ''a'' 1, sample_triangle ''a'' 2] no_totals [] =
      Inl (polygon_at 1 @ ''.id must be unique'')"
    using d by (simp add: c sample_normalize)
  from import_refuses_at_first_polygon [OF i] i show ?thesis by blast
qed

subsection \<open>Vertex order\<close>

text \<open>The vertices relative to the lower left corner of their bounds.\<close>

definition ring_shift :: "point list \<Rightarrow> point list" where
  "ring_shift ps = map (\<lambda>p. \<lparr>px = fold_zero (fsub (px p) (extent fmin px ps)),
    py = fold_zero (fsub (py p) (extent fmin py ps))\<rparr>) ps"

lemma normalize_polygon_ring:
  assumes "normalize_polygon robust p i = Inr n"
  shows "ring_of p \<noteq> [] \<and> n = \<lparr>np_id = def_id p, np_quantity = unat (def_quantity p),
    np_allow_rotation = def_allow_rotation p, np_allow_mirror = def_allow_mirror p,
    np_real_bounds = \<lparr>rect_x = f64_zero, rect_y = f64_zero,
      rect_width = fmax (fceil (fsub (extent fmax px (ring_of p)) (extent fmin px (ring_of p)))) (lit 1),
      rect_height = fmax (fceil (fsub (extent fmax py (ring_of p)) (extent fmin py (ring_of p)))) (lit 1)\<rparr>,
    np_segments = ring_segments (canonicalize_ring (ring_shift (ring_of p)))\<rparr>"
proof -
  from assms obtain c where "clean_points i [] (map into_point (def_points p)) = Inr c"
    by (auto simp: normalize_polygon_def and_then_Inr_iff)
  moreover from this have "ring_of p = open_ring c" by (simp add: ring_of_def clean_points_index [where j = 0])
  ultimately show ?thesis
    using assms by (auto simp: normalize_polygon_def and_then_Inr_iff Let_def ring_shift_def)
qed

definition points_ok :: "polygon_definition \<Rightarrow> bool" where
  "points_ok p \<longleftrightarrow> (\<forall>q \<in> set (def_points p). ring_point_ok (into_point q))"

lemma ring_of_plain:
  assumes "points_ok p"
  shows "\<forall>q \<in> set (ring_of p). plain_point q"
proof (cases "clean_points 0 [] (map into_point (def_points p))")
  case (Inr c)
  then have "\<forall>q \<in> set c. plain_point q"
    by (rule clean_points_plain) (use assms in \<open>auto simp: points_ok_def\<close>)
  with Inr show ?thesis using open_ring_set [of c] by (auto simp: ring_of_def)
qed (simp add: ring_of_def)

lemma fold_zero_ok: "f64_ok v \<Longrightarrow> f64_ok (fold_zero v)"
  by (simp add: fold_zero_def f64_top_def)

text \<open>
  A simple ring repeats no vertex, also where the shift rounds two vertices together: a repeated
  vertex is a contact of two edges that are not neighbours, or leaves no triangle.
\<close>

definition numeric_point :: "point \<Rightarrow> bool" where
  "numeric_point p \<longleftrightarrow> \<not> is_nan (px p) \<and> \<not> is_nan (py p)"

lemma fle_refl: "\<not> is_nan a \<Longrightarrow> fle a a"
  by (cases a) (simp_all add: fle_def)

lemma fle_of_flt: "flt a b \<Longrightarrow> fle a b"
  by (cases a; cases b) (simp_all add: fle_def)

lemma fmin_fmax_between:
  assumes "\<not> is_nan a" and "\<not> is_nan b"
  shows "fle (fmin a b) a \<and> fle a (fmax a b) \<and> fle (fmin a b) b \<and> fle b (fmax a b)"
proof -
  have "fle a b \<or> flt b a" "fle b a \<or> flt a b"
    using flt_total [OF assms] assms by (cases a; cases b; auto simp: fle_def)+
  then show ?thesis using assms fle_refl fle_of_flt by (auto simp: fmin_def fmax_def)
qed

lemma segment_ends: "numeric_point a \<Longrightarrow> numeric_point b \<Longrightarrow> point_is_on_segment a (a, b) \<and> point_is_on_segment b (a, b)"
  using fmin_fmax_between [of "px a" "px b"] fmin_fmax_between [of "py a" "py b"]
  by (simp add: numeric_point_def point_is_on_segment_def)

lemma touching_segments:
  assumes "exact_on robust A" "{a, b, c, d} \<subseteq> A" "\<forall>p \<in> A. numeric_point p" "{a, b} \<inter> {c, d} \<noteq> {}"
  shows "segments_intersect robust (a, b) (c, d)"
proof -
  have "orientation robust a b a = 0" "orientation robust a b b = 0"
    using orientation_exact [OF assms(1)] assms(2) by (simp_all add: turn_def)
  moreover have "point_is_on_segment a (a, b)" "point_is_on_segment b (a, b)"
    using segment_ends assms(2,3) by simp_all
  moreover have "c = a \<or> c = b \<or> d = a \<or> d = b" using assms(4) by auto
  ultimately show ?thesis by (auto simp: segments_intersect_def Let_def)
qed

lemma fsub_self: "fsub c c = NaN \<or> fsub c c = Finite False 0"
  by (cases c) (simp_all add: fsub_def Let_def)

lemma fsub_same: "is_finite (fsub c c) \<Longrightarrow> feq (fsub c c) f64_zero"
  using fsub_self [of c] by auto

lemma round_to_zero [simp]: "round_to s 0 = Finite s 0"
  by (simp add: round_to_def)

lemma fmul_fsub_same: "is_finite (fmul b (fsub c c)) \<Longrightarrow> feq (fmul b (fsub c c)) f64_zero"
  using fsub_self [of c] by (cases b) auto

lemma fsub_zeros: "feq a f64_zero \<Longrightarrow> feq b f64_zero \<Longrightarrow> feq (fsub a b) f64_zero"
  by (cases a; cases b) (auto simp: fsub_def Let_def)

lemma fsub_finite: "is_finite (fsub a b) \<Longrightarrow> is_finite a \<and> is_finite b"
  by (cases a; cases b) (auto simp: fsub_def split: if_splits)

lemma fmul_commute: "fmul a b = fmul b a"
proof (cases a; cases b)
  fix s m t n assume "a = Finite s m" "b = Finite t n"
  moreover have "(s \<noteq> t) = (t \<noteq> s)" by auto
  ultimately show ?thesis by (simp only: fmul.simps mult.commute)
qed auto

lemma repeated_corner_collinear:
  "is_finite (fsub (fmul a (fsub c c)) (fmul b (fsub d d))) \<Longrightarrow>
    feq (fsub (fmul a (fsub c c)) (fmul b (fsub d d))) f64_zero"
  using fsub_finite fmul_fsub_same fsub_zeros by blast

lemma same_corner_collinear:
  "is_finite (fsub (fmul a b) (fmul b a)) \<Longrightarrow> feq (fsub (fmul a b) (fmul b a)) f64_zero"
  unfolding fmul_commute [of b a] by (rule fsub_same)

lemma point_eq_refl: "numeric_point p \<Longrightarrow> point_eq p p"
  by (cases p; cases "px p"; cases "py p") (simp_all add: numeric_point_def point_eq_def)

lemma triangle_distinct:
  assumes "contains_non_collinear_triple [a, b, c]" "numeric_point a" "numeric_point b" "numeric_point c"
  shows "distinct [a, b, c]"
proof -
  have e: "drop 1 (enumerate 0 [a, b, c]) = [(1, b), (2, c)]" by (simp add: numeral_2_eq_2)
  have "a \<noteq> b" "a \<noteq> c" "b \<noteq> c"
    using assms(1) point_eq_refl assms(2-4) repeated_corner_collinear same_corner_collinear
    unfolding contains_non_collinear_triple_def e by (auto simp: Let_def split: if_splits)
  then show ?thesis by simp
qed

lemma simple_ring_distinct:
  assumes "\<not> has_self_intersection robust ps" "contains_non_collinear_triple ps" "3 \<le> length ps"
    and "exact_on robust (set ps)" "\<forall>p \<in> set ps. numeric_point p"
  shows "distinct ps"
proof (cases "length ps = 3")
  case True
  then obtain a b c where "ps = [a, b, c]" by (auto simp: numeral_3_eq_3 length_Suc_conv)
  then show ?thesis using triangle_distinct assms(2,5) by simp
next
  case False
  let ?n = "length ps"
  have n: "4 \<le> ?n" using False assms(3) by simp
  have apart: "fst (ring_edge ps i) \<noteq> fst (ring_edge ps j) \<and> fst (ring_edge ps i) \<noteq> snd (ring_edge ps j) \<and>
      snd (ring_edge ps i) \<noteq> fst (ring_edge ps j)"
    if "i < j" "j < ?n" "j \<noteq> i + 1" "\<not> (i = 0 \<and> j = ?n - 1)" for i j
  proof -
    have "\<not> segments_intersect robust (ring_edge ps i) (ring_edge ps j)"
    proof -
      have "i \<in> set [0..<?n]" "j \<in> set [i + 1..<?n]" using that by auto
      then show ?thesis using assms(1) that(3,4) unfolding has_self_intersection_def by blast
    qed
    moreover have "{ps ! i, ps ! ((i + 1) mod ?n), ps ! j, ps ! ((j + 1) mod ?n)} \<subseteq> set ps"
    proof -
      have "0 < ?n" using n by linarith
      then show ?thesis using that by (simp add: nth_mem)
    qed
    ultimately show ?thesis using touching_segments [OF assms(4) _ assms(5)] by (auto simp: ring_edge_def)
  qed
  have "ps ! i \<noteq> ps ! j" if ij: "i < j" "j < ?n" for i j
  proof -
    consider (away) "j \<noteq> i + 1" "\<not> (i = 0 \<and> j = ?n - 1)" | (wrap) "i = 0" "j = ?n - 1"
      | (first) "i = 0" "j = 1" | (later) "1 \<le> i" "j = i + 1" by linarith
    then show ?thesis
    proof cases
      case away
      then show ?thesis using apart [OF ij] by (simp add: ring_edge_def)
    next
      case wrap
      have "(?n - 2 + 1) mod ?n = ?n - 1" using n by simp
      then show ?thesis using apart [of 0 "?n - 2"] wrap n by (simp add: ring_edge_def)
    next
      case first
      have "?n - 1 + 1 = ?n" using n by linarith
      then have "(?n - 1 + 1) mod ?n = 0" by simp
      moreover have "1 < ?n - 1" "?n - 1 < ?n" "?n - 1 \<noteq> 1 + 1" "\<not> (1 = (0 :: nat) \<and> ?n - 1 = ?n - 1)" using n by linarith+
      note apart [OF this]
      ultimately show ?thesis using first by (auto simp: ring_edge_def)
    next
      case later
      have "(i - 1 + 1) mod ?n = i" using later ij by simp
      moreover have "i - 1 < j" "j < ?n" "j \<noteq> i - 1 + 1" "\<not> (i - 1 = 0 \<and> j = ?n - 1)" using later ij n by linarith+
      note apart [OF this]
      ultimately show ?thesis by (simp only: ring_edge_def fst_conv snd_conv) blast
    qed
  qed
  then show ?thesis by (metis distinct_conv_nth linorder_neqE_nat)
qed

lemma fold_zero_nan [simp]: "is_nan (fold_zero v) = is_nan v"
  by (cases v) (simp_all add: fold_zero_def)

lemma fsub_plain: "plain a \<Longrightarrow> plain b \<Longrightarrow> \<not> is_nan (fsub a b)"
  by (cases a; cases b) (auto simp: plain_def fsub_def Let_def round_to_def)

lemma ring_shift_numeric:
  assumes "\<forall>p \<in> set ps. plain_point p" "ps \<noteq> []"
  shows "\<forall>p \<in> set (ring_shift ps). numeric_point p"
proof -
  have "plain (extent fmin px ps)" "plain (extent fmin py ps)"
    using extent_min [of ps px] extent_min [of ps py] assms by (auto simp: plain_point_def)
  then show ?thesis using assms(1) fsub_plain by (auto simp: ring_shift_def numeric_point_def plain_point_def)
qed

lemma normalize_polygon_distinct:
  assumes "normalize_polygon robust p i = Inr n" "points_ok p" "exact_on robust (set (ring_shift (ring_of p)))"
  shows "distinct (ring_shift (ring_of p))"
proof -
  from assms(1) obtain c where c: "clean_points i [] (map into_point (def_points p)) = Inr c"
    by (auto simp: normalize_polygon_def and_then_Inr_iff)
  then have r: "ring_of p = open_ring c" by (simp add: ring_of_def clean_points_index [where j = 0])
  have "3 \<le> length (ring_shift (ring_of p))" "contains_non_collinear_triple (ring_shift (ring_of p))"
    "\<not> has_self_intersection robust (ring_shift (ring_of p))"
    using assms(1) c unfolding r
    by (auto simp: normalize_polygon_def and_then_Inr_iff Let_def ensure_Inr ring_shift_def)
  moreover have "ring_of p \<noteq> []" using normalize_polygon_ring [OF assms(1)] by blast
  ultimately show ?thesis
    using simple_ring_distinct [OF _ _ _ assms(3)] ring_shift_numeric ring_of_plain [OF assms(2)] by blast
qed

text \<open>
  C25. Where a polygon starts and which way round it is drawn does not matter: two accepted polygons that
  agree in everything but the order of their vertices, and list the same cleaned ring from another
  vertex or in the other direction, normalize to the same polygon, where the orientation predicate
  has exact signs. So they get the same geometry key.
\<close>

theorem normalize_vertex_order_irrelevant:
  assumes "normalize_polygon robust p i = Inr n" "normalize_polygon robust q j = Inr m"
    and "q = p\<lparr>def_points := def_points q\<rparr>" "points_ok p"
    and "same_cycle (ring_of p) (ring_of q)" "exact_on robust (set (ring_shift (ring_of p)))"
  shows "m = n"
proof -
  note distinct = normalize_polygon_distinct [OF assms(1,4,6)]
  note p = normalize_polygon_ring [OF assms(1)] and q = normalize_polygon_ring [OF assms(2)]
  have set: "set (ring_of q) = set (ring_of p)" by (rule same_cycle_set [OF assms(5)])
  have e: "extent fmin f (ring_of q) = extent fmin f (ring_of p)" "extent fmax f (ring_of q) = extent fmax f (ring_of p)"
    if "f = px \<or> f = py" for f
    using extent_unique [OF _ set, of f] p ring_of_plain [OF assms(4)] that by (auto simp: plain_point_def)
  have "same_cycle (ring_shift (ring_of p)) (ring_shift (ring_of q))"
    unfolding ring_shift_def e(1) [OF disjI1, OF refl] e(1) [OF disjI2, OF refl] by (rule same_cycle_map [OF assms(5)])
  then have "canonicalize_ring (ring_shift (ring_of q)) = canonicalize_ring (ring_shift (ring_of p))"
    by (rule canonicalize_cycle [OF distinct, rotated 2])
      (use p in \<open>auto simp: ring_shift_def ring_point_ok_def intro!: fold_zero_ok f64_ok_fsub\<close>)
  moreover have "def_id q = def_id p" "def_quantity q = def_quantity p" "def_allow_rotation q = def_allow_rotation p"
    "def_allow_mirror q = def_allow_mirror p" by (subst assms(3); simp)+
  ultimately show ?thesis using p q e by simp
qed

lemma sample_robust_exact: "exact_on sample_robust (set sample_ring)"
  by (simp add: exact_on_def sample_ring_def sample_robust_def turn_def vx_def vy_def fsub_def f64_eval Let_def)

definition sample_turned :: "string \<Rightarrow> u32 \<Rightarrow> polygon_definition" where
  "sample_turned i q = (sample_triangle i q)\<lparr>def_points := [Pair_of (lit 4) (lit 1), Object (lit 1) (lit 1), Pair_of (lit 4) (lit 3)]\<rparr>"

lemma normalize_vertex_order_irrelevant_witness:
  "\<exists>n. normalize_polygon sample_robust (sample_triangle ''a'' 1) 0 = Inr n \<and>
    normalize_polygon sample_robust (sample_turned ''a'' 1) 0 = Inr n"
proof -
  let ?b = "\<lparr>px = Finite False 4, py = Finite False 1\<rparr>" and ?a = "\<lparr>px = Finite False 1, py = Finite False 1\<rparr>"
    and ?c = "\<lparr>px = Finite False 4, py = Finite False 3\<rparr>"
  have clean: "clean_points k [] (map into_point (def_points (sample_turned ''a'' 1))) = Inr [?b, ?a, ?c]" for k
    by (simp add: sample_eval sample_turned_def)
  have r: "ring_of (sample_triangle ''a'' 1) = [?a, ?b, ?c]" "ring_of (sample_turned ''a'' 1) = [?b, ?a, ?c]"
    unfolding ring_of_def sample_clean clean by (simp_all add: open_ring_def point_eq_def)
  have s: "ring_shift [?a, ?b, ?c] = sample_ring"
    by (simp add: ring_shift_def sample_ring_def sample_eval)
  obtain m where m: "normalize_polygon sample_robust (sample_turned ''a'' 1) 0 = Inr m"
  proof -
    have e: "extent fmin px [?b, ?a, ?c] = Finite False 1" "extent fmin py [?b, ?a, ?c] = Finite False 1"
      "extent fmax px [?b, ?a, ?c] = Finite False 4" "extent fmax py [?b, ?a, ?c] = Finite False 3"
      by (simp_all add: extent_def fmin_def fmax_def)
    have w: "fsub (Finite False 4) (Finite False 1) = Finite False 3" "fsub (Finite False 3) (Finite False 1) = Finite False 2"
      "fsub (Finite False 1) (Finite False 1) = f64_zero" by (simp_all add: sample_eval)
    have t: "contains_non_collinear_triple [\<lparr>px = Finite False 3, py = f64_zero\<rparr>, \<lparr>px = f64_zero, py = f64_zero\<rparr>,
        \<lparr>px = Finite False 3, py = Finite False 2\<rparr>]"
      by (simp add: sample_eval contains_non_collinear_triple_def enumerate_eq_zip)
    have o: "open_ring [?b, ?a, ?c] = [?b, ?a, ?c]" by (simp add: open_ring_def point_eq_def)
    have "length (def_points (sample_turned ''a'' 1)) = 3" by (simp add: sample_turned_def)
    then have "\<exists>m. normalize_polygon sample_robust (sample_turned ''a'' 1) 0 = Inr m"
      unfolding normalize_polygon_def clean
      by (simp add: o e w t Let_def ensure_def fle_def fmax_def f64_eval fold_zero_def triangle_simple
          MAX_SAFE_INTEGER_def MAX_VERTICES_PER_POLYGON_def)
    then show ?thesis using that by blast
  qed
  have "rotate 1 (rev [?a, ?b, ?c]) = [?b, ?a, ?c]" by simp
  then have "same_cycle [?a, ?b, ?c] [?b, ?a, ?c]" unfolding same_cycle_def by metis
  with r have c: "same_cycle (ring_of (sample_triangle ''a'' 1)) (ring_of (sample_turned ''a'' 1))" by simp
  have "exact_on sample_robust (set (ring_shift (ring_of (sample_triangle ''a'' 1))))"
    unfolding r s by (rule sample_robust_exact)
  moreover have "points_ok (sample_triangle ''a'' 1)"
    by (simp add: points_ok_def sample_triangle_def ring_point_ok_def)
  moreover have "sample_turned ''a'' 1 = (sample_triangle ''a'' 1)\<lparr>def_points := def_points (sample_turned ''a'' 1)\<rparr>"
    by (simp add: sample_turned_def)
  ultimately have "m = sample_normalized ''a'' (unat (1 :: u32))"
    by (intro normalize_vertex_order_irrelevant [OF sample_normalize m _ _ c])
  with m show ?thesis using sample_normalize [of "''a''" 1 0] by blast
qed

end
