(* ===== verification/Minkowski.thy ===== *)
theory Minkowski
  imports ConvexGeometry
begin

text \<open>
  No-fit rings in the rational plane: a ring around all differences of the vertices of two convex rings
  encloses exactly the translations that make their interiors meet.
\<close>

definition rsub :: "rpoint \<Rightarrow> rpoint \<Rightarrow> rpoint" where
  "rsub p q = (fst p - fst q, snd p - snd q)"

definition shift :: "rpoint \<Rightarrow> rat \<Rightarrow> rpoint \<Rightarrow> rpoint" where
  "shift x e d = (fst x + e * fst d, snd x + e * snd d)"

lemma rsub_lerp: "rsub (lerp s a b) (lerp s c d) = lerp s (rsub a c) (rsub b d)"
  by (simp add: rsub_def lerp_def algebra_simps)

lemma rsub_swap: "rsub p q = t \<Longrightarrow> rsub p t = q"
  by (auto simp: rsub_def)

subsection \<open>Interiors\<close>

lemma small_positive:
  fixes s l :: "nat \<Rightarrow> rat"
  assumes "\<forall>i < n. 0 < s i"
  shows "\<exists>e > 0. \<forall>d. 0 < d \<and> d \<le> e \<longrightarrow> (\<forall>i < n. 0 < s i + d * l i)"
  using assms
proof (induction n)
  case 0
  then show ?case by (intro exI [of _ 1]) simp
next
  case (Suc n)
  obtain e where e: "e > 0" "\<And>d i. 0 < d \<Longrightarrow> d \<le> e \<Longrightarrow> i < n \<Longrightarrow> 0 < s i + d * l i"
    using Suc.IH Suc.prems by force
  let ?k = "s n / (\<bar>l n\<bar> + 1)"
  have k: "0 < ?k" using Suc.prems by simp
  have n: "0 < s n + d * l n" if d: "0 < d" "d \<le> ?k" for d
  proof -
    have "d * (\<bar>l n\<bar> + 1) \<le> s n" using d(2) by (simp add: pos_le_divide_eq)
    moreover have "- (d * \<bar>l n\<bar>) \<le> d * l n" using d(1) by (simp add: abs_if)
    ultimately show ?thesis using d(1) by (simp add: algebra_simps)
  qed
  show ?case
  proof (intro exI conjI allI impI)
    show "0 < min e ?k" using e(1) k by simp
    fix d i assume "0 < d \<and> d \<le> min e ?k" "i < Suc n"
    then show "0 < s i + d * l i" using e(2) [of d i] n [of d] by (cases "i = n") auto
  qed
qed

lemma inside_open:
  assumes "inside w ps x"
  obtains e where "0 < e" "inside w ps (shift x e d)"
proof -
  define l where "l i = w * ((fst (ps ! nx (length ps) i) - fst (ps ! i)) * snd d - (snd (ps ! nx (length ps) i) - snd (ps ! i)) * fst d)" for i
  have s: "side w ps i (shift x e d) = side w ps i x + e * l i" for i e
    by (simp add: side_def det_def shift_def l_def algebra_simps)
  obtain e where "0 < e" "\<And>i. i < length ps \<Longrightarrow> 0 < side w ps i x + e * l i"
    using small_positive [of "length ps" "\<lambda>i. side w ps i x" l] assms unfolding inside_def by auto
  then show ?thesis using that [of e] unfolding inside_def s by blast
qed

lemma convex_ring_interior:
  assumes "convex_ring w ps"
  obtains c where "inside w ps c"
proof -
  have n: "3 \<le> length ps" using assms by (simp add: convex_ring_def)
  then have ne: "ps \<noteq> []" by auto
  define c where "c = lerp (2 / 3) (ps ! 0) (lerp (1 / 2) (ps ! 1) (ps ! 2))"
  have "0 < side w ps i c" if i: "i < length ps" for i
  proof -
    have nonneg: "0 \<le> side w ps i (ps ! j)" if "j < length ps" for j
      using vertex_in_ring [OF assms that] i by (simp add: in_ring_def)
    have pos: "0 < side w ps i (ps ! j)" if "j < length ps" "j \<noteq> i" "j \<noteq> nx (length ps) i" for j
      using assms that i by (simp add: convex_ring_def)
    have "side w ps i c = (side w ps i (ps ! 0) + side w ps i (ps ! 1) + side w ps i (ps ! 2)) / 3"
      by (simp add: c_def side_lerp field_simps)
    moreover have "0 \<le> side w ps i (ps ! 0)" "0 \<le> side w ps i (ps ! 1)" "0 \<le> side w ps i (ps ! 2)"
      using n by (auto intro!: nonneg)
    moreover have "0 < side w ps i (ps ! 0) \<or> 0 < side w ps i (ps ! 1) \<or> 0 < side w ps i (ps ! 2)"
      using pos [of 0] pos [of 1] pos [of 2] n ne by (cases "i = 0"; cases "i = 1"; cases "i = 2"; cases "nx (length ps) i = 0"; cases "nx (length ps) i = 1") auto
    ultimately show ?thesis by auto
  qed
  then show ?thesis using that [of c] by (simp add: inside_def)
qed

text \<open>In every direction some vertex is strictly beyond a point of the interior.\<close>

lemma vertex_beyond:
  assumes x: "inside w ps x" and "ps \<noteq> []" and ab: "0 < a * a + b * (b :: rat)"
  shows "\<exists>j < length ps. a * fst (ps ! j) + b * snd (ps ! j) < a * fst x + b * snd x"
proof -
  obtain e where e: "0 < e" "inside w ps (shift x e (- a, - b))" using inside_open [OF x] .
  obtain j where "j < length ps" "a * fst (ps ! j) + b * snd (ps ! j) \<le> a * fst (shift x e (- a, - b)) + b * snd (shift x e (- a, - b))"
    using inside_not_beyond [OF e(2) assms(2) ab] by blast
  moreover have "a * fst (shift x e (- a, - b)) + b * snd (shift x e (- a, - b)) = a * fst x + b * snd x - e * (a * a + b * b)"
    by (simp add: shift_def algebra_simps)
  moreover have "0 < e * (a * a + b * b)" using e(1) ab by simp
  ultimately show ?thesis by fastforce
qed

subsection \<open>Points of a ring as combinations of its vertices\<close>

lemma beyond_not_in_ring:
  assumes x: "inside w ps x" and "ps \<noteq> []" and d: "d \<noteq> (0, 0)"
  obtains m where "0 < m" "\<not> in_ring w ps (shift x m d)"
proof -
  let ?L = "\<lambda>z. fst d * fst z + snd d * snd z"
  let ?N = "fst d * fst d + snd d * snd d"
  have N: "0 < ?N" using d by (metis add_cancel_right_left add_nonneg_pos add_pos_nonneg mult_eq_0_iff not_real_square_gt_zero prod.collapse zero_le_square zero_less_mult_iff linorder_neqE_linordered_idom mult_neg_neg mult_pos_pos)
  define K where "K = Max ((\<lambda>j. ?L (ps ! j)) ` {0..<length ps})"
  have K: "?L (ps ! j) \<le> K" if "j < length ps" for j unfolding K_def using that by (intro Max_ge) auto
  define m where "m = 2 * (\<bar>K - ?L x\<bar> + 1) / ?N"
  have m: "0 < m" unfolding m_def by (rule divide_pos_pos) (use N in \<open>auto intro: add_nonneg_pos\<close>)
  have "\<not> in_ring w ps (shift x m d)"
  proof
    assume q: "in_ring w ps (shift x m d)"
    let ?z = "lerp (1 / 2) x (shift x m d)"
    have z: "inside w ps ?z" by (rule inside_lerp [OF x q]) simp_all
    have "?L ?z = ?L x + 1 / 2 * (m * ?N)" by (simp add: lerp_def shift_def algebra_simps)
    also have "m * ?N = 2 * (\<bar>K - ?L x\<bar> + 1)"
      unfolding m_def times_divide_eq_left by (rule nonzero_mult_div_cancel_right) (use N in linarith)
    finally have "?L ?z = ?L x + (\<bar>K - ?L x\<bar> + 1)" by simp
    then have "K < ?L ?z" by simp
    have "0 < (- fst d) * (- fst d) + (- snd d) * (- snd d)" using N by simp
    then obtain j where "j < length ps" "(- fst d) * fst (ps ! j) + (- snd d) * snd (ps ! j) \<le> (- fst d) * fst ?z + (- snd d) * snd ?z"
      using inside_not_beyond [OF z assms(2)] by blast
    then show False using K [of j] \<open>K < ?L ?z\<close> by simp
  qed
  with m show ?thesis using that by blast
qed

lemma inside_combination:
  assumes c: "convex_ring w ps" and x: "inside w ps x"
  obtains i j k r s where "i < length ps" "j < length ps" "k < length ps" "0 \<le> r" "r \<le> 1" "0 \<le> s" "s \<le> 1"
    "x = lerp s (ps ! i) (lerp r (ps ! j) (ps ! k))"
proof -
  have n: "3 \<le> length ps" using c by (simp add: convex_ring_def)
  then have ne: "ps \<noteq> []" "0 < length ps" by auto
  let ?v = "ps ! 0"
  have "x \<noteq> ?v" using x ne(2) unfolding inside_def by fastforce
  then have "rsub x ?v \<noteq> (0, 0)" by (simp add: rsub_def prod_eq_iff)
  then obtain m where m: "0 < m" "\<not> in_ring w ps (shift x m (rsub x ?v))" using beyond_not_in_ring [OF x ne(1)] by blast
  obtain j t where t: "j < length ps" "0 < t" "t < 1" "in_ring w ps (lerp t x (shift x m (rsub x ?v)))"
    "side w ps j (lerp t x (shift x m (rsub x ?v))) = 0" using leaves_ring [OF x m(2)] by metis
  obtain r where r: "0 \<le> r" "r \<le> 1" "lerp t x (shift x m (rsub x ?v)) = lerp r (ps ! j) (ps ! nx (length ps) j)"
    using in_ring_on_edge [OF c t(1,4,5)] .
  define s where "s = 1 / (1 + t * m)"
  have tm: "0 < t * m" using t m by simp
  have s01: "0 \<le> s" "s \<le> 1" using tm by (simp_all add: s_def)
  have "s * (1 + t * m) = 1" using tm by (simp add: s_def)
  then have st: "s * t * m = 1 - s" by (simp add: algebra_simps)
  have "lerp s ?v (lerp t x (shift x m (rsub x ?v))) =
      ((1 - s) * fst ?v + s * fst x + s * t * m * (fst x - fst ?v), (1 - s) * snd ?v + s * snd x + s * t * m * (snd x - snd ?v))"
    by (simp add: lerp_def shift_def rsub_def algebra_simps)
  also have "\<dots> = x" unfolding st by (simp add: prod_eq_iff algebra_simps)
  finally have "x = lerp s ?v (lerp r (ps ! j) (ps ! nx (length ps) j))" using r(3) by simp
  moreover have "nx (length ps) j < length ps" using ne(2) by simp
  ultimately show ?thesis using that [of 0 j "nx (length ps) j" r s] ne(2) t(1) r(1,2) s01 by blast
qed

subsection \<open>The no-fit ring\<close>

theorem no_fit_ring:
  assumes p: "convex_ring w ps" and q: "convex_ring v qs" and h: "convex_ring 1 hs"
    and sums: "\<And>i j. i < length ps \<Longrightarrow> j < length qs \<Longrightarrow> in_ring 1 hs (rsub (ps ! i) (qs ! j))"
    and verts: "\<And>z. z \<in> set hs \<Longrightarrow> \<exists>i < length ps. \<exists>j < length qs. z = rsub (ps ! i) (qs ! j)"
  shows "inside 1 hs t \<longleftrightarrow> (\<exists>x. inside w ps x \<and> inside v qs (rsub x t))"
proof
  have ne: "ps \<noteq> []" "qs \<noteq> []" using p q by (auto simp: convex_ring_def)
  assume "\<exists>x. inside w ps x \<and> inside v qs (rsub x t)"
  then obtain x where x: "inside w ps x" "inside v qs (rsub x t)" by blast
  show "inside 1 hs t"
    unfolding inside_def side_def mult_1
  proof (intro allI impI)
    fix i assume i: "i < length hs"
    define a where "a = - (snd (hs ! nx (length hs) i) - snd (hs ! i))"
    define b where "b = fst (hs ! nx (length hs) i) - fst (hs ! i)"
    have d: "det (hs ! i) (hs ! nx (length hs) i) z = a * (fst z - fst (hs ! i)) + b * (snd z - snd (hs ! i))" for z
      by (simp add: det_def a_def b_def algebra_simps)
    have "hs ! i \<noteq> hs ! nx (length hs) i" by (rule edge_distinct [OF h i])
    then have "a \<noteq> 0 \<or> b \<noteq> 0" by (auto simp: a_def b_def prod_eq_iff)
    then have ab: "0 < a * a + b * b" "0 < (- a) * (- a) + (- b) * (- b)"
      by (simp_all add: sum_squares_gt_zero_iff)
    obtain j where j: "j < length ps" "a * fst (ps ! j) + b * snd (ps ! j) < a * fst x + b * snd x"
      using vertex_beyond [OF x(1) ne(1) ab(1)] by blast
    obtain k where k: "k < length qs" "(- a) * fst (qs ! k) + (- b) * snd (qs ! k) < (- a) * fst (rsub x t) + (- b) * snd (rsub x t)"
      using vertex_beyond [OF x(2) ne(2) ab(2)] by blast
    have "0 \<le> det (hs ! i) (hs ! nx (length hs) i) (rsub (ps ! j) (qs ! k))"
      using sums [OF j(1) k(1)] i by (simp add: in_ring_def side_def)
    then show "0 < det (hs ! i) (hs ! nx (length hs) i) t"
      using j(2) k(2) unfolding d by (simp add: rsub_def algebra_simps)
  qed
next
  assume t: "inside 1 hs t"
  obtain a where a: "inside w ps a" using convex_ring_interior [OF p] .
  obtain b where b: "inside v qs b" using convex_ring_interior [OF q] .
  obtain e where e: "0 < e" "inside 1 hs (shift t e (rsub t (rsub a b)))" using inside_open [OF t] .
  obtain i j k r s where c: "i < length hs" "j < length hs" "k < length hs" "0 \<le> r" "r \<le> 1" "0 \<le> s" "s \<le> 1"
    "shift t e (rsub t (rsub a b)) = lerp s (hs ! i) (lerp r (hs ! j) (hs ! k))"
    using inside_combination [OF h e(2)] .
  have vert: "\<exists>i' < length ps. \<exists>j' < length qs. hs ! n = rsub (ps ! i') (qs ! j')" if "n < length hs" for n
    using verts nth_mem [OF that] by blast
  obtain i1 i2 where i: "i1 < length ps" "i2 < length qs" "hs ! i = rsub (ps ! i1) (qs ! i2)" using vert [OF c(1)] by blast
  obtain j1 j2 where j: "j1 < length ps" "j2 < length qs" "hs ! j = rsub (ps ! j1) (qs ! j2)" using vert [OF c(2)] by blast
  obtain k1 k2 where k: "k1 < length ps" "k2 < length qs" "hs ! k = rsub (ps ! k1) (qs ! k2)" using vert [OF c(3)] by blast
  define x where "x = lerp s (ps ! i1) (lerp r (ps ! j1) (ps ! k1))"
  define y where "y = lerp s (qs ! i2) (lerp r (qs ! j2) (qs ! k2))"
  have xy: "in_ring w ps x" "in_ring v qs y"
    using c(4-7) i j k vertex_in_ring [OF p] vertex_in_ring [OF q] by (auto simp: x_def y_def intro!: in_ring_lerp)
  have sh: "shift t e (rsub t (rsub a b)) = rsub x y"
    unfolding c(8) x_def y_def rsub_lerp i(3) j(3) k(3) ..
  define m where "m = 1 / (1 + e)"
  have m: "0 \<le> m" "m < 1" "m * (1 + e) = 1" using e(1) by (simp_all add: m_def)
  have "inside w ps (lerp m a x)" by (rule inside_lerp [OF a xy(1) m(1,2)])
  moreover have "inside v qs (lerp m b y)" by (rule inside_lerp [OF b xy(2) m(1,2)])
  moreover have "rsub (lerp m a x) (lerp m b y) = lerp m (rsub a b) (shift t e (rsub t (rsub a b)))"
    unfolding rsub_lerp sh ..
  moreover have "lerp m (rsub a b) (shift t e (rsub t (rsub a b))) = t"
  proof -
    have "(1 - m) * u + m * (z + e * (z - u)) = z" for u z :: rat
    proof -
      have "(1 - m) * u + m * (z + e * (z - u)) = u + m * (1 + e) * (z - u)" by (simp add: algebra_simps)
      then show ?thesis using m(3) by simp
    qed
    then show ?thesis by (simp add: lerp_def shift_def rsub_def prod_eq_iff)
  qed
  ultimately have "inside w ps (lerp m a x)" "inside v qs (rsub (lerp m a x) t)"
    using rsub_swap [of "lerp m a x" "lerp m b y" t] by simp_all
  then show "\<exists>x. inside w ps x \<and> inside v qs (rsub x t)" by blast
qed

end
