(* ===== verification/NfpExact.thy ===== *)
theory NfpExact
  imports NfpBoundary StrictBoundary Minkowski
begin

text \<open>
  The no-fit polygon of \<open>nfp_ifp/boundary_core.rs\<close> is exact: its interior is the set of translations that
  make the interiors of the two rings meet.
\<close>

subsection \<open>Rings up to their start\<close>

lemma rotated_index:
  assumes "i < length ps"
  shows "rotate k ps ! i = ps ! ((k + i) mod length ps)"
    "rotate k ps ! nx (length ps) i = ps ! nx (length ps) ((k + i) mod length ps)"
proof -
  have n: "nx (length ps) i < length ps" using assms by (intro mod_less_divisor) linarith
  show "rotate k ps ! i = ps ! ((k + i) mod length ps)" by (rule nth_rotate [OF assms])
  have "(k + (i + 1) mod length ps) mod length ps = ((k + i) mod length ps + 1) mod length ps"
    by (simp add: mod_simps)
  then show "rotate k ps ! nx (length ps) i = ps ! nx (length ps) ((k + i) mod length ps)"
    using nth_rotate [OF n, of k] by simp
qed

lemma rotated_all:
  assumes "0 < (n :: nat)"
  shows "(\<forall>i < n. P ((k + i) mod n)) \<longleftrightarrow> (\<forall>i < n. P i)"
proof (intro iffI allI impI)
  fix j assume a: "\<forall>i < n. P ((k + i) mod n)" and j: "j < n"
  let ?i = "(j + (n - k mod n)) mod n"
  have "k mod n \<le> n" using assms by (simp add: less_imp_le)
  then have "k mod n + (j + (n - k mod n)) = j + n" by simp
  then have "(k mod n + (j + (n - k mod n))) mod n = j" using j by simp
  then have "(k + ?i) mod n = j" by (simp add: mod_simps)
  moreover have "?i < n" using assms by simp
  ultimately show "P j" using a by metis
next
  fix i assume "\<forall>i < n. P i" "i < n"
  then show "P ((k + i) mod n)" using assms by simp
qed

lemma side_rotate: "i < length ps \<Longrightarrow> side w (rotate k ps) i x = side w ps ((k + i) mod length ps) x"
  by (simp only: side_def length_rotate rotated_index)

lemma ring_rotate:
  assumes "ps \<noteq> []"
  shows "inside w (rotate k ps) x \<longleftrightarrow> inside w ps x" "in_ring w (rotate k ps) x \<longleftrightarrow> in_ring w ps x"
  using rotated_all [of "length ps" "\<lambda>i. 0 < side w ps i x" k] rotated_all [of "length ps" "\<lambda>i. 0 \<le> side w ps i x" k] assms
  by (simp_all add: inside_def in_ring_def side_rotate)

lemma add_mod_inj:
  fixes k i j n :: nat
  assumes "i < n" "j < n" "(k + i) mod n = (k + j) mod n"
  shows "i = j"
proof -
  have le: "a = b" if "a \<le> b" "b < n" "(k + b) mod n = (k + a) mod n" for a b
  proof -
    have "n dvd b - a" using mod_eq_dvd_iff_nat [of "k + a" "k + b" n] that by simp
    then show ?thesis using that(1,2) by (auto dest: dvd_imp_le)
  qed
  show ?thesis using le [of i j] le [of j i] assms by (cases "i \<le> j") auto
qed

lemma convex_ring_rotate:
  assumes "convex_ring w ps"
  shows "convex_ring w (rotate k ps)"
proof -
  let ?n = "length ps"
  have n: "3 \<le> ?n" using assms by (simp add: convex_ring_def)
  then have pos: "0 < ?n" by linarith
  have inj: "i = j" if "i < ?n" "j < ?n" "(k + i) mod ?n = (k + j) mod ?n" for i j
    using add_mod_inj that by blast
  have "0 < side w (rotate k ps) i (rotate k ps ! j)"
    if ij: "i < ?n" "j < ?n" "j \<noteq> i" "j \<noteq> nx ?n i" for i j
  proof -
    let ?i = "(k + i) mod ?n" and ?j = "(k + j) mod ?n"
    have "?j \<noteq> ?i" using inj ij by blast
    moreover have "?j \<noteq> nx ?n ?i"
    proof
      assume "?j = nx ?n ?i"
      then have "(k + j) mod ?n = (k + nx ?n i) mod ?n" by (simp add: mod_simps)
      then show False using inj [OF ij(2) nx_facts(1) [OF ij(1) n]] ij(4) by blast
    qed
    moreover have "?i < ?n" "?j < ?n" using pos by simp_all
    ultimately have "0 < side w ps ?i (ps ! ?j)" using assms unfolding convex_ring_def by blast
    then show ?thesis by (simp only: side_rotate [OF ij(1)] rotated_index(1) [OF ij(2)])
  qed
  then show ?thesis using assms by (simp add: convex_ring_def)
qed

lemma rotate_to_stable_start_rotate:
  assumes "ps \<noteq> []"
  obtains k where "rotate_to_stable_start ps = rotate k ps" "k < length ps"
proof -
  have "foldl f (0 :: nat) [1..<n] < n" if "0 < n" "\<And>s i. f s i = s \<or> f s i = i" for f and n :: nat
  proof -
    have "foldl f a xs \<in> insert a (set xs)" for a and xs :: "nat list"
    proof (induction xs arbitrary: a)
      case (Cons x xs)
      then show ?case using that(2) [of a x] by (metis foldl_Cons insert_iff list.simps(15))
    qed simp
    from this [of 0 "[1..<n]"] show ?thesis using that(1) by auto
  qed
  then have "stable_start ps < length ps"
    unfolding stable_start_def using assms by (simp add: Let_def)
  then show ?thesis
    using that [of "stable_start ps"] by (simp add: rotate_to_stable_start_def rotate_drop_take Let_def)
qed

lemma stable_boundary_ring:
  assumes f: "\<forall>p \<in> set ps. finite_point p" and e: "exact_on robust (set ps)" and c: "convex_ring (of_int w) (ring ps)"
  obtains poly where "stable_boundary robust ps = Inr poly" "convex_ring (of_int w) (ring poly)" "set poly = set ps"
    "\<And>x. inside (of_int w) (ring poly) x \<longleftrightarrow> inside (of_int w) (ring ps) x"
proof -
  have ne: "ps \<noteq> []" using c by (auto simp: convex_ring_def)
  obtain k where k: "rotate_to_stable_start ps = rotate k ps" using rotate_to_stable_start_rotate [OF ne] .
  show ?thesis
  proof (rule that)
    show "stable_boundary robust ps = Inr (rotate k ps)"
      by (simp add: stable_boundary_def strict_boundary_valid [OF f e c] k)
    show "convex_ring (of_int w) (ring (rotate k ps))" using convex_ring_rotate [OF c] by (simp add: rotate_map)
    show "set (rotate k ps) = set ps" by simp
    show "inside (of_int w) (ring (rotate k ps)) x \<longleftrightarrow> inside (of_int w) (ring ps) x" for x
      using ring_rotate(1) [of "ring ps" "of_int w" k x] ne by (simp add: rotate_map)
  qed
qed

subsection \<open>The sums\<close>

definition vertex_difference :: "point \<Rightarrow> point \<Rightarrow> point" where
  "vertex_difference p q = \<lparr>px = fadd (px p) (fneg (px q)), py = fadd (py p) (fneg (py q))\<rparr>"

definition differences :: "point list \<Rightarrow> point list \<Rightarrow> point list" where
  "differences fixed moving = concat (map (\<lambda>p. map (vertex_difference p) moving) fixed)"

lemma sum_points_difference:
  "sum_points p (negated q) operation = (if finite_point (vertex_difference p q) then Inr (vertex_difference p q)
    else Inl (operation @ '' must produce finite coordinates.''))"
  by (simp add: sum_points_def negated_def vertex_difference_def finite_point_def)

lemma sum_row_differences:
  "\<forall>q \<in> set qs. finite_point (vertex_difference p q) \<Longrightarrow>
    sum_row p (map negated qs) acc = Inr (acc @ map (vertex_difference p) qs)"
  by (induction qs arbitrary: acc) (simp_all add: sum_points_difference)

lemma sum_rows_differences:
  "\<forall>p \<in> set ps. \<forall>q \<in> set qs. finite_point (vertex_difference p q) \<Longrightarrow>
    sum_rows ps (map negated qs) acc = Inr (acc @ differences ps qs)"
  by (induction ps arbitrary: acc) (simp_all add: sum_row_differences differences_def)

lemma set_differences: "set (differences ps qs) = {vertex_difference p q | p q. p \<in> set ps \<and> q \<in> set qs}"
  by (auto simp: differences_def)

text \<open>No difference of coordinates is rounded.\<close>

definition exact_differences :: "point list \<Rightarrow> point list \<Rightarrow> bool" where
  "exact_differences fixed moving \<longleftrightarrow> (\<forall>p \<in> set fixed. \<forall>q \<in> set moving.
    finite_point (vertex_difference p q) \<and> pt (vertex_difference p q) = rsub (pt p) (pt q))"

lemma differences_not_collinear:
  assumes "exact_differences fixed moving" "convex_ring w (ring fixed)" "moving \<noteq> []"
  shows "\<not> collinear (set (differences fixed moving))"
proof
  assume c: "collinear (set (differences fixed moving))"
  have n: "3 \<le> length fixed" using assms(2) by (simp add: convex_ring_def)
  let ?q = "hd moving"
  have q: "?q \<in> set moving" using assms(3) by simp
  have mem: "fixed ! i \<in> set fixed" if "i < 3" for i using that n by simp
  have eq: "pt (vertex_difference (fixed ! i) ?q) = rsub (pt (fixed ! i)) (pt ?q)" if "i < 3" for i
    using assms(1) mem [OF that] q by (simp add: exact_differences_def)
  have "vertex_difference (fixed ! i) ?q \<in> set (differences fixed moving)" if "i < 3" for i
    using mem [OF that] q by (auto simp: set_differences)
  then have "turn (vertex_difference (fixed ! 0) ?q) (vertex_difference (fixed ! 1) ?q) (vertex_difference (fixed ! 2) ?q) = 0"
    using c by (simp add: collinear_def)
  then have "icross (pt (fixed ! 0)) (pt (fixed ! 1)) (pt (fixed ! 2)) = 0"
    by (simp add: turn_icross eq rsub_def icross_def)
  moreover have nx: "nx (length fixed) 0 = 1" using n by simp
  have "\<forall>i < length fixed. \<forall>j < length fixed. j \<noteq> i \<and> j \<noteq> nx (length fixed) i \<longrightarrow> 0 < side w (ring fixed) i (ring fixed ! j)"
    using assms(2) unfolding convex_ring_def length_map by blast
  from this [rule_format, of 0 2] have "0 < side w (ring fixed) 0 (pt (fixed ! 2))" using n unfolding nx by (cases fixed) simp_all
  then have "0 < w * turn (fixed ! 0) (fixed ! 1) (fixed ! 2)"
    using side_ring [of 0 fixed w "fixed ! 2"] n unfolding nx by (cases fixed) simp_all
  ultimately show False by (simp add: turn_icross)
qed

lemma nfp_reference_ring:
  assumes "\<forall>p \<in> set fixed \<union> set moving. finite_point p"
    and "exact_on robust (set fixed)" "exact_on robust (set moving)" "exact_on robust (set (differences fixed moving))"
    and "w = 1 \<or> w = - 1" "v = 1 \<or> v = - 1"
    and "convex_ring (of_int w) (ring fixed)" "convex_ring (of_int v) (ring moving)" "exact_differences fixed moving"
  shows "\<exists>poly. compute_relative_nfp_boundary_reference robust fixed moving = Inr poly \<and>
    convex_ring 1 (ring poly) \<and> validate_strict_boundary robust poly = Valid 1 \<and>
    (\<forall>t. inside 1 (ring poly) t \<longleftrightarrow>
      (\<exists>x. inside (of_int w) (ring fixed) x \<and> inside (of_int v) (ring moving) (rsub x t)))"
proof -
  let ?d = "differences fixed moving"
  let ?h = "compute_convex_hull robust ?d"
  have ne: "fixed \<noteq> []" "moving \<noteq> []" using assms(7,8) by (auto simp: convex_ring_def)
  have valid: "validate_strict_boundary robust fixed = Valid w" "validate_strict_boundary robust moving = Valid v"
    using assms(1) by (intro strict_boundary_valid assms(2,3,7,8); simp)+
  have inputs: "validate_relative_nfp_inputs robust fixed moving = Inr (w, v)"
    using assms(1) valid by (auto simp: validate_relative_nfp_inputs_def finite_points_message_def list_all_iff finite_point_def)
  have fd: "\<forall>p \<in> set ?d. finite_point p" using assms(9) by (auto simp: set_differences exact_differences_def)
  have rows: "sum_rows fixed (map negated moving) [] = Inr ?d"
    using sum_rows_differences [of fixed moving "[]"] assms(9) by (simp add: exact_differences_def)
  note hull = compute_convex_hull_ring [OF fd assms(4) differences_not_collinear [OF assms(9,7) ne(2)]]
  have one: "convex_ring (of_int 1) (ring ?h)" using hull(1) by simp
  have fh: "\<forall>p \<in> set ?h. finite_point p" using fd hull(2) by blast
  have eh: "exact_on robust (set ?h)" using exact_on_subset [OF assms(4) hull(2)] .
  obtain poly where poly: "stable_boundary robust ?h = Inr poly" "convex_ring (of_int 1) (ring poly)" "set poly = set ?h"
    "\<And>x. inside (of_int 1) (ring poly) x \<longleftrightarrow> inside (of_int 1) (ring ?h) x"
    by (rule stable_boundary_ring [OF fh eh one]) blast
  have "inside 1 (ring ?h) t \<longleftrightarrow> (\<exists>x. inside (of_int w) (ring fixed) x \<and> inside (of_int v) (ring moving) (rsub x t))" for t
  proof (rule no_fit_ring [OF assms(7,8) hull(1)])
    fix i j assume "i < length (ring fixed)" "j < length (ring moving)"
    then have m: "fixed ! i \<in> set fixed" "moving ! j \<in> set moving" "i < length fixed" "j < length moving" by simp_all
    then have "vertex_difference (fixed ! i) (moving ! j) \<in> set ?d" unfolding set_differences by blast
    from hull(3) [OF this] show "in_ring 1 (ring ?h) (rsub (ring fixed ! i) (ring moving ! j))"
      using assms(9) m by (simp add: exact_differences_def)
  next
    fix z assume "z \<in> set (ring ?h)"
    then obtain p q where "p \<in> set fixed" "q \<in> set moving" "z = pt (vertex_difference p q)"
      using hull(2) by (auto simp: set_differences)
    moreover from this obtain i j where "i < length fixed" "fixed ! i = p" "j < length moving" "moving ! j = q"
      by (metis in_set_conv_nth)
    ultimately show "\<exists>i < length (ring fixed). \<exists>j < length (ring moving). z = rsub (ring fixed ! i) (ring moving ! j)"
      using assms(9) unfolding exact_differences_def by (metis length_map nth_map)
  qed
  moreover have "validate_strict_boundary robust poly = Valid 1"
    using poly(2,3) fh eh by (intro strict_boundary_valid) auto
  ultimately show ?thesis
    using poly by (simp add: compute_relative_nfp_boundary_reference_def inputs rows and_then_def)
qed

text \<open>
  C7. The no-fit polygon is exact. For two strictly convex rings whose vertex differences are not rounded
  and on which orientations are exact, the production construction succeeds, and the interior of the
  polygon it returns consists of exactly the translations of the moving ring at which the interiors
  of the two rings have a point in common.
\<close>

theorem nfp_reference_exact:
  assumes "\<forall>p \<in> set fixed \<union> set moving. finite_point p"
    and "exact_on robust (set fixed)" "exact_on robust (set moving)" "exact_on robust (set (differences fixed moving))"
    and "w = 1 \<or> w = - 1" "v = 1 \<or> v = - 1"
    and "convex_ring (of_int w) (ring fixed)" "convex_ring (of_int v) (ring moving)" "exact_differences fixed moving"
  shows "\<exists>poly. compute_relative_nfp_boundary_reference robust fixed moving = Inr poly \<and>
    convex_ring 1 (ring poly) \<and> validate_strict_boundary robust poly = Valid 1 \<and>
    (\<forall>t. inside 1 (ring poly) t \<longleftrightarrow>
      (\<exists>x. inside (of_int w) (ring fixed) x \<and> inside (of_int v) (ring moving) (rsub x t)))"
  by (rule nfp_reference_ring [OF assms])

end
