(* ===== verification/NfpStore.thy ===== *)
theory NfpStore
  imports NfpCache NfpExact KeyCycles
begin

text \<open>
  The store of no-fit polygons as a whole. Every entry was computed from some pair of polygons whose key it
  stands under; the key determines the two polygons as rings, and the construction from all vertex pairs
  depends on nothing else of them. So an entry can be returned for every request that finds it.
\<close>

subsection \<open>The construction depends on the rings only\<close>

definition folded_polygon :: "point list \<Rightarrow> bool" where
  "folded_polygon ps \<longleftrightarrow> (\<forall>p \<in> set ps. folded_point p)"

lemma folded_simps: "folded (Finite s m) \<longleftrightarrow> f64_ok (Finite s m) \<and> (m = 0 \<longrightarrow> \<not> s)" "\<not> folded NaN" "\<not> folded (Infinity s)"
  by (auto simp: folded_def fold_negative_zero_def)

lemma folded_difference:
  assumes "folded a" "folded b" "is_finite (fadd a (fneg b))"
  shows "folded (fadd a (fneg b))"
proof -
  obtain s m t n where a: "a = Finite s m" and b: "b = Finite t n"
    using assms(1,2) by (cases a; cases b) (auto simp: folded_simps)
  let ?v = "f64_val a - f64_val b"
  have e: "fadd a (fneg b) = (if ?v = 0 then Finite (s \<and> \<not> t) 0 else round_to (?v < 0) \<bar>?v\<bar>)"
  proof -
    have "f64_val (Finite s m) + f64_val (Finite (\<not> t) n) = ?v" by (simp add: a b)
    then show ?thesis by (simp only: a b fneg.simps fadd.simps Let_def)
  qed
  show ?thesis
  proof (cases "?v = 0")
    case True
    have "\<not> (s \<and> \<not> t)" using True assms(1,2) by (cases t) (auto simp: a b folded_simps)
    then show ?thesis using True by (simp only: e if_True) (auto simp: folded_simps f64_top_def)
  next
    case False
    obtain M N where g: "m = of_int M * f64_unit" "n = of_int N * f64_unit"
      using assms(1,2) f64_ok_grid unfolding a b folded_simps by metis
    obtain K where k: "?v = of_int K * f64_unit"
    proof
      show "?v = of_int ((if s then - M else M) - (if t then - N else N)) * f64_unit"
        by (simp add: a b g left_diff_distrib)
    qed
    have "\<bar>?v\<bar> = of_int \<bar>K\<bar> * f64_unit" using f64_unit_pos by (simp add: k abs_mult)
    then have "0 < round_mag \<bar>?v\<bar>" using False by (intro round_mag_pos_grid [of _ "\<bar>K\<bar>"]) simp_all
    moreover have "f64_ok (fadd a (fneg b))" by (rule f64_ok_fadd)
    ultimately show ?thesis using False assms(3) unfolding e
      by (auto simp: round_to_def Let_def folded_simps split: if_splits)
  qed
qed

lemma sum_row_total:
  "sum_row p (map negated qs) acc = (if \<forall>q \<in> set qs. finite_point (vertex_difference p q)
    then Inr (acc @ map (vertex_difference p) qs) else Inl ''Minkowski sum must produce finite coordinates.'')"
  by (induction qs arbitrary: acc) (auto simp: sum_points_difference)

lemma sum_rows_total:
  "sum_rows ps (map negated qs) acc = (if \<forall>p \<in> set ps. \<forall>q \<in> set qs. finite_point (vertex_difference p q)
    then Inr (acc @ differences ps qs) else Inl ''Minkowski sum must produce finite coordinates.'')"
  by (induction ps arbitrary: acc) (auto simp: sum_row_total differences_def)

lemma mset_concat_map: "mset (concat (map f xs)) = \<Sum>\<^sub># (image_mset (\<lambda>x. mset (f x)) (mset xs))"
  by (induction xs) simp_all

lemma mset_differences:
  assumes "mset ps' = mset ps" "mset qs' = mset qs"
  shows "mset (differences ps' qs') = mset (differences ps qs)"
  using assms by (simp add: differences_def mset_concat_map)

lemma hull_permutation:
  assumes "mset ps = mset qs" "\<forall>p \<in> set ps. folded_point p"
  shows "compute_convex_hull robust ps = compute_convex_hull robust qs"
proof -
  have f: "finite_point p" if "p \<in> set ps" for p
    using assms(2) that by (simp add: folded_point_def folded_def finite_point_def)
  have "sort_by hull_point_ordering ps = sort_by hull_point_ordering qs"
  proof (rule point_order.sort_by_perm [OF assms(1)])
    show "a = b" if "a \<in> set ps" "b \<in> set ps" "hull_point_ordering a b = Equal" for a b
    proof -
      have "feq (px a) (px b)" "feq (py a) (py b)"
        using that(3) f that(1,2) by (auto simp: hull_point_ordering_eq cmp_simps finite_point_def feq_val vx_def vy_def)
      then show ?thesis using folded_eq assms(2) that(1,2) unfolding folded_point_def by (metis point.equality old.unit.exhaust)
    qed
  qed (use f in auto)
  then show ?thesis by (simp add: compute_convex_hull_def)
qed

text \<open>Valid inputs that are the same rings get the same boundary.\<close>

lemma mset_rotate: "mset (rotate n xs) = mset xs"
  by (metis add.commute append_take_drop_id mset_append rotate_drop_take)

lemma same_cycle_mset: "same_cycle xs ys \<Longrightarrow> mset ys = mset xs"
  by (auto simp: same_cycle_def mset_rotate)

lemma reference_same_rings:
  assumes "same_cycle fixed fixed'" "same_cycle moving moving'" "folded_polygon fixed" "folded_polygon moving"
    and "validate_relative_nfp_inputs robust fixed moving = Inr w" "validate_relative_nfp_inputs robust fixed' moving' = Inr w'"
  shows "compute_relative_nfp_boundary_reference robust fixed' moving' = compute_relative_nfp_boundary_reference robust fixed moving"
proof -
  have s: "set fixed' = set fixed" "set moving' = set moving"
    using same_cycle_set assms(1,2) by blast+
  show ?thesis
  proof (cases "\<forall>p \<in> set fixed. \<forall>q \<in> set moving. finite_point (vertex_difference p q)")
    case True
    have "folded_point (vertex_difference p q)" if "p \<in> set fixed" "q \<in> set moving" for p q
      using True that assms(3,4) folded_difference
      by (simp add: folded_polygon_def folded_point_def vertex_difference_def finite_point_def)
    then have "\<forall>d \<in> set (differences fixed moving). folded_point d" by (auto simp: set_differences)
    then have "compute_convex_hull robust (differences fixed moving) = compute_convex_hull robust (differences fixed' moving')"
      by (intro hull_permutation) (simp_all only: mset_differences [OF same_cycle_mset [OF assms(1)] same_cycle_mset [OF assms(2)]])
    then show ?thesis using True assms(5,6) by (simp add: compute_relative_nfp_boundary_reference_def sum_rows_total s)
  next
    case False
    then have "sum_rows fixed (map negated moving) [] = Inl ''Minkowski sum must produce finite coordinates.''"
      "sum_rows fixed' (map negated moving') [] = Inl ''Minkowski sum must produce finite coordinates.''"
      unfolding sum_rows_total s by (rule if_not_P)+
    then show ?thesis using assms(5,6) by (simp add: compute_relative_nfp_boundary_reference_def)
  qed
qed

subsection \<open>The key determines the rings\<close>

lemma append_same_prefix: "a @ s = a @ t \<Longrightarrow> s = t"
  by simp

lemma nfp_key_rings:
  assumes "js_contract js" "nfp_key js input algorithm = nfp_key js other algorithm'"
    and "fixed_polygon (nfp_fixed input) \<noteq> []" "fixed_polygon (nfp_fixed other) \<noteq> []"
    and "collision_polygon (nfp_moving input) \<noteq> []" "collision_polygon (nfp_moving other) \<noteq> []"
    and "folded_polygon (fixed_polygon (nfp_fixed input))" "folded_polygon (fixed_polygon (nfp_fixed other))"
    and "folded_polygon (collision_polygon (nfp_moving input))" "folded_polygon (collision_polygon (nfp_moving other))"
  shows "same_cycle (fixed_polygon (nfp_fixed input)) (fixed_polygon (nfp_fixed other))"
    "same_cycle (collision_polygon (nfp_moving input)) (collision_polygon (nfp_moving other))"
    "algorithm = algorithm'"
proof -
  note parts = nfp_key_def make_pairwise_nfp_cache_key_def make_pairwise_nfp_cache_key_with_prepared_moving_def
    prepare_pairwise_nfp_moving_parts_def geometry_settings_parts_def
  have k: "canonical_polygon_digest js (fixed_polygon (nfp_fixed input)) = canonical_polygon_digest js (fixed_polygon (nfp_fixed other))"
    "canonical_polygon_digest js (collision_polygon (nfp_moving input)) = canonical_polygon_digest js (collision_polygon (nfp_moving other))"
    "construction_as_str algorithm = construction_as_str algorithm'"
    using assms(2) by (simp_all add: parts)
  show "same_cycle (fixed_polygon (nfp_fixed input)) (fixed_polygon (nfp_fixed other))"
    using canonical_digest_inject [OF assms(1,3,4) _ k(1)] assms(7,8) by (auto simp: folded_polygon_def)
  show "same_cycle (collision_polygon (nfp_moving input)) (collision_polygon (nfp_moving other))"
    using canonical_digest_inject [OF assms(1,5,6) _ k(2)] assms(9,10) by (auto simp: folded_polygon_def)
  show "algorithm = algorithm'" using k(3) by (cases algorithm; cases algorithm') simp_all
qed

subsection \<open>Stores of computed boundaries\<close>

text \<open>
  Every no-fit polygon of the store was constructed, by some algorithm, from the polygons of some request
  whose key it stands under.
\<close>

definition folded_request :: "core_nfp_input \<Rightarrow> bool" where
  "folded_request input \<longleftrightarrow> folded_polygon (fixed_polygon (nfp_fixed input)) \<and> folded_polygon (collision_polygon (nfp_moving input))"

definition entries_computed :: "robust \<Rightarrow> (f64 \<Rightarrow> string) \<Rightarrow> geometry_store \<Rightarrow> bool" where
  "entries_computed robust js s \<longleftrightarrow> (\<forall>k u. (k, Nfp_value u) \<in> cache_values s \<longrightarrow>
    (\<exists>input algorithm. folded_request input \<and> (k, Nfp_value u) \<in> own_entries robust js input algorithm))"

lemma entries_computed_union:
  "entries_computed robust js s \<Longrightarrow> folded_request input \<Longrightarrow>
    cache_values s' \<subseteq> cache_values s \<union> own_entries robust js input algorithm \<Longrightarrow> entries_computed robust js s'"
  unfolding entries_computed_def by blast

lemma empty_boundary: "validate_strict_boundary robust [] \<noteq> Valid w"
  by (simp add: validate_strict_boundary_def)

lemma computed_inputs:
  assumes "compute_relative_nfp_boundary robust fixed moving algorithm = Some (Inr u)"
  shows "\<exists>w. validate_relative_nfp_inputs robust fixed moving = Inr w"
  using assms
  by (cases algorithm) (auto simp: compute_relative_nfp_boundary_linear_def minkowski_boundary_def
    compute_relative_nfp_boundary_reference_def and_then_Inr_iff split: sum.splits)

lemma valid_inputs:
  assumes "validate_relative_nfp_inputs robust fixed moving = Inr w"
  shows "fixed \<noteq> [] \<and> moving \<noteq> []"
  using assms empty_boundary [of robust]
  by (auto simp: validate_relative_nfp_inputs_def split: option.splits strict_convex_boundary_validation.splits)

lemma folded_finite: "folded_polygon ps \<Longrightarrow> finite_points_message ps = None"
  by (auto simp: folded_polygon_def folded_point_def folded_def finite_points_message_def list_all_iff)

text \<open>In such a store the entries under a valid request's key are the boundary of that request.\<close>

lemma entries_coherent:
  assumes "js_contract js" "entries_computed robust js s" "folded_request input"
    and "validate_strict_boundary robust (fixed_polygon (nfp_fixed input)) = Valid w"
    and "validate_strict_boundary robust (collision_polygon (nfp_moving input)) = Valid w'"
  shows "nfp_coherent robust js input Vertex_Pair_Hull s"
  unfolding nfp_coherent_def coherent_def constructed_def
proof (intro allI impI)
  fix u
  assume "(serialize_geometry_cache_key (nfp_key js input Vertex_Pair_Hull), Nfp_value u) \<in> cache_values s"
  then obtain other algorithm where other: "folded_request other"
    "serialize_geometry_cache_key (nfp_key js input Vertex_Pair_Hull) = serialize_geometry_cache_key (nfp_key js other algorithm)"
    "compute_relative_nfp_boundary robust (fixed_polygon (nfp_fixed other)) (collision_polygon (nfp_moving other)) algorithm = Some (Inr u)"
    using assms(2) unfolding entries_computed_def own_entries_def by blast
  have key: "nfp_key js input Vertex_Pair_Hull = nfp_key js other algorithm" using other(2) serialize_inject by blast
  have folded: "folded_polygon (fixed_polygon (nfp_fixed input))" "folded_polygon (fixed_polygon (nfp_fixed other))"
    "folded_polygon (collision_polygon (nfp_moving input))" "folded_polygon (collision_polygon (nfp_moving other))"
    using assms(3) other(1) by (simp_all add: folded_request_def)
  obtain v where v: "validate_relative_nfp_inputs robust (fixed_polygon (nfp_fixed other)) (collision_polygon (nfp_moving other)) = Inr v"
    using computed_inputs [OF other(3)] by blast
  have w: "validate_relative_nfp_inputs robust (fixed_polygon (nfp_fixed input)) (collision_polygon (nfp_moving input)) = Inr (w, w')"
    using assms(4,5) folded_finite folded(1,3) by (simp add: validate_relative_nfp_inputs_def)
  have nonempty: "fixed_polygon (nfp_fixed input) \<noteq> []" "fixed_polygon (nfp_fixed other) \<noteq> []"
    "collision_polygon (nfp_moving input) \<noteq> []" "collision_polygon (nfp_moving other) \<noteq> []"
    using valid_inputs [OF v] valid_inputs [OF w] by blast+
  note rings = nfp_key_rings [OF assms(1) key nonempty folded]
  show "compute_relative_nfp_boundary robust (fixed_polygon (nfp_fixed input)) (collision_polygon (nfp_moving input)) Vertex_Pair_Hull =
      Some (Inr u)"
    using reference_same_rings [OF rings(1,2) folded(1,3) w v] other(3) unfolding rings(3) [symmetric] by simp
qed

text \<open>
  C11. The cache of no-fit polygons never shows. If every no-fit polygon of the store was constructed from the
  polygons of some request whose key it stands under, and the request's polygons have finite coordinates
  without negative zeros, the resolver, which builds them from all vertex pairs, returns what validating,
  constructing and translating without a cache gives, error messages included, whichever request filled the
  cache; and the store it leaves is again such a store.
\<close>

theorem nfp_resolution_transparent:
  assumes "store_ok s" "entries_computed robust js s" "js_contract js" "folded_request input"
  shows "\<exists>r s'. nfp_uncached robust input Vertex_Pair_Hull = Some r \<and>
    resolve_nfp_boundary robust js room input Vertex_Pair_Hull s =
      Some (and_then r (\<lambda>boundary. Inr (boundary, nfp_key js input Vertex_Pair_Hull)), s') \<and>
    store_ok s' \<and> entries_computed robust js s'"
proof -
  have coherent: "nfp_coherent robust js input Vertex_Pair_Hull s"
    if "validate_strict_boundary robust (fixed_polygon (nfp_fixed input)) = Valid w"
      "validate_strict_boundary robust (collision_polygon (nfp_moving input)) = Valid w'" for w w'
    by (rule entries_coherent [OF assms(3,2,4) that])
  have "\<exists>r s'. nfp_uncached robust input Vertex_Pair_Hull = Some r \<and>
    resolve_nfp_boundary robust js room input Vertex_Pair_Hull s =
      Some (and_then r (\<lambda>boundary. Inr (boundary, nfp_key js input Vertex_Pair_Hull)), s') \<and>
    store_ok s' \<and> cache_values s' \<subseteq> cache_values s \<union> own_entries robust js input Vertex_Pair_Hull"
    by (rule resolve_nfp_answer [OF assms(1)]) (rule coherent)
  then obtain r s' where r: "nfp_uncached robust input Vertex_Pair_Hull = Some r"
    "resolve_nfp_boundary robust js room input Vertex_Pair_Hull s =
      Some (and_then r (\<lambda>boundary. Inr (boundary, nfp_key js input Vertex_Pair_Hull)), s')"
    "store_ok s'" "cache_values s' \<subseteq> cache_values s \<union> own_entries robust js input Vertex_Pair_Hull"
    by blast
  moreover have "entries_computed robust js s'" using entries_computed_union [OF assms(2,4) r(4)] .
  ultimately show ?thesis by blast
qed

text \<open>The pre-pass and an empty store: the other ways entries come about.\<close>

lemma prepass_keeps_computed:
  assumes "store_ok s" "entries_computed robust js s" "\<forall>p \<in> set placed. folded_polygon (fixed_polygon p)"
    and "folded_polygon (collision_polygon moving)"
  shows "\<exists>s'. precompute_missing_relative_nfp_boundaries robust js room placed moving geometry_settings algorithm s = Some s' \<and>
    store_ok s' \<and> entries_computed robust js s'"
proof -
  obtain s' where s': "precompute_missing_relative_nfp_boundaries robust js room placed moving geometry_settings algorithm s = Some s'"
    "store_ok s'" "cache_values s' \<subseteq> cache_values s \<union> {(k, Nfp_value u) | k u p. p \<in> set placed \<and>
      k = serialize_geometry_cache_key (nfp_key js \<lparr>nfp_fixed = p, nfp_moving = moving, nfp_settings = geometry_settings\<rparr> algorithm) \<and>
      compute_relative_nfp_boundary robust (fixed_polygon p) (collision_polygon moving) algorithm = Some (Inr u)}"
    using precompute_publishes_constructed [OF assms(1)] by blast
  have "entries_computed robust js s'"
    unfolding entries_computed_def
  proof (intro allI impI)
    fix k u
    assume "(k, Nfp_value u) \<in> cache_values s'"
    then consider "(k, Nfp_value u) \<in> cache_values s" | p where "p \<in> set placed"
      "k = serialize_geometry_cache_key (nfp_key js \<lparr>nfp_fixed = p, nfp_moving = moving, nfp_settings = geometry_settings\<rparr> algorithm)"
      "compute_relative_nfp_boundary robust (fixed_polygon p) (collision_polygon moving) algorithm = Some (Inr u)"
      using s'(3) by blast
    then show "\<exists>input algorithm. folded_request input \<and> (k, Nfp_value u) \<in> own_entries robust js input algorithm"
    proof cases
      case 1
      then show ?thesis using assms(2) unfolding entries_computed_def by blast
    next
      case (2 p)
      then show ?thesis using assms(3,4)
        by (intro exI [of _ "\<lparr>nfp_fixed = p, nfp_moving = moving, nfp_settings = geometry_settings\<rparr>"] exI [of _ algorithm])
          (simp add: own_entries_def folded_request_def)
    qed
  qed
  with s' show ?thesis by blast
qed

lemma empty_computed: "cache_values s = {} \<Longrightarrow> entries_computed robust js s"
  by (simp add: entries_computed_def)

end
