(* ===== verification/NfpWitness.thy ===== *)
theory NfpWitness
  imports NfpExact IntPoints
begin

text \<open>The exactness of the no-fit polygon on two integer triangles.\<close>

definition big_triangle :: "point list" where
  "big_triangle = [gp 0 0, gp 4 0, gp 0 4]"

definition small_triangle :: "point list" where
  "small_triangle = [gp 0 0, gp 2 0, gp 0 2]"

lemma vertex_difference_gp: "\<bar>a - c\<bar> \<le> 2 ^ 53 \<Longrightarrow> \<bar>b - d\<bar> \<le> 2 ^ 53 \<Longrightarrow> \<bar>a\<bar> \<le> 2 ^ 53 \<Longrightarrow> \<bar>b\<bar> \<le> 2 ^ 53 \<Longrightarrow>
    vertex_difference (gp a b) (gp c d) = gp (a - c) (b - d)"
  by (simp add: vertex_difference_def gp_def flip: fsub_def)

lemma triangles_convex: "convex_ring 1 (ring big_triangle)" "convex_ring 1 (ring small_triangle)"
  by (rule convex_ring_edges; simp add: big_triangle_def small_triangle_def edges_3 pt_def)+

lemma triangles_differ: "exact_differences big_triangle small_triangle"
  by (simp add: exact_differences_def big_triangle_def small_triangle_def vertex_difference_gp pt_def rsub_def)

lemma nfp_reference_exact_witness:
  "\<exists>poly. compute_relative_nfp_boundary_reference sign_robust big_triangle small_triangle = Inr poly \<and>
    validate_strict_boundary sign_robust poly = Valid 1"
proof -
  have "\<forall>p \<in> set big_triangle \<union> set small_triangle. finite_point p" by (auto simp: big_triangle_def small_triangle_def)
  then show ?thesis
    using nfp_reference_exact [of big_triangle small_triangle sign_robust 1 1] triangles_convex triangles_differ by auto
qed

end
