(* ===== verification/GridHull.thy ===== *)
theory GridHull
  imports GridMath
begin

text \<open>
  The convex hull of \<open>canonical_grid/math.rs\<close>: de-duplication, sorting and the two scans, against
  the geometry of \<open>MonotoneChain\<close>.
\<close>

subsection \<open>Sorting\<close>

lemma fsub_sign:
  assumes "is_int_val a i" "is_int_val b j" and "\<bar>i\<bar> \<le> 9007199254740991" "\<bar>j\<bar> \<le> 9007199254740991"
  shows "\<not> is_nan (fsub a b)" "feq (fsub a b) f64_zero \<longleftrightarrow> i = j"
    "flt (fsub a b) f64_zero \<longleftrightarrow> i < j" "flt f64_zero (fsub a b) \<longleftrightarrow> j < i"
proof -
  obtain s where a: "a = Finite s (of_int \<bar>i\<bar>)" using assms(1) by (rule is_int_val_form) blast
  obtain t where b: "b = Finite t (of_int \<bar>j\<bar>)" using assms(2) by (rule is_int_val_form) blast
  have v: "f64_val a + f64_val (fneg b) = of_int (i - j)"
    using assms(1) is_int_val_fneg [OF assms(2)] by (simp add: is_int_val_def)
  have "\<not> is_nan (fsub a b) \<and> (feq (fsub a b) f64_zero \<longleftrightarrow> i = j) \<and>
    (flt (fsub a b) f64_zero \<longleftrightarrow> i < j) \<and> (flt f64_zero (fsub a b) \<longleftrightarrow> j < i)"
  proof (cases "i = j")
    case True
    then show ?thesis using v by (simp add: a b fsub_def)
  next
    case False
    let ?m = "of_int \<bar>i - j\<bar> :: rat"
    have m: "1 \<le> ?m" "?m \<le> 2 ^ 54"
    proof -
      have "of_int 1 \<le> ?m" using False unfolding of_int_le_iff by simp
      then show "1 \<le> ?m" by simp
      have "?m \<le> of_int (2 ^ 54)" using assms(3,4) by (simp only: of_int_le_iff) simp
      then show "?m \<le> 2 ^ 54" by simp
    qed
    have "round_mag (of_int 1) \<le> round_mag ?m" using m by (intro round_mag_mono) auto
    then have lo: "1 \<le> round_mag ?m" using round_mag_int [of 1] by simp
    have "round_mag ?m \<le> round_mag (2 ^ 54)" using m by (intro round_mag_mono) auto
    also have "round_mag (2 ^ 54) = 2 ^ 54" by (rule round_mag_exact [of _ 1 54]) simp_all
    also have "(2 ^ 54 :: rat) < f64_top" by (simp add: f64_top_def)
    finally have hi: "round_mag ?m < f64_top" .
    have "fsub a b = round_to (f64_val a + f64_val (fneg b) < 0) \<bar>f64_val a + f64_val (fneg b)\<bar>"
      using False v by (simp add: a b fsub_def Let_def del: of_int_diff)
    also have "\<dots> = round_to (i < j) ?m" unfolding v by simp
    also have "\<dots> = Finite (i < j) (round_mag ?m)" using hi by (simp add: round_to_def Let_def)
    finally show ?thesis using lo False by auto
  qed
  then show "\<not> is_nan (fsub a b)" "feq (fsub a b) f64_zero \<longleftrightarrow> i = j"
    "flt (fsub a b) f64_zero \<longleftrightarrow> i < j" "flt f64_zero (fsub a b) \<longleftrightarrow> j < i" by blast+
qed

definition good_point :: "grid_point \<Rightarrow> bool" where
  "good_point p \<longleftrightarrow> point_ok p \<and> canonical_point p"

lemma good_point_vals:
  assumes "good_point p"
  shows "is_int_val (gx p) (fst (pt p))" "is_int_val (gy p) (snd (pt p))"
    "\<bar>fst (pt p)\<bar> \<le> 9007199254740991" "\<bar>snd (pt p)\<bar> \<le> 9007199254740991"
  using assms canonical_point_vals by (auto simp: good_point_def)

lemma hull_sort_ordering_eq:
  assumes "good_point p" "good_point q"
  shows "hull_sort_ordering p q =
    then_with (cmp_of (fst (pt p)) (fst (pt q))) (cmp_of (snd (pt p)) (snd (pt q)))"
proof -
  note x = fsub_sign [OF good_point_vals(1) [OF assms(1)] good_point_vals(1) [OF assms(2)]
      good_point_vals(3) [OF assms(1)] good_point_vals(3) [OF assms(2)]]
  note y = fsub_sign [OF good_point_vals(2) [OF assms(1)] good_point_vals(2) [OF assms(2)]
      good_point_vals(4) [OF assms(1)] good_point_vals(4) [OF assms(2)]]
  show ?thesis
    using x y by (auto simp: hull_sort_ordering_def hull_sort_key_def Let_def cmp_of_def)
qed

interpretation hull_order: comparator "Collect good_point" hull_sort_ordering
  by (rule comparator_cong [OF comparator_then_with [OF comparator_linorder_key comparator_linorder_key]])
    (simp add: hull_sort_ordering_eq)

lemma hull_order_before:
  assumes "good_point p" "good_point q" "pt p \<noteq> pt q"
  shows "hull_sort_ordering p q \<noteq> Greater \<longleftrightarrow> before 1 (pt p) (pt q)"
  using assms(3)
  by (auto simp: hull_sort_ordering_eq [OF assms(1,2)] cmp_simps before_def forward_def vsub_def prod_eq_iff)

subsection \<open>De-duplication\<close>

definition point_key :: "(f64 \<Rightarrow> string) \<Rightarrow> grid_point \<Rightarrow> string" where
  "point_key js p = js (gx p) @ '','' @ js (gy p)"

text \<open>
  What the code relies on of JavaScript's number rendering: no comma, and different renderings for
  different numbers, except that both zeros are \<open>0\<close>.
\<close>

definition js_rendering :: "(f64 \<Rightarrow> string) \<Rightarrow> bool" where
  "js_rendering js \<longleftrightarrow> (\<forall>a. CHR 0x2C \<notin> set (js a)) \<and>
    (\<forall>a b. f64_ok a \<longrightarrow> f64_ok b \<longrightarrow> (js a = js b \<longleftrightarrow> a = b \<or> feq a b))"

definition indexed :: "(f64 \<Rightarrow> string) \<Rightarrow> grid_path \<Rightarrow> (string \<rightharpoonup> nat) \<Rightarrow> bool" where
  "indexed js u ki \<longleftrightarrow> distinct (map (point_key js) u) \<and>
    (\<forall>k i. ki k = Some i \<longleftrightarrow> i < length u \<and> point_key js (u ! i) = k)"

lemma dedup_points_spec:
  "indexed js u ki \<Longrightarrow> distinct (map (point_key js) (dedup_points js ps u ki)) \<and>
    point_key js ` set (dedup_points js ps u ki) = point_key js ` (set u \<union> set ps) \<and>
    set (dedup_points js ps u ki) \<subseteq> set u \<union> set ps"
proof (induction ps arbitrary: u ki)
  case Nil
  then show ?case by (simp add: indexed_def)
next
  case (Cons p ps)
  let ?k = "point_key js p"
  show ?case
  proof (cases "ki ?k")
    case None
    have n: "?k \<notin> point_key js ` set u"
    proof
      assume "?k \<in> point_key js ` set u"
      then obtain i where "i < length u" "point_key js (u ! i) = ?k" by (auto simp: in_set_conv_nth)
      then have "ki ?k = Some i" using Cons.prems by (simp add: indexed_def)
      with None show False by simp
    qed
    have n2: "\<forall>i < length u. point_key js (u ! i) \<noteq> ?k" using n by (auto dest!: nth_mem simp: image_iff)
    have "indexed js (u @ [p]) (ki(?k \<mapsto> length u))"
      using Cons.prems n None n2 unfolding indexed_def by (auto simp: nth_append less_Suc_eq)
    note ih = Cons.IH [OF this]
    have "dedup_points js (p # ps) u ki = dedup_points js ps (u @ [p]) (ki(?k \<mapsto> length u))"
      using None by (simp add: point_key_def Let_def)
    moreover have "set (u @ [p]) \<union> set ps = set u \<union> set (p # ps)" by auto
    ultimately show ?thesis using ih by (simp only:)
  next
    case (Some i)
    then have i: "i < length u" "point_key js (u ! i) = ?k" using Cons.prems by (auto simp: indexed_def)
    have m: "map (point_key js) (u[i := p]) = map (point_key js) u"
      using i by (simp add: map_update list_update_same_conv)
    have "indexed js (u[i := p]) ki"
      using Cons.prems i unfolding indexed_def m by (auto simp: nth_list_update)
    note ih = Cons.IH [OF this]
    have "point_key js ` set (u[i := p]) = point_key js ` set u" using m by (metis list.set_map)
    moreover have "?k \<in> point_key js ` set u" using i by (metis image_eqI nth_mem)
    moreover have "set (u[i := p]) \<subseteq> insert p (set u)" by (rule set_update_subset_insert)
    moreover have "dedup_points js (p # ps) u ki = dedup_points js ps (u[i := p]) ki"
      using Some by (simp add: point_key_def Let_def)
    ultimately show ?thesis using ih by (auto simp: image_Un)
  qed
qed

lemma comma_split:
  assumes "CHR 0x2C \<notin> set a" "CHR 0x2C \<notin> set b" and "a @ CHR 0x2C # c = b @ CHR 0x2C # d"
  shows "a = b \<and> c = d"
proof -
  have "takeWhile (\<lambda>x. x \<noteq> CHR 0x2C) (a @ CHR 0x2C # c) = a" "takeWhile (\<lambda>x. x \<noteq> CHR 0x2C) (b @ CHR 0x2C # d) = b"
    using assms(1,2) by (auto simp: takeWhile_append)
  with assms(3) show ?thesis by simp
qed

lemma point_key_eq:
  assumes "js_rendering js" "point_ok p" "point_ok q"
  shows "point_key js p = point_key js q \<longleftrightarrow>
    (gx p = gx q \<or> feq (gx p) (gx q)) \<and> (gy p = gy q \<or> feq (gy p) (gy q))"
proof -
  have "point_key js p = point_key js q \<longleftrightarrow> js (gx p) = js (gx q) \<and> js (gy p) = js (gy q)"
    using comma_split assms(1) unfolding point_key_def js_rendering_def by fastforce
  then show ?thesis using assms unfolding js_rendering_def point_ok_def by blast
qed

lemma feq_safe: "feq a b \<Longrightarrow> f64_ok a \<Longrightarrow> f64_ok b \<Longrightarrow> is_safe_integer a \<longleftrightarrow> is_safe_integer b"
  unfolding safe_integer_iff by (cases a; cases b) (auto simp: is_int_val_def)

lemma point_key_canonical:
  assumes "js_rendering js" "point_ok p" "point_ok q" "point_key js p = point_key js q"
  shows "canonical_point p \<longleftrightarrow> canonical_point q"
  using assms(2-4) feq_safe unfolding point_key_eq [OF assms(1-3)] canonical_point_def is_canonical_grid_coordinate_def point_ok_def
  by metis

lemma point_key_pt:
  assumes "js_rendering js" "good_point p" "good_point q"
  shows "point_key js p = point_key js q \<longleftrightarrow> pt p = pt q"
proof -
  have "point_ok p" "point_ok q" using assms(2,3) by (simp_all add: good_point_def)
  moreover have "gx p = gx q \<or> feq (gx p) (gx q) \<longleftrightarrow> fst (pt p) = fst (pt q)"
    using is_int_val_cmp(1) [OF good_point_vals(1) [OF assms(2)] good_point_vals(1) [OF assms(3)]]
    by (auto simp: pt_def)
  moreover have "gy p = gy q \<or> feq (gy p) (gy q) \<longleftrightarrow> snd (pt p) = snd (pt q)"
    using is_int_val_cmp(1) [OF good_point_vals(2) [OF assms(2)] good_point_vals(2) [OF assms(3)]]
    by (auto simp: pt_def)
  ultimately show ?thesis using point_key_eq [OF assms(1)] by (simp add: prod_eq_iff)
qed

subsection \<open>The scans\<close>

lemma cross_sign_good:
  "good_point p \<Longrightarrow> good_point q \<Longrightarrow> good_point r \<Longrightarrow>
    canonical_grid_cross_sign p q r = Some (sgn (icross (pt p) (pt q) (pt r)))"
  by (simp add: good_point_def cross_sign_eq canonical_grid_cross_eq)

lemma pop_turns_scan:
  "\<forall>x \<in> set h. good_point x \<Longrightarrow> good_point p \<Longrightarrow>
    \<exists>h'. pop_turns p h = Some h' \<and> map pt h' = scan_pop (pt p) (map pt h) \<and> set h' \<subseteq> set h"
proof (induction p h rule: pop_turns.induct)
  case (1 p first origin half)
  have c: "canonical_grid_cross_sign origin first p = Some (sgn (icross (pt origin) (pt first) (pt p)))"
    using "1.prems" by (intro cross_sign_good) auto
  show ?case
  proof (cases "0 < icross (pt origin) (pt first) (pt p)")
    case True
    then show ?thesis using c by simp
  next
    case False
    then have n: "\<not> 0 < sgn (icross (pt origin) (pt first) (pt p))" by (simp add: sgn_if)
    have "\<exists>h'. pop_turns p (origin # half) = Some h' \<and>
        map pt h' = scan_pop (pt p) (map pt (origin # half)) \<and> set h' \<subseteq> set (origin # half)"
      by (rule "1.IH" [OF c n]) (use "1.prems" in auto)
    then show ?thesis using c n False by auto
  qed
qed simp_all

lemma build_half_scan:
  "\<forall>x \<in> set ps \<union> set h. good_point x \<Longrightarrow>
    \<exists>r. build_half ps h = Some (rev r) \<and> map pt r = scan (map pt ps) (map pt h) \<and> set r \<subseteq> set ps \<union> set h"
proof (induction ps arbitrary: h)
  case (Cons p ps)
  obtain h' where h': "pop_turns p h = Some h'" "map pt h' = scan_pop (pt p) (map pt h)" "set h' \<subseteq> set h"
    using pop_turns_scan [of h p] Cons.prems by auto
  have g: "\<forall>x \<in> set ps \<union> set (p # h'). good_point x" using h'(3) Cons.prems by auto
  show ?case using Cons.IH [OF g] h' by auto
qed simp

definition edge_ok :: "grid_path \<Rightarrow> grid_point \<Rightarrow> grid_point \<Rightarrow> bool" where
  "edge_ok ps a b \<longleftrightarrow> pt a \<noteq> pt b \<and> (\<forall>p \<in> set ps. 0 \<le> icross (pt a) (pt b) (pt p))"

text \<open>One half of the hull.\<close>

lemma build_half_chain:
  assumes "d = 1 \<or> d = -1" and "\<forall>x \<in> set ps. good_point x" and "sorted_wrt (before d) (map pt ps)" and "ps \<noteq> []"
  obtains r where "build_half ps [] = Some r" "successively (edge_ok ps) r" "r \<noteq> []"
    "pt (hd r) = pt (hd ps)" "pt (last r) = pt (last ps)" "set r \<subseteq> set ps"
proof -
  obtain r where r: "build_half ps [] = Some (rev r)" "map pt r = scan (map pt ps) []" "set r \<subseteq> set ps"
    using build_half_scan [of ps "[]"] assms(2) by auto
  have ne: "map pt ps \<noteq> []" using assms(4) by simp
  note c = scan_chain [OF assms(1,3) ne]
  have m: "map pt (rev r) = rev (scan (map pt ps) [])" using r(2) by (simp add: rev_map [symmetric])
  then have rn: "rev r \<noteq> []" using c(7) by auto
  have "successively (edge_ok ps) (rev r)"
    using c(1) unfolding m [symmetric] successively_map by (rule successively_mono) (simp add: edge_ok_def)
  moreover have "pt (hd (rev r)) = pt (hd ps)" "pt (last (rev r)) = pt (last ps)"
    using c(2,3) rn assms(4) unfolding m [symmetric] by (simp_all add: hd_map last_map del: rev_map)
  ultimately show ?thesis using that [of "rev r"] r(1,3) rn by simp
qed

lemma edge_ok_pt: "pt a = pt a' \<Longrightarrow> pt b = pt b' \<Longrightarrow> edge_ok ps a b = edge_ok ps a' b'"
  by (simp add: edge_ok_def)

text \<open>Joining the halves.\<close>

lemma close_halves:
  assumes "successively (edge_ok ps) l" "successively (edge_ok ps) u" and "2 \<le> length l" "2 \<le> length u"
    and "pt (last l) = pt (hd u)" "pt (last u) = pt (hd l)"
  defines "h \<equiv> take (length l - 1) l @ take (length u - 1) u"
  shows "successively (edge_ok ps) (h @ [hd h])" "2 \<le> length h" "set h \<subseteq> set l \<union> set u"
proof -
  have b: "take (length l - 1) l = butlast l" "take (length u - 1) u = butlast u" by (simp_all add: butlast_conv_take)
  obtain l1 a l2 where l: "l = l1 # l2 @ [a]" using assms(3) by (cases l; cases "tl l" rule: rev_cases) auto
  obtain u1 c u2 where u: "u = u1 # u2 @ [c]" using assms(4) by (cases u; cases "tl u" rule: rev_cases) auto
  have h: "h = (l1 # l2) @ u1 # u2" by (simp add: h_def l u)
  have pl: "pt a = pt u1" "pt c = pt l1" using assms(5,6) by (simp_all add: l u)
  have "successively (edge_ok ps) (l1 # l2)" "edge_ok ps (last (l1 # l2)) a"
    using assms(1) by (auto simp: l successively_append_iff simp flip: append_Cons split: if_splits)
  moreover have "successively (edge_ok ps) (u1 # u2)" "edge_ok ps (last (u1 # u2)) c"
    using assms(2) by (auto simp: u successively_append_iff simp flip: append_Cons split: if_splits)
  ultimately have "successively (edge_ok ps) (l1 # l2)" "edge_ok ps (last (l1 # l2)) u1"
    "successively (edge_ok ps) (u1 # u2)" "edge_ok ps (last (u1 # u2)) l1"
    using edge_ok_pt [OF refl pl(1)] edge_ok_pt [OF refl pl(2)] by blast+
  then have "successively (edge_ok ps) (((l1 # l2) @ (u1 # u2)) @ [l1])"
    unfolding successively_append_iff by (simp del: append_Cons)
  then show "successively (edge_ok ps) (h @ [hd h])" by (simp add: h)
  show "2 \<le> length h" by (simp add: h)
  show "set h \<subseteq> set l \<union> set u" by (auto simp: h l u)
qed

subsection \<open>The hull\<close>

lemma sorted_wrt_distinct_map:
  "distinct (map f xs) \<Longrightarrow> sorted_wrt R xs \<Longrightarrow> sorted_wrt (\<lambda>a b. R a b \<and> f a \<noteq> f b) xs"
  by (induction xs) auto

definition unique_points :: "(f64 \<Rightarrow> string) \<Rightarrow> grid_path \<Rightarrow> grid_path" where
  "unique_points js pts = sort_by hull_sort_ordering (dedup_points js pts [] Map.empty)"

lemma unique_points_facts:
  assumes "js_rendering js" and "\<forall>p \<in> set pts. point_ok p"
  shows "set (unique_points js pts) \<subseteq> set pts"
    "(\<exists>p \<in> set (unique_points js pts). \<not> canonical_point p) \<longleftrightarrow> (\<exists>p \<in> set pts. \<not> canonical_point p)"
    "distinct (map (point_key js) (unique_points js pts))"
    "point_key js ` set (unique_points js pts) = point_key js ` set pts"
proof -
  let ?d = "dedup_points js pts [] Map.empty"
  have "indexed js [] Map.empty" by (simp add: indexed_def)
  from dedup_points_spec [OF this, of pts]
  have d: "distinct (map (point_key js) ?d)" "point_key js ` set ?d = point_key js ` set pts" "set ?d \<subseteq> set pts"
    by simp_all
  show sub: "set (unique_points js pts) \<subseteq> set pts" using d(3) by (simp add: unique_points_def)
  show key: "point_key js ` set (unique_points js pts) = point_key js ` set pts"
    using d(2) by (simp add: unique_points_def)
  have "mset (map (point_key js) (unique_points js pts)) = mset (map (point_key js) ?d)"
    by (simp add: unique_points_def)
  then show "distinct (map (point_key js) (unique_points js pts))" using d(1) mset_eq_imp_distinct_iff by blast
  show "(\<exists>p \<in> set (unique_points js pts). \<not> canonical_point p) \<longleftrightarrow> (\<exists>p \<in> set pts. \<not> canonical_point p)"
  proof
    assume "\<exists>p \<in> set pts. \<not> canonical_point p"
    then obtain p where p: "p \<in> set pts" "\<not> canonical_point p" by blast
    then obtain q where q: "q \<in> set (unique_points js pts)" "point_key js p = point_key js q"
      using key by (metis image_eqI image_iff)
    then show "\<exists>p \<in> set (unique_points js pts). \<not> canonical_point p"
      using point_key_canonical [OF assms(1), of p q] p assms(2) sub by blast
  qed (use sub in blast)
qed

lemma unique_points_sorted:
  assumes "js_rendering js" and "\<forall>p \<in> set pts. good_point p"
  shows "sorted_wrt (before 1) (map pt (unique_points js pts))"
    "sorted_wrt (before (- 1)) (map pt (rev (unique_points js pts)))"
    "pt ` set (unique_points js pts) = pt ` set pts" "distinct (map pt (unique_points js pts))"
proof -
  let ?u = "unique_points js pts"
  have ok: "\<forall>p \<in> set pts. point_ok p" using assms(2) by (simp add: good_point_def)
  note f = unique_points_facts [OF assms(1) ok]
  have g: "\<forall>p \<in> set ?u. good_point p" using f(1) assms(2) by blast
  have "inj_on pt (set ?u)"
    using f(3) point_key_pt [OF assms(1)] g unfolding distinct_map inj_on_def by metis
  then show d: "distinct (map pt ?u)" using f(3) by (simp add: distinct_map)
  have "set (dedup_points js pts [] Map.empty) \<subseteq> Collect good_point" using g by (auto simp: unique_points_def)
  from hull_order.sorted_sort_by [OF this]
  have "sorted_wrt (\<lambda>a b. hull_sort_ordering a b \<noteq> Greater \<and> pt a \<noteq> pt b) ?u"
    using sorted_wrt_distinct_map [OF d] by (simp add: unique_points_def)
  then have "sorted_wrt (\<lambda>a b. before 1 (pt a) (pt b)) ?u"
    by (rule sorted_wrt_mono_rel [rotated]) (use g hull_order_before in blast)
  then show "sorted_wrt (before 1) (map pt ?u)" by (simp add: sorted_wrt_map)
  with d show "sorted_wrt (before (- 1)) (map pt (rev ?u))"
    by (simp add: sorted_wrt_map sorted_wrt_rev before_neg)
  show "pt ` set ?u = pt ` set pts"
  proof (intro equalityI subsetI)
    fix x assume "x \<in> pt ` set pts"
    then obtain p where p: "p \<in> set pts" "x = pt p" by blast
    then obtain q where q: "q \<in> set ?u" "point_key js p = point_key js q"
      using f(4) by (metis image_eqI image_iff)
    then have "pt p = pt q" using point_key_pt [OF assms(1)] p assms(2) g by blast
    then show "x \<in> pt ` set ?u" using p q by blast
  qed (use f(1) in auto)
qed

lemma edge_ok_image: "pt ` set ps = pt ` set qs \<Longrightarrow> edge_ok ps a b = edge_ok qs a b"
  unfolding edge_ok_def by (metis (no_types, lifting) image_iff)

text \<open>
  C32. \<open>canonical_grid_convex_hull\<close> computes the convex hull, exactly: it fails precisely when some
  coordinate is no safe integer, and otherwise returns input points; all input points coincide when
  it returns at most one; and when it returns at least two, they form a closed counter-clockwise
  polygon without repeated consecutive vertices that has every input point on or left of each of
  its edges.
\<close>

theorem convex_hull_correct:
  assumes "js_rendering js" and "\<forall>p \<in> set pts. point_ok p"
  shows "case canonical_grid_convex_hull js pts of
      None \<Rightarrow> \<exists>p \<in> set pts. \<not> canonical_point p
    | Some h \<Rightarrow> (\<forall>p \<in> set pts. canonical_point p) \<and> set h \<subseteq> set pts \<and> (h = [] \<longleftrightarrow> pts = []) \<and>
        (length h \<le> 1 \<longrightarrow> (\<forall>p \<in> set pts. \<forall>q \<in> set pts. pt p = pt q)) \<and>
        (2 \<le> length h \<longrightarrow> successively (\<lambda>a b. pt a \<noteq> pt b \<and>
          (\<forall>p \<in> set pts. 0 \<le> icross (pt a) (pt b) (pt p))) (h @ [hd h]))"
proof (cases "\<exists>p \<in> set pts. \<not> canonical_point p")
  case True
  then have "canonical_grid_convex_hull js pts = None"
    using unique_points_facts(2) [OF assms] by (auto simp: canonical_grid_convex_hull_def unique_points_def Let_def)
  with True show ?thesis by simp
next
  case False
  let ?u = "unique_points js pts"
  have good: "\<forall>p \<in> set pts. good_point p" using False assms(2) by (auto simp: good_point_def)
  note f = unique_points_facts [OF assms]
  note s = unique_points_sorted [OF assms(1) good]
  have g: "\<forall>p \<in> set ?u. good_point p" using f(1) good by blast
  have c: "\<not> (\<exists>p \<in> set ?u. \<not> canonical_point p)" using f(2) False by blast
  have e: "edge_ok ?u a b = edge_ok pts a b" for a b by (rule edge_ok_image [OF s(3)])
  show ?thesis
  proof (cases "length ?u \<le> 1")
    case True
    then have r: "canonical_grid_convex_hull js pts = Some ?u"
      using c by (simp add: canonical_grid_convex_hull_def unique_points_def Let_def)
    have same: "pt p = pt q" if "p \<in> set pts" "q \<in> set pts" for p q
    proof -
      have "pt p \<in> pt ` set ?u" "pt q \<in> pt ` set ?u" using that s(3) by auto
      then show ?thesis using True by (cases ?u) auto
    qed
    have sing: "\<forall>p \<in> set pts. \<forall>q \<in> set pts. pt p = pt q" using same by blast
    have "\<forall>p \<in> set pts. canonical_point p" "\<not> 2 \<le> length ?u" "(?u = []) = (pts = [])"
      using False True s(3) by auto
    with f(1) sing show ?thesis unfolding r option.case by blast
  next
    case long: False
    then have ne: "?u \<noteq> []" "rev ?u \<noteq> []" by auto
    obtain l where l: "build_half ?u [] = Some l" "successively (edge_ok ?u) l" "l \<noteq> []"
      "pt (hd l) = pt (hd ?u)" "pt (last l) = pt (last ?u)" "set l \<subseteq> set ?u"
      by (rule build_half_chain [OF _ g s(1) ne(1)]) auto
    have gr: "\<forall>p \<in> set (rev ?u). good_point p" using g by simp
    obtain u where u: "build_half (rev ?u) [] = Some u" "successively (edge_ok (rev ?u)) u" "u \<noteq> []"
      "pt (hd u) = pt (last ?u)" "pt (last u) = pt (hd ?u)" "set u \<subseteq> set ?u"
      by (rule build_half_chain [OF _ gr s(2) ne(2)]) (auto simp: hd_rev last_rev)
    have er: "edge_ok (rev ?u) = edge_ok pts" "edge_ok ?u = edge_ok pts"
      using edge_ok_image [of "rev ?u" ?u] e by (auto simp: fun_eq_iff)
    have "pt (hd ?u) \<noteq> pt (last ?u)"
      using s(4) long by (cases ?u rule: rev_cases; cases "butlast ?u") auto
    then have len: "2 \<le> length l" "2 \<le> length u"
      using l(3-5) u(3-5) by (cases l; cases "tl l"; cases u; cases "tl u"; auto)+
    let ?h = "take (length l - 1) l @ take (length u - 1) u"
    note h = close_halves [OF l(2) [unfolded er] u(2) [unfolded er] len]
    have r: "canonical_grid_convex_hull js pts = Some ?h"
      using c long l(1) u(1) by (simp add: canonical_grid_convex_hull_def unique_points_def Let_def)
    have j: "pt (last l) = pt (hd u)" "pt (last u) = pt (hd l)" using l(4,5) u(4,5) by simp_all
    have hh: "successively (edge_ok pts) (?h @ [hd ?h])" "2 \<le> length ?h" by (rule h(1,2) [OF j])+
    have sub: "set ?h \<subseteq> set pts" using h(3) [OF j] l(6) u(6) f(1) by blast
    have "\<forall>p \<in> set pts. canonical_point p" "pts \<noteq> []" using False ne(1) s(3) by auto
    moreover have "?h \<noteq> []" "\<not> length ?h \<le> 1" using hh(2) by force+
    ultimately show ?thesis
      using hh sub unfolding r option.case edge_ok_def [abs_def] by blast
  qed
qed

text \<open>A rendering with the stated properties.\<close>

fun tally_js :: "f64 \<Rightarrow> string" where
  "tally_js NaN = ''N''"
| "tally_js (Infinity s) = (if s then ''-I'' else ''I'')"
| "tally_js (Finite s m) = (case quotient_of (f64_val (Finite s m)) of (n, d) \<Rightarrow>
    replicate (nat n) (CHR ''+'') @ replicate (nat (- n)) (CHR ''-'') @ replicate (nat d) (CHR ''/''))"

lemma tally_js_finite: "tally_js (Finite s m) = tally_js (Finite t k) \<longleftrightarrow> f64_val (Finite s m) = f64_val (Finite t k)"
proof
  let ?a = "quotient_of (f64_val (Finite s m))" and ?b = "quotient_of (f64_val (Finite t k))"
  let ?n = "\<lambda>c xs. length (filter (\<lambda>x. x = c) (xs :: string))"
  assume "tally_js (Finite s m) = tally_js (Finite t k)"
  then have "?n c (tally_js (Finite s m)) = ?n c (tally_js (Finite t k))" for c by simp
  from this [of "CHR ''+''"] this [of "CHR ''-''"] this [of "CHR ''/''"]
  have "nat (fst ?a) = nat (fst ?b)" "nat (- fst ?a) = nat (- fst ?b)" "nat (snd ?a) = nat (snd ?b)"
    by (simp_all add: case_prod_beta filter_replicate del: f64_val.simps)
  moreover have "0 < snd ?a" "0 < snd ?b" by (simp_all only: quotient_of_denom_pos')
  ultimately have "?a = ?b" by (simp add: prod_eq_iff del: f64_val.simps) linarith
  then show "f64_val (Finite s m) = f64_val (Finite t k)" by (rule quotient_of_inject)
qed (simp del: f64_val.simps)

lemma tally_js_slash: "CHR ''/'' \<in> set (tally_js a) \<longleftrightarrow> is_finite a"
proof (cases a)
  case (Finite s m)
  have "0 < snd (quotient_of (f64_val a))" by (rule quotient_of_denom_pos')
  then show ?thesis by (simp add: Finite case_prod_beta del: f64_val.simps)
qed simp_all

lemma tally_js_rendering: "js_rendering tally_js"
proof -
  have "CHR 0x2C \<notin> set (tally_js a)" for a by (cases a) (simp_all add: case_prod_beta del: f64_val.simps)
  moreover have "tally_js a = tally_js b \<longleftrightarrow> a = b \<or> feq a b" for a b
  proof (cases "is_finite a \<longleftrightarrow> is_finite b")
    case True
    then show ?thesis
      by (cases a; cases b) (auto simp: tally_js_finite simp del: tally_js.simps(3) f64_val.simps)
  next
    case False
    then have "tally_js a \<noteq> tally_js b" using tally_js_slash by metis
    moreover have "a \<noteq> b \<and> \<not> feq a b" using False by (cases a; cases b) auto
    ultimately show ?thesis by blast
  qed
  ultimately show ?thesis by (simp add: js_rendering_def)
qed

lemma convex_hull_correct_witness:
  "case canonical_grid_convex_hull tally_js [int_point 0 0, int_point 2 0, int_point 1 1, int_point 0 0] of
    None \<Rightarrow> False
  | Some h \<Rightarrow> 2 \<le> length h \<and> set h \<subseteq> {int_point 0 0, int_point 2 0, int_point 1 1} \<and>
      successively (\<lambda>a b. 0 \<le> icross (pt a) (pt b) (1, 1)) (h @ [hd h])"
proof -
  let ?p = "[int_point 0 0, int_point 2 0, int_point 1 1, int_point 0 0]"
  have ok: "\<forall>p \<in> set ?p. point_ok p" by simp
  note t = convex_hull_correct [OF tally_js_rendering ok]
  have c: "\<forall>p \<in> set ?p. canonical_point p" by (simp add: int_point_vals)
  have n: "pt (int_point 0 0) \<noteq> pt (int_point 2 0)" "pt (int_point 1 1) = (1, 1)" by (simp_all add: int_point_vals)
  have "canonical_grid_convex_hull tally_js ?p \<noteq> None"
  proof
    assume "canonical_grid_convex_hull tally_js ?p = None"
    then show False using t c unfolding option.case by simp
  qed
  then obtain h where h: "canonical_grid_convex_hull tally_js ?p = Some h" by blast
  note t = t [unfolded h option.case]
  have "\<not> length h \<le> 1"
  proof
    assume "length h \<le> 1"
    then have "\<forall>p \<in> set ?p. \<forall>q \<in> set ?p. pt p = pt q" using t by blast
    then have "pt (int_point 0 0) = pt (int_point 2 0)" unfolding list.set by blast
    with n(1) show False by contradiction
  qed
  then have len: "2 \<le> length h" by simp
  have s: "set h \<subseteq> set ?p" using t by blast
  have "successively (\<lambda>a b. pt a \<noteq> pt b \<and> (\<forall>p \<in> set ?p. 0 \<le> icross (pt a) (pt b) (pt p))) (h @ [hd h])"
    using t len by blast
  then have "successively (\<lambda>a b. 0 \<le> icross (pt a) (pt b) (1, 1)) (h @ [hd h])"
    by (rule successively_mono) (simp add: n(2))
  with h len s show ?thesis by auto
qed

end
