(* ===== verification/ResolveWitness.thy ===== *)
theory ResolveWitness
  imports NfpStore NfpWitness GridHull
begin

text \<open>
  The resolvers on concrete polygons: the first request computes and fills the cache, the second one is
  answered from it. The number rendering is one that keeps the contract of the keys.
\<close>

subsection \<open>A rendering of numbers\<close>

definition key_js :: "f64 \<Rightarrow> string" where
  "key_js v = (if js_safe_integer v then dec_int (as_i64 v) else tally_js v)"

lemma safe_value:
  assumes "js_safe_integer v" "f64_ok v"
  obtains i where "f64_val v = of_int i" "as_i64 v = i"
  using assms safe_integer_iff [OF assms(2)] as_i64_int_val [of v] unfolding js_safe_integer_eq
  by (auto simp: is_int_val_def)

lemma safe_eq: "feq a b \<Longrightarrow> f64_ok a \<Longrightarrow> f64_ok b \<Longrightarrow> js_safe_integer a \<longleftrightarrow> js_safe_integer b"
  unfolding js_safe_integer_eq using safe_integer_iff [of a] safe_integer_iff [of b]
  by (cases a; cases b) (auto simp: is_int_val_def)

lemma tally_chars: "\<exists>c \<in> set (tally_js v). c \<in> {CHR ''/'', CHR ''N'', CHR ''I''}"
proof (cases v)
  case (Finite s m)
  then have "CHR ''/'' \<in> set (tally_js v)" using tally_js_slash [of v] by simp
  then show ?thesis by blast
qed auto

lemma dec_int_not_tally: "dec_int i \<noteq> tally_js v"
proof
  assume "dec_int i = tally_js v"
  then obtain c where "c \<in> set (dec_int i)" "c \<in> {CHR ''/'', CHR ''N'', CHR ''I''}" using tally_chars [of v] by metis
  then show False using dec_int_chars [of c i] by (auto simp: is_digit_def)
qed

lemma tally_inject: "f64_ok a \<Longrightarrow> f64_ok b \<Longrightarrow> tally_js a = tally_js b \<longleftrightarrow> a = b \<or> feq a b"
  using tally_js_rendering unfolding js_rendering_def by blast

lemma tally_separators: "CHR '','' \<notin> set (tally_js a)" "CHR '';'' \<notin> set (tally_js a)"
  by (cases a; simp add: case_prod_beta del: f64_val.simps)+

lemma key_js_contract: "js_contract key_js"
proof -
  have "key_js a = key_js b \<longleftrightarrow> a = b \<or> feq a b" if ok: "f64_ok a" "f64_ok b" for a b
  proof (cases "js_safe_integer a"; cases "js_safe_integer b")
    assume s: "js_safe_integer a" "js_safe_integer b"
    obtain i where i: "f64_val a = of_int i" "as_i64 a = i" by (rule safe_value [OF s(1) ok(1)])
    obtain j where j: "f64_val b = of_int j" "as_i64 b = j" by (rule safe_value [OF s(2) ok(2)])
    have "is_finite a" "is_finite b" using s by (simp_all add: js_safe_integer_def)
    then have "feq a b \<longleftrightarrow> i = j" using i j by (simp add: feq_val)
    then show ?thesis using s i j dec_int_inject by (auto simp: key_js_def)
  next
    assume s: "js_safe_integer a" "\<not> js_safe_integer b"
    then show ?thesis using safe_eq ok dec_int_not_tally [of "as_i64 a" b] by (auto simp: key_js_def)
  next
    assume s: "\<not> js_safe_integer a" "js_safe_integer b"
    then show ?thesis using safe_eq ok dec_int_not_tally [of "as_i64 b" a] by (metis key_js_def)
  next
    assume "\<not> js_safe_integer a" "\<not> js_safe_integer b"
    then show ?thesis using tally_inject ok by (simp add: key_js_def)
  qed
  then show ?thesis using dec_int_separators tally_separators by (simp add: js_contract_def key_js_def)
qed

subsection \<open>The first entry of a store\<close>

lemma publish_first:
  assumes "store_rep [] s" "byte_cap s = 200" "c = 64"
    and "conservative_entry_charge (entry_bytes room) (node_bytes room) (text_room room (serialize_geometry_cache_key key))
      (text_room room (key_namespace key)) retained = c"
  shows "\<exists>s'. publish room key v retained s = Some s' \<and> found d key s' = d v"
proof -
  have "0 < unat c" by (simp add: assms(3))
  from store_rep_set [OF assms(1) this, of key v]
  obtain s' where s': "cache_set key v c s = Some (fst (lru_set 200 (serialize_geometry_cache_key key) (key_namespace key) v c []), s')"
    "store_rep (snd (lru_set 200 (serialize_geometry_cache_key key) (key_namespace key) v c [])) s'"
    by (auto simp: assms(2))
  have "snd (lru_set 200 (serialize_geometry_cache_key key) (key_namespace key) v c []) =
      [(serialize_geometry_cache_key key, v, c, key_namespace key)]"
    by (simp add: lru_set_def assms(3))
  with s' show ?thesis by (simp add: publish_def assms(4) found_lines lru_find_def)
qed

lemma probe_empty:
  assumes "store_rep [] s"
  shows "\<exists>s'. probe d key f s = Some (f None, s') \<and> store_rep [] s' \<and> byte_cap s' = byte_cap s"
  using store_rep_probe [OF assms, of d key f] by (simp add: lru_find_def lru_get_def)

lemma new_store: "store_rep [] (with_byte_cap 200)" "byte_cap (with_byte_cap 200) = 200"
  using store_rep_new [of 200] by (simp_all add: with_byte_cap_def)

subsection \<open>No-fit polygons\<close>

definition triangles :: "int \<Rightarrow> core_nfp_input" where
  "triangles x = \<lparr>nfp_fixed = (NfpCache.sample_piece big_triangle)\<lparr>piece_placement :=
      (piece_placement (NfpCache.sample_piece big_triangle))\<lparr>placement_transform :=
        (placement_transform (piece_placement (NfpCache.sample_piece big_triangle)))\<lparr>translate_x := fi x\<rparr>\<rparr>\<rparr>,
     nfp_moving = sample_geometry small_triangle, nfp_settings = NfpCache.sample_settings\<rparr>"

lemma triangles_polygons [simp]:
  "fixed_polygon (nfp_fixed (triangles x)) = big_triangle" "collision_polygon (nfp_moving (triangles x)) = small_triangle"
  by (simp_all add: triangles_def NfpCache.sample_piece_def sample_geometry_def fixed_polygon_def)

lemma triangles_key: "nfp_key js (triangles x) algorithm = nfp_key js (triangles 0) algorithm"
  by (simp add: triangles_def NfpCache.sample_piece_def sample_geometry_def fixed_polygon_def nfp_key_def)

lemma triangles_folded: "folded_request (triangles x)"
  by (simp add: folded_request_def folded_polygon_def big_triangle_def small_triangle_def folded_point_def folded_def
      fold_negative_zero_def gp_def) (simp add: fi_def)

lemma triangles_constructed:
  "\<exists>u. compute_relative_nfp_boundary sign_robust big_triangle small_triangle Vertex_Pair_Hull = Some (Inr u) \<and>
    is_valid_cached_nfp_boundary sign_robust (Some u)"
proof -
  have "\<forall>p \<in> set big_triangle \<union> set small_triangle. finite_point p" by (auto simp: big_triangle_def small_triangle_def)
  then obtain u where u: "compute_relative_nfp_boundary_reference sign_robust big_triangle small_triangle = Inr u"
    "validate_strict_boundary sign_robust u = Valid 1" "convex_ring 1 (ring u)"
    using nfp_reference_ring [of big_triangle small_triangle sign_robust 1 1] triangles_convex triangles_differ by auto
  moreover have "3 \<le> length u" using u(3) by (simp add: convex_ring_def)
  ultimately show ?thesis by (simp add: is_valid_cached_nfp_boundary_def)
qed

lemma triangles_valid:
  "\<exists>w. validate_strict_boundary sign_robust big_triangle = Valid w" "\<exists>w. validate_strict_boundary sign_robust small_triangle = Valid w"
  using strict_boundary_valid [of big_triangle sign_robust 1] strict_boundary_valid [of small_triangle sign_robust 1] triangles_convex
  by (auto simp: big_triangle_def small_triangle_def)

lemma miss_answer:
  assumes "validate_strict_boundary robust (fixed_polygon (nfp_fixed input)) = Valid w"
    and "validate_strict_boundary robust (collision_polygon (nfp_moving input)) = Valid w'"
    and "probe as_nfp (nfp_key js input algorithm) (\<lambda>cached. case cached of
       Some v \<Rightarrow> if is_valid_cached_nfp_boundary robust (Some v)
         then Valid_translated (translate_nfp_boundary robust (placement_transform (piece_placement (nfp_fixed input))) v)
         else Stale_present
     | None \<Rightarrow> Nothing_cached) s = Some (Nothing_cached, s1)"
    and "compute_relative_nfp_boundary robust (fixed_polygon (nfp_fixed input)) (collision_polygon (nfp_moving input)) algorithm = Some (Inr u)"
    and "publish room (nfp_key js input algorithm) (Nfp_value u) (charge_nfp_value room u) s1 = Some s2"
    and "translate_nfp_boundary robust (placement_transform (piece_placement (nfp_fixed input))) u = Some t"
  shows "resolve_nfp_boundary robust js room input algorithm s =
    Some (and_then t (\<lambda>boundary. Inr (boundary, nfp_key js input algorithm)), s2)"
  using assms
  by (simp add: resolve_nfp_boundary_def resolve_nfp_boundary_with_prepared_moving_def nfp_key_prepared [symmetric] nfp_recompute_def)

lemma first_request:
  "\<exists>r s u. resolve_nfp_boundary sign_robust key_js sample_room (triangles 0) Vertex_Pair_Hull (with_byte_cap 200) = Some (r, s) \<and>
    found as_nfp (nfp_key key_js (triangles 0) Vertex_Pair_Hull) s = Some u \<and> is_valid_cached_nfp_boundary sign_robust (Some u)"
proof -
  let ?key = "nfp_key key_js (triangles 0) Vertex_Pair_Hull"
  obtain w w' where v: "validate_strict_boundary sign_robust big_triangle = Valid w"
    "validate_strict_boundary sign_robust small_triangle = Valid w'" using triangles_valid by blast
  obtain u where u: "compute_relative_nfp_boundary sign_robust big_triangle small_triangle Vertex_Pair_Hull = Some (Inr u)"
    "is_valid_cached_nfp_boundary sign_robust (Some u)" using triangles_constructed by blast
  let ?f = "\<lambda>cached. case cached of
       Some v \<Rightarrow> if is_valid_cached_nfp_boundary sign_robust (Some v)
         then Valid_translated (translate_nfp_boundary sign_robust (placement_transform (piece_placement (nfp_fixed (triangles 0)))) v)
         else Stale_present
     | None \<Rightarrow> Nothing_cached"
  obtain s1 where s1: "probe as_nfp ?key ?f (with_byte_cap 200) = Some (Nothing_cached, s1)" "store_rep [] s1" "byte_cap s1 = 200"
    using probe_empty [OF new_store(1), of as_nfp ?key ?f] new_store(2) by auto
  have "conservative_entry_charge 0 0 0 0 (charge_nfp_value sample_room u) = 64"
    by (simp add: charge_nfp_value_def sample_room_def charge_nfp_polygon_def charge_value_with_vec_capacity_def capacity_charge_def
        charge_sum_def conservative_entry_charge_def checked_add_def checked_mul_def HASHMAP_ENTRY_OVERHEAD_BYTES_def)
  then obtain s2 where s2: "publish sample_room ?key (Nfp_value u) (charge_nfp_value sample_room u) s1 = Some s2"
    "found as_nfp ?key s2 = as_nfp (Nfp_value u)"
    using publish_first [OF s1(2,3) refl, of sample_room ?key "charge_nfp_value sample_room u" "Nfp_value u" as_nfp]
    by (auto simp: sample_room_def)
  obtain t where t: "translate_nfp_boundary sign_robust (placement_transform (piece_placement (nfp_fixed (triangles 0)))) u = Some t"
    using translate_some by blast
  have "resolve_nfp_boundary sign_robust key_js sample_room (triangles 0) Vertex_Pair_Hull (with_byte_cap 200) =
      Some (and_then t (\<lambda>boundary. Inr (boundary, ?key)), s2)"
    by (rule miss_answer [where w = w and w' = w', OF _ _ s1(1) _ s2(1) t]) (simp_all only: triangles_polygons v u(1))
  then show ?thesis using s2(2) u(2) by auto
qed

lemma nfp_resolution_transparent_witness:
  "\<exists>r s u r' s'. resolve_nfp_boundary sign_robust key_js sample_room (triangles 0) Vertex_Pair_Hull (with_byte_cap 200) = Some (r, s) \<and>
    found as_nfp (nfp_key key_js (triangles 5) Vertex_Pair_Hull) s = Some u \<and> is_valid_cached_nfp_boundary sign_robust (Some u) \<and>
    nfp_uncached sign_robust (triangles 5) Vertex_Pair_Hull = Some r' \<and>
    resolve_nfp_boundary sign_robust key_js sample_room (triangles 5) Vertex_Pair_Hull s =
      Some (and_then r' (\<lambda>boundary. Inr (boundary, nfp_key key_js (triangles 5) Vertex_Pair_Hull)), s')"
proof -
  obtain r s u where s: "resolve_nfp_boundary sign_robust key_js sample_room (triangles 0) Vertex_Pair_Hull (with_byte_cap 200) = Some (r, s)"
    "found as_nfp (nfp_key key_js (triangles 0) Vertex_Pair_Hull) s = Some u" "is_valid_cached_nfp_boundary sign_robust (Some u)"
    using first_request by blast
  have "entries_computed sign_robust key_js (with_byte_cap 200)" by (rule empty_computed) (rule empty_store)
  from nfp_resolution_transparent [OF empty_store(1) this key_js_contract triangles_folded [of 0], of sample_room]
  have "store_ok s" "entries_computed sign_robust key_js s" using s(1) by auto
  from nfp_resolution_transparent [OF this key_js_contract triangles_folded [of 5], of sample_room]
  obtain r' s' where "nfp_uncached sign_robust (triangles 5) Vertex_Pair_Hull = Some r'"
    "resolve_nfp_boundary sign_robust key_js sample_room (triangles 5) Vertex_Pair_Hull s =
      Some (and_then r' (\<lambda>boundary. Inr (boundary, nfp_key key_js (triangles 5) Vertex_Pair_Hull)), s')"
    by blast
  with s show ?thesis unfolding triangles_key [of key_js 5] by blast
qed

subsection \<open>Inner-fit bounds\<close>

definition kite_box :: ifp_bounds where
  "kite_box = \<lparr>ifp_sheet = key_sheet (sample_fit kite), ifp_moving_piece_id = ''a'',
    ifp_box = \<lparr>min_x = fi 0, min_y = fi 0, max_x = fi 1, max_y = fi 5\<rparr>\<rparr>"

lemma kite_fits: "compute_ifp_bounds sign_robust (sample_fit kite) = Inr kite_box"
proof -
  have "bounds_for_points kite = Some \<lparr>min_x = fi 0, min_y = fi 0, max_x = fi 8, max_y = fi 4\<rparr>"
    by (simp add: bounds_for_points_def kite_def point_bounds_def widen_def make_bounds_fi Let_def)
  moreover have "fold_negative_zero (fneg (fi 0)) = fi 0" by (simp add: fold_negative_zero_def fi_def)
  moreover have "fold_negative_zero (fsub (fi 9) (fi 8)) = fi 1" "fold_negative_zero (fsub (fi 9) (fi 4)) = fi 5"
    by (simp_all add: fold_negative_zero_def fi_zero)
  ultimately show ?thesis
    by (simp add: compute_ifp_bounds_def sample_fit_def sample_geometry_def kite_facts Let_def fi_numeral kite_box_def)
qed

lemma first_fit:
  "\<exists>r s. resolve_ifp_bounds sign_robust key_js sample_room (sample_fit kite) (with_byte_cap 200) = Some (r, s) \<and>
    found as_ifp (make_inner_fit_bounds_cache_key key_js (sample_fit kite)) s = Some kite_box"
proof -
  let ?key = "make_inner_fit_bounds_cache_key key_js (sample_fit kite)"
  obtain s1 where s1: "probe as_ifp ?key (\<lambda>cached. cached) (with_byte_cap 200) = Some (None, s1)" "store_rep [] s1" "byte_cap s1 = 200"
    using probe_empty [OF new_store(1), of as_ifp ?key "\<lambda>cached. cached"] new_store(2) by auto
  then have get: "cache_get as_ifp ?key (with_byte_cap 200) = Some (None, s1)" by (simp add: cache_get_def)
  have "conservative_entry_charge 0 0 0 0 (charge_ifp_value sample_room kite_box) = 64"
    by (simp add: charge_ifp_value_def sample_room_def charge_ifp_bounds_def charge_sum_def conservative_entry_charge_def
        checked_add_def HASHMAP_ENTRY_OVERHEAD_BYTES_def)
  then obtain s2 where "publish sample_room ?key (Ifp_value kite_box) (charge_ifp_value sample_room kite_box) s1 = Some s2"
    "found as_ifp ?key s2 = as_ifp (Ifp_value kite_box)"
    using publish_first [OF s1(2,3) refl, of sample_room ?key "charge_ifp_value sample_room kite_box" "Ifp_value kite_box" as_ifp]
    by (auto simp: sample_room_def)
  moreover have "validate_strict_boundary sign_robust (collision_polygon (key_moving (sample_fit kite))) = Valid 1"
    by (simp add: sample_fit_def sample_geometry_def kite_facts)
  ultimately show ?thesis using get kite_fits by (simp add: resolve_ifp_bounds_def ifp_recompute_def)
qed

lemma ifp_resolution_transparent_witness:
  "\<exists>r s u s'. resolve_ifp_bounds sign_robust key_js sample_room (sample_fit kite) (with_byte_cap 200) = Some (r, s) \<and>
    found as_ifp (make_inner_fit_bounds_cache_key key_js (sample_fit kite)) s = Some kite_box \<and>
    resolve_ifp_bounds sign_robust key_js sample_room (sample_fit kite) s =
      Some (Inr (u, make_inner_fit_bounds_cache_key key_js (sample_fit kite)), s') \<and> same_ifp_bounds u kite_box"
proof -
  obtain r s where s: "resolve_ifp_bounds sign_robust key_js sample_room (sample_fit kite) (with_byte_cap 200) = Some (r, s)"
    "found as_ifp (make_inner_fit_bounds_cache_key key_js (sample_fit kite)) s = Some kite_box"
    using first_fit by blast
  have "feasible_entries (with_byte_cap 200)" by (simp add: feasible_entries_def empty_store)
  moreover have f: "is_finite (domain_sheet_width (key_sheet (sample_fit kite)))" "is_finite (domain_sheet_height (key_sheet (sample_fit kite)))"
    by (simp_all add: sample_fit_def)
  ultimately have "store_ok s" "feasible_entries s"
    using ifp_resolution_transparent [OF empty_store(1), of "sample_fit kite" sign_robust key_js sample_room] s(1) by auto
  from ifp_resolution_transparent [OF this f, of sign_robust key_js sample_room] s
  show ?thesis unfolding kite_fits by auto
qed

end
