(* ===== verification/TransformGenerator.thy ===== *)
theory TransformGenerator
  imports Rotate Protocol
begin

text \<open>
  \<open>transforms/generator.rs\<close> and \<open>transforms/boundary_check.rs\<close>: the orientations a piece is tried in. The
  angles come from the orthogonal directions, from the edges of the collision polygon and from the
  settings; near duplicates are removed, the most significant one of each cluster stays, and a cap bounds
  the rest with their mirror images. The library's \<open>hypot\<close>, \<open>atan2\<close> and \<open>asin\<close> are the parameters
  \<open>fhypot\<close>, \<open>fatan2\<close> and \<open>fasin\<close>. The settings are the records of the protocol, which \<open>job.rs\<close> copies
  field by field.
\<close>

subsection \<open>The boundary check\<close>

text \<open>The local copy of the boundary validation: always with the sweep over all pairs of edges.\<close>

definition check_strict_boundary :: "robust \<Rightarrow> point list \<Rightarrow> strict_convex_boundary_validation" where
  "check_strict_boundary robust ps =
    (if length ps < 3 then Invalid ''polygon must contain at least three vertices.''
     else if list_ex (\<lambda>p. \<not> is_finite (px p) \<or> \<not> is_finite (py p)) ps then Invalid ''polygon coordinates must be finite.''
     else let edges = polygon_edges ps in
       if list_ex (\<lambda>(s, e). feq (px s) (px e) \<and> feq (py s) (py e)) edges
       then Invalid ''polygon must not repeat adjacent vertices.''
       else let turn_scan = scan_turns robust ps in
         if Convex.has_self_intersection robust edges
         then Invalid ''polygon must form a simple ring without self-intersections.''
         else case scan_failure turn_scan of
             Some failure \<Rightarrow> Invalid failure
           | None \<Rightarrow> (case scan_winding turn_scan of
               Some winding \<Rightarrow> Valid winding
             | None \<Rightarrow> Invalid ''polygon must have a non-zero area.''))"

subsection \<open>Data\<close>

definition DEGREES_PER_RADIAN :: f64 where
  "DEGREES_PER_RADIAN = fdiv (lit 180) F64_PI"

definition COMPACT_MAXIMUM_ANGLE_DEDUPLICATION_DEG :: f64 where
  "COMPACT_MAXIMUM_ANGLE_DEDUPLICATION_DEG = lit (51 / 1000)"

definition COMPACT_EDGE_SAG_MULTIPLIER :: f64 where
  "COMPACT_EDGE_SAG_MULTIPLIER = lit 4"

definition COMPACT_EDGE_SMALLER_DIMENSION_RATIO :: f64 where
  "COMPACT_EDGE_SMALLER_DIMENSION_RATIO = lit (1 / 100)"

record generate_transforms_input =
  gt_boundary :: polygon
  gt_allow_rotation :: bool
  gt_allow_mirror :: bool
  gt_geometry_settings :: geometry_settings
  gt_settings :: optimizer_settings

record geometry_input_error =
  gie_operation :: string
  gie_message :: string

record angle_candidate =
  angle_rotation_deg :: f64
  angle_reason :: transform_reason
  edge_length_mm :: f64
  source_ordinal :: int

record usable_edge =
  usable_rotation_deg :: f64
  usable_length_mm :: f64
  usable_source_ordinal :: int

record effective_transform_policy =
  minimum_edge_length_mm :: f64
  angle_deduplication_tolerance_deg :: f64

record transform_choice =
  choice_rotation_deg :: f64
  choice_reason :: transform_reason
  choice_mirrored :: bool

subsection \<open>Angles\<close>

definition normalize_rotation_deg :: "f64 \<Rightarrow> f64 option" where
  "normalize_rotation_deg rotation_deg =
    (if \<not> is_finite rotation_deg then None
     else let remainder = frem rotation_deg FULL_TURN;
              normalized = (if flt remainder f64_zero then fadd remainder FULL_TURN else remainder)
       in Some (fold_negative_zero normalized))"

definition circular_distance_deg :: "f64 \<Rightarrow> f64 \<Rightarrow> f64" where
  "circular_distance_deg first second = (let absolute_distance = fabs (fsub first second) in
    js_min absolute_distance (fsub FULL_TURN absolute_distance))"

fun reason_priority :: "transform_reason \<Rightarrow> int" where
  "reason_priority Orthogonal = 0"
| "reason_priority Edge_alignment = 1"
| "reason_priority Configured = 2"

definition ordering_from_diff :: "f64 \<Rightarrow> ordering" where
  "ordering_from_diff diff = (if flt f64_zero diff then Greater else if flt diff f64_zero then Less else Equal)"

definition compare_representative_significance :: "angle_candidate \<Rightarrow> angle_candidate \<Rightarrow> ordering" where
  "compare_representative_significance first second =
    (let priority_cmp = cmp_of (reason_priority (angle_reason first)) (reason_priority (angle_reason second)) in
     if priority_cmp \<noteq> Equal then priority_cmp
     else let length_cmp = fsub (edge_length_mm second) (edge_length_mm first) in
       if angle_reason first = Edge_alignment \<and> angle_reason second = Edge_alignment \<and> \<not> feq length_cmp f64_zero
       then ordering_from_diff length_cmp
       else let rotation_cmp = fsub (angle_rotation_deg first) (angle_rotation_deg second) in
         if \<not> feq rotation_cmp f64_zero then ordering_from_diff rotation_cmp
         else cmp_of (source_ordinal first) (source_ordinal second))"

definition compare_output_order :: "angle_candidate \<Rightarrow> angle_candidate \<Rightarrow> ordering" where
  "compare_output_order first second =
    (let priority_cmp = cmp_of (reason_priority (angle_reason first)) (reason_priority (angle_reason second)) in
     if priority_cmp \<noteq> Equal then priority_cmp
     else let rotation_cmp = fsub (angle_rotation_deg first) (angle_rotation_deg second) in
       if \<not> feq rotation_cmp f64_zero then ordering_from_diff rotation_cmp
       else let length_cmp = fsub (edge_length_mm second) (edge_length_mm first) in
         if \<not> feq length_cmp f64_zero then ordering_from_diff length_cmp
         else cmp_of (source_ordinal first) (source_ordinal second))"

subsection \<open>The policy\<close>

definition intrinsic_shared_archive_eligible :: "optimizer_settings \<Rightarrow> bool" where
  "intrinsic_shared_archive_eligible s =
    (if \<not> intrinsic_shared_archive_enabled s then False
     else if placement_policy_id s = ShortSideFill then False
     else \<not> ga_enabled s \<or> baseline_only s \<or> feq (ga_time_budget_ms s) f64_zero \<or>
       feq (ga_generation_budget s) f64_zero \<or> feq (ga_evaluation_budget s) f64_zero)"

text \<open>The width and the height of the bounds.\<close>

fun bounds_for_boundary :: "point list \<Rightarrow> string + f64 \<times> f64" where
  "bounds_for_boundary [] = Inl ''polygon boundary must contain points.''"
| "bounds_for_boundary (first # ps) =
    (let b = foldl widen (point_bounds first) ps;
         width_mm = fsub (max_x b) (min_x b); height_mm = fsub (max_y b) (min_y b)
     in if \<not> is_finite width_mm \<or> \<not> is_finite height_mm then Inl ''collision polygon bounds must be finite.''
        else Inr (width_mm, height_mm))"

definition derive_effective_transform_policy ::
    "(f64 \<Rightarrow> f64) \<Rightarrow> (f64 \<Rightarrow> f64 \<Rightarrow> f64) \<Rightarrow> geometry_settings \<Rightarrow> optimizer_settings \<Rightarrow> point list \<Rightarrow> string + effective_transform_policy" where
  "derive_effective_transform_policy fasin fhypot g s boundary =
    (if \<not> intrinsic_shared_archive_eligible s
     then Inr \<lparr>minimum_edge_length_mm = transform_minimum_edge_length_mm s,
       angle_deduplication_tolerance_deg = transform_angle_deduplication_tolerance_deg s\<rparr>
     else and_then (bounds_for_boundary boundary) (\<lambda>(width_mm, height_mm).
       let sag_mm = flattening_sag_tolerance_mm g;
           smaller_collision_dimension_mm = js_min width_mm height_mm;
           min_length = js_min (fmul COMPACT_EDGE_SAG_MULTIPLIER sag_mm)
             (fmul COMPACT_EDGE_SMALLER_DIMENSION_RATIO smaller_collision_dimension_mm);
           maximum_radius_mm = foldl (\<lambda>maximum p. js_max maximum (fhypot (px p) (py p))) f64_zero boundary;
           tolerance = (if feq maximum_radius_mm f64_zero then COMPACT_MAXIMUM_ANGLE_DEDUPLICATION_DEG
             else js_min COMPACT_MAXIMUM_ANGLE_DEDUPLICATION_DEG
               (fmul (fmul (lit 2) (fasin (js_min (lit 1) (fdiv sag_mm (fmul (lit 2) maximum_radius_mm))))) DEGREES_PER_RADIAN))
       in if \<not> is_finite min_length \<or> flt min_length f64_zero \<or> \<not> is_finite tolerance \<or> fle tolerance f64_zero
          then Inl ''adaptive transform tolerances must be finite and non-negative.''
          else Inr \<lparr>minimum_edge_length_mm = min_length, angle_deduplication_tolerance_deg = tolerance\<rparr>))"

definition effective_transform_angle_deduplication_tolerance_deg ::
    "(f64 \<Rightarrow> f64) \<Rightarrow> (f64 \<Rightarrow> f64 \<Rightarrow> f64) \<Rightarrow> geometry_settings \<Rightarrow> optimizer_settings \<Rightarrow> point list \<Rightarrow> string + f64" where
  "effective_transform_angle_deduplication_tolerance_deg fasin fhypot g s boundary =
    and_then (derive_effective_transform_policy fasin fhypot g s boundary) (\<lambda>p. Inr (angle_deduplication_tolerance_deg p))"

subsection \<open>The candidate angles\<close>

fun usable_edges_loop :: "(f64 \<Rightarrow> f64 \<Rightarrow> f64) \<Rightarrow> (f64 \<Rightarrow> f64 \<Rightarrow> f64) \<Rightarrow> f64 \<Rightarrow> (nat \<times> edge) list \<Rightarrow> string + usable_edge list" where
  "usable_edges_loop fatan2 fhypot minimum_length [] = Inr []"
| "usable_edges_loop fatan2 fhypot minimum_length ((index, (s, e)) # rest) =
    (let delta_x = fsub (px e) (px s); delta_y = fsub (py e) (py s); len = fhypot delta_x delta_y in
     if \<not> is_finite delta_x \<or> \<not> is_finite delta_y \<or> \<not> is_finite len
     then Inl ''derived polygon edge length must be finite.''
     else let direction_deg = fmul (fatan2 delta_y delta_x) DEGREES_PER_RADIAN in
       case normalize_rotation_deg (fneg direction_deg) of
         None \<Rightarrow> Inl ''derived polygon edge rotation must be finite.''
       | Some rotation_deg \<Rightarrow> and_then (usable_edges_loop fatan2 fhypot minimum_length rest) (\<lambda>edges.
           Inr (if fle minimum_length len
             then \<lparr>usable_rotation_deg = rotation_deg, usable_length_mm = len, usable_source_ordinal = int index\<rparr> # edges
             else edges)))"

definition derive_usable_edges :: "(f64 \<Rightarrow> f64 \<Rightarrow> f64) \<Rightarrow> (f64 \<Rightarrow> f64 \<Rightarrow> f64) \<Rightarrow> point list \<Rightarrow> f64 \<Rightarrow> string + usable_edge list" where
  "derive_usable_edges fatan2 fhypot ps minimum_length =
    usable_edges_loop fatan2 fhypot minimum_length (enumerate 0 (polygon_edges ps))"

definition orthogonal :: "f64 \<Rightarrow> int \<Rightarrow> angle_candidate" where
  "orthogonal rotation_deg n =
    \<lparr>angle_rotation_deg = rotation_deg, angle_reason = Orthogonal, edge_length_mm = f64_zero, source_ordinal = n\<rparr>"

definition transform_angle_candidates :: "bool \<Rightarrow> optimizer_settings \<Rightarrow> usable_edge list \<Rightarrow> angle_candidate list" where
  "transform_angle_candidates rotation_allowed s usable_edges =
    (if \<not> rotation_allowed then [orthogonal f64_zero 0]
     else [orthogonal f64_zero 0, orthogonal (lit 90) 1, orthogonal (lit 180) 2, orthogonal (lit 270) 3] @
       (if edge_alignment_enabled s
        then map (\<lambda>e. \<lparr>angle_rotation_deg = usable_rotation_deg e, angle_reason = Edge_alignment,
          edge_length_mm = usable_length_mm e, source_ordinal = usable_source_ordinal e\<rparr>) usable_edges
        else []) @
       (if configured_rotation_enabled s
        then map (\<lambda>(i, r). \<lparr>angle_rotation_deg = r, angle_reason = Configured, edge_length_mm = f64_zero,
          source_ordinal = int i\<rparr>) (enumerate 0 (configured_rotation_deg s))
        else []))"

fun normalize_candidates :: "angle_candidate list \<Rightarrow> string + angle_candidate list" where
  "normalize_candidates [] = Inr []"
| "normalize_candidates (c # cs) = (case normalize_rotation_deg (angle_rotation_deg c) of
     None \<Rightarrow> Inl ''derived transform rotation must be finite.''
   | Some rotation_deg \<Rightarrow> and_then (normalize_candidates cs) (\<lambda>ns. Inr (c\<lparr>angle_rotation_deg := rotation_deg\<rparr> # ns)))"

definition is_near_duplicate :: "f64 \<Rightarrow> angle_candidate \<Rightarrow> angle_candidate \<Rightarrow> bool" where
  "is_near_duplicate tolerance_deg candidate existing \<longleftrightarrow>
    \<not> (angle_reason candidate = Orthogonal \<and> angle_reason existing = Orthogonal) \<and>
    fle (circular_distance_deg (angle_rotation_deg existing) (angle_rotation_deg candidate)) tolerance_deg"

fun retain_loop :: "f64 \<Rightarrow> angle_candidate list \<Rightarrow> angle_candidate list \<Rightarrow> angle_candidate list" where
  "retain_loop tolerance_deg retained [] = retained"
| "retain_loop tolerance_deg retained (candidate # rest) =
    (if list_ex (is_near_duplicate tolerance_deg candidate) retained then retain_loop tolerance_deg retained rest
     else retain_loop tolerance_deg (retained @ [candidate]) rest)"

definition deduplicate_angles :: "angle_candidate list \<Rightarrow> f64 \<Rightarrow> string + angle_candidate list" where
  "deduplicate_angles raw_candidates tolerance_deg = and_then (normalize_candidates raw_candidates) (\<lambda>normalized.
    Inr (sort_by compare_output_order
      (retain_loop tolerance_deg [] (sort_by compare_representative_significance normalized))))"

subsection \<open>The choices\<close>

definition to_transform_choice :: "angle_candidate \<Rightarrow> bool \<Rightarrow> transform_choice" where
  "to_transform_choice candidate mirrored =
    (let rotation_deg = (if mirrored \<and> angle_reason candidate = Edge_alignment
       then (case normalize_rotation_deg (fsub (lit 180) (angle_rotation_deg candidate)) of
           Some r \<Rightarrow> r | None \<Rightarrow> angle_rotation_deg candidate)
       else angle_rotation_deg candidate)
     in \<lparr>choice_rotation_deg = rotation_deg, choice_reason = angle_reason candidate, choice_mirrored = mirrored\<rparr>)"

definition append_distinct_choice :: "f64 \<Rightarrow> transform_choice \<Rightarrow> transform_choice list \<Rightarrow> transform_choice list" where
  "append_distinct_choice tolerance_deg candidate choices =
    (if list_ex (\<lambda>existing. choice_mirrored existing = choice_mirrored candidate \<and>
        fle (circular_distance_deg (choice_rotation_deg existing) (choice_rotation_deg candidate)) tolerance_deg) choices
     then choices else choices @ [candidate])"

definition select_transform_choices :: "angle_candidate list \<Rightarrow> nat \<Rightarrow> bool \<Rightarrow> f64 \<Rightarrow> transform_choice list" where
  "select_transform_choices angles cap mirror_allowed tolerance_deg =
    (let baseline = filter (\<lambda>c. angle_reason c = Orthogonal) angles;
         others = filter (\<lambda>c. angle_reason c \<noteq> Orthogonal) angles;
         selected = take cap (map (\<lambda>c. to_transform_choice c False) baseline)
     in if cap \<le> length selected \<or> \<not> mirror_allowed
        then take cap (if \<not> mirror_allowed
          then selected @ take (cap - length selected) (map (\<lambda>c. to_transform_choice c False) others) else selected)
        else let extra_choices = foldl (\<lambda>extra c. append_distinct_choice tolerance_deg (to_transform_choice c False)
                 (append_distinct_choice tolerance_deg (to_transform_choice c True) extra)) [] others;
               extra_choices = foldl (\<lambda>extra c. append_distinct_choice tolerance_deg (to_transform_choice c True) extra)
                 extra_choices baseline
             in selected @ take (cap - length selected) extra_choices)"

definition positive_integer_setting_as_usize :: "f64 \<Rightarrow> nat" where
  "positive_integer_setting_as_usize v = (if fle v f64_zero then 0 else nat (as_int_in 0 18446744073709551615 v))"

definition numbered_choices :: "transform_choice list \<Rightarrow> transform_candidate list" where
  "numbered_choices choices = map (\<lambda>(index, c). \<lparr>candidate_index = lit (of_nat index), candidate_rotation_deg = choice_rotation_deg c,
    candidate_mirrored = choice_mirrored c, candidate_reason = choice_reason c\<rparr>) (enumerate 0 choices)"

definition generate_transforms ::
    "(f64 \<Rightarrow> f64 \<Rightarrow> f64) \<Rightarrow> (f64 \<Rightarrow> f64) \<Rightarrow> (f64 \<Rightarrow> f64 \<Rightarrow> f64) \<Rightarrow> robust \<Rightarrow> generate_transforms_input \<Rightarrow>
     geometry_input_error + transform_candidate list" where
  "generate_transforms fatan2 fasin fhypot robust input =
    (let boundary = gt_boundary input;
         fail = (\<lambda>message. Inl \<lparr>gie_operation = ''generateTransforms'', gie_message = message\<rparr>)
     in case check_strict_boundary robust boundary of
       Invalid message \<Rightarrow> fail message
     | Valid winding \<Rightarrow> case derive_effective_transform_policy fasin fhypot (gt_geometry_settings input) (gt_settings input) boundary of
         Inl message \<Rightarrow> fail message
       | Inr policy \<Rightarrow> case derive_usable_edges fatan2 fhypot boundary (minimum_edge_length_mm policy) of
           Inl message \<Rightarrow> fail message
         | Inr usable_edges \<Rightarrow>
             case deduplicate_angles (transform_angle_candidates (gt_allow_rotation input) (gt_settings input) usable_edges)
               (angle_deduplication_tolerance_deg policy) of
             Inl message \<Rightarrow> fail message
           | Inr kept \<Rightarrow> Inr (numbered_choices (select_transform_choices kept
               (positive_integer_setting_as_usize (transform_cap (gt_settings input))) (gt_allow_mirror input)
               (angle_deduplication_tolerance_deg policy))))"

subsection \<open>Values on the grid of the floats\<close>

text \<open>Every float is a multiple of the least positive one, and so are the sums and remainders formed here.\<close>

definition on_grid :: "rat \<Rightarrow> bool" where
  "on_grid q \<longleftrightarrow> (\<exists>N :: int. q = of_int N * f64_unit)"

fun grid_value :: "f64 \<Rightarrow> bool" where
  "grid_value (Finite s m) = (0 \<le> m \<and> on_grid m)"
| "grid_value _ = True"

definition angle_ok :: "f64 \<Rightarrow> bool" where
  "angle_ok x \<longleftrightarrow> (\<exists>v. x = Finite False v \<and> 0 \<le> v \<and> v \<le> 360 \<and> on_grid v)"

lemma on_grid_diff: "on_grid a \<Longrightarrow> on_grid b \<Longrightarrow> on_grid (a - b)"
  unfolding on_grid_def by (metis left_diff_distrib of_int_diff)

lemma on_grid_minus [simp]: "on_grid (- a) \<longleftrightarrow> on_grid a"
  unfolding on_grid_def by (metis minus_minus mult_minus_left of_int_minus)

lemma on_grid_mult: "on_grid a \<Longrightarrow> on_grid (a * of_int k)"
  unfolding on_grid_def by (metis mult.assoc mult.commute of_int_mult)

lemma on_grid_numeral [simp]: "on_grid 0" "on_grid (numeral n)"
proof -
  show "on_grid 0" unfolding on_grid_def by (rule exI [of _ 0]) simp
  have "on_grid 1" using one_grid unfolding on_grid_def by metis
  then show "on_grid (numeral n)" using on_grid_mult [of 1 "numeral n"] by simp
qed

lemma f64_ok_grid_value: "f64_ok x \<Longrightarrow> grid_value x"
proof (cases x)
  case (Finite s m)
  assume "f64_ok x"
  then have "f64_ok (Finite s m)" "0 \<le> m" using Finite by simp_all
  from this(1) obtain N :: int where "m = of_int N * f64_unit" by (rule f64_ok_grid)
  then show ?thesis using \<open>0 \<le> m\<close> Finite by (auto simp: on_grid_def)
qed simp_all

lemma angle_ok_grid_value: "angle_ok x \<Longrightarrow> grid_value x \<and> is_finite x"
  by (auto simp: angle_ok_def)

lemma on_grid_round: "0 \<le> d \<Longrightarrow> round_mag d < f64_top \<Longrightarrow> on_grid (round_mag d)"
  using f64_ok_grid_value [OF f64_ok_round_to [of d False]] by (simp add: round_to_def)

lemma normalize_rotation_deg_normalized:
  "normalize_rotation_deg x = (if is_finite x then Some (fold_negative_zero (normalize_rotation_degrees x)) else None)"
  by (simp add: normalize_rotation_deg_def normalize_rotation_degrees_def Let_def)

lemma normalize_angle_ok:
  assumes "grid_value x" "normalize_rotation_deg x = Some r"
  shows "angle_ok r"
proof -
  obtain s m where x: "x = Finite s m" "0 \<le> m" "on_grid m"
    using assms by (cases x) (auto simp: normalize_rotation_deg_def)
  obtain t v where n: "normalize_rotation_degrees x = Finite t v" and v: "0 \<le> v" "v \<le> 360" "t \<longrightarrow> v = 0"
    and d: "v = m - 360 * of_int \<lfloor>m / 360\<rfloor> \<or> (\<exists>d \<ge> 0. v = round_mag d)"
    using normalized_turn [OF x(2), of s] unfolding x(1) by blast
  have "v < f64_top" using v(2) by (simp add: f64_top_def)
  then have "on_grid v"
    using d on_grid_diff [OF x(3) on_grid_mult [of 360 "\<lfloor>m / 360\<rfloor>"]] on_grid_round by auto
  moreover have "r = Finite False v" using assms(2) n v(3) x(1)
    by (cases t) (auto simp: normalize_rotation_deg_normalized fold_negative_zero_def split: if_splits)
  ultimately show ?thesis using v by (simp add: angle_ok_def)
qed

lemma diff_ordering:
  assumes "is_finite a" "is_finite b" "grid_value a" "grid_value b"
  shows "feq (fsub a b) f64_zero \<longleftrightarrow> f64_val a = f64_val b" "ordering_from_diff (fsub a b) = cmp_of (f64_val a) (f64_val b)"
proof -
  obtain s m t n where ab: "a = Finite s m" "b = Finite t n" using assms by (cases a; cases b) auto
  let ?v = "f64_val a - f64_val b"
  have e: "fsub a b = (if ?v = 0 then Finite (s \<and> \<not> t) 0 else round_to (?v < 0) \<bar>?v\<bar>)"
    by (cases t) (simp_all add: ab fsub_def Let_def)
  have "on_grid (f64_val a)" "on_grid (f64_val b)" using assms(3,4) by (simp_all add: ab)
  then have "on_grid \<bar>?v\<bar>" using on_grid_diff [of "f64_val a" "f64_val b"] on_grid_diff [of "f64_val b" "f64_val a"] by (simp add: abs_if)
  then have p: "0 < round_mag \<bar>?v\<bar>" if "?v \<noteq> 0" using that round_mag_pos_grid [of "\<bar>?v\<bar>"] by (auto simp: on_grid_def)
  have "feq (fsub a b) f64_zero = (?v = 0) \<and> flt f64_zero (fsub a b) = (0 < ?v) \<and> flt (fsub a b) f64_zero = (?v < 0)"
  proof (cases "?v = 0")
    case False
    then have r: "fsub a b = round_to (?v < 0) \<bar>?v\<bar>" unfolding e by (simp only: if_False)
    show ?thesis unfolding r using p [OF False] False
      by (cases "?v < 0"; cases "round_mag \<bar>?v\<bar> < f64_top") (simp_all add: round_to_def Let_def)
  qed (simp add: e)
  then show "feq (fsub a b) f64_zero \<longleftrightarrow> f64_val a = f64_val b" "ordering_from_diff (fsub a b) = cmp_of (f64_val a) (f64_val b)"
    by (auto simp: ordering_from_diff_def cmp_of_def)
qed

lemma circular_distance_sym: "circular_distance_deg a b = circular_distance_deg b a"
proof -
  have "fabs (fsub a b) = fabs (fsub b a)"
    by (cases a; cases b) (auto simp: fsub_def round_to_def Let_def abs_minus_commute add.commute)
  then show ?thesis by (simp add: circular_distance_deg_def)
qed

subsection \<open>The two orders\<close>

definition candidate_ok :: "angle_candidate \<Rightarrow> bool" where
  "candidate_ok c \<longleftrightarrow> angle_ok (angle_rotation_deg c) \<and> is_finite (edge_length_mm c) \<and> grid_value (edge_length_mm c)"

abbreviation by_priority :: "angle_candidate \<Rightarrow> angle_candidate \<Rightarrow> ordering" where
  "by_priority a b \<equiv> cmp_of (reason_priority (angle_reason a)) (reason_priority (angle_reason b))"

abbreviation by_rotation :: "angle_candidate \<Rightarrow> angle_candidate \<Rightarrow> ordering" where
  "by_rotation a b \<equiv> cmp_of (f64_val (angle_rotation_deg a)) (f64_val (angle_rotation_deg b))"

definition significant_length :: "angle_candidate \<Rightarrow> rat" where
  "significant_length c = (if angle_reason c = Edge_alignment then f64_val (edge_length_mm c) else 0)"

lemma reason_priority_inject: "reason_priority r = reason_priority r' \<longleftrightarrow> r = r'"
  by (cases r; cases r') simp_all

lemma cmp_of_equal_iff: "cmp_of a b = Equal \<longleftrightarrow> a = b"
  by (auto simp: cmp_of_def)

lemma orders_by_value:
  assumes "candidate_ok a" "candidate_ok b"
  shows "compare_representative_significance a b = then_with (by_priority a b)
      (then_with (cmp_of (significant_length b) (significant_length a))
        (then_with (by_rotation a b) (cmp_of (source_ordinal a) (source_ordinal b))))"
    "compare_output_order a b = then_with (by_priority a b)
      (then_with (by_rotation a b)
        (then_with (cmp_of (f64_val (edge_length_mm b)) (f64_val (edge_length_mm a))) (cmp_of (source_ordinal a) (source_ordinal b))))"
proof -
  note ok = assms [unfolded candidate_ok_def]
  have rot: "feq (fsub (angle_rotation_deg a) (angle_rotation_deg b)) f64_zero \<longleftrightarrow> by_rotation a b = Equal"
    "ordering_from_diff (fsub (angle_rotation_deg a) (angle_rotation_deg b)) = by_rotation a b"
    using diff_ordering [of "angle_rotation_deg a" "angle_rotation_deg b"] ok angle_ok_grid_value by (auto simp: cmp_of_equal_iff)
  let ?c = "cmp_of (f64_val (edge_length_mm b)) (f64_val (edge_length_mm a))"
  have len: "feq (fsub (edge_length_mm b) (edge_length_mm a)) f64_zero \<longleftrightarrow> ?c = Equal"
    "ordering_from_diff (fsub (edge_length_mm b) (edge_length_mm a)) = ?c"
    using diff_ordering [of "edge_length_mm b" "edge_length_mm a"] ok by (auto simp: cmp_of_equal_iff)
  have chain: "(if \<not> x = Equal then x else y) = then_with x y" for x y by (cases x) simp_all
  show "compare_output_order a b = then_with (by_priority a b) (then_with (by_rotation a b)
      (then_with ?c (cmp_of (source_ordinal a) (source_ordinal b))))"
    by (simp only: compare_output_order_def Let_def rot len chain)
  have sig: "cmp_of (significant_length b) (significant_length a) =
      (if angle_reason a = Edge_alignment \<and> angle_reason b = Edge_alignment then ?c else Equal)" if "angle_reason a = angle_reason b"
    using that by (simp add: significant_length_def cmp_of_equal_iff)
  show "compare_representative_significance a b = then_with (by_priority a b)
      (then_with (cmp_of (significant_length b) (significant_length a))
        (then_with (by_rotation a b) (cmp_of (source_ordinal a) (source_ordinal b))))"
  proof (cases "angle_reason a = angle_reason b")
    case True
    then have e: "by_priority a b = Equal" by (simp add: cmp_of_equal_iff)
    have "compare_representative_significance a b =
        (if angle_reason a = Edge_alignment \<and> angle_reason b = Edge_alignment \<and> \<not> ?c = Equal then ?c
         else then_with (by_rotation a b) (cmp_of (source_ordinal a) (source_ordinal b)))"
      by (simp only: compare_representative_significance_def Let_def rot len chain e then_with.simps(1))
    then show ?thesis unfolding sig [OF True] e by (cases ?c) simp_all
  next
    case False
    then have "by_priority a b \<noteq> Equal" by (simp add: cmp_of_equal_iff reason_priority_inject)
    then show ?thesis by (cases "by_priority a b") (simp_all add: compare_representative_significance_def)
  qed
qed

interpretation significance: comparator "Collect candidate_ok" compare_representative_significance
  by (rule comparator_cong [OF _ orders_by_value(1)])
    (intro comparator_then_with comparator_linorder_key comparator_reverse, simp_all)

interpretation output_order: comparator "Collect candidate_ok" compare_output_order
  by (rule comparator_cong [OF _ orders_by_value(2)])
    (intro comparator_then_with comparator_linorder_key comparator_reverse, simp_all)

subsection \<open>Removing near duplicates\<close>

definition far :: "f64 \<Rightarrow> angle_candidate \<Rightarrow> angle_candidate \<Rightarrow> bool" where
  "far tolerance_deg a b \<longleftrightarrow> \<not> is_near_duplicate tolerance_deg a b"

lemma far_sym: "far t a b \<Longrightarrow> far t b a"
  by (auto simp: far_def is_near_duplicate_def circular_distance_sym)

lemma sorted_wrt_mset:
  assumes sym: "\<And>a b. P a b \<Longrightarrow> P b a"
  shows "mset xs = mset ys \<Longrightarrow> sorted_wrt P xs \<Longrightarrow> sorted_wrt P ys"
proof (induction xs arbitrary: ys)
  case (Cons x xs)
  have "x \<in> set ys" using Cons.prems(1) by (metis list.set_intros(1) set_mset_mset)
  then obtain us vs where ys: "ys = us @ x # vs" by (meson split_list)
  then have m: "mset xs = mset (us @ vs)" using Cons.prems(1) by simp
  then have s: "sorted_wrt P (us @ vs)" using Cons by simp
  have "set (us @ vs) = set xs" using m by (metis set_mset_mset)
  then have "\<forall>z \<in> set (us @ vs). P x z" using Cons.prems(2) by simp
  then show ?case using s sym by (simp add: ys sorted_wrt_append)
qed simp

lemma retain_far:
  "sorted_wrt (far t) rs \<Longrightarrow> sorted_wrt (far t) (retain_loop t rs cs)"
proof (induction t rs cs rule: retain_loop.induct)
  case (2 t rs c cs)
  have "sorted_wrt (far t) (rs @ [c])" if "\<not> list_ex (is_near_duplicate t c) rs"
  proof -
    have "far t c r" if "r \<in> set rs" for r using that \<open>\<not> list_ex (is_near_duplicate t c) rs\<close> by (simp add: list_ex_iff far_def)
    then show ?thesis using 2(3) far_sym by (simp add: sorted_wrt_append)
  qed
  then show ?case using 2 by simp
qed simp

lemma retain_set: "set rs \<subseteq> set (retain_loop t rs cs) \<and> set (retain_loop t rs cs) \<subseteq> set rs \<union> set cs"
  by (induction t rs cs rule: retain_loop.induct) auto

lemma retain_covers:
  assumes "sorted_cmp cmp (rs @ cs)" "c \<in> set cs"
  shows "c \<in> set (retain_loop t rs cs) \<or>
    (\<exists>r \<in> set (retain_loop t rs cs). is_near_duplicate t c r \<and> cmp r c \<noteq> Greater)"
  using assms
proof (induction t rs cs rule: retain_loop.induct)
  case (2 t rs d cs)
  show ?case
  proof (cases "list_ex (is_near_duplicate t d) rs")
    case True
    then obtain r where r: "r \<in> set rs" "is_near_duplicate t d r" by (auto simp: list_ex_iff)
    then have "cmp r d \<noteq> Greater" "r \<in> set (retain_loop t rs (d # cs))"
      using 2(3) retain_set [of rs t "d # cs"] by (auto simp: sorted_wrt_append)
    moreover have "sorted_cmp cmp (rs @ cs)" using 2(3) by (auto simp: sorted_wrt_append)
    ultimately show ?thesis using 2 True r by auto
  next
    case False
    then have "d \<in> set (retain_loop t rs (d # cs))" using retain_set [of "rs @ [d]" t cs] by auto
    then show ?thesis using 2 False by auto
  qed
qed simp

lemma retain_orthogonal:
  assumes "sorted_wrt (\<lambda>a b. by_priority a b \<noteq> Greater) (rs @ cs)"
  shows "filter (\<lambda>c. angle_reason c = Orthogonal) (retain_loop t rs cs) = filter (\<lambda>c. angle_reason c = Orthogonal) (rs @ cs)"
  using assms
proof (induction t rs cs rule: retain_loop.induct)
  case (2 t rs c cs)
  have p: "angle_reason r = Orthogonal" if "r \<in> set rs" "angle_reason c = Orthogonal" for r
    using 2(3) that by (cases "angle_reason r") (auto simp: sorted_wrt_append cmp_of_def split: if_splits)
  have "\<not> list_ex (is_near_duplicate t c) rs" if "angle_reason c = Orthogonal"
    using p that by (auto simp: list_ex_iff is_near_duplicate_def)
  then show ?case using 2 by (cases "angle_reason c = Orthogonal") (auto simp: sorted_wrt_append)
qed simp

definition raw_ok :: "angle_candidate \<Rightarrow> bool" where
  "raw_ok c \<longleftrightarrow> grid_value (angle_rotation_deg c) \<and> is_finite (edge_length_mm c) \<and> grid_value (edge_length_mm c)"

lemma normalize_candidates_ok:
  "normalize_candidates cs = Inr ns \<Longrightarrow> \<forall>c \<in> set cs. raw_ok c \<Longrightarrow>
    (\<forall>n \<in> set ns. candidate_ok n) \<and> map angle_reason ns = map angle_reason cs"
proof (induction cs arbitrary: ns)
  case (Cons c cs)
  obtain r where r: "normalize_rotation_deg (angle_rotation_deg c) = Some r"
    using Cons.prems(1) by (cases "normalize_rotation_deg (angle_rotation_deg c)") simp_all
  obtain ms where ms: "normalize_candidates cs = Inr ms" using Cons.prems(1) r by (cases "normalize_candidates cs") simp_all
  have ns: "ns = c\<lparr>angle_rotation_deg := r\<rparr> # ms" using Cons.prems(1) r ms by simp
  have "angle_ok r" using normalize_angle_ok [OF _ r] Cons.prems(2) by (simp add: raw_ok_def)
  then have "candidate_ok (c\<lparr>angle_rotation_deg := r\<rparr>)" using Cons.prems(2) by (simp add: candidate_ok_def raw_ok_def)
  moreover have "(\<forall>n \<in> set ms. candidate_ok n) \<and> map angle_reason ms = map angle_reason cs" using Cons.IH [OF ms] Cons.prems(2) by simp
  ultimately show ?case unfolding ns by simp
qed simp

lemma normalize_candidates_append:
  "normalize_candidates (xs @ ys) = and_then (normalize_candidates xs) (\<lambda>a. and_then (normalize_candidates ys) (\<lambda>b. Inr (a @ b)))"
proof (induction xs)
  case (Cons x xs)
  then show ?case
    by (cases "normalize_rotation_deg (angle_rotation_deg x)"; cases "normalize_candidates xs"; cases "normalize_candidates ys") simp_all
qed (cases "normalize_candidates ys"; simp)

lemma filter_reason_map: "map angle_reason xs = map angle_reason ys \<Longrightarrow>
    filter (\<lambda>c. angle_reason c = Orthogonal) ys = [] \<Longrightarrow> filter (\<lambda>c. angle_reason c = Orthogonal) xs = []"
  by (induction xs ys rule: list_induct2') (auto split: if_splits)

lemma deduplicate_facts:
  assumes d: "deduplicate_angles raw t = Inr kept" and n: "normalize_candidates raw = Inr ns" and ok: "\<forall>c \<in> set raw. raw_ok c"
  shows "set kept \<subseteq> set ns" "sorted_cmp compare_output_order kept" "sorted_wrt (far t) kept"
    "c \<in> set ns \<Longrightarrow> c \<in> set kept \<or> (\<exists>r \<in> set kept. is_near_duplicate t c r \<and> compare_representative_significance r c \<noteq> Greater)"
    "mset (filter (\<lambda>c. angle_reason c = Orthogonal) kept) = mset (filter (\<lambda>c. angle_reason c = Orthogonal) ns)"
proof -
  let ?s = "sort_by compare_representative_significance ns" and ?P = "\<lambda>c. angle_reason c = Orthogonal"
  let ?r = "retain_loop t [] ?s"
  have k: "kept = sort_by compare_output_order ?r" using d n by (simp add: deduplicate_angles_def)
  have s: "set ns \<subseteq> Collect candidate_ok" using normalize_candidates_ok [OF n ok] by auto
  show sub: "set kept \<subseteq> set ns" using retain_set [of "[]" t ?s] by (auto simp: k)
  show "sorted_cmp compare_output_order kept"
    unfolding k using sub s by (intro output_order.sorted_sort_by) (auto simp: k)
  have "sorted_wrt (far t) ?r" by (rule retain_far) simp
  then show "sorted_wrt (far t) kept" unfolding k by (rule sorted_wrt_mset [rotated 2]) (auto intro: far_sym)
  have sig: "sorted_cmp compare_representative_significance ?s" by (rule significance.sorted_sort_by [OF s])
  show "c \<in> set kept \<or> (\<exists>r \<in> set kept. is_near_duplicate t c r \<and> compare_representative_significance r c \<noteq> Greater)" if "c \<in> set ns"
    using retain_covers [of compare_representative_significance "[]" ?s c t] sig that by (simp add: k)
  have "by_priority a b \<noteq> Greater" if "a \<in> set ?s" "b \<in> set ?s" "compare_representative_significance a b \<noteq> Greater" for a b
  proof -
    have "candidate_ok a" "candidate_ok b" using that(1,2) s by auto
    then show ?thesis using that(3) by (simp add: orders_by_value(1) then_with_eq_Greater)
  qed
  then have "sorted_wrt (\<lambda>a b. by_priority a b \<noteq> Greater) ([] @ ?s)"
    using sig by (auto intro: sorted_wrt_mono_rel [rotated])
  then have "filter ?P ?r = filter ?P ?s" using retain_orthogonal by fastforce
  then show "mset (filter ?P kept) = mset (filter ?P ns)" unfolding k by (metis mset_filter mset_sort_by)
qed



subsection \<open>The orthogonal candidates\<close>

lemma normalize_small: "0 \<le> m \<Longrightarrow> m < 360 \<Longrightarrow> normalize_rotation_deg (Finite False m) = Some (Finite False m)"
proof -
  assume "0 \<le> m" "m < 360"
  then have "\<lfloor>m / 360\<rfloor> = 0" by (simp add: floor_eq_iff)
  then show ?thesis using \<open>0 \<le> m\<close>
    by (auto simp: normalize_rotation_deg_def full_turn fold_negative_zero_def Let_def)
qed

lemma lit_angles: "lit 90 = Finite False 90" "lit 180 = Finite False 180" "lit 270 = Finite False 270"
  using lit_nat [of 90] lit_nat [of 180] lit_nat [of 270] by simp_all

lemma lit_zero: "lit 0 = f64_zero"
  by (simp add: lit_def round_to_def f64_top_def)

definition orthogonals :: "bool \<Rightarrow> angle_candidate list" where
  "orthogonals rotation_allowed = (if rotation_allowed
    then [orthogonal f64_zero 0, orthogonal (lit 90) 1, orthogonal (lit 180) 2, orthogonal (lit 270) 3] else [orthogonal f64_zero 0])"

lemma normalize_orthogonals: "normalize_candidates (orthogonals b) = Inr (orthogonals b)"
  by (simp add: orthogonals_def orthogonal_def lit_angles normalize_small)

lemma sorted_orthogonals: "sorted_cmp compare_output_order (orthogonals b)"
proof -
  have "candidate_ok (orthogonal f64_zero 0)" "candidate_ok (orthogonal (lit 90) 1)" "candidate_ok (orthogonal (lit 180) 2)"
    "candidate_ok (orthogonal (lit 270) 3)"
    by (simp_all add: candidate_ok_def orthogonal_def angle_ok_def lit_angles)
  then show ?thesis by (simp add: orthogonals_def orders_by_value(2)) (simp add: orthogonal_def lit_angles cmp_of_def)
qed

lemma raw_candidates:
  obtains rest where "transform_angle_candidates b s es = orthogonals b @ rest" "filter (\<lambda>c. angle_reason c = Orthogonal) rest = []" "b \<or> rest = []"
  by (rule that [of "drop (length (orthogonals b)) (transform_angle_candidates b s es)"])
    (auto simp: transform_angle_candidates_def orthogonals_def filter_empty_conv)

lemma kept_orthogonals:
  assumes d: "deduplicate_angles (transform_angle_candidates b s es) t = Inr kept" and ok: "\<forall>c \<in> set (transform_angle_candidates b s es). raw_ok c"
  shows "filter (\<lambda>c. angle_reason c = Orthogonal) kept = orthogonals b" "\<not> b \<Longrightarrow> kept = orthogonals b"
proof -
  let ?P = "\<lambda>c. angle_reason c = Orthogonal"
  obtain rest where raw: "transform_angle_candidates b s es = orthogonals b @ rest" "filter ?P rest = []" "b \<or> rest = []"
    by (rule raw_candidates [of b s es])
  obtain ns where n: "normalize_candidates (transform_angle_candidates b s es) = Inr ns"
    using d by (auto simp: deduplicate_angles_def and_then_Inr_iff)
  then obtain ms where ms: "normalize_candidates rest = Inr ms" "ns = orthogonals b @ ms"
    unfolding raw normalize_candidates_append normalize_orthogonals by (auto simp: and_then_Inr_iff)
  note f = deduplicate_facts [OF d n ok]
  have "filter ?P ms = []" using filter_reason_map normalize_candidates_ok [OF ms(1)] ok raw by auto
  moreover have "filter ?P (orthogonals b) = orthogonals b" by (simp add: orthogonals_def orthogonal_def)
  ultimately have m: "mset (filter ?P kept) = mset (orthogonals b)" using f(5) ms(2) by simp
  have o: "set (orthogonals b) \<subseteq> Collect candidate_ok" using normalize_candidates_ok [OF n ok] ms(2) by auto
  have u: "x = y" if "x \<in> set (orthogonals b)" "y \<in> set (orthogonals b)" "compare_output_order x y = Equal" for x y
  proof -
    have "candidate_ok x" "candidate_ok y" using that(1,2) o by auto
    then have "by_rotation x y = Equal" using that(3) by (simp add: orders_by_value(2) then_with_eq_Equal)
    then show ?thesis using that(1,2) by (auto simp: orthogonals_def orthogonal_def lit_angles cmp_of_def split: if_splits)
  qed
  have s: "set (filter ?P kept) = set (orthogonals b)" using m by (metis set_mset_mset)
  show "filter ?P kept = orthogonals b"
    by (rule output_order.sorted_unique [OF m], simp_all only: s o u sorted_orthogonals sorted_wrt_filter [OF f(2)])
  show "kept = orthogonals b" if "\<not> b"
  proof -
    have "ns = orthogonals b" using ms raw(3) that by simp
    then have "\<forall>c \<in> set kept. ?P c" using f(1) by (auto simp: orthogonals_def orthogonal_def split: if_splits)
    then have "filter ?P kept = kept" by (simp add: filter_id_conv)
    then show ?thesis using \<open>filter ?P kept = orthogonals b\<close> by simp
  qed
qed

subsection \<open>The raw candidates\<close>

lemma f64_ok_degrees_per_radian: "f64_ok DEGREES_PER_RADIAN"
proof -
  have "round_mag (884279719003555 / 281474976710656) = 884279719003555 / 281474976710656"
    by (rule round_mag_exact [of _ 884279719003555 "- 48"]) (simp_all add: power_int_minus)
  then have "f64_ok F64_PI" by (simp add: F64_PI_def f64_top_def)
  then show ?thesis by (simp add: DEGREES_PER_RADIAN_def f64_ok_fdiv)
qed

definition usable_ok :: "usable_edge \<Rightarrow> bool" where
  "usable_ok e \<longleftrightarrow> angle_ok (usable_rotation_deg e) \<and> is_finite (usable_length_mm e) \<and> grid_value (usable_length_mm e)"

lemma usable_edges_ok:
  assumes "\<forall>a b. f64_ok (fatan2 a b)" "\<forall>a b. f64_ok (fhypot a b)"
  shows "usable_edges_loop fatan2 fhypot m edges = Inr es \<Longrightarrow> \<forall>e \<in> set es. usable_ok e"
proof (induction edges arbitrary: es)
  case (Cons x rest)
  obtain i s e where x: "x = (i, s, e)" by (rule prod_cases3)
  note prems = Cons.prems [unfolded x]
  let ?dx = "fsub (px e) (px s)" and ?dy = "fsub (py e) (py s)"
  let ?l = "fhypot ?dx ?dy" and ?d = "fneg (fmul (fatan2 ?dy ?dx) DEGREES_PER_RADIAN)"
  have fin: "is_finite ?dx" "is_finite ?dy" "is_finite ?l" using prems by (auto simp: Let_def split: if_splits)
  obtain r where r: "normalize_rotation_deg ?d = Some r"
    using prems fin by (cases "normalize_rotation_deg ?d") (simp_all add: Let_def)
  obtain fs where fs: "usable_edges_loop fatan2 fhypot m rest = Inr fs"
    using prems fin r by (cases "usable_edges_loop fatan2 fhypot m rest") (simp_all add: Let_def)
  have "f64_ok ?d" using assms(1) f64_ok_fmul f64_ok_degrees_per_radian by simp
  then have "grid_value ?d" by (rule f64_ok_grid_value)
  then have "usable_ok \<lparr>usable_rotation_deg = r, usable_length_mm = ?l, usable_source_ordinal = int i\<rparr>"
    using normalize_angle_ok [OF _ r] fin(3) assms(2) f64_ok_grid_value by (simp add: usable_ok_def)
  moreover have "\<forall>e \<in> set fs. usable_ok e" using Cons.IH [OF fs] .
  ultimately show ?case using prems fin r fs by (auto simp: Let_def split: if_splits)
qed simp

lemma raw_candidates_ok:
  assumes "\<forall>e \<in> set es. usable_ok e" "\<forall>r \<in> set (configured_rotation_deg s). f64_ok r"
  shows "\<forall>c \<in> set (transform_angle_candidates b s es). raw_ok c"
proof -
  have "\<forall>(i, r) \<in> set (enumerate 0 (configured_rotation_deg s)). grid_value r"
    using assms(2) f64_ok_grid_value by (auto simp: in_set_enumerate_eq)
  moreover have "\<forall>c \<in> set (orthogonals b). raw_ok c" by (simp add: orthogonals_def orthogonal_def raw_ok_def lit_angles)
  ultimately show ?thesis using assms(1)
    by (auto simp: transform_angle_candidates_def orthogonals_def raw_ok_def usable_ok_def angle_ok_grid_value)
qed

subsection \<open>The choices\<close>

definition apart :: "f64 \<Rightarrow> transform_choice \<Rightarrow> transform_choice \<Rightarrow> bool" where
  "apart t a b \<longleftrightarrow> choice_mirrored a \<noteq> choice_mirrored b \<or>
    \<not> fle (circular_distance_deg (choice_rotation_deg a) (choice_rotation_deg b)) t"

lemma append_distinct_apart:
  assumes "sorted_wrt (apart t) cs"
  shows "sorted_wrt (apart t) (append_distinct_choice t c cs)" "set (append_distinct_choice t c cs) \<subseteq> insert c (set cs)"
  using assms by (auto simp: append_distinct_choice_def sorted_wrt_append list_ex_iff apart_def)

text \<open>A choice made of a candidate, mirrored or one of those tried unmirrored.\<close>

definition choice_of :: "angle_candidate set \<Rightarrow> angle_candidate set \<Rightarrow> transform_choice \<Rightarrow> bool" where
  "choice_of C N x \<longleftrightarrow> (\<exists>c m. x = to_transform_choice c m \<and> c \<in> C \<and> (m \<or> c \<in> N))"

lemma choice_of_intros: "c \<in> C \<Longrightarrow> choice_of C N (to_transform_choice c True)"
  "c \<in> C \<Longrightarrow> c \<in> N \<Longrightarrow> choice_of C N (to_transform_choice c False)"
  by (auto simp: choice_of_def)

lemma append_both_apart:
  "sorted_wrt (apart t) es \<Longrightarrow> (\<forall>x \<in> set es. choice_of C N x) \<Longrightarrow> set cs \<subseteq> C \<inter> N \<Longrightarrow>
    e = foldl (\<lambda>extra c. append_distinct_choice t (to_transform_choice c False)
      (append_distinct_choice t (to_transform_choice c True) extra)) es cs \<Longrightarrow>
    sorted_wrt (apart t) e \<and> (\<forall>x \<in> set e. choice_of C N x)"
proof (induction cs arbitrary: es)
  case (Cons c cs)
  let ?a = "append_distinct_choice t (to_transform_choice c True) es"
  let ?b = "append_distinct_choice t (to_transform_choice c False) ?a"
  note a = append_distinct_apart [OF Cons.prems(1), of "to_transform_choice c True"]
  note b = append_distinct_apart [OF a(1), of "to_transform_choice c False"]
  have "choice_of C N x" if "x \<in> set ?b" for x
  proof -
    have "x = to_transform_choice c False \<or> x = to_transform_choice c True \<or> x \<in> set es" using that a(2) b(2) by blast
    then show ?thesis using Cons.prems(2,3) choice_of_intros [of c C N] by auto
  qed
  with b(1) show ?case using Cons.IH [of ?b] Cons.prems(3,4) by simp
qed simp

lemma append_mirrored_apart:
  "sorted_wrt (apart t) es \<Longrightarrow> (\<forall>x \<in> set es. choice_of C N x) \<Longrightarrow> set cs \<subseteq> C \<Longrightarrow>
    e = foldl (\<lambda>extra c. append_distinct_choice t (to_transform_choice c True) extra) es cs \<Longrightarrow>
    sorted_wrt (apart t) e \<and> (\<forall>x \<in> set e. choice_of C N x)"
proof (induction cs arbitrary: es)
  case (Cons c cs)
  let ?a = "append_distinct_choice t (to_transform_choice c True) es"
  note a = append_distinct_apart [OF Cons.prems(1), of "to_transform_choice c True"]
  have "choice_of C N x" if "x \<in> set ?a" for x
  proof -
    have "x = to_transform_choice c True \<or> x \<in> set es" using that a(2) by blast
    then show ?thesis using Cons.prems(2,3) choice_of_intros [of c C N] by auto
  qed
  with a(1) show ?case using Cons.IH [of ?a] Cons.prems(3,4) by simp
qed simp

lemma take_take_append: "xs = take n ys \<Longrightarrow> xs @ take (n - length xs) zs = take n (ys @ zs)"
  by (cases "n \<le> length ys") simp_all

text \<open>Whatever the flags, the choices are the unmirrored orthogonal ones and then others, cut at the cap.\<close>

definition separate :: "f64 \<Rightarrow> transform_choice \<Rightarrow> transform_choice \<Rightarrow> bool" where
  "separate t a b \<longleftrightarrow> (choice_reason a = Orthogonal \<and> choice_reason b = Orthogonal \<and> \<not> choice_mirrored a) \<or> apart t a b"

lemma unmirrored [simp]: "to_transform_choice c False =
    \<lparr>choice_rotation_deg = angle_rotation_deg c, choice_reason = angle_reason c, choice_mirrored = False\<rparr>"
  by (simp add: to_transform_choice_def)

lemma to_transform_choice_sel [simp]:
  "choice_mirrored (to_transform_choice c m) = m" "choice_reason (to_transform_choice c m) = angle_reason c"
  by (simp_all add: to_transform_choice_def)

lemma far_separate: "far t a b \<Longrightarrow> separate t (to_transform_choice a False) (to_transform_choice b False)"
  by (auto simp: far_def is_near_duplicate_def separate_def apart_def circular_distance_sym)

lemma select_form:
  fixes angles :: "angle_candidate list"
  defines "base \<equiv> filter (\<lambda>c. angle_reason c = Orthogonal) angles"
    and "others \<equiv> filter (\<lambda>c. angle_reason c \<noteq> Orthogonal) angles"
  assumes far: "sorted_wrt (far t) angles"
  obtains xs where "select_transform_choices angles cap b t = take cap (map (\<lambda>c. to_transform_choice c False) base @ xs)"
    "\<forall>x \<in> set xs. choice_of (set angles) (set others) x \<and> (choice_mirrored x \<longrightarrow> b)"
    "sorted_wrt (separate t) (map (\<lambda>c. to_transform_choice c False) base @ xs)"
proof -
  let ?f = "\<lambda>c. to_transform_choice c False"
  have "mset angles = mset (base @ others)" unfolding base_def others_def by (simp add: multiset_partition [symmetric])
  then have fb: "sorted_wrt (far t) (base @ others)" using sorted_wrt_mset [OF far_sym _ far] by blast
  then have fm: "sorted_wrt (separate t) (map ?f (base @ others))"
    unfolding sorted_wrt_map by (rule sorted_wrt_mono_rel [rotated]) (rule far_separate)
  have ot: "\<forall>x \<in> set (map ?f others). choice_of (set angles) (set others) x \<and> (choice_mirrored x \<longrightarrow> b)"
    using choice_of_intros(2) [of _ "set angles" "set others"] by (auto simp: others_def simp del: unmirrored)
  let ?sel = "take cap (map ?f base)"
  consider "\<not> b" | "b" "cap \<le> length ?sel" | "b" "\<not> cap \<le> length ?sel" by blast
  then show thesis
  proof cases
    case 1
    have "select_transform_choices angles cap b t = take cap (?sel @ take (cap - length ?sel) (map ?f others))"
      using 1 by (simp add: select_transform_choices_def base_def others_def Let_def del: unmirrored)
    also have "\<dots> = take cap (map ?f base @ map ?f others)" by (simp only: take_take_append [OF refl] take_take min.idem)
    finally show ?thesis using that [of "map ?f others"] ot fm by simp
  next
    case 2
    have "select_transform_choices angles cap b t = take cap ?sel"
      using 2 by (simp add: select_transform_choices_def base_def others_def Let_def del: unmirrored)
    then show ?thesis using that [of "[]"] fm by (simp add: sorted_wrt_append)
  next
    case 3
    define e1 where "e1 = foldl (\<lambda>extra c. append_distinct_choice t (to_transform_choice c False)
      (append_distinct_choice t (to_transform_choice c True) extra)) [] others"
    define e2 where "e2 = foldl (\<lambda>extra c. append_distinct_choice t (to_transform_choice c True) extra) e1 base"
    have "sorted_wrt (apart t) e1 \<and> (\<forall>x \<in> set e1. choice_of (set angles) (set others) x)"
      by (rule append_both_apart [OF _ _ _ e1_def]) (auto simp: others_def)
    then have e2: "sorted_wrt (apart t) e2 \<and> (\<forall>x \<in> set e2. choice_of (set angles) (set others) x)"
      by (intro append_mirrored_apart [OF _ _ _ e2_def]) (auto simp: base_def)
    have "select_transform_choices angles cap b t = ?sel @ take (cap - length ?sel) e2"
      using 3 by (simp add: select_transform_choices_def base_def others_def e1_def e2_def Let_def del: unmirrored)
    then have s: "select_transform_choices angles cap b t = take cap (map ?f base @ e2)" by (simp only: take_take_append)
    have "separate t (?f c) x" if cx: "c \<in> set base" "x \<in> set e2" for c x
    proof (cases "choice_mirrored x")
      case False
      then obtain d where d: "x = ?f d" "d \<in> set others" using e2 cx(2) by (auto simp: choice_of_def)
      then have "far t c d" using fb cx(1) by (simp add: sorted_wrt_append)
      then show ?thesis unfolding d(1) by (rule far_separate)
    qed (simp add: separate_def apart_def)
    moreover have "sorted_wrt (separate t) e2"
      using e2 by (auto intro: sorted_wrt_mono_rel [rotated] simp: separate_def)
    ultimately have "sorted_wrt (separate t) (map ?f base @ e2)" using fm by (simp add: sorted_wrt_append del: unmirrored)
    then show ?thesis using that [OF s] e2 3(1) by blast
  qed
qed

lemma choice_angle_ok:
  assumes "choice_of C N x" "\<forall>c \<in> C. candidate_ok c"
  shows "angle_ok (choice_rotation_deg x)"
proof -
  obtain c m where x: "x = to_transform_choice c m" and c: "angle_ok (angle_rotation_deg c)"
    using assms by (auto simp: choice_of_def candidate_ok_def)
  have "grid_value (fsub (lit 180) (angle_rotation_deg c))" by (rule f64_ok_grid_value [OF f64_ok_fsub])
  then have "angle_ok r" if "normalize_rotation_deg (fsub (lit 180) (angle_rotation_deg c)) = Some r" for r
    using normalize_angle_ok that by blast
  then show ?thesis using c by (auto simp: x to_transform_choice_def split: option.splits)
qed

subsection \<open>What the generator returns\<close>

abbreviation candidate_view :: "transform_candidate \<Rightarrow> f64 \<times> bool \<times> transform_reason" where
  "candidate_view c \<equiv> (candidate_rotation_deg c, candidate_mirrored c, candidate_reason c)"

abbreviation choice_view :: "transform_choice \<Rightarrow> f64 \<times> bool \<times> transform_reason" where
  "choice_view c \<equiv> (choice_rotation_deg c, choice_mirrored c, choice_reason c)"

lemma numbered_choices_facts:
  "map candidate_view (numbered_choices cs) = map choice_view cs"
  "map candidate_index (numbered_choices cs) = map (\<lambda>i. lit (of_nat i)) [0..<length cs]"
  "length (numbered_choices cs) = length cs"
proof -
  have "map candidate_view (numbered_choices cs) = map choice_view (map snd (enumerate 0 cs))"
    by (simp add: numbered_choices_def case_prod_unfold del: map_snd_enumerate)
  then show "map candidate_view (numbered_choices cs) = map choice_view cs" by simp
  have "map candidate_index (numbered_choices cs) = map (\<lambda>i. lit (of_nat i)) (map fst (enumerate 0 cs))"
    by (simp add: numbered_choices_def case_prod_unfold del: map_fst_enumerate)
  then show "map candidate_index (numbered_choices cs) = map (\<lambda>i. lit (of_nat i)) [0..<length cs]" by simp
qed (simp add: numbered_choices_def)

text \<open>What holds of the choices, seen through their angle, mirror flag and reason, holds of the numbered candidates.\<close>

lemma numbered_choices_views:
  "(\<forall>c \<in> set (take n (numbered_choices cs)). P (candidate_view c)) \<longleftrightarrow> (\<forall>x \<in> set (take n cs). P (choice_view x))"
  "sorted_wrt (\<lambda>a b. Q (candidate_view a) (candidate_view b)) (numbered_choices cs) \<longleftrightarrow>
    sorted_wrt (\<lambda>a b. Q (choice_view a) (choice_view b)) cs"
proof -
  have "map candidate_view (take n (numbered_choices cs)) = map choice_view (take n cs)"
    using numbered_choices_facts(1) [of cs] by (simp only: take_map [symmetric])
  then have v: "set (map candidate_view (take n (numbered_choices cs))) = set (map choice_view (take n cs))" by (rule arg_cong)
  have "(\<forall>c \<in> set (take n (numbered_choices cs)). P (candidate_view c)) \<longleftrightarrow>
      (\<forall>y \<in> set (map candidate_view (take n (numbered_choices cs))). P y)" by simp
  also have "\<dots> \<longleftrightarrow> (\<forall>x \<in> set (take n cs). P (choice_view x))" unfolding v by simp
  finally show "(\<forall>c \<in> set (take n (numbered_choices cs)). P (candidate_view c)) \<longleftrightarrow> (\<forall>x \<in> set (take n cs). P (choice_view x))" .
  show "sorted_wrt (\<lambda>a b. Q (candidate_view a) (candidate_view b)) (numbered_choices cs) \<longleftrightarrow>
    sorted_wrt (\<lambda>a b. Q (choice_view a) (choice_view b)) cs"
    using sorted_wrt_map [of Q candidate_view "numbered_choices cs"] sorted_wrt_map [of Q choice_view cs]
    unfolding numbered_choices_facts(1) by blast
qed

text \<open>
  The selected choices: a prefix of the orthogonal rotations followed by others, each with an angle in range
  and within the piece's permissions, and pairwise separate by the tolerance of the policy.
\<close>

definition permitted :: "generate_transforms_input \<Rightarrow> f64 \<times> bool \<times> transform_reason \<Rightarrow> bool" where
  "permitted input = (\<lambda>(r, m, k). 0 \<le> f64_val r \<and> f64_val r \<le> 360 \<and> (m \<longrightarrow> gt_allow_mirror input) \<and>
    (k \<noteq> Orthogonal \<longrightarrow> gt_allow_rotation input))"

lemma generated_choices:
  assumes "generate_transforms fatan2 fasin fhypot robust input = Inr out"
    and "\<forall>a b. f64_ok (fatan2 a b)" "\<forall>a b. f64_ok (fhypot a b)" "\<forall>r \<in> set (configured_rotation_deg (gt_settings input)). f64_ok r"
  obtains t xs where
    "effective_transform_angle_deduplication_tolerance_deg fasin fhypot (gt_geometry_settings input) (gt_settings input)
      (gt_boundary input) = Inr t"
    "out = numbered_choices (take (positive_integer_setting_as_usize (transform_cap (gt_settings input)))
      (map (\<lambda>c. to_transform_choice c False) (orthogonals (gt_allow_rotation input)) @ xs))"
    "\<forall>x \<in> set (map (\<lambda>c. to_transform_choice c False) (orthogonals (gt_allow_rotation input)) @ xs). permitted input (choice_view x)"
    "sorted_wrt (separate t) (map (\<lambda>c. to_transform_choice c False) (orthogonals (gt_allow_rotation input)) @ xs)"
proof -
  let ?cap = "positive_integer_setting_as_usize (transform_cap (gt_settings input))" and ?b = "gt_allow_rotation input"
  let ?raw = "transform_angle_candidates ?b (gt_settings input)"
  obtain p es kept where p: "derive_effective_transform_policy fasin fhypot (gt_geometry_settings input) (gt_settings input)
      (gt_boundary input) = Inr p" and es: "derive_usable_edges fatan2 fhypot (gt_boundary input) (minimum_edge_length_mm p) = Inr es"
    and d: "deduplicate_angles (?raw es) (angle_deduplication_tolerance_deg p) = Inr kept"
    and out: "out = numbered_choices (select_transform_choices kept ?cap (gt_allow_mirror input) (angle_deduplication_tolerance_deg p))"
    using assms(1) by (auto simp: generate_transforms_def Let_def split: strict_convex_boundary_validation.splits sum.splits)
  let ?t = "angle_deduplication_tolerance_deg p"
  have raw: "\<forall>c \<in> set (?raw es). raw_ok c"
    using raw_candidates_ok usable_edges_ok [OF assms(2,3)] es assms(4) unfolding derive_usable_edges_def by blast
  obtain ns where n: "normalize_candidates (?raw es) = Inr ns"
    using d by (auto simp: deduplicate_angles_def and_then_Inr_iff)
  note f = deduplicate_facts [OF d n raw]
  have kept_ok: "\<forall>c \<in> set kept. candidate_ok c" using normalize_candidates_ok [OF n raw] f(1) by blast
  have kept_orth: "angle_reason c = Orthogonal" if "c \<in> set kept" "\<not> ?b" for c
    using kept_orthogonals(2) [OF d raw that(2)] that by (auto simp: orthogonals_def orthogonal_def)
  let ?base = "map (\<lambda>c. to_transform_choice c False) (orthogonals ?b)"
  obtain xs where sel: "select_transform_choices kept ?cap (gt_allow_mirror input) ?t = take ?cap (?base @ xs)"
    and xs: "\<forall>x \<in> set xs. choice_of (set kept) (set (filter (\<lambda>c. angle_reason c \<noteq> Orthogonal) kept)) x \<and>
      (choice_mirrored x \<longrightarrow> gt_allow_mirror input)"
    and sep: "sorted_wrt (separate ?t) (?base @ xs)"
    by (rule select_form [OF f(3), unfolded kept_orthogonals(1) [OF d raw]])
  have good: "permitted input (choice_view x)" if "x \<in> set (?base @ xs)" for x
  proof (cases "x \<in> set xs")
    case True
    then have "angle_ok (choice_rotation_deg x)" using choice_angle_ok kept_ok xs by blast
    moreover obtain c m where "x = to_transform_choice c m" "c \<in> set kept" using xs True unfolding choice_of_def by blast
    then have "choice_reason x \<noteq> Orthogonal \<longrightarrow> ?b" using kept_orth by auto
    ultimately show ?thesis using xs True by (auto simp: permitted_def angle_ok_def simp del: to_transform_choice_sel)
  next
    case False
    then show ?thesis using that by (auto simp: permitted_def orthogonals_def orthogonal_def lit_angles split: if_splits)
  qed
  show ?thesis
  proof (rule that)
    show "effective_transform_angle_deduplication_tolerance_deg fasin fhypot (gt_geometry_settings input) (gt_settings input)
        (gt_boundary input) = Inr ?t" using p by (simp add: effective_transform_angle_deduplication_tolerance_deg_def)
  qed (use out sel good sep in \<open>simp_all only:\<close>, blast)
qed

text \<open>
  C9. The generated transforms. With library functions that return floats and finite configured angles, the
  list is no longer than the cap and numbered from zero; every rotation is an angle between zero and a full
  turn; mirrored and non-orthogonal ones occur only where the piece allows them; the first ones are the
  unmirrored orthogonal rotations in ascending order; and two that are mirrored alike are farther apart
  than the tolerance of the policy, unless both are unmirrored orthogonal rotations.
\<close>

theorem generated_transforms_sound:
  assumes "generate_transforms fatan2 fasin fhypot robust input = Inr out"
    and "\<forall>a b. f64_ok (fatan2 a b)" "\<forall>a b. f64_ok (fhypot a b)" "\<forall>r \<in> set (configured_rotation_deg (gt_settings input)). f64_ok r"
  shows "length out \<le> positive_integer_setting_as_usize (transform_cap (gt_settings input)) \<and>
    map candidate_index out = map (\<lambda>i. lit (of_nat i)) [0..<length out] \<and>
    (\<forall>c \<in> set out. 0 \<le> f64_val (candidate_rotation_deg c) \<and> f64_val (candidate_rotation_deg c) \<le> 360 \<and>
      (candidate_mirrored c \<longrightarrow> gt_allow_mirror input) \<and> (candidate_reason c \<noteq> Orthogonal \<longrightarrow> gt_allow_rotation input)) \<and>
    (let n = min (length out) (if gt_allow_rotation input then 4 else 1) in
      map candidate_rotation_deg (take n out) = take n [lit 0, lit 90, lit 180, lit 270] \<and>
      (\<forall>c \<in> set (take n out). \<not> candidate_mirrored c \<and> candidate_reason c = Orthogonal)) \<and>
    (\<exists>tolerance. effective_transform_angle_deduplication_tolerance_deg fasin fhypot (gt_geometry_settings input) (gt_settings input)
        (gt_boundary input) = Inr tolerance \<and>
      sorted_wrt (\<lambda>a b. candidate_mirrored a \<noteq> candidate_mirrored b \<or>
        candidate_reason a = Orthogonal \<and> candidate_reason b = Orthogonal \<and> \<not> candidate_mirrored a \<or>
        \<not> fle (circular_distance_deg (candidate_rotation_deg a) (candidate_rotation_deg b)) tolerance) out)"
proof -
  let ?cap = "positive_integer_setting_as_usize (transform_cap (gt_settings input))" and ?b = "gt_allow_rotation input"
  let ?base = "map (\<lambda>c. to_transform_choice c False) (orthogonals ?b)"
  obtain t xs where t: "effective_transform_angle_deduplication_tolerance_deg fasin fhypot (gt_geometry_settings input) (gt_settings input)
      (gt_boundary input) = Inr t" and o: "out = numbered_choices (take ?cap (?base @ xs))"
    and good: "\<forall>x \<in> set (?base @ xs). permitted input (choice_view x)" and sep: "sorted_wrt (separate t) (?base @ xs)"
    by (rule generated_choices [OF assms])
  let ?cs = "take ?cap (?base @ xs)"
  have len: "length out = length ?cs" unfolding o by (rule numbered_choices_facts)
  then have 1: "length out \<le> ?cap" by simp
  have 2: "map candidate_index out = map (\<lambda>i. lit (of_nat i)) [0..<length out]"
    unfolding len unfolding o by (rule numbered_choices_facts)
  have "\<forall>c \<in> set (take (length out) out). permitted input (candidate_view c)"
    unfolding o numbered_choices_views(1) using good set_take_subset by (meson subsetD)
  then have 3: "\<forall>c \<in> set out. permitted input (candidate_view c)" by simp
  let ?n = "min (length out) (if ?b then 4 else 1)"
  have n: "take ?n ?cs = take ?n ?base"
  proof -
    have "?n \<le> ?cap" "?n \<le> length ?base" using 1 by (auto simp: orthogonals_def)
    then show ?thesis by (simp add: min_absorb1)
  qed
  have "map candidate_rotation_deg (take ?n out) = map fst (take ?n (map candidate_view out))" by (simp add: take_map)
  also have "\<dots> = map choice_rotation_deg (take ?n ?cs)" unfolding o numbered_choices_facts(1) by (simp add: take_map)
  also have "\<dots> = take ?n [lit 0, lit 90, lit 180, lit 270]"
    unfolding n by (cases "length out") (simp_all add: take_map [symmetric] orthogonals_def orthogonal_def lit_angles lit_zero)
  finally have 4: "map candidate_rotation_deg (take ?n out) = take ?n [lit 0, lit 90, lit 180, lit 270]" .
  have "\<forall>x \<in> set (take ?n ?cs). \<not> choice_mirrored x \<and> choice_reason x = Orthogonal"
    unfolding n by (auto simp: orthogonals_def orthogonal_def dest!: in_set_takeD split: if_splits)
  then have 5: "\<forall>c \<in> set (take ?n out). \<not> candidate_mirrored c \<and> candidate_reason c = Orthogonal"
    using numbered_choices_views(1) [of ?n ?cs "\<lambda>(r, m, k). \<not> m \<and> k = Orthogonal"] unfolding o by simp
  have "sorted_wrt (separate t) ?cs" using sep by (rule sorted_wrt_take)
  then have 6: "sorted_wrt (\<lambda>a b. candidate_mirrored a \<noteq> candidate_mirrored b \<or>
        candidate_reason a = Orthogonal \<and> candidate_reason b = Orthogonal \<and> \<not> candidate_mirrored a \<or>
        \<not> fle (circular_distance_deg (candidate_rotation_deg a) (candidate_rotation_deg b)) t) out"
    using numbered_choices_views(2) [of "\<lambda>(r, m, k) (r', m', k'). m \<noteq> m' \<or> k = Orthogonal \<and> k' = Orthogonal \<and> \<not> m \<or>
      \<not> fle (circular_distance_deg r r') t" ?cs] unfolding o by (auto simp: separate_def apart_def elim: sorted_wrt_mono_rel [rotated])
  show ?thesis
  proof (intro conjI exI [of _ t])
    show "\<forall>c \<in> set out. 0 \<le> f64_val (candidate_rotation_deg c) \<and> f64_val (candidate_rotation_deg c) \<le> 360 \<and>
      (candidate_mirrored c \<longrightarrow> gt_allow_mirror input) \<and> (candidate_reason c \<noteq> Orthogonal \<longrightarrow> ?b)"
      using 3 by (simp add: permitted_def)
    show "let n = ?n in map candidate_rotation_deg (take n out) = take n [lit 0, lit 90, lit 180, lit 270] \<and>
      (\<forall>c \<in> set (take n out). \<not> candidate_mirrored c \<and> candidate_reason c = Orthogonal)"
      unfolding Let_def by (rule conjI [OF 4 5])
  qed (rule 1 2 6 t)+
qed

end
