(* ===== verification/TransformWitness.thy ===== *)
theory TransformWitness
  imports TransformGenerator IntPoints
begin

text \<open>
  A concrete run of the transform generator: the kite of the placement examples, with mirroring, without
  edge alignment, at most six transforms.
\<close>

definition sample_transform_input :: generate_transforms_input where
  "sample_transform_input = \<lparr>gt_boundary = kite, gt_allow_rotation = True, gt_allow_mirror = True,
    gt_geometry_settings = geometry Protocol.sample_settings,
    gt_settings = (optimizer Protocol.sample_settings)\<lparr>intrinsic_shared_archive_enabled := False, transform_cap := fi 6,
      edge_alignment_enabled := False, configured_rotation_enabled := False\<rparr>\<rparr>"

lemma kite_checked: "check_strict_boundary sign_robust kite = Valid 1"
proof -
  have "scan_turns sign_robust kite = \<lparr>scan_winding = Some 1, scan_failure = None\<rparr>"
    by (simp add: scan_turns_def kite_def corners_4 Let_def)
  moreover have "\<not> Convex.has_self_intersection sign_robust (polygon_edges kite)"
    using convex_no_self_intersection [of sign_robust kite 1] kite_facts(2) by simp
  ultimately show ?thesis
    by (simp add: check_strict_boundary_def Let_def) (simp add: kite_def edges_4)
qed

lemma degrees_per_radian_finite: "\<exists>m. DEGREES_PER_RADIAN = Finite False m"
proof -
  let ?q = "180 / (884279719003555 / 281474976710656) :: rat"
  have "round_mag ?q \<le> round_mag (of_int 360)" by (intro round_mag_mono) simp_all
  also have "\<dots> = 360" using round_mag_int [of 360] by simp
  finally have "round_mag ?q < f64_top" by (simp add: f64_top_def)
  moreover have "DEGREES_PER_RADIAN = round_to False ?q" by (simp add: DEGREES_PER_RADIAN_def F64_PI_def lit_angles)
  ultimately have "DEGREES_PER_RADIAN = Finite False (round_mag ?q)" by (simp add: round_to_def Let_def)
  then show ?thesis by (rule exI)
qed

lemma generated_transforms_sound_witness:
  "\<exists>out. generate_transforms (\<lambda>_ _. fi 0) (\<lambda>_. fi 0) (\<lambda>_ _. fi 0) sign_robust sample_transform_input = Inr out \<and>
    length out \<le> 6 \<and> map candidate_rotation_deg (take (min (length out) 4) out) =
      take (min (length out) 4) [lit 0, lit 90, lit 180, lit 270]"
proof -
  let ?s = "gt_settings sample_transform_input"
  obtain m where d: "DEGREES_PER_RADIAN = Finite False m" using degrees_per_radian_finite by blast
  have n: "normalize_rotation_deg (Finite s 0) = Some f64_zero" for s
    by (simp add: normalize_rotation_deg_def full_turn fold_negative_zero_def Let_def)
  have p: "derive_effective_transform_policy (\<lambda>_. fi 0) (\<lambda>_ _. fi 0) (gt_geometry_settings sample_transform_input) ?s kite =
      Inr \<lparr>minimum_edge_length_mm = f64_one, angle_deduplication_tolerance_deg = f64_one\<rparr>"
    by (simp add: derive_effective_transform_policy_def intrinsic_shared_archive_eligible_def sample_transform_input_def
        Protocol.sample_settings_def)
  have z: "fmul (fi 0) DEGREES_PER_RADIAN = f64_zero" by (simp add: d fi_def round_to_def f64_top_def)
  have e: "derive_usable_edges (\<lambda>_ _. fi 0) (\<lambda>_ _. fi 0) kite f64_one = Inr []"
    by (simp add: derive_usable_edges_def kite_def edges_4 z n Let_def f64_one_def) (simp add: fi_def fle_def)
  have r: "transform_angle_candidates True ?s [] = orthogonals True"
    by (simp add: transform_angle_candidates_def orthogonals_def sample_transform_input_def)
  obtain kept where k: "deduplicate_angles (orthogonals True) f64_one = Inr kept"
    by (simp add: deduplicate_angles_def normalize_orthogonals)
  obtain out where out: "generate_transforms (\<lambda>_ _. fi 0) (\<lambda>_. fi 0) (\<lambda>_ _. fi 0) sign_robust sample_transform_input = Inr out"
  proof (rule that)
    have b: "gt_boundary sample_transform_input = kite" "gt_allow_rotation sample_transform_input" by (simp_all add: sample_transform_input_def)
    show "generate_transforms (\<lambda>_ _. fi 0) (\<lambda>_. fi 0) (\<lambda>_ _. fi 0) sign_robust sample_transform_input =
      Inr (numbered_choices (select_transform_choices kept (positive_integer_setting_as_usize (transform_cap ?s))
        (gt_allow_mirror sample_transform_input) f64_one))"
      by (simp add: generate_transforms_def b kite_checked p e r k)
  qed
  have "\<forall>x \<in> set (configured_rotation_deg ?s). f64_ok x" by (simp add: sample_transform_input_def Protocol.sample_settings_def)
  note s = generated_transforms_sound [OF out _ _ this]
  have "positive_integer_setting_as_usize (transform_cap ?s) = 6"
    by (simp add: sample_transform_input_def positive_integer_setting_as_usize_def fi_def fle_def)
  moreover have "gt_allow_rotation sample_transform_input" by (simp add: sample_transform_input_def)
  ultimately show ?thesis using out s by (auto simp: Let_def)
qed


end
