(* ===== verification/Spec2Isabelle.thy ===== *)
theory Spec2Isabelle
  imports AnytimeArchive CandidateWitness CollisionFamily GridContact NapiJob PolygonImport ResolveWitness TransformWitness
begin

text \<open>
  A verification library for the polygon-nesting engine: a Rust core that packs polygons on a sheet,
  a wire protocol, and the command line and N-API hosts around it.

  \<^bold>\<open>The program and its parts.\<close> A host reads a request (\<open>crates/polygon-nesting-protocol/src/request.rs\<close>;
  the command line can build one from a polygon document, \<open>crates/polygon-nesting-cli/src/polygon_input.rs\<close>)
  and hands it to the core's job (\<open>crates/polygon-nesting-core/src/job.rs\<close>) with a cancellation control
  (\<open>control.rs\<close>) and an event sink (\<open>events.rs\<close>). The job validates and canonicalizes the request
  (\<open>search/sort_pieces.rs\<close>), runs the search, and commits one terminal result. The search asks the candidate
  generator (\<open>nfp_ifp\<close>) where a piece may touch the placed ones; the generator resolves no-fit polygons and
  inner-fit rectangles through a geometry cache (\<open>caches\<close>) and admits a point only when the placement validator
  (\<open>validation\<close>), helped by a spatial index, calls it legal. Behind N-API a bridge forwards the events and a
  latch hands over the last one (\<open>crates/polygon-nesting-napi/src\<close>).

  \<^bold>\<open>Theories and code.\<close> Below, paths are under \<open>crates/polygon-nesting-core/src\<close> unless they name a crate.

  \<^item> \<open>Prelude\<close>: orderings, \<open>slice::sort_by\<close>, saturating and checked \<open>u64\<close>, sums as results, and the locales
    several components share (\<open>comparator\<close>, \<open>first_writer\<close>, \<open>simulation\<close>). \<open>F64\<close>, \<open>F64Eval\<close>: binary64 as
    exact rationals with rounding, executable; every float operation of the source is one of these.
  \<^item> \<open>Control\<close> (\<open>control.rs\<close>), \<open>CoreJob\<close> (\<open>job.rs\<close>), \<open>SortPieces\<close> (\<open>search/sort_pieces.rs\<close>), \<open>Protocol\<close> (the protocol
    crate's requests, errors and exact decimals), \<open>Events\<close> (\<open>events.rs\<close>, the sequencer).
  \<^item> \<open>TerminalLatch\<close>, \<open>Bridge\<close>, \<open>NapiJob\<close>: the N-API crate's \<open>events.rs\<close>, \<open>job.rs\<close>, \<open>registry.rs\<close>. The latch is a
    step relation with one shared access per step, over all interleavings of its three parties.
  \<^item> \<open>PolygonInput\<close>, \<open>PolygonImport\<close>: the command line's \<open>polygon_input.rs\<close>, and what an import promises.
  \<^item> \<open>Recency\<close>, \<open>CacheKey\<close>, \<open>CacheStore\<close>: \<open>caches/store.rs\<close> with \<open>caches/telemetry.rs\<close>: the recency arena as a doubly
    linked list in an array, the byte-bounded store over it, and its refinement of an LRU association list.
  \<^item> \<open>JsNumber\<close>, \<open>ScoreGrid\<close>, \<open>AnytimeArchive\<close>, \<open>Cycles\<close>: \<open>js_number\<close>, \<open>search/score_grid.rs\<close>, \<open>archive/anytime.rs\<close>.
  \<^item> \<open>GridMath\<close>, \<open>MonotoneChain\<close>, \<open>GridHull\<close>, \<open>GridContact\<close>: \<open>canonical_grid/math.rs\<close> and the grid part of
    \<open>canonical_grid/contact.rs\<close>; the hull is proved against the geometry of a monotone scan.
  \<^item> \<open>Predicates\<close>, \<open>Convex\<close>, \<open>Domain\<close>, \<open>SpatialIndex\<close>, \<open>Placement\<close>: \<open>geometry/predicates.rs\<close>, \<open>geometry/convex.rs\<close>, the
    records of \<open>domain\<close>, \<open>validation/spatial_index.rs\<close>, \<open>validation/placement.rs\<close>. Their proofs: \<open>SpatialQuery\<close> (the grid
    answers like a linear scan), \<open>ConvexGeometry\<close> and \<open>ExactGeometry\<close> (convex rings in the rational plane, and the
    rings of floating-point points there), \<open>Legality\<close> (what a legal placement means), \<open>StrictBoundary\<close> and
    \<open>OneRevolution\<close> (which rings the validation accepts), \<open>HullRing\<close> and \<open>ConvexHull\<close> (the floating-point hull), \<open>IntPoints\<close> (concrete rings).
  \<^item> \<open>NfpBoundary\<close>, with \<open>Minkowski\<close>, \<open>NfpExact\<close>, \<open>NfpRing\<close>, \<open>NfpWitness\<close>: the constructions of
    \<open>nfp_ifp/boundary_core.rs\<close>, the exactness of the reference one, the linked ring of the clean-up.
  \<^item> \<open>TransformGenerator\<close>, \<open>TransformWitness\<close>: \<open>transforms/generator.rs\<close> and \<open>transforms/boundary_check.rs\<close>, the
    orientations a piece is tried in.
  \<^item> \<open>CacheIdentity\<close>, \<open>Rotate\<close>, \<open>GeometryResolve\<close>: cache keys (\<open>caches/nfp_cache_key.rs\<close>,
    \<open>caches/geometry_cache_identity.rs\<close>), \<open>transforms/rotate.rs\<close>, \<open>canonical_grid/offset_policy.rs\<close>, and the three cached
    resolvers with \<open>nfp_ifp/ifp_bounds.rs\<close> and \<open>caches/transform_collision_geometry.rs\<close>. \<open>KeyCycles\<close>: a key of a ring
    determines the ring. \<open>NfpCache\<close>, \<open>NfpStore\<close>: the resolver of no-fit polygons against one key, and against a store
    filled by any requests. \<open>ResolveWitness\<close>: the resolvers on concrete polygons, miss and hit.
  \<^item> \<open>CollisionFamily\<close>: \<open>search/strict_family.rs\<close>, the grouping of copies by shape.
  \<^item> \<open>BoundsIndex\<close>, \<open>Candidates\<close>, \<open>CandidateSafety\<close>, \<open>CandidateMemo\<close>, \<open>CandidateWitness\<close>: \<open>nfp_ifp/candidates.rs\<close>, the
    chunked replay of \<open>parallel.rs\<close>, \<open>nfp_ifp/service.rs\<close> and \<open>caches/legal_candidate_memo.rs\<close>.

  \<^bold>\<open>Conventions.\<close> A struct is a record, an enum a datatype; a field that would clash carries a short prefix.
  Machine integers are words (\<open>u64\<close>, \<open>u32\<close>), lengths and indices naturals.
  A string is a list of characters, the code points below 256, compared by UTF-8 bytes or UTF-16 units as the code does. A \<open>Result\<close> is a sum with the error on the
  left; where code can panic (an \<open>expect\<close>, an index out of range, an empty slice range) the result is an option and
  \<open>None\<close> is the panic, so that \<open>Some\<close> in a theorem says that the code does not panic. State is passed explicitly; an
  \<open>Arc\<close> is an address with the immutable values behind the addresses in a function. Hash maps whose order nothing
  observes are functions, sets or association lists. Parallel maps of the source keep the order of their inputs and
  share nothing, so they are maps.

  \<^bold>\<open>What the lemmas show.\<close> For the placement: the index never changes an assessment, a query of it is exact, and a
  legal placement is disjoint from the placed pieces, except for rings whose boundaries meet in vertices alone, where
  \<open>overlap_test_incomplete\<close> shows that the test of the source misses overlaps. For the generator: every candidate it
  returns is legal, on the grid, and alone in its cell; its sorted index is exact; the generated transforms keep to
  the piece's permissions and the cap. For the caches: the no-fit polygon resolver answers as without a cache for
  every store whose entries were constructed for some requests, since the key determines both polygons (for the
  construction from all vertex pairs, which production selects, and a number rendering as JavaScript documents it),
  and keeps the store such; the resolver of inner-fit bounds answers equal floats; the memo replays an answer to
  requests of the same key. For the families: two copies share one exactly when their keys and shapes agree. For the constructions: the no-fit polygon of the
  production algorithm has exactly the overlapping translations in its interior, where the coordinate differences are
  not rounded; the clean-up of a ring returns. For the job: the control is first-writer-wins and a job returns one
  result that agrees with it, whatever the search does, or panics for want of a thread pool or over diagnostic traces
  that do not project; events are numbered without gaps up to the host; the terminal
  latch returns the one committed outcome, without a lost wake-up; a job's token never controls another job; a
  request's canonical form does not depend on the order of its pieces. For the stores and numbers: the cache refines an
  LRU list with exact accounting and minimal evictions, its keys never collide, grid predicates and hulls are exact,
  score values up to \<open>2 ^ 50\<close> grid units are stable under their round trip.

  \<^bold>\<open>Loops and bounds.\<close> Loops are structural recursion or \<open>function\<close> with a measure: the ring clean-up counts two for
  each active index and one for each pending one, the edge merge the edges left on both sides, a binary search its
  range, the chunked replay the points left. The walk that closes a ring and the walk along the recency list could
  only end for well-formed links, so they are \<open>partial_function (option)\<close> and the theorems prove that they return. No
  definition uses fuel. Theorems about exact geometry name the range in which differences of coordinates are not
  rounded; grid theorems need safe integers (\<open>2 ^ 53 - 1\<close>), as the code checks.

  \<^bold>\<open>Parameters.\<close> Code that is not in the repository is an argument: the adaptive orientation predicate (crate
  \<open>robust\<close>; \<open>exact_on\<close> is its documented contract), \<open>serde_json\<close>, \<open>sha2\<close>, the number formatter \<open>ryu-js\<close>, \<open>cos\<close>, \<open>sin\<close>,
  \<open>asin\<close>, \<open>atan2\<close> and \<open>hypot\<close> of the platform, the JavaScript callback and the caller's control. Capacities of strings and vectors
  and the sizes of structs, which the allocator and the compiler choose, are fields of \<open>memory_layout\<close>.

  \<^bold>\<open>Not modelled.\<close> The clipper port (\<open>clipper\<close>) and what rests on its results: offsets (\<open>geometry/collision_builder.rs\<close>),
  free material (\<open>geometry/free_material.rs\<close>, \<open>search/gap_regions.rs\<close>) and the scorers that measure it. The searches
  themselves (\<open>search/strict_decoder.rs\<close>, \<open>search/beam_state.rs\<close>, \<open>capacity\<close>, \<open>short_side\<close>, \<open>archive/periodic_cells.rs\<close>,
  \<open>archive/periodic_family.rs\<close>, \<open>archive/reconstruction.rs\<close>): heuristics of tens of thousands of lines over the
  components modelled here, for which the job's theorems quantify over every search. Field-by-field copies of results,
  serde derivations, telemetry counters and timers, argument parsing, file I/O, the DXF reader. \<open>sort_by\<close> of Rust may
  panic for an inconsistent comparison of NaN coordinates; the hull is modelled without that panic, and every caller
  modelled here validates its points to be finite before.
\<close>

end
